(* ===== verification/Prelude.thy ===== *)
theory Prelude
  imports Main "HOL-Library.Word"
begin

text \<open>
  Shared vocabulary of the development: bytes and fixed-width values, results with a
  \<open>?\<close>-style bind, big-endian numbers, readers that consume a prefix of a byte string,
  and the interface that every field codec of the wire format satisfies.
\<close>

type_synonym byte = "8 word"
type_synonym u16 = "16 word"
type_synonym u32 = "32 word"
type_synonym i32 = "32 word"

named_theorems limits \<open>the numeric limits of the program, unfolded to numerals\<close>

subsection \<open>Results\<close>

text \<open>Rust's \<open>?\<close>: stop at the first error.\<close>

definition try_bind :: "'e + 'a \<Rightarrow> ('a \<Rightarrow> 'e + 'b) \<Rightarrow> 'e + 'b" where
  "try_bind r f = (case r of Inl e \<Rightarrow> Inl e | Inr x \<Rightarrow> f x)"

lemma try_bind_simps [simp]:
  "try_bind (Inl e) f = Inl e"
  "try_bind (Inr x) f = f x"
  by (simp_all add: try_bind_def)

lemma try_bind_eq_Inr: "try_bind r f = Inr y \<longleftrightarrow> (\<exists>x. r = Inr x \<and> f x = Inr y)"
  by (cases r) auto

lemma try_bind_eq_Inl:
  "try_bind r f = Inl e \<longleftrightarrow> r = Inl e \<or> (\<exists>x. r = Inr x \<and> f x = Inl e)"
  by (cases r) auto

text \<open>A guard that fails with an error: \<open>if cond { return Err(e) }\<close>.\<close>

definition guard_err :: "bool \<Rightarrow> 'e \<Rightarrow> 'e + unit" where
  "guard_err c e = (if c then Inl e else Inr ())"

lemma guard_err_eq_Inr [simp]: "guard_err c e = Inr u \<longleftrightarrow> \<not> c"
  by (simp add: guard_err_def)

lemma guard_err_cases [simp]: "guard_err False e = Inr ()" "guard_err True e = Inl e"
  by (simp_all add: guard_err_def)

text \<open>\<open>for x in xs { f(x)?; }\<close>: every element is checked, in order.\<close>

fun try_all :: "('a \<Rightarrow> 'e + unit) \<Rightarrow> 'a list \<Rightarrow> 'e + unit" where
  "try_all f [] = Inr ()"
| "try_all f (x # xs) = try_bind (f x) (\<lambda>_. try_all f xs)"

lemma try_all_eq_Inr: "try_all f xs = Inr u \<longleftrightarrow> (\<forall>x\<in>set xs. f x = Inr ())"
  by (induction xs) (auto simp: try_bind_eq_Inr)

subsection \<open>Big-endian numbers\<close>

text \<open>\<open>be k n\<close> is \<open>to_be_bytes\<close> of a \<open>k\<close>-byte integer, \<open>de\<close> is \<open>from_be_bytes\<close>.\<close>

primrec be :: "nat \<Rightarrow> nat \<Rightarrow> byte list" where
  "be 0 n = []"
| "be (Suc k) n = be k (n div 256) @ [of_nat n]"

definition de :: "byte list \<Rightarrow> nat" where
  "de bs = foldl (\<lambda>a b. a * 256 + unat b) 0 bs"

lemma de_Nil [simp]: "de [] = 0"
  by (simp add: de_def)

lemma de_snoc [simp]: "de (bs @ [b]) = de bs * 256 + unat b"
  by (simp add: de_def)

lemma length_be [simp]: "length (be k n) = k"
  by (induction k arbitrary: n) auto

lemma unat_byte_less: "unat (b :: byte) < 256"
  using unsigned_less [where 'a = nat, of b] by simp

lemma unat_of_nat_byte: "unat (of_nat n :: byte) = n mod 256"
  by (simp add: unat_of_nat take_bit_eq_mod)

lemma de_be_mod: "de (be k n) = n mod 256 ^ k"
proof (induction k arbitrary: n)
  case 0
  then show ?case by simp
next
  case (Suc k)
  have "n div 256 mod 256 ^ k * 256 + n mod 256 = n mod (256 * 256 ^ k)"
    by (simp add: mod_mult2_eq mult.commute)
  with Suc show ?case by (simp add: unat_of_nat_byte)
qed

lemma de_be [simp]: "n < 256 ^ k \<Longrightarrow> de (be k n) = n"
  by (simp add: de_be_mod)

lemma de_less: "de bs < 256 ^ length bs"
proof (induction bs rule: rev_induct)
  case Nil
  then show ?case by simp
next
  case (snoc b bs)
  then have "Suc (de bs) * 256 \<le> 256 ^ length bs * 256"
    by (intro mult_right_mono) simp_all
  then show ?case using unat_byte_less [of b] by simp
qed

lemma be_de: "length bs = k \<Longrightarrow> be k (de bs) = bs"
proof (induction bs arbitrary: k rule: rev_induct)
  case Nil
  then show ?case by simp
next
  case (snoc b bs)
  have "(de bs * 256 + unat b) div 256 = de bs"
    using unat_byte_less [of b] by simp
  moreover have "(of_nat (de bs * 256 + unat b) :: byte) = b"
    by (rule word_unat_eq_iff [THEN iffD2])
      (simp only: unat_of_nat_byte mod_mult_self3 mod_less unat_byte_less)
  ultimately show ?case using snoc by (cases k) auto
qed

lemma be_inject: "m < 256 ^ k \<Longrightarrow> n < 256 ^ k \<Longrightarrow> be k m = be k n \<longleftrightarrow> m = n"
  by (metis de_be)

subsection \<open>Text\<close>

text \<open>The bytes of ASCII text, and of a number in decimal.\<close>

definition ascii :: "string \<Rightarrow> byte list" where
  "ascii s = map of_char s"

fun decimal :: "nat \<Rightarrow> byte list" where
  "decimal n = (if n < 10 then [48 + of_nat n] else decimal (n div 10) @ [48 + of_nat (n mod 10)])"

declare decimal.simps [simp del]

end
