(* ===== verification/Wire.thy ===== *)
theory Wire
  imports Prelude
begin

unbundle bit_operations_syntax

text \<open>
  The primitives of the terminal host's wire format
  (\<^verbatim>\<open>crates/terminal-host/src/protocol.rs\<close>): the limits, the values frames carry, the
  frame splitter, and the field writer and reader. The writer's \<open>expect\<close>s (a field or frame
  of 4 GiB or more) are the result \<open>None\<close>. Every reader satisfies the interface
  \<open>field_codec\<close>: it accepts exactly what its writer produces, for values in range.
\<close>

subsection \<open>Limits\<close>

definition PROTOCOL_VERSION :: u32 where "PROTOCOL_VERSION = 1"
definition SPEC_VERSION :: u32 where "SPEC_VERSION = 1"
definition MAX_FRAME :: nat where "MAX_FRAME = 16 * 1024 * 1024 + 64 * 1024"
definition MAX_SPEC :: nat where "MAX_SPEC = 32 * 1024 * 1024 + 64 * 1024"
definition MAX_SNAPSHOT :: nat where "MAX_SNAPSHOT = 16 * 1024 * 1024"
definition MAX_TAG :: nat where "MAX_TAG = 4 * 1024"
definition MIN_JOURNAL_CAP :: nat where "MIN_JOURNAL_CAP = 64 * 1024"
definition MAX_JOURNAL_CAP :: nat where "MAX_JOURNAL_CAP = 1024 * 1024 * 1024"
definition RECORD_COST :: nat where "RECORD_COST = 64"
definition MAX_INPUT :: nat where "MAX_INPUT = 64 * 1024"
definition MAX_PENDING_INPUT :: nat where "MAX_PENDING_INPUT = 1024 * 1024"
definition INPUT_COST :: nat where "INPUT_COST = 64"
definition OUTGOING_HIGH_WATER :: nat where "OUTGOING_HIGH_WATER = 256 * 1024"
definition MAX_OUTPUT_CHUNK :: nat where "MAX_OUTPUT_CHUNK = 64 * 1024"
definition MAX_PENDING_CONNECTIONS :: nat where "MAX_PENDING_CONNECTIONS = 8"
definition MAX_BEFORE_HELLO :: nat where "MAX_BEFORE_HELLO = 64"
definition MAX_ERROR_MESSAGE :: nat where "MAX_ERROR_MESSAGE = 1024"
definition MAX_DIMENSION :: nat where "MAX_DIMENSION = 10000"

lemmas [limits] = MAX_FRAME_def MAX_SPEC_def MAX_SNAPSHOT_def MAX_TAG_def MIN_JOURNAL_CAP_def
  MAX_JOURNAL_CAP_def RECORD_COST_def MAX_INPUT_def MAX_PENDING_INPUT_def INPUT_COST_def
  OUTGOING_HIGH_WATER_def MAX_OUTPUT_CHUNK_def MAX_PENDING_CONNECTIONS_def
  MAX_BEFORE_HELLO_def MAX_ERROR_MESSAGE_def MAX_DIMENSION_def PROTOCOL_VERSION_def
  SPEC_VERSION_def

text \<open>The timings, in milliseconds.\<close>

definition HELLO_TIMEOUT :: nat where "HELLO_TIMEOUT = 5000"
definition GOODBYE_FLUSH :: nat where "GOODBYE_FLUSH = 1000"
definition EXIT_DRAIN_TIME :: nat where "EXIT_DRAIN_TIME = 200"
definition EXIT_DRAIN_BYTES :: nat where "EXIT_DRAIN_BYTES = 4 * 1024 * 1024"

subsection \<open>Values\<close>

datatype term_size = Size (cols: u16) (rows: u16)

definition size_valid :: "term_size \<Rightarrow> bool" where
  "size_valid s \<longleftrightarrow> 1 \<le> unat (cols s) \<and> unat (cols s) \<le> MAX_DIMENSION
     \<and> 1 \<le> unat (rows s) \<and> unat (rows s) \<le> MAX_DIMENSION"

text \<open>
  Positions. The two counters are \<open>u64\<close>s in the code; here they are natural numbers, and
  \<open>pos_ok\<close> says they fit. No operation of the program subtracts from one below zero.
\<close>

datatype position = Position (offset: nat) (resizes: nat)

definition u64_ok :: "nat \<Rightarrow> bool" where "u64_ok n \<longleftrightarrow> n < 2 ^ 64"

definition pos_ok :: "position \<Rightarrow> bool" where
  "pos_ok p \<longleftrightarrow> u64_ok (offset p) \<and> u64_ok (resizes p)"

definition pos_zero :: position where "pos_zero = Position 0 0"

text \<open>
  The code compares positions one coordinate at a time, which is the product order.
\<close>

instantiation position :: order
begin

definition less_eq_position :: "position \<Rightarrow> position \<Rightarrow> bool" where
  "p \<le> q \<longleftrightarrow> offset p \<le> offset q \<and> resizes p \<le> resizes q"

definition less_position :: "position \<Rightarrow> position \<Rightarrow> bool" where
  "p < q \<longleftrightarrow> p \<le> q \<and> \<not> q \<le> (p :: position)"

instance
  by standard (auto simp: less_eq_position_def less_position_def intro: position.expand)

end

lemma position_le [simp]: "Position a b \<le> Position c d \<longleftrightarrow> a \<le> c \<and> b \<le> d"
  by (simp add: less_eq_position_def)

datatype child_exit = Code i32 | Signal i32

subsection \<open>Framing\<close>

datatype malformed = Malformed string

record raw_frame =
  f_kind :: byte
  f_body :: "byte list"
  f_consumed :: nat

definition split_frame :: "byte list \<Rightarrow> nat \<Rightarrow> malformed + raw_frame option" where
  "split_frame buf limit =
     (if length buf < 4 then Inr None
      else
        let len = de (take 4 buf) in
        if len = 0 then Inl (Malformed ''empty frame'')
        else if len > limit then Inl (Malformed ''frame too long'')
        else if length buf < 4 + len then Inr None
        else
          let frame = take len (drop 4 buf) in
          Inr (Some \<lparr>f_kind = hd frame, f_body = tl frame, f_consumed = 4 + len\<rparr>))"

text \<open>The bytes of a frame: what \<open>Writer::finish\<close> produces, and what the splitter undoes.\<close>

definition frame_bytes :: "byte \<Rightarrow> byte list \<Rightarrow> byte list" where
  "frame_bytes k body = be 4 (Suc (length body)) @ k # body"

lemma length_frame_bytes [simp]: "length (frame_bytes k body) = 5 + length body"
  by (simp add: frame_bytes_def)

lemma split_frame_bytes:
  assumes "Suc (length body) \<le> limit" "Suc (length body) < 2 ^ 32"
  shows "split_frame (frame_bytes k body @ rest) limit
    = Inr (Some \<lparr>f_kind = k, f_body = body, f_consumed = 5 + length body\<rparr>)"
proof -
  have "de (be 4 (Suc (length body))) = Suc (length body)"
    using assms(2) by (intro de_be) simp
  then show ?thesis
    using assms(1) by (simp add: split_frame_def frame_bytes_def)
qed

lemma split_frame_Some:
  assumes "split_frame buf limit = Inr (Some f)"
  shows "buf = frame_bytes (f_kind f) (f_body f) @ drop (f_consumed f) buf"
    and "f_consumed f = 5 + length (f_body f)" and "f_consumed f \<le> length buf"
    and "Suc (length (f_body f)) \<le> limit" and "Suc (length (f_body f)) < 2 ^ 32"
proof -
  define len where "len = de (take 4 buf)"
  define fr where "fr = take len (drop 4 buf)"
  from assms have len: "len \<noteq> 0" "len \<le> limit" "4 + len \<le> length buf"
    and f: "f = \<lparr>f_kind = hd fr, f_body = tl fr, f_consumed = 4 + len\<rparr>"
    by (auto simp: split_frame_def Let_def len_def fr_def split: if_splits)
  from len have lfr: "length fr = len" by (simp add: fr_def)
  with len have fr: "fr = hd fr # tl fr" by (cases fr) auto
  have l4: "length (take 4 buf) = 4" using len by simp
  have "be 4 len = take 4 buf" unfolding len_def using l4 by (rule be_de)
  moreover have "Suc (length (tl fr)) = len" using lfr len by (cases fr) auto
  moreover have "buf = take 4 buf @ fr @ drop (4 + len) buf"
    by (simp add: fr_def add.commute flip: append_assoc take_add)
  ultimately show "buf = frame_bytes (f_kind f) (f_body f) @ drop (f_consumed f) buf"
    using fr f by (simp add: frame_bytes_def)
  show "f_consumed f = 5 + length (f_body f)"
    using \<open>Suc (length (tl fr)) = len\<close> f by simp
  show "f_consumed f \<le> length buf" using len f by simp
  show "Suc (length (f_body f)) \<le> limit"
    using \<open>Suc (length (tl fr)) = len\<close> f len by simp
  have "len < 256 ^ 4" unfolding len_def using de_less [of "take 4 buf"] l4 by simp
  then show "Suc (length (f_body f)) < 2 ^ 32"
    using \<open>Suc (length (tl fr)) = len\<close> f by simp
qed

subsection \<open>The writer\<close>

text \<open>
  A \<open>Writer\<close> holds the frame built so far: four bytes for the length, the kind, then the
  fields. \<open>None\<close> is the panic of an \<open>expect\<close>: a field, a list or a frame whose length does
  not fit a \<open>u32\<close>. The methods are written in the order the code chains them, with
  \<open>write_frame\<close> for \<open>Writer::new(kind)\<dots>finish()\<close>.
\<close>

type_synonym writer = "byte list option"

definition w_new :: "byte \<Rightarrow> writer" where "w_new k = Some [0, 0, 0, 0, k]"

definition w_u8 :: "byte \<Rightarrow> writer \<Rightarrow> writer" where
  "w_u8 v w = map_option (\<lambda>b. b @ [v]) w"

definition w_u16 :: "u16 \<Rightarrow> writer \<Rightarrow> writer" where
  "w_u16 v w = map_option (\<lambda>b. b @ be 2 (unat v)) w"

definition w_u32 :: "u32 \<Rightarrow> writer \<Rightarrow> writer" where
  "w_u32 v w = map_option (\<lambda>b. b @ be 4 (unat v)) w"

definition w_u64 :: "nat \<Rightarrow> writer \<Rightarrow> writer" where
  "w_u64 v w = map_option (\<lambda>b. b @ be 8 v) w"

definition w_i32 :: "i32 \<Rightarrow> writer \<Rightarrow> writer" where
  "w_i32 v w = map_option (\<lambda>b. b @ be 4 (unat v)) w"

definition w_bytes :: "byte list \<Rightarrow> writer \<Rightarrow> writer" where
  "w_bytes v w = (case w of None \<Rightarrow> None
     | Some b \<Rightarrow> if length v < 2 ^ 32 then Some (b @ be 4 (length v) @ v) else None)"

definition w_list :: "byte list list \<Rightarrow> writer \<Rightarrow> writer" where
  "w_list vs w = (case w of None \<Rightarrow> None
     | Some b \<Rightarrow> if length vs < 2 ^ 32
         then fold w_bytes vs (Some (b @ be 4 (length vs))) else None)"

definition w_size :: "term_size \<Rightarrow> writer \<Rightarrow> writer" where
  "w_size s w = w_u16 (rows s) (w_u16 (cols s) w)"

definition w_position :: "position \<Rightarrow> writer \<Rightarrow> writer" where
  "w_position p w = w_u64 (resizes p) (w_u64 (offset p) w)"

definition w_exit :: "child_exit \<Rightarrow> writer \<Rightarrow> writer" where
  "w_exit e w = (case e of Code c \<Rightarrow> w_i32 c (w_u8 0 w) | Signal s \<Rightarrow> w_i32 s (w_u8 1 w))"

definition w_finish :: "writer \<Rightarrow> byte list option" where
  "w_finish w = (case w of None \<Rightarrow> None
     | Some b \<Rightarrow> if length b - 4 < 2 ^ 32
         then Some (be 4 (length b - 4) @ drop 4 b) else None)"

definition write_frame :: "byte \<Rightarrow> (writer \<Rightarrow> writer) list \<Rightarrow> byte list option" where
  "write_frame k ops = w_finish (fold (\<lambda>f w. f w) ops (w_new k))"

text \<open>
  What each method appends, as plain bytes: the reading side is stated against these.
\<close>

definition put_u8 :: "byte \<Rightarrow> byte list" where "put_u8 v = [v]"
definition put_u16 :: "u16 \<Rightarrow> byte list" where "put_u16 v = be 2 (unat v)"
definition put_u32 :: "u32 \<Rightarrow> byte list" where "put_u32 v = be 4 (unat v)"
definition put_u64 :: "nat \<Rightarrow> byte list" where "put_u64 v = be 8 v"
definition put_bool :: "bool \<Rightarrow> byte list" where "put_bool b = [if b then 1 else 0]"
definition put_bytes :: "byte list \<Rightarrow> byte list" where "put_bytes v = be 4 (length v) @ v"
definition put_list :: "byte list list \<Rightarrow> byte list" where
  "put_list vs = be 4 (length vs) @ concat (map put_bytes vs)"
definition put_size :: "term_size \<Rightarrow> byte list" where
  "put_size s = put_u16 (cols s) @ put_u16 (rows s)"
definition put_position :: "position \<Rightarrow> byte list" where
  "put_position p = put_u64 (offset p) @ put_u64 (resizes p)"
definition put_exit :: "child_exit \<Rightarrow> byte list" where
  "put_exit e = (case e of Code c \<Rightarrow> put_u8 0 @ put_u32 c | Signal s \<Rightarrow> put_u8 1 @ put_u32 s)"

lemma length_put [simp]:
  "length (put_u8 v) = 1" "length (put_u16 a) = 2" "length (put_u32 b) = 4"
  "length (put_u64 n) = 8" "length (put_bool t) = 1" "length (put_bytes bs) = 4 + length bs"
  "length (put_size s) = 4" "length (put_position p) = 16" "length (put_exit e) = 5"
  by (simp_all add: put_u8_def put_u16_def put_u32_def put_u64_def put_bool_def put_bytes_def
      put_size_def put_position_def put_exit_def split: child_exit.split)

lemma w_field_Some [simp]:
  "w_u8 v (Some b) = Some (b @ put_u8 v)"
  "w_u16 x (Some b) = Some (b @ put_u16 x)"
  "w_u32 y (Some b) = Some (b @ put_u32 y)"
  "w_u64 n (Some b) = Some (b @ put_u64 n)"
  "w_i32 y (Some b) = Some (b @ put_u32 y)"
  "w_size s (Some b) = Some (b @ put_size s)"
  "w_position p (Some b) = Some (b @ put_position p)"
  "w_exit e (Some b) = Some (b @ put_exit e)"
  by (simp_all add: w_u8_def w_u16_def w_u32_def w_u64_def w_i32_def w_size_def w_position_def
      w_exit_def put_u8_def put_u16_def put_u32_def put_u64_def put_size_def put_position_def
      put_exit_def split: child_exit.split)

lemma w_bytes_Some [simp]:
  "length v < 2 ^ 32 \<Longrightarrow> w_bytes v (Some b) = Some (b @ put_bytes v)"
  by (simp add: w_bytes_def put_bytes_def)

lemma fold_w_bytes_Some:
  "\<forall>v\<in>set vs. length v < 2 ^ 32 \<Longrightarrow>
    fold w_bytes vs (Some b) = Some (b @ concat (map put_bytes vs))"
  by (induction vs arbitrary: b) auto

lemma w_list_Some [simp]:
  "length vs < 2 ^ 32 \<Longrightarrow> \<forall>v\<in>set vs. length v < 2 ^ 32 \<Longrightarrow>
    w_list vs (Some b) = Some (b @ put_list vs)"
  by (simp add: w_list_def put_list_def fold_w_bytes_Some)

lemma w_finish_Some:
  "Suc (length body) < 2 ^ 32 \<Longrightarrow> w_finish (Some ([0, 0, 0, 0, k] @ body)) = Some (frame_bytes k body)"
  by (simp add: w_finish_def frame_bytes_def)

subsection \<open>The reader\<close>

text \<open>A \<open>Reader\<close> is what is left of the body; a method returns its value and the new rest.\<close>

type_synonym 'a reader = "byte list \<Rightarrow> malformed + ('a \<times> byte list)"

definition r_ret :: "'a \<Rightarrow> 'a reader" where "r_ret x = (\<lambda>bs. Inr (x, bs))"

definition r_fail :: "string \<Rightarrow> 'a reader" where "r_fail msg = (\<lambda>bs. Inl (Malformed msg))"

definition r_bind :: "'a reader \<Rightarrow> ('a \<Rightarrow> 'b reader) \<Rightarrow> 'b reader" where
  "r_bind r f = (\<lambda>bs. case r bs of Inl e \<Rightarrow> Inl e | Inr (x, rest) \<Rightarrow> f x rest)"

definition r_take :: "nat \<Rightarrow> byte list reader" where
  "r_take n = (\<lambda>bs. if length bs < n then Inl (Malformed ''body too short'')
     else Inr (take n bs, drop n bs))"

definition r_u8 :: "byte reader" where
  "r_u8 = r_bind (r_take 1) (\<lambda>bs. r_ret (hd bs))"
definition r_u16 :: "u16 reader" where
  "r_u16 = r_bind (r_take 2) (\<lambda>bs. r_ret (of_nat (de bs)))"
definition r_u32 :: "u32 reader" where
  "r_u32 = r_bind (r_take 4) (\<lambda>bs. r_ret (of_nat (de bs)))"
definition r_u64 :: "nat reader" where
  "r_u64 = r_bind (r_take 8) (\<lambda>bs. r_ret (de bs))"
definition r_i32 :: "i32 reader" where
  "r_i32 = r_bind (r_take 4) (\<lambda>bs. r_ret (of_nat (de bs)))"

definition r_bool :: "bool reader" where
  "r_bool = r_bind r_u8 (\<lambda>b. if b = 0 then r_ret False else if b = 1 then r_ret True
     else r_fail ''flag is neither 0 nor 1'')"

definition r_bytes :: "nat \<Rightarrow> byte list reader" where
  "r_bytes limit = r_bind r_u32 (\<lambda>len.
     if unat len > limit then r_fail ''field too long'' else r_take (unat len))"

fun r_repeat :: "'a reader \<Rightarrow> nat \<Rightarrow> 'a list reader" where
  "r_repeat r 0 = r_ret []"
| "r_repeat r (Suc n) = r_bind r (\<lambda>x. r_bind (r_repeat r n) (\<lambda>xs. r_ret (x # xs)))"

definition r_list :: "nat \<Rightarrow> byte list list reader" where
  "r_list max_item = r_bind r_u32 (\<lambda>count bs.
     if unat count > length bs div 4 then Inl (Malformed ''list count exceeds the body'')
     else r_repeat (r_bytes max_item) (unat count) bs)"

definition r_size :: "term_size reader" where
  "r_size = r_bind r_u16 (\<lambda>c. r_bind r_u16 (\<lambda>r.
     if size_valid (Size c r) then r_ret (Size c r) else r_fail ''size out of range''))"

definition r_position :: "position reader" where
  "r_position = r_bind r_u64 (\<lambda>off. r_bind r_u64 (\<lambda>rs. r_ret (Position off rs)))"

definition r_exit :: "child_exit reader" where
  "r_exit = r_bind r_u8 (\<lambda>k.
     if k = 0 then r_bind r_i32 (\<lambda>c. r_ret (Code c))
     else if k = 1 then r_bind r_i32 (\<lambda>s. r_ret (Signal s))
     else r_fail ''unknown exit status kind'')"

definition r_end :: "unit reader" where
  "r_end = (\<lambda>bs. if bs = [] then Inr ((), []) else Inl (Malformed ''trailing bytes''))"

lemma r_ret_iff [simp]: "r_ret x bs = Inr (y, rest) \<longleftrightarrow> y = x \<and> rest = bs"
  by (auto simp: r_ret_def)

lemma r_fail_iff [simp]: "r_fail m bs \<noteq> Inr z"
  by (simp add: r_fail_def)

lemma r_bind_iff:
  "r_bind r f bs = Inr z \<longleftrightarrow> (\<exists>x rest. r bs = Inr (x, rest) \<and> f x rest = Inr z)"
  by (auto simp: r_bind_def split: sum.splits)

lemma r_end_iff [simp]: "r_end bs = Inr z \<longleftrightarrow> bs = [] \<and> z = ((), [])"
  by (auto simp: r_end_def)

lemma r_take_iff [simp]: "r_take n bs = Inr (x, rest) \<longleftrightarrow> length x = n \<and> bs = x @ rest"
  by (auto simp: r_take_def)

subsection \<open>Field codecs\<close>

text \<open>
  The contract between a field's writer and its reader: the reader returns a value exactly
  on the bytes its writer produces for it, and only values in range. Both the round trip and
  the strictness of the format (nothing else is accepted) are this one law.
\<close>

locale field_codec =
  fixes put :: "'a \<Rightarrow> byte list" and get :: "'a reader" and ok :: "'a \<Rightarrow> bool"
  assumes get_iff: "get bs = Inr (x, rest) \<longleftrightarrow> ok x \<and> bs = put x @ rest"
begin

lemma get_put: "ok x \<Longrightarrow> get (put x @ rest) = Inr (x, rest)"
  by (simp add: get_iff)

lemma get_put_end: "ok x \<Longrightarrow> get (put x) = Inr (x, [])"
  using get_put [of x "[]"] by simp

lemma put_inject:
  "ok x \<Longrightarrow> ok y \<Longrightarrow> put x @ xs = put y @ ys \<longleftrightarrow> x = y \<and> xs = ys"
  by (metis get_put Inr_inject prod.inject)

lemma repeat_iff:
  "r_repeat get n bs = Inr (xs, rest) \<longleftrightarrow>
    length xs = n \<and> (\<forall>x\<in>set xs. ok x) \<and> bs = concat (map put xs) @ rest"
proof (induction n arbitrary: bs xs rest)
  case 0
  then show ?case by auto
next
  case (Suc n)
  then show ?case by (cases xs) (auto simp: r_bind_iff get_iff)
qed

end

interpretation u8c: field_codec put_u8 r_u8 "\<lambda>_. True"
  by unfold_locales (auto simp: r_u8_def r_bind_iff put_u8_def length_Suc_conv)

lemma field_of_nat_iff:
  assumes "k * 8 = LENGTH('a::len)"
  shows "r_bind (r_take k) (\<lambda>bs. r_ret (of_nat (de bs))) bs = Inr (x, rest) \<longleftrightarrow>
    bs = be k (unat (x :: 'a word)) @ rest"
proof -
  have pow: "(256 :: nat) ^ k = 2 ^ LENGTH('a)"
    by (simp add: power_mult assms [symmetric] mult.commute [of k])
  have "unat (of_nat (de ys) :: 'a word) = de ys" if "length ys = k" for ys
    using de_less [of ys] that pow by (simp add: unat_of_nat take_bit_nat_eq_self)
  moreover have "unat x < 256 ^ k" using unsigned_less [where 'a = nat, of x] pow by simp
  ultimately show ?thesis
    by (auto simp: r_bind_iff be_de intro: exI [of _ "be k (unat x)"])
qed

interpretation u16c: field_codec put_u16 r_u16 "\<lambda>_. True"
  by unfold_locales (simp add: r_u16_def put_u16_def field_of_nat_iff)

interpretation u32c: field_codec put_u32 r_u32 "\<lambda>_. True"
  by unfold_locales (simp add: r_u32_def put_u32_def field_of_nat_iff)

interpretation i32c: field_codec put_u32 r_i32 "\<lambda>_. True"
  by unfold_locales (simp add: r_i32_def put_u32_def field_of_nat_iff)

lemma u64_ok_256: "u64_ok n \<longleftrightarrow> n < 256 ^ 8"
  by (simp add: u64_ok_def)

interpretation u64c: field_codec put_u64 r_u64 u64_ok
proof
  fix bs x rest
  show "r_u64 bs = Inr (x, rest) \<longleftrightarrow> u64_ok x \<and> bs = put_u64 x @ rest"
    unfolding r_u64_def put_u64_def u64_ok_256
    by (auto simp: r_bind_iff be_de de_less dest: de_less [THEN order.strict_trans2]
        intro: exI [of _ "be 8 x"] simp del: power_numeral) (metis de_less)
qed

interpretation boolc: field_codec put_bool r_bool "\<lambda>_. True"
  by unfold_locales
    (auto simp: r_bool_def r_bind_iff u8c.get_iff put_bool_def put_u8_def split: if_splits
      intro: exI [of _ "0 :: byte"])

interpretation sizec: field_codec put_size r_size size_valid
proof
  fix bs x rest
  show "r_size bs = Inr (x, rest) \<longleftrightarrow> size_valid x \<and> bs = put_size x @ rest"
    by (cases x) (auto simp: r_size_def r_bind_iff u16c.get_iff put_size_def split: if_splits)
qed

interpretation posc: field_codec put_position r_position pos_ok
proof
  fix bs x rest
  show "r_position bs = Inr (x, rest) \<longleftrightarrow> pos_ok x \<and> bs = put_position x @ rest"
    by (cases x) (auto simp: r_position_def r_bind_iff u64c.get_iff put_position_def pos_ok_def)
qed

interpretation exitc: field_codec put_exit r_exit "\<lambda>_. True"
proof
  fix bs x rest
  show "r_exit bs = Inr (x, rest) \<longleftrightarrow> True \<and> bs = put_exit x @ rest"
    by (cases x) (auto simp: r_exit_def r_bind_iff u8c.get_iff i32c.get_iff put_exit_def
        put_u8_def split: if_splits intro: exI [of _ "0 :: byte"])
qed

definition len_ok :: "nat \<Rightarrow> byte list \<Rightarrow> bool" where
  "len_ok limit v \<longleftrightarrow> length v \<le> limit \<and> length v < 2 ^ 32"

interpretation bytesc: field_codec put_bytes "r_bytes limit" "len_ok limit" for limit
proof
  fix bs x rest
  show "r_bytes limit bs = Inr (x, rest) \<longleftrightarrow> len_ok limit x \<and> bs = put_bytes x @ rest"
    by (auto simp: r_bytes_def r_bind_iff u32c.get_iff put_bytes_def put_u32_def len_ok_def
        unat_of_nat take_bit_nat_eq_self split: if_splits
        intro!: exI [of _ "of_nat (length x)"] unsigned_less [where 'a = nat, THEN order_less_le_trans])
qed

lemma r_list_iff:
  "r_list m bs = Inr (xs, rest) \<longleftrightarrow>
    length xs < 2 ^ 32 \<and> (\<forall>x\<in>set xs. len_ok m x) \<and> bs = put_list xs @ rest"
proof -
  have len: "length xs * 4 \<le> length (concat (map put_bytes xs))" for xs
    by (induction xs) auto
  have fits: "\<not> (length (concat (map put_bytes xs)) + length rest) div 4 < length xs"
    using len [of xs] by linarith
  show ?thesis
    using fits
    by (auto simp: r_list_def r_bind_iff u32c.get_iff bytesc.repeat_iff put_list_def put_u32_def
        unat_of_nat take_bit_nat_eq_self split: if_splits
        intro!: exI [of _ "of_nat (length xs)"] unsigned_less [where 'a = nat, THEN order_less_le_trans])
      (rule exI [of _ "concat (map put_bytes xs) @ rest"], simp)
qed

end
