(* ===== verification/Messages.thy ===== *)
theory Messages
  imports Wire
begin

text \<open>
  The messages of protocol version 1 and the child spec
  (\<^verbatim>\<open>crates/terminal-host/src/protocol.rs\<close>): the types, one encoder and one decoder per
  direction, and what they guarantee of each other. For each direction there is a range
  predicate (\<open>client_ok\<close>, \<open>host_ok\<close>, \<open>spawn_ok\<close>), a body function that gives the plain bytes of
  the fields, and one equivalence that says which frames decode to which message; the round
  trip, the strictness and the range of decoded messages all follow from it.
\<close>

subsection \<open>Kinds\<close>

definition kind_SPAWN :: byte where [simp]: "kind_SPAWN = 0x01"
definition kind_HELLO :: byte where [simp]: "kind_HELLO = 0x10"
definition kind_INFO :: byte where [simp]: "kind_INFO = 0x11"
definition kind_READ :: byte where [simp]: "kind_READ = 0x12"
definition kind_SNAPSHOT :: byte where [simp]: "kind_SNAPSHOT = 0x13"
definition kind_INPUT :: byte where [simp]: "kind_INPUT = 0x14"
definition kind_RESIZE :: byte where [simp]: "kind_RESIZE = 0x15"
definition kind_SHUTDOWN :: byte where [simp]: "kind_SHUTDOWN = 0x16"
definition kind_WELCOME :: byte where [simp]: "kind_WELCOME = 0x80"
definition kind_BUSY :: byte where [simp]: "kind_BUSY = 0x81"
definition kind_INFO_REPLY :: byte where [simp]: "kind_INFO_REPLY = 0x83"
definition kind_SNAPSHOT_RECORD :: byte where [simp]: "kind_SNAPSHOT_RECORD = 0x84"
definition kind_OUTPUT :: byte where [simp]: "kind_OUTPUT = 0x85"
definition kind_RESIZED :: byte where [simp]: "kind_RESIZED = 0x86"
definition kind_GAP :: byte where [simp]: "kind_GAP = 0x87"
definition kind_EXITED :: byte where [simp]: "kind_EXITED = 0x88"
definition kind_SNAPSHOT_ACCEPTED :: byte where [simp]: "kind_SNAPSHOT_ACCEPTED = 0x89"
definition kind_SNAPSHOT_REJECTED :: byte where [simp]: "kind_SNAPSHOT_REJECTED = 0x8a"
definition kind_INPUT_ACK :: byte where [simp]: "kind_INPUT_ACK = 0x8b"
definition kind_ERROR :: byte where [simp]: "kind_ERROR = 0x8c"
definition kind_GOODBYE :: byte where [simp]: "kind_GOODBYE = 0x8d"

subsection \<open>Message types\<close>

datatype snapshot_rejection = TooLarge | BeforeCurrent | OutsideRetained | InconsistentResizes

datatype error_code = ECMalformed | ECNotAllowed | ECUnsupportedVersion

record spawn =
  sp_argv :: "byte list list"
  sp_cwd :: "byte list"
  sp_env :: "byte list list"
  sp_size :: term_size
  sp_journal_cap :: nat
  sp_tag :: "byte list"
  sp_initial_snapshot :: "byte list option"

record info =
  i_host_pid :: u32
  i_child_pid :: u32
  i_child_exit :: "child_exit option"
  i_size :: term_size
  i_initial_size :: term_size
  i_snapshot :: position
  i_tail_start :: nat
  i_end :: nat
  i_resizes :: nat
  i_gap :: bool
  i_delivered_end :: nat
  i_tag :: "byte list"

datatype client_message =
    Hello u32 bool
  | Info
  | Read position
  | Snapshot position "byte list"
  | Input "byte list"
  | Resize term_size
  | Shutdown

datatype host_message =
    Welcome u32
  | Busy
  | InfoReply info
  | SnapshotRecord position "byte list"
  | Output nat "byte list"
  | Resized nat nat term_size
  | Gap nat nat nat term_size
  | Exited nat child_exit
  | SnapshotAccepted position
  | SnapshotRejected position snapshot_rejection
  | InputAck nat nat
  | Error error_code "byte list"
  | Goodbye

subsection \<open>UTF-8\<close>

text \<open>
  An \<open>Error\<close> message is a Rust \<open>String\<close>: bytes that \<open>String::from_utf8\<close> accepts, which is the
  table of well-formed UTF-8. \<open>utf8_char\<close> is the length of the character at the front.
\<close>

definition cont_byte :: "byte \<Rightarrow> bool" where
  "cont_byte b \<longleftrightarrow> 0x80 \<le> b \<and> b \<le> 0xBF"

definition utf8_char :: "byte list \<Rightarrow> nat option" where
  "utf8_char bs = (case bs of [] \<Rightarrow> None | b # rest \<Rightarrow>
     if b \<le> 0x7F then Some 1
     else if 0xC2 \<le> b \<and> b \<le> 0xDF then
       (case rest of c # _ \<Rightarrow> if cont_byte c then Some 2 else None | _ \<Rightarrow> None)
     else if 0xE0 \<le> b \<and> b \<le> 0xEF then
       (case rest of c # d # _ \<Rightarrow>
          if cont_byte c \<and> cont_byte d \<and> (b = 0xE0 \<longrightarrow> 0xA0 \<le> c) \<and> (b = 0xED \<longrightarrow> c \<le> 0x9F)
          then Some 3 else None
        | _ \<Rightarrow> None)
     else if 0xF0 \<le> b \<and> b \<le> 0xF4 then
       (case rest of c # d # e # _ \<Rightarrow>
          if cont_byte c \<and> cont_byte d \<and> cont_byte e \<and> (b = 0xF0 \<longrightarrow> 0x90 \<le> c)
            \<and> (b = 0xF4 \<longrightarrow> c \<le> 0x8F)
          then Some 4 else None
        | _ \<Rightarrow> None)
     else None)"

lemma utf8_char_bounds: "utf8_char bs = Some n \<Longrightarrow> 0 < n \<and> n \<le> 4 \<and> n \<le> length bs"
  by (auto simp: utf8_char_def split: list.splits if_splits)

function utf8_valid :: "byte list \<Rightarrow> bool" where
  "utf8_valid bs = (bs = [] \<or> (case utf8_char bs of None \<Rightarrow> False
     | Some n \<Rightarrow> utf8_valid (drop n bs)))"
  by pat_completeness auto
termination
  by (relation "measure length") (auto dest: utf8_char_bounds)

declare utf8_valid.simps [simp del]

text \<open>\<open>str::is_char_boundary\<close>, and the loop that moves an end back to a boundary.\<close>

definition char_boundary :: "byte list \<Rightarrow> nat \<Rightarrow> bool" where
  "char_boundary s i \<longleftrightarrow> i = 0 \<or> i = length s \<or> (i < length s \<and> \<not> cont_byte (s ! i))"

fun floor_boundary :: "byte list \<Rightarrow> nat \<Rightarrow> nat" where
  "floor_boundary s 0 = 0"
| "floor_boundary s (Suc e) = (if char_boundary s (Suc e) then Suc e else floor_boundary s e)"

definition error_text :: "byte list \<Rightarrow> byte list" where
  "error_text m = take (floor_boundary m (min (length m) MAX_ERROR_MESSAGE)) m"

lemma utf8_char_conts:
  "utf8_char bs = Some n \<Longrightarrow> 0 < i \<Longrightarrow> i < n \<Longrightarrow> cont_byte (bs ! i)"
  by (auto simp: utf8_char_def less_Suc_eq numeral_eq_Suc split: list.splits if_splits)

lemma utf8_char_append:
  assumes "utf8_char (xs @ zs) = Some n" "length xs = n"
  shows "utf8_char (xs @ ys) = Some n"
proof -
  have "n = 1 \<or> n = 2 \<or> n = 3 \<or> n = 4"
    using utf8_char_bounds [OF assms(1)] by arith
  with assms(2) consider a where "xs = [a]" "n = 1" | a b where "xs = [a, b]" "n = 2"
    | a b c where "xs = [a, b, c]" "n = 3" | a b c d where "xs = [a, b, c, d]" "n = 4"
    by (auto simp: length_Suc_conv numeral_eq_Suc)
  then show ?thesis
  proof cases
    case 1
    with assms(1) show ?thesis by (simp add: utf8_char_def split: if_splits list.splits)
  next
    case 2
    with assms(1) show ?thesis by (simp add: utf8_char_def split: if_splits list.splits)
  next
    case 3
    with assms(1) show ?thesis by (simp add: utf8_char_def split: if_splits list.splits)
  next
    case 4
    with assms(1) show ?thesis by (auto simp: utf8_char_def split: if_splits list.splits)
  qed
qed

lemma utf8_char_take:
  assumes "utf8_char bs = Some n" "n \<le> i"
  shows "utf8_char (take i bs) = Some n"
proof -
  have len: "length (take n bs) = n"
    using utf8_char_bounds [OF assms(1)] by simp
  have "utf8_char (take n bs @ drop n bs) = Some n"
    using assms(1) by simp
  then have "utf8_char (take n bs @ take (i - n) (drop n bs)) = Some n"
    using len by (rule utf8_char_append)
  moreover have "take i bs = take n bs @ take (i - n) (drop n bs)"
    using take_add [of n "i - n" bs] assms(2) by simp
  ultimately show ?thesis by simp
qed

lemma utf8_valid_take:
  "utf8_valid s \<Longrightarrow> char_boundary s i \<Longrightarrow> utf8_valid (take i s)"
proof (induction s arbitrary: i rule: utf8_valid.induct)
  case (1 s)
  show ?case
  proof (cases "s = [] \<or> i = 0 \<or> i = length s")
    case True
    with "1.prems" show ?thesis by (auto simp: utf8_valid.simps [of "[]"])
  next
    case False
    with "1.prems" obtain n where n: "utf8_char s = Some n" "utf8_valid (drop n s)"
      by (auto simp: utf8_valid.simps [of s] split: option.splits)
    have i: "i < length s" "\<not> cont_byte (s ! i)"
      using False "1.prems"(2) by (auto simp: char_boundary_def)
    with n(1) False have "n \<le> i" using utf8_char_conts [of s n i] by force
    moreover have "char_boundary (drop n s) (i - n)"
      using i \<open>n \<le> i\<close> utf8_char_bounds [OF n(1)] by (auto simp: char_boundary_def)
    ultimately have "utf8_valid (take (i - n) (drop n s))"
      using False n "1.IH" by blast
    with n(1) \<open>n \<le> i\<close> show ?thesis
      by (simp add: utf8_valid.simps [of "take i s"] utf8_char_take drop_take)
  qed
qed

lemma floor_boundary_boundary: "n \<le> length s \<Longrightarrow> char_boundary s (floor_boundary s n)"
  by (induction n) (auto simp: char_boundary_def)

lemma floor_boundary_le: "floor_boundary s n \<le> n"
  by (induction n) auto

lemma utf8_valid_error_text: "utf8_valid m \<Longrightarrow> utf8_valid (error_text m)"
  by (simp add: error_text_def utf8_valid_take floor_boundary_boundary)

lemma error_text_short: "length m \<le> MAX_ERROR_MESSAGE \<Longrightarrow> error_text m = m"
proof -
  assume "length m \<le> MAX_ERROR_MESSAGE"
  moreover have "floor_boundary m (length m) = length m"
    by (cases "length m") (auto simp: char_boundary_def)
  ultimately show ?thesis by (simp add: error_text_def min_absorb1)
qed

lemma length_error_text: "length (error_text m) \<le> MAX_ERROR_MESSAGE"
  using floor_boundary_le [of m "min (length m) MAX_ERROR_MESSAGE"]
  by (simp add: error_text_def)

end
