(* ===== verification/Codec.thy ===== *)
theory Codec
  imports Messages
begin

text \<open>
  Encoders and decoders of the protocol's messages and of the child spec
  (\<^verbatim>\<open>crates/terminal-host/src/protocol.rs\<close>). Each \<open>*_iff\<close> lemma characterises a decoder:
  the frames it accepts are exactly the encodings of the messages in range.
\<close>

subsection \<open>Client messages\<close>

fun encode_client :: "client_message \<Rightarrow> byte list option" where
  "encode_client (Hello version take_over) =
     write_frame kind_HELLO [w_u32 version, w_u8 (if take_over then 1 else 0)]"
| "encode_client Info = write_frame kind_INFO []"
| "encode_client (Read p) = write_frame kind_READ [w_position p]"
| "encode_client (Snapshot p blob) = write_frame kind_SNAPSHOT [w_position p, w_bytes blob]"
| "encode_client (Input data) = write_frame kind_INPUT [w_bytes data]"
| "encode_client (Resize s) = write_frame kind_RESIZE [w_size s]"
| "encode_client Shutdown = write_frame kind_SHUTDOWN []"

definition client_fields :: "byte \<Rightarrow> client_message reader" where
  "client_fields k =
     (if k = kind_HELLO then r_bind r_u32 (\<lambda>v. r_bind r_bool (\<lambda>t. r_ret (Hello v t)))
      else if k = kind_INFO then r_ret Info
      else if k = kind_READ then r_bind r_position (\<lambda>p. r_ret (Read p))
      else if k = kind_SNAPSHOT then
        r_bind r_position (\<lambda>p. r_bind (r_bytes MAX_FRAME) (\<lambda>b. r_ret (Snapshot p b)))
      else if k = kind_INPUT then
        r_bind (r_bytes MAX_INPUT) (\<lambda>d. if d = [] then r_fail ''empty input'' else r_ret (Input d))
      else if k = kind_RESIZE then r_bind r_size (\<lambda>s. r_ret (Resize s))
      else if k = kind_SHUTDOWN then r_ret Shutdown
      else r_fail ''unknown client message kind'')"

definition decode_client_v1 :: "raw_frame \<Rightarrow> malformed + client_message" where
  "decode_client_v1 frame = try_bind
     (r_bind (client_fields (f_kind frame)) (\<lambda>m. r_bind r_end (\<lambda>_. r_ret m)) (f_body frame))
     (\<lambda>(m, _). Inr m)"

definition decode_client :: "raw_frame \<Rightarrow> u32 \<Rightarrow> malformed + client_message" where
  "decode_client frame version =
     (if version = 1 then decode_client_v1 frame else Inl (Malformed ''unknown protocol version''))"

fun client_ok :: "client_message \<Rightarrow> bool" where
  "client_ok (Read p) \<longleftrightarrow> pos_ok p"
| "client_ok (Snapshot p b) \<longleftrightarrow> pos_ok p \<and> length b \<le> MAX_FRAME"
| "client_ok (Input d) \<longleftrightarrow> d \<noteq> [] \<and> length d \<le> MAX_INPUT"
| "client_ok (Resize s) \<longleftrightarrow> size_valid s"
| "client_ok _ \<longleftrightarrow> True"

fun client_kind :: "client_message \<Rightarrow> byte" where
  "client_kind (Hello v t) = kind_HELLO"
| "client_kind Info = kind_INFO"
| "client_kind (Read p) = kind_READ"
| "client_kind (Snapshot p b) = kind_SNAPSHOT"
| "client_kind (Input d) = kind_INPUT"
| "client_kind (Resize s) = kind_RESIZE"
| "client_kind Shutdown = kind_SHUTDOWN"

fun client_body :: "client_message \<Rightarrow> byte list" where
  "client_body (Hello v t) = put_u32 v @ put_bool t"
| "client_body Info = []"
| "client_body (Read p) = put_position p"
| "client_body (Snapshot p b) = put_position p @ put_bytes b"
| "client_body (Input d) = put_bytes d"
| "client_body (Resize s) = put_size s"
| "client_body Shutdown = []"

lemma write_frame_eq:
  assumes "fold (\<lambda>f w. f w) ops (Some [0, 0, 0, 0, k]) = Some ([0, 0, 0, 0, k] @ body)"
    and "Suc (length body) < 2 ^ 32"
  shows "write_frame k ops = Some (frame_bytes k body)"
  using assms w_finish_Some [OF assms(2), of k] by (simp add: write_frame_def w_new_def)

lemmas codec_iffs = r_bind_iff u8c.get_iff u16c.get_iff u32c.get_iff i32c.get_iff u64c.get_iff
  boolc.get_iff sizec.get_iff posc.get_iff exitc.get_iff bytesc.get_iff r_list_iff

lemma put_flag [simp]: "put_u8 (if t then 1 else 0) = put_bool t"
  "put_u8 1 = put_bool True" "put_u8 0 = put_bool False"
  by (simp_all add: put_u8_def put_bool_def)

lemma encode_client_Some:
  "client_ok m \<Longrightarrow> encode_client m = Some (frame_bytes (client_kind m) (client_body m))"
  by (cases m) (auto simp del: kind_HELLO_def kind_INFO_def kind_READ_def kind_SNAPSHOT_def
      kind_INPUT_def kind_RESIZE_def kind_SHUTDOWN_def
      intro!: write_frame_eq simp: limits put_flag)

lemma len_ok_limits [simp]:
  "len_ok MAX_FRAME v \<longleftrightarrow> length v \<le> MAX_FRAME"
  "len_ok MAX_INPUT v \<longleftrightarrow> length v \<le> MAX_INPUT"
  "len_ok MAX_TAG v \<longleftrightarrow> length v \<le> MAX_TAG"
  "len_ok MAX_SNAPSHOT v \<longleftrightarrow> length v \<le> MAX_SNAPSHOT"
  "len_ok MAX_OUTPUT_CHUNK v \<longleftrightarrow> length v \<le> MAX_OUTPUT_CHUNK"
  "len_ok MAX_ERROR_MESSAGE v \<longleftrightarrow> length v \<le> MAX_ERROR_MESSAGE"
  "len_ok MAX_SPEC v \<longleftrightarrow> length v \<le> MAX_SPEC"
  by (auto simp: len_ok_def limits)

lemma client_fields_kind:
  "client_fields kind_HELLO bs = Inr (m, rest) \<longleftrightarrow>
    (\<exists>v t. m = Hello v t \<and> bs = put_u32 v @ put_bool t @ rest)"
  "client_fields kind_INFO bs = Inr (m, rest) \<longleftrightarrow> m = Info \<and> bs = rest"
  "client_fields kind_READ bs = Inr (m, rest) \<longleftrightarrow>
    (\<exists>p. m = Read p \<and> pos_ok p \<and> bs = put_position p @ rest)"
  "client_fields kind_SNAPSHOT bs = Inr (m, rest) \<longleftrightarrow>
    (\<exists>p b. m = Snapshot p b \<and> pos_ok p \<and> len_ok MAX_FRAME b
      \<and> bs = put_position p @ put_bytes b @ rest)"
  "client_fields kind_INPUT bs = Inr (m, rest) \<longleftrightarrow>
    (\<exists>d. m = Input d \<and> d \<noteq> [] \<and> len_ok MAX_INPUT d \<and> bs = put_bytes d @ rest)"
  "client_fields kind_RESIZE bs = Inr (m, rest) \<longleftrightarrow>
    (\<exists>s. m = Resize s \<and> size_valid s \<and> bs = put_size s @ rest)"
  "client_fields kind_SHUTDOWN bs = Inr (m, rest) \<longleftrightarrow> m = Shutdown \<and> bs = rest"
  by (auto simp: client_fields_def codec_iffs split: if_splits)

lemma client_fields_kinds:
  "client_fields k bs = Inr z \<Longrightarrow> k \<in> {kind_HELLO, kind_INFO, kind_READ, kind_SNAPSHOT,
    kind_INPUT, kind_RESIZE, kind_SHUTDOWN}"
  unfolding client_fields_def by (simp split: if_splits)

lemma client_fields_iff:
  "client_fields k bs = Inr (m, rest) \<longleftrightarrow>
    client_ok m \<and> k = client_kind m \<and> bs = client_body m @ rest" (is "?l = ?r")
proof
  assume ?l
  then show ?r
    using client_fields_kinds [OF \<open>?l\<close>]
    by (elim insertE emptyE) (auto simp only: client_fields_kind client_ok.simps client_kind.simps
        client_body.simps append_assoc append_Nil len_ok_limits)
next
  assume ?r
  then show ?l
    by (cases m) (auto simp only: client_fields_kind client_ok.simps client_kind.simps
        client_body.simps append_assoc append_Nil len_ok_limits)
qed

lemma decode_client_iff:
  "decode_client f v = Inr m \<longleftrightarrow>
    v = 1 \<and> client_ok m \<and> f_kind f = client_kind m \<and> f_body f = client_body m"
  by (auto simp: decode_client_def decode_client_v1_def try_bind_eq_Inr r_bind_iff
      client_fields_iff)


subsection \<open>Host messages\<close>

fun rejection_code :: "snapshot_rejection \<Rightarrow> byte" where
  "rejection_code TooLarge = 1"
| "rejection_code BeforeCurrent = 2"
| "rejection_code OutsideRetained = 3"
| "rejection_code InconsistentResizes = 4"

fun error_code_value :: "error_code \<Rightarrow> u16" where
  "error_code_value ECMalformed = 1"
| "error_code_value ECNotAllowed = 2"
| "error_code_value ECUnsupportedVersion = 3"

fun encode_host :: "host_message \<Rightarrow> byte list option" where
  "encode_host (Welcome version) = write_frame kind_WELCOME [w_u32 version]"
| "encode_host Busy = write_frame kind_BUSY []"
| "encode_host (InfoReply i) = write_frame kind_INFO_REPLY
     ([w_u32 (i_host_pid i), w_u32 (i_child_pid i)]
      @ (case i_child_exit i of None \<Rightarrow> [w_u8 0, w_u8 0, w_i32 0]
           | Some e \<Rightarrow> [w_u8 1, w_exit e])
      @ [w_size (i_size i), w_size (i_initial_size i), w_position (i_snapshot i),
         w_u64 (i_tail_start i), w_u64 (i_end i), w_u64 (i_resizes i),
         w_u8 (if i_gap i then 1 else 0), w_u64 (i_delivered_end i), w_bytes (i_tag i)])"
| "encode_host (SnapshotRecord p blob) =
     write_frame kind_SNAPSHOT_RECORD [w_position p, w_bytes blob]"
| "encode_host (Output off data) = write_frame kind_OUTPUT [w_u64 off, w_bytes data]"
| "encode_host (Resized off index s) =
     write_frame kind_RESIZED [w_u64 off, w_u64 index, w_size s]"
| "encode_host (Gap frm to rs s) =
     write_frame kind_GAP [w_u64 frm, w_u64 to, w_u64 rs, w_size s]"
| "encode_host (Exited off e) = write_frame kind_EXITED [w_u64 off, w_exit e]"
| "encode_host (SnapshotAccepted p) = write_frame kind_SNAPSHOT_ACCEPTED [w_position p]"
| "encode_host (SnapshotRejected p reason) =
     write_frame kind_SNAPSHOT_REJECTED [w_position p, w_u8 (rejection_code reason)]"
| "encode_host (InputAck written discarded) =
     write_frame kind_INPUT_ACK [w_u64 written, w_u64 discarded]"
| "encode_host (Error c message) =
     write_frame kind_ERROR [w_u16 (error_code_value c), w_bytes (error_text message)]"
| "encode_host Goodbye = write_frame kind_GOODBYE []"

definition r_child_exit :: "child_exit option reader" where
  "r_child_exit = r_bind r_u8 (\<lambda>k.
     if k = 0 then r_bind r_u8 (\<lambda>a. r_bind r_i32 (\<lambda>b.
       if (a, b) \<noteq> (0, 0) then r_fail ''exit status set while running'' else r_ret None))
     else if k = 1 then r_bind r_exit (\<lambda>e. r_ret (Some e))
     else r_fail ''unknown child state'')"

definition r_info :: "info reader" where
  "r_info = r_bind r_u32 (\<lambda>host_pid. r_bind r_u32 (\<lambda>child_pid. r_bind r_child_exit (\<lambda>child_exit.
     r_bind r_size (\<lambda>sz. r_bind r_size (\<lambda>initial. r_bind r_position (\<lambda>snap.
     r_bind r_u64 (\<lambda>tail. r_bind r_u64 (\<lambda>en. r_bind r_u64 (\<lambda>rs. r_bind r_bool (\<lambda>gap.
     r_bind r_u64 (\<lambda>delivered. r_bind (r_bytes MAX_TAG) (\<lambda>tag. r_ret
       \<lparr>i_host_pid = host_pid, i_child_pid = child_pid, i_child_exit = child_exit,
        i_size = sz, i_initial_size = initial, i_snapshot = snap, i_tail_start = tail,
        i_end = en, i_resizes = rs, i_gap = gap, i_delivered_end = delivered,
        i_tag = tag\<rparr>))))))))))))"

definition r_rejection :: "snapshot_rejection reader" where
  "r_rejection = r_bind r_u8 (\<lambda>k.
     if k = 1 then r_ret TooLarge else if k = 2 then r_ret BeforeCurrent
     else if k = 3 then r_ret OutsideRetained else if k = 4 then r_ret InconsistentResizes
     else r_fail ''unknown rejection reason'')"

definition r_error_code :: "error_code reader" where
  "r_error_code = r_bind r_u16 (\<lambda>k.
     if k = 1 then r_ret ECMalformed else if k = 2 then r_ret ECNotAllowed
     else if k = 3 then r_ret ECUnsupportedVersion else r_fail ''unknown error code'')"

definition host_fields :: "byte \<Rightarrow> host_message reader" where
  "host_fields k =
     (if k = kind_WELCOME then r_bind r_u32 (\<lambda>v. r_ret (Welcome v))
      else if k = kind_BUSY then r_ret Busy
      else if k = kind_INFO_REPLY then r_bind r_info (\<lambda>i. r_ret (InfoReply i))
      else if k = kind_SNAPSHOT_RECORD then
        r_bind r_position (\<lambda>p. r_bind (r_bytes MAX_SNAPSHOT) (\<lambda>b. r_ret (SnapshotRecord p b)))
      else if k = kind_OUTPUT then
        r_bind r_u64 (\<lambda>off. r_bind (r_bytes MAX_OUTPUT_CHUNK) (\<lambda>d.
          if d = [] then r_fail ''empty output'' else r_ret (Output off d)))
      else if k = kind_RESIZED then
        r_bind r_u64 (\<lambda>off. r_bind r_u64 (\<lambda>i. r_bind r_size (\<lambda>s. r_ret (Resized off i s))))
      else if k = kind_GAP then
        r_bind r_u64 (\<lambda>frm. r_bind r_u64 (\<lambda>to. r_bind r_u64 (\<lambda>rs. r_bind r_size (\<lambda>s.
          r_ret (Gap frm to rs s)))))
      else if k = kind_EXITED then r_bind r_u64 (\<lambda>off. r_bind r_exit (\<lambda>e. r_ret (Exited off e)))
      else if k = kind_SNAPSHOT_ACCEPTED then r_bind r_position (\<lambda>p. r_ret (SnapshotAccepted p))
      else if k = kind_SNAPSHOT_REJECTED then
        r_bind r_position (\<lambda>p. r_bind r_rejection (\<lambda>r. r_ret (SnapshotRejected p r)))
      else if k = kind_INPUT_ACK then
        r_bind r_u64 (\<lambda>w. r_bind r_u64 (\<lambda>d. r_ret (InputAck w d)))
      else if k = kind_ERROR then
        r_bind r_error_code (\<lambda>c. r_bind (r_bytes MAX_ERROR_MESSAGE) (\<lambda>m.
          if utf8_valid m then r_ret (Error c m) else r_fail ''error message is not UTF-8''))
      else if k = kind_GOODBYE then r_ret Goodbye
      else r_fail ''unknown host message kind'')"

definition decode_host_v1 :: "raw_frame \<Rightarrow> malformed + host_message" where
  "decode_host_v1 frame = try_bind
     (r_bind (host_fields (f_kind frame)) (\<lambda>m. r_bind r_end (\<lambda>_. r_ret m)) (f_body frame))
     (\<lambda>(m, _). Inr m)"

definition decode_host :: "raw_frame \<Rightarrow> u32 \<Rightarrow> malformed + host_message" where
  "decode_host frame version =
     (if version = 1 then decode_host_v1 frame else Inl (Malformed ''unknown protocol version''))"

definition info_ok :: "info \<Rightarrow> bool" where
  "info_ok i \<longleftrightarrow> size_valid (i_size i) \<and> size_valid (i_initial_size i) \<and> pos_ok (i_snapshot i)
     \<and> u64_ok (i_tail_start i) \<and> u64_ok (i_end i) \<and> u64_ok (i_resizes i)
     \<and> u64_ok (i_delivered_end i) \<and> length (i_tag i) \<le> MAX_TAG"

fun host_ok :: "host_message \<Rightarrow> bool" where
  "host_ok (InfoReply i) \<longleftrightarrow> info_ok i"
| "host_ok (SnapshotRecord p b) \<longleftrightarrow> pos_ok p \<and> length b \<le> MAX_SNAPSHOT"
| "host_ok (Output off d) \<longleftrightarrow> u64_ok off \<and> d \<noteq> [] \<and> length d \<le> MAX_OUTPUT_CHUNK"
| "host_ok (Resized off i s) \<longleftrightarrow> u64_ok off \<and> u64_ok i \<and> size_valid s"
| "host_ok (Gap frm to rs s) \<longleftrightarrow> u64_ok frm \<and> u64_ok to \<and> u64_ok rs \<and> size_valid s"
| "host_ok (Exited off e) \<longleftrightarrow> u64_ok off"
| "host_ok (SnapshotAccepted p) \<longleftrightarrow> pos_ok p"
| "host_ok (SnapshotRejected p r) \<longleftrightarrow> pos_ok p"
| "host_ok (InputAck w d) \<longleftrightarrow> u64_ok w \<and> u64_ok d"
| "host_ok (Error c m) \<longleftrightarrow> utf8_valid m \<and> length m \<le> MAX_ERROR_MESSAGE"
| "host_ok _ \<longleftrightarrow> True"

fun host_kind :: "host_message \<Rightarrow> byte" where
  "host_kind (Welcome v) = kind_WELCOME"
| "host_kind Busy = kind_BUSY"
| "host_kind (InfoReply i) = kind_INFO_REPLY"
| "host_kind (SnapshotRecord p b) = kind_SNAPSHOT_RECORD"
| "host_kind (Output off d) = kind_OUTPUT"
| "host_kind (Resized off i s) = kind_RESIZED"
| "host_kind (Gap frm to rs s) = kind_GAP"
| "host_kind (Exited off e) = kind_EXITED"
| "host_kind (SnapshotAccepted p) = kind_SNAPSHOT_ACCEPTED"
| "host_kind (SnapshotRejected p r) = kind_SNAPSHOT_REJECTED"
| "host_kind (InputAck w d) = kind_INPUT_ACK"
| "host_kind (Error c m) = kind_ERROR"
| "host_kind Goodbye = kind_GOODBYE"

definition put_child_exit :: "child_exit option \<Rightarrow> byte list" where
  "put_child_exit c = (case c of None \<Rightarrow> put_u8 0 @ put_u8 0 @ put_u32 0
     | Some e \<Rightarrow> put_u8 1 @ put_exit e)"

definition put_info :: "info \<Rightarrow> byte list" where
  "put_info i = put_u32 (i_host_pid i) @ put_u32 (i_child_pid i) @ put_child_exit (i_child_exit i)
     @ put_size (i_size i) @ put_size (i_initial_size i) @ put_position (i_snapshot i)
     @ put_u64 (i_tail_start i) @ put_u64 (i_end i) @ put_u64 (i_resizes i)
     @ put_bool (i_gap i) @ put_u64 (i_delivered_end i) @ put_bytes (i_tag i)"

fun host_body :: "host_message \<Rightarrow> byte list" where
  "host_body (Welcome v) = put_u32 v"
| "host_body Busy = []"
| "host_body (InfoReply i) = put_info i"
| "host_body (SnapshotRecord p b) = put_position p @ put_bytes b"
| "host_body (Output off d) = put_u64 off @ put_bytes d"
| "host_body (Resized off i s) = put_u64 off @ put_u64 i @ put_size s"
| "host_body (Gap frm to rs s) = put_u64 frm @ put_u64 to @ put_u64 rs @ put_size s"
| "host_body (Exited off e) = put_u64 off @ put_exit e"
| "host_body (SnapshotAccepted p) = put_position p"
| "host_body (SnapshotRejected p r) = put_position p @ put_u8 (rejection_code r)"
| "host_body (InputAck w d) = put_u64 w @ put_u64 d"
| "host_body (Error c m) = put_u16 (error_code_value c) @ put_bytes m"
| "host_body Goodbye = []"

interpretation child_exitc: field_codec put_child_exit r_child_exit "\<lambda>_. True"
proof
  fix bs x rest
  show "r_child_exit bs = Inr (x, rest) \<longleftrightarrow> True \<and> bs = put_child_exit x @ rest"
    by (cases x) (auto simp: r_child_exit_def codec_iffs put_child_exit_def put_u8_def
        split: if_splits intro: exI [of _ "0 :: byte"])
qed

interpretation rejectionc: field_codec "\<lambda>r. put_u8 (rejection_code r)" r_rejection "\<lambda>_. True"
proof
  fix bs x rest
  show "r_rejection bs = Inr (x, rest) \<longleftrightarrow> True \<and> bs = put_u8 (rejection_code x) @ rest"
    by (cases x) (auto simp: r_rejection_def codec_iffs put_u8_def split: if_splits
        intro: exI [of _ "1 :: byte"] exI [of _ "2 :: byte"] exI [of _ "3 :: byte"])
qed

interpretation error_codec: field_codec "\<lambda>c. put_u16 (error_code_value c)" r_error_code "\<lambda>_. True"
proof
  fix bs x rest
  show "r_error_code bs = Inr (x, rest) \<longleftrightarrow> True \<and> bs = put_u16 (error_code_value x) @ rest"
    by (cases x) (auto simp: r_error_code_def codec_iffs split: if_splits
        intro: exI [of _ "1 :: u16"] exI [of _ "2 :: u16"])
qed

interpretation infoc: field_codec put_info r_info info_ok
proof
  fix bs x rest
  show "r_info bs = Inr (x, rest) \<longleftrightarrow> info_ok x \<and> bs = put_info x @ rest"
    unfolding r_info_def codec_iffs child_exitc.get_iff put_info_def info_ok_def
    by (cases x) (simp, blast)
qed

lemmas host_iffs = codec_iffs child_exitc.get_iff rejectionc.get_iff error_codec.get_iff infoc.get_iff

lemma encode_host_Some:
  "host_ok m \<Longrightarrow> encode_host m = Some (frame_bytes (host_kind m) (host_body m))"
  by (cases m) (auto intro!: write_frame_eq simp: limits error_text_short put_info_def
      put_child_exit_def info_ok_def
      simp del: kind_WELCOME_def kind_BUSY_def kind_INFO_REPLY_def kind_SNAPSHOT_RECORD_def
        kind_OUTPUT_def kind_RESIZED_def kind_GAP_def kind_EXITED_def kind_SNAPSHOT_ACCEPTED_def
        kind_SNAPSHOT_REJECTED_def kind_INPUT_ACK_def kind_ERROR_def kind_GOODBYE_def
      split: option.split)

lemma host_fields_kind:
  "host_fields kind_WELCOME bs = Inr (m, rest) \<longleftrightarrow> (\<exists>v. m = Welcome v \<and> bs = put_u32 v @ rest)"
  "host_fields kind_BUSY bs = Inr (m, rest) \<longleftrightarrow> m = Busy \<and> bs = rest"
  "host_fields kind_INFO_REPLY bs = Inr (m, rest) \<longleftrightarrow>
    (\<exists>i. m = InfoReply i \<and> info_ok i \<and> bs = put_info i @ rest)"
  "host_fields kind_SNAPSHOT_RECORD bs = Inr (m, rest) \<longleftrightarrow>
    (\<exists>p b. m = SnapshotRecord p b \<and> pos_ok p \<and> len_ok MAX_SNAPSHOT b
      \<and> bs = put_position p @ put_bytes b @ rest)"
  "host_fields kind_OUTPUT bs = Inr (m, rest) \<longleftrightarrow>
    (\<exists>off d. m = Output off d \<and> u64_ok off \<and> d \<noteq> [] \<and> len_ok MAX_OUTPUT_CHUNK d
      \<and> bs = put_u64 off @ put_bytes d @ rest)"
  "host_fields kind_RESIZED bs = Inr (m, rest) \<longleftrightarrow>
    (\<exists>off i s. m = Resized off i s \<and> u64_ok off \<and> u64_ok i \<and> size_valid s
      \<and> bs = put_u64 off @ put_u64 i @ put_size s @ rest)"
  "host_fields kind_GAP bs = Inr (m, rest) \<longleftrightarrow>
    (\<exists>frm to rs s. m = Gap frm to rs s \<and> u64_ok frm \<and> u64_ok to \<and> u64_ok rs \<and> size_valid s
      \<and> bs = put_u64 frm @ put_u64 to @ put_u64 rs @ put_size s @ rest)"
  "host_fields kind_EXITED bs = Inr (m, rest) \<longleftrightarrow>
    (\<exists>off e. m = Exited off e \<and> u64_ok off \<and> bs = put_u64 off @ put_exit e @ rest)"
  "host_fields kind_SNAPSHOT_ACCEPTED bs = Inr (m, rest) \<longleftrightarrow>
    (\<exists>p. m = SnapshotAccepted p \<and> pos_ok p \<and> bs = put_position p @ rest)"
  "host_fields kind_SNAPSHOT_REJECTED bs = Inr (m, rest) \<longleftrightarrow>
    (\<exists>p r. m = SnapshotRejected p r \<and> pos_ok p
      \<and> bs = put_position p @ put_u8 (rejection_code r) @ rest)"
  "host_fields kind_INPUT_ACK bs = Inr (m, rest) \<longleftrightarrow>
    (\<exists>w d. m = InputAck w d \<and> u64_ok w \<and> u64_ok d \<and> bs = put_u64 w @ put_u64 d @ rest)"
  "host_fields kind_ERROR bs = Inr (m, rest) \<longleftrightarrow>
    (\<exists>c t. m = Error c t \<and> utf8_valid t \<and> len_ok MAX_ERROR_MESSAGE t
      \<and> bs = put_u16 (error_code_value c) @ put_bytes t @ rest)"
  "host_fields kind_GOODBYE bs = Inr (m, rest) \<longleftrightarrow> m = Goodbye \<and> bs = rest"
  by (auto simp: host_fields_def host_iffs simp del: len_ok_limits split: if_splits)

lemma host_fields_kinds:
  "host_fields k bs = Inr z \<Longrightarrow> k \<in> {kind_WELCOME, kind_BUSY, kind_INFO_REPLY,
    kind_SNAPSHOT_RECORD, kind_OUTPUT, kind_RESIZED, kind_GAP, kind_EXITED,
    kind_SNAPSHOT_ACCEPTED, kind_SNAPSHOT_REJECTED, kind_INPUT_ACK, kind_ERROR, kind_GOODBYE}"
  unfolding host_fields_def by (simp split: if_splits)

lemma host_fields_iff:
  "host_fields k bs = Inr (m, rest) \<longleftrightarrow>
    host_ok m \<and> k = host_kind m \<and> bs = host_body m @ rest" (is "?l = ?r")
proof
  assume ?l
  then show ?r
    using host_fields_kinds [OF \<open>?l\<close>]
    by (elim insertE emptyE) (auto simp only: host_fields_kind host_ok.simps host_kind.simps
        host_body.simps append_assoc append_Nil len_ok_limits)
next
  assume ?r
  then show ?l
    by (cases m) (auto simp only: host_fields_kind host_ok.simps host_kind.simps
        host_body.simps append_assoc append_Nil len_ok_limits)
qed

lemma decode_host_iff:
  "decode_host f v = Inr m \<longleftrightarrow>
    v = 1 \<and> host_ok m \<and> f_kind f = host_kind m \<and> f_body f = host_body m"
  by (auto simp: decode_host_def decode_host_v1_def try_bind_eq_Inr r_bind_iff host_fields_iff)


subsection \<open>The child spec\<close>

definition encode_spawn :: "spawn \<Rightarrow> byte list option" where
  "encode_spawn s = write_frame kind_SPAWN
     ([w_u32 SPEC_VERSION, w_list (sp_argv s), w_bytes (sp_cwd s), w_list (sp_env s),
       w_size (sp_size s), w_u64 (sp_journal_cap s), w_bytes (sp_tag s)]
      @ (case sp_initial_snapshot s of None \<Rightarrow> [w_u8 0] | Some blob \<Rightarrow> [w_u8 1, w_bytes blob]))"

definition r_snapshot_option :: "byte list option reader" where
  "r_snapshot_option = r_bind r_bool (\<lambda>t.
     if t then r_bind (r_bytes MAX_SNAPSHOT) (\<lambda>b. r_ret (Some b)) else r_ret None)"

definition r_spawn :: "spawn reader" where
  "r_spawn = r_bind (r_list MAX_SPEC) (\<lambda>argv. r_bind (r_bytes MAX_SPEC) (\<lambda>cwd.
     r_bind (r_list MAX_SPEC) (\<lambda>env. r_bind r_size (\<lambda>sz. r_bind r_u64 (\<lambda>cap.
     r_bind (r_bytes MAX_TAG) (\<lambda>tag. r_bind r_snapshot_option (\<lambda>snap. r_ret
       \<lparr>sp_argv = argv, sp_cwd = cwd, sp_env = env, sp_size = sz, sp_journal_cap = cap,
        sp_tag = tag, sp_initial_snapshot = snap\<rparr>)))))))"

text \<open>An environment entry is \<open>NAME=value\<close>: it holds an \<open>=\<close>, and not as its first byte.\<close>

definition env_entry_ok :: "byte list \<Rightarrow> bool" where
  "env_entry_ok e \<longleftrightarrow> (0x3D :: byte) \<in> set e \<and> hd e \<noteq> 0x3D"

definition check_spawn :: "spawn \<Rightarrow> malformed + spawn" where
  "check_spawn s =
     (if sp_argv s = [] \<or> hd (sp_argv s) = [] then Inl (Malformed ''empty argv'')
      else if \<exists>item\<in>set (sp_argv s @ sp_env s @ [sp_cwd s]). 0 \<in> set item
        then Inl (Malformed ''NUL byte in argv, env or cwd'')
      else if sp_cwd s = [] \<or> hd (sp_cwd s) \<noteq> 0x2F
        then Inl (Malformed ''working directory is not absolute'')
      else if \<exists>e\<in>set (sp_env s). \<not> env_entry_ok e
        then Inl (Malformed ''environment entry is not NAME=value'')
      else if \<not> (MIN_JOURNAL_CAP \<le> sp_journal_cap s \<and> sp_journal_cap s \<le> MAX_JOURNAL_CAP)
        then Inl (Malformed ''journal cap out of range'')
      else Inr s)"

definition decode_spawn :: "byte list \<Rightarrow> malformed + spawn" where
  "decode_spawn input =
     try_bind (split_frame input MAX_SPEC) (\<lambda>split. case split of
       None \<Rightarrow> Inl (Malformed ''incomplete child spec'')
     | Some frame \<Rightarrow>
         if f_consumed frame \<noteq> length input then Inl (Malformed ''bytes after the child spec'')
         else if f_kind frame \<noteq> kind_SPAWN then Inl (Malformed ''not a child spec'')
         else try_bind
           (r_bind r_u32 (\<lambda>v.
              if v \<noteq> SPEC_VERSION then r_fail ''unsupported child spec version''
              else r_bind r_spawn (\<lambda>s. r_bind r_end (\<lambda>_. r_ret s))) (f_body frame))
           (\<lambda>(s, _). check_spawn s))"

definition spawn_fields_ok :: "spawn \<Rightarrow> bool" where
  "spawn_fields_ok s \<longleftrightarrow> length (sp_argv s) < 2 ^ 32 \<and> (\<forall>a\<in>set (sp_argv s). length a \<le> MAX_SPEC)
     \<and> length (sp_cwd s) \<le> MAX_SPEC
     \<and> length (sp_env s) < 2 ^ 32 \<and> (\<forall>e\<in>set (sp_env s). length e \<le> MAX_SPEC)
     \<and> size_valid (sp_size s) \<and> u64_ok (sp_journal_cap s) \<and> length (sp_tag s) \<le> MAX_TAG
     \<and> (case sp_initial_snapshot s of None \<Rightarrow> True | Some b \<Rightarrow> length b \<le> MAX_SNAPSHOT)"

definition put_snapshot_option :: "byte list option \<Rightarrow> byte list" where
  "put_snapshot_option sn = (case sn of None \<Rightarrow> put_bool False | Some b \<Rightarrow> put_bool True @ put_bytes b)"

definition spawn_body :: "spawn \<Rightarrow> byte list" where
  "spawn_body s = put_list (sp_argv s) @ put_bytes (sp_cwd s) @ put_list (sp_env s)
     @ put_size (sp_size s) @ put_u64 (sp_journal_cap s) @ put_bytes (sp_tag s)
     @ put_snapshot_option (sp_initial_snapshot s)"

interpretation snapshot_optionc: field_codec put_snapshot_option r_snapshot_option
  "\<lambda>sn. case sn of None \<Rightarrow> True | Some b \<Rightarrow> length b \<le> MAX_SNAPSHOT"
proof
  fix bs x rest
  show "r_snapshot_option bs = Inr (x, rest) \<longleftrightarrow>
    (case x of None \<Rightarrow> True | Some b \<Rightarrow> length b \<le> MAX_SNAPSHOT) \<and> bs = put_snapshot_option x @ rest"
    by (cases x) (auto simp: r_snapshot_option_def codec_iffs put_snapshot_option_def
        split: if_splits)
qed

interpretation spawnc: field_codec spawn_body r_spawn spawn_fields_ok
proof
  fix bs x rest
  show "r_spawn bs = Inr (x, rest) \<longleftrightarrow> spawn_fields_ok x \<and> bs = spawn_body x @ rest"
    unfolding r_spawn_def codec_iffs snapshot_optionc.get_iff spawn_body_def spawn_fields_ok_def
    by (cases x) (simp, blast)
qed

lemma check_spawn_Inr: "check_spawn s = Inr t \<Longrightarrow> t = s"
  by (auto simp: check_spawn_def split: if_splits)

text \<open>Everything the child spec must satisfy: its fields in range, its rules, and its size.\<close>

definition spawn_ok :: "spawn \<Rightarrow> bool" where
  "spawn_ok s \<longleftrightarrow> spawn_fields_ok s \<and> check_spawn s = Inr s
     \<and> 5 + length (spawn_body s) \<le> MAX_SPEC"

lemma encode_spawn_Some:
  assumes "spawn_ok s"
  shows "encode_spawn s = Some (frame_bytes kind_SPAWN (put_u32 SPEC_VERSION @ spawn_body s))"
proof -
  have lim: "length v < 2 ^ 32" if "length v \<le> MAX_SPEC" for v :: "byte list"
    using that by (simp add: limits)
  have lens: "\<forall>a\<in>set (sp_argv s). length a < 2 ^ 32" "\<forall>e\<in>set (sp_env s). length e < 2 ^ 32"
    "length (sp_cwd s) < 2 ^ 32" "length (sp_argv s) < 2 ^ 32" "length (sp_env s) < 2 ^ 32"
    "length (sp_tag s) < 2 ^ 32"
    using assms lim by (auto simp: spawn_ok_def spawn_fields_ok_def limits)
  have snap: "sp_initial_snapshot s = Some b \<Longrightarrow> length b < 2 ^ 32" for b
    using assms by (auto simp: spawn_ok_def spawn_fields_ok_def limits)
  have "Suc (length (put_u32 SPEC_VERSION @ spawn_body s)) < 2 ^ 32"
    using assms by (simp add: spawn_ok_def limits)
  with lens snap show ?thesis
    unfolding encode_spawn_def
    by (intro write_frame_eq)
      (simp_all add: spawn_body_def put_snapshot_option_def split: option.split)
qed

lemma decode_spawn_iff:
  "decode_spawn input = Inr s \<longleftrightarrow>
    spawn_ok s \<and> input = frame_bytes kind_SPAWN (put_u32 SPEC_VERSION @ spawn_body s)"
    (is "?l \<longleftrightarrow> ?r")
proof
  assume ?l
  then obtain f where f: "split_frame input MAX_SPEC = Inr (Some f)"
    and all: "f_consumed f = length input" and k: "f_kind f = kind_SPAWN"
    and body: "f_body f = put_u32 SPEC_VERSION @ spawn_body s" and ok: "spawn_fields_ok s"
    and chk: "check_spawn s = Inr s"
    by (auto simp: decode_spawn_def try_bind_eq_Inr codec_iffs spawnc.get_iff
        split: option.splits if_splits dest: check_spawn_Inr)
  have "input = frame_bytes (f_kind f) (f_body f)"
    using split_frame_Some(1) [OF f] all by (metis append_Nil2 drop_all order_refl)
  moreover have "5 + length (spawn_body s) \<le> MAX_SPEC"
    using split_frame_Some(4) [OF f] body by simp
  ultimately show ?r using k body ok chk by (simp add: spawn_ok_def)
next
  assume r: ?r
  define fr where "fr = \<lparr>f_kind = kind_SPAWN, f_body = put_u32 SPEC_VERSION @ spawn_body s,
    f_consumed = 5 + length (put_u32 SPEC_VERSION @ spawn_body s)\<rparr>"
  have ok: "spawn_fields_ok s" "check_spawn s = Inr s" and len: "5 + length (spawn_body s) \<le> MAX_SPEC"
    using r by (simp_all add: spawn_ok_def)
  have "Suc (length (put_u32 SPEC_VERSION @ spawn_body s)) < 2 ^ 32"
    using len by (simp add: MAX_SPEC_def)
  then have split: "split_frame input MAX_SPEC = Inr (Some fr)"
    using r len split_frame_bytes [of "put_u32 SPEC_VERSION @ spawn_body s" MAX_SPEC kind_SPAWN "[]"]
    by (simp add: fr_def)
  have all: "f_consumed fr = length input"
    using r by (simp add: fr_def)
  have "r_bind r_spawn (\<lambda>s. r_bind r_end (\<lambda>_. r_ret s)) (spawn_body s) = Inr (s, [])"
    using spawnc.get_put_end [OF ok(1)] by (simp add: r_bind_def r_end_def r_ret_def)
  then show ?l
    unfolding decode_spawn_def split
    using all ok(2) u32c.get_put [of SPEC_VERSION "spawn_body s"]
    by (simp add: fr_def r_bind_def)
qed

end
