(* ===== verification/Streams.thy ===== *)
theory Streams
  imports Codec
begin

text \<open>
  Messages on a byte stream. A receiver splits whole frames off its buffer, decodes them in
  order and keeps what is left (\<^verbatim>\<open>host.rs\<close>'s \<open>act_on_buffered\<close> and the supervisor's
  \<open>decode_buffered\<close> both do). The interface \<open>message_codec\<close> is what either direction of the
  protocol promises such a loop; its lemmas say that neither the loop nor the way a transport
  cuts the bytes can lose, split, join or reorder messages.
\<close>

function parse_frames :: "(raw_frame \<Rightarrow> malformed + 'm) \<Rightarrow> nat \<Rightarrow> byte list
    \<Rightarrow> 'm list \<times> malformed option \<times> byte list" where
  "parse_frames dec limit buf =
     (case split_frame buf limit of
        Inl e \<Rightarrow> ([], Some e, buf)
      | Inr None \<Rightarrow> ([], None, buf)
      | Inr (Some f) \<Rightarrow>
          (case dec f of
             Inl e \<Rightarrow> ([], Some e, buf)
           | Inr m \<Rightarrow> (let (ms, e, rest) = parse_frames dec limit (drop (f_consumed f) buf)
                      in (m # ms, e, rest))))"
  by pat_completeness auto
termination
proof (relation "measure (\<lambda>(dec, limit, buf). length buf)")
  show "((dec, limit, drop (f_consumed f) buf), dec, limit, buf)
      \<in> measure (\<lambda>(dec, limit, buf). length buf)"
    if "split_frame buf limit = Inr x2" "x2 = Some f" for dec :: "raw_frame \<Rightarrow> malformed + 'm"
      and limit buf x2 f
    using split_frame_Some(2,3) [of buf limit f] that by simp
qed simp

declare parse_frames.simps [simp del]

text \<open>Feeding a receiver chunk by chunk: the messages so far and the unparsed rest.\<close>

fun feed :: "(raw_frame \<Rightarrow> malformed + 'm) \<Rightarrow> nat \<Rightarrow> byte list list
    \<Rightarrow> 'm list \<times> malformed option \<times> byte list
    \<Rightarrow> 'm list \<times> malformed option \<times> byte list" where
  "feed dec limit [] st = st"
| "feed dec limit (c # cs) (ms, Some e, buf) = (ms, Some e, buf)"
| "feed dec limit (c # cs) (ms, None, buf) =
     (let (ms', e, rest) = parse_frames dec limit (buf @ c)
      in feed dec limit cs (ms @ ms', e, rest))"

lemma split_frame_append:
  "split_frame buf limit = Inr (Some f) \<Longrightarrow> split_frame (buf @ extra) limit = Inr (Some f)"
  by (auto simp: split_frame_def Let_def split: if_splits)

lemma split_frame_error_append: "split_frame buf limit = Inl e \<Longrightarrow> split_frame (buf @ extra) limit = Inl e"
  by (auto simp: split_frame_def Let_def split: if_splits)

lemma parse_frames_append:
  "parse_frames dec limit buf = (ms, None, rest) \<Longrightarrow>
    parse_frames dec limit (buf @ extra) =
      (let (ms', e, rest') = parse_frames dec limit (rest @ extra) in (ms @ ms', e, rest'))"
proof (induction dec limit buf arbitrary: ms rule: parse_frames.induct)
  case (1 dec limit buf)
  show ?case
  proof (cases "split_frame buf limit")
    case (Inl e)
    with "1.prems" show ?thesis by (simp add: parse_frames.simps [of dec limit buf])
  next
    case (Inr o')
    show ?thesis
    proof (cases o')
      case None
      with Inr "1.prems" show ?thesis
        by (auto simp: parse_frames.simps [of dec limit buf] split: prod.split)
    next
      case (Some f)
      with Inr "1.prems" obtain m ms1 where m: "dec f = Inr m" "ms = m # ms1"
        and rec: "parse_frames dec limit (drop (f_consumed f) buf) = (ms1, None, rest)"
        by (auto simp: parse_frames.simps [of dec limit buf] split: sum.splits prod.splits)
      have f: "split_frame (buf @ extra) limit = Inr (Some f)" and "f_consumed f \<le> length buf"
        using Inr Some split_frame_append split_frame_Some(3) by auto
      then have "drop (f_consumed f) (buf @ extra) = drop (f_consumed f) buf @ extra" by simp
      with f m "1.IH" [OF Inr Some m(1) rec] show ?thesis
        by (auto simp: parse_frames.simps [of dec limit "buf @ extra"] split: prod.split)
    qed
  qed
qed

lemma parse_frames_error_append:
  "parse_frames dec limit buf = (ms, Some e, rest) \<Longrightarrow>
    parse_frames dec limit (buf @ extra) = (ms, Some e, rest @ extra)"
proof (induction dec limit buf arbitrary: ms rule: parse_frames.induct)
  case (1 dec limit buf)
  show ?case
  proof (cases "split_frame buf limit")
    case (Inl e')
    then have "split_frame (buf @ extra) limit = Inl e'"
      by (auto simp: split_frame_def Let_def split: if_splits)
    then have "parse_frames dec limit (buf @ extra) = ([], Some e', buf @ extra)"
      by (simp add: parse_frames.simps [of dec limit "buf @ extra"])
    with Inl "1.prems" show ?thesis
      by (simp add: parse_frames.simps [of dec limit buf])
  next
    case (Inr o')
    with "1.prems" obtain f where Some: "o' = Some f"
      by (cases o') (simp_all add: parse_frames.simps [of dec limit buf])
    have f: "split_frame (buf @ extra) limit = Inr (Some f)" and "f_consumed f \<le> length buf"
      using Inr Some split_frame_append split_frame_Some(3) by auto
    then have drop: "drop (f_consumed f) (buf @ extra) = drop (f_consumed f) buf @ extra" by simp
    show ?thesis
    proof (cases "dec f")
      case (Inl e')
      with f have "parse_frames dec limit (buf @ extra) = ([], Some e', buf @ extra)"
        by (simp add: parse_frames.simps [of dec limit "buf @ extra"])
      with Inl Inr Some "1.prems" show ?thesis
        by (simp add: parse_frames.simps [of dec limit buf])
    next
      case m: (Inr m)
      with Inr Some "1.prems" obtain ms1 where ms: "ms = m # ms1"
        and rec: "parse_frames dec limit (drop (f_consumed f) buf) = (ms1, Some e, rest)"
        by (auto simp: parse_frames.simps [of dec limit buf] split: prod.splits)
      from "1.IH" [OF Inr Some m rec] ms f m drop show ?thesis
        by (simp add: parse_frames.simps [of dec limit "buf @ extra"])
    qed
  qed
qed

lemma parse_frames_rest:
  "parse_frames dec limit buf = (ms, None, rest) \<Longrightarrow> parse_frames dec limit rest = ([], None, rest)"
proof (induction dec limit buf arbitrary: ms rule: parse_frames.induct)
  case (1 dec limit buf)
  show ?case
  proof (cases "split_frame buf limit")
    case (Inl e)
    with "1.prems" show ?thesis by (simp add: parse_frames.simps [of dec limit buf])
  next
    case (Inr o')
    show ?thesis
    proof (cases o')
      case None
      with Inr have "parse_frames dec limit buf = ([], None, buf)"
        by (simp add: parse_frames.simps [of dec limit buf])
      with "1.prems" show ?thesis by simp
    next
      case (Some f)
      with Inr "1.prems" "1.IH" [OF Inr Some] show ?thesis
        by (auto simp: parse_frames.simps [of dec limit buf] split: sum.splits prod.splits)
    qed
  qed
qed

lemma feed_concat:
  "parse_frames dec limit (buf @ concat cs) = (ms', None, rest) \<Longrightarrow>
    parse_frames dec limit buf = ([], None, buf) \<Longrightarrow>
    feed dec limit cs (ms, None, buf) = (ms @ ms', None, rest)"
proof (induction cs arbitrary: buf ms ms')
  case Nil
  then show ?case by simp
next
  case (Cons c cs)
  obtain m1 e1 r1 where p1: "parse_frames dec limit (buf @ c) = (m1, e1, r1)"
    using prod_cases3 by blast
  have all: "parse_frames dec limit ((buf @ c) @ concat cs) = (ms', None, rest)"
    using Cons.prems(1) by simp
  have e1: "e1 = None"
    using p1 all parse_frames_error_append [of dec limit "buf @ c" m1 _ r1 "concat cs"]
    by (cases e1) auto
  obtain m2 e2 r2 where p2: "parse_frames dec limit (r1 @ concat cs) = (m2, e2, r2)"
    using prod_cases3 by blast
  have ms': "ms' = m1 @ m2" and "e2 = None" "r2 = rest"
    using parse_frames_append [of dec limit "buf @ c" m1 r1 "concat cs"] all p1 e1 p2 by auto
  with p2 parse_frames_rest p1 e1
  have "feed dec limit cs (ms @ m1, None, r1) = ((ms @ m1) @ m2, None, rest)"
    by (intro Cons.IH) auto
  with p1 e1 ms' show ?case by simp
qed

subsection \<open>The contract of one direction of the protocol\<close>

locale message_codec =
  fixes dec :: "raw_frame \<Rightarrow> malformed + 'm"
    and kind_of :: "'m \<Rightarrow> byte" and body_of :: "'m \<Rightarrow> byte list" and ok :: "'m \<Rightarrow> bool"
    and limit :: nat
  assumes dec_iff: "dec f = Inr m \<longleftrightarrow> ok m \<and> f_kind f = kind_of m \<and> f_body f = body_of m"
    and limit_u32: "limit < 2 ^ 32"
begin

definition sendable :: "'m \<Rightarrow> bool" where
  "sendable m \<longleftrightarrow> ok m \<and> Suc (length (body_of m)) \<le> limit"

definition bytes_of :: "'m \<Rightarrow> byte list" where
  "bytes_of m = frame_bytes (kind_of m) (body_of m)"

lemma split_message:
  "sendable m \<Longrightarrow> split_frame (bytes_of m @ rest) limit
    = Inr (Some \<lparr>f_kind = kind_of m, f_body = body_of m, f_consumed = length (bytes_of m)\<rparr>)"
  using split_frame_bytes [of "body_of m" limit "kind_of m" rest] limit_u32
  by (simp add: sendable_def bytes_of_def)

lemma decode_message:
  "sendable m \<Longrightarrow> \<exists>f. split_frame (bytes_of m @ rest) limit = Inr (Some f)
    \<and> f_consumed f = length (bytes_of m) \<and> dec f = Inr m"
  using split_message [of m rest] by (auto simp: dec_iff sendable_def)

lemma message_decoded:
  assumes "split_frame buf limit = Inr (Some f)" "dec f = Inr m"
  shows "sendable m" "take (f_consumed f) buf = bytes_of m"
proof -
  note f = split_frame_Some [OF assms(1)]
  from assms(2) have m: "ok m" "f_kind f = kind_of m" "f_body f = body_of m"
    by (simp_all add: dec_iff)
  with f(4) show "sendable m" by (simp add: sendable_def)
  have "length (frame_bytes (f_kind f) (f_body f)) = f_consumed f" using f(2) by simp
  then show "take (f_consumed f) buf = bytes_of m"
    using f(1) m by (metis append_eq_conv_conj bytes_of_def)
qed

lemma parse_messages:
  "\<forall>m\<in>set ms. sendable m \<Longrightarrow> parse_frames dec limit (concat (map bytes_of ms)) = (ms, None, [])"
proof (induction ms)
  case Nil
  then show ?case by (simp add: parse_frames.simps [of dec limit "[]"] split_frame_def)
next
  case (Cons m ms)
  then have "dec \<lparr>f_kind = kind_of m, f_body = body_of m, f_consumed = length (bytes_of m)\<rparr> = Inr m"
    by (simp add: dec_iff sendable_def)
  with Cons split_message [of m "concat (map bytes_of ms)"] show ?case
    by (simp add: parse_frames.simps [of dec limit "bytes_of m @ _"])
qed

lemma feed_messages:
  assumes "\<forall>m\<in>set ms. sendable m" "concat chunks = concat (map bytes_of ms)"
  shows "feed dec limit chunks ([], None, []) = (ms, None, [])"
  using feed_concat [of dec limit "[]" chunks ms "[]" "[]"] parse_messages [OF assms(1)] assms(2)
  by (simp add: parse_frames.simps [of dec limit "[]"] split_frame_def)

end

lemma decode_host_dec_iff:
  "decode_host f 1 = Inr m \<longleftrightarrow> host_ok m \<and> f_kind f = host_kind m \<and> f_body f = host_body m"
  by (simp add: decode_host_iff)

interpretation clientc: message_codec "\<lambda>f. decode_client f 1" client_kind client_body client_ok MAX_FRAME
  by unfold_locales (simp_all add: decode_client_iff MAX_FRAME_def)

interpretation hostc: message_codec "\<lambda>f. decode_host f 1" host_kind host_body host_ok MAX_FRAME
  by unfold_locales (simp_all add: decode_host_iff MAX_FRAME_def)

lemma host_ok_fits: "host_ok m \<Longrightarrow> Suc (length (host_body m)) \<le> MAX_FRAME"
  by (cases m) (auto simp: limits put_info_def put_child_exit_def info_ok_def split: option.split)

lemma hostc_sendable [simp]: "hostc.sendable m \<longleftrightarrow> host_ok m"
  using host_ok_fits by (auto simp: hostc.sendable_def)

lemma encode_host_bytes: "host_ok m \<Longrightarrow> encode_host m = Some (hostc.bytes_of m)"
  by (simp add: encode_host_Some hostc.bytes_of_def)

lemma encode_client_bytes: "client_ok m \<Longrightarrow> encode_client m = Some (clientc.bytes_of m)"
  by (simp add: encode_client_Some clientc.bytes_of_def)

end
