(* ===== verification/Codec_Properties.thy ===== *)
theory Codec_Properties
  imports Streams
begin

text \<open>
  The properties of the wire protocol (\<^verbatim>\<open>crates/terminal-host/src/protocol.rs\<close>): decoding is
  the exact inverse of encoding for the client's messages, the host's and the child spec; the
  stream of frames means the same however it is cut into reads; a frame too long is refused
  before it is buffered.
\<close>

context message_codec
begin

lemma bytes_of_frame:
  assumes "split_frame buf limit = Inr (Some f)"
  shows "dec f = Inr m \<longleftrightarrow> ok m \<and> bytes_of m = take (f_consumed f) buf"
proof
  assume "dec f = Inr m"
  then show "ok m \<and> bytes_of m = take (f_consumed f) buf"
    using message_decoded [OF assms] by (simp add: sendable_def)
next
  assume m: "ok m \<and> bytes_of m = take (f_consumed f) buf"
  note F = split_frame_Some [OF assms]
  have "length (bytes_of m) = f_consumed f" using m F(3) by simp
  then have "sendable m" using m F(2,4) by (simp add: sendable_def bytes_of_def)
  moreover have "buf = bytes_of m @ drop (f_consumed f) buf" using m by simp
  ultimately have "split_frame buf limit
      = Inr (Some \<lparr>f_kind = kind_of m, f_body = body_of m, f_consumed = length (bytes_of m)\<rparr>)"
    by (metis split_message)
  with assms have "f = \<lparr>f_kind = kind_of m, f_body = body_of m, f_consumed = length (bytes_of m)\<rparr>"
    by (metis Inr_inject option.inject)
  then show "dec f = Inr m" using m unfolding dec_iff by (metis raw_frame.select_convs(1,2))
qed

end

text \<open>
  C11: A frame of the stream decodes to a host message exactly when its bytes are the encoding
  of that message and the message is in range: nothing else is accepted, nothing is accepted
  with a second meaning, and every field survives the round trip.
\<close>

theorem host_decode_exact:
  assumes "split_frame buf MAX_FRAME = Inr (Some f)"
  shows "decode_host f PROTOCOL_VERSION = Inr m
    \<longleftrightarrow> host_ok m \<and> encode_host m = Some (take (f_consumed f) buf)"
  using hostc.bytes_of_frame [OF assms] encode_host_bytes
  by (auto simp: PROTOCOL_VERSION_def)

lemma host_decode_exact_witness:
  "decode_host \<lparr>f_kind = 0x86, f_body = be 8 7 @ be 8 1 @ be 2 80 @ be 2 24, f_consumed = 25\<rparr>
    PROTOCOL_VERSION = Inr (Resized 7 1 (Size 80 24))"
proof -
  let ?m = "Resized 7 1 (Size 80 24)"
  have "host_ok ?m" by (simp add: u64_ok_def size_valid_def limits)
  then have "encode_host ?m = Some (frame_bytes 0x86 (be 8 7 @ be 8 1 @ be 2 80 @ be 2 24))"
    by (subst encode_host_Some) (simp_all add: put_u64_def put_size_def put_u16_def)
  moreover have "split_frame (frame_bytes 0x86 (be 8 7 @ be 8 1 @ be 2 80 @ be 2 24)) MAX_FRAME
      = Inr (Some \<lparr>f_kind = 0x86, f_body = be 8 7 @ be 8 1 @ be 2 80 @ be 2 24, f_consumed = 25\<rparr>)"
    using split_frame_bytes [where rest = "[]" and limit = MAX_FRAME
        and k = "0x86" and body = "be 8 7 @ be 8 1 @ be 2 80 @ be 2 24"]
    by (simp add: limits)
  ultimately show ?thesis
    using host_decode_exact [where m = ?m] \<open>host_ok ?m\<close> by fastforce
qed

text \<open>
  The same of the messages a client sends: the host accepts a client's frame exactly when
  it is the encoding of a message in range.
\<close>

theorem client_decode_exact:
  assumes "split_frame buf MAX_FRAME = Inr (Some f)"
  shows "decode_client f PROTOCOL_VERSION = Inr m
    \<longleftrightarrow> client_ok m \<and> encode_client m = Some (take (f_consumed f) buf)"
  using clientc.bytes_of_frame [OF assms] encode_client_bytes
  by (auto simp: PROTOCOL_VERSION_def)

lemma client_decode_exact_witness:
  "decode_client \<lparr>f_kind = 0x14, f_body = be 4 2 @ [104, 105], f_consumed = 11\<rparr> PROTOCOL_VERSION
    = Inr (Input [104, 105])"
proof -
  let ?m = "Input [104, 105]"
  have "client_ok ?m" by (simp add: limits)
  then have "encode_client ?m = Some (frame_bytes 0x14 (be 4 2 @ [104, 105]))"
    by (subst encode_client_Some) (simp_all add: put_bytes_def numeral_2_eq_2)
  moreover have "split_frame (frame_bytes 0x14 (be 4 2 @ [104, 105])) MAX_FRAME
      = Inr (Some \<lparr>f_kind = 0x14, f_body = be 4 2 @ [104, 105], f_consumed = 11\<rparr>)"
    using split_frame_bytes [where rest = "[]" and limit = MAX_FRAME
        and k = "0x14" and body = "be 4 2 @ [104, 105]"] by (simp add: limits)
  ultimately show ?thesis
    using client_decode_exact [where m = ?m] \<open>client_ok ?m\<close> by fastforce
qed

text \<open>
  The child spec a host is spawned with: the bytes of standard input decode to a spec
  exactly when they are the encoding of that spec, with nothing after it, and the spec passes
  every check (a non-empty program, no zero byte in a string, named environment entries, sizes
  and lengths in range).
\<close>

theorem spawn_decode_exact:
  "decode_spawn input = Inr s \<longleftrightarrow> spawn_ok s \<and> encode_spawn s = Some input"
  using decode_spawn_iff encode_spawn_Some by auto

text \<open>
  Messages the host writes one after another arrive as those messages, in order, with
  nothing left over, however the transport cuts the bytes into reads.
\<close>

theorem host_stream_chunks:
  assumes "\<forall>m\<in>set ms. host_ok m" "concat chunks = concat (map (the \<circ> encode_host) ms)"
  shows "feed (\<lambda>f. decode_host f PROTOCOL_VERSION) MAX_FRAME chunks ([], None, []) = (ms, None, [])"
proof -
  have eq: "map (the \<circ> encode_host) ms = map hostc.bytes_of ms"
    using assms(1) by (simp add: encode_host_bytes)
  show ?thesis
    using hostc.feed_messages [of ms chunks] assms(1) assms(2) [unfolded eq]
    by (simp add: PROTOCOL_VERSION_def)
qed

lemma host_stream_chunks_witness:
  "feed (\<lambda>f. decode_host f PROTOCOL_VERSION) MAX_FRAME
    (map (\<lambda>b. [b]) (the (encode_host (Welcome 1)) @ the (encode_host (Output 3 [9])))) ([], None, [])
    = ([Welcome 1, Output 3 [9]], None, [])"
  by (rule host_stream_chunks) (simp_all add: u64_ok_def limits)

text \<open>
  The same of a client's messages whose frames are within the limit, which leaves out only
  a snapshot too large for one frame.
\<close>

theorem client_stream_chunks:
  assumes "\<forall>m\<in>set ms. client_ok m \<and> length (the (encode_client m)) \<le> 4 + MAX_FRAME"
    and "concat chunks = concat (map (the \<circ> encode_client) ms)"
  shows "feed (\<lambda>f. decode_client f PROTOCOL_VERSION) MAX_FRAME chunks ([], None, []) = (ms, None, [])"
proof -
  have bytes: "the (encode_client m) = clientc.bytes_of m" if "m \<in> set ms" for m
    using assms(1) that by (simp add: encode_client_bytes)
  then have eq: "map (the \<circ> encode_client) ms = map clientc.bytes_of ms" by simp
  have "\<forall>m\<in>set ms. clientc.sendable m"
    using assms(1) bytes by (auto simp: clientc.sendable_def clientc.bytes_of_def)
  then show ?thesis
    using clientc.feed_messages [of ms chunks] assms(2) [unfolded eq]
    by (simp add: PROTOCOL_VERSION_def)
qed

lemma client_stream_chunks_witness:
  "feed (\<lambda>f. decode_client f PROTOCOL_VERSION) MAX_FRAME
    [take 3 (the (encode_client Info) @ the (encode_client (Resize (Size 80 24)))),
     drop 3 (the (encode_client Info) @ the (encode_client (Resize (Size 80 24))))] ([], None, [])
    = ([Info, Resize (Size 80 24)], None, [])"
proof (rule client_stream_chunks)
  have "encode_client Info = Some (frame_bytes 0x11 [])"
    "encode_client (Resize (Size 80 24)) = Some (frame_bytes 0x15 (be 2 80 @ be 2 24))"
    by (subst encode_client_Some; simp add: size_valid_def limits put_size_def put_u16_def)+
  then show "\<forall>m\<in>set [Info, Resize (Size 80 24)]. client_ok m
      \<and> length (the (encode_client m)) \<le> 4 + MAX_FRAME"
    by (simp add: size_valid_def limits del: encode_client.simps)
qed (simp del: encode_client.simps take_append drop_append)

text \<open>
  A frame whose length field is zero or above the limit is refused as soon as its four
  length bytes are there, and a buffer that is still waiting for a frame holds fewer than four
  bytes more than the limit.
\<close>

theorem split_frame_bounds:
  "(\<forall>e. split_frame buf limit = Inl e \<longrightarrow>
      4 \<le> length buf \<and> (de (take 4 buf) = 0 \<or> limit < de (take 4 buf)))
    \<and> (4 \<le> length buf \<and> (de (take 4 buf) = 0 \<or> limit < de (take 4 buf)) \<longrightarrow>
      (\<forall>more. \<exists>e. split_frame (buf @ more) limit = Inl e))
    \<and> (split_frame buf limit = Inr None \<longrightarrow> length buf < 4 + limit)"
  by (auto simp: split_frame_def Let_def split: if_splits)

lemma split_frame_bounds_witness:
  "\<exists>e. split_frame ([0, 0, 0, 9] @ [1, 2, 3]) 8 = Inl e"
proof -
  have "4 \<le> length [0, 0, 0, 9 :: byte] \<and> (de (take 4 [0, 0, 0, 9]) = 0 \<or> 8 < de (take 4 [0, 0, 0, 9]))"
    by (simp add: de_def)
  with split_frame_bounds [of "[0, 0, 0, 9]" 8] show ?thesis by blast
qed

lemma floor_boundary_greatest: "char_boundary s k \<Longrightarrow> k \<le> n \<Longrightarrow> k \<le> floor_boundary s n"
  by (induction n) (auto simp: le_Suc_eq)

lemma utf8_char_start: "utf8_char s = Some n \<Longrightarrow> \<not> cont_byte (s ! 0)"
proof (cases s)
  case (Cons b rest)
  assume "utf8_char s = Some n"
  with Cons have "b \<le> 0x7F \<or> 0xC2 \<le> b \<or> 0xE0 \<le> b \<or> 0xF0 \<le> b"
    by (auto simp: utf8_char_def split: if_splits)
  with Cons show ?thesis by (auto simp: cont_byte_def word_le_nat_alt)
qed (simp add: utf8_char_def)

lemma utf8_valid_start_near:
  "utf8_valid s \<Longrightarrow> i < length s \<Longrightarrow> \<exists>k\<le>i. i \<le> k + 3 \<and> \<not> cont_byte (s ! k)"
proof (induction s arbitrary: i rule: utf8_valid.induct)
  case (1 s)
  then obtain n where n: "utf8_char s = Some n" "utf8_valid (drop n s)"
    by (auto simp: utf8_valid.simps [of s] split: option.splits)
  note b = utf8_char_bounds [OF n(1)]
  show ?case
  proof (cases "i < n")
    case True
    have "\<not> cont_byte (s ! 0)" using utf8_char_start [OF n(1)] .
    with True b show ?thesis by (intro exI [of _ 0]) auto
  next
    case False
    have "i - n < length (drop n s)" using False "1.prems"(2) by auto
    from "1.IH" [OF n(1,2) this] obtain k
      where "k \<le> i - n" "i - n \<le> k + 3" "\<not> cont_byte (drop n s ! k)" by blast
    with False b show ?thesis by (intro exI [of _ "n + k"]) auto
  qed
qed

text \<open>
  The text of an error the host sends is a prefix of the message, valid UTF-8 when the
  message is, at most 1024 bytes, and at most three bytes shorter than it could be.
\<close>

theorem error_text_ok:
  assumes "utf8_valid m"
  shows "utf8_valid (error_text m) \<and> length (error_text m) \<le> MAX_ERROR_MESSAGE
    \<and> (\<exists>rest. m = error_text m @ rest)
    \<and> min (length m) MAX_ERROR_MESSAGE \<le> length (error_text m) + 3"
proof -
  let ?n = "min (length m) MAX_ERROR_MESSAGE"
  have len: "length (error_text m) = floor_boundary m ?n"
    using floor_boundary_le [of m ?n] by (simp add: error_text_def)
  have "?n \<le> floor_boundary m ?n + 3"
  proof (cases "?n < length m")
    case True
    from utf8_valid_start_near [OF assms True] obtain k
      where "k \<le> ?n" "?n \<le> k + 3" "\<not> cont_byte (m ! k)" by blast
    then show ?thesis
      using floor_boundary_greatest [of m k ?n] True by (simp add: char_boundary_def)
  next
    case False
    then have "?n = length m" by simp
    then show ?thesis using floor_boundary_greatest [of m "length m" "length m"]
      by (simp add: char_boundary_def)
  qed
  moreover have "m = error_text m @ drop (floor_boundary m ?n) m"
    by (simp add: error_text_def)
  ultimately show ?thesis
    using utf8_valid_error_text [OF assms] length_error_text [of m] len by auto
qed

lemma error_text_ok_witness:
  "utf8_valid (error_text (replicate 1023 0x61 @ [0xC3, 0xA9]))
    \<and> length (error_text (replicate 1023 0x61 @ [0xC3, 0xA9])) \<le> MAX_ERROR_MESSAGE"
proof -
  have run: "utf8_valid (replicate n 0x61 @ [0xC3, 0xA9])" for n
  proof (induction n)
    case 0
    then show ?case
      by (simp add: utf8_valid.simps [of "[0xC3, 0xA9]"] utf8_valid.simps [of "[]"]
          utf8_char_def cont_byte_def)
  next
    case (Suc n)
    then show ?case by (subst utf8_valid.simps) (simp add: utf8_char_def)
  qed
  show ?thesis using error_text_ok [OF run] by blast
qed

end
