(* ===== verification/Journal.thy ===== *)
theory Journal
  imports Streams "HOL-Library.While_Combinator"
begin

text \<open>
  The journal of one terminal (\<^verbatim>\<open>crates/terminal-host/src/journal.rs\<close>): output blocks and
  resizes after the latest snapshot, bounded by the cap, and the cursor that streams them.
  The definitions follow the code operation by operation. Offsets and counts are natural
  numbers; every subtraction the code makes on them is of a smaller number in every state
  that satisfies the invariant of theory \<open>Journal_Spec\<close>. A branch the code marks
  \<open>unreachable!\<close>, or an index it would panic on, is the constant \<open>unreachable\<close>, of which
  nothing can be proved.
\<close>

definition unreachable :: 'a where "unreachable = undefined"

subsection \<open>State\<close>

record block =
  b_offset :: nat
  b_data :: "byte list"
  b_skip :: nat

definition block_len :: "block \<Rightarrow> nat" where
  "block_len b = length (b_data b) - b_skip b"

definition block_bytes :: "block \<Rightarrow> byte list" where
  "block_bytes b = drop (b_skip b) (b_data b)"

definition block_end :: "block \<Rightarrow> nat" where
  "block_end b = b_offset b + block_len b"

definition cut_front :: "nat \<Rightarrow> block \<Rightarrow> block" where
  "cut_front n b = b\<lparr>b_skip := b_skip b + n, b_offset := b_offset b + n\<rparr>"

record resize_record =
  rz_offset :: nat
  rz_index :: nat
  rz_size :: term_size

record journal =
  j_cap :: nat
  j_snapshot :: position
  j_blob :: "byte list option"
  j_output :: "block list"
  j_resizes :: "resize_record list"
  j_cost :: nat
  j_start :: position
  j_start_size :: term_size
  j_trimmed :: bool
  j_end :: nat
  j_resize_count :: nat
  j_size :: term_size
  j_initial_size :: term_size
  j_exit :: "(position \<times> child_exit) option"

datatype cursor_state = SendSnapshot | SendGap | Tail

record cursor =
  c_state :: cursor_state
  c_position :: position
  c_exit_sent :: bool

definition journal_new :: "term_size \<Rightarrow> nat \<Rightarrow> byte list option \<Rightarrow> journal" where
  "journal_new sz cap initial =
     \<lparr>j_cap = cap, j_snapshot = pos_zero, j_blob = initial, j_output = [], j_resizes = [],
      j_cost = 0, j_start = pos_zero, j_start_size = sz, j_trimmed = False, j_end = 0,
      j_resize_count = 0, j_size = sz, j_initial_size = sz, j_exit = None\<rparr>"

definition current :: "journal \<Rightarrow> position" where
  "current j = Position (j_end j) (j_resize_count j)"

subsection \<open>Trimming\<close>

text \<open>Where retained output starts: the first block, or the end when there is none.\<close>

definition front_offset :: "journal \<Rightarrow> nat" where
  "front_offset j = (case j_output j of [] \<Rightarrow> j_end j | b # _ \<Rightarrow> b_offset b)"

definition resize_first :: "journal \<Rightarrow> bool" where
  "resize_first j = (case (j_resizes j, j_output j) of
     (r # _, b # _) \<Rightarrow> rz_offset r \<le> b_offset b
   | (_ # _, []) \<Rightarrow> True
   | ([], _ # _) \<Rightarrow> False
   | ([], []) \<Rightarrow> unreachable)"

definition trim_resize :: "journal \<Rightarrow> journal" where
  "trim_resize j = (case j_resizes j of [] \<Rightarrow> unreachable | r # rs \<Rightarrow>
     j\<lparr>j_resizes := rs, j_cost := j_cost j - RECORD_COST, j_start_size := rz_size r,
       j_start := Position (offset (j_start j)) (rz_index r + 1)\<rparr>)"

definition trim_output :: "journal \<Rightarrow> journal" where
  "trim_output j = (case j_output j of [] \<Rightarrow> unreachable | b # bs \<Rightarrow>
     let excess = j_cost j - j_cap j;
         before_resize = (case j_resizes j of [] \<Rightarrow> 2 ^ 64 - 1 | r # _ \<Rightarrow> rz_offset r);
         cut = min (min excess (block_len b)) (before_resize - b_offset b);
         b' = cut_front cut b
     in j\<lparr>j_cost := j_cost j - cut,
          j_output := (if block_len b' = 0 then bs else b' # bs)\<rparr>)"

definition trim_step :: "journal \<Rightarrow> journal" where
  "trim_step j =
     (let j1 = j\<lparr>j_trimmed := True\<rparr>;
          j2 = (if resize_first j then trim_resize j1 else trim_output j1)
      in j2\<lparr>j_start := Position (front_offset j2) (resizes (j_start j2))\<rparr>)"

definition trim :: "journal \<Rightarrow> journal" where
  "trim j = while (\<lambda>j. j_cap j < j_cost j) trim_step j"

text \<open>
  Why the loop ends: every step takes a resize away, or a byte or the rest of the front block.
\<close>

definition trim_measure :: "journal \<Rightarrow> nat" where
  "trim_measure j = length (j_resizes j) + (\<Sum>b\<leftarrow>j_output j. Suc (block_len b))"

lemma block_len_cut_front [simp]: "block_len (cut_front n b) = block_len b - n"
  by (simp add: block_len_def cut_front_def)

lemma trim_step_measure:
  assumes "j_cap j < j_cost j" "j_resizes j \<noteq> [] \<or> j_output j \<noteq> []"
    and "\<forall>b\<in>set (j_output j). b_offset b < 2 ^ 64 - 1"
  shows "trim_measure (trim_step j) < trim_measure j"
proof (cases "resize_first j")
  case True
  with assms(2) have "j_resizes j \<noteq> []"
    by (auto simp: resize_first_def split: list.splits)
  with True show ?thesis
    by (cases "j_resizes j")
      (auto simp: trim_step_def trim_resize_def trim_measure_def Let_def)
next
  case False
  then obtain b bs where out: "j_output j = b # bs"
    using assms(2) by (cases "j_output j"; cases "j_resizes j") (auto simp: resize_first_def)
  with False have "case j_resizes j of [] \<Rightarrow> True | r # _ \<Rightarrow> b_offset b < rz_offset r"
    by (auto simp: resize_first_def split: list.splits)
  with False out assms(1,3) show ?thesis
    by (auto simp: trim_step_def trim_output_def trim_measure_def Let_def split: list.splits)
qed

subsection \<open>Appending\<close>

definition new_block :: "journal \<Rightarrow> block" where
  "new_block j = \<lparr>b_offset = j_end j, b_data = [], b_skip = 0\<rparr>"

definition room :: "journal \<Rightarrow> nat" where
  "room j = (if j_output j = [] then 0
     else MAX_OUTPUT_CHUNK - length (b_data (last (j_output j))))"

text \<open>Append to the last block, which has room.\<close>

definition fill_last :: "byte list \<Rightarrow> journal \<Rightarrow> journal" where
  "fill_last bytes j =
     (let b = last (j_output j) in
      j\<lparr>j_output := butlast (j_output j) @ [b\<lparr>b_data := b_data b @ bytes\<rparr>],
        j_end := j_end j + length bytes, j_cost := j_cost j + length bytes\<rparr>)"

function push_loop :: "byte list \<Rightarrow> journal \<Rightarrow> journal" where
  "push_loop data j =
     (if data = [] then j
      else if room j = 0 then push_loop data (j\<lparr>j_output := j_output j @ [new_block j]\<rparr>)
      else push_loop (drop (room j) data) (fill_last (take (room j) data) j))"
  by pat_completeness auto
termination
proof (relation "measures [\<lambda>(data, j). length data, \<lambda>(data, j). if room j = 0 then 1 else 0]")
  show "((data, j\<lparr>j_output := j_output j @ [new_block j]\<rparr>), data, j)
      \<in> measures [\<lambda>(data, j). length data, \<lambda>(data, j). if room j = 0 then 1 else 0]"
    if "data \<noteq> []" "room j = 0" for data j
    using that by (simp add: room_def new_block_def MAX_OUTPUT_CHUNK_def)
qed auto

declare push_loop.simps [simp del]

definition push_output :: "byte list \<Rightarrow> journal \<Rightarrow> journal" where
  "push_output data j = trim (push_loop data j)"

definition add_resize :: "term_size \<Rightarrow> journal \<Rightarrow> journal" where
  "add_resize sz j =
     j\<lparr>j_resizes := j_resizes j @ [\<lparr>rz_offset = j_end j, rz_index = j_resize_count j, rz_size = sz\<rparr>],
       j_resize_count := j_resize_count j + 1, j_size := sz, j_cost := j_cost j + RECORD_COST\<rparr>"

definition push_resize :: "term_size \<Rightarrow> journal \<Rightarrow> journal" where
  "push_resize sz j = trim (add_resize sz j)"

definition push_exit :: "child_exit \<Rightarrow> journal \<Rightarrow> journal" where
  "push_exit e j = (if j_exit j = None then j\<lparr>j_exit := Some (current j, e)\<rparr> else j)"

subsection \<open>Snapshots\<close>

definition consistent :: "journal \<Rightarrow> position \<Rightarrow> bool" where
  "consistent j p =
     (if resizes p < resizes (j_start j) \<or> j_resize_count j < resizes p then False
      else
        let at = resizes p - resizes (j_start j);
            below = (if at = 0 then True
              else if at - 1 < length (j_resizes j)
                then rz_offset (j_resizes j ! (at - 1)) \<le> offset p else True);
            above = (if at < length (j_resizes j)
              then offset p \<le> rz_offset (j_resizes j ! at) else True)
        in below \<and> above)"

text \<open>The two loops of \<open>accept_snapshot\<close> that drop what lies before the position.\<close>

fun drop_blocks :: "nat \<Rightarrow> block list \<Rightarrow> nat \<Rightarrow> block list \<times> nat" where
  "drop_blocks off [] cost = ([], cost)"
| "drop_blocks off (b # bs) cost =
     (if block_end b \<le> off then drop_blocks off bs (cost - block_len b)
      else let cut = off - b_offset b in
        if cut > 0 then (cut_front cut b # bs, cost - cut) else (b # bs, cost))"

fun drop_resizes :: "nat \<Rightarrow> resize_record list \<Rightarrow> term_size \<Rightarrow> nat
    \<Rightarrow> resize_record list \<times> term_size \<times> nat" where
  "drop_resizes n [] sz cost = ([], sz, cost)"
| "drop_resizes n (r # rs) sz cost =
     (if n \<le> rz_index r then (r # rs, sz, cost)
      else drop_resizes n rs (rz_size r) (cost - RECORD_COST))"

definition accept_snapshot :: "position \<Rightarrow> byte list \<Rightarrow> journal \<Rightarrow> snapshot_rejection + journal" where
  "accept_snapshot p blob j =
     (if MAX_SNAPSHOT < length blob then Inl TooLarge
      else if offset p < offset (j_snapshot j) \<or> resizes p < resizes (j_snapshot j)
        then Inl BeforeCurrent
      else if offset p < offset (j_start j) \<or> j_end j < offset p then Inl OutsideRetained
      else if \<not> consistent j p then Inl InconsistentResizes
      else
        let (out, cost1) = drop_blocks (offset p) (j_output j) (j_cost j);
            (rs, sz, cost2) = drop_resizes (resizes p) (j_resizes j) (j_start_size j) cost1
        in Inr (j\<lparr>j_output := out, j_resizes := rs, j_start_size := sz, j_cost := cost2,
             j_snapshot := p, j_blob := Some blob, j_start := p, j_trimmed := False\<rparr>))"

subsection \<open>Reading\<close>

definition read :: "position \<Rightarrow> journal \<Rightarrow> cursor" where
  "read p j =
     (let at_snapshot = j_blob j \<noteq> None \<and> p = j_snapshot j;
          within = \<not> at_snapshot \<and> offset (j_start j) \<le> offset p \<and> offset p \<le> j_end j
            \<and> consistent j p
      in if within then \<lparr>c_state = Tail, c_position = p, c_exit_sent = False\<rparr>
         else \<lparr>c_state = SendSnapshot, c_position = j_snapshot j, c_exit_sent = False\<rparr>)"

definition gap_message :: "nat \<Rightarrow> journal \<Rightarrow> host_message" where
  "gap_message frm j = Gap frm (offset (j_start j)) (resizes (j_start j)) (j_start_size j)"

text \<open>The resize at the cursor, if one is retained there.\<close>

definition next_resize :: "journal \<Rightarrow> cursor \<Rightarrow> resize_record option" where
  "next_resize j c =
     (let i = resizes (c_position c) - resizes (j_start j) in
      if i < length (j_resizes j) then Some (j_resizes j ! i) else None)"

text \<open>\<open>partition_point\<close>: the first block that ends after the offset.\<close>

definition block_index :: "journal \<Rightarrow> nat \<Rightarrow> nat" where
  "block_index j off = length (takeWhile (\<lambda>b. block_end b \<le> off) (j_output j))"

definition output_limit :: "journal \<Rightarrow> cursor \<Rightarrow> nat" where
  "output_limit j c =
     (let limit = (case next_resize j c of None \<Rightarrow> j_end j | Some r \<Rightarrow> rz_offset r) in
      case j_exit j of
        Some (at, _) \<Rightarrow> if \<not> c_exit_sent c \<and> offset (c_position c) < offset at
          then min limit (offset at) else limit
      | None \<Rightarrow> limit)"

definition next_output :: "journal \<Rightarrow> cursor \<Rightarrow> cursor \<times> host_message option" where
  "next_output j c =
     (let off = offset (c_position c); i = block_index j off in
      if length (j_output j) \<le> i then unreachable
      else
        let b = j_output j ! i;
            frm = off - b_offset b;
            to = min (output_limit j c - b_offset b) (block_len b);
            data = take (to - frm) (drop frm (block_bytes b))
        in (c\<lparr>c_position := Position (off + length data) (resizes (c_position c))\<rparr>,
            Some (Output off data)))"

definition exit_due :: "journal \<Rightarrow> cursor \<Rightarrow> child_exit option" where
  "exit_due j c = (case j_exit j of
     Some (at, e) \<Rightarrow> if \<not> c_exit_sent c \<and> offset at \<le> offset (c_position c)
         \<and> resizes at \<le> resizes (c_position c) then Some e else None
   | None \<Rightarrow> None)"

definition next_in_tail :: "journal \<Rightarrow> cursor \<Rightarrow> cursor \<times> host_message option" where
  "next_in_tail j c =
     (if offset (c_position c) < offset (j_start j) \<or> resizes (c_position c) < resizes (j_start j)
      then (c\<lparr>c_position := j_start j\<rparr>, Some (gap_message (offset (c_position c)) j))
      else case exit_due j c of
        Some e \<Rightarrow> (c\<lparr>c_exit_sent := True\<rparr>, Some (Exited (offset (fst (the (j_exit j)))) e))
      | None \<Rightarrow>
          (case next_resize j c of
             Some r \<Rightarrow>
               if rz_offset r \<le> offset (c_position c)
               then (c\<lparr>c_position := Position (offset (c_position c)) (resizes (c_position c) + 1)\<rparr>,
                 Some (Resized (rz_offset r) (rz_index r) (rz_size r)))
               else if j_end j \<le> offset (c_position c) then (c, None) else next_output j c
           | None \<Rightarrow> if j_end j \<le> offset (c_position c) then (c, None) else next_output j c))"

definition next_after_snapshot :: "journal \<Rightarrow> cursor \<Rightarrow> cursor \<times> host_message option" where
  "next_after_snapshot j c =
     (let frm = offset (c_position c);
          superseded = c_position c \<noteq> j_start j;
          c' = c\<lparr>c_state := Tail, c_position := j_start j\<rparr>
      in if j_trimmed j \<or> superseded then (c', Some (gap_message frm j))
         else next_in_tail j c')"

definition journal_next :: "journal \<Rightarrow> cursor \<Rightarrow> cursor \<times> host_message option" where
  "journal_next j c = (case c_state c of
     SendSnapshot \<Rightarrow>
       (let c' = c\<lparr>c_state := SendGap, c_position := j_snapshot j\<rparr> in
        case j_blob j of
          Some blob \<Rightarrow> (c', Some (SnapshotRecord (j_snapshot j) blob))
        | None \<Rightarrow> next_after_snapshot j c')
   | SendGap \<Rightarrow> next_after_snapshot j c
   | Tail \<Rightarrow> next_in_tail j c)"

end
