(* ===== verification/Events.thy ===== *)
theory Events
  imports Journal
begin

text \<open>
  What a journal stores, said without blocks, indices or costs: a list of events, each one
  byte of output or one resize. Positions, sizes and costs are functions of such a list, and
  the retained resizes are the list's resizes with the positions at which they happened.
\<close>

datatype event = Byte byte | Resz term_size

fun event_bytes :: "event list \<Rightarrow> byte list" where
  "event_bytes [] = []"
| "event_bytes (Byte b # es) = b # event_bytes es"
| "event_bytes (Resz s # es) = event_bytes es"

fun event_sizes :: "event list \<Rightarrow> term_size list" where
  "event_sizes [] = []"
| "event_sizes (Byte b # es) = event_sizes es"
| "event_sizes (Resz s # es) = s # event_sizes es"

definition pos_after :: "position \<Rightarrow> event list \<Rightarrow> position" where
  "pos_after p es = Position (offset p + length (event_bytes es)) (resizes p + length (event_sizes es))"

definition size_after :: "term_size \<Rightarrow> event list \<Rightarrow> term_size" where
  "size_after s es = last (s # event_sizes es)"

definition events_cost :: "event list \<Rightarrow> nat" where
  "events_cost es = length (event_bytes es) + RECORD_COST * length (event_sizes es)"

fun resizes_from :: "position \<Rightarrow> event list \<Rightarrow> resize_record list" where
  "resizes_from p [] = []"
| "resizes_from p (Byte b # es) = resizes_from (Position (offset p + 1) (resizes p)) es"
| "resizes_from p (Resz s # es) =
     \<lparr>rz_offset = offset p, rz_index = resizes p, rz_size = s\<rparr>
       # resizes_from (Position (offset p) (resizes p + 1)) es"

lemma event_bytes_append [simp]: "event_bytes (xs @ ys) = event_bytes xs @ event_bytes ys"
  by (induction xs rule: event_bytes.induct) auto

lemma event_sizes_append [simp]: "event_sizes (xs @ ys) = event_sizes xs @ event_sizes ys"
  by (induction xs rule: event_sizes.induct) auto

lemma event_bytes_map_Byte [simp]: "event_bytes (map Byte bs) = bs"
  by (induction bs) auto

lemma event_sizes_map_Byte [simp]: "event_sizes (map Byte bs) = []"
  by (induction bs) auto

lemma pos_after_Nil [simp]: "pos_after p [] = p"
  by (simp add: pos_after_def)

lemma pos_after_Cons [simp]:
  "pos_after p (Byte b # es) = pos_after (Position (offset p + 1) (resizes p)) es"
  "pos_after p (Resz s # es) = pos_after (Position (offset p) (resizes p + 1)) es"
  by (simp_all add: pos_after_def)

lemma pos_after_append [simp]: "pos_after p (xs @ ys) = pos_after (pos_after p xs) ys"
  by (simp add: pos_after_def)

lemma pos_after_sel:
  "offset (pos_after p es) = offset p + length (event_bytes es)"
  "resizes (pos_after p es) = resizes p + length (event_sizes es)"
  by (simp_all add: pos_after_def)

lemma pos_after_ge: "p \<le> pos_after p es"
  by (cases p) (simp add: pos_after_def)

lemma pos_after_mono: "m \<le> n \<Longrightarrow> pos_after p (take m es) \<le> pos_after p (take n es)"
proof -
  assume "m \<le> n"
  then have "take n es = take m es @ take (n - m) (drop m es)"
    using take_add [of m "n - m" es] by simp
  then show ?thesis by (simp add: pos_after_ge)
qed

text \<open>Every event moves the position, so an event boundary is known by its position.\<close>

lemma pos_after_sum:
  "offset (pos_after p es) + resizes (pos_after p es) = offset p + resizes p + length es"
  by (induction p es rule: resizes_from.induct) auto

lemma pos_after_take_inject:
  assumes "m \<le> length es" "n \<le> length es" "pos_after p (take m es) = pos_after p (take n es)"
  shows "m = n"
proof -
  have "length (take m es) = length (take n es)"
    using pos_after_sum [of p "take m es"] pos_after_sum [of p "take n es"] assms(3) by simp
  with assms(1,2) show ?thesis by simp
qed

lemma size_after_Nil [simp]: "size_after s [] = s"
  by (simp add: size_after_def)

lemma size_after_append [simp]: "size_after s (xs @ ys) = size_after (size_after s xs) ys"
  by (simp add: size_after_def)

lemma size_after_Cons [simp]:
  "size_after s (Byte b # es) = size_after s es"
  "size_after s (Resz t # es) = size_after t es"
  by (simp_all add: size_after_def)

lemma size_after_map_Byte [simp]: "size_after s (map Byte bs) = s"
  by (simp add: size_after_def)

lemma events_cost_simps [simp]:
  "events_cost [] = 0" "events_cost (Byte b # es) = Suc (events_cost es)"
  "events_cost (Resz s # es) = RECORD_COST + events_cost es"
  "events_cost (xs @ ys) = events_cost xs + events_cost ys"
  "events_cost (map Byte bs) = length bs"
  by (simp_all add: events_cost_def algebra_simps)

lemma resizes_from_append:
  "resizes_from p (xs @ ys) = resizes_from p xs @ resizes_from (pos_after p xs) ys"
  by (induction p xs rule: resizes_from.induct) auto

lemma resizes_from_map_Byte [simp]: "resizes_from p (map Byte bs) = []"
  by (induction bs arbitrary: p) auto

lemma length_resizes_from [simp]: "length (resizes_from p es) = length (event_sizes es)"
  by (induction p es rule: resizes_from.induct) auto

lemma resizes_from_eq_Nil [simp]: "resizes_from p es = [] \<longleftrightarrow> event_sizes es = []"
  by (metis length_0_conv length_resizes_from)

lemma resizes_from_offsets:
  "r \<in> set (resizes_from p es) \<Longrightarrow>
    offset p \<le> rz_offset r \<and> rz_offset r \<le> offset p + length (event_bytes es)"
  by (induction p es rule: resizes_from.induct) fastforce+

lemma resizes_from_sizes: "map rz_size (resizes_from p es) = event_sizes es"
  by (induction p es rule: resizes_from.induct) auto

lemma event_sizes_Nil_map: "event_sizes es = [] \<Longrightarrow> es = map Byte (event_bytes es)"
  by (induction es rule: event_sizes.induct) auto

text \<open>
  The events before the first resize are bytes, as many as the resize's offset says; so what
  comes first in the list is decided by comparing offsets.
\<close>

lemma resizes_from_Cons:
  "resizes_from p es = r # rs \<Longrightarrow>
    \<exists>bs es'. es = map Byte bs @ Resz (rz_size r) # es' \<and> rz_offset r = offset p + length bs
      \<and> rz_index r = resizes p
      \<and> rs = resizes_from (Position (offset p + length bs) (resizes p + 1)) es'"
proof (induction p es rule: resizes_from.induct)
  case (2 p b es)
  then obtain bs es' where "es = map Byte bs @ Resz (rz_size r) # es'"
    "rz_offset r = offset p + 1 + length bs" "rz_index r = resizes p"
    "rs = resizes_from (Position (offset p + 1 + length bs) (resizes p + 1)) es'"
    by auto
  then show ?case by (intro exI [of _ "b # bs"] exI [of _ es']) simp
next
  case (3 p s es)
  then show ?case by (intro exI [of _ "[]"] exI [of _ es]) auto
qed simp

subsection \<open>Trimming a list of events\<close>

fun trim_count :: "nat \<Rightarrow> event list \<Rightarrow> nat" where
  "trim_count cap [] = 0"
| "trim_count cap (e # es) = (if events_cost (e # es) \<le> cap then 0 else Suc (trim_count cap es))"

lemma trim_count_fits: "events_cost (drop (trim_count cap es) es) \<le> cap"
  by (induction es) auto

lemma trim_count_least: "i < trim_count cap es \<Longrightarrow> cap < events_cost (drop i es)"
proof (induction es arbitrary: i)
  case (Cons e es)
  then show ?case by (cases i) (auto split: if_splits)
qed simp

lemma trim_count_le: "trim_count cap es \<le> length es"
  by (induction es) auto

lemma trim_count_zero: "events_cost es \<le> cap \<Longrightarrow> trim_count cap es = 0"
  by (cases es) auto

lemma trim_count_Cons: "cap < events_cost (e # es) \<Longrightarrow> trim_count cap (e # es) = Suc (trim_count cap es)"
  by simp

lemma trim_count_bytes:
  "length bs \<le> events_cost (map Byte bs @ es) - cap \<Longrightarrow>
    trim_count cap (map Byte bs @ es) = length bs + trim_count cap es"
proof (induction bs)
  case (Cons b bs)
  then show ?case by simp
qed simp

subsection \<open>Boundaries\<close>

text \<open>
  A position between the first and the last event boundary (by offset) is consistent with
  the resizes exactly when it is an event boundary.
\<close>

definition consistent_with :: "resize_record list \<Rightarrow> nat \<Rightarrow> position \<Rightarrow> bool" where
  "consistent_with rs first p \<longleftrightarrow>
     first \<le> resizes p \<and> resizes p \<le> first + length rs
     \<and> (first < resizes p \<longrightarrow> rz_offset (rs ! (resizes p - first - 1)) \<le> offset p)
     \<and> (resizes p < first + length rs \<longrightarrow> offset p \<le> rz_offset (rs ! (resizes p - first)))"

lemma ex_le_Suc: "(\<exists>i\<le>Suc n. P i) \<longleftrightarrow> P 0 \<or> (\<exists>i\<le>n. P (Suc i))"
  by (metis Suc_le_mono not0_implies_Suc zero_le)

lemma boundary_offset_ge: "pos_after q es = p \<Longrightarrow> q \<le> p"
  using pos_after_ge by blast

lemma consistent_with_boundary:
  "offset q \<le> offset p \<Longrightarrow> offset p \<le> offset q + length (event_bytes es) \<Longrightarrow>
    consistent_with (resizes_from q es) (resizes q) p \<longleftrightarrow>
      (\<exists>i\<le>length es. pos_after q (take i es) = p)"
proof (induction q es rule: resizes_from.induct)
  case (1 q)
  then show ?case by (cases p; cases q) (auto simp: consistent_with_def)
next
  case (2 q b es)
  let ?q = "Position (offset q + 1) (resizes q)"
  have split: "(\<exists>i\<le>length (Byte b # es). pos_after q (take i (Byte b # es)) = p) \<longleftrightarrow>
    q = p \<or> (\<exists>i\<le>length es. pos_after ?q (take i es) = p)"
    by (simp add: ex_le_Suc)
  show ?case
  proof (cases "offset p = offset q")
    case True
    have no: "\<not> (\<exists>i\<le>length es. pos_after ?q (take i es) = p)"
      using boundary_offset_ge [of ?q _ p] True by (auto simp: less_eq_position_def)
    have "consistent_with (resizes_from ?q es) (resizes q) p \<longleftrightarrow> resizes p = resizes q"
    proof
      assume c: "consistent_with (resizes_from ?q es) (resizes q) p"
      show "resizes p = resizes q"
      proof (rule ccontr)
        assume "resizes p \<noteq> resizes q"
        with c have "resizes q < resizes p" "resizes p - resizes q - 1 < length (event_sizes es)"
          by (auto simp: consistent_with_def)
        then have "offset q + 1 \<le> rz_offset (resizes_from ?q es ! (resizes p - resizes q - 1))"
          using resizes_from_offsets [of "resizes_from ?q es ! (resizes p - resizes q - 1)" ?q es]
          by (simp add: nth_mem)
        with c True \<open>resizes q < resizes p\<close> show False by (auto simp: consistent_with_def)
      qed
    next
      assume "resizes p = resizes q"
      then show "consistent_with (resizes_from ?q es) (resizes q) p"
        using resizes_from_offsets [of "resizes_from ?q es ! 0" ?q es] True
        by (auto simp: consistent_with_def)
    qed
    with split no True show ?thesis by (auto intro: position.expand)
  next
    case False
    with 2 split show ?thesis by auto
  qed
next
  case (3 q s es)
  let ?q = "Position (offset q) (resizes q + 1)"
  have split: "(\<exists>i\<le>length (Resz s # es). pos_after q (take i (Resz s # es)) = p) \<longleftrightarrow>
    q = p \<or> (\<exists>i\<le>length es. pos_after ?q (take i es) = p)"
    by (simp add: ex_le_Suc)
  show ?case
  proof (cases "resizes p \<le> resizes q")
    case True
    have "\<not> (\<exists>i\<le>length es. pos_after ?q (take i es) = p)"
      using boundary_offset_ge [of ?q _ p] True by (auto simp: less_eq_position_def)
    with split True "3.prems" show ?thesis
      by (auto simp: consistent_with_def intro: position.expand)
  next
    case False
    then have "q \<noteq> p" by auto
    moreover have "consistent_with (resizes_from q (Resz s # es)) (resizes q) p \<longleftrightarrow>
      consistent_with (resizes_from ?q es) (resizes ?q) p"
    proof -
      obtain k where "resizes p = resizes q + Suc k"
        using False by (metis less_iff_Suc_add not_le add_Suc_right)
      with "3.prems" show ?thesis by (cases k) (auto simp: consistent_with_def)
    qed
    ultimately show ?thesis using "3.IH" "3.prems" split by simp
  qed
qed

end
