(* ===== verification/Journal_Rep.thy ===== *)
theory Journal_Rep
  imports Events
begin

text \<open>
  The representation relation of the journal: \<open>tail_rep es j\<close> says that the journal's blocks,
  resizes, cost, end and size are those of the event list \<open>es\<close>, starting at the journal's
  start. One lemma per operation of \<^verbatim>\<open>journal.rs\<close> says what it does to \<open>es\<close>.
\<close>

fun blocks_ok :: "nat \<Rightarrow> block list \<Rightarrow> bool" where
  "blocks_ok off [] \<longleftrightarrow> True"
| "blocks_ok off (b # bs) \<longleftrightarrow> b_offset b = off \<and> b_skip b < length (b_data b)
     \<and> length (b_data b) \<le> MAX_OUTPUT_CHUNK \<and> blocks_ok (block_end b) bs"

text \<open>Only the first block may be partly trimmed, and only the last partly filled.\<close>

definition packed :: "block list \<Rightarrow> bool" where
  "packed bs \<longleftrightarrow> (\<forall>b\<in>set (butlast bs). length (b_data b) = MAX_OUTPUT_CHUNK)
     \<and> (\<forall>b\<in>set (tl bs). b_skip b = 0)"

definition stored_bytes :: "block list \<Rightarrow> byte list" where
  "stored_bytes bs = concat (map block_bytes bs)"

definition tail_rep :: "event list \<Rightarrow> journal \<Rightarrow> bool" where
  "tail_rep es j \<longleftrightarrow> blocks_ok (offset (j_start j)) (j_output j) \<and> packed (j_output j)
     \<and> stored_bytes (j_output j) = event_bytes es
     \<and> j_resizes j = resizes_from (j_start j) es
     \<and> current j = pos_after (j_start j) es
     \<and> j_cost j = events_cost es
     \<and> j_size j = size_after (j_start_size j) es"

lemma tail_repD:
  assumes "tail_rep es j"
  shows "blocks_ok (offset (j_start j)) (j_output j)" "packed (j_output j)"
    "stored_bytes (j_output j) = event_bytes es" "j_resizes j = resizes_from (j_start j) es"
    "current j = pos_after (j_start j) es" "j_cost j = events_cost es"
    "j_size j = size_after (j_start_size j) es"
    "j_end j = offset (j_start j) + length (event_bytes es)"
    "j_resize_count j = resizes (j_start j) + length (event_sizes es)"
  using assms by (simp_all add: tail_rep_def current_def pos_after_def)

lemma length_block_bytes [simp]: "length (block_bytes b) = block_len b"
  by (simp add: block_bytes_def block_len_def)

lemma block_bytes_cut_front [simp]: "block_bytes (cut_front n b) = drop n (block_bytes b)"
  by (simp add: block_bytes_def cut_front_def add.commute)

lemma block_end_cut_front: "n \<le> block_len b \<Longrightarrow> block_end (cut_front n b) = block_end b"
  by (simp add: block_end_def) (simp add: cut_front_def)

lemma cut_front_sel [simp]:
  "b_data (cut_front n b) = b_data b" "b_skip (cut_front n b) = b_skip b + n"
  "b_offset (cut_front n b) = b_offset b + n"
  by (simp_all add: cut_front_def)

lemma stored_bytes_simps [simp]:
  "stored_bytes [] = []" "stored_bytes (b # bs) = block_bytes b @ stored_bytes bs"
  "stored_bytes (xs @ ys) = stored_bytes xs @ stored_bytes ys"
  by (simp_all add: stored_bytes_def)

lemma packed_simps:
  "packed []" "packed [b]"
  "packed (b # c # bs) \<longleftrightarrow> length (b_data b) = MAX_OUTPUT_CHUNK \<and> b_skip c = 0 \<and> packed (c # bs)"
  by (auto simp: packed_def dest: in_set_butlastD)

lemma blocks_ok_nonempty: "blocks_ok off (b # bs) \<Longrightarrow> 0 < block_len b"
  by (auto simp: block_len_def)

text \<open>What an operation that only moves the start leaves alone.\<close>

definition same_ends :: "journal \<Rightarrow> journal \<Rightarrow> bool" where
  "same_ends j j' \<longleftrightarrow> j_cap j' = j_cap j \<and> j_end j' = j_end j
     \<and> j_resize_count j' = j_resize_count j \<and> j_size j' = j_size j
     \<and> j_initial_size j' = j_initial_size j \<and> j_exit j' = j_exit j"

text \<open>\<open>advanced n es j j'\<close>: \<open>j'\<close> is \<open>j\<close> with the first \<open>n\<close> of its events \<open>es\<close> dropped.\<close>

definition advanced :: "nat \<Rightarrow> event list \<Rightarrow> journal \<Rightarrow> journal \<Rightarrow> bool" where
  "advanced n es j j' \<longleftrightarrow> tail_rep (drop n es) j' \<and> same_ends j j'
     \<and> j_start j' = pos_after (j_start j) (take n es)
     \<and> j_start_size j' = size_after (j_start_size j) (take n es)"

lemma advanced_zero: "tail_rep es j \<Longrightarrow> advanced 0 es j j"
  by (simp add: advanced_def same_ends_def)

lemma advanced_trans:
  assumes "advanced m es j j1" "advanced n (drop m es) j1 j2"
  shows "advanced (m + n) es j j2"
proof -
  have "take (m + n) es = take m es @ take n (drop m es)" by (rule take_add)
  with assms show ?thesis
    by (auto simp: advanced_def same_ends_def add.commute)
qed

subsection \<open>Trimming\<close>

lemma size_after_split: "size_after s es = size_after (size_after s (take n es)) (drop n es)"
  by (metis append_take_drop_id size_after_append)

lemma pos_after_split: "pos_after p es = pos_after (pos_after p (take n es)) (drop n es)"
  by (metis append_take_drop_id pos_after_append)

text \<open>How many bytes come before the first resize, as the code sees it from its queues.\<close>

lemma leading_bytes:
  assumes "n \<le> length (event_bytes es)"
    and "\<And>r rs. resizes_from p es = r # rs \<Longrightarrow> n \<le> rz_offset r - offset p"
  shows "take n es = map Byte (take n (event_bytes es))"
proof (cases "resizes_from p es")
  case Nil
  then have "event_sizes es = []" by simp
  then show ?thesis by (metis event_sizes_Nil_map take_map)
next
  case (Cons r rs)
  from resizes_from_Cons [OF Cons] obtain bs es'
    where "es = map Byte bs @ Resz (rz_size r) # es'" "rz_offset r = offset p + length bs"
    by blast
  with assms(2) [OF Cons] show ?thesis by (simp add: take_map)
qed

lemma drop_leading:
  assumes "take n es = map Byte (take n (event_bytes es))"
  shows "event_bytes (drop n es) = drop n (event_bytes es)"
    and "event_sizes (drop n es) = event_sizes es"
    and "resizes_from p es = resizes_from (Position (offset p + length (take n es)) (resizes p)) (drop n es)"
proof -
  have "event_bytes es = event_bytes (take n es) @ event_bytes (drop n es)"
    by (metis append_take_drop_id event_bytes_append)
  moreover have "event_bytes (take n es) = take n (event_bytes es)"
    by (subst assms) simp
  ultimately show "event_bytes (drop n es) = drop n (event_bytes es)"
    by (metis append_take_drop_id same_append_eq)
  have "event_sizes es = event_sizes (take n es) @ event_sizes (drop n es)"
    by (metis append_take_drop_id event_sizes_append)
  then show "event_sizes (drop n es) = event_sizes es" using assms by simp
  have "resizes_from p es = resizes_from p (take n es) @ resizes_from (pos_after p (take n es)) (drop n es)"
    by (metis append_take_drop_id resizes_from_append)
  then show "resizes_from p es
      = resizes_from (Position (offset p + length (take n es)) (resizes p)) (drop n es)"
    using assms by (metis append_Nil event_bytes_map_Byte event_sizes_map_Byte length_map
        list.size(3) pos_after_def resizes_from_map_Byte add_0_right)
qed

lemma trim_resize_advanced:
  assumes rep: "tail_rep es j" and first: "resize_first j" and some: "j_resizes j \<noteq> []"
  shows "\<exists>s es'. es = Resz s # es'" "advanced 1 es j (trim_step j)"
proof -
  note R = tail_repD [OF rep]
  obtain r rs where rs: "j_resizes j = r # rs" using some by (cases "j_resizes j") auto
  with R(4) obtain bs es' where es: "es = map Byte bs @ Resz (rz_size r) # es'"
    and off: "rz_offset r = offset (j_start j) + length bs" and idx: "rz_index r = resizes (j_start j)"
    and rs': "rs = resizes_from (Position (offset (j_start j) + length bs) (resizes (j_start j) + 1)) es'"
    using resizes_from_Cons [of "j_start j" es r rs] by metis
  have "bs = []"
    using R(1,3) first rs off es by (cases "j_output j") (auto simp: resize_first_def)
  then have es: "es = Resz (rz_size r) # es'" using es by simp
  then show "\<exists>s es'. es = Resz s # es'" by blast
  have front: "front_offset j = offset (j_start j)"
    using R(1,3,8) by (cases "j_output j") (auto simp: front_offset_def)
  have cut: "trim_resize (j\<lparr>j_trimmed := True\<rparr>) = j\<lparr>j_trimmed := True, j_resizes := rs,
      j_cost := j_cost j - RECORD_COST, j_start_size := rz_size r,
      j_start := Position (offset (j_start j)) (resizes (j_start j) + 1)\<rparr>"
    using rs idx by (simp add: trim_resize_def)
  have "front_offset (trim_resize (j\<lparr>j_trimmed := True\<rparr>)) = front_offset j"
    unfolding cut front_offset_def by (cases "j_output j") simp_all
  then have step: "trim_step j = j\<lparr>j_trimmed := True, j_resizes := rs,
      j_cost := j_cost j - RECORD_COST, j_start_size := rz_size r,
      j_start := Position (offset (j_start j)) (resizes (j_start j) + 1)\<rparr>"
    using first front by (simp add: trim_step_def Let_def cut)
  have "rs = resizes_from (Position (offset (j_start j)) (Suc (resizes (j_start j)))) es'"
    using rs' \<open>bs = []\<close> by simp
  with R(1-3,5-9) es show "advanced 1 es j (trim_step j)"
    unfolding step by (simp add: advanced_def same_ends_def tail_rep_def current_def)
qed

lemma trim_output_Cons:
  assumes "j_output j = b # bs" "n = min (min (j_cost j - j_cap j) (block_len b))
      ((case j_resizes j of [] \<Rightarrow> 2 ^ 64 - 1 | r # _ \<Rightarrow> rz_offset r) - b_offset b)"
  shows "trim_output j = j\<lparr>j_cost := j_cost j - n,
    j_output := (if block_len b - n = 0 then bs else cut_front n b # bs)\<rparr>"
  unfolding trim_output_def Let_def assms(1) list.case assms(2) [symmetric] by simp

lemma trim_output_advanced:
  assumes rep: "tail_rep es j" and first: "\<not> resize_first j" and some: "j_output j \<noteq> []"
    and over: "j_cap j < j_cost j" and u64: "u64_ok (j_end j)"
  shows "\<exists>n>0. n \<le> j_cost j - j_cap j \<and> n \<le> length (event_bytes es)
    \<and> take n es = map Byte (take n (event_bytes es)) \<and> advanced n es j (trim_step j)"
proof -
  note R = tail_repD [OF rep]
  obtain b bs where out: "j_output j = b # bs" using some by (cases "j_output j") auto
  define before where "before = (case j_resizes j of [] \<Rightarrow> 2 ^ 64 - 1 | r # _ \<Rightarrow> rz_offset r)"
  define n where "n = min (min (j_cost j - j_cap j) (block_len b)) (before - b_offset b)"
  have b: "b_offset b = offset (j_start j)" "0 < block_len b" "length (b_data b) \<le> MAX_OUTPUT_CHUNK"
    "b_skip b < length (b_data b)" "blocks_ok (block_end b) bs"
    using R(1) out blocks_ok_nonempty [of _ b bs] by auto
  have len: "block_len b \<le> length (event_bytes es)"
    using arg_cong [OF R(3), of length] out by simp
  have before: "b_offset b < before"
    using first out b R(8) u64 len
    by (auto simp: before_def resize_first_def u64_ok_def split: list.splits)
  with over b have pos: "0 < n" by (simp add: n_def)
  have le: "n \<le> length (event_bytes es)" using len by (simp add: n_def)
  have "n \<le> rz_offset r - offset (j_start j)" if "resizes_from (j_start j) es = r # rs" for r rs
    using that R(4) b by (simp add: n_def before_def)
  then have bytes: "take n es = map Byte (take n (event_bytes es))"
    using leading_bytes [OF le] by blast
  note dropped = drop_leading [OF bytes]
  define j' where "j' = trim_step j"
  have j': "j' = j\<lparr>j_trimmed := True, j_cost := j_cost j - n,
      j_output := (if block_len b = n then bs else cut_front n b # bs),
      j_start := Position (offset (j_start j) + n) (resizes (j_start j))\<rparr>"
  proof -
    have nb: "n \<le> block_len b" by (simp add: n_def)
    have "bs = [] \<Longrightarrow> block_len b = length (event_bytes es)"
      using arg_cong [OF R(3), of length] out by simp
    moreover have "bs \<noteq> [] \<Longrightarrow> b_offset (hd bs) = block_end b"
      using b(5) by (cases bs) auto
    ultimately have front: "front_offset (j\<lparr>j_trimmed := True, j_cost := j_cost j - n,
        j_output := (if block_len b = n then bs else cut_front n b # bs)\<rparr>) = offset (j_start j) + n"
      using b R(8) nb by (auto simp: front_offset_def block_end_def split: list.split)
    have "trim_output (j\<lparr>j_trimmed := True\<rparr>) = j\<lparr>j_trimmed := True, j_cost := j_cost j - n,
        j_output := (if block_len b = n then bs else cut_front n b # bs)\<rparr>"
    proof -
      let ?j1 = "j\<lparr>j_trimmed := True\<rparr>"
      have sel: "j_cost ?j1 = j_cost j" "j_cap ?j1 = j_cap j" "j_resizes ?j1 = j_resizes j"
        by simp_all
      have "j_output ?j1 = b # bs" using out by simp
      moreover have "n = min (min (j_cost ?j1 - j_cap ?j1) (block_len b))
          ((case j_resizes ?j1 of [] \<Rightarrow> 2 ^ 64 - 1 | r # _ \<Rightarrow> rz_offset r) - b_offset b)"
        unfolding sel n_def before_def ..
      ultimately have "trim_output ?j1 = ?j1\<lparr>j_cost := j_cost ?j1 - n,
          j_output := (if block_len b - n = 0 then bs else cut_front n b # bs)\<rparr>"
        by (rule trim_output_Cons)
      moreover have "(block_len b - n = 0) = (block_len b = n)" using nb by auto
      ultimately show ?thesis by (simp only: sel)
    qed
    with front first show ?thesis
      unfolding j'_def trim_step_def by (simp add: Let_def)
  qed
  have nb: "n \<le> block_len b" by (simp add: n_def)
  have outj: "j_output j' = (if block_len b = n then bs else cut_front n b # bs)"
    by (simp add: j')
  have blocks: "blocks_ok (offset (j_start j) + n) (j_output j')"
  proof (cases "block_len b = n")
    case True
    then show ?thesis using b by (simp add: outj block_end_def)
  next
    case False
    then have "b_skip b + n < length (b_data b)"
      using nb b(4) by (simp add: block_len_def)
    with False show ?thesis using b nb by (simp add: outj block_end_cut_front)
  qed
  have packed: "packed (j_output j')"
    using R(2) unfolding outj out by (cases bs) (auto simp: packed_simps)
  have "event_bytes es = block_bytes b @ stored_bytes bs"
    using R(3) out by simp
  then have stored: "stored_bytes (j_output j') = drop n (event_bytes es)"
    using nb by (simp add: outj)
  have lenn: "length (take n es) = n"
    using arg_cong [OF bytes, of length] le by simp
  have resz: "resizes_from (Position (offset (j_start j) + n) (resizes (j_start j))) (drop n es)
      = resizes_from (j_start j) es"
    using dropped(3) [of "j_start j"] lenn by simp
  have cost: "events_cost (drop n es) = events_cost es - n"
    using dropped(1,2) le by (simp add: events_cost_def)
  have took: "event_bytes (take n es) = take n (event_bytes es)" "event_sizes (take n es) = []"
    by (subst bytes, simp)+
  have "tail_rep (drop n es) j'"
    unfolding tail_rep_def
  proof (intro conjI)
    show "blocks_ok (offset (j_start j')) (j_output j')" using blocks by (simp add: j')
    show "packed (j_output j')" by (fact packed)
    show "stored_bytes (j_output j') = event_bytes (drop n es)" using stored dropped(1) by simp
    show "j_resizes j' = resizes_from (j_start j') (drop n es)" using R(4) resz by (simp add: j')
    show "current j' = pos_after (j_start j') (drop n es)"
      using R(5) dropped(1,2) le by (simp add: j' current_def pos_after_def)
    show "j_cost j' = events_cost (drop n es)" using R(6) cost by (simp add: j')
    show "j_size j' = size_after (j_start_size j') (drop n es)"
      using R(7) dropped(2) by (simp add: j' size_after_def)
  qed
  moreover have "same_ends j j'" by (simp add: same_ends_def j')
  moreover have "j_start j' = pos_after (j_start j) (take n es)"
    using took le by (simp add: j' pos_after_def)
  moreover have "j_start_size j' = size_after (j_start_size j) (take n es)"
    using took by (simp add: j' size_after_def)
  ultimately have "advanced n es j j'" by (simp add: advanced_def)
  then show ?thesis
    using pos le bytes unfolding j'_def by (intro exI [of _ n]) (simp add: n_def)
qed

lemma trim_unfold: "trim j = (if j_cap j < j_cost j then trim (trim_step j) else j)"
  unfolding trim_def by (subst while_unfold) simp

lemma trim_step_keeps [simp]:
  "j_resizes j \<noteq> [] \<or> j_output j \<noteq> [] \<Longrightarrow> j_snapshot (trim_step j) = j_snapshot j"
  "j_resizes j \<noteq> [] \<or> j_output j \<noteq> [] \<Longrightarrow> j_blob (trim_step j) = j_blob j"
  "j_resizes j \<noteq> [] \<or> j_output j \<noteq> [] \<Longrightarrow> j_trimmed (trim_step j)"
  by (cases "j_resizes j"; cases "j_output j";
      auto simp: trim_step_def trim_resize_def trim_output_def Let_def resize_first_def)+

lemma tail_rep_not_empty:
  assumes "tail_rep es j" "es \<noteq> []"
  shows "j_resizes j \<noteq> [] \<or> j_output j \<noteq> []"
proof (rule ccontr)
  assume "\<not> (j_resizes j \<noteq> [] \<or> j_output j \<noteq> [])"
  with tail_repD(3,4) [OF assms(1)] have "event_bytes es = []" "event_sizes es = []" by auto
  then show False using assms(2) event_sizes_Nil_map by fastforce
qed

lemma trim_step_advanced:
  assumes rep: "tail_rep es j" and over: "j_cap j < j_cost j" and u64: "u64_ok (j_end j)"
  shows "\<exists>n. 0 < n \<and> n \<le> length es \<and> advanced n es j (trim_step j)
    \<and> trim_count (j_cap j) es = n + trim_count (j_cap j) (drop n es)"
proof -
  have some: "j_resizes j \<noteq> [] \<or> j_output j \<noteq> []"
    using tail_rep_not_empty [OF rep] over tail_repD(6) [OF rep] by force
  show ?thesis
  proof (cases "resize_first j")
    case True
    with some have "j_resizes j \<noteq> []" by (auto simp: resize_first_def split: list.splits)
    from trim_resize_advanced [OF rep True this] obtain s es'
      where es: "es = Resz s # es'" "advanced 1 es j (trim_step j)" by blast
    moreover have "trim_count (j_cap j) es = 1 + trim_count (j_cap j) (drop 1 es)"
      using over tail_repD(6) [OF rep] es(1) by simp
    ultimately show ?thesis by (intro exI [of _ 1]) auto
  next
    case False
    with some have "j_output j \<noteq> []" by (auto simp: resize_first_def split: list.splits)
    from trim_output_advanced [OF rep False this over u64] obtain n
      where n: "0 < n" "n \<le> j_cost j - j_cap j" "n \<le> length (event_bytes es)"
        "take n es = map Byte (take n (event_bytes es))" "advanced n es j (trim_step j)"
      by blast
    let ?bs = "take n (event_bytes es)"
    have es: "es = map Byte ?bs @ drop n es" using n(4) by (metis append_take_drop_id)
    have len: "length ?bs = n" using n(3) by simp
    have "n \<le> length es" using arg_cong [OF es, of length] len by simp
    moreover have "trim_count (j_cap j) (map Byte ?bs @ drop n es)
        = length ?bs + trim_count (j_cap j) (drop n es)"
      by (rule trim_count_bytes)
        (use n(2) tail_repD(6) [OF rep] es len in \<open>simp del: events_cost_simps\<close>)
    ultimately show ?thesis using n(1,5) es len by metis
  qed
qed

text \<open>
  Trimming drops the fewest events that bring the cost within the cap, no matter how the
  blocks lie.
\<close>

lemma trim_advanced:
  assumes "tail_rep es j" "u64_ok (j_end j)"
  shows "advanced (trim_count (j_cap j) es) es j (trim j)
    \<and> j_trimmed (trim j) = (j_trimmed j \<or> 0 < trim_count (j_cap j) es)
    \<and> j_snapshot (trim j) = j_snapshot j \<and> j_blob (trim j) = j_blob j"
  using assms
proof (induction "length es" arbitrary: es j rule: less_induct)
  case less
  show ?case
  proof (cases "j_cap j < j_cost j")
    case False
    then have "trim_count (j_cap j) es = 0"
      using trim_count_zero tail_repD(6) [OF less.prems(1)] by simp
    then show ?thesis using False advanced_zero [OF less.prems(1)] by (simp add: trim_unfold)
  next
    case True
    from trim_step_advanced [OF less.prems(1) True less.prems(2)] obtain n
      where n: "0 < n" "n \<le> length es" "advanced n es j (trim_step j)"
        "trim_count (j_cap j) es = n + trim_count (j_cap j) (drop n es)" by blast
    then have same: "same_ends j (trim_step j)" and rep: "tail_rep (drop n es) (trim_step j)"
      by (simp_all add: advanced_def)
    have es: "es \<noteq> []" using n(1,2) by auto
    have "trim j = trim (trim_step j)" using True by (subst trim_unfold) simp
    moreover have "length (drop n es) < length es" using n(1) es by simp
    note IH = less.hyps [OF this rep]
    ultimately show ?thesis
      using IH same n(1,3,4) tail_rep_not_empty [OF less.prems(1) es] less.prems(2)
        advanced_trans [OF n(3)]
      by (auto simp: same_ends_def)
  qed
qed

end
