(* ===== verification/Journal_Ops.thy ===== *)
theory Journal_Ops
  imports Journal_Rep
begin

text \<open>
  What the operations that append to a journal and the one that accepts a snapshot do to the
  event list a journal represents.
\<close>

subsection \<open>Appending\<close>

lemma blocks_ok_snoc:
  "blocks_ok off (bs @ [b]) \<longleftrightarrow> blocks_ok off bs \<and> b_offset b = off + length (stored_bytes bs)
     \<and> b_skip b < length (b_data b) \<and> length (b_data b) \<le> MAX_OUTPUT_CHUNK"
  by (induction off bs rule: blocks_ok.induct) (auto simp: block_end_def)

lemma packed_snoc:
  "packed (bs @ [b]) \<longleftrightarrow> (\<forall>c\<in>set bs. length (b_data c) = MAX_OUTPUT_CHUNK)
     \<and> (\<forall>c\<in>set (tl bs). b_skip c = 0) \<and> (bs \<noteq> [] \<longrightarrow> b_skip b = 0)"
  by (cases bs) (auto simp: packed_def)

text \<open>What an operation that only appends leaves alone.\<close>

definition same_front :: "journal \<Rightarrow> journal \<Rightarrow> bool" where
  "same_front j j' \<longleftrightarrow> j_cap j' = j_cap j \<and> j_start j' = j_start j
     \<and> j_start_size j' = j_start_size j \<and> j_snapshot j' = j_snapshot j \<and> j_blob j' = j_blob j
     \<and> j_trimmed j' = j_trimmed j \<and> j_initial_size j' = j_initial_size j \<and> j_exit j' = j_exit j"

definition appended :: "event list \<Rightarrow> event list \<Rightarrow> journal \<Rightarrow> journal \<Rightarrow> bool" where
  "appended es news j j' \<longleftrightarrow> tail_rep (es @ news) j' \<and> same_front j j'"

text \<open>One round of the loop: a block with room, made if need be, and filled.\<close>

definition with_room :: "journal \<Rightarrow> journal" where
  "with_room j = (if room j = 0 then j\<lparr>j_output := j_output j @ [new_block j]\<rparr> else j)"

lemma room_with_room: "room (with_room j) = (if room j = 0 then MAX_OUTPUT_CHUNK else room j)"
  by (auto simp: with_room_def room_def new_block_def)

lemma push_loop_round:
  assumes "data \<noteq> []"
  shows "push_loop data j = push_loop (drop (room (with_room j)) data)
    (fill_last (take (room (with_room j)) data) (with_room j))"
proof (cases "room j = 0")
  case True
  then have "push_loop data j = push_loop data (with_room j)"
    using assms by (subst push_loop.simps) (simp add: with_room_def)
  moreover have "room (with_room j) \<noteq> 0"
    using True by (simp add: room_with_room MAX_OUTPUT_CHUNK_def)
  ultimately show ?thesis using assms by (subst (asm) (2) push_loop.simps) simp
next
  case False
  then show ?thesis using assms by (subst push_loop.simps) (simp add: with_room_def)
qed

lemma room_zero_full:
  assumes "room j = 0" "blocks_ok off (j_output j)" "packed (j_output j)"
  shows "\<forall>c\<in>set (j_output j). length (b_data c) = MAX_OUTPUT_CHUNK"
    "\<forall>c\<in>set (tl (j_output j)). b_skip c = 0"
  using assms by (cases "j_output j" rule: rev_cases; simp add: room_def blocks_ok_snoc packed_snoc;
    cases "butlast (j_output j)"; simp)+

lemma fill_last_rep:
  assumes rep: "tail_rep es j" and new: "data \<noteq> []" "length data \<le> room (with_room j)"
  shows "appended es (map Byte data) j (fill_last data (with_room j))"
proof -
  note R = tail_repD [OF rep]
  define j' where "j' = fill_last data (with_room j)"
  have out: "blocks_ok (offset (j_start j)) (j_output j') \<and> packed (j_output j')
    \<and> stored_bytes (j_output j') = stored_bytes (j_output j) @ data"
  proof (cases "room j = 0")
    case True
    note full = room_zero_full [OF True R(1,2)]
    have "j_output j' = j_output j @ [\<lparr>b_offset = j_end j, b_data = data, b_skip = 0\<rparr>]"
      using True by (simp add: j'_def fill_last_def with_room_def new_block_def Let_def)
    with full R(1,3,8) new True show ?thesis
      by (simp add: blocks_ok_snoc packed_snoc room_with_room block_bytes_def)
  next
    case False
    then obtain bs b where snoc: "j_output j = bs @ [b]"
      by (cases "j_output j" rule: rev_cases) (auto simp: room_def)
    with False have "j_output j' = bs @ [b\<lparr>b_data := b_data b @ data\<rparr>]"
      by (simp add: j'_def fill_last_def with_room_def Let_def)
    moreover have "length (b_data b) + length data \<le> MAX_OUTPUT_CHUNK"
      using new(2) False snoc by (simp add: with_room_def room_def)
    ultimately show ?thesis
      using snoc R(1,2) by (auto simp: blocks_ok_snoc packed_snoc block_bytes_def)
  qed
  have rest: "same_front j j'" "j_resizes j' = j_resizes j" "j_end j' = j_end j + length data"
    "j_cost j' = j_cost j + length data" "j_size j' = j_size j"
    "j_resize_count j' = j_resize_count j"
    by (simp_all add: j'_def fill_last_def with_room_def same_front_def Let_def)
  have start: "j_start j' = j_start j" "j_start_size j' = j_start_size j"
    using rest(1) by (simp_all add: same_front_def)
  have "tail_rep (es @ map Byte data) j'"
    unfolding tail_rep_def start using R out rest
    by (simp add: current_def resizes_from_append pos_after_def)
  with rest(1) show ?thesis by (simp add: appended_def j'_def)
qed

lemma appended_refl: "tail_rep es j \<Longrightarrow> appended es [] j j"
  by (simp add: appended_def same_front_def)

lemma appended_trans:
  "appended es xs j j1 \<Longrightarrow> appended (es @ xs) ys j1 j2 \<Longrightarrow> appended es (xs @ ys) j j2"
  by (simp add: appended_def same_front_def)

lemma push_loop_appended: "tail_rep es j \<Longrightarrow> appended es (map Byte data) j (push_loop data j)"
proof (induction "length data" arbitrary: data es j rule: less_induct)
  case less
  show ?case
  proof (cases "data = []")
    case True
    with less.prems show ?thesis by (subst push_loop.simps) (simp add: appended_refl)
  next
    case False
    let ?n = "room (with_room j)"
    have n: "0 < ?n" by (simp add: room_with_room MAX_OUTPUT_CHUNK_def)
    have round: "appended es (map Byte (take ?n data)) j (fill_last (take ?n data) (with_room j))"
      by (rule fill_last_rep) (use less.prems False n in auto)
    then have "tail_rep (es @ map Byte (take ?n data)) (fill_last (take ?n data) (with_room j))"
      by (simp add: appended_def)
    from less.hyps [OF _ this, of "drop ?n data"] n False
    have "appended (es @ map Byte (take ?n data)) (map Byte (drop ?n data))
        (fill_last (take ?n data) (with_room j)) (push_loop data j)"
      by (simp add: push_loop_round [OF False])
    from appended_trans [OF round this] show ?thesis
      by (metis append_take_drop_id map_append)
  qed
qed

lemma add_resize_appended:
  assumes "tail_rep es j"
  shows "appended es [Resz s] j (add_resize s j)"
proof -
  note R = tail_repD [OF assms]
  have "tail_rep (es @ [Resz s]) (add_resize s j)"
    unfolding tail_rep_def add_resize_def journal.simps using R
    by (simp add: current_def resizes_from_append pos_after_def)
  then show ?thesis by (simp add: appended_def same_front_def add_resize_def)
qed

subsection \<open>Snapshots\<close>

lemma consistent_iff:
  assumes "tail_rep es j" "offset (j_start j) \<le> offset p" "offset p \<le> j_end j"
  shows "consistent j p \<longleftrightarrow> (\<exists>i\<le>length es. pos_after (j_start j) (take i es) = p)"
proof -
  note R = tail_repD [OF assms(1)]
  have "consistent j p \<longleftrightarrow> consistent_with (resizes_from (j_start j) es) (resizes (j_start j)) p"
    unfolding consistent_def consistent_with_def R(4,9) Let_def by auto
  also have "\<dots> \<longleftrightarrow> (\<exists>i\<le>length es. pos_after (j_start j) (take i es) = p)"
    by (rule consistent_with_boundary) (use assms(2,3) R(8) in auto)
  finally show ?thesis .
qed

lemma drop_blocks_rep:
  assumes "blocks_ok off0 bs" "packed bs" "off0 \<le> off" "off \<le> off0 + length (stored_bytes bs)"
  shows "\<exists>out. drop_blocks off bs cost = (out, cost - (off - off0)) \<and> blocks_ok off out \<and> packed out
    \<and> stored_bytes out = drop (off - off0) (stored_bytes bs)"
  using assms
proof (induction bs arbitrary: off0 cost)
  case (Cons b bs)
  have b: "b_offset b = off0" "block_end b = off0 + block_len b" "blocks_ok (block_end b) bs"
    "b_skip b < length (b_data b)" "length (b_data b) \<le> MAX_OUTPUT_CHUNK"
    using Cons.prems(1) by (auto simp: block_end_def)
  show ?case
  proof (cases "block_end b \<le> off")
    case True
    have "packed bs" using Cons.prems(2) by (cases bs) (auto simp: packed_simps)
    from Cons.IH [OF b(3) this True, of "cost - block_len b"] obtain out where
      "drop_blocks off bs (cost - block_len b) = (out, cost - block_len b - (off - block_end b))"
      "blocks_ok off out" "packed out" "stored_bytes out = drop (off - block_end b) (stored_bytes bs)"
      using Cons.prems(4) b(2) by auto
    with True b(2) show ?thesis by auto
  next
    case False
    let ?b = "cut_front (off - off0) b"
    have skip: "b_skip b + (off - off0) < length (b_data b)"
      using False b(2,4) Cons.prems(3) by (simp add: block_len_def)
    have same_end: "block_end ?b = block_end b"
      using False b(2) by (intro block_end_cut_front) simp
    have "packed (?b # bs)" using Cons.prems(2) by (cases bs) (auto simp: packed_simps)
    moreover have "cut_front 0 b = b" by (simp add: cut_front_def)
    ultimately show ?thesis
      using False b Cons.prems(2,3) skip same_end by (auto simp: Let_def block_len_def)
  qed
qed (simp add: packed_simps)

lemma drop_resizes_rep:
  "resizes p \<le> n \<Longrightarrow> n \<le> resizes p + length (event_sizes es) \<Longrightarrow>
    drop_resizes n (resizes_from p es) sz cost =
      (drop (n - resizes p) (resizes_from p es), last (sz # take (n - resizes p) (event_sizes es)),
       cost - RECORD_COST * (n - resizes p))"
proof (induction p es arbitrary: sz cost rule: resizes_from.induct)
  case (3 p s es)
  show ?case
  proof (cases "n = resizes p")
    case False
    with "3.prems" obtain k where k: "n = resizes p + Suc k"
      by (metis le_neq_implies_less less_iff_Suc_add add_Suc_right)
    then show ?thesis
      using "3.IH" [of s "cost - RECORD_COST"] "3.prems" by (simp add: algebra_simps)
  qed simp
qed (simp_all split: list.split)

lemma resizes_from_drop:
  "resizes_from (pos_after p (take i es)) (drop i es)
    = drop (length (event_sizes (take i es))) (resizes_from p es)"
proof -
  have "resizes_from p es
      = resizes_from p (take i es) @ resizes_from (pos_after p (take i es)) (drop i es)"
    by (metis append_take_drop_id resizes_from_append)
  then show ?thesis by simp
qed

lemma accept_snapshot_ok:
  assumes rep: "tail_rep es j" and i: "i \<le> length es" and p: "pos_after (j_start j) (take i es) = p"
    and len: "length blob \<le> MAX_SNAPSHOT" and snap: "j_snapshot j \<le> p"
  shows "\<exists>j'. accept_snapshot p blob j = Inr j' \<and> advanced i es j j'
    \<and> j_snapshot j' = p \<and> j_blob j' = Some blob \<and> \<not> j_trimmed j'"
proof -
  note R = tail_repD [OF rep]
  let ?pre = "take i es" and ?post = "drop i es"
  have split: "event_bytes es = event_bytes ?pre @ event_bytes ?post"
    "event_sizes es = event_sizes ?pre @ event_sizes ?post"
    by (metis append_take_drop_id event_bytes_append, metis append_take_drop_id event_sizes_append)
  have off: "offset p = offset (j_start j) + length (event_bytes ?pre)"
    "resizes p = resizes (j_start j) + length (event_sizes ?pre)"
    using p by (auto simp: pos_after_def)
  have ok: "offset (j_start j) \<le> offset p" "offset p \<le> j_end j" using off R(8) split by auto
  have cons: "consistent j p" using consistent_iff [OF rep ok] i p by blast
  obtain out where out: "drop_blocks (offset p) (j_output j) (j_cost j)
      = (out, j_cost j - length (event_bytes ?pre))" "blocks_ok (offset p) out" "packed out"
    "stored_bytes out = event_bytes ?post"
    using drop_blocks_rep [OF R(1,2) ok(1), of "j_cost j"] off(1) R(3) split(1) by auto
  have rs: "drop_resizes (resizes p) (j_resizes j) (j_start_size j) (j_cost j - length (event_bytes ?pre))
      = (resizes_from p ?post, size_after (j_start_size j) ?pre,
         j_cost j - length (event_bytes ?pre) - RECORD_COST * length (event_sizes ?pre))"
    unfolding R(4) using drop_resizes_rep [of "j_start j" "resizes p" es] off(2) split(2)
      resizes_from_drop [of "j_start j" i es] p by (simp add: size_after_def)
  have cost: "j_cost j - length (event_bytes ?pre) - RECORD_COST * length (event_sizes ?pre)
      = events_cost ?post"
    using R(6) split by (simp add: events_cost_def algebra_simps)
  let ?j = "j\<lparr>j_output := out, j_resizes := resizes_from p ?post,
      j_start_size := size_after (j_start_size j) ?pre, j_cost := events_cost ?post,
      j_snapshot := p, j_blob := Some blob, j_start := p, j_trimmed := False\<rparr>"
  have "accept_snapshot p blob j = Inr ?j"
    using len snap ok cons out(1) rs cost
    by (simp add: accept_snapshot_def less_eq_position_def)
  moreover have "current j = pos_after p ?post"
    using R(5) pos_after_split [of "j_start j" es i] p by simp
  moreover have "j_size j = size_after (size_after (j_start_size j) ?pre) ?post"
    using R(7) size_after_split [of "j_start_size j" es i] by simp
  ultimately show ?thesis
    using out p by (intro exI [of _ ?j])
      (simp add: advanced_def tail_rep_def same_ends_def current_def)
qed

end
