(* ===== verification/Journal_Spec.thy ===== *)
theory Journal_Spec
  imports Journal_Ops
begin

text \<open>
  The specification of the journal: the whole history of one terminal as a list of events,
  with the index of the first retained event and of the snapshot. \<open>history_rep h j\<close> relates
  it to the journal the code keeps; each operation of the code is shown to carry the relation
  from the history before it to the specified history after it.
\<close>

record history =
  h_cap :: nat
  h_size0 :: term_size
  h_events :: "event list"
  h_kept :: nat
  h_snap :: nat
  h_blob :: "byte list option"
  h_exit :: "(nat \<times> child_exit) option"

definition h_pos :: "history \<Rightarrow> nat \<Rightarrow> position" where
  "h_pos h i = pos_after pos_zero (take i (h_events h))"

definition h_end :: "history \<Rightarrow> position" where
  "h_end h = pos_after pos_zero (h_events h)"

definition h_retained :: "history \<Rightarrow> event list" where
  "h_retained h = drop (h_kept h) (h_events h)"

definition h_start_size :: "history \<Rightarrow> term_size" where
  "h_start_size h = size_after (h_size0 h) (take (h_kept h) (h_events h))"

definition h_new :: "term_size \<Rightarrow> nat \<Rightarrow> byte list option \<Rightarrow> history" where
  "h_new s cap initial = \<lparr>h_cap = cap, h_size0 = s, h_events = [], h_kept = 0, h_snap = 0,
     h_blob = initial, h_exit = None\<rparr>"

definition h_append :: "event list \<Rightarrow> history \<Rightarrow> history" where
  "h_append news h = h\<lparr>h_events := h_events h @ news,
     h_kept := h_kept h + trim_count (h_cap h) (h_retained h @ news)\<rparr>"

definition h_exited :: "child_exit \<Rightarrow> history \<Rightarrow> history" where
  "h_exited e h = (if h_exit h = None then h\<lparr>h_exit := Some (length (h_events h), e)\<rparr> else h)"

text \<open>
  A snapshot is accepted exactly at the boundary of a retained event, not before the current
  snapshot; what it covers is no longer retained.
\<close>

definition h_boundary :: "history \<Rightarrow> position \<Rightarrow> nat \<Rightarrow> bool" where
  "h_boundary h p i \<longleftrightarrow> h_kept h \<le> i \<and> i \<le> length (h_events h) \<and> h_pos h i = p"

definition h_snapshot :: "nat \<Rightarrow> byte list \<Rightarrow> history \<Rightarrow> history" where
  "h_snapshot i blob h = h\<lparr>h_kept := i, h_snap := i, h_blob := Some blob\<rparr>"

definition h_ok :: "history \<Rightarrow> bool" where
  "h_ok h \<longleftrightarrow> h_snap h \<le> h_kept h \<and> h_kept h \<le> length (h_events h) \<and> u64_ok (offset (h_end h))
     \<and> events_cost (h_retained h) \<le> h_cap h
     \<and> (\<forall>n e. h_exit h = Some (n, e) \<longrightarrow> n \<le> length (h_events h))
     \<and> (h_blob h = None \<longrightarrow> h_snap h = 0)"

definition history_rep :: "history \<Rightarrow> journal \<Rightarrow> bool" where
  "history_rep h j \<longleftrightarrow> h_ok h \<and> tail_rep (h_retained h) j \<and> j_cap j = h_cap h
     \<and> j_start j = h_pos h (h_kept h) \<and> j_start_size j = h_start_size h
     \<and> j_snapshot j = h_pos h (h_snap h) \<and> j_blob j = h_blob h
     \<and> j_trimmed j = (h_snap h < h_kept h) \<and> j_initial_size j = h_size0 h
     \<and> j_exit j = map_option (\<lambda>(n, e). (h_pos h n, e)) (h_exit h)"

lemma h_pos_le: "m \<le> n \<Longrightarrow> h_pos h m \<le> h_pos h n"
  by (simp add: h_pos_def pos_after_mono)

lemma h_pos_append [simp]: "i \<le> length (h_events h) \<Longrightarrow> h_pos (h_append news h) i = h_pos h i"
  by (simp add: h_pos_def h_append_def)

lemma h_append_sel [simp]:
  "h_cap (h_append news h) = h_cap h" "h_size0 (h_append news h) = h_size0 h"
  "h_events (h_append news h) = h_events h @ news" "h_snap (h_append news h) = h_snap h"
  "h_blob (h_append news h) = h_blob h" "h_exit (h_append news h) = h_exit h"
  by (simp_all add: h_append_def)

lemma h_pos_inject:
  "m \<le> length (h_events h) \<Longrightarrow> n \<le> length (h_events h) \<Longrightarrow> h_pos h m = h_pos h n \<Longrightarrow> m = n"
  unfolding h_pos_def by (rule pos_after_take_inject)

lemma h_pos_length [simp]: "h_pos h (length (h_events h)) = h_end h"
  by (simp add: h_pos_def h_end_def)

lemma h_pos_from_kept:
  "pos_after (h_pos h (h_kept h)) (take i (h_retained h)) = h_pos h (h_kept h + i)"
  by (simp add: h_pos_def h_retained_def take_add flip: pos_after_append)

lemma h_end_from_kept: "pos_after (h_pos h (h_kept h)) (h_retained h) = h_end h"
  by (metis h_pos_def h_end_def h_retained_def append_take_drop_id pos_after_append)

lemma h_boundary_iff:
  "h_ok h \<Longrightarrow> (\<exists>i\<le>length (h_retained h). pos_after (h_pos h (h_kept h)) (take i (h_retained h)) = p)
    \<longleftrightarrow> (\<exists>i. h_boundary h p i)"
proof
  assume ok: "h_ok h"
    and "\<exists>i\<le>length (h_retained h). pos_after (h_pos h (h_kept h)) (take i (h_retained h)) = p"
  then obtain i where "i \<le> length (h_retained h)" "h_pos h (h_kept h + i) = p"
    by (auto simp: h_pos_from_kept)
  with ok have "h_boundary h p (h_kept h + i)"
    by (auto simp: h_boundary_def h_retained_def h_ok_def)
  then show "\<exists>i. h_boundary h p i" by blast
next
  assume "\<exists>i. h_boundary h p i"
  then obtain i where "h_kept h \<le> i" "i \<le> length (h_events h)" "h_pos h i = p"
    by (auto simp: h_boundary_def)
  then show "\<exists>i\<le>length (h_retained h). pos_after (h_pos h (h_kept h)) (take i (h_retained h)) = p"
    by (intro exI [of _ "i - h_kept h"]) (simp add: h_pos_from_kept, simp add: h_retained_def)
qed

lemma history_repD:
  assumes "history_rep h j"
  shows "h_ok h" "tail_rep (h_retained h) j" "j_cap j = h_cap h" "j_start j = h_pos h (h_kept h)"
    "j_start_size j = h_start_size h" "j_snapshot j = h_pos h (h_snap h)" "j_blob j = h_blob h"
    "j_trimmed j = (h_snap h < h_kept h)" "j_initial_size j = h_size0 h"
    "j_exit j = map_option (\<lambda>(n, e). (h_pos h n, e)) (h_exit h)"
  using assms by (simp_all add: history_rep_def)

lemma history_rep_end: "history_rep h j \<Longrightarrow> current j = h_end h"
  by (metis history_repD(2,4) tail_repD(5) h_end_from_kept)

lemma history_rep_ends:
  assumes "history_rep h j"
  shows "j_end j = offset (h_end h)" "j_resize_count j = resizes (h_end h)"
  using arg_cong [OF history_rep_end [OF assms], of offset]
    arg_cong [OF history_rep_end [OF assms], of resizes] by (simp_all add: current_def)

lemma h_new_rep: "history_rep (h_new s cap initial) (journal_new s cap initial)"
  by (simp add: history_rep_def h_new_def journal_new_def h_ok_def tail_rep_def packed_simps
      h_retained_def h_pos_def h_start_size_def h_end_def current_def u64_ok_def pos_zero_def)

text \<open>The one proof of both appends: append the events, then trim.\<close>

lemma append_trim_rep:
  assumes rep: "history_rep h j" and app: "appended (h_retained h) news j j1"
    and u64: "u64_ok (offset (h_end (h_append news h)))"
  shows "history_rep (h_append news h) (trim j1)"
proof -
  note H = history_repD [OF rep]
  let ?es = "h_retained h @ news" and ?h = "h_append news h"
  let ?n = "trim_count (h_cap h) ?es"
  from app have rep1: "tail_rep ?es j1" and front: "same_front j j1"
    by (simp_all add: appended_def)
  have cap: "j_cap j1 = h_cap h" using front H(3) by (simp add: same_front_def)
  have kept: "h_kept h \<le> length (h_events h)" using H(1) by (simp add: h_ok_def)
  have n: "?n \<le> length ?es" by (rule trim_count_le)
  have ret: "h_retained ?h = drop ?n ?es"
    using kept by (simp add: h_retained_def h_append_def add.commute)
  have took: "take (h_kept ?h) (h_events ?h) = take (h_kept h) (h_events h) @ take ?n ?es"
    using kept by (simp add: h_append_def h_retained_def take_add add.commute)
  have ends: "current j1 = h_end ?h"
    using tail_repD(5) [OF rep1] front H(4) h_end_from_kept [of h]
    by (simp add: same_front_def h_end_def h_append_def)
  have u64': "u64_ok (j_end j1)"
    using u64 arg_cong [OF ends, of offset] by (simp add: current_def)
  note T = trim_advanced [OF rep1 u64', unfolded cap]
  have exit: "n \<le> length (h_events h)" if "h_exit h = Some (n, e)" for n e
    using that H(1) by (simp add: h_ok_def)
  have "h_ok ?h"
    unfolding h_ok_def ret
    using H(1) n kept trim_count_fits [of "h_cap h" ?es] u64
    by (auto simp: h_ok_def h_append_def h_retained_def)
  moreover have "h_start_size ?h = size_after (h_start_size h) (take ?n ?es)"
    unfolding h_start_size_def took by (simp add: h_append_def)
  moreover have "h_pos ?h (h_kept ?h) = pos_after (h_pos h (h_kept h)) (take ?n ?es)"
    unfolding h_pos_def took by simp
  moreover have "map_option (\<lambda>(n, e). (h_pos ?h n, e)) (h_exit ?h)
      = map_option (\<lambda>(n, e). (h_pos h n, e)) (h_exit h)"
    using exit by (cases "h_exit h") auto
  moreover have "h_pos ?h (h_snap ?h) = h_pos h (h_snap h)"
    using H(1) by (simp add: h_ok_def h_append_def h_pos_def)
  moreover have "(h_snap ?h < h_kept ?h) = (h_snap h < h_kept h \<or> 0 < ?n)"
    using H(1) by (auto simp: h_ok_def h_append_def)
  ultimately show ?thesis
    using T front H(3-) ret
    by (simp add: history_rep_def advanced_def same_ends_def same_front_def)
qed

theorem push_output_rep:
  assumes "history_rep h j" "u64_ok (offset (h_end h) + length data)"
  shows "history_rep (h_append (map Byte data) h) (push_output data j)"
  unfolding push_output_def
  by (rule append_trim_rep [OF assms(1) push_loop_appended [OF history_repD(2) [OF assms(1)]]])
    (use assms(2) in \<open>simp add: h_end_def h_append_def pos_after_sel\<close>)

theorem push_resize_rep:
  assumes "history_rep h j"
  shows "history_rep (h_append [Resz s] h) (push_resize s j)"
  unfolding push_resize_def
  by (rule append_trim_rep [OF assms add_resize_appended [OF history_repD(2) [OF assms]]])
    (use history_repD(1) [OF assms] in \<open>simp add: h_end_def h_append_def h_ok_def pos_after_sel\<close>)

theorem push_exit_rep:
  assumes "history_rep h j"
  shows "history_rep (h_exited e h) (push_exit e j)"
proof (cases "h_exit h")
  case None
  have "j_exit j = None" using history_repD(10) [OF assms] None by simp
  then have push: "push_exit e j = j\<lparr>j_exit := Some (h_end h, e)\<rparr>"
    using history_rep_end [OF assms] by (simp add: push_exit_def)
  have "tail_rep (h_retained h) (j\<lparr>j_exit := Some (h_end h, e)\<rparr>)"
    using tail_repD [OF history_repD(2) [OF assms]]
    unfolding tail_rep_def current_def journal.simps by simp
  then show ?thesis
    using None history_repD [OF assms] unfolding push
    by (simp add: history_rep_def h_exited_def h_ok_def h_retained_def h_pos_def h_end_def
        h_start_size_def)
next
  case (Some ne)
  with history_repD(10) [OF assms] show ?thesis
    using assms by (auto simp: push_exit_def h_exited_def)
qed

text \<open>The reasons a snapshot is refused for, in the order the code tries them.\<close>

definition h_refusal :: "position \<Rightarrow> byte list \<Rightarrow> history \<Rightarrow> snapshot_rejection option" where
  "h_refusal p blob h =
     (if MAX_SNAPSHOT < length blob then Some TooLarge
      else if \<not> h_pos h (h_snap h) \<le> p then Some BeforeCurrent
      else if offset p < offset (h_pos h (h_kept h)) \<or> offset (h_end h) < offset p
        then Some OutsideRetained
      else if \<nexists>i. h_boundary h p i then Some InconsistentResizes
      else None)"

lemma accept_snapshot_refused:
  assumes rep: "history_rep h j" and ref: "h_refusal p blob h = Some r"
  shows "accept_snapshot p blob j = Inl r"
proof -
  note H = history_repD [OF rep]
  have cons: "consistent j p \<longleftrightarrow> (\<exists>i. h_boundary h p i)"
    if "offset (j_start j) \<le> offset p" "offset p \<le> j_end j"
    using consistent_iff [OF H(2) that] h_boundary_iff [OF H(1)] H(4) by simp
  from ref show ?thesis
    unfolding h_refusal_def accept_snapshot_def H(4,6) history_rep_ends [OF rep]
    using cons [unfolded H(4) history_rep_ends [OF rep]]
    by (auto simp: less_eq_position_def split: if_splits)
qed

lemma accept_snapshot_rep:
  assumes rep: "history_rep h j" and ref: "h_refusal p blob h = None"
  shows "\<exists>i j'. h_boundary h p i \<and> accept_snapshot p blob j = Inr j'
    \<and> history_rep (h_snapshot i blob h) j'"
proof -
  note H = history_repD [OF rep]
  from ref obtain i where i: "h_boundary h p i"
    and len: "length blob \<le> MAX_SNAPSHOT" and snap: "j_snapshot j \<le> p"
    by (auto simp: h_refusal_def H(6) split: if_splits)
  let ?h = "h_snapshot i blob h" and ?n = "i - h_kept h"
  have le: "h_kept h \<le> i" "i \<le> length (h_events h)" "h_pos h i = p"
    using i by (auto simp: h_boundary_def)
  have n: "?n \<le> length (h_retained h)" using le by (simp add: h_retained_def)
  have p: "pos_after (j_start j) (take ?n (h_retained h)) = p"
    using le H(4) by (simp add: h_pos_from_kept)
  from accept_snapshot_ok [OF H(2) n p len snap] obtain j' where
    j': "accept_snapshot p blob j = Inr j'" "advanced ?n (h_retained h) j j'" "j_snapshot j' = p"
    "j_blob j' = Some blob" "\<not> j_trimmed j'" by blast
  have ret: "h_retained ?h = drop ?n (h_retained h)"
    using le by (simp add: h_retained_def h_snapshot_def)
  have took: "take i (h_events h) = take (h_kept h) (h_events h) @ take ?n (h_retained h)"
    using le by (metis h_retained_def le_add_diff_inverse take_add)
  have "events_cost (h_retained ?h) \<le> h_cap h"
  proof -
    have "events_cost (h_retained h) = events_cost (take ?n (h_retained h)) + events_cost (h_retained ?h)"
      unfolding ret by (metis append_take_drop_id events_cost_simps(4))
    then show ?thesis using H(1) by (simp add: h_ok_def)
  qed
  then have "h_ok ?h" using H(1) le by (simp add: h_ok_def h_snapshot_def h_end_def)
  moreover have "h_start_size ?h = size_after (h_start_size h) (take ?n (h_retained h))"
    using took by (simp add: h_start_size_def h_snapshot_def)
  ultimately have "history_rep ?h j'"
    using j' H(3-) p le ret unfolding history_rep_def advanced_def same_ends_def
    by (simp add: h_snapshot_def h_pos_def)
  with i j'(1) show ?thesis by blast
qed

end
