(* ===== verification/Journal_Read.thy ===== *)
theory Journal_Read
  imports Journal_Spec
begin

text \<open>
  Reading a journal through a cursor. A cursor of the code stands at a boundary \<open>i\<close> of the
  history; \<open>journal_next\<close> is shown to send what the history holds there, and nothing else.
\<close>

subsection \<open>The journal at a boundary of its history\<close>

definition h_rest :: "history \<Rightarrow> nat \<Rightarrow> event list" where
  "h_rest h i = drop i (h_events h)"

lemma h_rest_kept: "h_kept h \<le> i \<Longrightarrow> h_rest h i = drop (i - h_kept h) (h_retained h)"
  by (simp add: h_rest_def h_retained_def)

lemma h_pos_kept:
  "h_kept h \<le> i \<Longrightarrow> h_pos h i = pos_after (h_pos h (h_kept h)) (take (i - h_kept h) (h_retained h))"
  by (simp add: h_pos_from_kept)

lemma next_resize_at:
  assumes rep: "history_rep h j" and i: "h_kept h \<le> i" "c_position c = h_pos h i"
  shows "next_resize j c = (case resizes_from (h_pos h i) (h_rest h i) of [] \<Rightarrow> None | r # _ \<Rightarrow> Some r)"
proof -
  note H = history_repD [OF rep]
  let ?p = "h_pos h (h_kept h)" and ?pre = "take (i - h_kept h) (h_retained h)"
  have "j_resizes j = resizes_from ?p (h_retained h)"
    using tail_repD(4) [OF H(2)] H(4) by simp
  moreover have "resizes (h_pos h i) - resizes ?p = length (event_sizes ?pre)"
    by (simp add: h_pos_kept [OF i(1)] pos_after_sel)
  moreover have "resizes_from (h_pos h i) (h_rest h i) = drop (length (event_sizes ?pre)) (resizes_from ?p (h_retained h))"
    by (simp add: h_pos_kept [OF i(1)] h_rest_kept [OF i(1)] resizes_from_drop)
  ultimately show ?thesis
    using i(2) H(4) by (auto simp: next_resize_def Let_def hd_drop_conv_nth simp del: resizes_from_eq_Nil length_resizes_from
        split: list.split dest: arg_cong [of _ _ hd])
qed

lemma next_resize_due:
  assumes "history_rep h j" "h_kept h \<le> i" "c_position c = h_pos h i"
  shows "h_rest h i = Resz s # es \<Longrightarrow>
      next_resize j c = Some \<lparr>rz_offset = offset (h_pos h i), rz_index = resizes (h_pos h i), rz_size = s\<rparr>"
    and "h_rest h i = Byte b # es \<Longrightarrow> next_resize j c = Some r \<Longrightarrow> offset (h_pos h i) < rz_offset r"
proof -
  show "next_resize j c = Some \<lparr>rz_offset = offset (h_pos h i), rz_index = resizes (h_pos h i), rz_size = s\<rparr>"
    if "h_rest h i = Resz s # es"
    using that next_resize_at [OF assms] by simp
  show "offset (h_pos h i) < rz_offset r" if "h_rest h i = Byte b # es" "next_resize j c = Some r"
  proof -
    have "r \<in> set (resizes_from (Position (offset (h_pos h i) + 1) (resizes (h_pos h i))) es)"
      using that next_resize_at [OF assms] by (auto split: list.splits)
    from resizes_from_offsets [OF this] show ?thesis by simp
  qed
qed

lemma at_end_iff:
  assumes "history_rep h j" "i \<le> length (h_events h)"
  shows "event_bytes (h_rest h i) = [] \<longleftrightarrow> j_end j \<le> offset (h_pos h i)"
proof -
  have "h_end h = pos_after (h_pos h i) (h_rest h i)"
    by (metis h_end_def h_pos_def h_rest_def append_take_drop_id pos_after_append)
  then show ?thesis using history_rep_ends [OF assms(1)] by (simp add: pos_after_sel)
qed

subsection \<open>Blocks\<close>

text \<open>The block a cursor reads from, and what is read there.\<close>

lemma block_at:
  assumes "blocks_ok off0 bs" "off0 \<le> off" "off < off0 + length (stored_bytes bs)"
    and k: "k = length (takeWhile (\<lambda>b. block_end b \<le> off) bs)"
  shows "k < length bs" "b_offset (bs ! k) \<le> off" "off < block_end (bs ! k)"
    "length (b_data (bs ! k)) \<le> MAX_OUTPUT_CHUNK"
    "take (block_len (bs ! k) - (off - b_offset (bs ! k))) (drop (off - off0) (stored_bytes bs))
      = drop (off - b_offset (bs ! k)) (block_bytes (bs ! k))"
  using assms
proof (induction bs arbitrary: off0 k)
  case (Cons b bs)
  {
    case 1 then show ?case
      using Cons.IH(1) [of "block_end b"] by (auto simp: block_end_def)
  next
    case 2 then show ?case
      using Cons.IH(2) [of "block_end b"] by (auto simp: block_end_def)
  next
    case 3 then show ?case
      using Cons.IH(3) [of "block_end b"] by (auto simp: block_end_def)
  next
    case 4 then show ?case
      using Cons.IH(4) [of "block_end b"] by (auto simp: block_end_def)
  next
    case 5 then show ?case
      using Cons.IH(5) [of "block_end b"] by (auto simp: block_end_def)
  }
qed simp_all

lemma cursor_eta: "c\<lparr>c_position := c_position c\<rparr> = c"
  by simp

text \<open>
  A record sent at boundary \<open>i\<close> that takes the receiver to boundary \<open>i'\<close> says what the
  history holds between the two.
\<close>

fun sent_ok :: "history \<Rightarrow> nat \<Rightarrow> host_message \<Rightarrow> nat \<Rightarrow> bool" where
  "sent_ok h i (Output off data) i' \<longleftrightarrow> off = offset (h_pos h i) \<and> data \<noteq> []
     \<and> length data \<le> MAX_OUTPUT_CHUNK \<and> i' = i + length data
     \<and> take (length data) (h_rest h i) = map Byte data"
| "sent_ok h i (Resized off count s) i' \<longleftrightarrow> Position off count = h_pos h i \<and> i' = Suc i
     \<and> take 1 (h_rest h i) = [Resz s]"
| "sent_ok h i (Exited off e) i' \<longleftrightarrow> i' = i
     \<and> (\<exists>n\<le>i. h_exit h = Some (n, e) \<and> off = offset (h_pos h n))"
| "sent_ok h i (Gap frm to count s) i' \<longleftrightarrow> frm = offset (h_pos h i) \<and> i < i' \<and> i' = h_kept h
     \<and> Position to count = h_pos h i' \<and> s = h_start_size h"
| "sent_ok h i (SnapshotRecord p blob) i' \<longleftrightarrow> i' = h_snap h \<and> p = h_pos h i' \<and> h_blob h = Some blob"
| "sent_ok h i m i' \<longleftrightarrow> False"

lemma output_limit_gt:
  assumes rep: "history_rep h j" and i: "h_kept h \<le> i" "c_position c = h_pos h i"
    and rest: "h_rest h i = Byte b # es"
  shows "offset (h_pos h i) < output_limit j c"
    and "\<And>r. next_resize j c = Some r \<Longrightarrow> output_limit j c \<le> rz_offset r"
    and "\<And>n e. h_exit h = Some (n, e) \<Longrightarrow> \<not> c_exit_sent c \<Longrightarrow> offset (h_pos h i) < offset (h_pos h n)
      \<Longrightarrow> output_limit j c \<le> offset (h_pos h n)"
proof -
  have "i \<le> length (h_events h)" using rest by (cases "i \<le> length (h_events h)") (auto simp: h_rest_def)
  then have "offset (h_pos h i) < j_end j" using at_end_iff [OF rep] rest by fastforce
  then show "offset (h_pos h i) < output_limit j c"
    using next_resize_due(2) [OF rep i rest] i(2) history_repD(10) [OF rep]
    by (auto simp: output_limit_def Let_def split: option.split)
  show "output_limit j c \<le> rz_offset r" if "next_resize j c = Some r" for r
    using that by (auto simp: output_limit_def Let_def split: option.split)
  show "output_limit j c \<le> offset (h_pos h n)"
    if "h_exit h = Some (n, e)" "\<not> c_exit_sent c" "offset (h_pos h i) < offset (h_pos h n)" for n e
    using that i(2) history_repD(10) [OF rep] by (simp add: output_limit_def Let_def)
qed

lemma next_output_ok:
  assumes rep: "history_rep h j" and i: "h_kept h \<le> i" "c_position c = h_pos h i"
    and rest: "h_rest h i = Byte b # es"
  shows "\<exists>data. next_output j c = (c\<lparr>c_position := h_pos h (i + length data)\<rparr>,
      Some (Output (offset (h_pos h i)) data))
    \<and> sent_ok h i (Output (offset (h_pos h i)) data) (i + length data)
    \<and> offset (h_pos h (i + length data)) \<le> output_limit j c"
proof -
  note H = history_repD [OF rep] note R = tail_repD [OF H(2)] note L = output_limit_gt [OF rep i rest]
  define off where "off = offset (h_pos h i)"
  define k where "k = block_index j off"
  define blk where "blk = j_output j ! k"
  define frm where "frm = off - b_offset blk"
  define data where "data = take (min (output_limit j c - b_offset blk) (block_len blk) - frm)
    (drop frm (block_bytes blk))"
  have le: "i \<le> length (h_events h)" using rest by (cases "i \<le> length (h_events h)") (auto simp: h_rest_def)
  then have lt: "off < j_end j" using at_end_iff [OF rep] rest unfolding off_def by fastforce
  have bytes: "event_bytes (h_rest h i) = drop (off - offset (j_start j)) (stored_bytes (j_output j))"
    and start: "offset (j_start j) \<le> off"
  proof -
    have "h_retained h = take (i - h_kept h) (h_retained h) @ h_rest h i"
      by (simp add: h_rest_kept [OF i(1)])
    then have "event_bytes (h_retained h) = event_bytes (take (i - h_kept h) (h_retained h)) @ event_bytes (h_rest h i)"
      by (metis event_bytes_append)
    moreover have "off = offset (j_start j) + length (event_bytes (take (i - h_kept h) (h_retained h)))"
      unfolding off_def h_pos_kept [OF i(1)] H(4) by (simp add: pos_after_sel)
    ultimately show "event_bytes (h_rest h i) = drop (off - offset (j_start j)) (stored_bytes (j_output j))"
      "offset (j_start j) \<le> off" using R(3) by simp_all
  qed
  have "off < offset (j_start j) + length (stored_bytes (j_output j))" using lt R(3,8) by simp
  note B = block_at [OF R(1) start this, of k, folded blk_def]
  have B': "k < length (j_output j)" "b_offset blk \<le> off" "off < block_end blk"
    "length (b_data blk) \<le> MAX_OUTPUT_CHUNK"
    "take (block_len blk - frm) (event_bytes (h_rest h i)) = drop frm (block_bytes blk)"
    using B bytes by (simp_all add: k_def block_index_def frm_def)
  let ?m = "min (output_limit j c - off) (block_len blk - frm)"
  have m: "?m = min (output_limit j c - b_offset blk) (block_len blk) - frm"
    using B'(2) by (simp add: frm_def)
  have pos: "0 < ?m" using L(1) B'(2,3) by (simp add: frm_def off_def block_end_def)
  have len: "length data = ?m" unfolding m data_def by simp
  have data: "data = take ?m (event_bytes (h_rest h i))"
  proof -
    have "data = take ?m (drop frm (block_bytes blk))" unfolding m data_def ..
    also have "\<dots> = take ?m (event_bytes (h_rest h i))" by (simp flip: B'(5))
    finally show ?thesis .
  qed
  then have mle: "?m \<le> length (event_bytes (h_rest h i))" using len by (metis length_take min.cobounded1)
  have lead: "take ?m (h_rest h i) = map Byte data"
    unfolding data
  proof (rule leading_bytes [OF mle, of "h_pos h i"])
    fix r rs assume "resizes_from (h_pos h i) (h_rest h i) = r # rs"
    then have "next_resize j c = Some r" using next_resize_at [OF rep i] by simp
    from L(2) [OF this] show "?m \<le> rz_offset r - offset (h_pos h i)" by (simp add: off_def)
  qed
  have "h_pos h (i + ?m) = pos_after (h_pos h i) (take ?m (h_rest h i))"
    by (simp add: h_pos_def h_rest_def take_add)
  also have "\<dots> = Position (off + length data) (resizes (h_pos h i))"
    unfolding lead by (simp add: pos_after_def off_def)
  finally have p: "h_pos h (i + ?m) = Position (off + length data) (resizes (h_pos h i))" .
  have "next_output j c = (c\<lparr>c_position := Position (off + length data) (resizes (h_pos h i))\<rparr>, Some (Output off data))"
    using B'(1) i(2) unfolding next_output_def Let_def data_def frm_def blk_def k_def off_def by simp
  moreover have "length data \<le> MAX_OUTPUT_CHUNK"
    using len B'(4) by (simp add: block_len_def)
  moreover have "off + length data \<le> output_limit j c" using len L(1) by (simp add: off_def)
  moreover have "data \<noteq> []" using pos len by (metis length_0_conv less_numeral_extra(3))
  ultimately show ?thesis using p lead len
    by (intro exI [of _ data]) (simp add: off_def)
qed

subsection \<open>One step of a cursor\<close>

definition cursor_rep :: "history \<Rightarrow> cursor \<Rightarrow> nat \<Rightarrow> bool" where
  "cursor_rep h c i \<longleftrightarrow> i \<le> length (h_events h) \<and> c_position c = h_pos h i
     \<and> (c_state c \<noteq> Tail \<longrightarrow> i \<le> h_snap h \<and> \<not> c_exit_sent c)"

definition is_exited :: "host_message \<Rightarrow> bool" where
  "is_exited m = (case m of Exited off e \<Rightarrow> True | _ \<Rightarrow> False)"

text \<open>Records that carry events, as opposed to those that jump over some.\<close>

definition carries :: "host_message \<Rightarrow> bool" where
  "carries m = (case m of Output off data \<Rightarrow> True | Resized off n s \<Rightarrow> True | _ \<Rightarrow> False)"

text \<open>
  What one call may do: send a record that is true and move past it, the exit once and never
  before what preceded it; or send nothing, which happens only when everything has been sent.
\<close>

definition next_ok :: "history \<Rightarrow> cursor \<Rightarrow> nat \<Rightarrow> cursor \<times> host_message option \<Rightarrow> bool" where
  "next_ok h c i r \<longleftrightarrow> (case r of
     (c', None) \<Rightarrow> i = length (h_events h) \<and> cursor_rep h c' i \<and> c_state c' = Tail
       \<and> c_exit_sent c' = c_exit_sent c \<and> (h_exit h \<noteq> None \<longrightarrow> c_exit_sent c')
       \<and> (c_state c = Tail \<longrightarrow> c' = c)
   | (c', Some m) \<Rightarrow> (\<exists>i'. sent_ok h i m i' \<and> cursor_rep h c' i'
       \<and> (is_exited m \<longrightarrow> \<not> c_exit_sent c) \<and> c_exit_sent c' = (c_exit_sent c \<or> is_exited m)
       \<and> (carries m \<longrightarrow> h_kept h \<le> i)
       \<and> (c_state c = Tail \<longrightarrow> c_state c' = Tail \<and> (\<forall>p blob. m \<noteq> SnapshotRecord p blob))
       \<and> (\<forall>n e. carries m \<and> h_exit h = Some (n, e) \<and> \<not> c_exit_sent c \<longrightarrow> i' \<le> n)))"

lemma h_pos_le_iff:
  assumes "m \<le> length (h_events h)" "n \<le> length (h_events h)"
  shows "h_pos h m \<le> h_pos h n \<longleftrightarrow> m \<le> n"
  using h_pos_le [of m n h] h_pos_le [of n m h] h_pos_inject [OF assms]
  by (metis nle_le order_antisym)

lemma behind_iff:
  assumes rep: "history_rep h j" and i: "i \<le> length (h_events h)"
  shows "offset (h_pos h i) < offset (j_start j) \<or> resizes (h_pos h i) < resizes (j_start j)
    \<longleftrightarrow> i < h_kept h"
proof -
  have "h_kept h \<le> length (h_events h)" using history_repD(1) [OF rep] by (simp add: h_ok_def)
  from h_pos_le_iff [OF this i] history_repD(4) [OF rep] show ?thesis
    by (auto simp: less_eq_position_def)
qed

lemma exit_due_iff:
  assumes rep: "history_rep h j" and i: "i \<le> length (h_events h)" "c_position c = h_pos h i"
  shows "exit_due j c = (case h_exit h of Some (n, e) \<Rightarrow> if \<not> c_exit_sent c \<and> n \<le> i then Some e else None
    | None \<Rightarrow> None)"
proof (cases "h_exit h")
  case (Some ne)
  obtain n e where ne: "ne = (n, e)" by (cases ne)
  have "n \<le> length (h_events h)" using history_repD(1) [OF rep] Some ne by (simp add: h_ok_def)
  from h_pos_le_iff [OF this i(1)] show ?thesis
    using Some ne i(2) history_repD(10) [OF rep] by (simp add: exit_due_def less_eq_position_def)
qed (use history_repD(10) [OF rep] in \<open>simp add: exit_due_def\<close>)

lemma gap_sent:
  assumes rep: "history_rep h j" and i: "i < h_kept h"
  shows "sent_ok h i (gap_message (offset (h_pos h i)) j) (h_kept h)"
  using history_repD(4,5) [OF rep] i by (simp add: gap_message_def)

lemma cursor_rep_kept:
  "history_rep h j \<Longrightarrow> c_state c = Tail \<Longrightarrow> c_position c = j_start j \<Longrightarrow> cursor_rep h c (h_kept h)"
  using history_repD(1,4) [of h j] by (simp add: cursor_rep_def h_ok_def)

lemma h_rest_Cons:
  assumes "h_rest h i = ev # es"
  shows "Suc i \<le> length (h_events h)" "h_rest h (Suc i) = es"
    "h_pos h (Suc i) = pos_after (h_pos h i) [ev]"
proof -
  have lt: "i < length (h_events h)" using assms by (metis drop_all h_rest_def linorder_not_le list.distinct(1))
  then show "Suc i \<le> length (h_events h)" by simp
  from lt have cons: "h_rest h i = h_events h ! i # drop (Suc i) (h_events h)"
    unfolding h_rest_def by (rule Cons_nth_drop_Suc [symmetric])
  with assms show "h_rest h (Suc i) = es" by (simp add: h_rest_def)
  from lt cons assms show "h_pos h (Suc i) = pos_after (h_pos h i) [ev]"
    by (simp add: h_pos_def take_Suc_conv_app_nth)
qed

text \<open>An output record stops at the exit.\<close>

lemma output_before_exit:
  assumes rep: "history_rep h j" and i: "h_kept h \<le> i" "c_position c = h_pos h i"
    and rest: "h_rest h i = Byte b # es"
    and data: "sent_ok h i (Output (offset (h_pos h i)) data) i'"
    and lim: "offset (h_pos h i') \<le> output_limit j c"
    and e: "h_exit h = Some (n, e)" "\<not> c_exit_sent c" "i < n"
  shows "i' \<le> n"
proof (rule ccontr)
  assume "\<not> i' \<le> n"
  have split: "h_pos h m = pos_after (h_pos h i) (take (m - i) (h_rest h i))" if "i \<le> m" for m
  proof -
    have "take m (h_events h) = take i (h_events h) @ take (m - i) (h_rest h i)"
      using that by (metis h_rest_def le_add_diff_inverse take_add)
    then show ?thesis by (simp add: h_pos_def)
  qed
  have i': "i' = i + length data" and lead: "take (length data) (h_rest h i) = map Byte data"
    using data by auto
  have "take (n - i) (h_rest h i) = take (n - i) (take (length data) (h_rest h i))"
    using \<open>\<not> i' \<le> n\<close> i' by (simp add: min_absorb1)
  also have "\<dots> = map Byte (take (n - i) data)" by (simp add: lead take_map)
  finally have at: "offset (h_pos h n) = offset (h_pos h i) + (n - i)"
    using split [of n] e(3) \<open>\<not> i' \<le> n\<close> i' by (simp add: pos_after_sel)
  moreover have "offset (h_pos h i') = offset (h_pos h i) + length data"
    using split [of i'] i' lead by (simp add: pos_after_sel)
  moreover have "output_limit j c \<le> offset (h_pos h n)"
    using output_limit_gt(3) [OF rep i rest e(1,2)] at e(3) by simp
  ultimately show False
    using e(3) lim \<open>\<not> i' \<le> n\<close> i' at by linarith
qed

lemma next_in_tail_ok:
  assumes rep: "history_rep h j" and cur: "cursor_rep h c i" and tail: "c_state c = Tail"
  shows "next_ok h c i (next_in_tail j c)"
proof -
  have i: "i \<le> length (h_events h)" "c_position c = h_pos h i"
    using cur by (simp_all add: cursor_rep_def)
  note behind = behind_iff [OF rep i(1)] and due = exit_due_iff [OF rep i]
  consider (behind) "i < h_kept h" | (exit) n e where "h_kept h \<le> i" "h_exit h = Some (n, e)"
      "\<not> c_exit_sent c" "n \<le> i"
    | (rest) "h_kept h \<le> i" "exit_due j c = None"
    unfolding due by (cases "h_exit h"; cases "i < h_kept h") (force split: if_splits)+
  then show ?thesis
  proof cases
    case behind
    then show ?thesis
      using gap_sent [OF rep] tail behind_iff [OF rep i(1)] i(2)
        cursor_rep_kept [OF rep, of "c\<lparr>c_position := j_start j\<rparr>"]
      by (auto simp: next_in_tail_def next_ok_def is_exited_def carries_def gap_message_def)
  next
    case exit
    then have "next_in_tail j c = (c\<lparr>c_exit_sent := True\<rparr>, Some (Exited (offset (h_pos h n)) e))"
      using behind due i(2) history_repD(10) [OF rep] by (auto simp: next_in_tail_def)
    then show ?thesis using exit cur tail
      by (auto simp: next_ok_def is_exited_def carries_def cursor_rep_def)
  next
    case rest
    then have nb: "\<not> (offset (h_pos h i) < offset (j_start j) \<or> resizes (h_pos h i) < resizes (j_start j))"
      using behind by simp
    have unsent: "i < n" if "h_exit h = Some (n, e)" "\<not> c_exit_sent c" for n e
      using that rest(2) due by (auto split: if_splits)
    show ?thesis
    proof (cases "h_rest h i")
      case Nil
      then have "i = length (h_events h)" using i(1) by (simp add: h_rest_def)
      moreover have "next_resize j c = None" using next_resize_at [OF rep rest(1) i(2)] Nil by simp
      moreover have "h_exit h \<noteq> None \<longrightarrow> c_exit_sent c"
        using unsent history_repD(1) [OF rep] \<open>i = length (h_events h)\<close>
        by (force simp: h_ok_def)
      moreover have "j_end j \<le> offset (h_pos h i)" using at_end_iff [OF rep i(1)] Nil by simp
      ultimately have "next_in_tail j c = (c, None)" using nb rest i(2) by (simp add: next_in_tail_def)
      then show ?thesis
        using cur tail \<open>i = length (h_events h)\<close> \<open>h_exit h \<noteq> None \<longrightarrow> c_exit_sent c\<close>
        by (simp add: next_ok_def)
    next
      case (Cons ev es)
      note si = h_rest_Cons(1) [OF Cons]
      show ?thesis
      proof (cases ev)
        case (Resz s)
        have "h_pos h (Suc i) = pos_after (h_pos h i) [Resz s]"
          using h_rest_Cons(3) [OF Cons] Resz by simp
        then have p: "h_pos h (Suc i) = Position (offset (h_pos h i)) (Suc (resizes (h_pos h i)))" by simp
        have "next_in_tail j c = (c\<lparr>c_position := h_pos h (Suc i)\<rparr>,
            Some (Resized (offset (h_pos h i)) (resizes (h_pos h i)) s))"
          using next_resize_due(1) [OF rep rest(1) i(2)] Cons Resz nb rest i(2) p
          by (simp add: next_in_tail_def)
        then show ?thesis
          using Cons Resz cur tail si rest(1) unsent
          by (auto simp: next_ok_def is_exited_def carries_def cursor_rep_def intro!: exI [of _ "Suc i"])
      next
        case (Byte b)
        note rst = Cons [unfolded Byte]
        have "\<not> j_end j \<le> offset (h_pos h i)" using at_end_iff [OF rep i(1)] rst by simp
        then have next_eq: "next_in_tail j c = next_output j c"
          using next_resize_due(2) [OF rep rest(1) i(2) rst] nb rest i(2)
          by (auto simp: next_in_tail_def split: option.split dest: leD)
        from next_output_ok [OF rep rest(1) i(2) rst] obtain data where
          d: "next_output j c = (c\<lparr>c_position := h_pos h (i + length data)\<rparr>,
            Some (Output (offset (h_pos h i)) data))"
          "sent_ok h i (Output (offset (h_pos h i)) data) (i + length data)"
          "offset (h_pos h (i + length data)) \<le> output_limit j c" by blast
        have "i + length data \<le> length (h_events h)"
        proof -
          have "length data \<le> length (h_rest h i)"
            using d(2) by (metis length_map length_take min.cobounded1 sent_ok.simps(1))
          then show ?thesis using i(1) by (simp add: h_rest_def)
        qed
        moreover have "i + length data \<le> n" if "h_exit h = Some (n, e)" "\<not> c_exit_sent c" for n e
          using output_before_exit [OF rep rest(1) i(2) rst d(2,3) that] unsent [OF that] by simp
        ultimately show ?thesis
          unfolding next_eq d(1) next_ok_def using d(2) rest(1) tail
          by (auto simp: is_exited_def carries_def cursor_rep_def
              intro!: exI [of _ "i + length data"])
      qed
    qed
  qed
qed

lemma next_after_snapshot_ok:
  assumes rep: "history_rep h j" and cur: "cursor_rep h c i" and st: "c_state c \<noteq> Tail"
  shows "next_ok h c i (next_after_snapshot j c)"
proof -
  note H = history_repD [OF rep]
  have i: "i \<le> length (h_events h)" "c_position c = h_pos h i" "i \<le> h_snap h" "\<not> c_exit_sent c"
    using cur st by (simp_all add: cursor_rep_def)
  have snap: "h_snap h \<le> h_kept h" "h_kept h \<le> length (h_events h)"
    using H(1) by (simp_all add: h_ok_def)
  let ?c = "c\<lparr>c_state := Tail, c_position := j_start j\<rparr>"
  have c: "cursor_rep h ?c (h_kept h)" by (rule cursor_rep_kept [OF rep]) simp_all
  show ?thesis
  proof (cases "i = h_kept h")
    case True
    then have "next_after_snapshot j c = next_in_tail j ?c"
      using i(2,3) snap H(4,8) by (simp add: next_after_snapshot_def Let_def)
    with next_in_tail_ok [OF rep c] True i(4) st show ?thesis
      by (auto simp: next_ok_def split: prod.splits option.splits)
  next
    case False
    then have lt: "i < h_kept h" using i(3) snap by simp
    then have "c_position c \<noteq> j_start j"
      using h_pos_inject [OF i(1) snap(2)] i(2) H(4) by auto
    then have "next_after_snapshot j c = (?c, Some (gap_message (offset (h_pos h i)) j))"
      using i(2) by (simp add: next_after_snapshot_def Let_def)
    with gap_sent [OF rep lt] c i(4) show ?thesis
      by (auto simp: next_ok_def is_exited_def carries_def gap_message_def)
  qed
qed

theorem journal_next_ok:
  assumes rep: "history_rep h j" and cur: "cursor_rep h c i"
  shows "next_ok h c i (journal_next j c)"
proof (cases "c_state c")
  case SendSnapshot
  note H = history_repD [OF rep]
  let ?c = "c\<lparr>c_state := SendGap, c_position := j_snapshot j\<rparr>"
  have c: "cursor_rep h ?c (h_snap h)"
    using H(1,6) cur SendSnapshot by (simp add: cursor_rep_def h_ok_def)
  show ?thesis
  proof (cases "j_blob j")
    case None
    then have snap: "i = h_snap h"
      using H(1,7) cur SendSnapshot by (simp add: h_ok_def cursor_rep_def)
    from None have "journal_next j c = next_after_snapshot j ?c"
      using SendSnapshot by (simp add: journal_next_def Let_def)
    with next_after_snapshot_ok [OF rep c] SendSnapshot show ?thesis
      by (auto simp: next_ok_def snap split: prod.splits option.splits)
  next
    case (Some blob)
    then have "journal_next j c = (?c, Some (SnapshotRecord (h_pos h (h_snap h)) blob))"
      using SendSnapshot H(6) by (simp add: journal_next_def Let_def)
    moreover have "h_blob h = Some blob" using H(7) Some by simp
    moreover have "\<not> c_exit_sent c" using cur SendSnapshot by (simp add: cursor_rep_def)
    ultimately show ?thesis
      using c SendSnapshot by (simp add: next_ok_def is_exited_def carries_def)
  qed
next
  case SendGap
  then have "journal_next j c = next_after_snapshot j c" by (simp add: journal_next_def)
  with next_after_snapshot_ok [OF rep cur] SendGap show ?thesis by auto
next
  case Tail
  then have "journal_next j c = next_in_tail j c" by (simp add: journal_next_def)
  with next_in_tail_ok [OF rep cur Tail] show ?thesis by auto
qed

text \<open>Where a reader starts: after its own position if that is retained, else at the snapshot.\<close>

theorem read_ok:
  assumes rep: "history_rep h j"
  shows "if (\<exists>i. h_boundary h p i) \<and> \<not> (h_blob h \<noteq> None \<and> p = h_pos h (h_snap h))
    then \<exists>i. h_boundary h p i \<and> cursor_rep h (read p j) i \<and> c_state (read p j) = Tail \<and> \<not> c_exit_sent (read p j)
    else c_state (read p j) = SendSnapshot \<and> cursor_rep h (read p j) (h_snap h)"
proof -
  note H = history_repD [OF rep]
  have within: "(offset (j_start j) \<le> offset p \<and> offset p \<le> j_end j \<and> consistent j p) \<longleftrightarrow> (\<exists>i. h_boundary h p i)"
  proof
    assume "offset (j_start j) \<le> offset p \<and> offset p \<le> j_end j \<and> consistent j p"
    then show "\<exists>i. h_boundary h p i"
      using consistent_iff [OF H(2), of p] h_boundary_iff [OF H(1), of p] H(4) by metis
  next
    assume b: "\<exists>i. h_boundary h p i"
    then obtain i where i: "h_kept h \<le> i" "i \<le> length (h_events h)" "h_pos h i = p"
      by (auto simp: h_boundary_def)
    have "j_start j \<le> p" using h_pos_le [OF i(1), of h] H(4) i(3) by simp
    moreover have "p \<le> h_end h" using h_pos_le [OF i(2), of h] i(3) by simp
    ultimately have "offset (j_start j) \<le> offset p" "offset p \<le> j_end j"
      using history_rep_ends [OF rep] by (simp_all add: less_eq_position_def)
    then show "offset (j_start j) \<le> offset p \<and> offset p \<le> j_end j \<and> consistent j p"
      using consistent_iff [OF H(2), of p] h_boundary_iff [OF H(1), of p] H(4) b by metis
  qed
  show ?thesis
    using within H(1,6,7)
    by (auto simp: read_def Let_def cursor_rep_def h_boundary_def h_ok_def)
qed

end
