(* ===== verification/Journal_Runs.thy ===== *)
theory Journal_Runs
  imports Journal_Read
begin

text \<open>
  Whole runs of a journal and one reader of it: the client side's view of the records it gets,
  draining a journal nothing else touches, and any interleaving of output, resizes, the exit,
  snapshots and reads.
\<close>

subsection \<open>What a reader makes of the records\<close>

fun carried :: "host_message \<Rightarrow> event list" where
  "carried (Output off data) = map Byte data"
| "carried (Resized off k s) = [Resz s]"
| "carried m = []"

text \<open>The reader's position; \<open>None\<close> when a record does not start where the last one ended.\<close>

fun follow :: "position \<Rightarrow> host_message \<Rightarrow> position option" where
  "follow p (Output off data) =
     (if off = offset p then Some (Position (off + length data) (resizes p)) else None)"
| "follow p (Resized off k s) = (if Position off k = p then Some (Position off (k + 1)) else None)"
| "follow p (Gap frm to k s) = (if frm = offset p \<and> p \<le> Position to k then Some (Position to k) else None)"
| "follow p (Exited off e) = (if off \<le> offset p then Some p else None)"
| "follow p (SnapshotRecord q blob) = Some q"
| "follow p m = None"

text \<open>A record is true of a terminal's events, whenever it was sent.\<close>

fun true_record :: "term_size \<Rightarrow> event list \<Rightarrow> (nat \<times> child_exit) option \<Rightarrow> host_message \<Rightarrow> bool" where
  "true_record s0 es x (Output off data) \<longleftrightarrow> data \<noteq> [] \<and> length data \<le> MAX_OUTPUT_CHUNK
     \<and> take (length data) (drop off (event_bytes es)) = data"
| "true_record s0 es x (Resized off k s) \<longleftrightarrow> k < length (event_sizes es)
     \<and> resizes_from pos_zero es ! k = \<lparr>rz_offset = off, rz_index = k, rz_size = s\<rparr>"
| "true_record s0 es x (Gap frm to k s) \<longleftrightarrow> (\<exists>i\<le>length es.
     pos_after pos_zero (take i es) = Position to k \<and> size_after s0 (take i es) = s)"
| "true_record s0 es x (Exited off e) \<longleftrightarrow>
     (\<exists>n\<le>length es. x = Some (n, e) \<and> off = offset (pos_after pos_zero (take n es)))"
| "true_record s0 es x (SnapshotRecord p blob) \<longleftrightarrow>
     (\<exists>i\<le>length es. pos_after pos_zero (take i es) = p)"
| "true_record s0 es x m \<longleftrightarrow> False"

lemma true_record_grows:
  assumes "true_record s0 es x m" "x \<noteq> None \<Longrightarrow> x' = x"
  shows "true_record s0 (es @ news) x' m"
proof (cases m)
  case (Output off data)
  have "length data \<le> length (event_bytes es) - off"
    using assms(1) Output by (metis length_drop length_take min.cobounded1 true_record.simps(1))
  with assms(1) Output show ?thesis by auto
next
  case (Gap frm to k s)
  with assms(1) obtain i where "i \<le> length es" "pos_after pos_zero (take i es) = Position to k"
    "size_after s0 (take i es) = s" by auto
  with Gap show ?thesis by (auto intro!: exI [of _ i])
next
  case (SnapshotRecord p blob)
  with assms(1) obtain i where "i \<le> length es" "pos_after pos_zero (take i es) = p" by auto
  with SnapshotRecord show ?thesis by (auto intro!: exI [of _ i])
qed (use assms in \<open>auto simp: resizes_from_append nth_append\<close>)

lemma sent_ok_true:
  assumes ok: "h_ok h" and sent: "sent_ok h i m i'" and i: "i \<le> length (h_events h)"
  shows "true_record (h_size0 h) (h_events h) (h_exit h) m"
    and "follow (h_pos h i) m = Some (h_pos h i')"
proof -
  have bounds: "h_kept h \<le> length (h_events h)" "h_snap h \<le> h_kept h"
    using ok by (simp_all add: h_ok_def)
  have step: "h_pos h (i + n) = pos_after (h_pos h i) (take n (h_rest h i))" for n
    by (simp add: h_pos_def h_rest_def take_add)
  have bytes: "event_bytes (h_rest h i) = drop (offset (h_pos h i)) (event_bytes (h_events h))"
  proof -
    have "event_bytes (h_events h) = event_bytes (take i (h_events h)) @ event_bytes (h_rest h i)"
      by (metis h_rest_def append_take_drop_id event_bytes_append)
    then show ?thesis by (simp add: h_pos_def pos_after_sel pos_zero_def)
  qed
  have "true_record (h_size0 h) (h_events h) (h_exit h) m \<and> follow (h_pos h i) m = Some (h_pos h i')"
  proof (cases m)
    case (Output off data)
    let ?r = "h_rest h i"
    have lead: "take (length data) ?r = map Byte data" using sent Output by simp
    have "event_bytes ?r = event_bytes (take (length data) ?r) @ event_bytes (drop (length data) ?r)"
      by (metis append_take_drop_id event_bytes_append)
    then have "take (length data) (event_bytes ?r) = data" unfolding lead by simp
    moreover have "h_pos h i' = Position (off + length data) (resizes (h_pos h i))"
      using sent Output step [of "length data"] lead by (simp add: pos_after_def)
    ultimately show ?thesis using sent Output bytes by simp
  next
    case (Resized off k s)
    then obtain es where es: "h_rest h i = Resz s # es" and p: "Position off k = h_pos h i" "i' = Suc i"
      using sent by (cases "h_rest h i") auto
    have "h_events h = take i (h_events h) @ Resz s # es"
      using es by (metis h_rest_def append_take_drop_id)
    moreover have "length (event_sizes (take i (h_events h))) = k"
      "pos_after pos_zero (take i (h_events h)) = Position off k"
      using p(1) by (auto simp: h_pos_def pos_after_def pos_zero_def)
    ultimately have "k < length (event_sizes (h_events h)) \<and>
        resizes_from pos_zero (h_events h) ! k = \<lparr>rz_offset = off, rz_index = k, rz_size = s\<rparr>"
      by (metis (no_types, lifting) add_Suc_right event_sizes.simps(3) event_sizes_append
          length_append length_Cons length_resizes_from less_add_Suc1 nth_append_length
          resizes_from.simps(3) resizes_from_append position.sel)
    then show ?thesis using Resized p h_rest_Cons(3) [OF es] by (auto simp flip: p(1))
  next
    case (Gap frm to k s)
    then show ?thesis
      using sent bounds h_pos_le [of i "h_kept h" h]
      by (auto simp: h_pos_def h_start_size_def)
  next
    case (Exited off e)
    then obtain n where "n \<le> i" "h_exit h = Some (n, e)" "off = offset (h_pos h n)" "i' = i"
      using sent by auto
    with Exited i h_pos_le [of n i h] show ?thesis
      by (auto simp: h_pos_def less_eq_position_def)
  next
    case (SnapshotRecord p blob)
    then show ?thesis using sent bounds
      by (auto simp: h_pos_def intro!: exI [of _ "h_snap h"])
  qed (use sent in simp_all)
  then show "true_record (h_size0 h) (h_events h) (h_exit h) m"
    "follow (h_pos h i) m = Some (h_pos h i')" by simp_all
qed

lemma sent_ok_carries:
  assumes "sent_ok h i m i'" "carries m"
  shows "h_rest h i = carried m @ h_rest h i'" "i < i'"
proof -
  have rest: "h_rest h i = take n (h_rest h i) @ h_rest h (i + n)" for n
    unfolding h_rest_def by (metis append_take_drop_id drop_drop add.commute)
  show "h_rest h i = carried m @ h_rest h i'" "i < i'"
    using assms rest [of "i' - i"] by (cases m; auto simp: carries_def)+
qed

subsection \<open>Draining\<close>

text \<open>Calling \<open>next\<close> until it has nothing to send, at most \<open>n\<close> times.\<close>

fun drain :: "nat \<Rightarrow> journal \<Rightarrow> cursor \<Rightarrow> host_message list \<times> cursor option" where
  "drain 0 j c = ([], None)"
| "drain (Suc n) j c = (case journal_next j c of
     (c', None) \<Rightarrow> ([], Some c')
   | (c', Some m) \<Rightarrow> (let (ms, r) = drain n j c' in (m # ms, r)))"

lemma drain_tail:
  assumes rep: "history_rep h j" and cur: "cursor_rep h c i" "c_state c = Tail" "h_kept h \<le> i"
    and fuel: "length (h_rest h i) + 1 < n + (if c_exit_sent c then 1 else 0)"
  shows "\<exists>ms c'. drain n j c = (ms, Some c') \<and> concat (map carried ms) = h_rest h i
    \<and> cursor_rep h c' (length (h_events h)) \<and> c_state c' = Tail \<and> journal_next j c' = (c', None)
    \<and> length (filter is_exited ms) = (if h_exit h \<noteq> None \<and> \<not> c_exit_sent c then 1 else 0)"
  using cur fuel
proof (induction n arbitrary: c i)
  case (Suc n)
  have ok: "next_ok h c i (journal_next j c)" by (rule journal_next_ok [OF rep Suc.prems(1)])
  obtain c1 r where nx: "journal_next j c = (c1, r)" by (cases "journal_next j c")
  have tail: "c_state c1 = Tail"
    using ok nx Suc.prems(2) by (auto simp: next_ok_def split: option.splits)
  show ?case
  proof (cases r)
    case None
    then have c1: "c1 = c" "cursor_rep h c (length (h_events h))" "h_exit h \<noteq> None \<longrightarrow> c_exit_sent c"
      "i = length (h_events h)"
      using ok nx Suc.prems(2) by (auto simp: next_ok_def)
    with None nx c1 tail show ?thesis by (auto simp: h_rest_def)
  next
    case (Some m)
    with ok nx obtain i' where i': "sent_ok h i m i'" "cursor_rep h c1 i'"
      "is_exited m \<longrightarrow> \<not> c_exit_sent c" "c_exit_sent c1 = (c_exit_sent c \<or> is_exited m)"
      by (auto simp: next_ok_def)
    have not_snap: "m \<noteq> SnapshotRecord p blob" for p blob
      using ok nx Some Suc.prems(2) by (auto simp: next_ok_def)
    have not_gap: "m \<noteq> Gap a b d s" for a b d s using i'(1) Suc.prems(3) by auto
    have kinds: "carries m \<or> is_exited m \<and> i' = i \<and> h_exit h \<noteq> None"
      using i'(1) not_snap not_gap by (cases m) (auto simp: carries_def is_exited_def)
    have rest: "h_rest h i = carried m @ h_rest h i'"
    proof (cases "carries m")
      case True
      then show ?thesis using sent_ok_carries(1) [OF i'(1)] by blast
    next
      case False
      then show ?thesis using kinds by (cases m) (auto simp: is_exited_def)
    qed
    have less: "length (h_rest h i') + (if c_exit_sent c1 then 0 else 1) < length (h_rest h i)
        + (if c_exit_sent c then 0 else 1)" and kept: "h_kept h \<le> i'"
    proof -
      have "carries m \<Longrightarrow> i < i' \<and> i' \<le> length (h_events h)"
        using sent_ok_carries(2) [OF i'(1)] i'(2) by (simp add: cursor_rep_def)
      then show "length (h_rest h i') + (if c_exit_sent c1 then 0 else 1) < length (h_rest h i)
        + (if c_exit_sent c then 0 else 1)" "h_kept h \<le> i'"
        using kinds i'(3,4) Suc.prems(3) by (auto simp: h_rest_def)
    qed
    have fuel: "length (h_rest h i') + 1 < n + (if c_exit_sent c1 then 1 else 0)"
      using less Suc.prems(4) by (auto split: if_splits)
    from Suc.IH [OF i'(2) tail kept fuel] obtain ms c' where IH: "drain n j c1 = (ms, Some c')"
      "concat (map carried ms) = h_rest h i'" "cursor_rep h c' (length (h_events h))"
      "c_state c' = Tail" "journal_next j c' = (c', None)"
      "length (filter is_exited ms) = (if h_exit h \<noteq> None \<and> \<not> c_exit_sent c1 then 1 else 0)"
      by blast
    have "drain (Suc n) j c = (m # ms, Some c')" using nx Some IH(1) by simp
    moreover have "length (filter is_exited (m # ms))
        = (if h_exit h \<noteq> None \<and> \<not> c_exit_sent c then 1 else 0)"
      using IH(6) i'(3,4) kinds by (auto simp: carries_def is_exited_def split: host_message.splits)
    ultimately show ?thesis using IH(2-5) rest
      by (intro exI [of _ "m # ms"] exI [of _ c']) simp
  qed
qed (simp split: if_splits)

subsection \<open>Interleavings\<close>

text \<open>
  A terminal, its journal and one reader: the events so far and the exit with the number of
  events before it (which the code does not keep), the journal, the cursor, and what was sent.
\<close>

record run_state =
  r_events :: "event list"
  r_exit :: "(nat \<times> child_exit) option"
  r_journal :: journal
  r_cursor :: cursor
  r_sent :: "host_message list"

definition run_start :: "term_size \<Rightarrow> nat \<Rightarrow> byte list option \<Rightarrow> position \<Rightarrow> run_state" where
  "run_start s cap initial p =
     \<lparr>r_events = [], r_exit = None, r_journal = journal_new s cap initial,
      r_cursor = read p (journal_new s cap initial), r_sent = []\<rparr>"

inductive run_step :: "run_state \<Rightarrow> run_state \<Rightarrow> bool" where
  pushed: "u64_ok (j_end (r_journal r) + length data) \<Longrightarrow>
    run_step r (r\<lparr>r_events := r_events r @ map Byte data, r_journal := push_output data (r_journal r)\<rparr>)"
| resized: "run_step r (r\<lparr>r_events := r_events r @ [Resz s], r_journal := push_resize s (r_journal r)\<rparr>)"
| exited: "run_step r (r\<lparr>r_exit := (if r_exit r = None then Some (length (r_events r), e) else r_exit r),
    r_journal := push_exit e (r_journal r)\<rparr>)"
| accepted: "accept_snapshot p blob (r_journal r) = Inr j \<Longrightarrow> run_step r (r\<lparr>r_journal := j\<rparr>)"
| sent: "journal_next (r_journal r) (r_cursor r) = (c, m) \<Longrightarrow>
    run_step r (r\<lparr>r_cursor := c, r_sent := r_sent r @ (case m of None \<Rightarrow> [] | Some m \<Rightarrow> [m])\<rparr>)"

fun receive_all :: "position \<Rightarrow> host_message list \<Rightarrow> position option" where
  "receive_all p [] = Some p"
| "receive_all p (m # ms) = (case follow p m of None \<Rightarrow> None | Some q \<Rightarrow> receive_all q ms)"

lemma receive_all_append:
  "receive_all p (xs @ ys) = (case receive_all p xs of None \<Rightarrow> None | Some q \<Rightarrow> receive_all q ys)"
  by (induction xs arbitrary: p) (auto split: option.split)

definition run_ok :: "term_size \<Rightarrow> nat \<Rightarrow> position \<Rightarrow> run_state \<Rightarrow> bool" where
  "run_ok s cap p0 r \<longleftrightarrow> (\<exists>h i. history_rep h (r_journal r) \<and> cursor_rep h (r_cursor r) i
     \<and> h_size0 h = s \<and> h_cap h = cap \<and> h_events h = r_events r \<and> h_exit h = r_exit r)
     \<and> (\<forall>m\<in>set (r_sent r). true_record s (r_events r) (r_exit r) m)
     \<and> receive_all p0 (r_sent r) = Some (c_position (r_cursor r))
     \<and> length (filter is_exited (r_sent r)) = (if c_exit_sent (r_cursor r) then 1 else 0)"

lemma cursor_rep_mono:
  assumes "cursor_rep h c i" "take (length (h_events h)) (h_events h') = h_events h"
    "h_snap h \<le> h_snap h'"
  shows "cursor_rep h' c i"
proof -
  have i: "i \<le> length (h_events h)" using assms(1) by (simp add: cursor_rep_def)
  moreover have "length (h_events h) \<le> length (h_events h')"
    using arg_cong [OF assms(2), of length] by simp
  moreover have "take i (h_events h') = take i (h_events h)"
    using i assms(2) by (metis min_absorb1 take_take)
  ultimately show ?thesis using assms(1,3) by (auto simp: cursor_rep_def h_pos_def)
qed

lemma run_start_ok: "run_ok s cap (c_position (r_cursor (run_start s cap initial p))) (run_start s cap initial p)"
proof -
  let ?h = "h_new s cap initial" and ?c = "read p (journal_new s cap initial)"
  have "\<exists>i. cursor_rep ?h ?c i"
    using read_ok [OF h_new_rep, of s cap initial p] by (auto split: if_splits)
  moreover have "\<not> c_exit_sent ?c" by (simp add: read_def Let_def)
  ultimately show ?thesis
    using h_new_rep [of s cap initial] unfolding run_ok_def run_start_def
    by (auto simp: h_new_def intro!: exI [of _ ?h])
qed

lemma run_step_ok:
  assumes "run_step r r'" "run_ok s cap p0 r"
  shows "run_ok s cap p0 r'"
proof -
  from assms(2) obtain h i where
    rep: "history_rep h (r_journal r)" and cur: "cursor_rep h (r_cursor r) i"
    and h: "h_size0 h = s" "h_cap h = cap" "h_events h = r_events r" "h_exit h = r_exit r"
    and true: "\<forall>m\<in>set (r_sent r). true_record s (r_events r) (r_exit r) m"
    and pos: "receive_all p0 (r_sent r) = Some (c_position (r_cursor r))"
    and once: "length (filter is_exited (r_sent r)) = (if c_exit_sent (r_cursor r) then 1 else 0)"
    unfolding run_ok_def by blast
  from assms(1) show ?thesis
  proof cases
    case (pushed data)
    let ?h = "h_append (map Byte data) h"
    have "history_rep ?h (push_output data (r_journal r))"
      by (rule push_output_rep [OF rep]) (use pushed(2) history_rep_ends(1) [OF rep] in simp)
    moreover have "cursor_rep ?h (r_cursor r) i" by (rule cursor_rep_mono [OF cur]) simp_all
    ultimately show ?thesis
      unfolding pushed(1) run_ok_def using h true pos once
      by (auto intro!: exI [of _ ?h] true_record_grows)
  next
    case (resized z)
    let ?h = "h_append [Resz z] h"
    have "history_rep ?h (push_resize z (r_journal r))" by (rule push_resize_rep [OF rep])
    moreover have "cursor_rep ?h (r_cursor r) i" by (rule cursor_rep_mono [OF cur]) simp_all
    ultimately show ?thesis
      unfolding resized run_ok_def using h true pos once
      by (auto intro!: exI [of _ ?h] true_record_grows)
  next
    case (exited e)
    let ?h = "h_exited e h"
    have same: "h_events ?h = h_events h" "h_snap ?h = h_snap h" "h_size0 ?h = h_size0 h"
      "h_cap ?h = h_cap h" "h_exit ?h = (if r_exit r = None then Some (length (r_events r), e) else r_exit r)"
      using h by (simp_all add: h_exited_def)
    have "history_rep ?h (push_exit e (r_journal r))" by (rule push_exit_rep [OF rep])
    moreover have "cursor_rep ?h (r_cursor r) i" by (rule cursor_rep_mono [OF cur]) (simp_all add: same)
    moreover have "true_record s (r_events r) (if r_exit r = None then Some (length (r_events r), e) else r_exit r) m"
      if "m \<in> set (r_sent r)" for m
      using true_record_grows [of s "r_events r" "r_exit r" m _ "[]"] true that by auto
    ultimately show ?thesis
      unfolding exited run_ok_def using h same pos once
      by (auto intro!: exI [of _ ?h])
  next
    case (accepted p blob j)
    have none: "h_refusal p blob h = None"
      using accept_snapshot_refused [OF rep] accepted(2) by (cases "h_refusal p blob h") auto
    from accept_snapshot_rep [OF rep none] accepted(2) obtain k where
      k: "h_boundary h p k" "history_rep (h_snapshot k blob h) j" by auto
    have "h_snap h \<le> k"
      using history_repD(1) [OF rep] k(1) by (simp add: h_ok_def h_boundary_def)
    then have "cursor_rep (h_snapshot k blob h) (r_cursor r) i"
      by (intro cursor_rep_mono [OF cur]) (simp_all add: h_snapshot_def)
    with k(2) show ?thesis
      unfolding accepted(1) run_ok_def using h true pos once
      by (auto simp: h_snapshot_def intro!: exI [of _ "h_snapshot k blob h"])
  next
    case (sent c m)
    have ok: "next_ok h (r_cursor r) i (c, m)" using journal_next_ok [OF rep cur] sent(2) by simp
    show ?thesis
    proof (cases m)
      case None
      with ok have "i = length (h_events h)" and c: "cursor_rep h c (length (h_events h))"
        "c_exit_sent c = c_exit_sent (r_cursor r)" by (auto simp: next_ok_def)
      then have "c_position c = c_position (r_cursor r)" using cur by (simp add: cursor_rep_def)
      with c rep None show ?thesis
        unfolding sent(1) run_ok_def using h true pos once by auto
    next
      case (Some m')
      with ok obtain i' where i': "sent_ok h i m' i'" "cursor_rep h c i'"
        "is_exited m' \<longrightarrow> \<not> c_exit_sent (r_cursor r)"
        "c_exit_sent c = (c_exit_sent (r_cursor r) \<or> is_exited m')"
        by (auto simp: next_ok_def)
      have i: "i \<le> length (h_events h)" "c_position (r_cursor r) = h_pos h i"
        using cur by (simp_all add: cursor_rep_def)
      note S = sent_ok_true [OF history_repD(1) [OF rep] i'(1) i(1)]
      have "receive_all p0 (r_sent r @ [m']) = Some (c_position c)"
        using pos S(2) i(2) i'(2) by (simp add: receive_all_append cursor_rep_def)
      then show ?thesis
        unfolding sent(1) run_ok_def using h true once rep i'(2-) S(1) Some by auto
    qed
  qed
qed

lemma run_reachable_ok:
  assumes "run_step\<^sup>*\<^sup>* (run_start s cap initial p) r"
  shows "run_ok s cap (c_position (r_cursor (run_start s cap initial p))) r"
  using assms by (induction rule: rtranclp_induct) (auto intro: run_start_ok run_step_ok)

subsection \<open>Memory\<close>

definition block_memory :: "block list \<Rightarrow> nat" where
  "block_memory bs = (\<Sum>b\<leftarrow>bs. length (b_data b))"

lemma packed_memory:
  assumes "blocks_ok off bs" "packed bs"
  shows "block_memory bs \<le> length (stored_bytes bs) + MAX_OUTPUT_CHUNK"
proof (cases bs)
  case (Cons b bs')
  have "length (stored_bytes xs) = block_memory xs" if "\<forall>c\<in>set xs. b_skip c = 0" for xs
    using that by (induction xs) (simp_all add: block_memory_def block_len_def)
  then have "length (stored_bytes bs') = block_memory bs'"
    using assms(2) Cons by (simp add: packed_def)
  moreover have "b_skip b < length (b_data b)" "length (b_data b) \<le> MAX_OUTPUT_CHUNK"
    using assms(1) Cons by auto
  moreover have "length (stored_bytes bs) = length (b_data b) - b_skip b + length (stored_bytes bs')"
    using Cons by (simp add: block_len_def)
  moreover have "block_memory bs = length (b_data b) + block_memory bs'"
    using Cons by (simp add: block_memory_def)
  ultimately show ?thesis by linarith
qed (simp add: block_memory_def)

lemma history_rep_memory:
  assumes "history_rep h j"
  shows "block_memory (j_output j) + RECORD_COST * length (j_resizes j) \<le> j_cap j + MAX_OUTPUT_CHUNK"
    "j_cost j \<le> j_cap j"
proof -
  note R = tail_repD [OF history_repD(2) [OF assms]]
  have cost: "events_cost (h_retained h) \<le> j_cap j"
    using history_repD(1,3) [OF assms] by (simp add: h_ok_def)
  then show "j_cost j \<le> j_cap j" using R(6) by simp
  have "length (stored_bytes (j_output j)) + RECORD_COST * length (j_resizes j) \<le> j_cap j"
    using cost R(3,4) by (simp add: events_cost_def)
  then show "block_memory (j_output j) + RECORD_COST * length (j_resizes j) \<le> j_cap j + MAX_OUTPUT_CHUNK"
    using packed_memory [OF R(1,2)] by linarith
qed

end
