(* ===== verification/Journal_Properties.thy ===== *)
theory Journal_Properties
  imports Journal_Runs
begin

text \<open>
  The properties of the journal (\<^verbatim>\<open>crates/terminal-host/src/journal.rs\<close>): what a reader is
  sent is true and gapless whatever happens meanwhile, a drained journal has given everything
  it retains, and each operation implements the specification of \<open>Journal_Spec\<close>.
\<close>

text \<open>A run the witnesses below use: two bytes of output on a fresh terminal.\<close>

definition sample_run :: run_state where
  "sample_run = (run_start (Size 80 24) 100 None pos_zero)\<lparr>r_events := [Byte 1, Byte 2],
     r_journal := push_output [1, 2] (journal_new (Size 80 24) 100 None)\<rparr>"

lemma sample_run_reachable: "run_step\<^sup>*\<^sup>* (run_start (Size 80 24) 100 None pos_zero) sample_run"
proof -
  let ?r = "run_start (Size 80 24) 100 None pos_zero"
  have "run_step ?r (?r\<lparr>r_events := r_events ?r @ map Byte [1, 2],
      r_journal := push_output [1, 2] (r_journal ?r)\<rparr>)"
    by (rule run_step.pushed) (simp add: run_start_def journal_new_def u64_ok_def)
  then show ?thesis by (simp add: sample_run_def run_start_def)
qed

lemma sample_journal:
  "r_journal sample_run = (journal_new (Size 80 24) 100 None)\<lparr>j_cost := 2, j_end := 2,
     j_output := [\<lparr>b_offset = 0, b_data = [1, 2], b_skip = 0\<rparr>]\<rparr>"
  by (simp add: sample_run_def push_output_def push_loop.simps trim_unfold room_def new_block_def
      fill_last_def journal_new_def MAX_OUTPUT_CHUNK_def)

text \<open>
  C2: In every interleaving of output, resizes, the exit, accepted snapshots and reads, each
  record sent to a reader agrees with the terminal's history (the bytes at its offset, the
  resize of its number, the size at a gap's end, the exit's offset), starts where the record
  before it ended, and the exit is sent at most once.
\<close>

theorem journal_run_sound:
  assumes "run_step\<^sup>*\<^sup>* (run_start s cap initial p) r"
  shows "(\<forall>m\<in>set (r_sent r). true_record s (r_events r) (r_exit r) m)
    \<and> receive_all (c_position (r_cursor (run_start s cap initial p))) (r_sent r)
      = Some (c_position (r_cursor r))
    \<and> length (filter is_exited (r_sent r)) \<le> 1"
  using run_reachable_ok [OF assms] by (simp add: run_ok_def split: if_splits)

lemma journal_run_sound_witness:
  "receive_all (c_position (r_cursor (run_start (Size 80 24) 100 None pos_zero))) (r_sent sample_run)
    = Some (c_position (r_cursor sample_run))"
  using journal_run_sound [OF sample_run_reachable] by blast

text \<open>
  C20: A reader in the tail that is not behind what is retained, reading a journal nothing else
  touches, is sent exactly the events it has not seen, in order, and the exit once if it was
  not sent before; then \<open>next\<close> has nothing more. One call more than there are events (and one
  for the exit) is enough.
\<close>

theorem journal_drain_complete:
  assumes "run_step\<^sup>*\<^sup>* (run_start s cap initial p) r"
    and "c_state (r_cursor r) = Tail" "j_start (r_journal r) \<le> c_position (r_cursor r)"
    and "length (r_events r) + 2 \<le> n"
  shows "\<exists>i ms c. i \<le> length (r_events r)
    \<and> pos_after pos_zero (take i (r_events r)) = c_position (r_cursor r)
    \<and> drain n (r_journal r) (r_cursor r) = (ms, Some c)
    \<and> concat (map carried ms) = drop i (r_events r) \<and> c_position c = current (r_journal r)
    \<and> journal_next (r_journal r) c = (c, None)
    \<and> length (filter is_exited ms)
      = (if r_exit r \<noteq> None \<and> \<not> c_exit_sent (r_cursor r) then 1 else 0)"
proof -
  from run_reachable_ok [OF assms(1)] obtain h i where
    rep: "history_rep h (r_journal r)" and cur: "cursor_rep h (r_cursor r) i"
    and h: "h_events h = r_events r" "h_exit h = r_exit r"
    unfolding run_ok_def by blast
  have i: "i \<le> length (h_events h)" "c_position (r_cursor r) = h_pos h i"
    using cur by (simp_all add: cursor_rep_def)
  have kept: "h_kept h \<le> length (h_events h)"
    using history_repD(1) [OF rep] by (simp add: h_ok_def)
  have "h_kept h \<le> i"
    using h_pos_le_iff [OF kept i(1)] assms(3) i(2) history_repD(4) [OF rep] by simp
  moreover have "length (h_rest h i) + 1 < n + (if c_exit_sent (r_cursor r) then 1 else 0)"
    using assms(4) h(1) by (simp add: h_rest_def)
  ultimately obtain ms c where D: "drain n (r_journal r) (r_cursor r) = (ms, Some c)"
    "concat (map carried ms) = h_rest h i" "cursor_rep h c (length (h_events h))"
    "journal_next (r_journal r) c = (c, None)"
    "length (filter is_exited ms) = (if h_exit h \<noteq> None \<and> \<not> c_exit_sent (r_cursor r) then 1 else 0)"
    using drain_tail [OF rep cur assms(2)] by blast
  have "c_position c = current (r_journal r)"
    using D(3) history_rep_end [OF rep] by (simp add: cursor_rep_def)
  with D i h show ?thesis
    by (intro exI [of _ i] exI [of _ ms] exI [of _ c]) (simp add: h_rest_def h_pos_def)
qed

lemma journal_drain_complete_witness:
  "\<exists>ms c. drain 4 (r_journal sample_run) (r_cursor sample_run) = (ms, Some c)
    \<and> concat (map carried ms) = [Byte 1, Byte 2]"
proof -
  have cur: "r_cursor sample_run = \<lparr>c_state = Tail, c_position = pos_zero, c_exit_sent = False\<rparr>"
    by (simp add: sample_run_def run_start_def read_def journal_new_def Let_def consistent_def
        pos_zero_def)
  have es: "r_events sample_run = [Byte 1, Byte 2]" by (simp add: sample_run_def)
  have tail: "c_state (r_cursor sample_run) = Tail"
    and start: "j_start (r_journal sample_run) \<le> c_position (r_cursor sample_run)"
    and n: "length (r_events sample_run) + 2 \<le> 4"
    by (simp_all add: cur es sample_journal journal_new_def)
  from journal_drain_complete [OF sample_run_reachable tail start n] obtain i ms c where
    D: "i \<le> length [Byte 1, Byte 2]" "pos_after pos_zero (take i [Byte 1, Byte 2]) = pos_zero"
    "drain 4 (r_journal sample_run) (r_cursor sample_run) = (ms, Some c)"
    "concat (map carried ms) = drop i [Byte 1, Byte 2]"
    unfolding es cur cursor.simps by blast
  have "i = 0"
    using D(1,2) by (cases i; cases "i - 1") (simp_all add: pos_after_def pos_zero_def)
  with D(3,4) show ?thesis by auto
qed

text \<open>
  The cap holds in every state a run reaches: retained output and resizes cost at most the
  cap, and the memory of the blocks and resize records is at most the cap and one block.
\<close>

theorem journal_memory_bounded:
  assumes "run_step\<^sup>*\<^sup>* (run_start s cap initial p) r"
  shows "j_cost (r_journal r) \<le> cap
    \<and> block_memory (j_output (r_journal r)) + RECORD_COST * length (j_resizes (r_journal r))
      \<le> cap + MAX_OUTPUT_CHUNK"
proof -
  from run_reachable_ok [OF assms] obtain h where
    rep: "history_rep h (r_journal r)" and cap: "h_cap h = cap"
    unfolding run_ok_def by blast
  show ?thesis using history_rep_memory [OF rep] history_repD(3) [OF rep] cap by simp
qed

lemma journal_memory_bounded_witness:
  "j_cost (r_journal sample_run) \<le> 100"
  using journal_memory_bounded [OF sample_run_reachable] by blast

text \<open>
  C21: Pushing output appends its bytes to the history and drops the fewest of the oldest
  events that bring the cost back within the cap; nothing else changes.
\<close>

theorem push_output_refines:
  assumes "history_rep h j" "u64_ok (offset (h_end h) + length data)"
  shows "history_rep (h_append (map Byte data) h) (push_output data j)
    \<and> (\<forall>k. h_kept h \<le> k \<and> k < h_kept (h_append (map Byte data) h)
      \<longrightarrow> h_cap h < events_cost (drop k (h_events h @ map Byte data)))"
proof -
  have kept: "h_kept h \<le> length (h_events h)" using history_repD(1) [OF assms(1)] by (simp add: h_ok_def)
  have "h_cap h < events_cost (drop k (h_events h @ map Byte data))"
    if k: "h_kept h \<le> k" "k < h_kept (h_append (map Byte data) h)" for k
  proof -
    have "k - h_kept h < trim_count (h_cap h) (h_retained h @ map Byte data)"
      using k by (simp add: h_append_def)
    from trim_count_least [OF this] kept k(1) show ?thesis
      by (simp add: h_retained_def)
  qed
  with push_output_rep [OF assms] show ?thesis by blast
qed

lemma push_output_refines_witness:
  "history_rep (h_append (map Byte [1, 2, 3]) (h_new (Size 80 24) 2 None))
     (push_output [1, 2, 3] (journal_new (Size 80 24) 2 None))
   \<and> h_kept (h_append (map Byte [1, 2, 3]) (h_new (Size 80 24) 2 None)) = 1"
  using push_output_refines [OF h_new_rep, where data = "[1, 2, 3]", of "Size 80 24" 2 None]
  by (simp add: h_new_def h_end_def pos_zero_def u64_ok_def h_append_def h_retained_def)

text \<open>
  A resize and the exit are appended the same way: a resize as one event after everything
  pushed so far, and the exit once, at the end of what was pushed before it.
\<close>

theorem push_resize_exit_refines:
  assumes "history_rep h j"
  shows "history_rep (h_append [Resz s] h) (push_resize s j)
    \<and> history_rep (h_exited e h) (push_exit e j)"
  using push_resize_rep [OF assms] push_exit_rep [OF assms] by blast

lemma push_resize_exit_refines_witness:
  "history_rep (h_append [Resz (Size 100 30)] (h_new (Size 80 24) 128 None))
     (push_resize (Size 100 30) (journal_new (Size 80 24) 128 None))"
  using push_resize_exit_refines [OF h_new_rep] by blast

text \<open>
  C26: A snapshot is accepted exactly at an event boundary that is still retained and not
  before the current snapshot, and each refusal gives the first reason that applies; an
  accepted snapshot replaces everything before its position, and a refused one changes nothing.
\<close>

theorem accept_snapshot_refines:
  assumes "history_rep h j"
  shows "case h_refusal p blob h of
      Some reason \<Rightarrow> accept_snapshot p blob j = Inl reason
    | None \<Rightarrow> \<exists>i j'. h_boundary h p i \<and> accept_snapshot p blob j = Inr j'
        \<and> history_rep (h_snapshot i blob h) j'"
  using accept_snapshot_refused [OF assms] accept_snapshot_rep [OF assms]
  by (auto split: option.split)

lemma accept_snapshot_refines_witness:
  "accept_snapshot (Position 1 0) [7] (journal_new (Size 80 24) 100 None) = Inl OutsideRetained"
  using accept_snapshot_refines [OF h_new_rep, where p = "Position 1 0" and blob = "[7]",
      of "Size 80 24" 100 None]
  by (simp add: h_refusal_def h_new_def h_pos_def h_end_def pos_zero_def limits)

text \<open>
  A reader that names an event boundary still retained resumes right there, unless that is
  the position of a snapshot held, which it is then sent again; every other reader starts with
  the snapshot.
\<close>

theorem read_refines:
  assumes "history_rep h j"
  shows "if (\<exists>i. h_boundary h p i) \<and> \<not> (h_blob h \<noteq> None \<and> p = h_pos h (h_snap h))
    then \<exists>i. h_boundary h p i \<and> cursor_rep h (read p j) i \<and> c_state (read p j) = Tail
      \<and> \<not> c_exit_sent (read p j)
    else c_state (read p j) = SendSnapshot \<and> cursor_rep h (read p j) (h_snap h)"
  by (rule read_ok [OF assms])

lemma read_refines_witness:
  "c_state (read (Position 5 0) (journal_new (Size 80 24) 100 None)) = SendSnapshot"
proof -
  have "\<nexists>i. h_boundary (h_new (Size 80 24) 100 None) (Position 5 0) i"
    by (simp add: h_boundary_def h_new_def h_pos_def pos_zero_def)
  with read_refines [OF h_new_rep, where p = "Position 5 0",
      of "Size 80 24" 100 None] show ?thesis by simp
qed

end
