(* ===== verification/Host_Client.thy ===== *)
theory Host_Client
  imports Journal_Runs
begin

text \<open>
  The connected client of a terminal host and the functions on it
  (\<^verbatim>\<open>crates/terminal-host/src/host.rs\<close>): the queue of outgoing frames with its byte count,
  the pending input with its cost, acknowledgements, and the end of a connection. What the
  operating system answers is explicit: an \<open>os\<close> holds the answers still to come and what the
  host did to it.
\<close>

subsection \<open>The operating system's answers\<close>

text \<open>
  One call to \<open>read\<close> or \<open>recv\<close>: some bytes (none is the end of the stream), nothing now,
  interrupted, or failed. A call for fewer bytes than there are leaves the rest for the next.
  When the list of answers is used up there is nothing more for now.
\<close>

datatype read_answer = Bytes "byte list" | RAgain | RIntr | RFailed

fun os_take :: "nat \<Rightarrow> read_answer list \<Rightarrow> read_answer \<times> read_answer list" where
  "os_take space [] = (RAgain, [])"
| "os_take space (Bytes bs # as) =
     (if length bs \<le> space then (Bytes bs, as) else (Bytes (take space bs), Bytes (drop space bs) # as))"
| "os_take space (a # as) = (a, as)"

definition answers_size :: "read_answer list \<Rightarrow> nat" where
  "answers_size as = (\<Sum>a\<leftarrow>as. case a of Bytes bs \<Rightarrow> Suc (length bs) | _ \<Rightarrow> 1)"

lemma os_take_size:
  assumes "os_take space as = (a, as')" "0 < space" "as \<noteq> []"
  shows "answers_size as' < answers_size as"
proof (cases as)
  case (Cons b bs)
  with assms show ?thesis
    by (cases b) (auto simp: answers_size_def split: if_splits)
qed (use assms in simp)

lemma os_take_nonempty: "os_take space as = (Bytes bs, as') \<Longrightarrow> as \<noteq> []"
  "os_take space as = (RIntr, as') \<Longrightarrow> as \<noteq> []"
  by auto

lemma os_take_room: "os_take space as = (Bytes bs, as') \<Longrightarrow> length bs \<le> space"
  by (cases "(space, as)" rule: os_take.cases) (auto split: if_splits)

text \<open>One call to \<open>write\<close> or \<open>send\<close>: how much of what is offered was taken.\<close>

datatype write_answer = Took nat | WAgain | WIntr | WFailed

fun os_put :: "byte list \<Rightarrow> write_answer list \<Rightarrow> write_answer \<times> write_answer list" where
  "os_put rest [] = (WAgain, [])"
| "os_put rest (Took n # as) = (Took (min n (length rest)), as)"
| "os_put rest (a # as) = (a, as)"

lemma os_put_le: "os_put rest as = (Took n, as') \<Longrightarrow> n \<le> length rest"
  by (cases "(rest, as)" rule: os_put.cases) auto

text \<open>
  One \<open>accept\<close>: a connection and whether its peer is the same user; out of descriptors or
  memory; or any other failure, nothing to accept included.
\<close>

datatype accept_answer = Accepted nat bool | NoRoom | AcceptFailed

type_synonym fd = nat

record os =
  os_clock :: "nat list"
  os_pty_reads :: "read_answer list"
  os_pty_writes :: "write_answer list"
  os_pty_more :: "bool list"
  os_recvs :: "fd \<Rightarrow> read_answer list"
  os_sends :: "fd \<Rightarrow> write_answer list"
  os_accepts :: "accept_answer list"
  os_waits :: "child_exit option list"
  os_pty_log :: "byte list"
  os_sizes :: "term_size list"
  os_sent :: "fd \<Rightarrow> byte list"

text \<open>
  \<open>Instant::now()\<close>, in nanoseconds, the resolution of an \<open>Instant\<close>; the protocol's timeouts are
  in milliseconds.
\<close>

definition millis :: "nat \<Rightarrow> nat" where "millis n = n * 1000000"

definition os_now :: "os \<Rightarrow> nat \<times> os" where
  "os_now w = (case os_clock w of [] \<Rightarrow> (0, w) | t # ts \<Rightarrow> (t, w\<lparr>os_clock := ts\<rparr>))"

subsection \<open>The client\<close>

record outgoing =
  out_bytes :: "byte list"
  out_written :: nat
  out_end :: "nat option"
  out_ack :: bool
  out_welcome :: bool

record segment =
  seg_data :: "byte list"
  seg_written :: nat

record client =
  cl_fd :: fd
  cl_version :: u32
  cl_buf :: "byte list"
  cl_outgoing :: "outgoing list"
  cl_unsent :: nat
  cl_cursor :: "cursor option"
  cl_input :: "segment list"
  cl_input_cost :: nat
  cl_written :: nat
  cl_discarded :: nat
  cl_closing :: bool
  cl_flush :: "nat option"
  cl_gone :: bool

text \<open>\<open>encode_host\<close> where the code relies on it not to panic.\<close>

definition frame_of :: "host_message \<Rightarrow> byte list" where
  "frame_of m = (case encode_host m of Some bytes \<Rightarrow> bytes | None \<Rightarrow> unreachable)"

definition is_welcome :: "host_message \<Rightarrow> bool" where
  "is_welcome m = (case m of Welcome v \<Rightarrow> True | _ \<Rightarrow> False)"

definition new_client :: "fd \<Rightarrow> u32 \<Rightarrow> byte list \<Rightarrow> client" where
  "new_client fd version buf = \<lparr>cl_fd = fd, cl_version = version, cl_buf = buf, cl_outgoing = [],
     cl_unsent = 0, cl_cursor = None, cl_input = [], cl_input_cost = 0, cl_written = 0,
     cl_discarded = 0, cl_closing = False, cl_flush = None, cl_gone = False\<rparr>"

definition push_out :: "byte list \<Rightarrow> nat option \<Rightarrow> bool \<Rightarrow> bool \<Rightarrow> client \<Rightarrow> client" where
  "push_out bytes output_end ack welcome c = c\<lparr>cl_unsent := cl_unsent c + length bytes,
     cl_outgoing := cl_outgoing c @ [\<lparr>out_bytes = bytes, out_written = 0, out_end = output_end,
       out_ack = ack, out_welcome = welcome\<rparr>]\<rparr>"

definition queue :: "host_message \<Rightarrow> client \<Rightarrow> client" where
  "queue m c = (if cl_gone c then c else push_out (frame_of m) None False (is_welcome m) c)"

definition resolve :: "segment \<Rightarrow> client \<Rightarrow> client" where
  "resolve s c =
     (let unwritten = length (seg_data s) - seg_written s in
      c\<lparr>cl_input_cost := cl_input_cost c - (unwritten + INPUT_COST),
        cl_written := cl_written c + seg_written s,
        cl_discarded := cl_discarded c + unwritten\<rparr>)"

definition acknowledge :: "client \<Rightarrow> client" where
  "acknowledge c =
     (if cl_gone c then c
      else
        let bytes = frame_of (InputAck (cl_written c) (cl_discarded c)) in
        if cl_outgoing c \<noteq> [] \<and> out_ack (last (cl_outgoing c))
          \<and> out_written (last (cl_outgoing c)) = 0
        then c\<lparr>cl_outgoing := butlast (cl_outgoing c) @ [(last (cl_outgoing c))\<lparr>out_bytes := bytes\<rparr>]\<rparr>
        else push_out bytes None True False c)"

definition out_left :: "outgoing \<Rightarrow> nat" where
  "out_left out = length (out_bytes out) - out_written out"

definition drop_unstarted :: "client \<Rightarrow> client" where
  "drop_unstarted c =
     (let kept = filter (\<lambda>out. 0 < out_written out \<or> out_welcome out) (cl_outgoing c) in
      c\<lparr>cl_outgoing := kept, cl_unsent := (\<Sum>out\<leftarrow>kept. out_left out)\<rparr>)"

definition end_connection :: "host_message \<Rightarrow> client \<Rightarrow> os \<Rightarrow> client \<times> os" where
  "end_connection m c w =
     (let c1 = drop_unstarted (c\<lparr>cl_input := [], cl_input_cost := 0, cl_cursor := None\<rparr>);
          c2 = queue m c1;
          (now, w') = os_now w
      in (c2\<lparr>cl_closing := True, cl_flush := Some (now + millis GOODBYE_FLUSH)\<rparr>, w'))"

text \<open>How much of what a client sends is buffered: one frame of the greatest length.\<close>

definition RECEIVE_LIMIT :: nat where "RECEIVE_LIMIT = MAX_FRAME + 4"

definition client_events :: "client \<Rightarrow> bool \<times> bool" where
  "client_events c = (\<not> cl_closing c \<and> length (cl_buf c) < RECEIVE_LIMIT, cl_outgoing c \<noteq> [])"

subsection \<open>Receiving\<close>

datatype received = Drained | Full | Ended

function receive :: "nat \<Rightarrow> byte list \<Rightarrow> read_answer list \<Rightarrow> received \<times> byte list \<times> read_answer list" where
  "receive limit buf as =
     (let space = min (limit - length buf) (64 * 1024) in
      if space = 0 then (Full, buf, as)
      else case os_take space as of
        (Bytes bs, as') \<Rightarrow> if bs = [] then (Ended, buf, as') else receive limit (buf @ bs) as'
      | (RAgain, as') \<Rightarrow> (Drained, buf, as')
      | (RIntr, as') \<Rightarrow> receive limit buf as'
      | (RFailed, as') \<Rightarrow> (Ended, buf, as'))"
  by pat_completeness auto
termination
proof (relation "measure (\<lambda>(limit, buf, as). answers_size as)")
  show "((limit, buf @ bs, as'), limit, buf, as) \<in> measure (\<lambda>(limit, buf, as). answers_size as)"
    if "x = min (limit - length buf) (64 * 1024)" "x \<noteq> 0" "(y, as') = os_take x as" "y = Bytes bs"
    for limit buf as x y as' bs
    using that os_take_size [of x as "Bytes bs" as'] os_take_nonempty(1) [of x as bs as'] by simp
  show "((limit, buf, as'), limit, buf, as) \<in> measure (\<lambda>(limit, buf, as). answers_size as)"
    if "x = min (limit - length buf) (64 * 1024)" "x \<noteq> 0" "(y, as') = os_take x as" "y = RIntr"
    for limit buf as x y as'
    using that os_take_size [of x as RIntr as'] os_take_nonempty(2) [of x as as'] by simp
qed simp_all

declare receive.simps [simp del]

definition receive_on :: "fd \<Rightarrow> nat \<Rightarrow> byte list \<Rightarrow> os \<Rightarrow> received \<times> byte list \<times> os" where
  "receive_on fd limit buf w =
     (let (r, buf', as) = receive limit buf (os_recvs w fd) in
      (r, buf', w\<lparr>os_recvs := (os_recvs w)(fd := as)\<rparr>))"

text \<open>One \<open>send\<close>; what is taken is on the wire.\<close>

definition send_on :: "fd \<Rightarrow> byte list \<Rightarrow> os \<Rightarrow> write_answer \<times> os" where
  "send_on fd rest w =
     (let (a, as) = os_put rest (os_sends w fd);
          w' = w\<lparr>os_sends := (os_sends w)(fd := as)\<rparr>
      in case a of
        Took n \<Rightarrow> (a, w'\<lparr>os_sent := (os_sent w')(fd := os_sent w' fd @ take n rest)\<rparr>)
      | _ \<Rightarrow> (a, w'))"

end
