(* ===== verification/Host.thy ===== *)
theory Host
  imports Host_Client
begin

text \<open>
  The event loop of a terminal host (\<^verbatim>\<open>crates/terminal-host/src/host.rs\<close>): one function per
  method of \<open>Host\<close>, each taking the host and the operating system and returning both. An
  iteration is \<open>step\<close>; what \<open>poll\<close> reported is an argument of it.
\<close>

subsection \<open>State\<close>

definition READ_BUDGET :: nat where "READ_BUDGET = 1024 * 1024"

definition ACCEPT_PAUSE :: nat where "ACCEPT_PAUSE = 100"

datatype ending = EndShutdown | EndTerminated

record pending =
  pd_fd :: fd
  pd_buf :: "byte list"
  pd_deadline :: nat

record host =
  ho_pid :: u32
  ho_child :: u32
  ho_tag :: "byte list"
  ho_journal :: journal
  ho_signals :: bool
  ho_pending :: "pending list"
  ho_client :: "client option"
  ho_pty_open :: bool
  ho_child_exit :: "child_exit option"
  ho_draining :: "(child_exit \<times> nat \<times> nat) option"
  ho_delivered :: nat
  ho_accept_paused :: "nat option"
  ho_ended :: "ending option"

definition host_new :: "u32 \<Rightarrow> u32 \<Rightarrow> byte list \<Rightarrow> term_size \<Rightarrow> nat \<Rightarrow> byte list option \<Rightarrow> bool \<Rightarrow> host" where
  "host_new pid child tag sz cap initial signals = \<lparr>ho_pid = pid, ho_child = child, ho_tag = tag,
     ho_journal = journal_new sz cap initial, ho_signals = signals, ho_pending = [],
     ho_client = None, ho_pty_open = True, ho_child_exit = None, ho_draining = None,
     ho_delivered = 0, ho_accept_paused = None, ho_ended = None\<rparr>"

type_synonym 'a run = "host \<Rightarrow> os \<Rightarrow> host \<times> os"

definition on_client :: "(client \<Rightarrow> client) \<Rightarrow> host \<Rightarrow> host" where
  "on_client f h = h\<lparr>ho_client := map_option f (ho_client h)\<rparr>"

definition drop_client :: "host \<Rightarrow> host" where
  "drop_client h = h\<lparr>ho_client := None\<rparr>"

subsection \<open>The pty\<close>

definition take_input :: "client \<Rightarrow> client" where
  "take_input c = (if cl_input c = [] then c
     else acknowledge (fold resolve (cl_input c) (c\<lparr>cl_input := []\<rparr>)))"

definition discard_input :: "host \<Rightarrow> host" where
  "discard_input h = on_client take_input h"

definition end_of_output :: "host \<Rightarrow> host" where
  "end_of_output h = discard_input (h\<lparr>ho_pty_open := False\<rparr>)"

definition output_read :: "byte list \<Rightarrow> host \<Rightarrow> host" where
  "output_read bs h = h\<lparr>ho_journal := push_output bs (ho_journal h),
     ho_draining := map_option (\<lambda>(e, deadline, n). (e, deadline, n + length bs)) (ho_draining h)\<rparr>"

function read_loop :: "nat \<Rightarrow> host \<Rightarrow> os \<Rightarrow> host \<times> os" where
  "read_loop got h w =
     (if READ_BUDGET \<le> got then (h, w)
      else case os_take (64 * 1024) (os_pty_reads w) of
        (Bytes bs, as) \<Rightarrow> if bs = [] then (end_of_output h, w\<lparr>os_pty_reads := as\<rparr>)
          else read_loop (got + length bs) (output_read bs h) (w\<lparr>os_pty_reads := as\<rparr>)
      | (RAgain, as) \<Rightarrow> (h, w\<lparr>os_pty_reads := as\<rparr>)
      | (RIntr, as) \<Rightarrow> read_loop got h (w\<lparr>os_pty_reads := as\<rparr>)
      | (RFailed, as) \<Rightarrow> (end_of_output h, w\<lparr>os_pty_reads := as\<rparr>))"
  by pat_completeness auto
termination
proof (relation "measure (\<lambda>(got, h, w). answers_size (os_pty_reads w))")
  show "((got + length bs, output_read bs h, w\<lparr>os_pty_reads := as\<rparr>), got, h, w)
      \<in> measure (\<lambda>(got, h, w). answers_size (os_pty_reads w))"
    if "(y, as) = os_take (64 * 1024) (os_pty_reads w)" "y = Bytes bs" for got h w y as bs
    using that os_take_size [of "64 * 1024" "os_pty_reads w" "Bytes bs" as]
      os_take_nonempty(1) [of "64 * 1024" "os_pty_reads w" bs as] by simp
  show "((got, h, w\<lparr>os_pty_reads := as\<rparr>), got, h, w)
      \<in> measure (\<lambda>(got, h, w). answers_size (os_pty_reads w))"
    if "(y, as) = os_take (64 * 1024) (os_pty_reads w)" "y = RIntr" for got h w y as
    using that os_take_size [of "64 * 1024" "os_pty_reads w" RIntr as]
      os_take_nonempty(2) [of "64 * 1024" "os_pty_reads w" as] by simp
qed simp_all

declare read_loop.simps [simp del]

definition read_pty :: "host \<Rightarrow> os \<Rightarrow> host \<times> os" where
  "read_pty h w = (if ho_pty_open h then read_loop 0 h w else (h, w))"

text \<open>
  The write loop of \<open>write_input\<close>: the client afterwards, whether an \<open>Input\<close> was written in
  full, and whether the pty refused input for good.
\<close>

function input_loop :: "client \<Rightarrow> os \<Rightarrow> bool \<Rightarrow> client \<times> os \<times> bool \<times> bool" where
  "input_loop c w resolved = (case cl_input c of [] \<Rightarrow> (c, w, resolved, False)
     | seg # segs \<Rightarrow>
         (let rest = drop (seg_written seg) (seg_data seg);
              (a, as) = os_put rest (os_pty_writes w);
              w1 = w\<lparr>os_pty_writes := as\<rparr>
          in case a of
            WAgain \<Rightarrow> (c, w1, resolved, False)
          | WIntr \<Rightarrow> (c, w1, resolved, False)
          | WFailed \<Rightarrow> (c, w1, resolved, True)
          | Took n \<Rightarrow>
              (let w2 = w1\<lparr>os_pty_log := os_pty_log w1 @ take n rest\<rparr>;
                   seg' = seg\<lparr>seg_written := seg_written seg + n\<rparr>;
                   cost = cl_input_cost c - n
               in if seg_written seg' < length (seg_data seg')
                  then (c\<lparr>cl_input := seg' # segs, cl_input_cost := cost\<rparr>, w2, resolved, False)
                  else input_loop (resolve seg' (c\<lparr>cl_input := segs, cl_input_cost := cost\<rparr>)) w2 True)))"
  by pat_completeness auto
termination
  by (relation "measure (\<lambda>(c, w, r). length (cl_input c))") (auto simp: resolve_def Let_def)

declare input_loop.simps [simp del]

definition write_input :: "host \<Rightarrow> os \<Rightarrow> host \<times> os" where
  "write_input h w =
     (if \<not> ho_pty_open h then (discard_input h, w)
      else case ho_client h of None \<Rightarrow> (h, w)
      | Some c \<Rightarrow>
          (let (c', w', resolved, refused) = input_loop c w False in
           if refused then (discard_input (h\<lparr>ho_client := Some c'\<rparr>), w')
           else (h\<lparr>ho_client := Some (if resolved then acknowledge c' else c')\<rparr>, w')))"

subsection \<open>The client's connection\<close>

lemma write_frame_nonempty: "write_frame k ops = Some bs \<Longrightarrow> bs \<noteq> []"
  by (auto simp: write_frame_def w_finish_def split: option.splits if_splits
      dest: arg_cong [of _ _ length])

lemma encode_host_nonempty: "encode_host m = Some bs \<Longrightarrow> 0 < length bs"
  by (cases m) (auto dest: write_frame_nonempty)

lemma split_frame_progress:
  "split_frame buf limit = Inr (Some f) \<Longrightarrow> 0 < f_consumed f \<and> f_consumed f \<le> length buf"
  using split_frame_Some(2,3) [of buf limit f] by simp

definition output_end_of :: "host_message \<Rightarrow> nat option" where
  "output_end_of m = (case m of Output off data \<Rightarrow> Some (off + length data) | _ \<Rightarrow> None)"

function refill_loop :: "journal \<Rightarrow> cursor \<Rightarrow> client \<Rightarrow> client" where
  "refill_loop j cur c =
     (if OUTGOING_HIGH_WATER \<le> cl_unsent c then c\<lparr>cl_cursor := Some cur\<rparr>
      else case journal_next j cur of
        (cur', None) \<Rightarrow> c\<lparr>cl_cursor := Some cur'\<rparr>
      | (cur', Some m) \<Rightarrow>
          (case encode_host m of None \<Rightarrow> unreachable
           | Some bytes \<Rightarrow> refill_loop j cur' (push_out bytes (output_end_of m) False False c)))"
  by pat_completeness auto
termination
  by (relation "measure (\<lambda>(j, cur, c). OUTGOING_HIGH_WATER - cl_unsent c)")
    (auto simp: push_out_def dest!: encode_host_nonempty intro!: diff_less_mono2)

declare refill_loop.simps [simp del]

definition refill_outgoing :: "host \<Rightarrow> host" where
  "refill_outgoing h = (case ho_client h of None \<Rightarrow> h
     | Some c \<Rightarrow> (case cl_cursor c of None \<Rightarrow> h
         | Some cur \<Rightarrow> h\<lparr>ho_client := Some (refill_loop (ho_journal h) cur c)\<rparr>))"

definition refuse_client :: "error_code \<Rightarrow> string \<Rightarrow> host \<Rightarrow> os \<Rightarrow> host \<times> os" where
  "refuse_client code msg h w = (case ho_client h of None \<Rightarrow> (h, w)
     | Some c \<Rightarrow>
         (let (c', w') = end_connection (Error code (map (\<lambda>ch. of_nat (of_char ch)) msg)) c w
          in (h\<lparr>ho_client := Some c'\<rparr>, w')))"

text \<open>\<open>error.to_string()\<close> of a \<open>Malformed\<close>.\<close>

fun malformed_text :: "malformed \<Rightarrow> string" where
  "malformed_text (Malformed what) = ''malformed frame: '' @ what"

definition info_reply :: "host \<Rightarrow> info" where
  "info_reply h =
     \<lparr>i_host_pid = ho_pid h, i_child_pid = ho_child h, i_child_exit = ho_child_exit h,
      i_size = j_size (ho_journal h), i_initial_size = j_initial_size (ho_journal h),
      i_snapshot = j_snapshot (ho_journal h), i_tail_start = offset (j_start (ho_journal h)),
      i_end = j_end (ho_journal h), i_resizes = j_resize_count (ho_journal h),
      i_gap = j_trimmed (ho_journal h), i_delivered_end = ho_delivered h, i_tag = ho_tag h\<rparr>"

definition queue_input :: "byte list \<Rightarrow> client \<Rightarrow> client" where
  "queue_input data c = c\<lparr>cl_input_cost := cl_input_cost c + (length data + INPUT_COST),
     cl_input := cl_input c @ [\<lparr>seg_data = data, seg_written = 0\<rparr>]\<rparr>"

fun handle :: "client_message \<Rightarrow> client \<Rightarrow> host \<Rightarrow> os \<Rightarrow> host \<times> os" where
  "handle (Hello v t) c h w = refuse_client ECNotAllowed ''Hello after Welcome'' h w"
| "handle Info c h w = (h\<lparr>ho_client := Some (queue (InfoReply (info_reply h)) c)\<rparr>, w)"
| "handle (Read p) c h w =
     (if cl_cursor c \<noteq> None then refuse_client ECNotAllowed ''a second Read'' h w
      else (h\<lparr>ho_client := Some (c\<lparr>cl_cursor := Some (read p (ho_journal h))\<rparr>)\<rparr>, w))"
| "handle (Snapshot p blob) c h w =
     (case accept_snapshot p blob (ho_journal h) of
        Inr j \<Rightarrow> (h\<lparr>ho_journal := j, ho_client := Some (queue (SnapshotAccepted p) c)\<rparr>, w)
      | Inl reason \<Rightarrow> (h\<lparr>ho_client := Some (queue (SnapshotRejected p reason) c)\<rparr>, w))"
| "handle (Input data) c h w =
     (if cl_gone c then (h, w) else (h\<lparr>ho_client := Some (queue_input data c)\<rparr>, w))"
| "handle (Resize sz) c h w =
     (h\<lparr>ho_journal := push_resize sz (ho_journal h)\<rparr>, w\<lparr>os_sizes := os_sizes w @ [sz]\<rparr>)"
| "handle Shutdown c h w =
     (let (c', w') = end_connection Goodbye c w in
      (h\<lparr>ho_client := Some c', ho_pending := [], ho_ended := Some EndShutdown\<rparr>, w'))"

text \<open>Whether a frame is held back by a bound.\<close>

definition held :: "client_message \<Rightarrow> client \<Rightarrow> bool" where
  "held m c = (case m of Input data \<Rightarrow> \<not> cl_gone c
      \<and> MAX_PENDING_INPUT < cl_input_cost c + length data + INPUT_COST
    | _ \<Rightarrow> False)"

definition stalled :: "client \<Rightarrow> bool" where
  "stalled c \<longleftrightarrow> cl_closing c \<or> (\<not> cl_gone c \<and> OUTGOING_HIGH_WATER < cl_unsent c)"

text \<open>The loop of \<open>act_on_buffered\<close>, over what is left of the buffer.\<close>

function act_loop :: "byte list \<Rightarrow> host \<Rightarrow> os \<Rightarrow> byte list \<times> host \<times> os" where
  "act_loop rest h w = (case ho_client h of None \<Rightarrow> (rest, h, w)
     | Some c \<Rightarrow>
         if stalled c then (rest, h, w)
         else case split_frame rest MAX_FRAME of
           Inr None \<Rightarrow> (rest, h, w)
         | Inl e \<Rightarrow> (rest, refuse_client ECMalformed (malformed_text e) h w)
         | Inr (Some f) \<Rightarrow>
             (case decode_client f (cl_version c) of
                Inl e \<Rightarrow> (rest, refuse_client ECMalformed (malformed_text e) h w)
              | Inr m \<Rightarrow> if held m c then (rest, h, w)
                  else let (h', w') = handle m c h w in act_loop (drop (f_consumed f) rest) h' w'))"
  by pat_completeness auto
termination
  by (relation "measure (\<lambda>(rest, h, w). length rest)") (auto dest!: split_frame_progress)

declare act_loop.simps [simp del]

definition act_on_buffered :: "host \<Rightarrow> os \<Rightarrow> host \<times> os" where
  "act_on_buffered h w = (case ho_client h of None \<Rightarrow> (h, w)
     | Some c \<Rightarrow>
         (let (rest, h', w') = act_loop (cl_buf c) h w in
          (on_client (\<lambda>c. c\<lparr>cl_buf := rest\<rparr>) h', w')))"

text \<open>The end of a connection: act on everything it sent, queue nothing, drop it.\<close>

definition mark_gone :: "client \<Rightarrow> client" where
  "mark_gone c = c\<lparr>cl_gone := True, cl_input := [], cl_input_cost := 0, cl_outgoing := [],
     cl_unsent := 0\<rparr>"

definition last_read :: "host \<Rightarrow> os \<Rightarrow> host \<times> os" where
  "last_read h w = (case ho_client h of None \<Rightarrow> (h, w)
     | Some c \<Rightarrow> if cl_closing c then (h, w)
         else let (r, buf, w') = receive_on (cl_fd c) (length (cl_buf c) + RECEIVE_LIMIT) (cl_buf c) w
              in act_on_buffered (h\<lparr>ho_client := Some (c\<lparr>cl_buf := buf\<rparr>)\<rparr>) w')"

definition close_client :: "host \<Rightarrow> os \<Rightarrow> host \<times> os" where
  "close_client h w = (case ho_client h of None \<Rightarrow> (h, w)
     | Some c \<Rightarrow>
         (let (h1, w1) = act_on_buffered (h\<lparr>ho_client := Some (mark_gone c)\<rparr>) w;
              (h2, w2) = last_read h1 w1
          in (drop_client h2, w2)))"

text \<open>The send loop of \<open>write_client\<close>: the client, the delivered end, and whether it failed.\<close>

function send_loop :: "client \<Rightarrow> nat \<Rightarrow> os \<Rightarrow> client \<times> nat \<times> os \<times> bool" where
  "send_loop c delivered w = (case cl_outgoing c of [] \<Rightarrow> (c, delivered, w, False)
     | out # outs \<Rightarrow>
         (case send_on (cl_fd c) (drop (out_written out) (out_bytes out)) w of
            (Took n, w') \<Rightarrow>
              (let out' = out\<lparr>out_written := out_written out + n\<rparr>;
                   unsent = cl_unsent c - n
               in if out_written out' < length (out_bytes out')
                  then (c\<lparr>cl_outgoing := out' # outs, cl_unsent := unsent\<rparr>, delivered, w', False)
                  else send_loop (c\<lparr>cl_outgoing := outs, cl_unsent := unsent\<rparr>)
                    (case out_end out of None \<Rightarrow> delivered | Some e \<Rightarrow> max delivered e) w')
          | (WAgain, w') \<Rightarrow> (c, delivered, w', False)
          | (WIntr, w') \<Rightarrow> (c, delivered, w', False)
          | (WFailed, w') \<Rightarrow> (c, delivered, w', True)))"
  by pat_completeness auto
termination
  by (relation "measure (\<lambda>(c, d, w). length (cl_outgoing c))") auto

declare send_loop.simps [simp del]

definition write_client :: "host \<Rightarrow> os \<Rightarrow> host \<times> os" where
  "write_client h w = (case ho_client h of None \<Rightarrow> (h, w)
     | Some c \<Rightarrow>
         (let (c', delivered, w', failed) = send_loop c (ho_delivered h) w;
              h' = h\<lparr>ho_client := Some c', ho_delivered := delivered\<rparr>
          in if failed then close_client h' w'
             else if cl_closing c' \<and> cl_outgoing c' = [] then (drop_client h', w')
             else (h', w')))"

definition read_client :: "host \<Rightarrow> os \<Rightarrow> host \<times> os" where
  "read_client h w = (case ho_client h of None \<Rightarrow> (h, w)
     | Some c \<Rightarrow>
         (let (r, buf, w') = receive_on (cl_fd c) RECEIVE_LIMIT (cl_buf c) w;
              h' = h\<lparr>ho_client := Some (c\<lparr>cl_buf := buf\<rparr>)\<rparr>
          in if r = Ended then close_client h' w' else act_on_buffered h' w'))"

subsection \<open>Connections waiting for their Hello\<close>

definition next_accept :: "os \<Rightarrow> accept_answer \<times> os" where
  "next_accept w = (case os_accepts w of [] \<Rightarrow> (AcceptFailed, w)
     | a # as \<Rightarrow> (a, w\<lparr>os_accepts := as\<rparr>))"

fun accept_loop :: "nat \<Rightarrow> host \<Rightarrow> os \<Rightarrow> host \<times> os" where
  "accept_loop 0 h w = (h, w)"
| "accept_loop (Suc n) h w = (case next_accept w of
     (NoRoom, w') \<Rightarrow>
       (let (now, w2) = os_now w' in (h\<lparr>ho_accept_paused := Some (now + millis ACCEPT_PAUSE)\<rparr>, w2))
   | (AcceptFailed, w') \<Rightarrow> (h, w')
   | (Accepted fd same_user, w') \<Rightarrow>
       if \<not> same_user then accept_loop n h w'
       else
         let waiting = (if MAX_PENDING_CONNECTIONS \<le> length (ho_pending h)
               then tl (ho_pending h) else ho_pending h);
             (now, w2) = os_now w'
         in accept_loop n (h\<lparr>ho_pending := waiting @ [\<lparr>pd_fd = fd, pd_buf = [],
              pd_deadline = now + millis HELLO_TIMEOUT\<rparr>]\<rparr>) w2)"

definition accept :: "host \<Rightarrow> os \<Rightarrow> host \<times> os" where
  "accept h w = accept_loop MAX_PENDING_CONNECTIONS h w"

definition expire_pending :: "host \<Rightarrow> os \<Rightarrow> host \<times> os" where
  "expire_pending h w =
     (let (now, w') = os_now w in
      (h\<lparr>ho_pending := filter (\<lambda>p. now < pd_deadline p) (ho_pending h)\<rparr>, w'))"

definition remove_nth :: "nat \<Rightarrow> 'a list \<Rightarrow> 'a list" where
  "remove_nth i xs = take i xs @ drop (Suc i) xs"

definition promote :: "pending \<Rightarrow> u32 \<Rightarrow> byte list \<Rightarrow> received \<Rightarrow> host \<Rightarrow> os \<Rightarrow> host \<times> os" where
  "promote pd version rest outcome h w =
     (let v = min version PROTOCOL_VERSION;
          c = queue (Welcome v) (new_client (pd_fd pd) v rest);
          h' = (drop_client h)\<lparr>ho_client := Some c\<rparr>
      in if outcome = Ended then close_client h' w else act_on_buffered h' w)"

definition read_pending :: "nat \<Rightarrow> host \<Rightarrow> os \<Rightarrow> host \<times> os" where
  "read_pending i h w =
     (if length (ho_pending h) \<le> i then unreachable
      else
        let pd = ho_pending h ! i;
            (outcome, buf, w1) = receive_on (pd_fd pd) MAX_BEFORE_HELLO (pd_buf pd) w;
            kept = h\<lparr>ho_pending := (ho_pending h)[i := pd\<lparr>pd_buf := buf\<rparr>]\<rparr>;
            gone = h\<lparr>ho_pending := remove_nth i (ho_pending h)\<rparr>
        in case split_frame buf MAX_FRAME of
          Inr None \<Rightarrow> (if outcome \<noteq> Drained then gone else kept, w1)
        | Inl e \<Rightarrow> (gone, w1)
        | Inr (Some f) \<Rightarrow>
            (case decode_client f PROTOCOL_VERSION of
               Inr (Hello version take_over) \<Rightarrow>
                 if version = 0 then
                   (gone, snd (send_on (pd_fd pd)
                     (frame_of (Error ECUnsupportedVersion (map (\<lambda>ch. of_nat (of_char ch)) ''version 0''))) w1))
                 else if ho_client h \<noteq> None \<and> \<not> take_over then
                   (gone, snd (send_on (pd_fd pd) (frame_of Busy) w1))
                 else promote pd version (drop (f_consumed f) buf) outcome gone w1
             | _ \<Rightarrow> (gone, w1)))"

subsection \<open>The child's exit\<close>

definition reap_child :: "host \<Rightarrow> os \<Rightarrow> host \<times> os" where
  "reap_child h w =
     (if ho_child_exit h \<noteq> None then (h, w)
      else case os_waits w of
        [] \<Rightarrow> (h, w)
      | None # ws \<Rightarrow> (h, w\<lparr>os_waits := ws\<rparr>)
      | Some e # ws \<Rightarrow>
          (let (now, w') = os_now (w\<lparr>os_waits := ws\<rparr>) in
           read_pty (h\<lparr>ho_child_exit := Some e,
             ho_draining := Some (e, now + millis EXIT_DRAIN_TIME, 0)\<rparr>) w'))"

definition pty_has_more :: "host \<Rightarrow> os \<Rightarrow> bool \<times> os" where
  "pty_has_more h w =
     (if \<not> ho_pty_open h then (False, w)
      else case os_pty_more w of [] \<Rightarrow> (False, w) | b # bs \<Rightarrow> (b, w\<lparr>os_pty_more := bs\<rparr>))"

definition finish_drain :: "host \<Rightarrow> os \<Rightarrow> host \<times> os" where
  "finish_drain h w = (case ho_draining h of None \<Rightarrow> (h, w)
     | Some (e, deadline, n) \<Rightarrow>
         (let (more, w1) = pty_has_more h w;
              (over, w2) = (if more then let (now, w') = os_now w1 in (deadline \<le> now, w')
                else (True, w1))
          in if over \<or> EXIT_DRAIN_BYTES \<le> n
             then (h\<lparr>ho_journal := push_exit e (ho_journal h), ho_draining := None\<rparr>, w2)
             else (h, w2)))"

subsection \<open>One iteration\<close>

text \<open>What \<open>poll\<close> reported: for the pty, the client and each waiting connection.\<close>

record poll =
  po_failed :: bool
  po_pty_in :: bool
  po_pty_out :: bool
  po_client_out :: bool
  po_client_hup :: bool
  po_client_in :: bool
  po_pending :: "bool list"
  po_listener :: bool

definition poll_timeout :: "host \<Rightarrow> nat \<Rightarrow> nat option" where
  "poll_timeout h now =
     (let deadlines = map pd_deadline (ho_pending h)
            @ (case ho_draining h of Some (e, deadline, n) \<Rightarrow> [deadline] | None \<Rightarrow> [])
            @ (case ho_client h of Some c \<Rightarrow> (case cl_flush c of Some d \<Rightarrow> [d] | None \<Rightarrow> []) | None \<Rightarrow> [])
            @ (case ho_accept_paused h of Some t \<Rightarrow> [t] | None \<Rightarrow> []);
          timeout = (if deadlines = [] then None
            else Some (min (((Min (set deadlines) - now) div 1000 + 999) div 1000) 60000))
      in if \<not> ho_signals h \<and> ho_child_exit h = None
         then Some (case timeout of None \<Rightarrow> 20 | Some t \<Rightarrow> min t 20) else timeout)"

definition flush_overdue :: "host \<Rightarrow> os \<Rightarrow> host \<times> os" where
  "flush_overdue h w = (case ho_client h of None \<Rightarrow> (h, w)
     | Some c \<Rightarrow> (case cl_flush c of None \<Rightarrow> (h, w)
         | Some deadline \<Rightarrow>
             (let (now, w') = os_now w in (if deadline \<le> now then drop_client h else h, w'))))"

definition all_flushed :: "host \<Rightarrow> bool" where
  "all_flushed h = (case ho_client h of None \<Rightarrow> True | Some c \<Rightarrow> cl_outgoing c = [])"

definition resume_accept :: "host \<Rightarrow> os \<Rightarrow> host \<times> os" where
  "resume_accept h w = (case ho_accept_paused h of None \<Rightarrow> (h, w)
     | Some until \<Rightarrow>
         (let (now, w') = os_now w in
          (if until \<le> now then h\<lparr>ho_accept_paused := None\<rparr> else h, w')))"

definition has_input :: "host \<Rightarrow> bool" where
  "has_input h = (case ho_client h of None \<Rightarrow> False | Some c \<Rightarrow> cl_input c \<noteq> [])"

definition serve_pty :: "bool \<Rightarrow> bool \<Rightarrow> host \<Rightarrow> os \<Rightarrow> host \<times> os" where
  "serve_pty can_read can_write h w =
     (let (h1, w1) = (if can_read then read_pty h w else (h, w))
      in if can_write then write_input h1 w1 else (h1, w1))"

definition serve_client :: "bool \<Rightarrow> bool \<Rightarrow> bool \<Rightarrow> host \<Rightarrow> os \<Rightarrow> host \<times> os" where
  "serve_client can_write hup can_read h w =
     (let (h1, w1) = (if can_write then write_client h w else (h, w))
      in if hup then close_client h1 w1 else if can_read then read_client h1 w1 else (h1, w1))"

text \<open>The waiting connections that poll reported, from the last to the first.\<close>

fun serve_pending :: "nat \<Rightarrow> bool list \<Rightarrow> host \<Rightarrow> os \<Rightarrow> host \<times> os" where
  "serve_pending 0 evs h w = (h, w)"
| "serve_pending (Suc i) evs h w =
     (if ho_ended h \<noteq> None then (h, w)
      else
        let (h1, w1) = (if i < length evs \<and> evs ! i then read_pending i h w else (h, w))
        in serve_pending i evs h1 w1)"

definition serve :: "poll \<Rightarrow> host \<Rightarrow> os \<Rightarrow> host \<times> os" where
  "serve po h w =
     (let listening = (ho_ended h = None \<and> ho_accept_paused h = None);
          pty = ho_pty_open h;
          pty_out = (pty \<and> has_input h);
          (ev_in, ev_out) = (case ho_client h of None \<Rightarrow> (False, False) | Some c \<Rightarrow> client_events c);
          client = (ev_in \<or> ev_out);
          waiting = length (ho_pending h);
          (h1, w1) = reap_child h w;
          (h2, w2) = serve_pty (pty \<and> po_pty_in po) (pty_out \<and> po_pty_out po) h1 w1;
          (h3, w3) = finish_drain h2 w2;
          (h4, w4) = serve_client (ev_out \<and> po_client_out po) (client \<and> po_client_hup po)
            (ev_in \<and> po_client_in po) h3 w3;
          (h5, w5) = serve_pending waiting (po_pending po) h4 w4;
          (h6, w6) = expire_pending h5 w5;
          (h7, w7) = (if listening \<and> ho_ended h6 = None \<and> po_listener po then accept h6 w6 else (h6, w6));
          (h8, w8) = (if has_input h7 then write_input h7 w7 else (h7, w7));
          (h9, w9) = act_on_buffered h8 w8
      in (refill_outgoing h9, w9))"

definition step :: "bool \<Rightarrow> poll \<Rightarrow> host \<Rightarrow> os \<Rightarrow> ending option \<times> host \<times> os" where
  "step terminated po h w =
     (if terminated \<and> ho_signals h then (Some EndTerminated, h, w)
      else
        let (h1, w1) = flush_overdue h w in
        if ho_ended h1 \<noteq> None \<and> all_flushed h1 then (ho_ended h1, h1, w1)
        else
          let (h2, w2) = resume_accept (refill_outgoing h1) w1 in
          if po_failed po then (None, h2, w2)
          else let (h3, w3) = serve po h2 w2 in (None, h3, w3))"

end
