(* ===== verification/Client_Inv.thy ===== *)
theory Client_Inv
  imports Host "HOL-Library.Sublist"
begin

text \<open>
  Invariants of the connected client: the byte and cost counters of its queues are exact, only
  the first queued frame may be partly sent, acknowledgements do not pile up, and what went out
  on the connection is a sequence of whole frames and a part of the next.
\<close>

subsection \<open>Input accounting\<close>

definition seg_cost :: "segment \<Rightarrow> nat" where
  "seg_cost s = length (seg_data s) - seg_written s + INPUT_COST"

definition input_ok :: "client \<Rightarrow> bool" where
  "input_ok c \<longleftrightarrow> cl_input_cost c = (\<Sum>s\<leftarrow>cl_input c. seg_cost s)
     \<and> cl_input_cost c \<le> MAX_PENDING_INPUT
     \<and> (\<forall>s\<in>set (cl_input c). seg_written s < length (seg_data s))"

lemma input_ok_empty: "cl_input c = [] \<Longrightarrow> cl_input_cost c = 0 \<Longrightarrow> input_ok c"
  by (simp add: input_ok_def)

lemma resolve_sel [simp]:
  "cl_input (resolve s c) = cl_input c" "cl_outgoing (resolve s c) = cl_outgoing c"
  "cl_unsent (resolve s c) = cl_unsent c" "cl_fd (resolve s c) = cl_fd c"
  "cl_gone (resolve s c) = cl_gone c" "cl_closing (resolve s c) = cl_closing c"
  "cl_cursor (resolve s c) = cl_cursor c" "cl_buf (resolve s c) = cl_buf c"
  "cl_version (resolve s c) = cl_version c" "cl_flush (resolve s c) = cl_flush c"
  "cl_written (resolve s c) = cl_written c + seg_written s"
  "cl_discarded (resolve s c) = cl_discarded c + (length (seg_data s) - seg_written s)"
  "cl_input_cost (resolve s c) = cl_input_cost c - seg_cost s"
  by (simp_all add: resolve_def Let_def seg_cost_def)

lemma push_out_sel [simp]:
  "cl_input (push_out b e a v c) = cl_input c" "cl_input_cost (push_out b e a v c) = cl_input_cost c"
  "cl_fd (push_out b e a v c) = cl_fd c" "cl_gone (push_out b e a v c) = cl_gone c"
  "cl_closing (push_out b e a v c) = cl_closing c" "cl_cursor (push_out b e a v c) = cl_cursor c"
  "cl_buf (push_out b e a v c) = cl_buf c" "cl_version (push_out b e a v c) = cl_version c"
  "cl_flush (push_out b e a v c) = cl_flush c" "cl_written (push_out b e a v c) = cl_written c"
  "cl_discarded (push_out b e a v c) = cl_discarded c"
  by (simp_all add: push_out_def)

lemma queue_sel [simp]:
  "cl_input (queue m c) = cl_input c" "cl_input_cost (queue m c) = cl_input_cost c"
  "cl_fd (queue m c) = cl_fd c" "cl_gone (queue m c) = cl_gone c"
  "cl_closing (queue m c) = cl_closing c" "cl_cursor (queue m c) = cl_cursor c"
  "cl_buf (queue m c) = cl_buf c" "cl_version (queue m c) = cl_version c"
  "cl_flush (queue m c) = cl_flush c" "cl_written (queue m c) = cl_written c"
  "cl_discarded (queue m c) = cl_discarded c"
  by (simp_all add: queue_def)

lemma acknowledge_sel [simp]:
  "cl_input (acknowledge c) = cl_input c" "cl_input_cost (acknowledge c) = cl_input_cost c"
  "cl_fd (acknowledge c) = cl_fd c" "cl_gone (acknowledge c) = cl_gone c"
  "cl_closing (acknowledge c) = cl_closing c" "cl_cursor (acknowledge c) = cl_cursor c"
  "cl_buf (acknowledge c) = cl_buf c" "cl_version (acknowledge c) = cl_version c"
  "cl_flush (acknowledge c) = cl_flush c" "cl_written (acknowledge c) = cl_written c"
  "cl_discarded (acknowledge c) = cl_discarded c"
  by (simp_all add: acknowledge_def Let_def)

lemma fold_resolve_sel [simp]:
  "cl_input (fold resolve ss c) = cl_input c" "cl_outgoing (fold resolve ss c) = cl_outgoing c"
  "cl_unsent (fold resolve ss c) = cl_unsent c" "cl_fd (fold resolve ss c) = cl_fd c"
  "cl_gone (fold resolve ss c) = cl_gone c" "cl_closing (fold resolve ss c) = cl_closing c"
  "cl_cursor (fold resolve ss c) = cl_cursor c" "cl_buf (fold resolve ss c) = cl_buf c"
  "cl_version (fold resolve ss c) = cl_version c" "cl_flush (fold resolve ss c) = cl_flush c"
  "cl_written (fold resolve ss c) = cl_written c + (\<Sum>s\<leftarrow>ss. seg_written s)"
  "cl_discarded (fold resolve ss c) = cl_discarded c + (\<Sum>s\<leftarrow>ss. length (seg_data s) - seg_written s)"
  "cl_input_cost (fold resolve ss c) = cl_input_cost c - (\<Sum>s\<leftarrow>ss. seg_cost s)"
  by (induction ss arbitrary: c) simp_all

lemma take_input_sel [simp]:
  "cl_input (take_input c) = []" "cl_fd (take_input c) = cl_fd c"
  "cl_gone (take_input c) = cl_gone c" "cl_closing (take_input c) = cl_closing c"
  "cl_cursor (take_input c) = cl_cursor c" "cl_buf (take_input c) = cl_buf c"
  "cl_version (take_input c) = cl_version c" "cl_flush (take_input c) = cl_flush c"
  by (simp_all add: take_input_def)

lemma take_input_ok: "input_ok c \<Longrightarrow> input_ok (take_input c)"
  by (auto simp: take_input_def input_ok_def)

lemma queue_input_ok:
  "input_ok c \<Longrightarrow> \<not> held (Input data) c \<Longrightarrow> \<not> cl_gone c \<Longrightarrow> data \<noteq> [] \<Longrightarrow> input_ok (queue_input data c)"
  by (simp add: input_ok_def queue_input_def held_def seg_cost_def)

text \<open>
  What the write loop does: a prefix of the pending input reaches the pty, exactly the rest stays
  pending, and the totals grow by what was written in full.
\<close>

definition pending_bytes :: "client \<Rightarrow> byte list" where
  "pending_bytes c = concat (map (\<lambda>s. drop (seg_written s) (seg_data s)) (cl_input c))"

definition started_bytes :: "client \<Rightarrow> nat" where
  "started_bytes c = (\<Sum>s\<leftarrow>cl_input c. seg_written s)"

text \<open>The same of \<open>resolve\<close> for a segment written in full.\<close>

lemma resolved_front:
  assumes "input_ok c" "cl_input c = seg # segs" "n = length (seg_data seg) - seg_written seg"
  shows "input_ok (resolve (seg\<lparr>seg_written := seg_written seg + n\<rparr>)
    (c\<lparr>cl_input := segs, cl_input_cost := cl_input_cost c - n\<rparr>))"
  using assms by (auto simp: input_ok_def seg_cost_def)

lemma written_part:
  assumes "input_ok c" "cl_input c = seg # segs" "seg_written seg + n < length (seg_data seg)"
  shows "input_ok (c\<lparr>cl_input := seg\<lparr>seg_written := seg_written seg + n\<rparr> # segs,
    cl_input_cost := cl_input_cost c - n\<rparr>)"
  using assms by (auto simp: input_ok_def seg_cost_def)

definition input_done :: "client \<Rightarrow> os \<Rightarrow> client \<Rightarrow> os \<Rightarrow> bool" where
  "input_done c w c' w' \<longleftrightarrow> (\<exists>out. os_pty_log w' = os_pty_log w @ out
     \<and> pending_bytes c = out @ pending_bytes c'
     \<and> cl_written c' + started_bytes c' = cl_written c + started_bytes c + length out)
     \<and> cl_discarded c' = cl_discarded c"

text \<open>What the loop leaves alone.\<close>

definition same_connection :: "client \<Rightarrow> client \<Rightarrow> bool" where
  "same_connection c c' \<longleftrightarrow> cl_fd c' = cl_fd c \<and> cl_version c' = cl_version c \<and> cl_buf c' = cl_buf c
     \<and> cl_cursor c' = cl_cursor c \<and> cl_closing c' = cl_closing c \<and> cl_flush c' = cl_flush c
     \<and> cl_gone c' = cl_gone c"

lemma input_loop_ok:
  "input_loop c w r = (c', w', r', f) \<Longrightarrow> input_ok c \<Longrightarrow>
    input_ok c' \<and> input_done c w c' w' \<and> same_connection c c' \<and> cl_outgoing c' = cl_outgoing c
      \<and> cl_unsent c' = cl_unsent c \<and> os_sent w' = os_sent w
      \<and> os_accepts w' = os_accepts w \<and> (f \<longrightarrow> cl_input c' \<noteq> [])
      \<and> length (cl_input c') \<le> length (cl_input c)
      \<and> (r' \<longleftrightarrow> r \<or> length (cl_input c') < length (cl_input c))"
proof (induction c w r rule: input_loop.induct)
  case (1 c w r)
  note loop = "1.prems"(1) [unfolded input_loop.simps [of c w r]]
  have stay: "input_done c w c (w\<lparr>os_pty_writes := as\<rparr>)" "same_connection c c" "input_done c w c w" for as
    by (simp_all add: input_done_def same_connection_def)
  show ?case
  proof (cases "cl_input c")
    case Nil
    with loop stay "1.prems"(2) show ?thesis by auto
  next
    case (Cons seg segs)
    define rest where "rest = drop (seg_written seg) (seg_data seg)"
    obtain a as where put: "os_put rest (os_pty_writes w) = (a, as)" by fastforce
    note loop = loop [unfolded Cons list.case rest_def [symmetric] put Let_def prod.case]
    show ?thesis
    proof (cases a)
      case (Took n)
      have n: "n \<le> length rest" using os_put_le put Took by blast
      let ?w1 = "w\<lparr>os_pty_writes := as\<rparr>"
      let ?w = "?w1\<lparr>os_pty_log := os_pty_log ?w1 @ take n rest\<rparr>"
      let ?seg = "seg\<lparr>seg_written := seg_written seg + n\<rparr>"
      have bytes: "drop (seg_written ?seg) (seg_data ?seg) = drop n rest"
        by (simp add: rest_def add.commute)
      show ?thesis
      proof (cases "seg_written ?seg < length (seg_data ?seg)")
        case True
        let ?c = "c\<lparr>cl_input := ?seg # segs, cl_input_cost := cl_input_cost c - n\<rparr>"
        have "c' = ?c" "w' = ?w" "r' = r" "\<not> f" using loop True by (auto simp: Took)
        moreover have "input_done c w ?c ?w"
        proof -
          let ?more = "concat (map (\<lambda>s. drop (seg_written s) (seg_data s)) segs)"
          have "pending_bytes c = rest @ ?more" "pending_bytes ?c = drop n rest @ ?more"
            using bytes by (simp_all add: pending_bytes_def Cons rest_def)
          then have "pending_bytes c = take n rest @ pending_bytes ?c" by simp
          moreover have "started_bytes ?c = started_bytes c + n"
            by (simp add: started_bytes_def Cons)
          ultimately show ?thesis using n by (simp add: input_done_def)
        qed
        ultimately show ?thesis
          using written_part [OF "1.prems"(2) Cons, of n] True Cons
          by (simp add: same_connection_def)
      next
        case False
        then have full: "n = length (seg_data seg) - seg_written seg"
          using n by (simp add: rest_def)
        let ?c = "resolve ?seg (c\<lparr>cl_input := segs, cl_input_cost := cl_input_cost c - n\<rparr>)"
        have lt: "seg_written seg < length (seg_data seg)"
          using "1.prems"(2) Cons by (simp add: input_ok_def)
        have "input_loop ?c ?w True = (c', w', r', f)" using loop False by (simp add: Took)
        from "1.IH" [OF Cons rest_def refl put [symmetric] refl Took refl refl refl False this
            resolved_front [OF "1.prems"(2) Cons full]]
        have IH: "input_ok c'" "input_done ?c ?w c' w'" "same_connection ?c c'"
          "cl_outgoing c' = cl_outgoing c" "cl_unsent c' = cl_unsent c" "os_sent w' = os_sent w"
          "os_accepts w' = os_accepts w" "f \<longrightarrow> cl_input c' \<noteq> []" "r'"
          "length (cl_input c') \<le> length segs"
          by auto
        have "input_done c w ?c ?w"
          using Cons full lt by (auto simp: input_done_def pending_bytes_def started_bytes_def rest_def)
        then have "input_done c w c' w'"
          using IH(2) unfolding input_done_def by auto
        moreover have "same_connection c c'" using IH(3) by (simp add: same_connection_def)
        ultimately show ?thesis using IH Cons by simp
      qed
    qed (use loop stay "1.prems"(2) Cons in auto)
  qed
qed

end
