(* ===== verification/Client_Wire.thy ===== *)
theory Client_Wire
  imports Client_Inv
begin

text \<open>
  The outgoing queue of a client against the bytes its connection was sent: what went out is
  always a sequence of whole frames followed by the started part of the first queued one.
\<close>

subsection \<open>Frames\<close>

text \<open>The messages whose data is within the limits: the encoder cannot fail on them.\<close>

fun fits :: "host_message \<Rightarrow> bool" where
  "fits (InfoReply i) \<longleftrightarrow> length (i_tag i) \<le> MAX_TAG"
| "fits (SnapshotRecord p b) \<longleftrightarrow> length b \<le> MAX_SNAPSHOT"
| "fits (Output off d) \<longleftrightarrow> d \<noteq> [] \<and> length d \<le> MAX_OUTPUT_CHUNK"
| "fits _ \<longleftrightarrow> True"

lemma fits_encode:
  "fits m \<Longrightarrow> \<exists>body. encode_host m = Some (frame_bytes (host_kind m) body) \<and> Suc (length body) \<le> MAX_FRAME"
proof (cases m)
  case (Error c t)
  let ?body = "put_u16 (error_code_value c) @ put_bytes (error_text t)"
  have "Suc (length ?body) \<le> MAX_FRAME" using length_error_text [of t] by (simp add: limits)
  moreover have "encode_host m = Some (frame_bytes (host_kind m) ?body)"
    using Error length_error_text [of t]
    by (auto intro!: write_frame_eq simp: limits simp del: kind_ERROR_def)
  ultimately show ?thesis by blast
qed (rule exI [of _ "host_body m"], auto intro!: write_frame_eq simp: limits put_info_def
      put_child_exit_def
      simp del: kind_WELCOME_def kind_BUSY_def kind_INFO_REPLY_def kind_SNAPSHOT_RECORD_def
        kind_OUTPUT_def kind_RESIZED_def kind_GAP_def kind_EXITED_def kind_SNAPSHOT_ACCEPTED_def
        kind_SNAPSHOT_REJECTED_def kind_INPUT_ACK_def kind_ERROR_def kind_GOODBYE_def
      split: option.split)+

lemma fits_frame:
  assumes "fits m"
  shows "encode_host m = Some (frame_of m)" "0 < length (frame_of m)" "length (frame_of m) \<le> MAX_FRAME + 4"
proof -
  from fits_encode [OF assms] obtain body where b: "encode_host m = Some (frame_bytes (host_kind m) body)"
    "Suc (length body) \<le> MAX_FRAME" by blast
  then show "encode_host m = Some (frame_of m)" by (simp add: frame_of_def)
  have "length (frame_of m) = 5 + length body" using b(1) by (simp add: frame_of_def)
  then show "0 < length (frame_of m)" "length (frame_of m) \<le> MAX_FRAME + 4" using b(2) by simp_all
qed

definition frames :: "host_message list \<Rightarrow> byte list" where
  "frames ms = concat (map frame_of ms)"

lemma frames_simps [simp]: "frames [] = []" "frames (m # ms) = frame_of m @ frames ms"
  "frames (xs @ ys) = frames xs @ frames ys"
  by (simp_all add: frames_def)

definition is_ack :: "host_message \<Rightarrow> bool" where
  "is_ack m = (case m of InputAck a b \<Rightarrow> True | _ \<Rightarrow> False)"

text \<open>The first message of a connection.\<close>

definition opens :: "host_message \<Rightarrow> bool" where
  "opens m = (case m of Welcome v \<Rightarrow> True | Busy \<Rightarrow> True | Error c t \<Rightarrow> True | _ \<Rightarrow> False)"

text \<open>What any connection was ever sent: a prefix of whole frames, opened as the protocol says.\<close>

definition clean :: "byte list \<Rightarrow> bool" where
  "clean bs \<longleftrightarrow> (\<exists>ms. (\<forall>m\<in>set ms. fits m) \<and> (ms = [] \<or> opens (hd ms)) \<and> prefix bs (frames ms))"

lemma clean_Nil [simp]: "clean []"
  by (auto simp: clean_def intro!: exI [of _ "[]"])

subsection \<open>The queue\<close>

definition out_frame :: "outgoing \<Rightarrow> bool" where
  "out_frame out \<longleftrightarrow> out_written out < length (out_bytes out)
     \<and> (\<exists>m. fits m \<and> out_bytes out = frame_of m \<and> out_welcome out = is_welcome m
          \<and> out_ack out = is_ack m \<and> out_end out = output_end_of m)"

fun acks_ok :: "outgoing list \<Rightarrow> bool" where
  "acks_ok (o1 # o2 # os) \<longleftrightarrow> (out_ack o1 \<and> out_ack o2 \<longrightarrow> 0 < out_written o1) \<and> acks_ok (o2 # os)"
| "acks_ok _ \<longleftrightarrow> True"

lemma acks_ok_snoc:
  "acks_ok (os @ [out]) \<longleftrightarrow> acks_ok os
     \<and> (os \<noteq> [] \<longrightarrow> out_ack (last os) \<and> out_ack out \<longrightarrow> 0 < out_written (last os))"
  by (induction os rule: acks_ok.induct) auto

lemma acks_ok_tl: "acks_ok (o1 # os) \<Longrightarrow> acks_ok os"
  by (cases os) auto

definition queue_ok :: "client \<Rightarrow> bool" where
  "queue_ok c \<longleftrightarrow> cl_unsent c = (\<Sum>out\<leftarrow>cl_outgoing c. out_left out)
     \<and> (\<forall>out\<in>set (cl_outgoing c). out_frame out)
     \<and> (\<forall>out\<in>set (tl (cl_outgoing c)). out_written out = 0 \<and> \<not> out_welcome out)
     \<and> acks_ok (cl_outgoing c)"

fun started :: "outgoing list \<Rightarrow> byte list" where
  "started [] = []"
| "started (out # _) = take (out_written out) (out_bytes out)"

definition on_wire :: "byte list \<Rightarrow> outgoing list \<Rightarrow> bool" where
  "on_wire sent outs \<longleftrightarrow> (\<exists>ms. (\<forall>m\<in>set ms. fits m) \<and> sent = frames ms @ started outs
     \<and> (ms = [] \<and> outs \<noteq> [] \<and> out_welcome (hd outs) \<or> ms \<noteq> [] \<and> opens (hd ms)))"

lemma on_wire_cong:
  "on_wire sent outs \<Longrightarrow> started outs' = started outs \<Longrightarrow>
    (outs \<noteq> [] \<and> out_welcome (hd outs) \<longrightarrow> outs' \<noteq> [] \<and> out_welcome (hd outs')) \<Longrightarrow> on_wire sent outs'"
  unfolding on_wire_def by metis

lemma started_tail: "\<forall>out\<in>set (tl outs). out_written out = 0 \<Longrightarrow> started (tl outs) = []"
  by (cases "tl outs") auto

lemma on_wire_clean:
  assumes "on_wire sent outs" "\<forall>out\<in>set outs. out_frame out"
  shows "clean sent"
proof -
  from assms(1) obtain ms where ms: "\<forall>m\<in>set ms. fits m" "sent = frames ms @ started outs"
    "ms = [] \<and> outs \<noteq> [] \<and> out_welcome (hd outs) \<or> ms \<noteq> [] \<and> opens (hd ms)"
    by (auto simp: on_wire_def)
  show ?thesis
  proof (cases outs)
    case Nil
    with ms show ?thesis unfolding clean_def by (auto intro!: exI [of _ ms])
  next
    case (Cons out outs')
    then obtain m where m: "fits m" "out_bytes out = frame_of m" "out_welcome out = is_welcome m"
      using assms(2) by (auto simp: out_frame_def)
    have "prefix sent (frames (ms @ [m]))"
      using ms(2) Cons m(2) by (auto simp: take_is_prefix)
    moreover have "opens (hd (ms @ [m]))"
      using ms(3) Cons m(3) by (cases ms) (auto simp: opens_def is_welcome_def split: host_message.splits)
    ultimately show ?thesis
      unfolding clean_def using ms(1) m(1) by (intro exI [of _ "ms @ [m]"]) auto
  qed
qed

text \<open>Appending an unstarted frame.\<close>

lemma on_wire_append:
  "on_wire sent outs \<Longrightarrow> out_written out = 0 \<Longrightarrow> on_wire sent (outs @ [out])"
  by (erule on_wire_cong; cases outs) auto

lemma queue_ok_snoc:
  assumes "queue_ok c" "out_frame out" "out_written out = 0" "\<not> out_welcome out"
    and "cl_outgoing c \<noteq> [] \<longrightarrow> out_ack (last (cl_outgoing c)) \<and> out_ack out
      \<longrightarrow> 0 < out_written (last (cl_outgoing c))"
    and c': "cl_outgoing c' = cl_outgoing c @ [out]" "cl_unsent c' = cl_unsent c + length (out_bytes out)"
  shows "queue_ok c'"
proof -
  have "acks_ok (cl_outgoing c')"
    using assms(1,5) unfolding c' acks_ok_snoc queue_ok_def by blast
  moreover have "\<forall>o'\<in>set (tl (cl_outgoing c')). out_written o' = 0 \<and> \<not> out_welcome o'"
    using assms(1,3,4) by (cases "cl_outgoing c") (auto simp: c' queue_ok_def)
  moreover have "\<forall>o'\<in>set (cl_outgoing c'). out_frame o'"
    using assms(1,2) by (auto simp: c' queue_ok_def)
  moreover have "cl_unsent c' = (\<Sum>out\<leftarrow>cl_outgoing c'. out_left out)"
    using assms(1,3) by (simp add: c' queue_ok_def out_left_def)
  ultimately show ?thesis by (simp add: queue_ok_def)
qed

lemma push_out_ok:
  assumes "queue_ok c" "fits m" "\<not> is_welcome m"
    and "is_ack m \<longrightarrow> cl_outgoing c = [] \<or> \<not> out_ack (last (cl_outgoing c)) \<or> 0 < out_written (last (cl_outgoing c))"
  shows "queue_ok (push_out (frame_of m) (output_end_of m) (is_ack m) False c)"
proof (rule queue_ok_snoc [OF assms(1)])
  show "out_frame \<lparr>out_bytes = frame_of m, out_written = 0, out_end = output_end_of m,
      out_ack = is_ack m, out_welcome = False\<rparr>"
    using assms(2,3) fits_frame(2) [OF assms(2)] by (auto simp: out_frame_def)
qed (use assms(4) in \<open>auto simp: push_out_def\<close>)

lemma push_out_outgoing: "cl_outgoing (push_out b e a v c) = cl_outgoing c
    @ [\<lparr>out_bytes = b, out_written = 0, out_end = e, out_ack = a, out_welcome = v\<rparr>]"
  by (simp add: push_out_def)

lemma push_out_wire:
  "on_wire sent (cl_outgoing c) \<Longrightarrow> on_wire sent (cl_outgoing (push_out b e a v c))"
  by (simp add: push_out_outgoing on_wire_append)

lemma queue_kept:
  assumes "queue_ok c" "fits m" "\<not> is_welcome m" "\<not> is_ack m" "output_end_of m = None"
  shows "queue_ok (queue m c)"
  using push_out_ok [OF assms(1-3)] assms by (simp add: queue_def)

lemma queue_wire: "on_wire sent (cl_outgoing c) \<Longrightarrow> on_wire sent (cl_outgoing (queue m c))"
  by (simp add: queue_def push_out_wire)

lemma length_ack_frame: "length (frame_of (InputAck a b)) = 21"
proof -
  have "encode_host (InputAck a b) = Some (frame_bytes kind_INPUT_ACK (put_u64 a @ put_u64 b))"
    by (auto intro!: write_frame_eq simp del: kind_INPUT_ACK_def)
  then show ?thesis by (simp add: frame_of_def)
qed

lemma is_message_simps [simp]:
  "is_welcome (Welcome v)" "\<not> is_welcome (InputAck a b)" "\<not> is_welcome Goodbye"
  "\<not> is_welcome (Error e t)" "\<not> is_welcome (InfoReply i)" "\<not> is_welcome (SnapshotAccepted p)"
  "\<not> is_welcome (SnapshotRejected p r)"
  "is_ack (InputAck a b)" "\<not> is_ack Goodbye" "\<not> is_ack (Error e t)" "\<not> is_ack (InfoReply i)"
  "\<not> is_ack (SnapshotAccepted p)" "\<not> is_ack (SnapshotRejected p r)" "\<not> is_ack (Welcome v)"
  "output_end_of (InputAck a b) = None" "output_end_of Goodbye = None"
  "output_end_of (Error e t) = None" "output_end_of (InfoReply i) = None"
  "output_end_of (SnapshotAccepted p) = None" "output_end_of (SnapshotRejected p r) = None"
  "output_end_of (Welcome v) = None"
  by (simp_all add: is_welcome_def is_ack_def output_end_of_def)

text \<open>An acknowledgement in place has the same length, so the count of unsent bytes stays exact.\<close>

lemma acknowledge_ok:
  assumes "queue_ok c"
  shows "queue_ok (acknowledge c)"
proof (cases "cl_gone c \<or> \<not> (cl_outgoing c \<noteq> [] \<and> out_ack (last (cl_outgoing c))
    \<and> out_written (last (cl_outgoing c)) = 0)")
  case True
  then show ?thesis
    using assms push_out_ok [OF assms, of "InputAck (cl_written c) (cl_discarded c)"]
    by (auto simp: acknowledge_def)
next
  case False
  let ?m = "InputAck (cl_written c) (cl_discarded c)"
  obtain outs out where snoc: "cl_outgoing c = outs @ [out]"
    using False by (cases "cl_outgoing c" rule: rev_cases) auto
  let ?out = "out\<lparr>out_bytes := frame_of ?m\<rparr>"
  have out: "out_ack out" "out_written out = 0" using False snoc by simp_all
  have ack: "acknowledge c = c\<lparr>cl_outgoing := outs @ [?out]\<rparr>"
    using False snoc by (simp add: acknowledge_def Let_def)
  have "out_frame out" using assms snoc by (simp add: queue_ok_def)
  then obtain m where m: "fits m" "out_bytes out = frame_of m" "out_welcome out = is_welcome m"
    "is_ack m" "out_end out = output_end_of m" using out by (auto simp: out_frame_def)
  then obtain a b where "m = InputAck a b" by (cases m) (auto simp: is_ack_def)
  then have "length (out_bytes out) = length (frame_of ?m)" and frame: "out_frame ?out"
    using m out by (auto simp: length_ack_frame out_frame_def intro!: exI [of _ ?m])
  then have left: "out_left ?out = out_left out" using out by (simp add: out_left_def)
  have "acks_ok (outs @ [?out])"
    using assms snoc by (simp add: queue_ok_def acks_ok_snoc)
  moreover have "\<forall>o'\<in>set (tl (outs @ [?out])). out_written o' = 0 \<and> \<not> out_welcome o'"
    using assms snoc by (cases outs) (auto simp: queue_ok_def)
  moreover have "\<forall>o'\<in>set (outs @ [?out]). out_frame o'"
    using assms frame snoc by (auto simp: queue_ok_def)
  ultimately show ?thesis
    using assms left snoc unfolding ack by (simp add: queue_ok_def)
qed

lemma acknowledge_wire:
  assumes "on_wire sent (cl_outgoing c)"
  shows "on_wire sent (cl_outgoing (acknowledge c))"
proof (cases "cl_outgoing c" rule: rev_cases)
  case Nil
  then show ?thesis using assms by (simp add: acknowledge_def Let_def push_out_wire)
next
  case (snoc outs out)
  show ?thesis
  proof (cases "cl_gone c \<or> \<not> (out_ack out \<and> out_written out = 0)")
    case True
    then show ?thesis using assms snoc by (auto simp: acknowledge_def Let_def push_out_wire)
  next
    case False
    with snoc have "cl_outgoing (acknowledge c)
        = outs @ [out\<lparr>out_bytes := frame_of (InputAck (cl_written c) (cl_discarded c))\<rparr>]"
      by (simp add: acknowledge_def Let_def)
    then show ?thesis
      using False snoc by (intro on_wire_cong [OF assms]; cases outs) auto
  qed
qed

lemma drop_unstarted_outgoing:
  assumes "queue_ok c"
  shows "cl_outgoing (drop_unstarted c) = (case cl_outgoing c of [] \<Rightarrow> []
    | out # _ \<Rightarrow> if 0 < out_written out \<or> out_welcome out then [out] else [])"
proof (cases "cl_outgoing c")
  case (Cons out outs)
  then have "\<forall>o'\<in>set outs. out_written o' = 0 \<and> \<not> out_welcome o'"
    using assms by (simp add: queue_ok_def)
  then have "filter (\<lambda>o'. 0 < out_written o' \<or> out_welcome o') outs = []"
    by (simp add: filter_empty_conv)
  with Cons show ?thesis by (simp add: drop_unstarted_def Let_def)
qed (simp add: drop_unstarted_def)

lemma drop_unstarted_sel [simp]:
  "cl_input (drop_unstarted c) = cl_input c" "cl_input_cost (drop_unstarted c) = cl_input_cost c"
  "cl_fd (drop_unstarted c) = cl_fd c" "cl_gone (drop_unstarted c) = cl_gone c"
  "cl_closing (drop_unstarted c) = cl_closing c" "cl_cursor (drop_unstarted c) = cl_cursor c"
  "cl_buf (drop_unstarted c) = cl_buf c" "cl_version (drop_unstarted c) = cl_version c"
  "cl_unsent (drop_unstarted c) = (\<Sum>out\<leftarrow>cl_outgoing (drop_unstarted c). out_left out)"
  by (simp_all add: drop_unstarted_def Let_def)

lemma drop_unstarted_ok:
  assumes "queue_ok c"
  shows "queue_ok (drop_unstarted c)"
    and "on_wire sent (cl_outgoing c) \<Longrightarrow> on_wire sent (cl_outgoing (drop_unstarted c))"
proof -
  show "queue_ok (drop_unstarted c)"
    unfolding queue_ok_def drop_unstarted_sel using assms drop_unstarted_outgoing [OF assms]
    by (auto simp: queue_ok_def split: list.splits)
  assume "on_wire sent (cl_outgoing c)"
  then show "on_wire sent (cl_outgoing (drop_unstarted c))"
    unfolding drop_unstarted_outgoing [OF assms]
    by (elim on_wire_cong) (auto split: list.splits)
qed

lemma end_connection_ok:
  assumes "end_connection m c w = (c', w')" "queue_ok c" "m = Goodbye \<or> (\<exists>e t. m = Error e t)"
  shows "queue_ok c' \<and> input_ok c' \<and> cl_input c' = [] \<and> cl_cursor c' = None \<and> cl_closing c'
    \<and> cl_flush c' \<noteq> None \<and> cl_fd c' = cl_fd c \<and> cl_gone c' = cl_gone c \<and> cl_buf c' = cl_buf c
    \<and> cl_version c' = cl_version c \<and> w' = snd (os_now w)
    \<and> (on_wire sent (cl_outgoing c) \<longrightarrow> on_wire sent (cl_outgoing c'))
    \<and> (cl_gone c \<and> cl_outgoing c = [] \<longrightarrow> cl_outgoing c' = [])"
proof -
  let ?c = "c\<lparr>cl_input := [], cl_input_cost := 0, cl_cursor := None\<rparr>"
  have c: "queue_ok ?c" using assms(2) by (simp add: queue_ok_def)
  note D = drop_unstarted_ok [OF c]
  have m: "fits m" "\<not> is_welcome m" "\<not> is_ack m" "output_end_of m = None"
    using assms(3) by auto
  have c': "c' = (queue m (drop_unstarted ?c))\<lparr>cl_closing := True,
      cl_flush := Some (fst (os_now w) + millis GOODBYE_FLUSH)\<rparr>" "w' = snd (os_now w)"
    using assms(1) by (auto simp: end_connection_def Let_def split: prod.splits)
  have "queue_ok (queue m (drop_unstarted ?c))" using queue_kept [OF D(1) m] .
  then have "queue_ok c'" unfolding c' by (simp add: queue_ok_def)
  moreover have "on_wire sent (cl_outgoing c) \<Longrightarrow> on_wire sent (cl_outgoing c')"
    using queue_wire [OF D(2), of sent m] by (simp add: c')
  moreover have "cl_outgoing c' = []" if "cl_gone c" "cl_outgoing c = []"
    using that by (simp add: c' queue_def drop_unstarted_outgoing [OF c])
  ultimately show ?thesis by (simp add: c' input_ok_empty)
qed

end
