(* ===== verification/Client_Loops.thy ===== *)
theory Client_Loops
  imports Client_Wire
begin

text \<open>
  The two loops over the outgoing queue: sending what the socket takes, and refilling the queue
  from the journal.
\<close>

subsection \<open>Sending\<close>

definition ends_within :: "nat \<Rightarrow> outgoing list \<Rightarrow> bool" where
  "ends_within limit outs \<longleftrightarrow> (\<forall>out\<in>set outs. \<forall>e. out_end out = Some e \<longrightarrow> e \<le> limit)"

lemma ends_within_simps [simp]:
  "ends_within l []"
  "ends_within l (out # outs) \<longleftrightarrow> (\<forall>e. out_end out = Some e \<longrightarrow> e \<le> l) \<and> ends_within l outs"
  "ends_within l (xs @ ys) \<longleftrightarrow> ends_within l xs \<and> ends_within l ys"
  by (auto simp: ends_within_def)

text \<open>What sending and refilling leave alone.\<close>

definition same_input :: "client \<Rightarrow> client \<Rightarrow> bool" where
  "same_input c c' \<longleftrightarrow> cl_fd c' = cl_fd c \<and> cl_version c' = cl_version c \<and> cl_buf c' = cl_buf c
     \<and> cl_closing c' = cl_closing c \<and> cl_flush c' = cl_flush c \<and> cl_gone c' = cl_gone c
     \<and> cl_input c' = cl_input c \<and> cl_input_cost c' = cl_input_cost c
     \<and> cl_written c' = cl_written c \<and> cl_discarded c' = cl_discarded c"

lemma same_input_refl [simp]: "same_input c c"
  by (simp add: same_input_def)

definition only_fd :: "fd \<Rightarrow> os \<Rightarrow> os \<Rightarrow> bool" where
  "only_fd fd w w' \<longleftrightarrow> (\<forall>fd'. fd' \<noteq> fd \<longrightarrow> os_sent w' fd' = os_sent w fd')
     \<and> os_accepts w' = os_accepts w \<and> os_pty_log w' = os_pty_log w \<and> os_sizes w' = os_sizes w"

lemma only_fd_refl [simp]: "only_fd fd w w"
  by (simp add: only_fd_def)

lemma only_fd_trans: "only_fd fd w w1 \<Longrightarrow> only_fd fd w1 w2 \<Longrightarrow> only_fd fd w w2"
  by (simp add: only_fd_def)

lemma send_on_ok:
  assumes "send_on fd rest w = (a, w')"
  shows "only_fd fd w w'"
    and "os_sent w' fd = os_sent w fd @ (case a of Took n \<Rightarrow> take n rest | _ \<Rightarrow> [])"
    and "a = Took n \<Longrightarrow> n \<le> length rest"
  using assms os_put_le [of rest "os_sends w fd"]
  by (auto simp: send_on_def Let_def only_fd_def split: prod.splits write_answer.splits)

lemma wire_sent_whole:
  assumes "on_wire sent (out # outs)" "queue_ok c" "cl_outgoing c = out # outs"
  shows "on_wire (sent @ drop (out_written out) (out_bytes out)) outs"
proof -
  from assms(2,3) obtain m where m: "fits m" "out_bytes out = frame_of m" "out_welcome out = is_welcome m"
    and tl: "\<forall>o'\<in>set outs. out_written o' = 0"
    by (auto simp: queue_ok_def out_frame_def)
  from assms(1) obtain ms where ms: "\<forall>m\<in>set ms. fits m" "sent = frames ms @ started (out # outs)"
    "ms = [] \<and> out_welcome out \<or> ms \<noteq> [] \<and> opens (hd ms)"
    by (auto simp: on_wire_def)
  have "sent @ drop (out_written out) (out_bytes out) = frames (ms @ [m]) @ started outs"
    using ms(2) m(2) tl by (cases outs) auto
  moreover have "opens (hd (ms @ [m]))"
    using ms(3) m(3) by (cases ms) (auto simp: opens_def is_welcome_def split: host_message.splits)
  ultimately show ?thesis
    unfolding on_wire_def using ms(1) m(1) by (intro exI [of _ "ms @ [m]"]) auto
qed

lemma queue_ok_part:
  assumes "queue_ok c" "cl_outgoing c = out # outs" "out_written out + n < length (out_bytes out)"
  shows "queue_ok (c\<lparr>cl_outgoing := out\<lparr>out_written := out_written out + n\<rparr> # outs,
    cl_unsent := cl_unsent c - n\<rparr>)"
proof -
  have "acks_ok (out\<lparr>out_written := out_written out + n\<rparr> # outs)"
    using assms(1,2) by (cases outs) (auto simp: queue_ok_def)
  with assms show ?thesis by (auto simp: queue_ok_def out_frame_def out_left_def)
qed

lemma queue_ok_whole:
  assumes "queue_ok c" "cl_outgoing c = out # outs" "n = length (out_bytes out) - out_written out"
  shows "queue_ok (c\<lparr>cl_outgoing := outs, cl_unsent := cl_unsent c - n\<rparr>)"
proof -
  have "acks_ok outs" using assms(1,2) acks_ok_tl by (auto simp: queue_ok_def)
  moreover have "\<forall>o'\<in>set (tl outs). out_written o' = 0 \<and> \<not> out_welcome o'"
    using assms(1,2) by (cases outs) (auto simp: queue_ok_def)
  ultimately show ?thesis using assms by (auto simp: queue_ok_def out_left_def)
qed

lemma wire_part:
  assumes "on_wire sent (out # outs)"
  shows "on_wire (sent @ take n (drop (out_written out) (out_bytes out)))
    (out\<lparr>out_written := out_written out + n\<rparr> # outs)"
  using assms by (auto simp: on_wire_def take_add)

lemma send_loop_ok:
  "send_loop c d w = (c', d', w', failed) \<Longrightarrow> queue_ok c \<Longrightarrow> on_wire (os_sent w (cl_fd c)) (cl_outgoing c) \<Longrightarrow>
    queue_ok c' \<and> on_wire (os_sent w' (cl_fd c)) (cl_outgoing c') \<and> same_input c c'
    \<and> cl_cursor c' = cl_cursor c \<and> only_fd (cl_fd c) w w' \<and> d \<le> d'
    \<and> (\<forall>l. ends_within l (cl_outgoing c) \<and> d \<le> l \<longrightarrow> d' \<le> l \<and> ends_within l (cl_outgoing c'))
    \<and> cl_unsent c' \<le> cl_unsent c"
proof (induction c d w rule: send_loop.induct)
  case (1 c d w)
  note loop = "1.prems"(1) [unfolded send_loop.simps [of c d w]]
  show ?case
  proof (cases "cl_outgoing c")
    case Nil
    with loop "1.prems"(2,3) show ?thesis by auto
  next
    case (Cons out outs)
    let ?rest = "drop (out_written out) (out_bytes out)"
    obtain a w1 where snd: "send_on (cl_fd c) ?rest w = (a, w1)" by fastforce
    note S = send_on_ok [OF snd]
    note loop = loop [unfolded Cons list.case snd prod.case Let_def]
    show ?thesis
    proof (cases a)
      case (Took n)
      have n: "n \<le> length ?rest" using S(3) [OF Took] .
      have sent: "os_sent w1 (cl_fd c) = os_sent w (cl_fd c) @ take n ?rest" using S(2) Took by simp
      let ?out = "out\<lparr>out_written := out_written out + n\<rparr>"
      show ?thesis
      proof (cases "out_written ?out < length (out_bytes ?out)")
        case True
        let ?c = "c\<lparr>cl_outgoing := ?out # outs, cl_unsent := cl_unsent c - n\<rparr>"
        have c': "c' = ?c" "d' = d" "w' = w1" "\<not> failed" using loop True by (auto simp: Took)
        have "queue_ok ?c" by (rule queue_ok_part [OF "1.prems"(2) Cons]) (use True in simp)
        moreover have "on_wire (os_sent w1 (cl_fd c)) (?out # outs)"
          using wire_part "1.prems"(3) unfolding sent Cons by blast
        ultimately show ?thesis using S(1) Cons by (auto simp: c' same_input_def)
      next
        case False
        then have full: "n = length (out_bytes out) - out_written out" using n by simp
        let ?c = "c\<lparr>cl_outgoing := outs, cl_unsent := cl_unsent c - n\<rparr>"
        let ?d = "case out_end out of None \<Rightarrow> d | Some e \<Rightarrow> max d e"
        have go: "send_loop ?c ?d w1 = (c', d', w', failed)" using loop False by (simp add: Took)
        have q: "queue_ok ?c" by (rule queue_ok_whole [OF "1.prems"(2) Cons full])
        have "on_wire (os_sent w1 (cl_fd ?c)) (cl_outgoing ?c)"
          using wire_sent_whole [OF _ "1.prems"(2) Cons] "1.prems"(3) Cons sent full by simp
        from "1.IH" [OF Cons snd [symmetric] Took refl refl False go q this]
        have IH: "queue_ok c'" "on_wire (os_sent w' (cl_fd c)) (cl_outgoing c')" "same_input ?c c'"
          "cl_cursor c' = cl_cursor c" "only_fd (cl_fd c) w1 w'" "?d \<le> d'"
          "\<forall>l. ends_within l outs \<and> ?d \<le> l \<longrightarrow> d' \<le> l \<and> ends_within l (cl_outgoing c')"
          "cl_unsent c' \<le> cl_unsent c - n" by simp_all
        have "same_input c c'" using IH(3) by (simp add: same_input_def)
        moreover have "d \<le> d'" using IH(6) by (cases "out_end out") auto
        moreover have "?d \<le> l" if "ends_within l (cl_outgoing c)" "d \<le> l" for l
          using that Cons by (cases "out_end out") auto
        ultimately show ?thesis
          using IH only_fd_trans [OF S(1)] Cons by auto
      qed
    qed (use loop S "1.prems"(2,3) Cons in auto)
  qed
qed

subsection \<open>Refilling\<close>

definition blob_ok :: "history \<Rightarrow> bool" where
  "blob_ok h \<longleftrightarrow> (\<forall>b. h_blob h = Some b \<longrightarrow> length b \<le> MAX_SNAPSHOT)"

lemma sent_ok_fits:
  assumes "sent_ok h i m i'" "blob_ok h" "i' \<le> length (h_events h)"
  shows "fits m" "\<not> is_welcome m" "\<not> is_ack m"
    and "output_end_of m = Some e \<Longrightarrow> e \<le> offset (h_end h)"
proof -
  show "fits m" "\<not> is_welcome m" "\<not> is_ack m"
    using assms(1,2) by (cases m; auto simp: blob_ok_def is_welcome_def is_ack_def)+
  show "e \<le> offset (h_end h)" if "output_end_of m = Some e"
  proof -
    from that obtain off data where m: "m = Output off data" "e = off + length data"
      by (cases m) (auto simp: output_end_of_def)
    have ok: "off = offset (h_pos h i)" "i' = i + length data"
      "take (length data) (h_rest h i) = map Byte data"
      using assms(1) m by auto
    have "take i' (h_events h) = take i (h_events h) @ take (length data) (h_rest h i)"
      by (simp add: ok(2) h_rest_def take_add)
    then have "h_pos h i' = pos_after (h_pos h i) (map Byte data)"
      by (simp add: h_pos_def ok(3))
    then have "e = offset (h_pos h i')" using m ok(1) by (simp add: pos_after_sel)
    then show ?thesis using h_pos_le [OF assms(3), of h] by (simp add: less_eq_position_def)
  qed
qed

lemma refill_loop_ok:
  "history_rep h j \<Longrightarrow> blob_ok h \<Longrightarrow> cursor_rep h cur i \<Longrightarrow> queue_ok c \<Longrightarrow>
    on_wire sent (cl_outgoing c) \<Longrightarrow>
    (let c' = refill_loop j cur c in
      queue_ok c' \<and> on_wire sent (cl_outgoing c') \<and> same_input c c'
      \<and> (\<exists>cur' i'. cl_cursor c' = Some cur' \<and> cursor_rep h cur' i')
      \<and> (ends_within (j_end j) (cl_outgoing c) \<longrightarrow> ends_within (j_end j) (cl_outgoing c'))
      \<and> cl_unsent c' \<le> max (cl_unsent c) (OUTGOING_HIGH_WATER + MAX_FRAME + 3))"
proof (induction j cur c arbitrary: i rule: refill_loop.induct)
  case (1 j cur c)
  note rep = "1.prems"(1) and cur = "1.prems"(3)
  obtain cur1 r where nx: "journal_next j cur = (cur1, r)" by fastforce
  have ok: "next_ok h cur i (cur1, r)" using journal_next_ok [OF rep cur] nx by simp
  have stay: "queue_ok (c\<lparr>cl_cursor := x\<rparr>)" "same_input c (c\<lparr>cl_cursor := x\<rparr>)" for x
    using "1.prems"(4) by (simp_all add: queue_ok_def same_input_def)
  show ?case
  proof (cases "OUTGOING_HIGH_WATER \<le> cl_unsent c")
    case True
    then show ?thesis
      using stay "1.prems"(3,5) by (subst refill_loop.simps) (auto simp: Let_def)
  next
    case low: False
    show ?thesis
    proof (cases r)
      case None
      then show ?thesis
        using stay "1.prems"(5) low nx ok
        by (subst refill_loop.simps) (auto simp: Let_def next_ok_def)
    next
      case (Some m)
      with ok obtain i' where m: "sent_ok h i m i'" "cursor_rep h cur1 i'" by (auto simp: next_ok_def)
      have "i' \<le> length (h_events h)" using m(2) by (simp add: cursor_rep_def)
      note F = sent_ok_fits [OF m(1) "1.prems"(2) this]
      note E = fits_frame [OF F(1)]
      let ?c = "push_out (frame_of m) (output_end_of m) False False c"
      have q: "queue_ok ?c" using push_out_ok [OF "1.prems"(4) F(1,2)] F(3) by simp
      have wi: "on_wire sent (cl_outgoing ?c)" using push_out_wire "1.prems"(5) .
      have go: "refill_loop j cur c = refill_loop j cur1 ?c"
        using low nx Some E(1) by (subst refill_loop.simps) simp
      have un: "cl_unsent ?c \<le> OUTGOING_HIGH_WATER + MAX_FRAME + 3"
        using low E(3) by (simp add: push_out_def)
      have ends: "ends_within (j_end j) (cl_outgoing c) \<longrightarrow> ends_within (j_end j) (cl_outgoing ?c)"
        using F(4) history_rep_ends(1) [OF rep] by (auto simp: push_out_outgoing)
      have same: "same_input c ?c" by (simp add: same_input_def)
      from "1.IH" [OF low nx [symmetric] Some E(1) rep "1.prems"(2) m(2) q wi]
      show ?thesis
        using un ends same unfolding go Let_def same_input_def by auto
    qed
  qed
qed

end
