(* ===== verification/Host_Inv.thy ===== *)
theory Host_Inv
  imports Client_Loops
begin

text \<open>
  The invariant of a terminal host between any two of its operations, over the history of its
  journal, and the operations on the pty and on the client that keep it.
\<close>

subsection \<open>The invariant\<close>

definition client_inv :: "history \<Rightarrow> os \<Rightarrow> client \<Rightarrow> bool" where
  "client_inv hist w c \<longleftrightarrow> queue_ok c \<and> input_ok c \<and> cl_version c = 1
     \<and> ends_within (offset (h_end hist)) (cl_outgoing c)
     \<and> (\<not> cl_gone c \<longrightarrow> on_wire (os_sent w (cl_fd c)) (cl_outgoing c) \<and> length (cl_buf c) \<le> RECEIVE_LIMIT)
     \<and> (cl_gone c \<longrightarrow> cl_outgoing c = [] \<and> cl_input c = [])
     \<and> (\<forall>cur. cl_cursor c = Some cur \<longrightarrow> (\<exists>i. cursor_rep hist cur i))
     \<and> (cl_closing c \<longrightarrow> cl_input c = [] \<and> cl_cursor c = None \<and> cl_flush c \<noteq> None)"

fun accept_fds :: "accept_answer list \<Rightarrow> fd list" where
  "accept_fds [] = []"
| "accept_fds (Accepted fd u # as) = fd # accept_fds as"
| "accept_fds (_ # as) = accept_fds as"

definition client_fds :: "host \<Rightarrow> fd list" where
  "client_fds h = (case ho_client h of None \<Rightarrow> [] | Some c \<Rightarrow> [cl_fd c])"

text \<open>
  Connections are told apart: the waiting ones, the client's and those still to be accepted,
  and nothing was sent on one that is not a client's yet.
\<close>

definition fds_ok :: "host \<Rightarrow> os \<Rightarrow> bool" where
  "fds_ok h w \<longleftrightarrow> distinct (map pd_fd (ho_pending h) @ client_fds h @ accept_fds (os_accepts w))
     \<and> (\<forall>fd\<in>set (map pd_fd (ho_pending h) @ accept_fds (os_accepts w)). os_sent w fd = [])
     \<and> (\<forall>fd. clean (os_sent w fd))"

definition pending_ok :: "host \<Rightarrow> bool" where
  "pending_ok h \<longleftrightarrow> length (ho_pending h) \<le> MAX_PENDING_CONNECTIONS
     \<and> (\<forall>p\<in>set (ho_pending h). length (pd_buf p) \<le> MAX_BEFORE_HELLO)"

definition exit_ok :: "host \<Rightarrow> bool" where
  "exit_ok h \<longleftrightarrow> (\<forall>e d n. ho_draining h = Some (e, d, n) \<longrightarrow>
       ho_child_exit h = Some e \<and> j_exit (ho_journal h) = None)
     \<and> (\<forall>p e. j_exit (ho_journal h) = Some (p, e) \<longrightarrow> ho_child_exit h = Some e)
     \<and> (ho_child_exit h \<noteq> None \<longrightarrow> ho_draining h \<noteq> None \<or> j_exit (ho_journal h) \<noteq> None)"

definition ended_ok :: "host \<Rightarrow> bool" where
  "ended_ok h \<longleftrightarrow> (\<forall>e. ho_ended h = Some e \<longrightarrow> e = EndShutdown \<and> ho_pending h = []
     \<and> (\<forall>c. ho_client h = Some c \<longrightarrow> cl_closing c))"

definition host_inv :: "history \<Rightarrow> host \<Rightarrow> os \<Rightarrow> bool" where
  "host_inv hist h w \<longleftrightarrow> history_rep hist (ho_journal h) \<and> blob_ok hist \<and> length (ho_tag h) \<le> MAX_TAG
     \<and> ho_delivered h \<le> offset (h_end hist)
     \<and> (\<forall>c. ho_client h = Some c \<longrightarrow> client_inv hist w c)
     \<and> fds_ok h w \<and> pending_ok h \<and> exit_ok h \<and> ended_ok h"

lemma host_invD:
  assumes "host_inv hist h w"
  shows "history_rep hist (ho_journal h)" "blob_ok hist" "length (ho_tag h) \<le> MAX_TAG"
    "ho_delivered h \<le> offset (h_end hist)" "\<And>c. ho_client h = Some c \<Longrightarrow> client_inv hist w c"
    "fds_ok h w" "pending_ok h" "exit_ok h" "ended_ok h"
  using assms by (simp_all add: host_inv_def)

lemma client_invD:
  assumes "client_inv hist w c"
  shows "queue_ok c" "input_ok c" "cl_version c = 1"
    "ends_within (offset (h_end hist)) (cl_outgoing c)"
    "\<not> cl_gone c \<Longrightarrow> on_wire (os_sent w (cl_fd c)) (cl_outgoing c)"
    "\<not> cl_gone c \<Longrightarrow> length (cl_buf c) \<le> RECEIVE_LIMIT"
    "cl_gone c \<Longrightarrow> cl_outgoing c = []" "cl_gone c \<Longrightarrow> cl_input c = []"
    "\<And>cur. cl_cursor c = Some cur \<Longrightarrow> \<exists>i. cursor_rep hist cur i"
    "cl_closing c \<Longrightarrow> cl_input c = []" "cl_closing c \<Longrightarrow> cl_cursor c = None"
    "cl_closing c \<Longrightarrow> cl_flush c \<noteq> None"
  using assms by (auto simp: client_inv_def)

subsection \<open>Growing histories\<close>

definition grows :: "history \<Rightarrow> history \<Rightarrow> bool" where
  "grows hist hist' \<longleftrightarrow> take (length (h_events hist)) (h_events hist') = h_events hist
     \<and> h_snap hist \<le> h_snap hist'"

lemma grows_refl [simp]: "grows h h"
  by (simp add: grows_def)

lemma grows_end: "grows hist hist' \<Longrightarrow> offset (h_end hist) \<le> offset (h_end hist')"
proof -
  assume "grows hist hist'"
  then have "h_events hist' = h_events hist @ drop (length (h_events hist)) (h_events hist')"
    by (metis append_take_drop_id grows_def)
  then have "h_end hist' = pos_after (h_end hist) (drop (length (h_events hist)) (h_events hist'))"
    unfolding h_end_def by (metis pos_after_append)
  then show ?thesis by (simp add: pos_after_sel)
qed

lemma ends_within_mono: "ends_within l outs \<Longrightarrow> l \<le> l' \<Longrightarrow> ends_within l' outs"
  by (fastforce simp: ends_within_def)

lemma client_inv_grows:
  assumes "grows hist hist'" "client_inv hist w c"
  shows "client_inv hist' w c"
proof -
  have "\<exists>i. cursor_rep hist' cur i" if "cl_cursor c = Some cur" for cur
    using client_invD(9) [OF assms(2) that] cursor_rep_mono assms(1) unfolding grows_def by blast
  with assms ends_within_mono [OF _ grows_end [OF assms(1)]] show ?thesis
    by (simp add: client_inv_def)
qed

text \<open>A change of the journal that its history follows.\<close>

lemma host_inv_journal:
  assumes "host_inv hist h w" "history_rep hist' j" "grows hist hist'" "blob_ok hist'"
    and "exit_ok (h\<lparr>ho_journal := j\<rparr>)"
  shows "host_inv hist' (h\<lparr>ho_journal := j\<rparr>) w"
  using assms client_inv_grows [OF assms(3)] grows_end [OF assms(3)]
  by (auto simp: host_inv_def fds_ok_def client_fds_def pending_ok_def ended_ok_def)

text \<open>A change of the client on its own connection.\<close>

lemma host_inv_client:
  assumes inv: "host_inv hist h w" and c: "ho_client h = Some c"
    and c': "client_inv hist w' c'" "cl_fd c' = cl_fd c" "cl_closing c \<longrightarrow> cl_closing c'"
    and w': "only_fd (cl_fd c) w w'" "cl_gone c' \<longrightarrow> os_sent w' (cl_fd c) = os_sent w (cl_fd c)"
    and d: "d \<le> offset (h_end hist)"
  shows "host_inv hist (h\<lparr>ho_client := Some c', ho_delivered := d\<rparr>) w'"
proof -
  note I = host_invD [OF inv]
  have "clean (os_sent w' (cl_fd c))"
  proof (cases "cl_gone c'")
    case True
    then show ?thesis using w'(2) I(6) by (simp add: fds_ok_def)
  next
    case False
    then show ?thesis
      using client_invD(1,5) [OF c'(1)] c'(2) on_wire_clean by (auto simp: queue_ok_def)
  qed
  then have "\<forall>fd. clean (os_sent w' fd)"
    using w'(1) I(6) by (metis fds_ok_def only_fd_def)
  moreover have "os_sent w' fd = []" if "fd \<in> set (map pd_fd (ho_pending h) @ accept_fds (os_accepts w))" for fd
  proof -
    have "fd \<noteq> cl_fd c" using that I(6) c by (auto simp: fds_ok_def client_fds_def)
    moreover have "os_sent w fd = []" using that I(6) unfolding fds_ok_def by blast
    ultimately show ?thesis using w'(1) by (simp add: only_fd_def)
  qed
  ultimately have "fds_ok (h\<lparr>ho_client := Some c', ho_delivered := d\<rparr>) w'"
    using I(6) w'(1) c c'(2) by (simp add: fds_ok_def only_fd_def client_fds_def)
  then show ?thesis
    using I c c' d by (auto simp: host_inv_def pending_ok_def exit_ok_def ended_ok_def)
qed

lemma host_delivered_id: "h\<lparr>ho_client := x, ho_delivered := ho_delivered h\<rparr> = h\<lparr>ho_client := x\<rparr>"
  by simp

lemma host_inv_client_only:
  assumes "host_inv hist h w" "ho_client h = Some c" "client_inv hist w' c'" "cl_fd c' = cl_fd c"
    "cl_closing c \<longrightarrow> cl_closing c'" "only_fd (cl_fd c) w w'"
    "cl_gone c' \<longrightarrow> os_sent w' (cl_fd c) = os_sent w (cl_fd c)"
  shows "host_inv hist (h\<lparr>ho_client := Some c'\<rparr>) w'"
  using host_inv_client [OF assms host_invD(4) [OF assms(1)]] by simp

lemma host_inv_drop: "host_inv hist h w \<Longrightarrow> host_inv hist (drop_client h) w"
  by (auto simp: host_inv_def drop_client_def fds_ok_def client_fds_def pending_ok_def exit_ok_def
      ended_ok_def split: option.splits)

text \<open>A change of the operating system's answers that are not about connections.\<close>

definition same_os :: "os \<Rightarrow> os \<Rightarrow> bool" where
  "same_os w w' \<longleftrightarrow> os_sent w' = os_sent w \<and> os_accepts w' = os_accepts w"

lemma host_inv_os: "host_inv hist h w \<Longrightarrow> same_os w w' \<Longrightarrow> host_inv hist h w'"
  by (auto simp: host_inv_def same_os_def client_inv_def fds_ok_def)

lemma client_inv_os: "client_inv hist w c \<Longrightarrow> same_os w w' \<Longrightarrow> client_inv hist w' c"
  by (simp add: client_inv_def same_os_def)

lemma os_now_same [simp]: "same_os w (snd (os_now w))"
  by (simp add: os_now_def same_os_def split: list.split)

lemma on_client_None: "ho_client h = None \<Longrightarrow> on_client f h = h"
  by (cases h) (simp add: on_client_def)

subsection \<open>The pty\<close>

lemma acknowledge_ends:
  "ends_within l (cl_outgoing c) \<Longrightarrow> ends_within l (cl_outgoing (acknowledge c))"
proof -
  have "ends_within l (butlast outs)" if "ends_within l outs" for outs
    using that by (meson ends_within_def in_set_butlastD)
  moreover have "out_end (last outs) = Some e \<Longrightarrow> e \<le> l" if "ends_within l outs" "outs \<noteq> []" for outs e
    using that last_in_set by (auto simp: ends_within_def)
  moreover assume "ends_within l (cl_outgoing c)"
  ultimately show ?thesis by (auto simp: acknowledge_def Let_def push_out_outgoing)
qed

lemma acknowledge_gone: "cl_gone c \<Longrightarrow> acknowledge c = c"
  by (simp add: acknowledge_def)

lemma client_inv_acknowledge: "client_inv hist w c \<Longrightarrow> client_inv hist w (acknowledge c)"
  unfolding client_inv_def acknowledge_sel
  using acknowledge_ok [of c] acknowledge_wire [of "os_sent w (cl_fd c)" c]
    acknowledge_ends [of "offset (h_end hist)" c] acknowledge_gone [of c]
  by (auto simp: input_ok_def)

lemma client_inv_take_input:
  assumes "client_inv hist w c"
  shows "client_inv hist w (take_input c)"
proof (cases "cl_input c = []")
  case False
  have "client_inv hist w (fold resolve (cl_input c) (c\<lparr>cl_input := []\<rparr>))"
    using assms False by (auto simp: client_inv_def queue_ok_def input_ok_def)
  then show ?thesis using client_inv_acknowledge False by (simp add: take_input_def)
qed (use assms in \<open>simp add: take_input_def\<close>)

lemma discard_input_inv: "host_inv hist h w \<Longrightarrow> host_inv hist (discard_input h) w"
proof (cases "ho_client h")
  case (Some c)
  assume inv: "host_inv hist h w"
  have "host_inv hist (h\<lparr>ho_client := Some (take_input c)\<rparr>) w"
    by (rule host_inv_client_only [OF inv Some])
      (use client_inv_take_input [OF host_invD(5) [OF inv Some]] in auto)
  then show ?thesis by (simp add: discard_input_def on_client_def Some)
qed (simp add: discard_input_def on_client_None)

lemma end_of_output_inv: "host_inv hist h w \<Longrightarrow> host_inv hist (end_of_output h) w"
proof -
  assume "host_inv hist h w"
  then have "host_inv hist (h\<lparr>ho_pty_open := False\<rparr>) w"
    by (simp add: host_inv_def fds_ok_def client_fds_def pending_ok_def exit_ok_def ended_ok_def)
  then show ?thesis by (simp add: end_of_output_def discard_input_inv)
qed

lemma push_output_keeps:
  assumes "history_rep hist j" "u64_ok (offset (h_end hist) + length bs)"
  shows "j_exit (push_output bs j) = j_exit j"
    and "j_end (push_output bs j) = j_end j + length bs"
proof -
  note R = push_output_rep [OF assms]
  have "map_option (\<lambda>(n, e). (h_pos (h_append (map Byte bs) hist) n, e)) (h_exit hist)
      = map_option (\<lambda>(n, e). (h_pos hist n, e)) (h_exit hist)"
    using history_repD(1) [OF assms(1)] by (cases "h_exit hist") (auto simp: h_ok_def)
  then show "j_exit (push_output bs j) = j_exit j"
    using history_repD(10) [OF R] history_repD(10) [OF assms(1)] by simp
  show "j_end (push_output bs j) = j_end j + length bs"
    using history_rep_ends(1) [OF R] history_rep_ends(1) [OF assms(1)]
    by (simp add: h_end_def pos_after_sel)
qed

definition alive :: "host \<Rightarrow> bool" where
  "alive h \<longleftrightarrow> (\<forall>c. ho_client h = Some c \<longrightarrow> \<not> cl_gone c)"

text \<open>
  The invariant with room for \<open>n\<close> more bytes of output before the offset would pass 64 bits;
  the client's connection is marked gone only inside \<open>close_client\<close>, where \<open>g\<close> allows it.
\<close>

definition inv :: "bool \<Rightarrow> nat \<Rightarrow> host \<Rightarrow> os \<Rightarrow> bool" where
  "inv g n h w \<longleftrightarrow> (\<exists>hist. host_inv hist h w) \<and> u64_ok (j_end (ho_journal h) + n) \<and> (g \<or> alive h)"

lemma inv_mono: "inv g n h w \<Longrightarrow> m \<le> n \<Longrightarrow> inv g m h w"
  by (auto simp: inv_def u64_ok_def)

lemma inv_unguard: "inv g n h w \<Longrightarrow> inv True n h w"
  by (simp add: inv_def)

lemma inv_os: "inv g n h w \<Longrightarrow> same_os w w' \<Longrightarrow> inv g n h w'"
  using host_inv_os unfolding inv_def by blast

lemma output_read_inv:
  assumes "inv g (n + length bs) h w"
  shows "inv g n (output_read bs h) w"
proof -
  from assms obtain hist where inv: "host_inv hist h w"
    and u64: "u64_ok (j_end (ho_journal h) + (n + length bs))" and g: "g \<or> alive h"
    unfolding inv_def by blast
  note I = host_invD [OF inv]
  have u: "u64_ok (offset (h_end hist) + length bs)"
    using u64 history_rep_ends(1) [OF I(1)] by (simp add: u64_ok_def)
  let ?d = "map_option (\<lambda>(e, deadline, n). (e, deadline, n + length bs)) (ho_draining h)"
  note K = push_output_keeps [OF I(1) u]
  have "host_inv hist (h\<lparr>ho_draining := ?d\<rparr>) w"
    using inv by (auto simp: host_inv_def fds_ok_def client_fds_def pending_ok_def exit_ok_def ended_ok_def)
  moreover have "exit_ok (h\<lparr>ho_draining := ?d, ho_journal := push_output bs (ho_journal h)\<rparr>)"
    using I(8) K(1) by (auto simp: exit_ok_def)
  ultimately have "host_inv (h_append (map Byte bs) hist)
      (h\<lparr>ho_draining := ?d, ho_journal := push_output bs (ho_journal h)\<rparr>) w"
    using push_output_rep [OF I(1) u] I(2)
    by (intro host_inv_journal [where hist = hist]) (auto simp: grows_def blob_ok_def)
  moreover have "h\<lparr>ho_draining := ?d, ho_journal := push_output bs (ho_journal h)\<rparr> = output_read bs h"
    by (simp add: output_read_def)
  ultimately have "host_inv (h_append (map Byte bs) hist) (output_read bs h) w" by simp
  moreover have "u64_ok (j_end (ho_journal (output_read bs h)) + n)"
    using u64 K(2) by (simp add: output_read_def add.commute add.left_commute)
  moreover have "g \<or> alive (output_read bs h)" using g by (simp add: alive_def output_read_def)
  ultimately show ?thesis unfolding inv_def by blast
qed

lemma end_of_output_inv': "inv g n h w \<Longrightarrow> inv g n (end_of_output h) w"
  using end_of_output_inv by (auto simp: inv_def end_of_output_def discard_input_def on_client_def
      alive_def)

lemma read_loop_inv:
  "read_loop got h w = (h', w') \<Longrightarrow> inv g (n + (READ_BUDGET + 64 * 1024 - got)) h w \<Longrightarrow> inv g n h' w'"
proof (induction got h w rule: read_loop.induct)
  case (1 got h w)
  note loop = "1.prems"(1) [unfolded read_loop.simps [of got h w]]
  have weak: "inv g n h w" by (rule inv_mono [OF "1.prems"(2)]) simp
  show ?case
  proof (cases "READ_BUDGET \<le> got")
    case True
    with loop weak show ?thesis by simp
  next
    case False
    obtain a as where t: "os_take (64 * 1024) (os_pty_reads w) = (a, as)" by fastforce
    let ?w = "w\<lparr>os_pty_reads := as\<rparr>"
    have os: "same_os w ?w" by (simp add: same_os_def)
    note loop = loop [unfolded t prod.case]
    show ?thesis
    proof (cases a)
      case (Bytes bs)
      show ?thesis
      proof (cases "bs = []")
        case True
        then show ?thesis
          using loop False Bytes end_of_output_inv' [OF inv_os [OF weak os]] by simp
      next
        case more: False
        have len: "length bs \<le> 64 * 1024" using os_take_room t Bytes by blast
        have "inv g (n + (READ_BUDGET + 64 * 1024 - (got + length bs)) + length bs) h ?w"
          by (rule inv_mono [OF inv_os [OF "1.prems"(2) os]]) (use False len in simp)
        then have "inv g (n + (READ_BUDGET + 64 * 1024 - (got + length bs))) (output_read bs h) ?w"
          by (rule output_read_inv)
        then show ?thesis
          using "1.IH"(1) [OF False t [symmetric] Bytes more] loop False more Bytes by simp
      qed
    next
      case RIntr
      then show ?thesis
        using "1.IH"(2) [OF False t [symmetric] RIntr] loop False inv_os [OF "1.prems"(2) os] by simp
    qed (use loop False weak inv_os [OF weak os] end_of_output_inv' in auto)
  qed
qed

lemma read_pty_inv:
  "read_pty h w = (h', w') \<Longrightarrow> inv g (n + 2 * READ_BUDGET) h w \<Longrightarrow> inv g n h' w'"
  using read_loop_inv [of 0 h w h' w' g n] inv_mono [of g "n + 2 * READ_BUDGET" h w]
  by (auto simp: read_pty_def READ_BUDGET_def split: if_splits)

end
