(* ===== verification/Host_Serve.thy ===== *)
theory Host_Serve
  imports Host_Inv
begin

text \<open>
  The operations on the client's messages and connection, on the waiting connections and the
  child's exit, and whole iterations: each keeps the invariant of \<open>Host_Inv\<close>.
\<close>

subsection \<open>Input and replies\<close>

lemma inv_client:
  assumes "inv g n h w" "ho_client h = Some c"
    and "\<And>hist. host_inv hist h w \<Longrightarrow> client_inv hist w c \<Longrightarrow> client_inv hist w' c'"
    and "cl_fd c' = cl_fd c" "cl_closing c \<longrightarrow> cl_closing c'" "only_fd (cl_fd c) w w'"
    and "cl_gone c' \<longrightarrow> cl_gone c"
    and "cl_gone c' \<longrightarrow> os_sent w' (cl_fd c) = os_sent w (cl_fd c)"
  shows "inv g n (h\<lparr>ho_client := Some c'\<rparr>) w'"
proof -
  from assms(1) obtain hist where H: "host_inv hist h w" and u: "u64_ok (j_end (ho_journal h) + n)"
    and g: "g \<or> alive h" unfolding inv_def by blast
  have "host_inv hist (h\<lparr>ho_client := Some c'\<rparr>) w'"
    using assms(3) [OF H host_invD(5) [OF H assms(2)]]
    by (rule host_inv_client_only [OF H assms(2) _ assms(4-6,8)])
  moreover have "g \<or> alive (h\<lparr>ho_client := Some c'\<rparr>)"
    using g assms(2,7) by (auto simp: alive_def)
  ultimately show ?thesis using u unfolding inv_def by auto
qed

lemma discard_input_inv': "inv g n h w \<Longrightarrow> inv g n (discard_input h) w"
  using discard_input_inv unfolding inv_def
  by (auto simp: discard_input_def on_client_def alive_def)

lemma same_os_only: "same_os w w' \<Longrightarrow> os_pty_log w' = os_pty_log w \<Longrightarrow> os_sizes w' = os_sizes w \<Longrightarrow> only_fd fd w w'"
  by (simp add: only_fd_def same_os_def)

text \<open>The pty's log is not part of the invariant, so it may be wound back to apply the rest.\<close>

lemma inv_client_same:
  assumes "inv g n h w" "ho_client h = Some c" "same_os w w'"
    and "\<And>hist. client_inv hist w c \<Longrightarrow> client_inv hist w c'"
    and "cl_fd c' = cl_fd c" "cl_closing c \<longrightarrow> cl_closing c'" "cl_gone c' \<longrightarrow> cl_gone c"
  shows "inv g n (h\<lparr>ho_client := Some c'\<rparr>) w'"
  by (rule inv_os [OF inv_client [OF assms(1,2) assms(4) assms(5,6) _ assms(7)] assms(3)]) simp_all

lemma client_inv_input_loop:
  assumes loop: "input_loop c w r = (c', w', r', f)" and inv: "client_inv hist v c"
  shows "client_inv hist v c' \<and> same_os w w' \<and> cl_fd c' = cl_fd c \<and> cl_closing c' = cl_closing c
    \<and> cl_gone c' = cl_gone c"
proof -
  note L = input_loop_ok [OF loop client_invD(2) [OF inv]]
  have "cl_input c = [] \<Longrightarrow> cl_input c' = []" using L by auto
  then show ?thesis
    using L inv by (auto simp: client_inv_def same_connection_def queue_ok_def same_os_def)
qed

lemma write_input_inv:
  assumes "write_input h w = (h', w')" "inv g n h w"
  shows "inv g n h' w'"
proof (cases "ho_pty_open h \<and> ho_client h \<noteq> None")
  case True
  then obtain c where c: "ho_client h = Some c" and "open": "ho_pty_open h" by auto
  obtain c1 w1 r f where loop: "input_loop c w False = (c1, w1, r, f)" by (metis prod_cases4)
  note wi = assms(1) [unfolded write_input_def c option.case loop prod.case Let_def]
  have inv1: "inv g n (h\<lparr>ho_client := Some c1\<rparr>) w1"
    and inv2: "inv g n (h\<lparr>ho_client := Some (acknowledge c1)\<rparr>) w1"
  proof -
    from assms(2) obtain hist where H: "host_inv hist h w" unfolding inv_def by blast
    note S = client_inv_input_loop [OF loop host_invD(5) [OF H c]]
    show "inv g n (h\<lparr>ho_client := Some c1\<rparr>) w1"
      by (rule inv_client_same [OF assms(2) c]) (use client_inv_input_loop [OF loop] S in auto)
    show "inv g n (h\<lparr>ho_client := Some (acknowledge c1)\<rparr>) w1"
      by (rule inv_client_same [OF assms(2) c])
        (use client_inv_input_loop [OF loop] S client_inv_acknowledge in auto)
  qed
  show ?thesis
    using wi inv1 inv2 discard_input_inv' [OF inv1] "open" by (auto split: if_splits)
next
  case False
  then show ?thesis
    using assms discard_input_inv' [OF assms(2)] by (auto simp: write_input_def split: if_splits option.splits)
qed

lemma inv_D:
  assumes "inv g n h w" "ho_client h = Some c"
  shows "queue_ok c" "input_ok c" "cl_version c = 1" "\<not> g \<Longrightarrow> \<not> cl_gone c"
    "cl_gone c \<Longrightarrow> cl_outgoing c = []" "cl_closing c \<Longrightarrow> cl_cursor c = None"
    "\<not> cl_gone c \<Longrightarrow> length (cl_buf c) \<le> RECEIVE_LIMIT"
proof -
  from assms(1) obtain hist where H: "host_inv hist h w" and g: "g \<or> alive h" unfolding inv_def by blast
  note C = client_invD [OF host_invD(5) [OF H assms(2)]]
  show "queue_ok c" "input_ok c" "cl_version c = 1" "cl_gone c \<Longrightarrow> cl_outgoing c = []"
    "cl_closing c \<Longrightarrow> cl_cursor c = None" "\<not> cl_gone c \<Longrightarrow> length (cl_buf c) \<le> RECEIVE_LIMIT"
    using C by auto
  show "\<not> g \<Longrightarrow> \<not> cl_gone c" using g assms(2) by (simp add: alive_def)
qed

lemma client_inv_refill:
  assumes H: "host_inv hist h w" "client_inv hist w c" and c: "\<not> cl_gone c" "cl_cursor c = Some cur"
  shows "client_inv hist w (refill_loop (ho_journal h) cur c)
    \<and> same_input c (refill_loop (ho_journal h) cur c)"
proof -
  note I = host_invD [OF H(1)] note C = client_invD [OF H(2)]
  obtain i where i: "cursor_rep hist cur i" using C(9) [OF c(2)] by blast
  have "\<not> cl_closing c" using C(11) c(2) by auto
  with refill_loop_ok [OF I(1,2) i C(1) C(5) [OF c(1)]] C c history_rep_ends(1) [OF I(1)]
  show ?thesis by (auto simp: Let_def client_inv_def same_input_def input_ok_def)
qed

lemma refill_outgoing_inv:
  assumes "inv False n h w"
  shows "inv False n (refill_outgoing h) w"
proof -
  show ?thesis
  proof (cases "\<exists>c cur. ho_client h = Some c \<and> cl_cursor c = Some cur")
    case False
    then have "refill_outgoing h = h"
      by (cases "ho_client h") (auto simp: refill_outgoing_def split: option.split)
    then show ?thesis using assms by simp
  next
    case True
    then obtain c cur where 2: "ho_client h = Some c" "cl_cursor c = Some cur" by blast
    have h': "refill_outgoing h = h\<lparr>ho_client := Some (refill_loop (ho_journal h) cur c)\<rparr>"
      using 2 by (simp add: refill_outgoing_def)
    note R = client_inv_refill [OF _ _ _ 2(2)]
    from assms obtain hist where H: "host_inv hist h w" unfolding inv_def by blast
    have alive: "\<not> cl_gone c" using inv_D(4) [OF assms 2(1)] by simp
    have S: "same_input c (refill_loop (ho_journal h) cur c)"
      using R [OF H host_invD(5) [OF H 2(1)] alive] by simp
    show ?thesis
      unfolding h' by (rule inv_client [OF assms 2(1)])
        (use R alive S in \<open>auto simp: same_input_def\<close>)
  qed
qed

subsection \<open>Messages\<close>

lemma client_inv_queue:
  assumes "client_inv hist w c" "fits m" "\<not> is_welcome m" "\<not> is_ack m" "output_end_of m = None"
  shows "client_inv hist w (queue m c)"
proof (cases "cl_gone c")
  case True
  then show ?thesis using assms(1) by (simp add: queue_def)
next
  case False
  then show ?thesis
    using assms queue_kept [of c m] queue_wire [of "os_sent w (cl_fd c)" c m]
    by (auto simp: client_inv_def input_ok_def queue_def push_out_outgoing)
qed

lemma client_inv_end:
  assumes e: "end_connection m c v = (c', v')" and m: "m = Goodbye \<or> (\<exists>e t. m = Error e t)"
    and inv: "client_inv hist w c"
  shows "client_inv hist w c' \<and> cl_fd c' = cl_fd c \<and> cl_closing c' \<and> cl_gone c' = cl_gone c
    \<and> cl_buf c' = cl_buf c \<and> same_os v v'"
proof -
  note C = client_invD [OF inv]
  note E = end_connection_ok [OF e C(1) m, of "os_sent w (cl_fd c)"]
  have "ends_within (offset (h_end hist)) (cl_outgoing c')"
  proof -
    let ?c = "c\<lparr>cl_input := [], cl_input_cost := 0, cl_cursor := None\<rparr>"
    have "ends_within (offset (h_end hist)) (cl_outgoing (drop_unstarted ?c))"
      using C(4) by (auto simp: drop_unstarted_def ends_within_def Let_def)
    moreover have "cl_outgoing c' = cl_outgoing (queue m (drop_unstarted ?c))"
      using e by (auto simp: end_connection_def Let_def split: prod.splits)
    moreover have "output_end_of m = None" using m by auto
    ultimately show ?thesis by (auto simp: queue_def push_out_outgoing)
  qed
  then show ?thesis
    using E C by (auto simp: client_inv_def)
qed

lemma refuse_client_inv:
  assumes "refuse_client code msg h w = (h', w')" "inv g n h w"
  shows "inv g n h' w' \<and> same_os w w'
    \<and> (\<forall>c. ho_client h = Some c \<longrightarrow> (\<exists>c'. ho_client h' = Some c' \<and> cl_gone c' = cl_gone c
      \<and> cl_fd c' = cl_fd c \<and> cl_closing c'))
    \<and> ho_ended h' = ho_ended h \<and> (ho_client h = None \<longrightarrow> ho_client h' = None)"
proof (cases "ho_client h")
  case None
  then show ?thesis using assms by (auto simp: refuse_client_def same_os_def)
next
  case (Some c)
  let ?m = "Error code (map (\<lambda>ch. of_nat (of_char ch)) msg)"
  obtain c1 w1 where e: "end_connection ?m c w = (c1, w1)" by fastforce
  then have h': "h' = h\<lparr>ho_client := Some c1\<rparr>" "w' = w1"
    using assms(1) Some by (auto simp: refuse_client_def)
  from assms(2) obtain hist where H: "host_inv hist h w" unfolding inv_def by blast
  note E = client_inv_end [OF e]
  have facts: "cl_fd c1 = cl_fd c \<and> cl_closing c1 \<and> cl_gone c1 = cl_gone c \<and> same_os w w1"
    using E host_invD(5) [OF H Some] by blast
  have "inv g n (h\<lparr>ho_client := Some c1\<rparr>) w1"
    by (rule inv_client_same [OF assms(2) Some]) (use E facts in auto)
  then show ?thesis using facts Some h' by simp
qed

end
