(* ===== verification/Host_Step.thy ===== *)
theory Host_Step
  imports Host_Serve
begin

text \<open>
  The rest of the host's operations and whole iterations keep the invariant: acting on what the
  client sent, the end of a connection, the waiting connections, the child's exit.
\<close>

subsection \<open>Acting on messages\<close>

lemma exit_unchanged:
  assumes "history_rep h j" "history_rep h' j'" "grows h h'" "h_exit h' = h_exit h"
  shows "j_exit j' = j_exit j"
proof -
  have "h_pos h' n = h_pos h n" if "h_exit h = Some (n, e)" for n e
  proof -
    have "n \<le> length (h_events h)" using history_repD(1) [OF assms(1)] that by (simp add: h_ok_def)
    then have "take n (h_events h') = take n (h_events h)"
      using assms(3) unfolding grows_def by (metis min_absorb1 take_take)
    then show ?thesis by (simp add: h_pos_def)
  qed
  then show ?thesis
    using history_repD(10) [OF assms(1)] history_repD(10) [OF assms(2)] assms(4)
    by (cases "h_exit h") auto
qed

lemma inv_journal:
  assumes "inv g n h w" "j_end j = j_end (ho_journal h)" "j_exit j = j_exit (ho_journal h)"
    and "\<And>hist. host_inv hist h w \<Longrightarrow> \<exists>hist'. history_rep hist' j \<and> grows hist hist' \<and> blob_ok hist'"
  shows "inv g n (h\<lparr>ho_journal := j\<rparr>) w"
proof -
  from assms(1) obtain hist where H: "host_inv hist h w" and u: "u64_ok (j_end (ho_journal h) + n)"
    and g: "g \<or> alive h" unfolding inv_def by blast
  from assms(4) [OF H] obtain hist' where J: "history_rep hist' j" "grows hist hist'" "blob_ok hist'"
    by blast
  have "exit_ok (h\<lparr>ho_journal := j\<rparr>)" using host_invD(8) [OF H] assms(3) by (simp add: exit_ok_def)
  from host_inv_journal [OF H J this] have "host_inv hist' (h\<lparr>ho_journal := j\<rparr>) w" .
  moreover have "g \<or> alive (h\<lparr>ho_journal := j\<rparr>)" using g by (simp add: alive_def)
  ultimately show ?thesis using u assms(2) unfolding inv_def by auto
qed

lemma resize_inv:
  assumes "inv g n h w"
  shows "inv g n (h\<lparr>ho_journal := push_resize s (ho_journal h)\<rparr>) w"
proof (rule inv_journal [OF assms])
  from assms obtain hist where H: "host_inv hist h w" unfolding inv_def by blast
  note J = host_invD(1) [OF H]
  have gr: "grows hist (h_append [Resz s] hist)" by (simp add: grows_def)
  show "j_end (push_resize s (ho_journal h)) = j_end (ho_journal h)"
    using history_rep_ends(1) [OF push_resize_rep [OF J]] history_rep_ends(1) [OF J]
    by (simp add: h_end_def pos_after_sel)
  show "j_exit (push_resize s (ho_journal h)) = j_exit (ho_journal h)"
    by (rule exit_unchanged [OF J push_resize_rep [OF J] gr]) simp
  show "\<exists>hist'. history_rep hist' (push_resize s (ho_journal h)) \<and> grows hist hist' \<and> blob_ok hist'"
    if "host_inv hist h w" for hist
    using push_resize_rep [OF host_invD(1) [OF that]] host_invD(2) [OF that]
    by (intro exI [of _ "h_append [Resz s] hist"]) (simp add: grows_def blob_ok_def)
qed

lemma accept_snapshot_hist:
  assumes H: "host_inv hist h w" and acc: "accept_snapshot p blob (ho_journal h) = Inr j"
  shows "\<exists>hist'. history_rep hist' j \<and> grows hist hist' \<and> blob_ok hist' \<and> h_exit hist' = h_exit hist
    \<and> h_end hist' = h_end hist"
proof -
  note J = host_invD(1) [OF H]
  have none: "h_refusal p blob hist = None"
    using accept_snapshot_refused [OF J] acc by (cases "h_refusal p blob hist") auto
  from accept_snapshot_rep [OF J none] acc obtain k where
    k: "h_boundary hist p k" "history_rep (h_snapshot k blob hist) j" by auto
  have "h_snap hist \<le> k"
    using history_repD(1) [OF J] k(1) by (simp add: h_ok_def h_boundary_def)
  moreover have "length blob \<le> MAX_SNAPSHOT" using none by (simp add: h_refusal_def split: if_splits)
  ultimately show ?thesis
    using k(2) by (intro exI [of _ "h_snapshot k blob hist"])
      (simp add: grows_def blob_ok_def h_snapshot_def h_end_def)
qed

lemma snapshot_inv:
  assumes "inv g n h w" "accept_snapshot p blob (ho_journal h) = Inr j"
  shows "inv g n (h\<lparr>ho_journal := j\<rparr>) w"
proof (rule inv_journal [OF assms(1)])
  from assms(1) obtain hist where H: "host_inv hist h w" unfolding inv_def by blast
  from accept_snapshot_hist [OF H assms(2)] obtain hist' where
    S: "history_rep hist' j" "grows hist hist'" "h_exit hist' = h_exit hist" "h_end hist' = h_end hist"
    by blast
  show "j_end j = j_end (ho_journal h)"
    using history_rep_ends(1) [OF S(1)] history_rep_ends(1) [OF host_invD(1) [OF H]] S(4) by simp
  show "j_exit j = j_exit (ho_journal h)" by (rule exit_unchanged [OF host_invD(1) [OF H] S(1-3)])
  show "\<exists>hist'. history_rep hist' j \<and> grows hist hist' \<and> blob_ok hist'" if "host_inv hist h w" for hist
    using accept_snapshot_hist [OF that assms(2)] by blast
qed

lemma queue_inv:
  assumes "inv g n h w" "ho_client h = Some c" "\<And>hist. host_inv hist h w \<Longrightarrow> fits m" "\<not> is_welcome m"
    "\<not> is_ack m" "output_end_of m = None"
  shows "inv g n (h\<lparr>ho_client := Some (queue m c)\<rparr>) w"
  by (rule inv_client [OF assms(1,2)]) (use client_inv_queue assms(3-) in auto)

text \<open>What acting on messages leaves alone: the connection, its buffer, the marks on it.\<close>

definition same_client :: "host \<Rightarrow> host \<Rightarrow> bool" where
  "same_client h h' \<longleftrightarrow> (case (ho_client h, ho_client h') of
     (None, None) \<Rightarrow> True
   | (Some c, Some c') \<Rightarrow> cl_fd c' = cl_fd c \<and> cl_gone c' = cl_gone c
   | _ \<Rightarrow> False)"

lemma same_client_refl [simp]: "same_client h h"
  by (simp add: same_client_def split: option.split)

lemma same_client_trans: "same_client h h1 \<Longrightarrow> same_client h1 h2 \<Longrightarrow> same_client h h2"
  by (auto simp: same_client_def split: option.splits)

lemma refuse_same:
  assumes "refuse_client code msg h w = (h', w')" "inv g n h w"
  shows "inv g n h' w' \<and> same_client h h' \<and> os_sent w' = os_sent w \<and> os_accepts w' = os_accepts w"
  using refuse_client_inv [OF assms]
  by (cases "ho_client h") (auto simp: same_client_def same_os_def)

lemma handle_inv:
  assumes go: "handle m c h w = (h', w')" and inv: "inv g n h w" and c: "ho_client h = Some c"
    and open_: "\<not> cl_closing c" and held: "\<not> held m c" and ok: "client_ok m"
  shows "inv g n h' w' \<and> same_client h h' \<and> os_sent w' = os_sent w \<and> os_accepts w' = os_accepts w"
proof (cases m)
  case (Hello v t)
  then show ?thesis
    using refuse_same [OF _ inv] go by auto
next
  case Info
  have "inv g n (h\<lparr>ho_client := Some (queue (InfoReply (info_reply h)) c)\<rparr>) w"
    by (rule queue_inv [OF inv c]) (auto simp: info_reply_def dest: host_invD(3))
  with Info go c show ?thesis by (auto simp: same_client_def)
next
  case (Read p)
  show ?thesis
  proof (cases "cl_cursor c")
    case None
    have "inv g n (h\<lparr>ho_client := Some (c\<lparr>cl_cursor := Some (read p (ho_journal h))\<rparr>)\<rparr>) w"
    proof (rule inv_client [OF inv c])
      fix hist assume H: "host_inv hist h w" and C: "client_inv hist w c"
      have "\<exists>i. cursor_rep hist (read p (ho_journal h)) i"
        using read_ok [OF host_invD(1) [OF H], of p] by (auto split: if_splits)
      then show "client_inv hist w (c\<lparr>cl_cursor := Some (read p (ho_journal h))\<rparr>)"
        using C open_ by (simp add: client_inv_def queue_ok_def input_ok_def)
    qed simp_all
    with Read None go c show ?thesis by (auto simp: same_client_def)
  next
    case (Some cur)
    with Read show ?thesis
      using refuse_same [OF _ inv] go by auto
  qed
next
  case (Snapshot p blob)
  show ?thesis
  proof (cases "accept_snapshot p blob (ho_journal h)")
    case (Inl r)
    have "inv g n (h\<lparr>ho_client := Some (queue (SnapshotRejected p r) c)\<rparr>) w"
      by (rule queue_inv [OF inv c]) simp_all
    with Inl Snapshot go c show ?thesis by (auto simp: same_client_def)
  next
    case (Inr j)
    have "inv g n ((h\<lparr>ho_journal := j\<rparr>)\<lparr>ho_client := Some (queue (SnapshotAccepted p) c)\<rparr>) w"
      by (rule queue_inv [OF snapshot_inv [OF inv Inr]]) (simp_all add: c)
    with Inr Snapshot go c show ?thesis by (auto simp: same_client_def)
  qed
next
  case (Input data)
  show ?thesis
  proof (cases "cl_gone c")
    case True
    with Input go inv show ?thesis by auto
  next
    case False
    have "inv g n (h\<lparr>ho_client := Some (queue_input data c)\<rparr>) w"
    proof (rule inv_client [OF inv c])
      fix hist assume C: "client_inv hist w c"
      have "input_ok (queue_input data c)"
        by (rule queue_input_ok) (use C held ok Input False in \<open>auto simp: client_inv_def\<close>)
      then show "client_inv hist w (queue_input data c)"
        using C open_ False by (simp add: client_inv_def queue_input_def queue_ok_def)
    qed (simp_all add: queue_input_def)
    with Input False go c show ?thesis by (auto simp: same_client_def queue_input_def)
  qed
next
  case (Resize s)
  have "inv g n (h\<lparr>ho_journal := push_resize s (ho_journal h)\<rparr>) (w\<lparr>os_sizes := os_sizes w @ [s]\<rparr>)"
    by (rule inv_os [OF resize_inv [OF inv]]) (simp add: same_os_def)
  with Resize go show ?thesis by (auto simp: same_client_def split: option.split)
next
  case Shutdown
  obtain c1 w1 where e: "end_connection Goodbye c w = (c1, w1)" by fastforce
  from inv obtain hist where H: "host_inv hist h w" unfolding inv_def by blast
  note E = client_inv_end [OF e]
  have facts: "cl_fd c1 = cl_fd c \<and> cl_closing c1 \<and> cl_gone c1 = cl_gone c \<and> same_os w w1"
    using E host_invD(5) [OF H c] by blast
  have "inv g n (h\<lparr>ho_client := Some c1\<rparr>) w1"
    by (rule inv_client_same [OF inv c]) (use E facts in auto)
  then have "inv g n (h\<lparr>ho_client := Some c1, ho_pending := [], ho_ended := Some EndShutdown\<rparr>) w1"
    using facts by (auto simp: inv_def host_inv_def fds_ok_def client_fds_def pending_ok_def
        exit_ok_def ended_ok_def alive_def)
  with e Shutdown go c facts show ?thesis by (auto simp: same_client_def same_os_def)
qed

lemma act_loop_inv:
  "act_loop rest h w = (rest', h', w') \<Longrightarrow> inv g n h w \<Longrightarrow>
    inv g n h' w' \<and> length rest' \<le> length rest \<and> same_client h h' \<and> os_sent w' = os_sent w
      \<and> os_accepts w' = os_accepts w"
proof (induction rest h w rule: act_loop.induct)
  case (1 rest h w)
  note loop = "1.prems"(1) [unfolded act_loop.simps [of rest h w]]
  note inv = "1.prems"(2)
  have refuse: ?case
    if "(rest, refuse_client code msg h w) = (rest', h', w')" "ho_client h = Some c" for code msg c
    using refuse_same [OF _ inv, of code msg h' w'] that by auto
  show ?case
  proof (cases "ho_client h")
    case None
    with loop inv show ?thesis by auto
  next
    case (Some c)
    note loop = loop [unfolded Some option.case]
    show ?thesis
    proof (cases "stalled c")
      case True
      with loop inv show ?thesis by auto
    next
      case False
      note loop = loop [unfolded if_not_P [OF False]]
      show ?thesis
      proof (cases "split_frame rest MAX_FRAME")
        case (Inl e)
        with loop refuse Some show ?thesis by auto
      next
        case split: (Inr fo)
        show ?thesis
        proof (cases fo)
          case None
          with split loop inv show ?thesis by auto
        next
          case (Some f)
          note sp = split [unfolded Some]
          note loop = loop [unfolded sp sum.case option.case]
          show ?thesis
          proof (cases "decode_client f (cl_version c)")
            case (Inl e)
            with loop refuse \<open>ho_client h = Some c\<close> show ?thesis by auto
          next
            case (Inr m)
            note loop = loop [unfolded Inr sum.case]
            show ?thesis
            proof (cases "held m c")
              case True
              with loop inv show ?thesis by auto
            next
              case held: False
              obtain h1 w1 where ha: "handle m c h w = (h1, w1)" by fastforce
              have "client_ok m" using Inr by (simp add: decode_client_iff)
              note M = handle_inv [OF ha inv \<open>ho_client h = Some c\<close> _ held this]
              have M': "inv g n h1 w1 \<and> same_client h h1 \<and> os_sent w1 = os_sent w
                  \<and> os_accepts w1 = os_accepts w"
                using M False by (simp add: stalled_def)
              have go: "act_loop (drop (f_consumed f) rest) h1 w1 = (rest', h', w')"
                using loop held ha by simp
              from "1.IH" [OF \<open>ho_client h = Some c\<close> False split Some Inr held ha [symmetric] refl go]
              show ?thesis using M' same_client_trans by auto
            qed
          qed
        qed
      qed
    qed
  qed
qed

lemma act_on_buffered_inv:
  assumes "act_on_buffered h w = (h', w')" "inv g n h w"
  shows "inv g n h' w' \<and> same_client h h' \<and> os_sent w' = os_sent w \<and> os_accepts w' = os_accepts w"
proof (cases "ho_client h")
  case None
  with assms show ?thesis by (simp add: act_on_buffered_def)
next
  case (Some c)
  obtain rest h1 w1 where loop: "act_loop (cl_buf c) h w = (rest, h1, w1)" by (metis prod_cases3)
  note L = act_loop_inv [OF loop assms(2)]
  from L Some obtain c1 where c1: "ho_client h1 = Some c1" "cl_fd c1 = cl_fd c" "cl_gone c1 = cl_gone c"
    by (auto simp: same_client_def split: option.splits)
  have h': "h' = h1\<lparr>ho_client := Some (c1\<lparr>cl_buf := rest\<rparr>)\<rparr>" "w' = w1"
    using assms(1) Some loop c1(1) by (auto simp: act_on_buffered_def on_client_def)
  have "inv g n (h1\<lparr>ho_client := Some (c1\<lparr>cl_buf := rest\<rparr>)\<rparr>) w1"
  proof (rule inv_client)
    show "inv g n h1 w1" "ho_client h1 = Some c1" using L c1 by auto
    fix hist assume "client_inv hist w1 c1"
    then show "client_inv hist w1 (c1\<lparr>cl_buf := rest\<rparr>)"
      using L inv_D(7) [OF assms(2) Some] c1(3)
      by (auto simp: client_inv_def queue_ok_def input_ok_def)
  qed simp_all
  then show ?thesis using L h' c1 Some by (auto simp: same_client_def)
qed

end
