(* ===== verification/Host_Run.thy ===== *)
theory Host_Run
  imports Host_Step
begin

text \<open>
  Whole iterations of a terminal host keep the invariant, and so does every run: \<open>host_step\<close> is
  one iteration under any answers of the operating system.
\<close>

subsection \<open>The client's connection\<close>

lemma receive_ok:
  "receive limit buf as = (r, buf', as') \<Longrightarrow> length buf \<le> limit \<Longrightarrow> length buf' \<le> limit"
proof (induction limit buf as rule: receive.induct)
  case (1 limit buf as)
  note loop = "1.prems"(1) [unfolded receive.simps [of limit buf as] Let_def]
  let ?space = "min (limit - length buf) (64 * 1024)"
  show ?case
  proof (cases "?space = 0")
    case True
    with loop "1.prems"(2) show ?thesis by auto
  next
    case False
    obtain a as1 where t: "os_take ?space as = (a, as1)" by fastforce
    note loop = loop [unfolded if_not_P [OF False] t prod.case]
    show ?thesis
    proof (cases a)
      case (Bytes bs)
      have "length bs \<le> ?space" using os_take_room t Bytes by blast
      then have "length (buf @ bs) \<le> limit" using "1.prems"(2) by (simp add: le_diff_conv2)
      then show ?thesis
        using "1.IH"(1) [OF refl False t [symmetric] Bytes] loop "1.prems"(2) Bytes
        by (auto split: if_splits)
    next
      case RIntr
      then show ?thesis
        using "1.IH"(2) [OF refl False t [symmetric] RIntr] loop "1.prems"(2) by simp
    qed (use loop "1.prems"(2) in auto)
  qed
qed

lemma receive_on_ok:
  assumes "receive_on fd limit buf w = (r, buf', w')" "length buf \<le> limit"
  shows "length buf' \<le> limit" "same_os w w'"
  using assms receive_ok [of limit buf "os_recvs w fd"]
  by (auto simp: receive_on_def same_os_def split: prod.splits)

lemma inv_set_buf:
  assumes "inv g n h w" "ho_client h = Some c" "\<not> cl_gone c \<longrightarrow> length buf \<le> RECEIVE_LIMIT" "same_os w w'"
  shows "inv g n (h\<lparr>ho_client := Some (c\<lparr>cl_buf := buf\<rparr>)\<rparr>) w'"
  by (rule inv_client_same [OF assms(1,2,4)])
    (use assms(3) in \<open>auto simp: client_inv_def queue_ok_def input_ok_def\<close>)

lemma inv_mark_gone:
  assumes "inv g n h w" "ho_client h = Some c"
  shows "inv True n (h\<lparr>ho_client := Some (mark_gone c)\<rparr>) w"
proof -
  from assms obtain hist where H: "host_inv hist h w" and u: "u64_ok (j_end (ho_journal h) + n)"
    unfolding inv_def by blast
  have "client_inv hist w (mark_gone c)"
    using host_invD(5) [OF H assms(2)]
    by (simp add: client_inv_def mark_gone_def queue_ok_def input_ok_def)
  then have "host_inv hist (h\<lparr>ho_client := Some (mark_gone c)\<rparr>) w"
    by (intro host_inv_client_only [OF H assms(2)]) (simp_all add: mark_gone_def)
  with u show ?thesis unfolding inv_def by auto
qed

lemma inv_drop: "inv g n h w \<Longrightarrow> inv False n (drop_client h) w"
  using host_inv_drop by (auto simp: inv_def drop_client_def alive_def)

lemma last_read_inv:
  assumes "last_read h w = (h', w')" "inv True n h w" "\<forall>c. ho_client h = Some c \<longrightarrow> cl_gone c"
  shows "inv True n h' w'"
proof (cases "ho_client h")
  case None
  with assms show ?thesis by (simp add: last_read_def)
next
  case (Some c)
  show ?thesis
  proof (cases "cl_closing c")
    case True
    with assms Some show ?thesis by (simp add: last_read_def)
  next
    case False
    obtain r buf w1 where rc: "receive_on (cl_fd c) (length (cl_buf c) + RECEIVE_LIMIT) (cl_buf c) w = (r, buf, w1)"
      by (metis prod_cases3)
    have "inv True n (h\<lparr>ho_client := Some (c\<lparr>cl_buf := buf\<rparr>)\<rparr>) w1"
      by (rule inv_set_buf [OF assms(2) Some]) (use assms(3) Some receive_on_ok [OF rc] in auto)
    then show ?thesis
      using act_on_buffered_inv assms(1) Some False rc by (auto simp: last_read_def)
  qed
qed

lemma close_client_inv:
  assumes "close_client h w = (h', w')" "inv False n h w"
  shows "inv False n h' w' \<and> ho_client h' = None"
proof (cases "ho_client h")
  case None
  with assms show ?thesis by (simp add: close_client_def)
next
  case (Some c)
  let ?h = "h\<lparr>ho_client := Some (mark_gone c)\<rparr>"
  obtain h1 w1 where a: "act_on_buffered ?h w = (h1, w1)" by fastforce
  obtain h2 w2 where l: "last_read h1 w1 = (h2, w2)" by fastforce
  have A: "inv True n h1 w1 \<and> same_client ?h h1"
    using act_on_buffered_inv [OF a inv_mark_gone [OF assms(2) Some]] by blast
  then have "\<forall>c. ho_client h1 = Some c \<longrightarrow> cl_gone c"
    by (auto simp: same_client_def mark_gone_def)
  with last_read_inv [OF l] A have "inv True n h2 w2" by blast
  from inv_drop [OF this] show ?thesis
    using assms(1) Some a l by (auto simp: close_client_def drop_client_def)
qed

lemma write_client_inv:
  assumes "write_client h w = (h', w')" "inv False n h w"
  shows "inv False n h' w'"
proof (cases "ho_client h")
  case None
  with assms show ?thesis by (simp add: write_client_def)
next
  case (Some c)
  from assms(2) obtain hist where H: "host_inv hist h w" and u: "u64_ok (j_end (ho_journal h) + n)"
    and al: "alive h" unfolding inv_def by blast
  note C = client_invD [OF host_invD(5) [OF H Some]]
  have gone: "\<not> cl_gone c" using al Some by (simp add: alive_def)
  obtain c1 d1 w1 f where sl: "send_loop c (ho_delivered h) w = (c1, d1, w1, f)" by (metis prod_cases4)
  note S = send_loop_ok [OF sl C(1) C(5) [OF gone]]
  have ends: "d1 \<le> offset (h_end hist)" "ends_within (offset (h_end hist)) (cl_outgoing c1)"
    using S C(4) host_invD(4) [OF H] by blast+
  have c1: "client_inv hist w1 c1"
    using S ends C gone by (auto simp: client_inv_def same_input_def input_ok_def)
  let ?h = "h\<lparr>ho_client := Some c1, ho_delivered := d1\<rparr>"
  have "host_inv hist ?h w1"
    by (rule host_inv_client [OF H Some c1 _ _ _ _ ends(1)])
      (use S gone in \<open>auto simp: same_input_def\<close>)
  then have inv1: "inv False n ?h w1"
    using u S gone unfolding inv_def by (auto simp: alive_def same_input_def)
  show ?thesis
    using assms(1) Some sl close_client_inv [OF _ inv1] inv1 inv_drop [OF inv1]
    by (auto simp: write_client_def Let_def split: if_splits)
qed

lemma read_client_inv:
  assumes "read_client h w = (h', w')" "inv False n h w"
  shows "inv False n h' w'"
proof (cases "ho_client h")
  case None
  with assms show ?thesis by (simp add: read_client_def)
next
  case (Some c)
  have gone: "\<not> cl_gone c" using inv_D(4) [OF assms(2) Some] by simp
  obtain r buf w1 where rc: "receive_on (cl_fd c) RECEIVE_LIMIT (cl_buf c) w = (r, buf, w1)"
    by (metis prod_cases3)
  note R = receive_on_ok [OF rc inv_D(7) [OF assms(2) Some gone]]
  have inv1: "inv False n (h\<lparr>ho_client := Some (c\<lparr>cl_buf := buf\<rparr>)\<rparr>) w1"
    by (rule inv_set_buf [OF assms(2) Some _ R(2)]) (use R(1) in simp)
  show ?thesis
    using assms(1) Some rc close_client_inv [OF _ inv1] act_on_buffered_inv [OF _ inv1]
    by (auto simp: read_client_def Let_def split: if_splits)
qed

subsection \<open>Waiting connections\<close>

text \<open>A change of the waiting connections.\<close>

lemma inv_pending:
  assumes "inv g n h w" "ho_ended h = None"
    and "pending_ok (h\<lparr>ho_pending := ps\<rparr>)" "fds_ok (h\<lparr>ho_pending := ps\<rparr>) w'"
    and "\<forall>c. ho_client h = Some c \<longrightarrow> os_sent w' (cl_fd c) = os_sent w (cl_fd c)"
  shows "inv g n (h\<lparr>ho_pending := ps\<rparr>) w'"
proof -
  from assms(1) obtain hist where H: "host_inv hist h w" and u: "u64_ok (j_end (ho_journal h) + n)"
    and g: "g \<or> alive h" unfolding inv_def by blast
  have "client_inv hist w' c" if "ho_client h = Some c" for c
    using host_invD(5) [OF H that] assms(5) that by (simp add: client_inv_def)
  then have "host_inv hist (h\<lparr>ho_pending := ps\<rparr>) w'"
    using H assms(2-4) by (simp add: host_inv_def exit_ok_def ended_ok_def)
  moreover have "g \<or> alive (h\<lparr>ho_pending := ps\<rparr>)" using g by (simp add: alive_def)
  ultimately show ?thesis using u unfolding inv_def by auto
qed

lemma inv_fds: "inv g n h w \<Longrightarrow> fds_ok h w \<and> pending_ok h"
  by (auto simp: inv_def host_inv_def)

text \<open>Answers to \<open>accept\<close> used up without a new waiting connection.\<close>

lemma inv_accepts:
  assumes "inv g n h w" "os_sent w' = os_sent w" "set (accept_fds (os_accepts w')) \<subseteq> set (accept_fds (os_accepts w))"
    and "distinct (accept_fds (os_accepts w))  \<longrightarrow> distinct (accept_fds (os_accepts w'))"
  shows "inv g n h w'"
proof -
  from assms(1) obtain hist where H: "host_inv hist h w" and r: "u64_ok (j_end (ho_journal h) + n)" "g \<or> alive h"
    unfolding inv_def by blast
  have "fds_ok h w'"
    using host_invD(6) [OF H] assms(2-4) by (auto simp: fds_ok_def)
  moreover have "client_inv hist w' c" if "ho_client h = Some c" for c
    using host_invD(5) [OF H that] assms(2) by (simp add: client_inv_def)
  ultimately have "host_inv hist h w'" using H by (simp add: host_inv_def)
  with r show ?thesis unfolding inv_def by blast
qed

lemma os_now_sel [simp]: "os_sent (snd (os_now w)) = os_sent w" "os_accepts (snd (os_now w)) = os_accepts w"
  by (simp_all add: os_now_def split: list.split)

lemma inv_paused: "inv g n h w \<Longrightarrow> inv g n (h\<lparr>ho_accept_paused := t\<rparr>) w"
  by (simp add: inv_def host_inv_def fds_ok_def client_fds_def pending_ok_def exit_ok_def ended_ok_def
      alive_def)

lemma accept_fds_Cons:
  "accept_fds (a # as) = (case a of Accepted fd u \<Rightarrow> fd # accept_fds as | _ \<Rightarrow> accept_fds as)"
  by (cases a) auto

lemma distinct_swap:
  assumes "distinct (P @ C @ f # A)" "set W \<subseteq> set P" "distinct W"
  shows "distinct ((W @ [f]) @ C @ A)"
  using assms by auto

lemma fds_ok_accepted:
  assumes f: "fds_ok h w" "accept_fds (os_accepts w) = f # A" "set W \<subseteq> set (ho_pending h)"
    and "distinct (map pd_fd (ho_pending h)) \<longrightarrow> distinct (map pd_fd W)"
    and w': "os_sent w' = os_sent w" "accept_fds (os_accepts w') = A" "pd_fd p = f"
  shows "fds_ok (h\<lparr>ho_pending := W @ [p]\<rparr>) w'"
proof -
  let ?P = "map pd_fd (ho_pending h)"
  have sub: "set (map pd_fd W) \<subseteq> set ?P" using f(3) by auto
  have d: "distinct (?P @ client_fds h @ f # A)" using f(1,2) by (simp add: fds_ok_def)
  have "distinct ((map pd_fd W @ [f]) @ client_fds h @ A)"
    by (rule distinct_swap [OF d sub]) (use d assms(4) in simp)
  moreover have "client_fds (h\<lparr>ho_pending := W @ [p]\<rparr>) = client_fds h" by (simp add: client_fds_def)
  moreover have "\<forall>fd\<in>set ((map pd_fd W @ [f]) @ A). os_sent w fd = []"
    using f(1,2) sub unfolding fds_ok_def by auto
  moreover have "\<forall>fd. clean (os_sent w fd)" using f(1) by (simp add: fds_ok_def)
  ultimately show ?thesis using w'(3) unfolding fds_ok_def w'(1,2) by simp
qed

lemma accept_loop_inv:
  "accept_loop k h w = (h', w') \<Longrightarrow> inv g n h w \<Longrightarrow> ho_ended h = None \<Longrightarrow> inv g n h' w'"
proof (induction k h w rule: accept_loop.induct)
  case (2 k h w)
  note loop = "2.prems"(1) [unfolded accept_loop.simps] and inv = "2.prems"(2)
  obtain a w1 where nx: "next_accept w = (a, w1)" by fastforce
  have w1: "os_sent w1 = os_sent w" using nx by (auto simp: next_accept_def split: list.splits)
  have used: "inv g n h w1"
    by (rule inv_accepts [OF inv w1])
      (use nx in \<open>auto simp: next_accept_def accept_fds_Cons split: list.splits accept_answer.splits\<close>)
  show ?case
  proof (cases a)
    case (Accepted fd u)
    have acc: "accept_fds (os_accepts w) = fd # accept_fds (os_accepts w1)"
      using nx Accepted by (auto simp: next_accept_def split: list.splits)
    show ?thesis
    proof (cases u)
      case False
      then show ?thesis using "2.IH"(1) [OF nx [symmetric] Accepted] loop nx Accepted used "2.prems"(3) by simp
    next
      case True
      obtain now w2 where now: "os_now w1 = (now, w2)" by fastforce
      have w2: "os_sent w2 = os_sent w" "os_accepts w2 = os_accepts w1"
        using now w1 os_now_sel [of w1] by simp_all
      define W where "W = (if MAX_PENDING_CONNECTIONS \<le> length (ho_pending h) then tl (ho_pending h) else ho_pending h)"
      let ?ps = "W @ [\<lparr>pd_fd = fd, pd_buf = [], pd_deadline = now + millis HELLO_TIMEOUT\<rparr>]"
      have fo: "fds_ok h w" and po: "pending_ok h" using inv_fds [OF inv] by auto
      have sub: "set W \<subseteq> set (ho_pending h)" "distinct (map pd_fd (ho_pending h)) \<longrightarrow> distinct (map pd_fd W)"
        "length W < MAX_PENDING_CONNECTIONS"
      proof -
        have len: "length (ho_pending h) \<le> MAX_PENDING_CONNECTIONS" using po by (simp add: pending_ok_def)
        consider "W = tl (ho_pending h)" "ho_pending h \<noteq> []"
          | "W = ho_pending h" "length (ho_pending h) < MAX_PENDING_CONNECTIONS"
          unfolding W_def by (force simp: MAX_PENDING_CONNECTIONS_def split: if_splits)
        then have "set W \<subseteq> set (ho_pending h) \<and> (distinct (map pd_fd (ho_pending h)) \<longrightarrow> distinct (map pd_fd W))
            \<and> length W < MAX_PENDING_CONNECTIONS"
        proof cases
          case 1
          then obtain q qs where "ho_pending h = q # qs" "W = qs" by (cases "ho_pending h") auto
          then show ?thesis using len by auto
        next
          case 2
          then show ?thesis by simp
        qed
        then show "set W \<subseteq> set (ho_pending h)" "distinct (map pd_fd (ho_pending h)) \<longrightarrow> distinct (map pd_fd W)"
          "length W < MAX_PENDING_CONNECTIONS" by simp_all
      qed
      have "\<forall>p\<in>set W. length (pd_buf p) \<le> MAX_BEFORE_HELLO" using po sub(1) by (auto simp: pending_ok_def)
      then have "pending_ok (h\<lparr>ho_pending := ?ps\<rparr>)" using sub(3) by (simp add: pending_ok_def)
      moreover have "fds_ok (h\<lparr>ho_pending := ?ps\<rparr>) w2"
        by (rule fds_ok_accepted [OF fo acc sub(1,2) w2(1)]) (simp_all add: w2)
      ultimately have "inv g n (h\<lparr>ho_pending := ?ps\<rparr>) w2"
        by (rule inv_pending [OF inv "2.prems"(3)]) (simp add: w2)
      then show ?thesis
        using "2.IH"(2) [OF nx [symmetric] Accepted _ refl now [symmetric]] loop nx Accepted True now "2.prems"(3)
        by (simp add: W_def)
    qed
  qed (use loop nx used inv_paused inv_os [OF used os_now_same] in \<open>auto simp: Let_def split: prod.splits\<close>)
qed simp

lemma expire_pending_inv:
  assumes "expire_pending h w = (h', w')" "inv g n h w"
  shows "inv g n h' w'"
proof -
  obtain now w1 where now: "os_now w = (now, w1)" by fastforce
  let ?ps = "filter (\<lambda>p. now < pd_deadline p) (ho_pending h)"
  have h': "h' = h\<lparr>ho_pending := ?ps\<rparr>" "w' = w1" using assms(1) now by (auto simp: expire_pending_def)
  from assms(2) obtain hist where H: "host_inv hist h w" and r: "u64_ok (j_end (ho_journal h) + n)" "g \<or> alive h"
    unfolding inv_def by blast
  note I = host_invD [OF H]
  have "fds_ok (h\<lparr>ho_pending := ?ps\<rparr>) w"
    using I(6) distinct_map_filter [of pd_fd "ho_pending h"] by (auto simp: fds_ok_def client_fds_def)
  moreover have "pending_ok (h\<lparr>ho_pending := ?ps\<rparr>)"
    using I(7) length_filter_le [of "\<lambda>p. now < pd_deadline p" "ho_pending h"]
    by (auto simp: pending_ok_def simp del: length_filter_le)
  moreover have "ended_ok (h\<lparr>ho_pending := ?ps\<rparr>)" using I(9) by (simp add: ended_ok_def)
  ultimately have "host_inv hist (h\<lparr>ho_pending := ?ps\<rparr>) w"
    using H by (simp add: host_inv_def exit_ok_def)
  then have "host_inv hist (h\<lparr>ho_pending := ?ps\<rparr>) w1"
    by (rule host_inv_os) (use os_now_same [of w] now in simp)
  then show ?thesis using r h' by (auto simp: inv_def alive_def)
qed

end
