(* ===== verification/Host_Safe.thy ===== *)
theory Host_Safe
  imports Host_Run
begin

text \<open>
  The waiting connections while the rest is served, the promotion of one to the client, and
  whole iterations: the invariant holds in every state a host reaches.
\<close>

subsection \<open>The waiting connections stay, or the host has ended\<close>

definition keeps :: "host \<Rightarrow> host \<Rightarrow> bool" where
  "keeps h h' \<longleftrightarrow> ho_ended h' \<noteq> None \<or> (ho_pending h' = ho_pending h \<and> ho_ended h' = ho_ended h)"

lemma keeps_refl [simp]: "keeps h h"
  by (simp add: keeps_def)

lemma keeps_trans: "keeps h h1 \<Longrightarrow> keeps h1 h2 \<Longrightarrow> keeps h h2"
  by (auto simp: keeps_def)

lemma keeps_fields [simp]:
  "keeps h (h\<lparr>ho_client := c\<rparr>)" "keeps h (h\<lparr>ho_journal := j\<rparr>)" "keeps h (discard_input h)"
  "keeps h (end_of_output h)" "keeps h (output_read bs h)" "keeps h (drop_client h)"
  "keeps h (on_client f h)" "keeps h (h\<lparr>ho_client := c, ho_delivered := d\<rparr>)"
  by (simp_all add: keeps_def discard_input_def on_client_def end_of_output_def output_read_def
      drop_client_def)

lemma read_loop_keeps: "read_loop got h w = (h', w') \<Longrightarrow> keeps h h'"
proof (induction got h w rule: read_loop.induct)
  case (1 got h w)
  note loop = "1.prems" [unfolded read_loop.simps [of got h w]]
  show ?case
  proof (cases "READ_BUDGET \<le> got")
    case False
    obtain a as where t: "os_take (64 * 1024) (os_pty_reads w) = (a, as)" by fastforce
    note loop = loop [unfolded if_not_P [OF False] t prod.case]
    show ?thesis
    proof (cases a)
      case (Bytes bs)
      show ?thesis
      proof (cases "bs = []")
        case False
        then show ?thesis
          using "1.IH"(1) [OF \<open>\<not> READ_BUDGET \<le> got\<close> t [symmetric] Bytes False] loop Bytes
            keeps_trans [OF keeps_fields(5)] by simp
      qed (use loop Bytes in auto)
    next
      case RIntr
      then show ?thesis using "1.IH"(2) [OF False t [symmetric] RIntr] loop by simp
    qed (use loop in auto)
  qed (use loop in auto)
qed

lemma read_pty_keeps: "read_pty h w = (h', w') \<Longrightarrow> keeps h h'"
  using read_loop_keeps by (auto simp: read_pty_def split: if_splits)

lemma write_input_keeps: "write_input h w = (h', w') \<Longrightarrow> keeps h h'"
  by (auto simp: write_input_def discard_input_def on_client_def keeps_def Let_def
      split: if_splits option.splits prod.splits)

lemma refuse_client_keeps: "refuse_client code msg h w = (h', w') \<Longrightarrow> keeps h h'"
  by (auto simp: refuse_client_def split: option.splits prod.splits)

lemma handle_keeps: "handle m c h w = (h', w') \<Longrightarrow> keeps h h'"
  by (cases m) (auto simp: keeps_def Let_def refuse_client_def split: if_splits sum.splits option.splits prod.splits)

lemma act_loop_keeps: "act_loop rest h w = (rest', h', w') \<Longrightarrow> keeps h h'"
proof (induction rest h w rule: act_loop.induct)
  case (1 rest h w)
  have step: "keeps h h'" if "act_loop (drop (f_consumed f) rest) h1 w1 = (rest', h', w')"
    "handle m c h w = (h1, w1)" "ho_client h = Some c" "\<not> stalled c"
    "split_frame rest MAX_FRAME = Inr (Some f)" "decode_client f (cl_version c) = Inr m" "\<not> held m c"
    for f c m h1 w1
    using "1.IH" [OF that(3,4,5) refl that(6,7) that(2) [symmetric] refl that(1)] handle_keeps [OF that(2)]
      keeps_trans by blast
  show ?case
    using "1.prems" step refuse_client_keeps [of ECMalformed _ h w h' w']
    by (subst (asm) act_loop.simps)
      (auto split: option.splits if_splits sum.splits prod.splits)
qed

lemma act_on_buffered_keeps: "act_on_buffered h w = (h', w') \<Longrightarrow> keeps h h'"
proof (cases "ho_client h")
  case (Some c)
  assume a: "act_on_buffered h w = (h', w')"
  obtain rest h1 w1 where loop: "act_loop (cl_buf c) h w = (rest, h1, w1)" by (metis prod_cases3)
  then show ?thesis
    using a Some act_loop_keeps [OF loop] keeps_trans [OF _ keeps_fields(7)]
    by (auto simp: act_on_buffered_def)
qed (simp add: act_on_buffered_def)

lemma close_client_keeps: "close_client h w = (h', w') \<Longrightarrow> keeps h h'"
proof (cases "ho_client h")
  case (Some c)
  assume a: "close_client h w = (h', w')"
  obtain h1 w1 where b: "act_on_buffered (h\<lparr>ho_client := Some (mark_gone c)\<rparr>) w = (h1, w1)" by fastforce
  obtain h2 w2 where l: "last_read h1 w1 = (h2, w2)" by fastforce
  have "keeps h h1" using keeps_trans [OF keeps_fields(1) act_on_buffered_keeps [OF b]] .
  moreover have "keeps h1 h2"
    using l keeps_trans [OF keeps_fields(1) act_on_buffered_keeps]
    by (auto simp: last_read_def split: option.splits if_splits prod.splits)
  moreover have "h' = drop_client h2" using a Some b l by (simp add: close_client_def)
  ultimately show ?thesis using keeps_trans keeps_fields(6) by metis
qed (simp add: close_client_def)

lemma write_client_keeps: "write_client h w = (h', w') \<Longrightarrow> keeps h h'"
  using keeps_trans [OF keeps_fields(8) close_client_keeps] keeps_trans [OF keeps_fields(8) keeps_fields(6)]
  by (fastforce simp: write_client_def Let_def split: option.splits prod.splits if_splits)

lemma read_client_keeps: "read_client h w = (h', w') \<Longrightarrow> keeps h h'"
  using keeps_trans [OF keeps_fields(1) close_client_keeps]
    keeps_trans [OF keeps_fields(1) act_on_buffered_keeps]
  by (fastforce simp: read_client_def Let_def split: option.splits prod.splits if_splits)

subsection \<open>Promotion\<close>

lemma welcome_wire: "on_wire [] [\<lparr>out_bytes = frame_of (Welcome v), out_written = 0, out_end = e,
    out_ack = a, out_welcome = True\<rparr>]"
  by (auto simp: on_wire_def intro!: exI [of _ "[]"])

lemma new_client_inv:
  assumes "os_sent w fd = []" "length buf \<le> RECEIVE_LIMIT"
  shows "client_inv hist w (queue (Welcome v) (new_client fd 1 buf))"
proof -
  let ?out = "\<lparr>out_bytes = frame_of (Welcome v), out_written = 0, out_end = None, out_ack = False,
    out_welcome = True\<rparr>"
  have c: "queue (Welcome v) (new_client fd 1 buf) = (new_client fd 1 buf)\<lparr>cl_unsent := length (frame_of (Welcome v)),
      cl_outgoing := [?out]\<rparr>"
    by (simp add: queue_def push_out_def new_client_def)
  have "out_frame ?out"
    using fits_frame(2) [of "Welcome v"] by (auto simp: out_frame_def intro!: exI [of _ "Welcome v"])
  then show ?thesis
    using assms welcome_wire unfolding c
    by (simp add: client_inv_def queue_ok_def input_ok_def new_client_def out_left_def limits)
qed

lemma remove_nth_facts:
  assumes "i < length xs" "distinct (map f xs)"
  shows "set (remove_nth i xs) \<subseteq> set xs" "length (remove_nth i xs) = length xs - 1"
    "distinct (map f (remove_nth i xs))" "f (xs ! i) \<notin> f ` set (remove_nth i xs)"
proof -
  have "xs = take i xs @ xs ! i # drop (Suc i) xs" by (rule id_take_nth_drop [OF assms(1)])
  then have d: "distinct (map f (take i xs) @ f (xs ! i) # map f (drop (Suc i) xs))"
    using assms(2) by (metis list.simps(9) map_append)
  then show "distinct (map f (remove_nth i xs))" "f (xs ! i) \<notin> f ` set (remove_nth i xs)"
    by (auto simp: remove_nth_def)
  show "set (remove_nth i xs) \<subseteq> set xs"
    by (auto simp: remove_nth_def dest: in_set_takeD in_set_dropD)
  show "length (remove_nth i xs) = length xs - 1" using assms(1) by (simp add: remove_nth_def)
qed

text \<open>A waiting connection that is taken out, and what may then be sent on it.\<close>

lemma take_out_inv:
  assumes inv: "inv g n h w" and e: "ho_ended h = None" and i: "i < length (ho_pending h)"
    and w': "only_fd (pd_fd (ho_pending h ! i)) w w'" "clean (os_sent w' (pd_fd (ho_pending h ! i)))"
  shows "inv g n (h\<lparr>ho_pending := remove_nth i (ho_pending h)\<rparr>) w'"
proof -
  let ?fd = "pd_fd (ho_pending h ! i)" and ?ps = "remove_nth i (ho_pending h)"
  have fo: "fds_ok h w" and po: "pending_ok h" using inv_fds [OF inv] by auto
  have d: "distinct (map pd_fd (ho_pending h))" using fo by (simp add: fds_ok_def)
  note R = remove_nth_facts [OF i d]
  have mem: "?fd \<in> set (map pd_fd (ho_pending h))" using i by simp
  then have other: "?fd \<notin> set (client_fds h)" "?fd \<notin> set (accept_fds (os_accepts w))"
    using fo by (auto simp: fds_ok_def)
  have sent: "os_sent w' fd = os_sent w fd" if "fd \<noteq> ?fd" for fd using that w'(1) by (simp add: only_fd_def)
  have acc: "os_accepts w' = os_accepts w" using w'(1) by (simp add: only_fd_def)
  have "pending_ok (h\<lparr>ho_pending := ?ps\<rparr>)" using po R(1,2) by (auto simp: pending_ok_def)
  moreover have "fds_ok (h\<lparr>ho_pending := ?ps\<rparr>) w'"
  proof -
    have sub: "set (map pd_fd ?ps) \<subseteq> set (map pd_fd (ho_pending h))" using R(1) by auto
    have "distinct (map pd_fd ?ps @ client_fds h @ accept_fds (os_accepts w))"
      using fo sub R(3) unfolding fds_ok_def by auto
    moreover have "os_sent w' fd = []" if "fd \<in> set (map pd_fd ?ps @ accept_fds (os_accepts w))" for fd
    proof -
      have "fd \<noteq> ?fd" using that R(4) other(2) by auto
      moreover have "os_sent w fd = []" using that fo sub unfolding fds_ok_def by auto
      ultimately show ?thesis using sent by simp
    qed
    moreover have "clean (os_sent w' fd)" for fd
      using w'(2) sent [of fd] fo by (cases "fd = ?fd") (auto simp: fds_ok_def)
    moreover have "client_fds (h\<lparr>ho_pending := ?ps\<rparr>) = client_fds h" by (simp add: client_fds_def)
    ultimately show ?thesis unfolding fds_ok_def acc by simp
  qed
  ultimately show ?thesis
    by (rule inv_pending [OF inv e]) (use other(1) sent in \<open>auto simp: client_fds_def\<close>)
qed

lemma kept_pending_inv:
  assumes inv: "inv g n h w" and e: "ho_ended h = None" and i: "i < length (ho_pending h)"
    and buf: "length buf \<le> MAX_BEFORE_HELLO" and w': "same_os w w'"
  shows "inv g n (h\<lparr>ho_pending := (ho_pending h)[i := (ho_pending h ! i)\<lparr>pd_buf := buf\<rparr>]\<rparr>) w'"
proof -
  let ?ps = "(ho_pending h)[i := (ho_pending h ! i)\<lparr>pd_buf := buf\<rparr>]"
  have fo: "fds_ok h w" and po: "pending_ok h" using inv_fds [OF inv] by auto
  have fds: "map pd_fd ?ps = map pd_fd (ho_pending h)"
    using i by (simp add: map_update) (metis list_update_id nth_map)
  have "\<forall>p\<in>set ?ps. length (pd_buf p) \<le> MAX_BEFORE_HELLO"
    using po buf by (auto simp: pending_ok_def dest!: set_update_subset_insert [THEN subsetD])
  then have "pending_ok (h\<lparr>ho_pending := ?ps\<rparr>)" using po by (simp add: pending_ok_def)
  moreover have "fds_ok (h\<lparr>ho_pending := ?ps\<rparr>) w'"
    using fo fds w' by (simp add: fds_ok_def same_os_def client_fds_def)
  ultimately show ?thesis
    by (rule inv_pending [OF inv e]) (use w' in \<open>simp add: same_os_def\<close>)
qed

lemma min_version: "version \<noteq> 0 \<Longrightarrow> min version PROTOCOL_VERSION = 1" for version :: u32
proof -
  assume "version \<noteq> 0"
  then have "0 < unat version" by (simp add: unat_gt_0)
  then have "1 \<le> version" by (simp add: word_le_nat_alt)
  then show ?thesis by (simp add: PROTOCOL_VERSION_def min_def)
qed

lemma promote_inv:
  assumes go: "promote pd version rest outcome h w = (h', w')" and v: "version \<noteq> 0"
    and inv: "inv False n h w" and e: "ho_ended h = None" and fd: "os_sent w (pd_fd pd) = []"
    and new: "pd_fd pd \<notin> set (map pd_fd (ho_pending h) @ accept_fds (os_accepts w))"
    and rest: "length rest \<le> MAX_BEFORE_HELLO"
  shows "inv False n h' w' \<and> keeps h h'"
proof -
  let ?c = "queue (Welcome 1) (new_client (pd_fd pd) 1 rest)"
  let ?h = "h\<lparr>ho_client := Some ?c\<rparr>"
  have dr: "(drop_client h)\<lparr>ho_client := Some ?c\<rparr> = ?h" by (simp add: drop_client_def)
  from inv obtain hist where H: "host_inv hist h w" and u: "u64_ok (j_end (ho_journal h) + n)"
    unfolding inv_def by blast
  note I = host_invD [OF H]
  have "client_inv hist w ?c"
    by (rule new_client_inv [OF fd]) (use rest in \<open>simp add: RECEIVE_LIMIT_def limits\<close>)
  moreover have "fds_ok ?h w"
    using I(6) new by (auto simp: fds_ok_def client_fds_def new_client_def split: option.splits)
  ultimately have "host_inv hist ?h w"
    using H e by (simp add: host_inv_def pending_ok_def exit_ok_def ended_ok_def)
  moreover have "alive ?h" by (simp add: alive_def new_client_def)
  ultimately have inv1: "inv False n ?h w" using u unfolding inv_def by auto
  have "promote pd version rest outcome h w
      = (if outcome = Ended then close_client ?h w else act_on_buffered ?h w)"
    unfolding promote_def Let_def min_version [OF v] dr ..
  then have "(if outcome = Ended then close_client ?h w else act_on_buffered ?h w) = (h', w')"
    using go by simp
  then have "inv False n h' w' \<and> keeps ?h h'"
    using close_client_inv [OF _ inv1] act_on_buffered_inv [OF _ inv1]
      close_client_keeps [of ?h w h' w'] act_on_buffered_keeps [of ?h w h' w']
    by (metis (full_types))
  then show ?thesis using keeps_trans [OF keeps_fields(1)] by blast
qed

text \<open>A refusal sent on a connection is a prefix of one frame that opens it.\<close>

lemma clean_refusal: "opens m \<Longrightarrow> fits m \<Longrightarrow> clean (take k (frame_of m))"
  unfolding clean_def by (intro exI [of _ "[m]"]) (auto simp: take_is_prefix)

lemma send_refusal:
  assumes "opens m" "fits m" "os_sent w fd = []"
  shows "only_fd fd w (snd (send_on fd (frame_of m) w))" "clean (os_sent (snd (send_on fd (frame_of m) w)) fd)"
proof -
  obtain a w1 where s: "send_on fd (frame_of m) w = (a, w1)" by fastforce
  show "only_fd fd w (snd (send_on fd (frame_of m) w))" using send_on_ok(1) [OF s] s by simp
  show "clean (os_sent (snd (send_on fd (frame_of m) w)) fd)"
    using send_on_ok(2) [OF s] s assms clean_refusal [OF assms(1,2)] by (cases a) auto
qed

lemma read_pending_inv:
  assumes go: "read_pending i h w = (h', w')" and inv: "inv False n h w"
    and e: "ho_ended h = None" and i: "i < length (ho_pending h)"
  shows "inv False n h' w' \<and> (ho_ended h' \<noteq> None \<or> i \<le> length (ho_pending h'))"
proof -
  let ?pd = "ho_pending h ! i" and ?h = "h\<lparr>ho_pending := remove_nth i (ho_pending h)\<rparr>"
  have fo: "fds_ok h w" and po: "pending_ok h" using inv_fds [OF inv] by auto
  have mem: "?pd \<in> set (ho_pending h)" using i by simp
  obtain outcome buf w1 where rc: "receive_on (pd_fd ?pd) MAX_BEFORE_HELLO (pd_buf ?pd) w = (outcome, buf, w1)"
    by (metis prod_cases3)
  have "length (pd_buf ?pd) \<le> MAX_BEFORE_HELLO" using po mem by (auto simp: pending_ok_def)
  note R = receive_on_ok [OF rc this]
  have inv1: "inv False n h w1" by (rule inv_os [OF inv R(2)])
  have fo1: "fds_ok h w1" using inv_fds [OF inv1] by simp
  have none: "os_sent w1 (pd_fd ?pd) = []" using fo1 mem by (auto simp: fds_ok_def)
  have d: "distinct (map pd_fd (ho_pending h))" using fo by (simp add: fds_ok_def)
  note N = remove_nth_facts [OF i d]
  have out: "inv False n ?h w2" if "only_fd (pd_fd ?pd) w1 w2" "clean (os_sent w2 (pd_fd ?pd))" for w2
    using take_out_inv [OF inv1 e i that] .
  have gone: "inv False n ?h w1" by (rule out) (use none in simp_all)
  have kept: "inv False n (h\<lparr>ho_pending := (ho_pending h)[i := ?pd\<lparr>pd_buf := buf\<rparr>]\<rparr>) w1"
    by (rule kept_pending_inv [OF inv1 e i R(1)]) (simp add: same_os_def)
  have len: "i \<le> length (remove_nth i (ho_pending h))" using N(2) i by simp
  have ni: "\<not> length (ho_pending h) \<le> i" using i by simp
  note go = go [unfolded read_pending_def Let_def rc prod.case if_not_P [OF ni]]
  show ?thesis
  proof (cases "split_frame buf MAX_FRAME")
    case (Inl x)
    then show ?thesis using go gone len i by (auto split: if_splits)
  next
    case sp: (Inr fo)
    show ?thesis
    proof (cases fo)
      case None
      then show ?thesis using go sp gone kept len i by (auto split: if_splits)
    next
      case (Some f)
      show ?thesis
      proof (cases "decode_client f PROTOCOL_VERSION")
        case (Inl x)
        then show ?thesis using go sp Some gone len i by (auto split: if_splits)
      next
        case (Inr m)
        show ?thesis
        proof (cases m)
          case (Hello version take_over)
          let ?err = "Error ECUnsupportedVersion (map (\<lambda>ch. of_nat (of_char ch)) ''version 0'')"
          have S: "inv False n ?h (snd (send_on (pd_fd ?pd) (frame_of m) w1))" if "opens m" "fits m" for m
            by (rule out [OF send_refusal [OF that none]])
          have bad: "inv False n ?h (snd (send_on (pd_fd ?pd) (frame_of ?err) w1))"
            "inv False n ?h (snd (send_on (pd_fd ?pd) (frame_of Busy) w1))"
            by (rule S; simp add: opens_def)+
          show ?thesis
          proof (cases "version = 0 \<or> ho_client h \<noteq> None \<and> \<not> take_over")
            case True
            then show ?thesis using go sp Some Inr Hello bad len i by (auto split: if_splits)
          next
            case False
            then have p: "promote ?pd version (drop (f_consumed f) buf) outcome ?h w1 = (h', w')"
              and v: "version \<noteq> 0"
              using go sp Some Inr Hello i by (auto split: if_splits)
            have "pd_fd ?pd \<notin> set (map pd_fd (ho_pending ?h) @ accept_fds (os_accepts w1))"
              using N(4) fo1 mem by (auto simp: fds_ok_def)
            from promote_inv [OF p v gone _ none this] e R(1)
            have "inv False n h' w' \<and> keeps ?h h'" by simp
            then show ?thesis using len by (auto simp: keeps_def)
          qed
        qed (use go sp Some Inr gone len i in \<open>auto split: if_splits\<close>)
      qed
    qed
  qed
qed

lemma serve_pending_inv:
  "serve_pending k evs h w = (h', w') \<Longrightarrow> inv False n h w \<Longrightarrow>
    ho_ended h \<noteq> None \<or> k \<le> length (ho_pending h) \<Longrightarrow> inv False n h' w'"
proof (induction k evs h w rule: serve_pending.induct)
  case (2 i evs h w)
  show ?case
  proof (cases "ho_ended h")
    case None
    obtain h1 w1 where s: "(if i < length evs \<and> evs ! i then read_pending i h w else (h, w)) = (h1, w1)"
      by fastforce
    have "inv False n h1 w1 \<and> (ho_ended h1 \<noteq> None \<or> i \<le> length (ho_pending h1))"
      using s read_pending_inv [OF _ "2.prems"(2) None] "2.prems"(2,3) None by (auto split: if_splits)
    moreover have "serve_pending i evs h1 w1 = (h', w')"
      using "2.prems"(1) s None by simp
    ultimately show ?thesis using "2.IH" s None by auto
  qed (use "2.prems" in simp)
qed simp

end
