(* ===== verification/Host_Reach.thy ===== *)
theory Host_Reach
  imports Host_Safe
begin

text \<open>
  The child's exit, whole iterations of the event loop, and the states a host reaches over any
  sequence of what the operating system reports between two of them.
\<close>

subsection \<open>The child's exit\<close>

lemma os_now_eq: "os_now w = (t, w') \<Longrightarrow> same_os w w'"
  using os_now_same [of w] by simp

lemma read_pty_both:
  assumes "read_pty h w = (h', w')" "inv g (n + 2 * READ_BUDGET) h w"
  shows "inv g n h' w' \<and> keeps h h'"
  using read_pty_inv [OF assms] read_pty_keeps [OF assms(1)] by blast

lemma inv_draining:
  assumes inv: "inv g n h w" and none: "ho_child_exit h = None"
  shows "inv g n (h\<lparr>ho_child_exit := Some e, ho_draining := Some (e, d, b)\<rparr>) w"
proof -
  from inv obtain hist where H: "host_inv hist h w" and r: "u64_ok (j_end (ho_journal h) + n)" "g \<or> alive h"
    unfolding inv_def by blast
  have "j_exit (ho_journal h) = None"
    using host_invD(8) [OF H] none by (cases "j_exit (ho_journal h)") (auto simp: exit_ok_def)
  then have "host_inv hist (h\<lparr>ho_child_exit := Some e, ho_draining := Some (e, d, b)\<rparr>) w"
    using H by (simp add: host_inv_def fds_ok_def client_fds_def pending_ok_def exit_ok_def ended_ok_def)
  with r show ?thesis unfolding inv_def by (auto simp: alive_def)
qed

lemma reap_child_inv:
  assumes "reap_child h w = (h', w')" "inv g (n + 2 * READ_BUDGET) h w"
  shows "inv g n h' w' \<and> keeps h h'"
proof -
  have weak: "inv g n h w" by (rule inv_mono [OF assms(2)]) simp
  have os: "same_os w (w\<lparr>os_waits := ws\<rparr>)" for ws by (simp add: same_os_def)
  show ?thesis
  proof (cases "ho_child_exit h = None \<and> (\<exists>e ws. os_waits w = Some e # ws)")
    case True
    then obtain e ws where none: "ho_child_exit h = None" and e: "os_waits w = Some e # ws" by blast
    obtain now w1 where now: "os_now (w\<lparr>os_waits := ws\<rparr>) = (now, w1)" by fastforce
    let ?h = "h\<lparr>ho_child_exit := Some e, ho_draining := Some (e, now + millis EXIT_DRAIN_TIME, 0)\<rparr>"
    have "same_os (w\<lparr>os_waits := ws\<rparr>) w1" by (rule os_now_eq [OF now])
    then have "inv g (n + 2 * READ_BUDGET) ?h w1"
      by (intro inv_draining none inv_os [OF inv_os [OF assms(2) os]])
    moreover have "read_pty ?h w1 = (h', w')" using assms(1) none e now by (simp add: reap_child_def)
    ultimately have "inv g n h' w' \<and> keeps ?h h'" by (rule read_pty_both [rotated])
    moreover have "keeps h ?h" by (simp add: keeps_def)
    ultimately show ?thesis using keeps_trans by blast
  next
    case False
    then show ?thesis
      using assms(1) weak inv_os [OF weak os]
      by (auto simp: reap_child_def split: list.splits option.splits if_splits)
  qed
qed

text \<open>The exit is journaled where the drain ends.\<close>

lemma inv_exited:
  assumes inv: "inv g n h w" and d: "ho_draining h = Some (e, t, b)"
  shows "inv g n (h\<lparr>ho_journal := push_exit e (ho_journal h), ho_draining := None\<rparr>) w"
proof -
  from inv obtain hist where H: "host_inv hist h w" and r: "u64_ok (j_end (ho_journal h) + n)" "g \<or> alive h"
    unfolding inv_def by blast
  note I = host_invD [OF H]
  have ex: "ho_child_exit h = Some e" "j_exit (ho_journal h) = None" using I(8) d by (auto simp: exit_ok_def)
  let ?j = "push_exit e (ho_journal h)"
  have j: "j_exit ?j = Some (current (ho_journal h), e)" "j_end ?j = j_end (ho_journal h)"
    using ex by (simp_all add: push_exit_def)
  have "exit_ok (h\<lparr>ho_journal := ?j, ho_draining := None\<rparr>)" using ex j by (simp add: exit_ok_def)
  moreover have g: "grows hist (h_exited e hist)" "blob_ok (h_exited e hist)"
    using I(2) by (auto simp: grows_def blob_ok_def h_exited_def split: option.splits)
  moreover note client_inv_grows [OF g(1) I(5)] grows_end [OF g(1)] push_exit_rep [OF I(1), of e]
  ultimately have "host_inv (h_exited e hist) (h\<lparr>ho_journal := ?j, ho_draining := None\<rparr>) w"
    using I(2-4,6,7,9) unfolding host_inv_def
    by (simp add: fds_ok_def client_fds_def pending_ok_def ended_ok_def)
  with r j show ?thesis unfolding inv_def by (auto simp: alive_def)
qed

lemma pty_has_more_same: "pty_has_more h w = (b, w') \<Longrightarrow> same_os w w'"
  by (auto simp: pty_has_more_def same_os_def split: if_splits list.splits)

lemma finish_drain_inv:
  assumes go: "finish_drain h w = (h', w')" and inv: "inv g n h w"
  shows "inv g n h' w' \<and> keeps h h'"
proof (cases "ho_draining h")
  case None
  then show ?thesis using go inv by (simp add: finish_drain_def)
next
  case (Some x)
  then obtain e t b where d: "ho_draining h = Some (e, t, b)" by (cases x) auto
  obtain more w1 where m: "pty_has_more h w = (more, w1)" by fastforce
  obtain over w2 where o2: "(if more then let (now, w') = os_now w1 in (t \<le> now, w') else (True, w1)) = (over, w2)"
    by fastforce
  have "same_os w1 w2"
    using o2 os_now_eq [of w1] by (auto simp: same_os_def split: if_splits prod.splits)
  then have inv2: "inv g n h w2" using inv_os [OF inv_os [OF inv pty_has_more_same [OF m]]] by blast
  have "(h', w') = (if over \<or> EXIT_DRAIN_BYTES \<le> b
      then (h\<lparr>ho_journal := push_exit e (ho_journal h), ho_draining := None\<rparr>, w2) else (h, w2))"
    using go [unfolded finish_drain_def d option.case prod.case m Let_def o2 [unfolded Let_def]] by simp
  then show ?thesis
    using inv2 inv_exited [OF inv2 d] by (auto simp: keeps_def split: if_splits)
qed

subsection \<open>One iteration\<close>

lemma serve_pty_inv:
  assumes "serve_pty r wr h w = (h', w')" "inv g (n + 2 * READ_BUDGET) h w"
  shows "inv g n h' w' \<and> keeps h h'"
proof -
  obtain h1 w1 where a: "(if r then read_pty h w else (h, w)) = (h1, w1)" by fastforce
  have A: "inv g n h1 w1 \<and> keeps h h1"
    using a read_pty_both [OF _ assms(2)] inv_mono [OF assms(2), of n] by (auto split: if_splits)
  have "(if wr then write_input h1 w1 else (h1, w1)) = (h', w')"
    using assms(1) a by (simp add: serve_pty_def)
  then have "inv g n h' w' \<and> keeps h1 h'"
    using A write_input_inv write_input_keeps by (auto split: if_splits)
  then show ?thesis using A keeps_trans by blast
qed

lemma serve_client_inv:
  assumes "serve_client wr hup r h w = (h', w')" "inv False n h w"
  shows "inv False n h' w' \<and> keeps h h'"
proof -
  obtain h1 w1 where a: "(if wr then write_client h w else (h, w)) = (h1, w1)" by fastforce
  have A: "inv False n h1 w1 \<and> keeps h h1"
    using a write_client_inv write_client_keeps assms(2) by (auto split: if_splits)
  have "(if hup then close_client h1 w1 else if r then read_client h1 w1 else (h1, w1)) = (h', w')"
    using assms(1) a by (simp add: serve_client_def)
  then have "inv False n h' w' \<and> keeps h1 h'"
    using A close_client_inv close_client_keeps read_client_inv read_client_keeps
    by (auto split: if_splits)
  then show ?thesis using A keeps_trans by blast
qed

lemma accept_inv:
  "accept h w = (h', w') \<Longrightarrow> inv g n h w \<Longrightarrow> ho_ended h = None \<Longrightarrow> inv g n h' w'"
  unfolding accept_def by (rule accept_loop_inv)

lemma serve_last:
  assumes go: "serve po h w = (h', w')" and inv: "inv False (n + 4 * READ_BUDGET) h w"
  shows "\<exists>h8 w8 h9. act_on_buffered h8 w8 = (h9, w') \<and> h' = refill_outgoing h9 \<and> inv False n h9 w'"
proof -
  obtain ev_in ev_out where ev: "(case ho_client h of None \<Rightarrow> (False, False) | Some c \<Rightarrow> client_events c) = (ev_in, ev_out)"
    by fastforce
  obtain h1 w1 where s1: "reap_child h w = (h1, w1)" by fastforce
  obtain h2 w2 where s2: "serve_pty (ho_pty_open h \<and> po_pty_in po)
      ((ho_pty_open h \<and> has_input h) \<and> po_pty_out po) h1 w1 = (h2, w2)" by fastforce
  obtain h3 w3 where s3: "finish_drain h2 w2 = (h3, w3)" by fastforce
  obtain h4 w4 where s4: "serve_client (ev_out \<and> po_client_out po) ((ev_in \<or> ev_out) \<and> po_client_hup po)
      (ev_in \<and> po_client_in po) h3 w3 = (h4, w4)" by fastforce
  obtain h5 w5 where s5: "serve_pending (length (ho_pending h)) (po_pending po) h4 w4 = (h5, w5)" by fastforce
  obtain h6 w6 where s6: "expire_pending h5 w5 = (h6, w6)" by fastforce
  obtain h7 w7 where s7: "(if (ho_ended h = None \<and> ho_accept_paused h = None) \<and> ho_ended h6 = None \<and> po_listener po
      then accept h6 w6 else (h6, w6)) = (h7, w7)" by fastforce
  obtain h8 w8 where s8: "(if has_input h7 then write_input h7 w7 else (h7, w7)) = (h8, w8)" by fastforce
  obtain h9 w9 where s9: "act_on_buffered h8 w8 = (h9, w9)" by fastforce
  have end': "h' = refill_outgoing h9" "w' = w9"
    using go unfolding serve_def Let_def ev s1 s2 s3 s4 s5 s6 s7 s8 s9 prod.case by simp_all
  have "inv False (n + 2 * READ_BUDGET + 2 * READ_BUDGET) h w" by (rule inv_mono [OF inv]) simp
  from reap_child_inv [OF s1 this] have i1: "inv False (n + 2 * READ_BUDGET) h1 w1" "keeps h h1" by auto
  from serve_pty_inv [OF s2 i1(1)] have i2: "inv False n h2 w2" "keeps h1 h2" by auto
  from finish_drain_inv [OF s3 i2(1)] have i3: "inv False n h3 w3" "keeps h2 h3" by auto
  from serve_client_inv [OF s4 i3(1)] have i4: "inv False n h4 w4" "keeps h3 h4" by auto
  have "keeps h h4" using i1(2) i2(2) i3(2) i4(2) keeps_trans by blast
  then have "ho_ended h4 \<noteq> None \<or> length (ho_pending h) \<le> length (ho_pending h4)" by (auto simp: keeps_def)
  from serve_pending_inv [OF s5 i4(1) this] have i5: "inv False n h5 w5" .
  have i6: "inv False n h6 w6" by (rule expire_pending_inv [OF s6 i5])
  have i7: "inv False n h7 w7" using s7 i6 accept_inv [OF _ i6] by (auto split: if_splits)
  have i8: "inv False n h8 w8" using s8 i7 write_input_inv [OF _ i7] by (auto split: if_splits)
  have i9: "inv False n h9 w9" using act_on_buffered_inv [OF s9 i8] by simp
  show ?thesis unfolding end' using s9 i9 by blast
qed

lemma serve_inv:
  assumes "serve po h w = (h', w')" "inv False (n + 4 * READ_BUDGET) h w"
  shows "inv False n h' w'"
  using serve_last [OF assms] refill_outgoing_inv by blast

lemma flush_overdue_inv:
  assumes "flush_overdue h w = (h', w')" "inv False n h w"
  shows "inv False n h' w'"
proof -
  have "same_os w w'" using assms(1) os_now_eq
    by (auto simp: flush_overdue_def same_os_def split: option.splits prod.splits)
  moreover have "h' = h \<or> h' = drop_client h"
    using assms(1) by (auto simp: flush_overdue_def split: option.splits prod.splits if_splits)
  ultimately show ?thesis using assms(2) inv_drop inv_os by metis
qed

lemma resume_accept_inv:
  assumes "resume_accept h w = (h', w')" "inv g n h w"
  shows "inv g n h' w'"
proof -
  have "same_os w w'" using assms(1) os_now_eq
    by (auto simp: resume_accept_def same_os_def split: option.splits prod.splits)
  moreover have "h' = h \<or> h' = h\<lparr>ho_accept_paused := None\<rparr>"
    using assms(1) by (auto simp: resume_accept_def split: option.splits prod.splits if_splits)
  ultimately show ?thesis using assms(2) inv_paused inv_os by metis
qed

lemma step_inv:
  assumes go: "step t po h w = (e, h', w')" and inv: "inv False (n + 4 * READ_BUDGET) h w"
  shows "inv False n h' w'"
proof (cases "t \<and> ho_signals h")
  case True
  then show ?thesis using go inv_mono [OF inv, of n] by (simp add: step_def)
next
  case False
  obtain h1 w1 where f: "flush_overdue h w = (h1, w1)" by fastforce
  have i1: "inv False (n + 4 * READ_BUDGET) h1 w1" by (rule flush_overdue_inv [OF f inv])
  obtain h2 w2 where r: "resume_accept (refill_outgoing h1) w1 = (h2, w2)" by fastforce
  have i2: "inv False (n + 4 * READ_BUDGET) h2 w2"
    by (rule resume_accept_inv [OF r refill_outgoing_inv [OF i1]])
  obtain h3 w3 where s: "serve po h2 w2 = (h3, w3)" by fastforce
  have "(h', w') \<in> {(h1, w1), (h2, w2), (h3, w3)}"
    using go [unfolded step_def if_not_P [OF False] f r s prod.case Let_def]
    by (auto split: if_splits)
  then show ?thesis
    using inv_mono [OF i1, of n] inv_mono [OF i2, of n] serve_inv [OF s i2] by auto
qed

subsection \<open>Reachable states\<close>

text \<open>
  What the operating system has to say next: any answers at all, on the condition that the
  connections still to be accepted are new. What the host did is kept.
\<close>

definition os_next :: "host \<Rightarrow> os \<Rightarrow> os \<Rightarrow> bool" where
  "os_next h w v \<longleftrightarrow> os_sent v = os_sent w \<and> os_pty_log v = os_pty_log w \<and> os_sizes v = os_sizes w
     \<and> distinct (accept_fds (os_accepts v))
     \<and> (\<forall>fd\<in>set (accept_fds (os_accepts v)). os_sent w fd = []
          \<and> fd \<notin> set (map pd_fd (ho_pending h)) \<union> set (client_fds h))"

definition os_start :: "os \<Rightarrow> bool" where
  "os_start w \<longleftrightarrow> os_sent w = (\<lambda>fd. []) \<and> os_pty_log w = [] \<and> os_accepts w = []"

text \<open>What \<open>main\<close> makes sure of before the loop: the child spec was decoded.\<close>

definition setup_ok :: "byte list \<Rightarrow> byte list option \<Rightarrow> bool" where
  "setup_ok tag initial \<longleftrightarrow> length tag \<le> MAX_TAG \<and> (\<forall>b. initial = Some b \<longrightarrow> length b \<le> MAX_SNAPSHOT)"

inductive host_reach :: "host \<Rightarrow> os \<Rightarrow> bool" where
  start: "setup_ok tag initial \<Longrightarrow> os_start w \<Longrightarrow> host_reach (host_new pid child tag sz cap initial signals) w"
| iterate: "host_reach h w \<Longrightarrow> os_next h w v \<Longrightarrow> u64_ok (j_end (ho_journal h) + 4 * READ_BUDGET)
    \<Longrightarrow> step t po h v = (e, h', w') \<Longrightarrow> host_reach h' w'"

lemma host_start_inv:
  assumes "setup_ok tag initial" "os_start w"
  shows "inv False 0 (host_new pid child tag sz cap initial signals) w"
proof -
  let ?h = "host_new pid child tag sz cap initial signals"
  have "clean []" unfolding clean_def by (intro exI [of _ "[]"]) simp
  then have "host_inv (h_new sz cap initial) ?h w"
    using assms h_new_rep [of sz cap initial]
    by (auto simp: host_inv_def host_new_def fds_ok_def client_fds_def pending_ok_def exit_ok_def
        ended_ok_def os_start_def setup_ok_def blob_ok_def h_new_def journal_new_def)
  moreover have "u64_ok (j_end (ho_journal ?h) + 0)"
    by (simp add: host_new_def journal_new_def u64_ok_def)
  moreover have "alive ?h" by (simp add: alive_def host_new_def)
  ultimately show ?thesis unfolding inv_def by blast
qed

lemma os_next_inv:
  assumes "os_next h w v" "inv g n h w"
  shows "inv g n h v"
proof -
  from assms(2) obtain hist where H: "host_inv hist h w" and r: "u64_ok (j_end (ho_journal h) + n)" "g \<or> alive h"
    unfolding inv_def by blast
  have "fds_ok h v"
    using host_invD(6) [OF H] assms(1) by (auto simp: fds_ok_def os_next_def)
  moreover have "client_inv hist v c" if "ho_client h = Some c" for c
    using host_invD(5) [OF H that] assms(1) by (simp add: client_inv_def os_next_def)
  ultimately have "host_inv hist h v" using H by (simp add: host_inv_def)
  with r show ?thesis unfolding inv_def by blast
qed

lemma inv_more: "inv g m h w \<Longrightarrow> u64_ok (j_end (ho_journal h) + n) \<Longrightarrow> inv g n h w"
  by (auto simp: inv_def)

theorem host_reach_inv: "host_reach h w \<Longrightarrow> inv False 0 h w"
proof (induction rule: host_reach.induct)
  case (start tag initial w pid child sz cap signals)
  then show ?case by (rule host_start_inv)
next
  case (iterate h w v t po e h' w')
  have "inv False (0 + 4 * READ_BUDGET) h v"
    using inv_more [OF os_next_inv [OF iterate(2,5)]] iterate(3) by simp
  then show ?case by (rule step_inv [OF iterate(4)])
qed

end
