(* ===== verification/Host_Properties.thy ===== *)
theory Host_Properties
  imports Host_Reach
begin

text \<open>
  What a terminal host promises in every state it reaches: its bounds and counters, what goes
  out on its connections, and how the child's exit is recorded. The concrete run of the first
  section is the one the witnesses use: a client connects, says \<open>Hello\<close> and types.
\<close>

subsection \<open>A concrete run\<close>

definition demo_os :: "accept_answer list \<Rightarrow> read_answer list \<Rightarrow> os" where
  "demo_os accepts recvs = \<lparr>os_clock = [], os_pty_reads = [], os_pty_writes = [], os_pty_more = [],
     os_recvs = (\<lambda>fd. if fd = 7 then recvs else []), os_sends = (\<lambda>fd. []), os_accepts = accepts,
     os_waits = [], os_pty_log = [], os_sizes = [], os_sent = (\<lambda>fd. [])\<rparr>"

definition demo_poll :: "bool list \<Rightarrow> bool \<Rightarrow> poll" where
  "demo_poll waiting listener = \<lparr>po_failed = False, po_pty_in = False, po_pty_out = False,
     po_client_out = False, po_client_hup = False, po_client_in = False, po_pending = waiting,
     po_listener = listener\<rparr>"

abbreviation demo_new :: host where
  "demo_new \<equiv> host_new 1 2 [] (Size 80 24) 1000 None True"

definition demo_waiting :: host where
  "demo_waiting = demo_new\<lparr>ho_pending := [\<lparr>pd_fd = 7, pd_buf = [], pd_deadline = millis HELLO_TIMEOUT\<rparr>]\<rparr>"

definition demo_bytes :: "byte list" where
  "demo_bytes = clientc.bytes_of (Hello 1 False) @ clientc.bytes_of (Input [104])"

definition demo_client :: client where
  "demo_client = (queue (Welcome 1) (new_client 7 1 []))\<lparr>cl_input := [\<lparr>seg_data = [104], seg_written = 0\<rparr>],
     cl_input_cost := 1 + INPUT_COST\<rparr>"

definition demo_host :: host where
  "demo_host = demo_new\<lparr>ho_client := Some demo_client\<rparr>"

lemma demo_accept:
  "step False (demo_poll [] True) demo_new (demo_os [Accepted 7 True] [])
    = (None, demo_waiting, demo_os [] [])"
  by (simp add: step_def flush_overdue_def resume_accept_def serve_def demo_poll_def host_new_def
      refill_outgoing_def reap_child_def serve_pty_def finish_drain_def serve_client_def
      expire_pending_def os_now_def accept_def accept_loop.simps next_accept_def has_input_def
      act_on_buffered_def demo_os_def demo_waiting_def MAX_PENDING_CONNECTIONS_def
      eval_nat_numeral)

lemma demo_messages: "clientc.sendable (Hello 1 False)" "clientc.sendable (Input [104])" "clientc.sendable Info"
  unfolding clientc.sendable_def by (simp_all add: limits)

lemma demo_receive: "receive MAX_BEFORE_HELLO [] [Bytes demo_bytes] = (Drained, demo_bytes, [])"
proof -
  have "length demo_bytes = 20"
    by (simp add: demo_bytes_def clientc.bytes_of_def)
  then have "demo_bytes \<noteq> []" "length demo_bytes \<le> 64" by auto
  then show ?thesis
    by (simp add: receive.simps [of _ "[]"] receive.simps [of _ demo_bytes] limits \<open>length demo_bytes = 20\<close>)
qed

lemma demo_welcome: "length (frame_of (Welcome 1)) = 9"
  by (simp add: frame_of_def encode_host_Some put_u32_def del: encode_host.simps)

lemma demo_promote: "read_pending 0 demo_waiting (demo_os [] [Bytes demo_bytes]) = (demo_host, demo_os [] [])"
proof -
  from clientc.decode_message [OF demo_messages(1), of "clientc.bytes_of (Input [104])"]
  obtain f where f: "split_frame demo_bytes MAX_FRAME = Inr (Some f)"
    "f_consumed f = length (clientc.bytes_of (Hello 1 False))" "decode_client f 1 = Inr (Hello 1 False)"
    by (auto simp: demo_bytes_def)
  from clientc.decode_message [OF demo_messages(2), of "[]"]
  obtain g where g: "split_frame (clientc.bytes_of (Input [104])) MAX_FRAME = Inr (Some g)"
    "f_consumed g = length (clientc.bytes_of (Input [104]))" "decode_client g 1 = Inr (Input [104])"
    by auto
  have r: "receive_on 7 MAX_BEFORE_HELLO [] (demo_os [] [Bytes demo_bytes]) = (Drained, demo_bytes, demo_os [] [])"
    by (simp add: receive_on_def demo_receive demo_os_def fun_eq_iff)
  let ?c = "queue (Welcome 1) (new_client 7 1 (clientc.bytes_of (Input [104])))"
  let ?d = "queue_input [104] ?c"
  have un: "cl_unsent ?c \<le> OUTGOING_HIGH_WATER" "cl_unsent ?d \<le> OUTGOING_HIGH_WATER"
    using demo_welcome by (simp_all add: queue_def push_out_def new_client_def queue_input_def limits)
  have idle: "act_loop [] (h\<lparr>ho_client := Some c\<rparr>) v = ([], h\<lparr>ho_client := Some c\<rparr>, v)" for h c v
    by (simp add: act_loop.simps split_frame_def)
  have "act_loop (clientc.bytes_of (Input [104])) (demo_new\<lparr>ho_client := Some ?c\<rparr>) (demo_os [] [])
      = ([], demo_new\<lparr>ho_client := Some ?d\<rparr>, demo_os [] [])"
    using un idle g by (simp add: act_loop.simps [of "clientc.bytes_of _"] stalled_def held_def limits new_client_def)
  moreover have "?d\<lparr>cl_buf := []\<rparr> = demo_client"
    by (simp add: demo_client_def queue_def push_out_def new_client_def queue_input_def)
  moreover have cl_buf_new: "cl_buf (new_client fd v buf) = buf" for fd v buf by (simp add: new_client_def)
  moreover have "drop (length (clientc.bytes_of (Hello 1 False))) demo_bytes = clientc.bytes_of (Input [104])"
    by (simp add: demo_bytes_def)
  ultimately show ?thesis
    using f r cl_buf_new by (simp add: demo_host_def read_pending_def demo_waiting_def host_new_def promote_def PROTOCOL_VERSION_def drop_client_def
     remove_nth_def act_on_buffered_def on_client_def)
qed

lemma demo_hello:
  "step False (demo_poll [True] False) demo_waiting (demo_os [] [Bytes demo_bytes])
    = (None, demo_host, demo_os [] [])"
proof -
  have i: "act_on_buffered demo_host v = (demo_host, v)" "refill_outgoing demo_host = demo_host" for v
    by (simp_all add: act_on_buffered_def demo_host_def demo_client_def queue_def push_out_def new_client_def
        act_loop.simps split_frame_def on_client_def refill_outgoing_def)
  have p: "serve_pending 1 [True] demo_waiting (demo_os [] [Bytes demo_bytes]) = (demo_host, demo_os [] [])"
    using demo_promote by (simp add: demo_waiting_def host_new_def)
  have w: "write_input demo_host (demo_os [] []) = (demo_host, demo_os [] [])"
    by (simp add: write_input_def demo_host_def host_new_def demo_client_def input_loop.simps
        queue_def push_out_def new_client_def demo_os_def)
  have f: "ho_client demo_waiting = None" "ho_draining demo_waiting = None" "ho_ended demo_waiting = None"
    "ho_accept_paused demo_waiting = None" "os_waits (demo_os [] as) = []" "length (ho_pending demo_waiting) = 1" for as
    by (simp_all add: demo_waiting_def host_new_def demo_os_def)
  have e: "expire_pending demo_host (demo_os [] []) = (demo_host, demo_os [] [])" "has_input demo_host"
    by (simp_all add: expire_pending_def os_now_def demo_os_def demo_host_def host_new_def has_input_def demo_client_def)
  show ?thesis
    using i p w f e by (simp add: step_def flush_overdue_def resume_accept_def serve_def demo_poll_def
      refill_outgoing_def [of demo_waiting] reap_child_def serve_pty_def finish_drain_def serve_client_def)
qed

lemma demo_reach_waiting: "host_reach demo_waiting (demo_os [] [])"
proof -
  have s: "host_reach demo_new (demo_os [] [])"
    by (rule host_reach.start) (simp_all add: setup_ok_def os_start_def demo_os_def)
  show ?thesis
    by (rule host_reach.iterate [OF s _ _ demo_accept])
      (simp_all add: os_next_def demo_os_def client_fds_def host_new_def journal_new_def u64_ok_def READ_BUDGET_def)
qed

lemma demo_reach: "host_reach demo_host (demo_os [] [])"
  by (rule host_reach.iterate [OF demo_reach_waiting _ _ demo_hello])
    (simp_all add: os_next_def demo_os_def demo_waiting_def host_new_def journal_new_def u64_ok_def READ_BUDGET_def)

subsection \<open>Bounds and counters\<close>

lemma reach_inv_client:
  assumes "host_reach h w" "ho_client h = Some c"
  shows "queue_ok c" "input_ok c" "\<not> cl_gone c" "length (cl_buf c) \<le> RECEIVE_LIMIT"
    "cl_closing c \<Longrightarrow> cl_cursor c = None" "on_wire (os_sent w (cl_fd c)) (cl_outgoing c)"
    "cl_closing c \<Longrightarrow> cl_input c = []" "cl_closing c \<Longrightarrow> cl_flush c \<noteq> None"
proof -
  note I = host_reach_inv [OF assms(1)]
  note D = inv_D [OF I assms(2)]
  show "queue_ok c" "input_ok c" "\<not> cl_gone c" "length (cl_buf c) \<le> RECEIVE_LIMIT"
    "cl_closing c \<Longrightarrow> cl_cursor c = None"
    using D by simp_all
  from I obtain hist where "host_inv hist h w" unfolding inv_def by blast
  from client_invD [OF host_invD(5) [OF this assms(2)]] D
  show "on_wire (os_sent w (cl_fd c)) (cl_outgoing c)" "cl_closing c \<Longrightarrow> cl_input c = []"
    "cl_closing c \<Longrightarrow> cl_flush c \<noteq> None" by auto
qed

lemma reach_host:
  assumes "host_reach h w"
  obtains hist where "host_inv hist h w"
  using host_reach_inv [OF assms] unfolding inv_def by blast

text \<open>
  C25: In every state a host reaches, its running totals are exact and its memory is bounded:
  what a client's pending input costs is the sum over the queued inputs and within the limit,
  the unsent count is what is left of the queued frames, the receive buffer holds at most one
  frame, and at most eight connections wait, with at most 64 bytes read from each.
\<close>

theorem host_bounds:
  assumes "host_reach h w"
  shows "(\<forall>c. ho_client h = Some c \<longrightarrow>
      cl_input_cost c = (\<Sum>s\<leftarrow>cl_input c. length (seg_data s) - seg_written s + INPUT_COST)
      \<and> cl_input_cost c \<le> MAX_PENDING_INPUT
      \<and> cl_unsent c = (\<Sum>out\<leftarrow>cl_outgoing c. length (out_bytes out) - out_written out)
      \<and> length (cl_buf c) \<le> RECEIVE_LIMIT)
    \<and> length (ho_pending h) \<le> MAX_PENDING_CONNECTIONS
    \<and> (\<forall>p\<in>set (ho_pending h). length (pd_buf p) \<le> MAX_BEFORE_HELLO)
    \<and> ho_delivered h \<le> j_end (ho_journal h)"
proof -
  obtain hist where H: "host_inv hist h w" using reach_host [OF assms] .
  note I = host_invD [OF H]
  have "ho_delivered h \<le> j_end (ho_journal h)" using I(4) history_rep_ends(1) [OF I(1)] by simp
  moreover have "cl_input_cost c = (\<Sum>s\<leftarrow>cl_input c. length (seg_data s) - seg_written s + INPUT_COST)
      \<and> cl_input_cost c \<le> MAX_PENDING_INPUT
      \<and> cl_unsent c = (\<Sum>out\<leftarrow>cl_outgoing c. length (out_bytes out) - out_written out)
      \<and> length (cl_buf c) \<le> RECEIVE_LIMIT" if "ho_client h = Some c" for c
    using reach_inv_client(1,2,4) [OF assms that]
    unfolding queue_ok_def input_ok_def seg_cost_def out_left_def by blast
  ultimately show ?thesis using I(7) unfolding pending_ok_def by blast
qed

lemma host_bounds_witness:
  "ho_client demo_host = Some demo_client \<and> cl_input_cost demo_client = 1 + INPUT_COST
    \<and> cl_input_cost demo_client \<le> MAX_PENDING_INPUT"
  using host_bounds [OF demo_reach] by (simp add: demo_host_def demo_client_def)

subsection \<open>What goes out\<close>

definition unsent_bytes :: "client \<Rightarrow> byte list" where
  "unsent_bytes c = concat (map (\<lambda>out. drop (out_written out) (out_bytes out)) (cl_outgoing c))"

lemma out_frames:
  "\<forall>out\<in>set outs. out_frame out \<Longrightarrow> \<exists>ms. (\<forall>m\<in>set ms. fits m) \<and> map out_bytes outs = map frame_of ms
     \<and> (outs \<noteq> [] \<longrightarrow> ms \<noteq> [] \<and> out_welcome (hd outs) = is_welcome (hd ms))"
proof (induction outs)
  case (Cons out outs)
  then obtain ms where ms: "\<forall>m\<in>set ms. fits m" "map out_bytes outs = map frame_of ms" by auto
  from Cons obtain m where "fits m" "out_bytes out = frame_of m" "out_welcome out = is_welcome m"
    by (auto simp: out_frame_def)
  with ms show ?case by (intro exI [of _ "m # ms"]) simp
qed simp

lemma unsent_rest:
  assumes "queue_ok c"
  shows "started (cl_outgoing c) @ unsent_bytes c = concat (map out_bytes (cl_outgoing c))"
proof (cases "cl_outgoing c")
  case (Cons out outs)
  have "\<forall>o1\<in>set outs. out_written o1 = 0" using assms Cons by (simp add: queue_ok_def)
  then have "concat (map (\<lambda>out. drop (out_written out) (out_bytes out)) outs) = concat (map out_bytes outs)"
    by (intro arg_cong [where f = concat] map_cong) simp_all
  then show ?thesis by (simp add: unsent_bytes_def Cons flip: append_assoc)
qed (simp add: unsent_bytes_def)

text \<open>
  C8: Whatever reads, writes, takeovers, refusals and resizes interleave, what any connection
  was ever sent is a prefix of whole frames, the first of them a \<open>Welcome\<close>, a \<open>Busy\<close> or an
  \<open>Error\<close>; and what the current client was sent, followed by what is queued for it, is exactly a
  sequence of whole frames.
\<close>

theorem host_wire:
  assumes "host_reach h w"
  shows "(\<exists>ms. (\<forall>m\<in>set ms. fits m) \<and> (ms = [] \<or> opens (hd ms)) \<and> prefix (os_sent w fd) (frames ms))
    \<and> (\<forall>c. ho_client h = Some c \<longrightarrow> (\<exists>ms. ms \<noteq> [] \<and> (\<forall>m\<in>set ms. fits m) \<and> opens (hd ms)
        \<and> os_sent w (cl_fd c) @ unsent_bytes c = frames ms))"
proof (intro conjI allI impI)
  obtain hist where H: "host_inv hist h w" using reach_host [OF assms] .
  then show "\<exists>ms. (\<forall>m\<in>set ms. fits m) \<and> (ms = [] \<or> opens (hd ms)) \<and> prefix (os_sent w fd) (frames ms)"
    using host_invD(6) [OF H] by (simp add: fds_ok_def clean_def)
next
  fix c assume c: "ho_client h = Some c"
  note D = reach_inv_client [OF assms c]
  from D(6) obtain ms where ms: "\<forall>m\<in>set ms. fits m" "os_sent w (cl_fd c) = frames ms @ started (cl_outgoing c)"
    "ms = [] \<and> cl_outgoing c \<noteq> [] \<and> out_welcome (hd (cl_outgoing c)) \<or> ms \<noteq> [] \<and> opens (hd ms)"
    by (auto simp: on_wire_def)
  from out_frames [of "cl_outgoing c"] D(1) obtain ns where ns: "\<forall>m\<in>set ns. fits m"
    "map out_bytes (cl_outgoing c) = map frame_of ns"
    "cl_outgoing c \<noteq> [] \<longrightarrow> ns \<noteq> [] \<and> out_welcome (hd (cl_outgoing c)) = is_welcome (hd ns)"
    by (auto simp: queue_ok_def)
  have "os_sent w (cl_fd c) @ unsent_bytes c = frames (ms @ ns)"
    using unsent_rest [OF D(1)] ms(2) ns(2) by (simp add: frames_def)
  moreover have "ms @ ns \<noteq> [] \<and> opens (hd (ms @ ns))"
    using ms(3) ns(3) by (cases ms) (auto simp: opens_def is_welcome_def split: host_message.splits)
  ultimately show "\<exists>ms. ms \<noteq> [] \<and> (\<forall>m\<in>set ms. fits m) \<and> opens (hd ms)
      \<and> os_sent w (cl_fd c) @ unsent_bytes c = frames ms"
    using ms(1) ns(1) by (intro exI [of _ "ms @ ns"]) auto
qed

lemma host_wire_witness:
  "\<exists>ms. ms \<noteq> [] \<and> opens (hd ms) \<and> unsent_bytes demo_client = frames ms \<and> length (unsent_bytes demo_client) = 9"
proof -
  have "os_sent (demo_os [] []) (cl_fd demo_client) = []" by (simp add: demo_os_def)
  moreover have "length (unsent_bytes demo_client) = 9"
    using demo_welcome by (simp add: unsent_bytes_def demo_client_def queue_def push_out_def new_client_def)
  moreover have "ho_client demo_host = Some demo_client" by (simp add: demo_host_def)
  ultimately show ?thesis using host_wire [OF demo_reach] by (metis append_Nil)
qed

subsection \<open>The child's exit\<close>

text \<open>
  C19: From the moment the child is reaped, its exit is either still being drained for or in the
  journal, never both and never neither; the status in the journal is the reaped one; and before
  that neither holds an exit.
\<close>

theorem host_exit_recorded:
  assumes "host_reach h w"
  shows "case ho_child_exit h of
      None \<Rightarrow> ho_draining h = None \<and> j_exit (ho_journal h) = None
    | Some e \<Rightarrow> (\<exists>deadline n. ho_draining h = Some (e, deadline, n)) \<and> j_exit (ho_journal h) = None
        \<or> ho_draining h = None \<and> (\<exists>p. j_exit (ho_journal h) = Some (p, e))"
proof -
  obtain hist where H: "host_inv hist h w" using reach_host [OF assms] .
  have ok: "exit_ok h" by (rule host_invD(8) [OF H])
  obtain d where d: "ho_draining h = d" by simp
  obtain x where x: "j_exit (ho_journal h) = x" by simp
  show ?thesis
    using ok unfolding exit_ok_def d x
    by (cases "ho_child_exit h"; cases d; cases x) (auto simp: prod_eq_iff)
qed

lemma host_exit_recorded_witness: "ho_draining demo_host = None \<and> j_exit (ho_journal demo_host) = None"
  using host_exit_recorded [OF demo_reach] by (simp add: demo_host_def host_new_def)

end
