(* ===== verification/Host_Ending.thy ===== *)
theory Host_Ending
  imports Host_Properties
begin

text \<open>
  What a client's connection leaves behind when it ends: every whole frame it sent is acted on,
  so a \<open>Shutdown\<close> among them ends the host however its bytes were cut between what was buffered
  and what the socket still held.
\<close>

subsection \<open>One message of a client that is gone\<close>

definition is_read :: "client_message \<Rightarrow> bool" where
  "is_read m = (case m of Read p \<Rightarrow> True | _ \<Rightarrow> False)"

definition is_hello :: "client_message \<Rightarrow> bool" where
  "is_hello m = (case m of Hello v t \<Rightarrow> True | _ \<Rightarrow> False)"

text \<open>
  Messages that do not end the connection: no second \<open>Hello\<close>, and at most one \<open>Read\<close> with the
  one before them.
\<close>

fun allowed :: "bool \<Rightarrow> client_message list \<Rightarrow> bool" where
  "allowed reading [] \<longleftrightarrow> True"
| "allowed reading (m # ms) \<longleftrightarrow> clientc.sendable m \<and> \<not> is_hello m \<and> m \<noteq> Shutdown
     \<and> \<not> (reading \<and> is_read m) \<and> allowed (reading \<or> is_read m) ms"

definition listening_gone :: "client \<Rightarrow> host \<Rightarrow> bool" where
  "listening_gone c h \<longleftrightarrow> ho_client h = Some c \<and> cl_gone c \<and> \<not> cl_closing c \<and> cl_version c = 1"

lemma queue_gone: "cl_gone c \<Longrightarrow> queue m c = c"
  by (simp add: queue_def)

lemma handle_gone:
  assumes "handle m c h w = (h1, w1)" "listening_gone c h" "\<not> is_hello m" "m \<noteq> Shutdown"
    and "\<not> (cl_cursor c \<noteq> None \<and> is_read m)"
  shows "\<exists>c1. listening_gone c1 h1 \<and> cl_fd c1 = cl_fd c \<and> os_recvs w1 = os_recvs w
    \<and> (cl_cursor c1 \<noteq> None \<longleftrightarrow> cl_cursor c \<noteq> None \<or> is_read m)"
  using assms by (cases m)
    (auto simp: listening_gone_def queue_gone is_read_def is_hello_def split: sum.splits if_splits)

lemma handle_shutdown:
  assumes "handle Shutdown c h w = (h1, w1)"
  shows "ho_ended h1 = Some EndShutdown" "\<exists>c1. ho_client h1 = Some c1 \<and> cl_closing c1"
  using assms by (auto simp: end_connection_def Let_def split: prod.splits)

subsection \<open>The buffered frames\<close>

text \<open>A part of a frame is not a frame yet.\<close>

lemma split_part:
  assumes "clientc.sendable m" "part @ later = clientc.bytes_of m @ rest"
    and "length part < length (clientc.bytes_of m)"
  shows "split_frame part MAX_FRAME = Inr None"
proof -
  obtain f where f: "split_frame (part @ later) MAX_FRAME = Inr (Some f)" "f_consumed f = length (clientc.bytes_of m)"
    using clientc.decode_message [OF assms(1), of rest] assms(2) by auto
  show ?thesis
  proof (cases "split_frame part MAX_FRAME")
    case (Inl e)
    then show ?thesis using split_frame_error_append [of part MAX_FRAME e later] f by simp
  next
    case (Inr x)
    show ?thesis
    proof (cases x)
      case (Some g)
      then show ?thesis
        using split_frame_append [of part MAX_FRAME g later] Inr f assms(3)
          split_frame_progress [of part MAX_FRAME g] by simp
    qed (use Inr in simp)
  qed
qed

lemma act_loop_message:
  assumes c: "listening_gone c h" and m: "clientc.sendable m"
    and h: "handle m c h w = (h1, w1)"
  shows "act_loop (clientc.bytes_of m @ rest) h w = act_loop rest h1 w1"
proof -
  from clientc.decode_message [OF m, of rest] obtain f
    where f: "split_frame (clientc.bytes_of m @ rest) MAX_FRAME = Inr (Some f)"
      "f_consumed f = length (clientc.bytes_of m)" "decode_client f 1 = Inr m" by auto
  have "\<not> stalled c" "\<not> held m c" using c by (auto simp: listening_gone_def stalled_def held_def split: client_message.split)
  then show ?thesis
    using c f h by (subst act_loop.simps) (simp add: listening_gone_def)
qed

lemma split_front:
  assumes "part @ later = front @ rest" "\<not> length part < length front"
  obtains part' where "part = front @ part'" "part' @ later = rest"
  using assms by (auto simp: append_eq_append_conv2)

definition shutdown_sent :: "client_message list \<Rightarrow> byte list" where
  "shutdown_sent ms = concat (map clientc.bytes_of ms) @ clientc.bytes_of Shutdown"

lemma shutdown_sendable: "clientc.sendable Shutdown"
  unfolding clientc.sendable_def by (simp add: MAX_FRAME_def)

lemma act_loop_done:
  "ho_client h = Some c \<Longrightarrow> cl_closing c \<Longrightarrow> act_loop rest h w = (rest, h, w)"
  by (simp add: act_loop.simps stalled_def)

text \<open>
  Acting on a first part of what was sent: either the \<open>Shutdown\<close> was in it, or what is left of
  it and what comes later are the messages not acted on yet.
\<close>

lemma act_loop_shutdown:
  assumes "listening_gone c h" "allowed (cl_cursor c \<noteq> None) ms"
    and "part @ later = shutdown_sent ms @ rest" "act_loop part h w = (left, h', w')"
  shows "(ho_ended h' = Some EndShutdown \<and> (\<exists>c'. ho_client h' = Some c' \<and> cl_closing c'))
    \<or> (\<exists>c' ms'. listening_gone c' h' \<and> allowed (cl_cursor c' \<noteq> None) ms' \<and> cl_fd c' = cl_fd c
        \<and> left @ later = shutdown_sent ms' @ rest \<and> os_recvs w' = os_recvs w
        \<and> length left < length (shutdown_sent ms'))"
  using assms
proof (induction ms arbitrary: part h w c)
  case Nil
  show ?case
  proof (cases "length part < length (clientc.bytes_of Shutdown)")
    case True
    have "split_frame part MAX_FRAME = Inr None"
      by (rule split_part [OF shutdown_sendable _ True]) (use Nil.prems(3) in \<open>simp add: shutdown_sent_def\<close>)
    then have "(left, h', w') = (part, h, w)"
      using Nil.prems(1,4) by (simp add: act_loop.simps [of part] listening_gone_def split: if_splits)
    then show ?thesis using Nil.prems True by (auto simp: shutdown_sent_def intro!: exI [of _ "[]"])
  next
    case False
    moreover have "part @ later = clientc.bytes_of Shutdown @ rest"
      using Nil.prems(3) by (simp add: shutdown_sent_def)
    ultimately obtain part' where p: "part = clientc.bytes_of Shutdown @ part'"
      using split_front by metis
    obtain h1 w1 where h: "handle Shutdown c h w = (h1, w1)" by fastforce
    note S = handle_shutdown [OF h]
    from S(2) obtain c1 where c1: "ho_client h1 = Some c1" "cl_closing c1" by blast
    have "act_loop part h w = (part', h1, w1)"
      unfolding p act_loop_message [OF Nil.prems(1) shutdown_sendable h] by (rule act_loop_done [OF c1])
    then show ?thesis using Nil.prems(4) S(1) c1 by simp
  qed
next
  case (Cons m ms)
  have m: "clientc.sendable m" "\<not> is_hello m" "m \<noteq> Shutdown" "\<not> (cl_cursor c \<noteq> None \<and> is_read m)"
    "allowed (cl_cursor c \<noteq> None \<or> is_read m) ms"
    using Cons.prems(2) by auto
  have sent: "part @ later = clientc.bytes_of m @ shutdown_sent ms @ rest"
    using Cons.prems(3) by (simp add: shutdown_sent_def)
  show ?case
  proof (cases "length part < length (clientc.bytes_of m)")
    case True
    have "split_frame part MAX_FRAME = Inr None" by (rule split_part [OF m(1) sent True])
    then have "(left, h', w') = (part, h, w)"
      using Cons.prems(1,4) by (simp add: act_loop.simps [of part] listening_gone_def split: if_splits)
    moreover have "length part < length (shutdown_sent (m # ms))" using True by (simp add: shutdown_sent_def)
    ultimately show ?thesis using Cons.prems by (intro disjI2 exI [of _ c] exI [of _ "m # ms"]) simp
  next
    case False
    obtain part' where p: "part = clientc.bytes_of m @ part'" and p': "part' @ later = shutdown_sent ms @ rest"
      using split_front [OF sent False] .
    obtain h1 w1 where h: "handle m c h w = (h1, w1)" by fastforce
    from handle_gone [OF h Cons.prems(1) m(2-4)] obtain c1 where c1: "listening_gone c1 h1"
      "cl_fd c1 = cl_fd c" "os_recvs w1 = os_recvs w" "cl_cursor c1 \<noteq> None \<longleftrightarrow> cl_cursor c \<noteq> None \<or> is_read m"
      by blast
    have "act_loop part' h1 w1 = (left, h', w')"
      using Cons.prems(4) unfolding p act_loop_message [OF Cons.prems(1) m(1) h] .
    from Cons.IH [OF c1(1) _ p' this] m(5) c1 show ?thesis by simp
  qed
qed


subsection \<open>What the socket still holds\<close>

text \<open>The bytes that come before the end of the stream or before there is nothing more for now.\<close>

fun arriving :: "read_answer list \<Rightarrow> byte list" where
  "arriving [] = []"
| "arriving (Bytes bs # as) = (if bs = [] then [] else bs @ arriving as)"
| "arriving (RIntr # as) = arriving as"
| "arriving (_ # as) = []"

lemma arriving_take:
  assumes "os_take space as = (a, as')" "0 < space"
  shows "arriving as = (case a of Bytes bs \<Rightarrow> if bs = [] then [] else bs @ arriving as'
    | RIntr \<Rightarrow> arriving as' | _ \<Rightarrow> [])"
  using assms by (cases "(space, as)" rule: os_take.cases) (auto split: if_splits read_answer.split)

lemma receive_arriving:
  "receive limit buf as = (r, buf', as') \<Longrightarrow> length buf + length (arriving as) \<le> limit \<Longrightarrow>
    buf' = buf @ arriving as"
proof (induction limit buf as rule: receive.induct)
  case (1 limit buf as)
  let ?space = "min (limit - length buf) (64 * 1024)"
  note loop = "1.prems"(1) [unfolded receive.simps [of limit buf as] Let_def]
  show ?case
  proof (cases "?space = 0")
    case True
    then have "limit \<le> length buf" by simp
    then have "length (arriving as) = 0" using "1.prems"(2) by linarith
    then have "arriving as = []" by simp
    then show ?thesis using loop True by auto
  next
    case False
    obtain a as1 where t: "os_take ?space as = (a, as1)" by fastforce
    note A = arriving_take [OF t]
    note loop = loop [unfolded if_not_P [OF False] t prod.case]
    show ?thesis
    proof (cases a)
      case (Bytes bs)
      show ?thesis
      proof (cases "bs = []")
        case False
        then show ?thesis
          using "1.IH"(1) [OF refl \<open>?space \<noteq> 0\<close> t [symmetric] Bytes False] loop A Bytes "1.prems"(2) \<open>?space \<noteq> 0\<close>
          by simp
      qed (use loop A Bytes False in auto)
    next
      case RIntr
      then show ?thesis
        using "1.IH"(2) [OF refl False t [symmetric] RIntr] loop A "1.prems"(2) False by simp
    qed (use loop A False in auto)
  qed
qed

subsection \<open>The end of a connection\<close>

lemma act_on_buffered_eq:
  "ho_client h = Some c \<Longrightarrow> act_loop (cl_buf c) h w = (rest, h1, w1) \<Longrightarrow>
    act_on_buffered h w = (on_client (\<lambda>c. c\<lparr>cl_buf := rest\<rparr>) h1, w1)"
  by (simp add: act_on_buffered_def)

lemma on_client_ended [simp]: "ho_ended (on_client f h) = ho_ended h"
  by (simp add: on_client_def)

text \<open>
  C12: When the connection of a client of version 1 that is not closing ends, a \<open>Shutdown\<close> among
  what it sent ends the host, behind any messages the protocol allows there: every one in range, no
  second \<open>Hello\<close>, and at most one \<open>Read\<close> on the connection (behind one of these the client is
  refused and the \<open>Shutdown\<close> is not acted on). The bounds on input and replies, which would hold
  such messages back of a connection still open, do not; and the bytes may be split in any way
  between the buffer and the socket, with at most \<open>RECEIVE_LIMIT\<close> of them still on the socket.
\<close>

theorem shutdown_always_ends:
  assumes "ho_client h = Some c" "cl_version c = 1" "\<not> cl_closing c"
    and "allowed (cl_cursor c \<noteq> None) ms"
    and "cl_buf c @ arriving (os_recvs w (cl_fd c)) = shutdown_sent ms @ rest"
    and "length (arriving (os_recvs w (cl_fd c))) \<le> RECEIVE_LIMIT"
  shows "ho_ended (fst (close_client h w)) = Some EndShutdown"
proof -
  let ?c = "mark_gone c" and ?h = "h\<lparr>ho_client := Some (mark_gone c)\<rparr>"
  let ?later = "arriving (os_recvs w (cl_fd c))"
  have g: "listening_gone ?c ?h" and sel: "cl_fd ?c = cl_fd c" "cl_buf ?c = cl_buf c" "cl_cursor ?c = cl_cursor c"
    using assms(2,3) by (simp_all add: listening_gone_def mark_gone_def)
  obtain left h1 w1 where a: "act_loop (cl_buf ?c) ?h w = (left, h1, w1)" by (metis prod_cases3)
  let ?f = "\<lambda>c. c\<lparr>cl_buf := left\<rparr>"
  have b: "act_on_buffered ?h w = (on_client ?f h1, w1)" by (rule act_on_buffered_eq [OF _ a]) simp
  obtain h2 w2 where l: "last_read (on_client ?f h1) w1 = (h2, w2)" by fastforce
  have close: "close_client h w = (drop_client h2, w2)" using assms(1) b l by (simp add: close_client_def)
  from act_loop_shutdown [OF g _ _ a] assms(4,5) sel
  consider (ended) c1 where "ho_ended h1 = Some EndShutdown" "ho_client h1 = Some c1" "cl_closing c1"
    | (left) c1 ms1 where "listening_gone c1 h1" "allowed (cl_cursor c1 \<noteq> None) ms1" "cl_fd c1 = cl_fd c"
        "left @ ?later = shutdown_sent ms1 @ rest" "os_recvs w1 = os_recvs w"
    by fastforce
  then have "ho_ended h2 = Some EndShutdown"
  proof cases
    case ended
    then show ?thesis using l by (auto simp: last_read_def on_client_def)
  next
    case left
    obtain r buf w3 where rc: "receive_on (cl_fd c) (length left + RECEIVE_LIMIT) left w1 = (r, buf, w3)"
      by (metis prod_cases3)
    have buf: "buf = left @ ?later"
      using rc receive_arriving [of "length left + RECEIVE_LIMIT" left "os_recvs w1 (cl_fd c)"] left(5) assms(6)
      by (auto simp: receive_on_def split: prod.splits)
    let ?c1 = "c1\<lparr>cl_buf := buf\<rparr>" and ?h1 = "(on_client ?f h1)\<lparr>ho_client := Some (c1\<lparr>cl_buf := buf\<rparr>)\<rparr>"
    have c1: "ho_client h1 = Some c1" "\<not> cl_closing c1" "listening_gone ?c1 ?h1"
      using left(1) by (simp_all add: listening_gone_def)
    obtain left2 h3 w4 where a2: "act_loop (cl_buf ?c1) ?h1 w3 = (left2, h3, w4)" by (metis prod_cases3)
    have "last_read (on_client ?f h1) w1 = act_on_buffered ?h1 w3"
      using c1 rc left(3) by (simp add: last_read_def on_client_def)
    moreover have "act_on_buffered ?h1 w3 = (on_client (\<lambda>c. c\<lparr>cl_buf := left2\<rparr>) h3, w4)"
      by (rule act_on_buffered_eq [OF _ a2]) simp
    moreover have "ho_ended h3 = Some EndShutdown"
      using act_loop_shutdown [OF c1(3) _ _ a2, of ms1 "[]" rest] left(2,4) buf by auto
    ultimately show ?thesis using l by auto
  qed
  then show ?thesis by (simp add: close drop_client_def)
qed

lemma shutdown_always_ends_witness:
  "ho_ended (fst (close_client
      (demo_new\<lparr>ho_client := Some (new_client 7 1 (take 3 (shutdown_sent [Info, Input [104]])))\<rparr>)
      (demo_os [] [Bytes (drop 3 (shutdown_sent [Info, Input [104]])), Bytes []]))) = Some EndShutdown"
proof -
  let ?sent = "shutdown_sent [Info, Input [104]]"
  have l: "length ?sent = 20" by (simp add: shutdown_sent_def clientc.bytes_of_def)
  then have a: "arriving [Bytes (drop 3 ?sent), Bytes []] = drop 3 ?sent" by (auto simp: arriving.simps(2))
  have "allowed False [Info, Input [104]]"
    using demo_messages(2,3) by (auto simp: is_hello_def is_read_def)
  then show ?thesis
    using a l by (intro shutdown_always_ends [where ms = "[Info, Input [104]]" and rest = "[]"
          and c = "new_client 7 1 (take 3 (shutdown_sent [Info, Input [104]]))"])
      (simp_all add: new_client_def demo_os_def RECEIVE_LIMIT_def, simp add: MAX_FRAME_def)
qed

end
