(* ===== verification/Host_Iteration.thy ===== *)
theory Host_Iteration
  imports Host_Ending
begin

text \<open>
  What one iteration of the event loop leaves behind: no frame that could be acted on, a host
  that ends once it was told to, and deadlines that are slept to and not past.
\<close>

subsection \<open>No frame is left that could be acted on\<close>

definition stuck :: "byte list \<Rightarrow> host \<Rightarrow> bool" where
  "stuck rest h \<longleftrightarrow> (\<forall>c. ho_client h = Some c \<longrightarrow> stalled c \<or> split_frame rest MAX_FRAME = Inr None
     \<or> (\<exists>f m. split_frame rest MAX_FRAME = Inr (Some f) \<and> decode_client f (cl_version c) = Inr m \<and> held m c))"

lemma stuck_act_loop: "stuck rest h \<Longrightarrow> act_loop rest h w = (rest, h, w)"
  by (auto simp: stuck_def act_loop.simps [of rest] split: option.split)

lemma refuse_stuck: "refuse_client code msg h w = (h', w') \<Longrightarrow> stuck rest h'"
  by (auto simp: refuse_client_def end_connection_def Let_def stuck_def stalled_def
      split: option.splits prod.splits)

lemma act_loop_stuck: "act_loop rest h w = (rest', h', w') \<Longrightarrow> stuck rest' h'"
proof (induction rest h w rule: act_loop.induct)
  case (1 rest h w)
  note loop = "1.prems" [unfolded act_loop.simps [of rest h w]]
  show ?case
  proof (cases "ho_client h")
    case None
    with loop show ?thesis by (auto simp: stuck_def)
  next
    case (Some c)
    note loop = loop [unfolded Some option.case]
    show ?thesis
    proof (cases "stalled c")
      case True
      with loop Some show ?thesis by (auto simp: stuck_def)
    next
      case False
      note loop = loop [unfolded if_not_P [OF False]]
      show ?thesis
      proof (cases "split_frame rest MAX_FRAME")
        case (Inl e)
        with loop show ?thesis by (auto intro: refuse_stuck)
      next
        case (Inr x)
        show ?thesis
        proof (cases x)
          case None
          with loop Inr show ?thesis by (auto simp: stuck_def)
        next
          case f: (Some f)
          show ?thesis
          proof (cases "decode_client f (cl_version c)")
            case (Inl e)
            with loop Inr f show ?thesis by (auto intro: refuse_stuck)
          next
            case m: (Inr m)
            show ?thesis
            proof (cases "held m c")
              case True
              with loop Inr f m Some show ?thesis by (auto simp: stuck_def)
            next
              case h: False
              obtain h1 w1 where "handle m c h w = (h1, w1)" by fastforce
              with "1.IH" [OF Some False Inr f m h this [symmetric] refl] loop Inr f m h
              show ?thesis by simp
            qed
          qed
        qed
      qed
    qed
  qed
qed

lemma stuck_buffer:
  assumes "stuck rest h" "map_option f (ho_client h) = ho_client h'"
    and "\<And>c. cl_version (f c) = cl_version c \<and> cl_gone (f c) = cl_gone c \<and> cl_input_cost (f c) = cl_input_cost c
      \<and> cl_closing (f c) = cl_closing c \<and> cl_unsent (f c) = cl_unsent c"
  shows "stuck rest h'"
proof (cases "ho_client h")
  case (Some c)
  have "ho_client h' = Some (f c)" using assms(2) Some by simp
  moreover have "stalled (f c) = stalled c" using assms(3) [of c] by (simp add: stalled_def)
  moreover have "held m (f c) = held m c" for m using assms(3) [of c] by (simp add: held_def split: client_message.split)
  ultimately show ?thesis using assms(1) assms(3) [of c] Some by (simp add: stuck_def)
qed (use assms(2) in \<open>simp add: stuck_def\<close>)

text \<open>Acting again on what is buffered changes nothing.\<close>

lemma act_on_buffered_again:
  assumes "act_on_buffered h w = (h', w')" "ho_client h' = Some c"
  shows "stuck (cl_buf c) h'"
proof (cases "ho_client h")
  case (Some c0)
  obtain rest h1 w1 where a: "act_loop (cl_buf c0) h w = (rest, h1, w1)" by (metis prod_cases3)
  have h': "h' = on_client (\<lambda>c. c\<lparr>cl_buf := rest\<rparr>) h1"
    using assms(1) act_on_buffered_eq [OF Some a] by simp
  have "stuck rest h'"
    by (rule stuck_buffer [OF act_loop_stuck [OF a], where f = "\<lambda>c. c\<lparr>cl_buf := rest\<rparr>"]) (simp_all add: h' on_client_def)
  moreover have "cl_buf c = rest" using assms(2) h' by (auto simp: on_client_def)
  ultimately show ?thesis by simp
qed (use assms in \<open>simp add: act_on_buffered_def\<close>)

lemma act_on_buffered_stuck:
  assumes "\<And>c. ho_client h = Some c \<Longrightarrow> stuck (cl_buf c) h"
  shows "act_on_buffered h w = (h, w)"
proof (cases "ho_client h")
  case (Some c)
  have "on_client (\<lambda>c'. c'\<lparr>cl_buf := cl_buf c\<rparr>) h = h"
    using Some by (simp add: on_client_def)
  then show ?thesis
    using Some stuck_act_loop [OF assms [OF Some]] by (simp add: act_on_buffered_def)
qed (simp add: act_on_buffered_def)

lemma refill_full: "OUTGOING_HIGH_WATER \<le> cl_unsent c \<Longrightarrow> refill_loop j cur c = c\<lparr>cl_cursor := Some cur\<rparr>"
  by (simp add: refill_loop.simps)

lemma refill_stuck:
  assumes inv: "inv False n h w" and s: "\<And>c. ho_client h = Some c \<Longrightarrow> stuck (cl_buf c) h"
    and c: "ho_client (refill_outgoing h) = Some c"
  shows "stuck (cl_buf c) (refill_outgoing h)"
proof -
  obtain c0 where c0: "ho_client h = Some c0" using c by (cases "ho_client h") (auto simp: refill_outgoing_def)
  have gone: "\<not> cl_gone c0" using inv_D(4) [OF inv c0] by simp
  show ?thesis
  proof (cases "cl_cursor c0")
    case None
    then show ?thesis using s c c0 by (auto simp: refill_outgoing_def)
  next
    case (Some cur)
    have r: "refill_outgoing h = h\<lparr>ho_client := Some (refill_loop (ho_journal h) cur c0)\<rparr>"
      "c = refill_loop (ho_journal h) cur c0"
      using c c0 Some by (auto simp: refill_outgoing_def)
    from inv obtain hist where H: "host_inv hist h w" unfolding inv_def by blast
    have same: "same_input c0 c"
      using client_inv_refill [OF H host_invD(5) [OF H c0] gone Some] r(2) by simp
    moreover have "stalled c0 \<Longrightarrow> stalled c"
      using refill_full [of c0 "ho_journal h" cur] r(2) gone same by (auto simp: stalled_def same_input_def)
    moreover have "held m c = held m c0" for m using same by (simp add: held_def same_input_def split: client_message.split)
    ultimately show ?thesis using s [OF c0] c0 c by (auto simp: stuck_def same_input_def)
  qed
qed


lemma serve_stuck:
  assumes go: "serve po h w = (h', w')" and inv: "inv False (n + 4 * READ_BUDGET) h w"
    and c: "ho_client h' = Some c"
  shows "stuck (cl_buf c) h'"
proof -
  obtain h8 w8 h9 where a: "act_on_buffered h8 w8 = (h9, w')" and h': "h' = refill_outgoing h9"
    and i9: "inv False n h9 w'"
    using serve_last [OF go inv] by blast
  show ?thesis
    using refill_stuck [OF i9 act_on_buffered_again [OF a]] c by (simp add: h')
qed

text \<open>
  After every iteration that served what \<open>poll\<close> reported, no frame is left in the client's
  buffer that could be acted on: acting on the buffer again does nothing, so no frame waits for
  an event of a socket that was already read.
\<close>

theorem no_frame_left:
  assumes "host_reach h w" "os_next h w v" "u64_ok (j_end (ho_journal h) + 4 * READ_BUDGET)"
    and "step t po h v = (None, h', w')" "\<not> po_failed po"
  shows "act_on_buffered h' u = (h', u)"
proof (rule act_on_buffered_stuck)
  fix c assume c: "ho_client h' = Some c"
  have inv: "inv False (0 + 4 * READ_BUDGET) h v"
    using inv_more [OF os_next_inv [OF assms(2) host_reach_inv [OF assms(1)]]] assms(3) by simp
  obtain h1 w1 where f: "flush_overdue h v = (h1, w1)" by fastforce
  obtain h2 w2 where r: "resume_accept (refill_outgoing h1) w1 = (h2, w2)" by fastforce
  have "\<not> (t \<and> ho_signals h)" using assms(4) by (auto simp: step_def)
  then have s: "serve po h2 w2 = (h', w')"
    using assms(4,5) f r by (auto simp: step_def Let_def split: if_splits prod.splits)
  have "inv False (0 + 4 * READ_BUDGET) h2 w2"
    by (rule resume_accept_inv [OF r refill_outgoing_inv [OF flush_overdue_inv [OF f inv]]])
  from serve_stuck [OF s this c] show "stuck (cl_buf c) h'" .
qed

lemma no_frame_left_witness: "act_on_buffered demo_host (demo_os [] []) = (demo_host, demo_os [] [])"
proof -
  have "u64_ok (j_end (ho_journal demo_waiting) + 4 * READ_BUDGET)"
    by (simp add: demo_waiting_def host_new_def journal_new_def u64_ok_def READ_BUDGET_def)
  moreover have "os_next demo_waiting (demo_os [] []) (demo_os [] [Bytes demo_bytes])"
    by (simp add: os_next_def demo_os_def)
  ultimately show ?thesis
    using no_frame_left [OF demo_reach_waiting _ _ demo_hello] by (simp add: demo_poll_def)
qed


subsection \<open>A host that was told to end\<close>

text \<open>
  After \<open>Shutdown\<close> no connection waits any more, and the client, if it is still there, is
  closing: nothing of its input or stream is left and it has a deadline. The next iteration ends
  the host if the client is gone, if its last frame is out, or if the deadline has come.
\<close>

theorem host_ends:
  assumes "host_reach h w" "ho_ended h = Some e"
  shows "e = EndShutdown \<and> ho_pending h = []
    \<and> (\<forall>c. ho_client h = Some c \<longrightarrow> cl_closing c \<and> cl_input c = [] \<and> cl_cursor c = None \<and> cl_flush c \<noteq> None)
    \<and> ((case ho_client h of None \<Rightarrow> True
        | Some c \<Rightarrow> cl_outgoing c = [] \<or> the (cl_flush c) \<le> fst (os_now v))
      \<longrightarrow> fst (step t po h v) \<noteq> None)"
proof (intro conjI allI impI)
  obtain hist where H: "host_inv hist h w" using reach_host [OF assms(1)] .
  have ended: "e = EndShutdown" "ho_pending h = []" "\<And>c. ho_client h = Some c \<Longrightarrow> cl_closing c"
    using host_invD(9) [OF H] assms(2) by (auto simp: ended_ok_def)
  then show "e = EndShutdown" "ho_pending h = []" by simp_all
  fix c assume c: "ho_client h = Some c"
  then show "cl_closing c" using ended by simp
  then show "cl_input c = []" "cl_cursor c = None" "cl_flush c \<noteq> None"
    using reach_inv_client(5,7,8) [OF assms(1) c] by simp_all
next
  assume now: "case ho_client h of None \<Rightarrow> True
    | Some c \<Rightarrow> cl_outgoing c = [] \<or> the (cl_flush c) \<le> fst (os_now v)"
  obtain h1 w1 where f: "flush_overdue h v = (h1, w1)" by fastforce
  have "ho_ended h1 = Some e \<and> all_flushed h1"
  proof (cases "ho_client h")
    case None
    then show ?thesis using f assms(2) by (simp add: flush_overdue_def all_flushed_def)
  next
    case (Some c)
    obtain hist where H: "host_inv hist h w" using reach_host [OF assms(1)] .
    have "cl_closing c" using host_invD(9) [OF H] assms(2) Some by (auto simp: ended_ok_def)
    then obtain d where "cl_flush c = Some d" using reach_inv_client(8) [OF assms(1) Some] by auto
    then show ?thesis
      using f assms(2) Some now
      by (auto simp: flush_overdue_def all_flushed_def drop_client_def split: prod.splits if_splits)
  qed
  then show "fst (step t po h v) \<noteq> None" using f by (simp add: step_def)
qed

text \<open>The run of the witnesses goes on: the client sends \<open>Shutdown\<close>.\<close>

definition demo_poll_in :: poll where
  "demo_poll_in = (demo_poll [] False)\<lparr>po_client_in := True\<rparr>"

abbreviation demo_shutdown_os :: os where
  "demo_shutdown_os \<equiv> demo_os [] [Bytes (clientc.bytes_of Shutdown)]"

definition demo_stopped :: host where
  "demo_stopped = demo_host\<lparr>ho_client := Some (fst (end_connection Goodbye demo_client (demo_os [] []))),
     ho_ended := Some EndShutdown\<rparr>"

lemma demo_client_sel:
  "cl_fd demo_client = 7" "cl_buf demo_client = []" "cl_closing demo_client = False"
  "cl_gone demo_client = False" "cl_version demo_client = 1" "cl_cursor demo_client = None"
  "cl_unsent demo_client = 9" "cl_outgoing demo_client \<noteq> []" "cl_flush demo_client = None"
  using demo_welcome by (simp_all add: demo_client_def queue_def push_out_def new_client_def)

lemma demo_host_sel:
  "ho_client demo_host = Some demo_client" "ho_pending demo_host = []" "ho_draining demo_host = None"
  "ho_ended demo_host = None" "ho_accept_paused demo_host = None"
  by (simp_all add: demo_host_def host_new_def)

lemma demo_read_shutdown: "read_client demo_host demo_shutdown_os = (demo_stopped, demo_os [] [])"
proof -
  have l: "length (clientc.bytes_of Shutdown) = 5" "clientc.bytes_of Shutdown \<noteq> []"
    by (simp_all add: clientc.bytes_of_def frame_bytes_def)
  then have "receive RECEIVE_LIMIT [] [Bytes (clientc.bytes_of Shutdown)] = (Drained, clientc.bytes_of Shutdown, [])"
    by (simp add: receive.simps [of _ "[]"] receive.simps [of _ "clientc.bytes_of Shutdown"] RECEIVE_LIMIT_def)
      (simp add: MAX_FRAME_def receive.simps)
  then have r: "receive_on 7 RECEIVE_LIMIT [] demo_shutdown_os = (Drained, clientc.bytes_of Shutdown, demo_os [] [])"
    by (simp add: receive_on_def demo_os_def fun_eq_iff)
  let ?B = "clientc.bytes_of Shutdown" and ?e = "fst (end_connection Goodbye demo_client (demo_os [] []))"
  from clientc.decode_message [OF shutdown_sendable, of "[]"] obtain f
    where f: "split_frame ?B MAX_FRAME = Inr (Some f)" "f_consumed f = length ?B" "decode_client f 1 = Inr Shutdown"
    by auto
  have e: "end_connection Goodbye (demo_client\<lparr>cl_buf := ?B\<rparr>) (demo_os [] []) = (?e\<lparr>cl_buf := ?B\<rparr>, demo_os [] [])"
    "cl_closing ?e" "cl_buf ?e = []"
    by (simp_all add: end_connection_def drop_unstarted_def queue_def push_out_def os_now_def demo_os_def
        demo_client_sel Let_def)
  have "act_loop ?B (demo_host\<lparr>ho_client := Some (demo_client\<lparr>cl_buf := ?B\<rparr>)\<rparr>) (demo_os [] [])
      = ([], demo_host\<lparr>ho_client := Some (?e\<lparr>cl_buf := ?B\<rparr>), ho_pending := [], ho_ended := Some EndShutdown\<rparr>, demo_os [] [])"
    using f e by (simp add: act_loop.simps [of ?B] stalled_def held_def demo_client_sel OUTGOING_HIGH_WATER_def
        act_loop_done)
  moreover have "?e\<lparr>cl_buf := []\<rparr> = ?e" using e(3) by simp
  moreover have "demo_host\<lparr>ho_client := Some c, ho_pending := [], ho_ended := Some EndShutdown\<rparr>
      = demo_host\<lparr>ho_client := Some c, ho_ended := Some EndShutdown\<rparr>" for c
    by (simp add: demo_host_def host_new_def)
  ultimately show ?thesis
    using r by (simp add: read_client_def demo_host_sel demo_client_sel act_on_buffered_def on_client_def demo_stopped_def)
qed

lemma demo_shutdown: "step False demo_poll_in demo_host demo_shutdown_os = (None, demo_stopped, demo_os [] [])"
proof -
  have st: "ho_client demo_stopped = Some c \<Longrightarrow> cl_closing c \<and> cl_cursor c = None \<and> cl_input c = []"
    "ho_pending demo_stopped = []" "ho_ended demo_stopped = Some EndShutdown" "ho_client demo_stopped \<noteq> None" for c
    by (auto simp: demo_stopped_def end_connection_def drop_unstarted_def demo_host_sel Let_def split: prod.splits)
  then obtain c where c: "ho_client demo_stopped = Some c" "cl_closing c" "cl_cursor c = None" "cl_input c = []" by blast
  have a: "act_on_buffered demo_stopped v = (demo_stopped, v)" for v
    by (rule act_on_buffered_stuck) (use c in \<open>simp add: stuck_def stalled_def\<close>)
  have x: "expire_pending demo_stopped (demo_os [] []) = (demo_stopped, demo_os [] [])"
    using st(2) by (simp add: expire_pending_def os_now_def demo_os_def)
  have ev: "client_events demo_client = (True, True)"
    by (simp add: client_events_def demo_client_sel RECEIVE_LIMIT_def)
  show ?thesis
    using a x c st(2,3) demo_read_shutdown ev
    by (simp add: step_def flush_overdue_def resume_accept_def serve_def demo_poll_in_def demo_poll_def
      refill_outgoing_def demo_host_sel demo_client_sel reap_child_def serve_pty_def finish_drain_def
      serve_client_def has_input_def demo_os_def)
qed

lemma host_ends_witness: "cl_closing (fst (end_connection Goodbye demo_client (demo_os [] [])))
    \<and> fst (step False demo_poll_in demo_stopped ((demo_os [] [])\<lparr>os_clock := [millis 2000]\<rparr>)) \<noteq> None"
proof -
  have "os_next demo_host (demo_os [] []) demo_shutdown_os" by (simp add: os_next_def demo_os_def)
  moreover have "u64_ok (j_end (ho_journal demo_host) + 4 * READ_BUDGET)"
    by (simp add: demo_host_def host_new_def journal_new_def u64_ok_def READ_BUDGET_def)
  ultimately have r: "host_reach demo_stopped (demo_os [] [])"
    by (rule host_reach.iterate [OF demo_reach _ _ demo_shutdown])
  let ?e = "fst (end_connection Goodbye demo_client (demo_os [] []))"
  have "ho_ended demo_stopped = Some EndShutdown" "ho_client demo_stopped = Some ?e"
    by (simp_all add: demo_stopped_def)
  moreover have "the (cl_flush ?e) = millis 1000"
    by (simp add: end_connection_def Let_def os_now_def demo_os_def GOODBYE_FLUSH_def)
  ultimately show ?thesis
    using host_ends [OF r, of EndShutdown "(demo_os [] [])\<lparr>os_clock := [millis 2000]\<rparr>" False demo_poll_in]
    by (simp add: os_now_def millis_def)
qed

subsection \<open>Input reaches the pty in order\<close>

lemma take_input_totals:
  assumes "input_ok c"
  shows "cl_written (take_input c) = cl_written c + started_bytes c"
    "cl_discarded (take_input c) = cl_discarded c + length (pending_bytes c)"
    "pending_bytes (take_input c) = []" "started_bytes (take_input c) = 0"
proof -
  have len: "(\<Sum>s\<leftarrow>ss. length (seg_data s) - seg_written s)
      = length (concat (map (\<lambda>s. drop (seg_written s) (seg_data s)) ss))" for ss
    by (induction ss) simp_all
  show "cl_written (take_input c) = cl_written c + started_bytes c"
    "cl_discarded (take_input c) = cl_discarded c + length (pending_bytes c)"
    by (simp_all add: take_input_def started_bytes_def pending_bytes_def len)
  show "pending_bytes (take_input c) = []" "started_bytes (take_input c) = 0"
    by (simp_all add: pending_bytes_def started_bytes_def)
qed

text \<open>
  \<open>write_input\<close> writes a prefix of the pending input to the pty, in the order the client
  sent it; exactly the rest stays pending, or, where the pty refuses input for good, is counted
  as discarded. The totals of the acknowledgements account for every byte.
\<close>

theorem write_input_in_order:
  assumes "host_reach h w" "ho_client h = Some c" "write_input h v = (h', v')"
  shows "\<exists>c' out rest. ho_client h' = Some c' \<and> os_pty_log v' = os_pty_log v @ out
    \<and> pending_bytes c = out @ rest
    \<and> cl_written c' + started_bytes c' = cl_written c + started_bytes c + length out
    \<and> (pending_bytes c' = rest \<and> cl_discarded c' = cl_discarded c
      \<or> cl_input c' = [] \<and> cl_discarded c' = cl_discarded c + length rest)"
proof (cases "ho_pty_open h")
  case False
  then have "h' = h\<lparr>ho_client := Some (take_input c)\<rparr>" "v' = v"
    using assms(2,3) by (simp_all add: write_input_def discard_input_def on_client_def)
  then show ?thesis
    using take_input_totals [OF reach_inv_client(2) [OF assms(1,2)]]
    by (intro exI [of _ "take_input c"] exI [of _ "[]"] exI [of _ "pending_bytes c"]) simp
next
  case True
  obtain c1 w1 r f where loop: "input_loop c v False = (c1, w1, r, f)" by (metis prod_cases4)
  note L = input_loop_ok [OF loop reach_inv_client(2) [OF assms(1,2)]]
  then obtain out where out: "os_pty_log w1 = os_pty_log v @ out" "pending_bytes c = out @ pending_bytes c1"
    "cl_written c1 + started_bytes c1 = cl_written c + started_bytes c + length out"
    "cl_discarded c1 = cl_discarded c" by (auto simp: input_done_def)
  have ack: "pending_bytes (acknowledge c1) = pending_bytes c1" "started_bytes (acknowledge c1) = started_bytes c1"
    by (simp_all add: pending_bytes_def started_bytes_def)
  show ?thesis
  proof (cases f)
    case True
    then have "h' = h\<lparr>ho_client := Some (take_input c1)\<rparr>" "v' = w1"
      using assms(2,3) \<open>ho_pty_open h\<close> loop by (auto simp: write_input_def discard_input_def on_client_def)
    then show ?thesis
      using take_input_totals [of c1] L out
      by (intro exI [of _ "take_input c1"] exI [of _ out] exI [of _ "pending_bytes c1"]) simp
  next
    case False
    then have "h' = h\<lparr>ho_client := Some (if r then acknowledge c1 else c1)\<rparr>" "v' = w1"
      using assms(2,3) True loop by (auto simp: write_input_def)
    then show ?thesis
      using out ack by (intro exI [of _ "if r then acknowledge c1 else c1"] exI [of _ out]
          exI [of _ "pending_bytes c1"]) simp
  qed
qed

lemma write_input_in_order_witness:
  "\<exists>c' out rest. ho_client (fst (write_input demo_host ((demo_os [] [])\<lparr>os_pty_writes := [Took 5]\<rparr>))) = Some c'
    \<and> [104] = out @ rest \<and> (pending_bytes c' = rest \<or> cl_input c' = [])"
proof -
  obtain h' v' where w: "write_input demo_host ((demo_os [] [])\<lparr>os_pty_writes := [Took 5]\<rparr>) = (h', v')" by fastforce
  have "ho_client demo_host = Some demo_client" "pending_bytes demo_client = [104]"
    by (simp_all add: demo_host_def demo_client_def pending_bytes_def)
  then show ?thesis using write_input_in_order [OF demo_reach _ w] w by auto
qed

subsection \<open>The queue of outgoing frames\<close>

lemma refill_stops:
  "history_rep h j \<Longrightarrow> blob_ok h \<Longrightarrow> cursor_rep h cur i \<Longrightarrow>
    OUTGOING_HIGH_WATER \<le> cl_unsent (refill_loop j cur c)
    \<or> (\<exists>cur0. journal_next j cur0 = (the (cl_cursor (refill_loop j cur c)), None))"
proof (induction j cur c arbitrary: i rule: refill_loop.induct)
  case (1 j cur c)
  obtain cur1 x where x: "journal_next j cur = (cur1, x)" by fastforce
  have ok: "next_ok h cur i (cur1, x)" using journal_next_ok [OF "1.prems"(1,3)] x by simp
  show ?case
  proof (cases "OUTGOING_HIGH_WATER \<le> cl_unsent c")
    case True
    then show ?thesis by (simp add: refill_loop.simps)
  next
    case False
    show ?thesis
    proof (cases x)
      case None
      then show ?thesis using x False by (auto simp: refill_loop.simps [of j cur])
    next
      case (Some m)
      with ok obtain i' where m: "sent_ok h i m i'" "cursor_rep h cur1 i'" by (auto simp: next_ok_def)
      have "i' \<le> length (h_events h)" using m(2) by (simp add: cursor_rep_def)
      note E = fits_frame(1) [OF sent_ok_fits(1) [OF m(1) "1.prems"(2) this]]
      show ?thesis
        using "1.IH" [OF False x [symmetric] Some E "1.prems"(1,2) m(2)] x Some False E
        by (simp add: refill_loop.simps [of j cur])
    qed
  qed
qed

text \<open>
  Refilling the queue from the journal stops because enough waits unsent or because the
  journal has nothing for the cursor now; the queue never holds more than the high-water mark
  and one frame, however far the client lags, and is left alone above the mark and before the
  client's \<open>Read\<close>.
\<close>

theorem refill_bounded:
  assumes "host_reach h w" "ho_client h = Some c"
  shows "\<exists>c'. ho_client (refill_outgoing h) = Some c'
    \<and> cl_unsent c' \<le> max (cl_unsent c) (OUTGOING_HIGH_WATER + MAX_FRAME + 3)
    \<and> (cl_cursor c \<noteq> None \<longrightarrow> OUTGOING_HIGH_WATER \<le> cl_unsent c'
      \<or> (\<exists>cur0. journal_next (ho_journal h) cur0 = (the (cl_cursor c'), None)))
    \<and> (OUTGOING_HIGH_WATER \<le> cl_unsent c \<or> cl_cursor c = None \<longrightarrow> c' = c)"
proof (cases "cl_cursor c")
  case None
  then show ?thesis using assms(2) by (simp add: refill_outgoing_def)
next
  case (Some cur)
  obtain hist where H: "host_inv hist h w" using reach_host [OF assms(1)] .
  note I = host_invD [OF H]
  note C = client_invD [OF I(5) [OF assms(2)]]
  let ?c = "refill_loop (ho_journal h) cur c"
  have gone: "\<not> cl_gone c" by (rule reach_inv_client(3) [OF assms])
  obtain i where i: "cursor_rep hist cur i" using C(9) [OF Some] by blast
  have R: "cl_unsent ?c \<le> max (cl_unsent c) (OUTGOING_HIGH_WATER + MAX_FRAME + 3)"
    using refill_loop_ok [OF I(1,2) i C(1) C(5) [OF gone]] by (simp add: Let_def)
  moreover have "c\<lparr>cl_cursor := Some cur\<rparr> = c" using Some by simp
  ultimately show ?thesis
    using refill_stops [OF I(1,2) i] refill_full [of c "ho_journal h" cur] assms(2) Some
    by (auto simp: refill_outgoing_def)
qed

lemma refill_bounded_witness:
  "\<exists>c'. ho_client (refill_outgoing demo_host) = Some c' \<and> cl_unsent c' \<le> OUTGOING_HIGH_WATER + MAX_FRAME + 3"
  using refill_bounded [OF demo_reach demo_host_sel(1)] by (auto simp: demo_client_sel OUTGOING_HIGH_WATER_def)

subsection \<open>Who becomes the client\<close>

text \<open>
  A connection waiting for its \<open>Hello\<close> can touch a connected client in one way only: by a
  \<open>Hello\<close> of a version other than 0 that asks to take over.
\<close>

theorem only_takeover_displaces:
  assumes "ho_client h = Some c" "i < length (ho_pending h)" "read_pending i h w = (h', w')"
    and "ho_client h' \<noteq> Some c \<or> ho_journal h' \<noteq> ho_journal h \<or> ho_ended h' \<noteq> ho_ended h"
  shows "\<exists>buf f version. fst (snd (receive_on (pd_fd (ho_pending h ! i)) MAX_BEFORE_HELLO (pd_buf (ho_pending h ! i)) w)) = buf
    \<and> split_frame buf MAX_FRAME = Inr (Some f)
    \<and> decode_client f PROTOCOL_VERSION = Inr (Hello version True) \<and> version \<noteq> 0"
proof -
  obtain outcome buf w1 where r: "receive_on (pd_fd (ho_pending h ! i)) MAX_BEFORE_HELLO (pd_buf (ho_pending h ! i)) w
      = (outcome, buf, w1)" by (metis prod_cases3)
  have ni: "\<not> length (ho_pending h) \<le> i" using assms(2) by simp
  note go = assms(3) [unfolded read_pending_def if_not_P [OF ni] Let_def r prod.case]
  show ?thesis
    using go assms(1,4) r
    by (auto split: sum.splits option.splits if_splits client_message.splits)
qed

subsection \<open>Sleeping\<close>

definition deadlines :: "host \<Rightarrow> nat list" where
  "deadlines h = map pd_deadline (ho_pending h)
     @ (case ho_draining h of Some (e, deadline, n) \<Rightarrow> [deadline] | None \<Rightarrow> [])
     @ (case ho_client h of Some c \<Rightarrow> (case cl_flush c of Some d \<Rightarrow> [d] | None \<Rightarrow> []) | None \<Rightarrow> [])
     @ (case ho_accept_paused h of Some t \<Rightarrow> [t] | None \<Rightarrow> [])"

lemma ceil_millis:
  fixes r :: nat
  defines "t \<equiv> (r div 1000 + 999) div 1000"
  shows "millis t < r + millis 1" "r < millis t + 1000"
  unfolding t_def millis_def by linarith+

text \<open>
  With signals, a host sleeps for good only if it waits for nothing; otherwise it wakes less
  than a millisecond after every deadline at the latest, and no earlier than a microsecond before
  the first one unless after a minute.
\<close>

theorem poll_timeout_deadlines:
  assumes "ho_signals h"
  shows "case poll_timeout h now of
      None \<Rightarrow> deadlines h = []
    | Some t \<Rightarrow> (\<forall>d\<in>set (deadlines h). now + millis t < max now d + millis 1)
        \<and> (t = 60000 \<or> (\<exists>d\<in>set (deadlines h). d < now + millis t + 1000))"
proof (cases "deadlines h = []")
  case True
  then show ?thesis using assms by (simp add: poll_timeout_def Let_def deadlines_def [symmetric])
next
  case False
  define m where "m = Min (set (deadlines h))"
  define t where "t = ((m - now) div 1000 + 999) div 1000"
  have d: "m \<in> set (deadlines h)" "\<And>d. d \<in> set (deadlines h) \<Longrightarrow> m \<le> d"
    using False by (simp_all add: m_def)
  have t: "poll_timeout h now = Some (min t 60000)"
    using assms False by (simp add: poll_timeout_def Let_def deadlines_def [symmetric] t_def m_def)
  note C = ceil_millis [of "m - now", folded t_def]
  have "now + millis (min t 60000) < max now d + millis 1" if "d \<in> set (deadlines h)" for d
  proof -
    have "millis (min t 60000) \<le> millis t" by (simp add: millis_def)
    then have "now + millis (min t 60000) < now + (m - now) + millis 1" using C(1) by simp
    also have "now + (m - now) \<le> max now d" using d(2) [OF that] by simp
    finally show ?thesis by simp
  qed
  moreover have "m < now + millis (min t 60000) + 1000" if "min t 60000 \<noteq> 60000"
  proof -
    have "min t 60000 = t" using that by simp
    then show ?thesis using C(2) by simp
  qed
  ultimately show ?thesis using d(1) unfolding t option.case by blast
qed


text \<open>A second connection takes over from the client of the run.\<close>

lemma demo_takeover:
  defines "h \<equiv> demo_host\<lparr>ho_pending := [\<lparr>pd_fd = 7, pd_buf = [], pd_deadline = 0\<rparr>]\<rparr>"
    and "hello \<equiv> clientc.bytes_of (Hello 1 True)"
  shows "receive_on 7 MAX_BEFORE_HELLO [] (demo_os [] [Bytes hello]) = (Drained, hello, demo_os [] [])"
    and "ho_client (fst (read_pending 0 h (demo_os [] [Bytes hello]))) \<noteq> Some demo_client"
proof -
  have m: "clientc.sendable (Hello 1 True)"
    unfolding clientc.sendable_def by (simp_all add: limits)
  have l: "length hello = 10" by (simp add: hello_def clientc.bytes_of_def)
  then have "hello \<noteq> []" by auto
  then have "receive MAX_BEFORE_HELLO [] [Bytes hello] = (Drained, hello, [])"
    using l by (simp add: receive.simps [of _ "[]"] receive.simps [of _ hello] MAX_BEFORE_HELLO_def)
  then show r: "receive_on 7 MAX_BEFORE_HELLO [] (demo_os [] [Bytes hello]) = (Drained, hello, demo_os [] [])"
    by (simp add: receive_on_def demo_os_def fun_eq_iff)
  from clientc.decode_message [OF m, of "[]"] obtain f
    where f: "split_frame hello MAX_FRAME = Inr (Some f)" "f_consumed f = length hello"
      "decode_client f 1 = Inr (Hello 1 True)" by (auto simp: hello_def)
  have "cl_input demo_client \<noteq> []" by (simp add: demo_client_def)
  moreover have "act_loop [] h1 v = ([], h1, v)" for h1 v
    by (simp add: act_loop.simps split_frame_def split: option.split)
  ultimately show "ho_client (fst (read_pending 0 h (demo_os [] [Bytes hello]))) \<noteq> Some demo_client"
    using r f by (auto simp: h_def read_pending_def promote_def PROTOCOL_VERSION_def drop_client_def
        act_on_buffered_def on_client_def new_client_def dest!: arg_cong [of _ _ cl_input])
qed

lemma only_takeover_displaces_witness:
  "\<exists>f version. split_frame (clientc.bytes_of (Hello 1 True)) MAX_FRAME = Inr (Some f)
    \<and> decode_client f PROTOCOL_VERSION = Inr (Hello version True) \<and> version \<noteq> 0"
proof -
  let ?h = "demo_host\<lparr>ho_pending := [\<lparr>pd_fd = 7, pd_buf = [], pd_deadline = 0\<rparr>]\<rparr>"
    and ?w = "demo_os [] [Bytes (clientc.bytes_of (Hello 1 True))]"
  obtain h' w' where r: "read_pending 0 ?h ?w = (h', w')" by fastforce
  have "ho_client ?h = Some demo_client" by (simp add: demo_host_sel)
  from only_takeover_displaces [OF this _ r] demo_takeover show ?thesis using r by auto
qed

lemma poll_timeout_deadlines_witness:
  "poll_timeout demo_waiting 0 = Some 5000 \<and> millis 5000 < millis HELLO_TIMEOUT + millis 1"
proof -
  have "ho_signals demo_waiting" "deadlines demo_waiting = [millis HELLO_TIMEOUT]"
    "poll_timeout demo_waiting 0 = Some 5000"
    by (simp_all add: demo_waiting_def host_new_def deadlines_def poll_timeout_def millis_def HELLO_TIMEOUT_def)
  then show ?thesis using poll_timeout_deadlines [of demo_waiting 0] by simp
qed

end
