(* ===== verification/Connection.thy ===== *)
theory Connection
  imports Streams
begin

text \<open>
  The supervisor's side of a host connection
  (\<^verbatim>\<open>crates/farhelm-supervisor/src/hosts/client.rs\<close>): replies matched by order, the window of
  unacknowledged input, what each message from the host does, and the decoding of the receive
  buffer. Instants are nanoseconds, durations milliseconds; the counters of the code are \<open>u64\<close>s,
  natural numbers here, with the one checked addition of the code written out.
\<close>

subsection \<open>Limits\<close>

definition CONNECT_DEADLINE :: nat where "CONNECT_DEADLINE = 5000"
definition REFUSAL_WINDOW :: nat where "REFUSAL_WINDOW = 3000"
definition RETRY_INTERVAL :: nat where "RETRY_INTERVAL = 100"
definition REPLY_DEADLINE :: nat where "REPLY_DEADLINE = 10000"
definition SHUTDOWN_DEADLINE :: nat where "SHUTDOWN_DEADLINE = 5000"
definition INPUT_WINDOW :: nat where "INPUT_WINDOW = 256 * 1024"
definition EVENT_QUEUE_LIMIT :: nat where "EVENT_QUEUE_LIMIT = 2 * MAX_FRAME + 2 * OUTGOING_HIGH_WATER"
definition EVENT_COST :: nat where "EVENT_COST = 64"
definition MAX_BEFORE_WELCOME :: nat where "MAX_BEFORE_WELCOME = 1 + 2 + 4 + MAX_ERROR_MESSAGE"

text \<open>The two assertions the code makes at compile time.\<close>

lemma window_asserts:
  "INPUT_WINDOW * 4 \<le> MAX_PENDING_INPUT" "3 * (MAX_INPUT + INPUT_COST) \<le> INPUT_WINDOW"
  by (simp_all add: INPUT_WINDOW_def limits)

record client_deadlines =
  dl_connect :: nat
  dl_refusal_window :: nat
  dl_retry_interval :: nat
  dl_reply :: nat
  dl_shutdown :: nat

definition default_deadlines :: client_deadlines where
  "default_deadlines = \<lparr>dl_connect = CONNECT_DEADLINE, dl_refusal_window = REFUSAL_WINDOW,
     dl_retry_interval = RETRY_INTERVAL, dl_reply = REPLY_DEADLINE, dl_shutdown = SHUTDOWN_DEADLINE\<rparr>"

subsection \<open>Errors and events\<close>

datatype client_error =
    ErrClosed
  | ErrHost error_code "byte list"
  | ErrMalformed string
  | ErrTimeout
  | ErrIo string
  | ErrReadAlreadyStarted
  | ErrEventQueueFull
  | ErrInvalidRequest string
  | ErrInputWindowFull nat nat

definition is_fatal :: "client_error \<Rightarrow> bool" where
  "is_fatal e = (case e of ErrReadAlreadyStarted \<Rightarrow> False | ErrInvalidRequest s \<Rightarrow> False
     | ErrInputWindowFull needed left \<Rightarrow> False | _ \<Rightarrow> True)"

record input_counts =
  ic_sent :: nat
  ic_written :: nat
  ic_discarded :: nat

record input_ticket =
  tk_end :: nat

definition counts_unknown :: "input_counts \<Rightarrow> nat" where
  "counts_unknown k = ic_sent k - ic_written k - ic_discarded k"

definition counts_resolved :: "input_ticket \<Rightarrow> input_counts \<Rightarrow> bool" where
  "counts_resolved ticket k \<longleftrightarrow> tk_end ticket \<le> ic_written k + ic_discarded k"

datatype host_event =
    EvSnapshot position "byte list"
  | EvOutput nat "byte list"
  | EvResized nat nat term_size
  | EvGap nat nat nat term_size
  | EvExited nat child_exit
  | EvInputAcknowledged input_counts

datatype snapshot_reply = ReplyAccepted position | ReplyRejected position snapshot_rejection

definition event_cost :: "host_event \<Rightarrow> nat" where
  "event_cost ev = EVENT_COST + (case ev of EvSnapshot p blob \<Rightarrow> length blob
     | EvOutput off data \<Rightarrow> length data | _ \<Rightarrow> 0)"

subsection \<open>Replies\<close>

record 'a replies =
  rp_sent :: nat
  rp_received :: nat
  rp_last :: "(nat \<times> 'a) option"

definition replies_default :: "'a replies" where
  "replies_default = \<lparr>rp_sent = 0, rp_received = 0, rp_last = None\<rparr>"

definition replies_next :: "'a replies \<Rightarrow> nat \<times> 'a replies" where
  "replies_next r = (rp_sent r, r\<lparr>rp_sent := rp_sent r + 1\<rparr>)"

definition replies_receive :: "'a \<Rightarrow> 'a replies \<Rightarrow> (client_error + unit) \<times> 'a replies" where
  "replies_receive reply r =
     (if rp_sent r \<le> rp_received r then (Inl (ErrMalformed ''a reply to no request''), r)
      else (Inr (), r\<lparr>rp_last := Some (rp_received r, reply), rp_received := rp_received r + 1\<rparr>))"

definition replies_has :: "nat \<Rightarrow> 'a replies \<Rightarrow> bool" where
  "replies_has request r = (case rp_last r of Some (number, x) \<Rightarrow> number = request | None \<Rightarrow> False)"

subsection \<open>The input window\<close>

record input_window =
  iw_counts :: input_counts
  iw_unresolved :: "(nat \<times> nat) list"
  iw_cost :: nat

definition counts_zero :: input_counts where
  "counts_zero = \<lparr>ic_sent = 0, ic_written = 0, ic_discarded = 0\<rparr>"

definition window_default :: input_window where
  "window_default = \<lparr>iw_counts = counts_zero, iw_unresolved = [], iw_cost = 0\<rparr>"

definition window_room :: "input_window \<Rightarrow> nat" where
  "window_room iw = INPUT_WINDOW - iw_cost iw"

definition admit :: "nat \<Rightarrow> input_window \<Rightarrow> (client_error + input_ticket) \<times> input_window" where
  "admit len iw =
     (let needed = len + INPUT_COST; left = window_room iw in
      if left < needed then (Inl (ErrInputWindowFull needed left), iw)
      else
        let sent = ic_sent (iw_counts iw) + len in
        (Inr \<lparr>tk_end = sent\<rparr>,
         iw\<lparr>iw_counts := (iw_counts iw)\<lparr>ic_sent := sent\<rparr>,
            iw_unresolved := iw_unresolved iw @ [(sent, needed)],
            iw_cost := iw_cost iw + needed\<rparr>))"

text \<open>The loop of \<open>acknowledge\<close>: the inputs that end by \<open>resolved\<close> leave the queue.\<close>

fun resolve_inputs :: "nat \<Rightarrow> nat \<Rightarrow> nat \<Rightarrow> (nat \<times> nat) list \<Rightarrow> nat \<times> nat \<times> (nat \<times> nat) list" where
  "resolve_inputs resolved boundary cost [] = (boundary, cost, [])"
| "resolve_inputs resolved boundary cost ((end', k) # q) =
     (if end' \<le> resolved then resolve_inputs resolved end' (cost - k) q
      else (boundary, cost, (end', k) # q))"

definition broken_ack :: "string \<Rightarrow> client_error" where
  "broken_ack what = ErrMalformed (''input acknowledgement '' @ what)"

definition window_acknowledge :: "nat \<Rightarrow> nat \<Rightarrow> input_window \<Rightarrow> (client_error + unit) \<times> input_window" where
  "window_acknowledge written discarded iw =
     (let k = iw_counts iw in
      if written < ic_written k \<or> discarded < ic_discarded k then (Inl (broken_ack ''went backwards''), iw)
      else if \<not> u64_ok (written + discarded) then (Inl (broken_ack ''overflowed''), iw)
      else
        let resolved = written + discarded in
        if ic_sent k < resolved then (Inl (broken_ack ''covers more input than was sent''), iw)
        else
          let (boundary, cost, rest) =
                resolve_inputs resolved (ic_written k + ic_discarded k) (iw_cost iw) (iw_unresolved iw);
              iw' = iw\<lparr>iw_cost := cost, iw_unresolved := rest\<rparr>
          in if boundary \<noteq> resolved then (Inl (broken_ack ''ends inside an Input''), iw')
             else (Inr (), iw'\<lparr>iw_counts := k\<lparr>ic_written := written, ic_discarded := discarded\<rparr>\<rparr>))"

subsection \<open>The connection\<close>

record connection =
  cn_deadlines :: client_deadlines
  cn_inbound :: "byte list"
  cn_outbound :: "byte list"
  cn_write_deadline :: "nat option"
  cn_events :: "host_event list"
  cn_queued :: nat
  cn_reading :: bool
  cn_shutting_down :: bool
  cn_goodbye :: bool
  cn_info :: "info replies"
  cn_snapshots :: "snapshot_reply replies"
  cn_input :: input_window
  cn_ended :: "client_error option"

definition connection_new :: "client_deadlines \<Rightarrow> byte list \<Rightarrow> connection" where
  "connection_new deadlines inbound = \<lparr>cn_deadlines = deadlines, cn_inbound = inbound,
     cn_outbound = [], cn_write_deadline = None, cn_events = [], cn_queued = 0, cn_reading = False,
     cn_shutting_down = False, cn_goodbye = False, cn_info = replies_default,
     cn_snapshots = replies_default, cn_input = window_default, cn_ended = None\<rparr>"

definition check_ended :: "connection \<Rightarrow> client_error + unit" where
  "check_ended c = (case cn_ended c of Some e \<Rightarrow> Inl e | None \<Rightarrow> Inr ())"

definition fail :: "client_error \<Rightarrow> connection \<Rightarrow> connection" where
  "fail e c = (if is_fatal e \<and> cn_ended c = None then c\<lparr>cn_ended := Some e\<rparr> else c)"

definition take_event :: "connection \<Rightarrow> host_event option \<times> connection" where
  "take_event c = (case cn_events c of [] \<Rightarrow> (None, c)
     | ev # evs \<Rightarrow> (Some ev, c\<lparr>cn_events := evs, cn_queued := cn_queued c - event_cost ev\<rparr>))"

definition push_event :: "host_event \<Rightarrow> connection \<Rightarrow> (client_error + unit) \<times> connection" where
  "push_event ev c =
     (if cn_shutting_down c then (Inr (), c)
      else
        let c' = c\<lparr>cn_queued := cn_queued c + event_cost ev, cn_events := cn_events c @ [ev]\<rparr> in
        (if EVENT_QUEUE_LIMIT < cn_queued c' then Inl ErrEventQueueFull else Inr (), c'))"

definition receive_info :: "info \<Rightarrow> connection \<Rightarrow> (client_error + unit) \<times> connection" where
  "receive_info i c = (let (r, p) = replies_receive i (cn_info c) in (r, c\<lparr>cn_info := p\<rparr>))"

definition receive_snapshot :: "snapshot_reply \<Rightarrow> connection \<Rightarrow> (client_error + unit) \<times> connection" where
  "receive_snapshot s c = (let (r, p) = replies_receive s (cn_snapshots c) in (r, c\<lparr>cn_snapshots := p\<rparr>))"

definition receive_ack :: "nat \<Rightarrow> nat \<Rightarrow> connection \<Rightarrow> (client_error + unit) \<times> connection" where
  "receive_ack written discarded c =
     (let (r, iw) = window_acknowledge written discarded (cn_input c);
          c' = c\<lparr>cn_input := iw\<rparr>
      in case r of Inl e \<Rightarrow> (Inl e, c') | Inr u \<Rightarrow> push_event (EvInputAcknowledged (iw_counts iw)) c')"

text \<open>The event of a stream record.\<close>

fun record_event :: "host_message \<Rightarrow> host_event option" where
  "record_event (SnapshotRecord p blob) = Some (EvSnapshot p blob)"
| "record_event (Output off data) = Some (EvOutput off data)"
| "record_event (Resized off k s) = Some (EvResized off k s)"
| "record_event (Gap frm to k s) = Some (EvGap frm to k s)"
| "record_event (Exited off e) = Some (EvExited off e)"
| "record_event _ = None"

definition receive_message :: "host_message \<Rightarrow> connection \<Rightarrow> (client_error + unit) \<times> connection" where
  "receive_message m c = (case record_event m of
     Some ev \<Rightarrow> if \<not> cn_reading c then (Inl (ErrMalformed ''a stream record before Read''), c)
       else push_event ev c
   | None \<Rightarrow> (case m of
       InfoReply i \<Rightarrow> receive_info i c
     | SnapshotAccepted p \<Rightarrow> receive_snapshot (ReplyAccepted p) c
     | SnapshotRejected p reason \<Rightarrow> receive_snapshot (ReplyRejected p reason) c
     | InputAck written discarded \<Rightarrow> receive_ack written discarded c
     | Error code text \<Rightarrow> (Inl (ErrHost code text), c)
     | Goodbye \<Rightarrow> if cn_shutting_down c then (Inr (), c\<lparr>cn_goodbye := True\<rparr>)
         else (Inl (ErrMalformed ''Goodbye without Shutdown''), c)
     | _ \<Rightarrow> (Inl (ErrMalformed ''a connection answer after Welcome''), c)))"

subsection \<open>Decoding what was read\<close>

fun malformed_what :: "malformed \<Rightarrow> string" where
  "malformed_what (Malformed what) = what"

function decode_loop :: "byte list \<Rightarrow> connection \<Rightarrow> (client_error + unit) \<times> byte list \<times> connection" where
  "decode_loop rest c = (case split_frame rest MAX_FRAME of
     Inr None \<Rightarrow> (Inr (), rest, c)
   | Inl e \<Rightarrow> (Inl (ErrMalformed (malformed_what e)), rest, c)
   | Inr (Some f) \<Rightarrow>
       (let rest' = drop (f_consumed f) rest in
        case decode_host f PROTOCOL_VERSION of
          Inl e \<Rightarrow> (Inl (ErrMalformed (malformed_what e)), rest', c)
        | Inr m \<Rightarrow>
            (case receive_message m c of
               (Inl e, c') \<Rightarrow> (Inl e, rest', c')
             | (Inr u, c') \<Rightarrow> decode_loop rest' c')))"
  by pat_completeness auto
termination
proof (relation "measure (\<lambda>(rest, c). length rest)")
  show "((x, b), rest, c) \<in> measure (\<lambda>(rest, c). length rest)"
    if "split_frame rest MAX_FRAME = Inr z" "z = Some f" "x = drop (f_consumed f) rest"
    for rest :: "byte list" and c b :: connection and z f x
    using that split_frame_Some(2,3) [of rest MAX_FRAME f] by auto
qed simp

declare decode_loop.simps [simp del]

definition decode_buffered :: "connection \<Rightarrow> (client_error + unit) \<times> connection" where
  "decode_buffered c =
     (let (r, rest, c') = decode_loop (cn_inbound c) c in (r, c'\<lparr>cn_inbound := rest\<rparr>))"

end
