(* ===== verification/Connection_Run.thy ===== *)
theory Connection_Run
  imports Connection
begin

text \<open>
  The requests of a host connection
  (\<^verbatim>\<open>crates/farhelm-supervisor/src/hosts/client.rs\<close>). What the socket and the clock answer is
  explicit; a request whose answers run out is still waiting, and dropping its future there
  leaves the connection as it is returned.
\<close>

subsection \<open>The socket\<close>

datatype io_error = PeerGone | OtherIo string

text \<open>
  What one \<open>select!\<close> of a read and a write found, or that the limit came first. A read of
  nothing is the end of the stream; a write takes a part of what is offered.
\<close>

datatype sock_answer = GotBytes "byte list" | ReadFailed io_error | Put nat | WriteFailed io_error | Elapsed

record socket =
  sk_clock :: "nat list"
  sk_answers :: "sock_answer list"
  sk_written :: "byte list"

definition sk_now :: "socket \<Rightarrow> nat \<times> socket" where
  "sk_now w = (case sk_clock w of [] \<Rightarrow> (0, w) | t # ts \<Rightarrow> (t, w\<lparr>sk_clock := ts\<rparr>))"

lemma sk_now_sel [simp]: "sk_answers (snd (sk_now w)) = sk_answers w" "sk_written (snd (sk_now w)) = sk_written w"
  by (simp_all add: sk_now_def split: list.split)

definition to_nanos :: "nat \<Rightarrow> nat" where "to_nanos ms = ms * 1000000"

fun io_failure :: "io_error \<Rightarrow> client_error" where
  "io_failure PeerGone = ErrClosed"
| "io_failure (OtherIo what) = ErrIo what"

text \<open>
  One step. The write arm is off while nothing is queued, and without a limit nothing elapses:
  those answers do not come then, and are passed over.
\<close>

definition conn_step :: "bool \<Rightarrow> sock_answer \<Rightarrow> connection \<Rightarrow> socket \<Rightarrow> (client_error + unit) \<times> connection \<times> socket" where
  "conn_step limited a c w = (case a of
     GotBytes bs \<Rightarrow> if bs = [] then (Inl ErrClosed, c, w)
       else (Inr (), c\<lparr>cn_inbound := cn_inbound c @ bs\<rparr>, w)
   | ReadFailed e \<Rightarrow> (Inl (io_failure e), c, w)
   | Put n \<Rightarrow> if cn_outbound c = [] then (Inr (), c, w)
       else if n = 0 then (Inl ErrClosed, c, w)
       else (Inr (), c\<lparr>cn_outbound := drop n (cn_outbound c)\<rparr>,
         w\<lparr>sk_written := sk_written w @ take n (cn_outbound c)\<rparr>)
   | WriteFailed e \<Rightarrow> if cn_outbound c = [] then (Inr (), c, w) else (Inl (io_failure e), c, w)
   | Elapsed \<Rightarrow> if limited then (Inl ErrTimeout, c, w) else (Inr (), c, w))"

definition min_limit :: "nat option \<Rightarrow> nat option \<Rightarrow> nat option" where
  "min_limit a b = (case (a, b) of (Some x, Some y) \<Rightarrow> Some (min x y) | (None, _) \<Rightarrow> b | (_, None) \<Rightarrow> a)"

definition past_limit :: "nat option \<Rightarrow> socket \<Rightarrow> bool \<times> socket" where
  "past_limit limit w = (case limit of None \<Rightarrow> (False, w)
     | Some l \<Rightarrow> (let (now, w') = sk_now w in (l \<le> now, w')))"

lemma past_limit_sel [simp]:
  "sk_answers (snd (past_limit l w)) = sk_answers w" "sk_written (snd (past_limit l w)) = sk_written w"
  using sk_now_sel [of w] by (cases "sk_now w"; simp add: past_limit_def split: option.split)+

definition clear_deadline :: "connection \<Rightarrow> connection" where
  "clear_deadline c = (if cn_outbound c = [] then c\<lparr>cn_write_deadline := None\<rparr> else c)"

type_synonym 'a call = "connection \<Rightarrow> socket \<Rightarrow> (client_error + 'a) option \<times> connection \<times> socket"

lemma conn_step_answers: "conn_step l a c w = (r, c', w') \<Longrightarrow> sk_answers w' = sk_answers w"
  by (auto simp: conn_step_def split: sock_answer.splits if_splits)

function drive :: "(connection \<Rightarrow> bool) \<Rightarrow> nat option \<Rightarrow> unit call" where
  "drive finished deadline c w = (case check_ended c of
     Inl e \<Rightarrow> (Some (Inl e), c, w)
   | Inr u \<Rightarrow>
       (case decode_buffered c of
          (Inl e, c1) \<Rightarrow> (Some (Inl e), fail e c1, w)
        | (Inr u, c1) \<Rightarrow>
            (let c2 = clear_deadline c1 in
             if finished c2 then (Some (Inr ()), c2, w)
             else
               let limit = min_limit deadline (cn_write_deadline c2);
                   w1 = snd (past_limit limit w)
               in if fst (past_limit limit w) then (Some (Inl ErrTimeout), fail ErrTimeout c2, w1)
                  else case sk_answers w1 of
                    [] \<Rightarrow> (None, c2, w1)
                  | a # as \<Rightarrow>
                      (case conn_step (limit \<noteq> None) a c2 (w1\<lparr>sk_answers := as\<rparr>) of
                         (Inl e, c3, w3) \<Rightarrow> (Some (Inl e), fail e c3, w3)
                       | (Inr u, c3, w3) \<Rightarrow> drive finished deadline c3 w3))))"
  by pat_completeness auto
termination
proof (relation "measure (\<lambda>(f, d, c, w). length (sk_answers w))")
  show "((finished, deadline, c3, w3), finished, deadline, c, w)
      \<in> measure (\<lambda>(f, d, c, w). length (sk_answers w))"
    if "x = snd (past_limit l w)" "sk_answers x = a # as" "(r, p) = conn_step b a c2 (x\<lparr>sk_answers := as\<rparr>)"
      "(c3, w3) = p" for finished deadline c3 w3 c w x l a as r p b c2
  proof -
    have "conn_step b a c2 (x\<lparr>sk_answers := as\<rparr>) = (r, c3, w3)" using that(3,4) by simp
    then have "sk_answers w3 = as" using conn_step_answers by fastforce
    moreover have "sk_answers w = a # as" using that(1,2) by simp
    ultimately show ?thesis by simp
  qed
qed simp

declare drive.simps [simp del]

subsection \<open>Requests\<close>

text \<open>What follows an \<open>await\<close>: not reached while the future waits, and not after an error.\<close>

definition await :: "'a call \<Rightarrow> ('a \<Rightarrow> 'b call) \<Rightarrow> 'b call" where
  "await f g c w = (case f c w of
     (None, c', w') \<Rightarrow> (None, c', w')
   | (Some (Inl e), c', w') \<Rightarrow> (Some (Inl e), c', w')
   | (Some (Inr x), c', w') \<Rightarrow> g x c' w')"

definition checked :: "'a call \<Rightarrow> 'a call" where
  "checked f c w = (case check_ended c of Inl e \<Rightarrow> (Some (Inl e), c, w) | Inr u \<Rightarrow> f c w)"

definition flush :: "unit call" where
  "flush = drive (\<lambda>c. cn_outbound c = []) None"

definition client_frame :: "client_message \<Rightarrow> byte list" where
  "client_frame m = (case encode_client m of Some bytes \<Rightarrow> bytes | None \<Rightarrow> undefined)"

definition enqueue :: "client_message \<Rightarrow> connection \<Rightarrow> socket \<Rightarrow> connection \<times> socket" where
  "enqueue m c w =
     (let (now, w') = sk_now w in
      (c\<lparr>cn_write_deadline := Some (now + to_nanos (dl_reply (cn_deadlines c))),
         cn_outbound := cn_outbound c @ client_frame m\<rparr>, w'))"

definition reply_limit :: "connection \<Rightarrow> socket \<Rightarrow> nat \<times> socket" where
  "reply_limit c w = (let (now, w') = sk_now w in (now + to_nanos (dl_reply (cn_deadlines c)), w'))"

definition take_info :: "connection \<Rightarrow> info \<times> connection" where
  "take_info c = (case rp_last (cn_info c) of
     Some (k, i) \<Rightarrow> (i, c\<lparr>cn_info := (cn_info c)\<lparr>rp_last := None\<rparr>\<rparr>) | None \<Rightarrow> undefined)"

definition take_reply :: "connection \<Rightarrow> snapshot_reply \<times> connection" where
  "take_reply c = (case rp_last (cn_snapshots c) of
     Some (k, s) \<Rightarrow> (s, c\<lparr>cn_snapshots := (cn_snapshots c)\<lparr>rp_last := None\<rparr>\<rparr>) | None \<Rightarrow> undefined)"

definition request_info :: "info call" where
  "request_info = checked (await flush (\<lambda>_ c w.
     let (request, replies) = replies_next (cn_info c);
         (c1, w1) = enqueue Info (c\<lparr>cn_info := replies\<rparr>) w;
         (limit, w2) = reply_limit c1 w1
     in await (drive (\<lambda>c. replies_has request (cn_info c)) (Some limit))
          (\<lambda>_ c w. let (i, c') = take_info c in (Some (Inr i), c', w)) c1 w2))"

definition start_read :: "position \<Rightarrow> unit call" where
  "start_read frm = checked (\<lambda>c w.
     if cn_reading c then (Some (Inl ErrReadAlreadyStarted), c, w)
     else await flush (\<lambda>_ c w.
       let (c1, w1) = enqueue (Read frm) (c\<lparr>cn_reading := True\<rparr>) w in flush c1 w1) c w)"

definition next_event :: "host_event call" where
  "next_event c w = (case take_event c of
     (Some ev, c') \<Rightarrow> (Some (Inr ev), c', w)
   | (None, c') \<Rightarrow>
       (case drive (\<lambda>c. cn_events c \<noteq> []) None c' w of
          (None, c1, w1) \<Rightarrow> (None, c1, w1)
        | (Some r, c1, w1) \<Rightarrow>
            (case take_event c1 of
               (Some ev, c2) \<Rightarrow> (Some (Inr ev), c2, w1)
             | (None, c2) \<Rightarrow> (case r of Inl e \<Rightarrow> (Some (Inl e), c2, w1) | Inr u \<Rightarrow> undefined))))"

definition send_input :: "byte list \<Rightarrow> input_ticket call" where
  "send_input data = checked (\<lambda>c w.
     if data = [] \<or> MAX_INPUT < length data
     then (Some (Inl (ErrInvalidRequest ''an input must be 1 to MAX_INPUT bytes'')), c, w)
     else await flush (\<lambda>_ c w.
       case admit (length data) (cn_input c) of
         (Inl e, iw) \<Rightarrow> (Some (Inl e), c\<lparr>cn_input := iw\<rparr>, w)
       | (Inr ticket, iw) \<Rightarrow>
           (let (c1, w1) = enqueue (Input data) (c\<lparr>cn_input := iw\<rparr>) w
            in await flush (\<lambda>_ c w. (Some (Inr ticket), c, w)) c1 w1)) c w)"

definition resize :: "term_size \<Rightarrow> unit call" where
  "resize s = checked (\<lambda>c w.
     if \<not> size_valid s
     then (Some (Inl (ErrInvalidRequest ''a size must be 1 to MAX_DIMENSION each way'')), c, w)
     else await flush (\<lambda>_ c w. let (c1, w1) = enqueue (Resize s) c w in flush c1 w1) c w)"

definition request_snapshot :: "position \<Rightarrow> byte list \<Rightarrow> snapshot_reply call" where
  "request_snapshot p blob = checked (\<lambda>c w.
     if MAX_FRAME - 1 - 16 - 4 < length blob
     then (Some (Inl (ErrInvalidRequest ''a snapshot blob larger than a frame'')), c, w)
     else await flush (\<lambda>_ c w.
       let (request, replies) = replies_next (cn_snapshots c);
           (c1, w1) = enqueue (Snapshot p blob) (c\<lparr>cn_snapshots := replies\<rparr>) w;
           (limit, w2) = reply_limit c1 w1
       in await (drive (\<lambda>c. replies_has request (cn_snapshots c)) (Some limit))
            (\<lambda>_ c w. let (s, c') = take_reply c in (Some (Inr s), c', w)) c1 w2) c w)"

record shutdown_outcome =
  so_goodbye :: bool
  so_input :: input_counts

definition outcome_of :: "bool \<Rightarrow> connection \<Rightarrow> shutdown_outcome" where
  "outcome_of goodbye c = \<lparr>so_goodbye = goodbye, so_input = iw_counts (cn_input c)\<rparr>"

definition request_shutdown :: "shutdown_outcome call" where
  "request_shutdown = checked (\<lambda>c w.
     let (now, w1) = sk_now w;
         deadline = now + to_nanos (dl_shutdown (cn_deadlines c));
         c1 = c\<lparr>cn_shutting_down := True, cn_events := [], cn_queued := 0\<rparr>
     in await (drive (\<lambda>c. cn_outbound c = []) (Some deadline)) (\<lambda>_ c w.
       let (c2, w2) = enqueue Shutdown c w in
       (case drive cn_goodbye (Some deadline) c2 w2 of
          (None, c3, w3) \<Rightarrow> (None, c3, w3)
        | (Some (Inr u), c3, w3) \<Rightarrow> (Some (Inr (outcome_of True c3)), c3, w3)
        | (Some (Inl e), c3, w3) \<Rightarrow>
            if e = ErrClosed \<and> cn_outbound c3 = [] then (Some (Inr (outcome_of False c3)), c3, w3)
            else (Some (Inl e), c3, w3))) c1 w1)"

text \<open>One request of the connection's owner, and what of the socket goes on after it.\<close>

datatype request = AskInfo | StartRead position | NextEvent | SendInput "byte list" | SendResize term_size
  | SendSnapshot position "byte list" | AskShutdown

definition after_call :: "'a call \<Rightarrow> connection \<Rightarrow> socket \<Rightarrow> connection \<times> socket" where
  "after_call f c w = snd (f c w)"

fun perform :: "request \<Rightarrow> connection \<Rightarrow> socket \<Rightarrow> connection \<times> socket" where
  "perform AskInfo = after_call request_info"
| "perform (StartRead p) = after_call (start_read p)"
| "perform NextEvent = after_call next_event"
| "perform (SendInput data) = after_call (send_input data)"
| "perform (SendResize s) = after_call (resize s)"
| "perform (SendSnapshot p blob) = after_call (request_snapshot p blob)"
| "perform AskShutdown = after_call request_shutdown"

end
