(* ===== verification/Connection_Window.thy ===== *)
theory Connection_Window
  imports Connection_Run
begin

text \<open>
  The window of unacknowledged input against its specification: the lengths of the inputs sent
  on the connection, in order, and how many of them are resolved.
\<close>

subsection \<open>The specification\<close>

text \<open>What \<open>unresolved\<close> holds for inputs of these lengths after \<open>base\<close> bytes.\<close>

fun pending_ends :: "nat \<Rightarrow> nat list \<Rightarrow> (nat \<times> nat) list" where
  "pending_ends base [] = []"
| "pending_ends base (l # ls) = (base + l, l + INPUT_COST) # pending_ends (base + l) ls"

lemma pending_ends_append:
  "pending_ends base (xs @ ys) = pending_ends base xs @ pending_ends (base + sum_list xs) ys"
  by (induction xs arbitrary: base) (simp_all add: add.assoc)

lemma pending_ends_costs: "map snd (pending_ends base ls) = map (\<lambda>l. l + INPUT_COST) ls"
  by (induction ls arbitrary: base) simp_all

definition in_flight :: "nat list \<Rightarrow> nat" where
  "in_flight ls = (\<Sum>l\<leftarrow>ls. l + INPUT_COST)"

lemma in_flight_simps [simp]:
  "in_flight [] = 0" "in_flight (l # ls) = l + INPUT_COST + in_flight ls"
  "in_flight (xs @ ys) = in_flight xs + in_flight ys"
  by (simp_all add: in_flight_def)

lemma in_flight_split: "in_flight ls = in_flight (take j ls) + in_flight (drop j ls)"
  by (metis append_take_drop_id in_flight_simps(3))

text \<open>The first \<open>k\<close> of the inputs sent are resolved.\<close>

definition window_at :: "nat list \<Rightarrow> nat \<Rightarrow> input_window \<Rightarrow> bool" where
  "window_at ls k iw \<longleftrightarrow> k \<le> length ls \<and> (\<forall>l\<in>set ls. 0 < l)
     \<and> ic_sent (iw_counts iw) = sum_list ls
     \<and> ic_written (iw_counts iw) + ic_discarded (iw_counts iw) = sum_list (take k ls)
     \<and> iw_unresolved iw = pending_ends (sum_list (take k ls)) (drop k ls)
     \<and> iw_cost iw = in_flight (drop k ls) \<and> iw_cost iw \<le> INPUT_WINDOW"

lemma window_default_at: "window_at [] 0 window_default"
  by (simp add: window_at_def window_default_def counts_zero_def)

lemma admit_at:
  assumes "window_at ls k iw" "0 < len"
  shows "admit len iw = (if INPUT_WINDOW < in_flight (drop k ls) + len + INPUT_COST
      then (Inl (ErrInputWindowFull (len + INPUT_COST) (INPUT_WINDOW - in_flight (drop k ls))), iw)
      else (Inr \<lparr>tk_end = sum_list (ls @ [len])\<rparr>, snd (admit len iw)))"
    and "in_flight (drop k ls) + len + INPUT_COST \<le> INPUT_WINDOW \<Longrightarrow> window_at (ls @ [len]) k (snd (admit len iw))"
proof -
  have W: "k \<le> length ls" "ic_sent (iw_counts iw) = sum_list ls" "iw_cost iw = in_flight (drop k ls)"
    "iw_unresolved iw = pending_ends (sum_list (take k ls)) (drop k ls)" "in_flight (drop k ls) \<le> INPUT_WINDOW"
    using assms(1) by (simp_all add: window_at_def)
  have full: "window_room iw < len + INPUT_COST \<longleftrightarrow> INPUT_WINDOW < in_flight (drop k ls) + len + INPUT_COST"
    using W(3,5) unfolding window_room_def by linarith
  show "admit len iw = (if INPUT_WINDOW < in_flight (drop k ls) + len + INPUT_COST
      then (Inl (ErrInputWindowFull (len + INPUT_COST) (INPUT_WINDOW - in_flight (drop k ls))), iw)
      else (Inr \<lparr>tk_end = sum_list (ls @ [len])\<rparr>, snd (admit len iw)))"
    using W full by (simp add: admit_def Let_def window_room_def)
  assume fits: "in_flight (drop k ls) + len + INPUT_COST \<le> INPUT_WINDOW"
  have "sum_list (take k ls) + sum_list (drop k ls) = sum_list ls"
    by (metis append_take_drop_id sum_list.append)
  then show "window_at (ls @ [len]) k (snd (admit len iw))"
    using assms W full fits by (simp add: admit_def Let_def window_at_def pending_ends_append)
qed

subsection \<open>Acknowledgements\<close>

lemma resolve_inputs_ends:
  "\<forall>l\<in>set ls. 0 < l \<Longrightarrow> base \<le> resolved \<Longrightarrow> in_flight ls \<le> cost \<Longrightarrow>
    \<exists>j\<le>length ls. resolve_inputs resolved base cost (pending_ends base ls)
        = (base + sum_list (take j ls), cost - in_flight (take j ls), pending_ends (base + sum_list (take j ls)) (drop j ls))
      \<and> base + sum_list (take j ls) \<le> resolved
      \<and> (\<forall>i\<le>length ls. base + sum_list (take i ls) \<le> resolved \<longrightarrow> i \<le> j)"
proof (induction ls arbitrary: base cost)
  case (Cons l ls)
  show ?case
  proof (cases "base + l \<le> resolved")
    case True
    from Cons.IH [of "base + l" "cost - (l + INPUT_COST)"] Cons.prems True obtain j where
      j: "j \<le> length ls" "resolve_inputs resolved (base + l) (cost - (l + INPUT_COST)) (pending_ends (base + l) ls)
        = (base + l + sum_list (take j ls), cost - (l + INPUT_COST) - in_flight (take j ls),
           pending_ends (base + l + sum_list (take j ls)) (drop j ls))"
      "base + l + sum_list (take j ls) \<le> resolved"
      "\<forall>i\<le>length ls. base + l + sum_list (take i ls) \<le> resolved \<longrightarrow> i \<le> j"
      by fastforce
    have "i \<le> Suc j" if "i \<le> length (l # ls)" "base + sum_list (take i (l # ls)) \<le> resolved" for i
      using that j(4) by (cases i) (auto simp: add.assoc)
    then show ?thesis
      using j(1-3) True by (intro exI [of _ "Suc j"]) (simp add: add.assoc)
  next
    case False
    have "i = 0" if "base + sum_list (take i (l # ls)) \<le> resolved" for i
      using that False by (cases i) auto
    then show ?thesis using False Cons.prems(2) by (intro exI [of _ 0]) auto
  qed
qed simp

lemma sum_take_mono: "i \<le> j \<Longrightarrow> sum_list (take i ls) \<le> sum_list (take j (ls :: nat list))"
  by (metis le_add1 le_add_diff_inverse sum_list.append take_add)

lemma sum_take_strict:
  assumes "\<forall>l\<in>set ls. 0 < l" "i < j" "j \<le> length ls"
  shows "sum_list (take i ls) < sum_list (take j (ls :: nat list))"
proof -
  have "take (Suc i) ls = take i ls @ [ls ! i]" using assms by (simp add: take_Suc_conv_app_nth)
  then have "sum_list (take i ls) < sum_list (take (Suc i) ls)" using assms by simp
  also have "\<dots> \<le> sum_list (take j ls)" using assms(2) by (intro sum_take_mono) simp
  finally show ?thesis .
qed

text \<open>An acknowledgement is taken exactly where its totals end at an input not before the last.\<close>

lemma acknowledge_at:
  assumes at: "window_at ls k iw"
  shows "fst (window_acknowledge wr di iw) = Inr () \<longleftrightarrow>
      ic_written (iw_counts iw) \<le> wr \<and> ic_discarded (iw_counts iw) \<le> di \<and> u64_ok (wr + di)
      \<and> (\<exists>j\<le>length ls. wr + di = sum_list (take j ls))"
    and "fst (window_acknowledge wr di iw) = Inr () \<Longrightarrow> \<exists>j. k \<le> j \<and> wr + di = sum_list (take j ls)
      \<and> window_at ls j (snd (window_acknowledge wr di iw))
      \<and> iw_counts (snd (window_acknowledge wr di iw)) = (iw_counts iw)\<lparr>ic_written := wr, ic_discarded := di\<rparr>"
    and "fst (window_acknowledge wr di iw) = Inl e \<Longrightarrow> \<exists>what. e = ErrMalformed what
      \<and> iw_counts (snd (window_acknowledge wr di iw)) = iw_counts iw"
proof -
  let ?c = "iw_counts iw"
  have W: "k \<le> length ls" "\<forall>l\<in>set ls. 0 < l" "ic_sent ?c = sum_list ls" "iw_cost iw = in_flight (drop k ls)"
    "ic_written ?c + ic_discarded ?c = sum_list (take k ls)" "in_flight (drop k ls) \<le> INPUT_WINDOW"
    "iw_unresolved iw = pending_ends (sum_list (take k ls)) (drop k ls)"
    using at by (simp_all add: window_at_def)
  let ?ok = "ic_written ?c \<le> wr \<and> ic_discarded ?c \<le> di \<and> u64_ok (wr + di) \<and> wr + di \<le> sum_list ls"
  have "?ok \<Longrightarrow> sum_list (take k ls) \<le> wr + di" using W(5) by simp
  moreover have "\<forall>l\<in>set (drop k ls). 0 < l" using W(2) by (meson in_set_dropD)
  ultimately obtain i where i: "?ok \<Longrightarrow> i \<le> length (drop k ls)"
    "?ok \<Longrightarrow> resolve_inputs (wr + di) (sum_list (take k ls)) (iw_cost iw) (iw_unresolved iw)
      = (sum_list (take k ls) + sum_list (take i (drop k ls)), iw_cost iw - in_flight (take i (drop k ls)),
         pending_ends (sum_list (take k ls) + sum_list (take i (drop k ls))) (drop i (drop k ls)))"
    "?ok \<Longrightarrow> \<forall>n\<le>length (drop k ls). sum_list (take k ls) + sum_list (take n (drop k ls)) \<le> wr + di \<longrightarrow> n \<le> i"
    "?ok \<Longrightarrow> sum_list (take k ls) + sum_list (take i (drop k ls)) \<le> wr + di"
    using resolve_inputs_ends [of "drop k ls" "sum_list (take k ls)" "wr + di" "iw_cost iw"] W(4,7)
    by (cases ?ok) auto
  have sum: "sum_list (take k ls) + sum_list (take n (drop k ls)) = sum_list (take (k + n) ls)" for n
    by (simp add: take_add)
  define iw1 where "iw1 = iw\<lparr>iw_cost := iw_cost iw - in_flight (take i (drop k ls)),
    iw_unresolved := pending_ends (sum_list (take (k + i) ls)) (drop (k + i) ls)\<rparr>"
  define iw2 where "iw2 = iw1\<lparr>iw_counts := ?c\<lparr>ic_written := wr, ic_discarded := di\<rparr>\<rparr>"
  have go: "window_acknowledge wr di iw = (if sum_list (take (k + i) ls) \<noteq> wr + di
      then (Inl (broken_ack ''ends inside an Input''), iw1) else (Inr (), iw2))" if ?ok
    using that i(2) [OF that] W(3,5) unfolding sum drop_drop
    by (simp add: window_acknowledge_def Let_def iw1_def iw2_def add.commute [of i k])
  have bad: "\<exists>what. window_acknowledge wr di iw = (Inl (ErrMalformed what), iw)" if "\<not> ?ok"
    using that W(3) by (auto simp: window_acknowledge_def Let_def broken_ack_def)
  have at2: "window_at ls (k + i) iw2" if ?ok "sum_list (take (k + i) ls) = wr + di"
    using W i(1) [OF that(1)] that(2) in_flight_split [of "drop k ls" i]
    unfolding window_at_def iw2_def iw1_def by (simp add: add.commute [of i k])
  have within: "sum_list (take j ls) \<le> sum_list ls" for j using sum_take_mono [of j "max j (length ls)" ls] by simp
  show "fst (window_acknowledge wr di iw) = Inr () \<longleftrightarrow>
      ic_written ?c \<le> wr \<and> ic_discarded ?c \<le> di \<and> u64_ok (wr + di)
      \<and> (\<exists>j\<le>length ls. wr + di = sum_list (take j ls))"
  proof (cases ?ok)
    case True
    have "sum_list (take (k + i) ls) = wr + di" if j: "j \<le> length ls" "wr + di = sum_list (take j ls)" for j
    proof -
      have "sum_list (take k ls) \<le> sum_list (take j ls)" using True W(5) j(2) by simp
      then have kj: "k \<le> j" using sum_take_strict [OF W(2) _ W(1), of j] by (meson leI not_le)
      then have "j - k \<le> i" using i(3) [OF True] j sum [of "j - k"] by simp
      moreover have "sum_list (take (k + i) ls) \<le> wr + di"
        using i(4) [OF True] sum [of i] by simp
      ultimately show ?thesis using sum_take_mono [of j "k + i" ls] j(2) kj by simp
    qed
    moreover have "k + i \<le> length ls" using i(1) [OF True] W(1) by simp
    ultimately have "(\<exists>j\<le>length ls. wr + di = sum_list (take j ls)) \<longleftrightarrow> sum_list (take (k + i) ls) = wr + di"
      by metis
    moreover have "fst (window_acknowledge wr di iw) = Inr () \<longleftrightarrow> sum_list (take (k + i) ls) = wr + di"
      by (simp add: go [OF True])
    ultimately show ?thesis using True by blast
  next
    case False
    then show ?thesis using bad within by auto
  qed
  show "\<exists>j. k \<le> j \<and> wr + di = sum_list (take j ls) \<and> window_at ls j (snd (window_acknowledge wr di iw))
      \<and> iw_counts (snd (window_acknowledge wr di iw)) = ?c\<lparr>ic_written := wr, ic_discarded := di\<rparr>"
    if "fst (window_acknowledge wr di iw) = Inr ()"
    using that go at2 bad by (cases ?ok) (auto simp: iw2_def split: if_splits intro!: exI [of _ "k + i"])
  show "\<exists>what. e = ErrMalformed what \<and> iw_counts (snd (window_acknowledge wr di iw)) = ?c"
    if "fst (window_acknowledge wr di iw) = Inl e"
    using that go bad by (cases ?ok) (auto simp: iw1_def broken_ack_def split: if_splits)
qed

end
