(* ===== verification/Connection_Inv.thy ===== *)
theory Connection_Inv
  imports Connection_Window
begin

text \<open>
  What every step of a host connection keeps. The interface \<open>drive_invariant\<close> is what a predicate
  on the connection and the bytes it wrote must satisfy for \<open>drive\<close> to keep it; the connection's
  invariant is shown to satisfy it, and then every request keeps it, dropped or not.
\<close>

subsection \<open>Errors of the receiver\<close>

lemma receive_message_ended: "receive_message m c = (r, c') \<Longrightarrow> cn_ended c' = cn_ended c"
  by (cases m) (auto simp: receive_message_def push_event_def receive_info_def receive_snapshot_def
      receive_ack_def Let_def split: if_splits sum.splits prod.splits)

lemma acknowledge_fatal: "fst (window_acknowledge w d iw) = Inl e \<Longrightarrow> is_fatal e"
  by (auto simp: window_acknowledge_def broken_ack_def is_fatal_def Let_def split: if_splits prod.splits)

lemma push_event_fatal: "push_event ev c = (Inl e, c') \<Longrightarrow> is_fatal e"
  by (auto simp: push_event_def is_fatal_def Let_def split: if_splits)

lemma replies_fatal: "fst (replies_receive x r) = Inl e \<Longrightarrow> is_fatal e"
  by (auto simp: replies_receive_def is_fatal_def split: if_splits)

lemma receive_message_fatal: "receive_message m c = (Inl e, c') \<Longrightarrow> is_fatal e"
proof (cases m)
  case (InputAck w d)
  obtain r iw where a: "window_acknowledge w d (cn_input c) = (r, iw)" by fastforce
  show "receive_message m c = (Inl e, c') \<Longrightarrow> ?thesis"
    using acknowledge_fatal [of w d "cn_input c" e] push_event_fatal a InputAck
    by (cases r) (auto simp: receive_message_def receive_ack_def)
next
  case (InfoReply i)
  show "receive_message m c = (Inl e, c') \<Longrightarrow> ?thesis"
    using replies_fatal [of i "cn_info c" e] InfoReply
    by (auto simp: receive_message_def receive_info_def split: prod.splits)
next
  case (SnapshotAccepted p)
  show "receive_message m c = (Inl e, c') \<Longrightarrow> ?thesis"
    using replies_fatal [of "ReplyAccepted p" "cn_snapshots c" e] SnapshotAccepted
    by (auto simp: receive_message_def receive_snapshot_def split: prod.splits)
next
  case (SnapshotRejected p x)
  show "receive_message m c = (Inl e, c') \<Longrightarrow> ?thesis"
    using replies_fatal [of "ReplyRejected p x" "cn_snapshots c" e] SnapshotRejected
    by (auto simp: receive_message_def receive_snapshot_def split: prod.splits)
qed (auto simp: receive_message_def is_fatal_def split: if_splits dest: push_event_fatal [unfolded is_fatal_def])

lemma decode_host_ok: "decode_host f PROTOCOL_VERSION = Inr m \<Longrightarrow> host_ok m"
  using decode_host_dec_iff [of f m] by (simp add: PROTOCOL_VERSION_def)

lemma conn_step_fatal: "conn_step l a c w = (Inl e, c', w') \<Longrightarrow> is_fatal e \<and> c' = c \<and> w' = w"
proof -
  have "is_fatal (io_failure x)" for x by (cases x) (simp_all add: is_fatal_def)
  then show "conn_step l a c w = (Inl e, c', w') \<Longrightarrow> ?thesis"
    by (auto simp: conn_step_def is_fatal_def split: sock_answer.splits if_splits)
qed

subsection \<open>The interface\<close>

locale drive_invariant =
  fixes holds :: "connection \<Rightarrow> byte list \<Rightarrow> bool"
  assumes inbound: "holds c wr \<Longrightarrow> holds (c\<lparr>cn_inbound := b\<rparr>) wr"
    and deadline: "holds c wr \<Longrightarrow> holds (c\<lparr>cn_write_deadline := t\<rparr>) wr"
    and ended: "holds c wr \<Longrightarrow> holds (c\<lparr>cn_ended := Some e\<rparr>) wr"
    and wrote: "holds c wr \<Longrightarrow> holds (c\<lparr>cn_outbound := drop n (cn_outbound c)\<rparr>) (wr @ take n (cn_outbound c))"
    and message: "holds c wr \<Longrightarrow> cn_ended c = None \<Longrightarrow> host_ok m \<Longrightarrow> receive_message m c = (Inr (), c')
      \<Longrightarrow> holds c' wr"
    and refused: "holds c wr \<Longrightarrow> cn_ended c = None \<Longrightarrow> host_ok m \<Longrightarrow> receive_message m c = (Inl e, c')
      \<Longrightarrow> holds (c'\<lparr>cn_ended := Some e\<rparr>) wr"
begin

lemma decode_loop_keeps:
  "decode_loop rest c = (r, rest', c') \<Longrightarrow> holds c wr \<Longrightarrow> cn_ended c = None \<Longrightarrow>
    cn_ended c' = None \<and> (case r of Inr u \<Rightarrow> holds c' wr
      | Inl e \<Rightarrow> is_fatal e \<and> holds (c'\<lparr>cn_ended := Some e\<rparr>) wr)"
proof (induction rest c rule: decode_loop.induct)
  case (1 rest c)
  note loop = "1.prems"(1) [unfolded decode_loop.simps [of rest c]]
  have mal: "is_fatal (ErrMalformed x)" for x by (simp add: is_fatal_def)
  show ?case
  proof (cases "split_frame rest MAX_FRAME")
    case (Inl e)
    then show ?thesis using loop "1.prems"(2,3) mal ended by auto
  next
    case (Inr x)
    show ?thesis
    proof (cases x)
      case None
      then show ?thesis using loop Inr "1.prems"(2,3) by auto
    next
      case (Some f)
      note loop = loop [unfolded Inr Some sum.case option.case Let_def]
      show ?thesis
      proof (cases "decode_host f PROTOCOL_VERSION")
        case (Inl e)
        then show ?thesis using loop "1.prems"(2,3) mal ended by auto
      next
        case m: (Inr m)
        obtain q c1 where q: "receive_message m c = (q, c1)" by fastforce
        have e1: "cn_ended c1 = None" using receive_message_ended [OF q] "1.prems"(3) by simp
        show ?thesis
        proof (cases q)
          case (Inl e)
          then show ?thesis
            using loop m q e1 receive_message_fatal refused [OF "1.prems"(2,3) decode_host_ok [OF m]] by auto
        next
          case u: (Inr u)
          have "holds c1 wr" by (rule message [OF "1.prems"(2,3) decode_host_ok [OF m]]) (use q u in simp)
          moreover have "decode_loop (drop (f_consumed f) rest) c1 = (r, rest', c')"
            using loop m q u by simp
          ultimately show ?thesis
            using "1.IH" [OF Inr Some refl m q [symmetric] u] e1 by blast
        qed
      qed
    qed
  qed
qed

lemma fail_holds: "holds (c\<lparr>cn_ended := Some e\<rparr>) wr \<Longrightarrow> is_fatal e \<Longrightarrow> cn_ended c = None \<Longrightarrow> holds (fail e c) wr"
  by (simp add: fail_def)

lemma decode_buffered_keeps:
  assumes "decode_buffered c = (r, c')" "holds c wr" "cn_ended c = None"
  shows "cn_ended c' = None" "r = Inr u \<Longrightarrow> holds c' wr" "r = Inl e \<Longrightarrow> holds (fail e c') wr"
proof -
  obtain q rest c1 where d: "decode_loop (cn_inbound c) c = (q, rest, c1)" by (metis prod_cases3)
  have c': "r = q" "c' = c1\<lparr>cn_inbound := rest\<rparr>" using assms(1) d by (simp_all add: decode_buffered_def)
  note D = decode_loop_keeps [OF d assms(2,3)]
  then show "cn_ended c' = None" "r = Inr u \<Longrightarrow> holds c' wr" using inbound by (auto simp: c')
  show "holds (fail e c') wr" if "r = Inl e"
  proof -
    have "holds (c1\<lparr>cn_ended := Some e, cn_inbound := rest\<rparr>) wr"
      using D that c' inbound by simp
    then have "holds (c1\<lparr>cn_inbound := rest, cn_ended := Some e\<rparr>) wr" by (cases c1) simp
    then show ?thesis using D that by (simp add: c' fail_def)
  qed
qed

lemma conn_step_keeps:
  assumes "conn_step l a c w = (r, c', w')" "holds c (sk_written w)" "cn_ended c = None"
  shows "r = Inr u \<Longrightarrow> holds c' (sk_written w') \<and> cn_ended c' = None"
    "r = Inl e \<Longrightarrow> holds (fail e c') (sk_written w')"
proof -
  show "holds c' (sk_written w') \<and> cn_ended c' = None" if "r = Inr u"
    using assms that inbound wrote by (auto simp: conn_step_def split: sock_answer.splits if_splits)
  show "holds (fail e c') (sk_written w')" if "r = Inl e"
    using conn_step_fatal [of l a c w e c' w'] assms that ended by (auto simp: fail_def)
qed

lemma drive_keeps:
  "drive finished limit c w = (r, c', w') \<Longrightarrow> holds c (sk_written w) \<Longrightarrow>
    holds c' (sk_written w') \<and> (r = Some (Inr ()) \<longrightarrow> finished c' \<and> cn_ended c' = None)"
proof (induction finished limit c w rule: drive.induct)
  case (1 finished limit c w)
  note go = "1.prems"(1) [unfolded drive.simps [of finished limit c w]]
  show ?case
  proof (cases "cn_ended c")
    case (Some e)
    then show ?thesis using go "1.prems"(2) by (auto simp: check_ended_def)
  next
    case None
    then have chk: "check_ended c = Inr ()" by (simp add: check_ended_def)
    obtain q c1 where d: "decode_buffered c = (q, c1)" by fastforce
    note D = decode_buffered_keeps [OF d "1.prems"(2) None]
    note go = go [unfolded chk sum.case d prod.case]
    show ?thesis
    proof (cases q)
      case (Inl e)
      then show ?thesis using go D(3) by auto
    next
      case (Inr u)
      let ?c2 = "clear_deadline c1"
      have c2: "holds ?c2 (sk_written w)" "cn_ended ?c2 = None"
        using D(1) D(2) [OF Inr] deadline by (simp_all add: clear_deadline_def)
      note go = go [unfolded Inr sum.case Let_def]
      show ?thesis
      proof (cases "finished ?c2")
        case True
        then show ?thesis using go c2 by auto
      next
        case f: False
        let ?l = "min_limit limit (cn_write_deadline ?c2)" and ?w1 = "snd (past_limit (min_limit limit (cn_write_deadline (clear_deadline c1))) w)"
        note go = go [unfolded if_not_P [OF f]]
        show ?thesis
        proof (cases "fst (past_limit ?l w)")
          case True
          then show ?thesis using go c2 ended by (auto simp: fail_def is_fatal_def)
        next
          case p: False
          note go = go [unfolded if_not_P [OF p]]
          show ?thesis
          proof (cases "sk_answers ?w1")
            case Nil
            then show ?thesis using go c2(1) by auto
          next
            case (Cons a as)
            obtain x c3 w3 where st: "conn_step (?l \<noteq> None) a ?c2 (?w1\<lparr>sk_answers := as\<rparr>) = (x, c3, w3)"
              by (metis prod_cases3)
            have "holds ?c2 (sk_written (?w1\<lparr>sk_answers := as\<rparr>))" using c2(1) by simp
            note S = conn_step_keeps [OF st this c2(2)]
            note go = go [unfolded Cons list.case st prod.case]
            show ?thesis
            proof (cases x)
              case (Inl e)
              then show ?thesis using go S(2) by auto
            next
              case y: (Inr y)
              then show ?thesis
                using "1.IH" [OF chk d [symmetric] Inr refl f refl refl p Cons st [symmetric] y refl] S(1) go by simp
            qed
          qed
        qed
      qed
    qed
  qed
qed

lemma flush_keeps:
  "flush c w = (r, c', w') \<Longrightarrow> holds c (sk_written w) \<Longrightarrow>
    holds c' (sk_written w') \<and> (r = Some (Inr ()) \<longrightarrow> cn_outbound c' = [] \<and> cn_ended c' = None)"
  unfolding flush_def by (rule drive_keeps)

end

end
