(* ===== verification/Connection_Safe.thy ===== *)
theory Connection_Safe
  imports Connection_Inv
begin

text \<open>
  The invariant of a host connection over the messages its owner's requests queued, in order:
  what was written and what waits are their frames, the input window accounts for their inputs,
  replies are numbered by their requests, and the queue of events is bounded.
\<close>

subsection \<open>The invariant\<close>

definition sent_frames :: "client_message list \<Rightarrow> byte list" where
  "sent_frames ms = concat (map clientc.bytes_of ms)"

lemma sent_frames_simps [simp]: "sent_frames [] = []" "sent_frames (ms @ [m]) = sent_frames ms @ clientc.bytes_of m"
  by (simp_all add: sent_frames_def)

definition input_lens :: "client_message list \<Rightarrow> nat list" where
  "input_lens ms = concat (map (\<lambda>m. case m of Input d \<Rightarrow> [length d] | _ \<Rightarrow> []) ms)"

lemma input_lens_snoc [simp]:
  "input_lens [] = []" "input_lens (ms @ [m]) = input_lens ms @ (case m of Input d \<Rightarrow> [length d] | _ \<Rightarrow> [])"
  by (simp_all add: input_lens_def)

definition msg_is_read :: "client_message \<Rightarrow> bool" where
  "msg_is_read m = (case m of Read p \<Rightarrow> True | _ \<Rightarrow> False)"

definition msg_is_snapshot :: "client_message \<Rightarrow> bool" where
  "msg_is_snapshot m = (case m of Snapshot p b \<Rightarrow> True | _ \<Rightarrow> False)"

definition frames_inv :: "client_message list \<Rightarrow> connection \<Rightarrow> byte list \<Rightarrow> bool" where
  "frames_inv ms c wr \<longleftrightarrow> wr @ cn_outbound c = sent_frames ms \<and> (\<forall>m\<in>set ms. clientc.sendable m)
     \<and> (cn_outbound c \<noteq> [] \<longrightarrow> ms \<noteq> [] \<and> length (cn_outbound c) \<le> length (clientc.bytes_of (last ms)))"

definition window_inv :: "client_message list \<Rightarrow> connection \<Rightarrow> bool" where
  "window_inv ms c \<longleftrightarrow> ic_sent (iw_counts (cn_input c)) = sum_list (input_lens ms)
     \<and> ic_written (iw_counts (cn_input c)) + ic_discarded (iw_counts (cn_input c)) \<le> ic_sent (iw_counts (cn_input c))
     \<and> (cn_ended c = None \<longrightarrow> (\<exists>k. window_at (input_lens ms) k (cn_input c)))"

definition replies_inv :: "nat \<Rightarrow> 'a replies \<Rightarrow> bool" where
  "replies_inv n r \<longleftrightarrow> rp_sent r = n \<and> rp_received r \<le> n
     \<and> (\<forall>k x. rp_last r = Some (k, x) \<longrightarrow> k < rp_received r)"

definition stream_inv :: "client_message list \<Rightarrow> connection \<Rightarrow> bool" where
  "stream_inv ms c \<longleftrightarrow> length (filter msg_is_read ms) = (if cn_reading c then 1 else 0)
     \<and> (Shutdown \<in> set ms \<longrightarrow> cn_shutting_down c)
     \<and> replies_inv (length (filter (\<lambda>m. m = Info) ms)) (cn_info c)
     \<and> replies_inv (length (filter msg_is_snapshot ms)) (cn_snapshots c)"

definition events_inv :: "connection \<Rightarrow> bool" where
  "events_inv c \<longleftrightarrow> cn_queued c = (\<Sum>ev\<leftarrow>cn_events c. event_cost ev)
     \<and> cn_queued c \<le> EVENT_QUEUE_LIMIT + (EVENT_COST + MAX_FRAME)
     \<and> (cn_ended c = None \<longrightarrow> cn_queued c \<le> EVENT_QUEUE_LIMIT)"

definition conn_inv :: "client_message list \<Rightarrow> connection \<Rightarrow> byte list \<Rightarrow> bool" where
  "conn_inv ms c wr \<longleftrightarrow> frames_inv ms c wr \<and> window_inv ms c \<and> stream_inv ms c \<and> events_inv c"

lemmas conn_inv_defs = conn_inv_def frames_inv_def window_inv_def stream_inv_def events_inv_def

text \<open>What each message adds to the invariant's parts.\<close>

lemma window_inv_other:
  "window_inv ms c \<Longrightarrow> (\<forall>d. m \<noteq> Input d) \<Longrightarrow> cn_input c' = cn_input c \<Longrightarrow> cn_ended c' = cn_ended c \<Longrightarrow>
    window_inv (ms @ [m]) c'"
  by (cases m) (simp_all add: window_inv_def)

lemma events_inv_same:
  "events_inv c \<Longrightarrow> cn_events c' = cn_events c \<Longrightarrow> cn_queued c' = cn_queued c \<Longrightarrow> cn_ended c' = cn_ended c \<Longrightarrow> events_inv c'"
  by (auto simp: events_inv_def)

lemma conn_invD:
  assumes "conn_inv ms c wr"
  shows "frames_inv ms c wr" "window_inv ms c" "stream_inv ms c" "events_inv c"
  using assms by (simp_all add: conn_inv_def)

lemma frames_inv_same: "frames_inv ms c wr \<Longrightarrow> cn_outbound c' = cn_outbound c \<Longrightarrow> frames_inv ms c' wr"
  by (simp add: frames_inv_def)

lemma window_inv_same:
  "window_inv ms c \<Longrightarrow> cn_input c' = cn_input c \<Longrightarrow> cn_ended c' = cn_ended c \<Longrightarrow> window_inv ms c'"
  by (simp add: window_inv_def)

subsection \<open>Receiving keeps it\<close>

lemma event_cost_bound: "host_ok m \<Longrightarrow> record_event m = Some ev \<Longrightarrow> event_cost ev \<le> EVENT_COST + MAX_FRAME"
  by (cases m) (auto simp: event_cost_def limits)

lemma push_event_keeps:
  assumes "push_event ev c = (r, c')" "conn_inv ms c wr" "cn_ended c = None" "event_cost ev \<le> EVENT_COST + MAX_FRAME"
  shows "r = Inr () \<Longrightarrow> conn_inv ms c' wr" "r = Inl e \<Longrightarrow> conn_inv ms (c'\<lparr>cn_ended := Some x\<rparr>) wr"
proof -
  show "r = Inr () \<Longrightarrow> conn_inv ms c' wr"
    using assms by (auto simp: push_event_def conn_inv_defs Let_def split: if_splits)
  show "r = Inl e \<Longrightarrow> conn_inv ms (c'\<lparr>cn_ended := Some x\<rparr>) wr"
    using assms by (auto simp: push_event_def conn_inv_defs Let_def split: if_splits)
qed

lemma replies_receive_keeps: "replies_inv n r \<Longrightarrow> replies_inv n (snd (replies_receive x r))"
  by (auto simp: replies_receive_def replies_inv_def)

lemma conn_inv_ended: "conn_inv ms c wr \<Longrightarrow> conn_inv ms (c\<lparr>cn_ended := Some e\<rparr>) wr"
  by (auto simp: conn_inv_defs)

lemma receive_info_keeps: "conn_inv ms c wr \<Longrightarrow> conn_inv ms (snd (receive_info i c)) wr"
  using replies_receive_keeps [of _ "cn_info c" i] by (auto simp: conn_inv_defs receive_info_def split: prod.splits)

lemma receive_snapshot_keeps: "conn_inv ms c wr \<Longrightarrow> conn_inv ms (snd (receive_snapshot s c)) wr"
  using replies_receive_keeps [of _ "cn_snapshots c" s] by (auto simp: conn_inv_defs receive_snapshot_def split: prod.splits)

lemma receive_ack_keeps:
  assumes "receive_ack wt di c = (r, c')" "conn_inv ms c wr" "cn_ended c = None"
  shows "r = Inr () \<Longrightarrow> conn_inv ms c' wr" "r = Inl e \<Longrightarrow> conn_inv ms (c'\<lparr>cn_ended := Some x\<rparr>) wr"
proof -
  obtain q iw where a: "window_acknowledge wt di (cn_input c) = (q, iw)" by fastforce
  obtain k where k: "window_at (input_lens ms) k (cn_input c)"
    using assms(2,3) by (auto simp: conn_inv_def window_inv_def)
  note A = acknowledge_at [OF k, of wt di, unfolded a fst_conv snd_conv]
  let ?c = "c\<lparr>cn_input := iw\<rparr>"
  have ok: "conn_inv ms ?c wr" if u: "q = Inr ()"
  proof -
    from A(2) [OF u] obtain j where "window_at (input_lens ms) j iw" by blast
    moreover from this have "ic_written (iw_counts iw) + ic_discarded (iw_counts iw) \<le> ic_sent (iw_counts iw)"
      by (metis window_at_def append_take_drop_id le_add1 sum_list.append)
    moreover have "ic_sent (iw_counts iw) = sum_list (input_lens ms)"
      using calculation(1) by (simp add: window_at_def)
    ultimately show ?thesis using assms(2) by (auto simp: conn_inv_defs)
  qed
  have bad: "conn_inv ms (?c\<lparr>cn_ended := Some x\<rparr>) wr" if u: "q = Inl y" for x y
    using A(3) [OF u] assms(2) by (auto simp: conn_inv_defs)
  have push: "push_event (EvInputAcknowledged (iw_counts iw)) ?c = (r, c')" if "q = Inr ()"
    using assms(1) that a by (simp add: receive_ack_def)
  have cost: "event_cost (EvInputAcknowledged n) \<le> EVENT_COST + MAX_FRAME" for n by (simp add: event_cost_def)
  show "r = Inr () \<Longrightarrow> conn_inv ms c' wr"
    using push_event_keeps(1) [OF push ok _ cost] assms(1,3) a
    by (cases q) (auto simp: receive_ack_def)
  show "r = Inl e \<Longrightarrow> conn_inv ms (c'\<lparr>cn_ended := Some x\<rparr>) wr"
    using push_event_keeps(2) [OF push ok _ cost] bad assms(1,3) a
    by (cases q) (auto simp: receive_ack_def)
qed

lemma receive_message_keeps:
  assumes "receive_message m c = (r, c')" "conn_inv ms c wr" "cn_ended c = None" "host_ok m"
  shows "r = Inr () \<Longrightarrow> conn_inv ms c' wr" "r = Inl e \<Longrightarrow> conn_inv ms (c'\<lparr>cn_ended := Some x\<rparr>) wr"
proof -
  have both: "(r = Inr () \<longrightarrow> conn_inv ms c' wr) \<and> (r = Inl e \<longrightarrow> conn_inv ms (c'\<lparr>cn_ended := Some x\<rparr>) wr)"
  proof (cases "record_event m")
    case (Some ev)
    show ?thesis
    proof (cases "cn_reading c")
      case True
      then have "push_event ev c = (r, c')" using assms(1) Some by (simp add: receive_message_def)
      then show ?thesis using push_event_keeps [OF _ assms(2,3) event_cost_bound [OF assms(4) Some]] by blast
    next
      case False
      then show ?thesis using assms(1,2) Some conn_inv_ended by (auto simp: receive_message_def)
    qed
  next
    case None
    have snds: "snd (receive_message m c) = c'" using assms(1) by simp
    show ?thesis
    proof (cases m)
      case (InputAck a b)
      then have "receive_ack a b c = (r, c')" using assms(1) by (simp add: receive_message_def)
      then show ?thesis using receive_ack_keeps [OF _ assms(2,3)] by blast
    next
      case (InfoReply i)
      then have "conn_inv ms c' wr" using receive_info_keeps [OF assms(2), of i] snds by (simp add: receive_message_def)
      then show ?thesis using conn_inv_ended by blast
    next
      case (SnapshotAccepted p)
      then have "conn_inv ms c' wr"
        using receive_snapshot_keeps [OF assms(2)] snds by (auto simp: receive_message_def)
      then show ?thesis using conn_inv_ended by blast
    next
      case (SnapshotRejected p y)
      then have "conn_inv ms c' wr"
        using receive_snapshot_keeps [OF assms(2)] snds by (auto simp: receive_message_def)
      then show ?thesis using conn_inv_ended by blast
    next
      case Goodbye
      then have "conn_inv ms c' wr"
        using assms(1,2) by (auto simp: receive_message_def conn_inv_defs split: if_splits)
      then show ?thesis using conn_inv_ended by blast
    qed (use None assms(1,2) conn_inv_ended in \<open>auto simp: receive_message_def\<close>)
  qed
  then show "r = Inr () \<Longrightarrow> conn_inv ms c' wr" "r = Inl e \<Longrightarrow> conn_inv ms (c'\<lparr>cn_ended := Some x\<rparr>) wr"
    by blast+
qed

lemma conn_inv_wrote:
  "conn_inv ms c wr \<Longrightarrow> conn_inv ms (c\<lparr>cn_outbound := drop n (cn_outbound c)\<rparr>) (wr @ take n (cn_outbound c))"
  by (auto simp: conn_inv_defs)

interpretation conn: drive_invariant "conn_inv ms" for ms
proof
  fix c wr b t e n m c'
  show "conn_inv ms c wr \<Longrightarrow> conn_inv ms (c\<lparr>cn_inbound := b\<rparr>) wr" by (auto simp: conn_inv_defs)
  show "conn_inv ms c wr \<Longrightarrow> conn_inv ms (c\<lparr>cn_write_deadline := t\<rparr>) wr" by (auto simp: conn_inv_defs)
  show "conn_inv ms c wr \<Longrightarrow> conn_inv ms (c\<lparr>cn_ended := Some e\<rparr>) wr" by (rule conn_inv_ended)
  show "conn_inv ms c wr \<Longrightarrow> conn_inv ms (c\<lparr>cn_outbound := drop n (cn_outbound c)\<rparr>) (wr @ take n (cn_outbound c))"
    by (rule conn_inv_wrote)
  show "conn_inv ms c wr \<Longrightarrow> cn_ended c = None \<Longrightarrow> host_ok m \<Longrightarrow> receive_message m c = (Inr (), c')
      \<Longrightarrow> conn_inv ms c' wr"
    by (rule receive_message_keeps(1)) auto
  show "conn_inv ms c wr \<Longrightarrow> cn_ended c = None \<Longrightarrow> host_ok m \<Longrightarrow> receive_message m c = (Inl e, c')
      \<Longrightarrow> conn_inv ms (c'\<lparr>cn_ended := Some e\<rparr>) wr"
    by (rule receive_message_keeps(2)) auto
qed


text \<open>Once \<open>shutdown\<close> was called, the connection stays so.\<close>

lemma receive_message_shutting: "receive_message m c = (r, c') \<Longrightarrow> cn_shutting_down c' = cn_shutting_down c"
  by (cases m) (auto simp: receive_message_def push_event_def receive_info_def receive_snapshot_def
      receive_ack_def Let_def split: if_splits sum.splits prod.splits)

interpretation shut: drive_invariant "\<lambda>c wr. cn_shutting_down c"
  by unfold_locales (auto dest: receive_message_shutting)

text \<open>Driving the socket starts no stream.\<close>

lemma receive_message_reading: "receive_message m c = (r, c') \<Longrightarrow> cn_reading c' = cn_reading c"
  by (cases m) (auto simp: receive_message_def push_event_def receive_info_def receive_snapshot_def
      receive_ack_def Let_def split: if_splits sum.splits prod.splits)

interpretation kept: drive_invariant "\<lambda>c wr. cn_reading c = b" for b
  by unfold_locales (auto dest: receive_message_reading)

subsection \<open>Requests keep it\<close>

definition conn_ok :: "connection \<Rightarrow> socket \<Rightarrow> bool" where
  "conn_ok c w \<longleftrightarrow> (\<exists>ms. conn_inv ms c (sk_written w))"

lemma drive_ok:
  "drive f l c w = (r, c', w') \<Longrightarrow> conn_ok c w \<Longrightarrow> conn_ok c' w' \<and> (r = Some (Inr ()) \<longrightarrow> f c' \<and> cn_ended c' = None)"
  using conn.drive_keeps unfolding conn_ok_def by blast

text \<open>An awaited call, and what follows it where it returned.\<close>

lemma await_ok:
  assumes go: "await f g c w = (r, c', w')"
    and f: "\<And>q c1 w1. f c w = (q, c1, w1) \<Longrightarrow> conn_ok c1 w1"
    and g: "\<And>x c1 w1. f c w = (Some (Inr x), c1, w1) \<Longrightarrow> g x c1 w1 = (r, c', w') \<Longrightarrow> conn_ok c1 w1 \<Longrightarrow> conn_ok c' w'"
  shows "conn_ok c' w'"
proof -
  obtain q c1 w1 where q: "f c w = (q, c1, w1)" by (metis prod_cases3)
  show ?thesis
  proof (cases "\<exists>x. q = Some (Inr x)")
    case True
    then show ?thesis using go q f [OF q] g by (auto simp: await_def)
  next
    case False
    then have "c' = c1 \<and> w' = w1" using go q by (auto simp: await_def split: option.splits sum.splits)
    then show ?thesis using f [OF q] by simp
  qed
qed

lemma flush_ok:
  assumes go: "await flush g c w = (r, c', w')" and ok: "conn_ok c w"
    and g: "\<And>c1 w1. g () c1 w1 = (r, c', w') \<Longrightarrow> conn_ok c1 w1 \<Longrightarrow> cn_outbound c1 = [] \<Longrightarrow> cn_ended c1 = None \<Longrightarrow> conn_ok c' w'"
  shows "conn_ok c' w'"
proof (rule await_ok [OF go])
  show "conn_ok c1 w1" if "flush c w = (q, c1, w1)" for q c1 w1
    using drive_ok [OF that [unfolded flush_def] ok] by simp
  show "conn_ok c' w'" if "flush c w = (Some (Inr x), c1, w1)" "g x c1 w1 = (r, c', w')" "conn_ok c1 w1" for x c1 w1
    using g [of c1 w1] that drive_ok [OF that(1) [unfolded flush_def] ok] by simp
qed

lemma checked_ok:
  "checked f c w = (r, c', w') \<Longrightarrow> conn_ok c w \<Longrightarrow> (f c w = (r, c', w') \<Longrightarrow> conn_ok c' w') \<Longrightarrow> conn_ok c' w'"
  by (auto simp: checked_def check_ended_def split: option.splits sum.splits)

lemma sk_now_written: "sk_now w = (t, w') \<Longrightarrow> sk_written w' = sk_written w"
  using sk_now_sel(2) [of w] by simp

lemma client_frame_bytes: "clientc.sendable m \<Longrightarrow> client_frame m = clientc.bytes_of m"
  by (simp add: client_frame_def encode_client_bytes clientc.sendable_def)

lemma enqueue_keeps:
  assumes "enqueue m c w = (c1, w1)" "frames_inv ms c (sk_written w)" "cn_outbound c = []" "clientc.sendable m"
    and "window_inv (ms @ [m]) c" "stream_inv (ms @ [m]) c" "events_inv c"
  shows "conn_ok c1 w1"
proof -
  have "c1 = c\<lparr>cn_write_deadline := cn_write_deadline c1, cn_outbound := clientc.bytes_of m\<rparr>" "sk_written w1 = sk_written w"
    using assms(1,3) client_frame_bytes [OF assms(4)]
    by (auto simp: enqueue_def dest: sk_now_written split: prod.splits)
  moreover have "frames_inv (ms @ [m]) (c\<lparr>cn_write_deadline := t, cn_outbound := clientc.bytes_of m\<rparr>) (sk_written w)" for t
    using assms(2-4) by (auto simp: frames_inv_def)
  moreover have "window_inv (ms @ [m]) (c\<lparr>cn_write_deadline := t, cn_outbound := b\<rparr>)"
    "stream_inv (ms @ [m]) (c\<lparr>cn_write_deadline := t, cn_outbound := b\<rparr>)"
    "events_inv (c\<lparr>cn_write_deadline := t, cn_outbound := b\<rparr>)" for t b
  proof -
    show "window_inv (ms @ [m]) (c\<lparr>cn_write_deadline := t, cn_outbound := b\<rparr>)"
      by (rule window_inv_same [OF assms(5)]) simp_all
    show "stream_inv (ms @ [m]) (c\<lparr>cn_write_deadline := t, cn_outbound := b\<rparr>)"
      using assms(6) by (simp add: stream_inv_def)
    show "events_inv (c\<lparr>cn_write_deadline := t, cn_outbound := b\<rparr>)"
      by (rule events_inv_same [OF assms(7)]) simp_all
  qed
  ultimately show ?thesis unfolding conn_ok_def conn_inv_def by metis
qed

lemma reply_limit_written: "reply_limit c w = (l, w') \<Longrightarrow> sk_written w' = sk_written w"
  by (auto simp: reply_limit_def dest: sk_now_written split: prod.splits)

lemma conn_ok_written: "conn_ok c w \<Longrightarrow> sk_written w' = sk_written w \<Longrightarrow> conn_ok c w'"
  by (simp add: conn_ok_def)

text \<open>A request that waits for its reply and takes it.\<close>

lemma conn_inv_take:
  assumes "conn_inv ms c wr"
  shows "conn_inv ms (c\<lparr>cn_info := (cn_info c)\<lparr>rp_last := None\<rparr>\<rparr>) wr"
    "conn_inv ms (c\<lparr>cn_snapshots := (cn_snapshots c)\<lparr>rp_last := None\<rparr>\<rparr>) wr"
proof -
  note M = conn_invD [OF assms]
  show "conn_inv ms (c\<lparr>cn_info := (cn_info c)\<lparr>rp_last := None\<rparr>\<rparr>) wr"
    unfolding conn_inv_def
    using frames_inv_same [OF M(1)] window_inv_same [OF M(2)] events_inv_same [OF M(4)] M(3)
    by (simp add: stream_inv_def replies_inv_def)
  show "conn_inv ms (c\<lparr>cn_snapshots := (cn_snapshots c)\<lparr>rp_last := None\<rparr>\<rparr>) wr"
    unfolding conn_inv_def
    using frames_inv_same [OF M(1)] window_inv_same [OF M(2)] events_inv_same [OF M(4)] M(3)
    by (simp add: stream_inv_def replies_inv_def)
qed

lemma take_info_ok: "conn_ok c w \<Longrightarrow> replies_has n (cn_info c) \<Longrightarrow> take_info c = (i, c') \<Longrightarrow> conn_ok c' w"
proof -
  assume a: "conn_ok c w" "replies_has n (cn_info c)" "take_info c = (i, c')"
  then have "c' = c\<lparr>cn_info := (cn_info c)\<lparr>rp_last := None\<rparr>\<rparr>"
    by (auto simp: take_info_def replies_has_def split: option.splits)
  then show ?thesis using a(1) conn_inv_take(1) unfolding conn_ok_def by blast
qed

lemma take_reply_ok: "conn_ok c w \<Longrightarrow> replies_has n (cn_snapshots c) \<Longrightarrow> take_reply c = (s, c') \<Longrightarrow> conn_ok c' w"
proof -
  assume a: "conn_ok c w" "replies_has n (cn_snapshots c)" "take_reply c = (s, c')"
  then have "c' = c\<lparr>cn_snapshots := (cn_snapshots c)\<lparr>rp_last := None\<rparr>\<rparr>"
    by (auto simp: take_reply_def replies_has_def split: option.splits)
  then show ?thesis using a(1) conn_inv_take(2) unfolding conn_ok_def by blast
qed

lemma request_info_ok:
  assumes "request_info c w = (r, c', w')" "conn_ok c w"
  shows "conn_ok c' w'"
  using assms unfolding request_info_def
proof (elim checked_ok flush_ok)
  fix c :: connection and w :: socket
  let ?c = "c\<lparr>cn_info := snd (replies_next (cn_info c))\<rparr>" and ?n = "fst (replies_next (cn_info c))"
  assume go: "(let (request, replies) = replies_next (cn_info c); (c1, w1) = enqueue Info (c\<lparr>cn_info := replies\<rparr>) w;
        (limit, w2) = reply_limit c1 w1
      in await (drive (\<lambda>c. replies_has request (cn_info c)) (Some limit))
          (\<lambda>_ c w. let (i, c') = take_info c in (Some (Inr i), c', w)) c1 w2) = (r, c', w')"
    and ok: "conn_ok c w" "cn_outbound c = []" "cn_ended c = None"
  obtain c1 w1 where e: "enqueue Info ?c w = (c1, w1)" by fastforce
  obtain l w2 where l: "reply_limit c1 w1 = (l, w2)" by fastforce
  from ok(1) obtain ms where ms: "conn_inv ms c (sk_written w)" by (auto simp: conn_ok_def)
  have "conn_ok c1 w1"
  proof (rule enqueue_keeps [OF e, of ms])
    note M = conn_invD [OF ms]
    show "frames_inv ms ?c (sk_written w)" by (rule frames_inv_same [OF M(1)]) simp
    show "clientc.sendable Info" unfolding clientc.sendable_def by (simp add: MAX_FRAME_def)
    show "window_inv (ms @ [Info]) ?c" by (rule window_inv_other [OF M(2)]) simp_all
    show "stream_inv (ms @ [Info]) ?c"
      using M(3) by (auto simp: stream_inv_def replies_next_def replies_inv_def msg_is_read_def msg_is_snapshot_def)
    show "events_inv ?c" by (rule events_inv_same [OF M(4)]) simp_all
  qed (use ok in simp)
  then have ok2: "conn_ok c1 w2" using conn_ok_written reply_limit_written [OF l] by blast
  from go e l have "await (drive (\<lambda>c. replies_has ?n (cn_info c)) (Some l))
          (\<lambda>_ c w. let (i, c') = take_info c in (Some (Inr i), c', w)) c1 w2 = (r, c', w')"
    by (auto split: prod.splits)
  then show "conn_ok c' w'"
  proof (rule await_ok)
    fix x c3 w3
    assume d: "drive (\<lambda>c. replies_has ?n (cn_info c)) (Some l) c1 w2 = (Some (Inr x), c3, w3)"
      "(let (i, c') = take_info c3 in (Some (Inr i), c', w3)) = (r, c', w')" "conn_ok c3 w3"
    then show "conn_ok c' w'" using drive_ok [OF d(1) ok2] take_info_ok by (auto split: prod.splits)
  qed (use drive_ok ok2 in blast)
qed

end
