(* ===== verification/Connection_Reach.thy ===== *)
theory Connection_Reach
  imports Connection_Safe
begin

text \<open>
  The rest of the requests, and the states a connection reaches through any sequence of
  requests, each run to its end or dropped wherever it waits.
\<close>

subsection \<open>The other requests\<close>

lemma flush_alone_ok: "flush c w = (r, c', w') \<Longrightarrow> conn_ok c w \<Longrightarrow> conn_ok c' w'"
  unfolding flush_def using drive_ok by blast

lemma conn_ok_obtain:
  assumes "conn_ok c w"
  obtains ms where "frames_inv ms c (sk_written w)" "window_inv ms c" "stream_inv ms c" "events_inv c"
  using assms unfolding conn_ok_def conn_inv_def by blast

lemma start_read_ok:
  assumes "start_read p c w = (r, c', w')" "conn_ok c w" "pos_ok p"
  shows "conn_ok c' w'"
proof -
  let ?go = "\<lambda>_ c w. let (c1, w1) = enqueue (Read p) (c\<lparr>cn_reading := True\<rparr>) w in flush c1 w1"
  have sendable: "clientc.sendable (Read p)"
    unfolding clientc.sendable_def using assms(3) by (simp add: MAX_FRAME_def)
  have reading: "cn_reading c1 = cn_reading c" if "flush c w = (Some (Inr u), c1, w1)" for c1 w1 u
    using kept.drive_keeps that unfolding flush_def by blast
  show ?thesis
  proof (cases "cn_reading c")
    case True
    then show ?thesis
      using assms(1,2) by (auto simp: start_read_def checked_def split: sum.splits)
  next
    case False
    then have go: "await flush ?go c w = (r, c', w') \<or> c' = c \<and> w' = w"
      using assms(1) by (auto simp: start_read_def checked_def split: sum.splits)
    have "conn_ok c' w'" if "await flush ?go c w = (r, c', w')"
    proof (rule await_ok [OF that])
      show "conn_ok c1 w1" if "flush c w = (q, c1, w1)" for q c1 w1
        by (rule flush_alone_ok [OF that assms(2)])
      fix x c1 w1
      assume f: "flush c w = (Some (Inr x), c1, w1)" and g: "?go x c1 w1 = (r, c', w')" and ok: "conn_ok c1 w1"
      have out: "cn_outbound c1 = []" using drive_ok [OF f [unfolded flush_def] assms(2)] by simp
      obtain c2 w2 where e: "enqueue (Read p) (c1\<lparr>cn_reading := True\<rparr>) w1 = (c2, w2)" by fastforce
      from ok obtain ms where M: "frames_inv ms c1 (sk_written w1)" "window_inv ms c1" "stream_inv ms c1" "events_inv c1"
        by (rule conn_ok_obtain)
      have "conn_ok c2 w2"
      proof (rule enqueue_keeps [OF e, of ms])
        show "frames_inv ms (c1\<lparr>cn_reading := True\<rparr>) (sk_written w1)" by (rule frames_inv_same [OF M(1)]) simp
        show "window_inv (ms @ [Read p]) (c1\<lparr>cn_reading := True\<rparr>)" by (rule window_inv_other [OF M(2)]) simp_all
        show "stream_inv (ms @ [Read p]) (c1\<lparr>cn_reading := True\<rparr>)"
          using M(3) reading [OF f] False by (simp add: stream_inv_def msg_is_read_def msg_is_snapshot_def)
        show "events_inv (c1\<lparr>cn_reading := True\<rparr>)" by (rule events_inv_same [OF M(4)]) simp_all
      qed (use out sendable in simp_all)
      then show "conn_ok c' w'" using g e flush_alone_ok by simp
    qed
    then show ?thesis using go assms(2) by auto
  qed
qed

lemma resize_ok:
  assumes "resize s c w = (r, c', w')" "conn_ok c w"
  shows "conn_ok c' w'"
  using assms unfolding resize_def
proof (elim checked_ok)
  assume go: "(if \<not> size_valid s
      then (Some (Inl (ErrInvalidRequest ''a size must be 1 to MAX_DIMENSION each way'')), c, w)
      else await flush (\<lambda>_ c w. let (c1, w1) = enqueue (Resize s) c w in flush c1 w1) c w) = (r, c', w')"
  show ?thesis
  proof (cases "size_valid s")
    case False
    then show ?thesis using go assms(2) by simp
  next
    case True
    have sendable: "clientc.sendable (Resize s)" unfolding clientc.sendable_def using True by (simp add: MAX_FRAME_def)
    have "await flush (\<lambda>_ c w. let (c1, w1) = enqueue (Resize s) c w in flush c1 w1) c w = (r, c', w')"
      using go True by simp
    then show ?thesis
    proof (rule flush_ok [OF _ assms(2)])
      fix c1 w1
      assume g: "(let (c1, w1) = enqueue (Resize s) c1 w1 in flush c1 w1) = (r, c', w')"
        and ok: "conn_ok c1 w1" and out: "cn_outbound c1 = []"
      obtain c2 w2 where e: "enqueue (Resize s) c1 w1 = (c2, w2)" by fastforce
      from ok obtain ms where M: "frames_inv ms c1 (sk_written w1)" "window_inv ms c1" "stream_inv ms c1" "events_inv c1"
        by (rule conn_ok_obtain)
      have "conn_ok c2 w2"
        by (rule enqueue_keeps [OF e M(1) out sendable window_inv_other [OF M(2)] _ M(4)])
          (use M(3) in \<open>auto simp: stream_inv_def msg_is_read_def msg_is_snapshot_def\<close>)
      then show "conn_ok c' w'" using g e flush_alone_ok by simp
    qed
  qed
qed

text \<open>An input that fits is queued as it is counted.\<close>

lemma admit_window:
  assumes "admit len iw = (q, iw')" "window_inv ms c" "cn_input c = iw" "cn_ended c = None" "0 < len"
  shows "q = Inl e \<Longrightarrow> iw' = iw"
    and "q = Inr t \<Longrightarrow> len = length d \<Longrightarrow> window_inv (ms @ [Input d]) (c\<lparr>cn_input := iw'\<rparr>)"
proof -
  from assms(2-4) obtain k where k: "window_at (input_lens ms) k iw" by (auto simp: window_inv_def)
  note A = admit_at [OF k assms(5)]
  let ?full = "INPUT_WINDOW < in_flight (drop k (input_lens ms)) + len + INPUT_COST"
  have full: "iw' = iw \<and> (\<exists>e. q = Inl e)" if ?full
    using A(1) [unfolded if_P [OF that]] assms(1) by simp
  have fits: "\<exists>t. q = Inr t" if "\<not> ?full"
    using arg_cong [OF A(1) [unfolded if_not_P [OF that]], of fst] assms(1) by simp
  show "q = Inl e \<Longrightarrow> iw' = iw" using full fits by blast
  assume q: "q = Inr t" "len = length d"
  have "\<not> ?full" using full q(1) by auto
  then have at: "window_at (input_lens ms @ [len]) k iw'" using A(2) assms(1) by simp
  then have "window_at (input_lens (ms @ [Input d])) k iw'" using q by simp
  moreover have "ic_written (iw_counts iw') + ic_discarded (iw_counts iw') \<le> ic_sent (iw_counts iw')"
    using at by (metis window_at_def append_take_drop_id le_add1 sum_list.append)
  moreover have "ic_sent (iw_counts iw') = sum_list (input_lens (ms @ [Input d]))"
    using calculation(1) by (simp only: window_at_def)
  ultimately show "window_inv (ms @ [Input d]) (c\<lparr>cn_input := iw'\<rparr>)" unfolding window_inv_def by auto
qed

lemma send_input_ok:
  assumes "send_input d c w = (r, c', w')" "conn_ok c w"
  shows "conn_ok c' w'"
  using assms unfolding send_input_def
proof (elim checked_ok)
  let ?go = "\<lambda>_ c w. case admit (length d) (cn_input c) of
         (Inl e, iw) \<Rightarrow> (Some (Inl e), c\<lparr>cn_input := iw\<rparr>, w)
       | (Inr ticket, iw) \<Rightarrow>
           (let (c1, w1) = enqueue (Input d) (c\<lparr>cn_input := iw\<rparr>) w
            in await flush (\<lambda>_ c w. (Some (Inr ticket), c, w)) c1 w1)"
  assume go: "(if d = [] \<or> MAX_INPUT < length d
     then (Some (Inl (ErrInvalidRequest ''an input must be 1 to MAX_INPUT bytes'')), c, w)
     else await flush ?go c w) = (r, c', w')"
  show ?thesis
  proof (cases "d = [] \<or> MAX_INPUT < length d")
    case True
    then show ?thesis using go assms(2) by auto
  next
    case False
    have sendable: "clientc.sendable (Input d)"
      unfolding clientc.sendable_def using False by (auto simp: MAX_FRAME_def MAX_INPUT_def)
    have "await flush ?go c w = (r, c', w')" using go False by simp
    then show ?thesis
    proof (rule flush_ok [OF _ assms(2)])
      fix c1 w1
      assume g: "?go () c1 w1 = (r, c', w')" and ok: "conn_ok c1 w1"
        and out: "cn_outbound c1 = []" and e0: "cn_ended c1 = None"
      from ok obtain ms where M: "frames_inv ms c1 (sk_written w1)" "window_inv ms c1" "stream_inv ms c1" "events_inv c1"
        by (rule conn_ok_obtain)
      obtain q iw where a: "admit (length d) (cn_input c1) = (q, iw)" by fastforce
      have "0 < length d" using False by simp
      note A = admit_window [OF a M(2) refl e0 this]
      show "conn_ok c' w'"
      proof (cases q)
        case (Inl e)
        then have "c1\<lparr>cn_input := iw\<rparr> = c1" using A(1) by (cases c1) simp
        then show ?thesis using g a Inl ok by simp
      next
        case (Inr t)
        obtain c2 w2 where e: "enqueue (Input d) (c1\<lparr>cn_input := iw\<rparr>) w1 = (c2, w2)" by fastforce
        have ok2: "conn_ok c2 w2"
        proof (rule enqueue_keeps [OF e, of ms])
          show "frames_inv ms (c1\<lparr>cn_input := iw\<rparr>) (sk_written w1)" by (rule frames_inv_same [OF M(1)]) simp
          show "window_inv (ms @ [Input d]) (c1\<lparr>cn_input := iw\<rparr>)" by (rule A(2) [OF Inr refl])
          show "stream_inv (ms @ [Input d]) (c1\<lparr>cn_input := iw\<rparr>)"
            using M(3) by (simp add: stream_inv_def msg_is_read_def msg_is_snapshot_def)
          show "events_inv (c1\<lparr>cn_input := iw\<rparr>)" by (rule events_inv_same [OF M(4)]) simp_all
        qed (use out sendable in simp_all)
        have "await flush (\<lambda>_ c w. (Some (Inr t), c, w)) c2 w2 = (r, c', w')" using g a Inr e by simp
        then show ?thesis by (rule flush_ok [OF _ ok2]) auto
      qed
    qed
  qed
qed


lemma request_snapshot_ok:
  assumes "request_snapshot p blob c w = (r, c', w')" "conn_ok c w" "pos_ok p"
  shows "conn_ok c' w'"
  using assms(1,2) unfolding request_snapshot_def
proof (elim checked_ok)
  let ?go = "\<lambda>_ c w.
       let (request, replies) = replies_next (cn_snapshots c);
           (c1, w1) = enqueue (Snapshot p blob) (c\<lparr>cn_snapshots := replies\<rparr>) w;
           (limit, w2) = reply_limit c1 w1
       in await (drive (\<lambda>c. replies_has request (cn_snapshots c)) (Some limit))
            (\<lambda>_ c w. let (s, c') = take_reply c in (Some (Inr s), c', w)) c1 w2"
  assume go: "(if MAX_FRAME - 1 - 16 - 4 < length blob
     then (Some (Inl (ErrInvalidRequest ''a snapshot blob larger than a frame'')), c, w)
     else await flush ?go c w) = (r, c', w')"
  show ?thesis
  proof (cases "MAX_FRAME - 1 - 16 - 4 < length blob")
    case True
    then show ?thesis using go assms(2) by simp
  next
    case False
    have sendable: "clientc.sendable (Snapshot p blob)"
      unfolding clientc.sendable_def using False assms(3) by (simp add: MAX_FRAME_def)
    have "await flush ?go c w = (r, c', w')" using go False by simp
    then show ?thesis
    proof (rule flush_ok [OF _ assms(2)])
      fix c :: connection and w :: socket
      let ?c = "c\<lparr>cn_snapshots := snd (replies_next (cn_snapshots c))\<rparr>" and ?n = "fst (replies_next (cn_snapshots c))"
      assume g: "?go () c w = (r, c', w')" and ok: "conn_ok c w" "cn_outbound c = []" "cn_ended c = None"
      obtain c1 w1 where e: "enqueue (Snapshot p blob) ?c w = (c1, w1)" by fastforce
      obtain l w2 where l: "reply_limit c1 w1 = (l, w2)" by fastforce
      from ok(1) obtain ms where M: "frames_inv ms c (sk_written w)" "window_inv ms c" "stream_inv ms c" "events_inv c"
        by (rule conn_ok_obtain)
      have "conn_ok c1 w1"
      proof (rule enqueue_keeps [OF e, of ms])
        show "frames_inv ms ?c (sk_written w)" by (rule frames_inv_same [OF M(1)]) simp
        show "window_inv (ms @ [Snapshot p blob]) ?c" by (rule window_inv_other [OF M(2)]) simp_all
        show "stream_inv (ms @ [Snapshot p blob]) ?c"
          using M(3) by (auto simp: stream_inv_def replies_next_def replies_inv_def msg_is_read_def msg_is_snapshot_def)
        show "events_inv ?c" by (rule events_inv_same [OF M(4)]) simp_all
      qed (use ok sendable in simp_all)
      then have ok2: "conn_ok c1 w2" using conn_ok_written reply_limit_written [OF l] by blast
      from g e l have "await (drive (\<lambda>c. replies_has ?n (cn_snapshots c)) (Some l))
          (\<lambda>_ c w. let (s, c') = take_reply c in (Some (Inr s), c', w)) c1 w2 = (r, c', w')"
        by (auto split: prod.splits)
      then show "conn_ok c' w'"
      proof (rule await_ok)
        fix x c3 w3
        assume d: "drive (\<lambda>c. replies_has ?n (cn_snapshots c)) (Some l) c1 w2 = (Some (Inr x), c3, w3)"
          "(let (s, c') = take_reply c3 in (Some (Inr s), c', w3)) = (r, c', w')" "conn_ok c3 w3"
        then show "conn_ok c' w'" using drive_ok [OF d(1) ok2] take_reply_ok by (auto split: prod.splits)
      qed (use drive_ok ok2 in blast)
    qed
  qed
qed

lemma take_event_ok:
  assumes "take_event c = (ev, c')" "conn_ok c w"
  shows "conn_ok c' w"
proof (cases "cn_events c")
  case Nil
  then show ?thesis using assms by (simp add: take_event_def)
next
  case (Cons e es)
  have c': "c' = c\<lparr>cn_events := es, cn_queued := cn_queued c - event_cost e\<rparr>"
    using assms(1) Cons by (simp add: take_event_def)
  from assms(2) obtain ms where M: "frames_inv ms c (sk_written w)" "window_inv ms c" "stream_inv ms c" "events_inv c"
    by (rule conn_ok_obtain)
  have "events_inv c'" using M(4) Cons by (auto simp: events_inv_def c')
  then have "conn_inv ms c' (sk_written w)"
    using M(3) frames_inv_same [OF M(1)] window_inv_same [OF M(2)] by (simp add: conn_inv_def c' stream_inv_def)
  then show ?thesis unfolding conn_ok_def by blast
qed

lemma next_event_ok:
  assumes "next_event c w = (r, c', w')" "conn_ok c w"
  shows "conn_ok c' w'"
proof -
  obtain ev c0 where t: "take_event c = (ev, c0)" by fastforce
  obtain q c1 w1 where d: "drive (\<lambda>c. cn_events c \<noteq> []) None c0 w = (q, c1, w1)" by (metis prod_cases3)
  obtain ev2 c2 where t2: "take_event c1 = (ev2, c2)" by fastforce
  have o0: "conn_ok c0 w" by (rule take_event_ok [OF t assms(2)])
  have o1: "conn_ok c1 w1" using drive_ok [OF d o0] by simp
  have o2: "conn_ok c2 w1" by (rule take_event_ok [OF t2 o1])
  have none: "cn_events c1 \<noteq> []" if "q = Some (Inr u)" for u using drive_ok [OF d o0] that by simp
  show ?thesis
  proof (cases ev)
    case (Some e)
    then show ?thesis using assms(1) t o0 by (simp add: next_event_def)
  next
    case None
    then show ?thesis
      using assms(1) t d t2 o1 o2 none
      by (auto simp: next_event_def take_event_def split: option.splits sum.splits list.splits)
  qed
qed

lemma shutdown_start_ok:
  assumes "conn_ok c w"
  shows "conn_ok (c\<lparr>cn_shutting_down := True, cn_events := [], cn_queued := 0\<rparr>) w"
proof -
  let ?c = "c\<lparr>cn_shutting_down := True, cn_events := [], cn_queued := 0\<rparr>"
  from assms obtain ms where M: "frames_inv ms c (sk_written w)" "window_inv ms c" "stream_inv ms c" "events_inv c"
    by (rule conn_ok_obtain)
  have "conn_inv ms ?c (sk_written w)"
    unfolding conn_inv_def
    using M(3) frames_inv_same [OF M(1), of ?c] window_inv_same [OF M(2), of ?c]
    by (simp add: stream_inv_def events_inv_def)
  then show ?thesis unfolding conn_ok_def by blast
qed

lemma request_shutdown_ok:
  assumes "request_shutdown c w = (r, c', w')" "conn_ok c w"
  shows "conn_ok c' w'"
  using assms unfolding request_shutdown_def
proof (elim checked_ok)
  let ?c = "c\<lparr>cn_shutting_down := True, cn_events := [], cn_queued := 0\<rparr>"
  obtain now w1 where n: "sk_now w = (now, w1)" by fastforce
  let ?l = "Some (now + to_nanos (dl_shutdown (cn_deadlines c)))"
  let ?go = "\<lambda>_ c w. let (c2, w2) = enqueue Shutdown c w in
       (case drive cn_goodbye ?l c2 w2 of
          (None, c3, w3) \<Rightarrow> (None, c3, w3)
        | (Some (Inr u), c3, w3) \<Rightarrow> (Some (Inr (outcome_of True c3)), c3, w3)
        | (Some (Inl e), c3, w3) \<Rightarrow>
            if e = ErrClosed \<and> cn_outbound c3 = [] then (Some (Inr (outcome_of False c3)), c3, w3)
            else (Some (Inl e), c3, w3))"
  assume "(let (now, w1) = sk_now w; deadline = now + to_nanos (dl_shutdown (cn_deadlines c));
         c1 = c\<lparr>cn_shutting_down := True, cn_events := [], cn_queued := 0\<rparr>
     in await (drive (\<lambda>c. cn_outbound c = []) (Some deadline)) (\<lambda>_ c w.
       let (c2, w2) = enqueue Shutdown c w in
       (case drive cn_goodbye (Some deadline) c2 w2 of
          (None, c3, w3) \<Rightarrow> (None, c3, w3)
        | (Some (Inr u), c3, w3) \<Rightarrow> (Some (Inr (outcome_of True c3)), c3, w3)
        | (Some (Inl e), c3, w3) \<Rightarrow>
            if e = ErrClosed \<and> cn_outbound c3 = [] then (Some (Inr (outcome_of False c3)), c3, w3)
            else (Some (Inl e), c3, w3))) c1 w1) = (r, c', w')"
  then have go: "await (drive (\<lambda>c. cn_outbound c = []) ?l) ?go ?c w1 = (r, c', w')"
    unfolding Let_def n prod.case .
  have ok: "conn_ok ?c w1"
    by (rule conn_ok_written [OF shutdown_start_ok [OF assms(2)] sk_now_written [OF n]])
  show ?thesis
  proof (rule await_ok [OF go])
    show "conn_ok c1 w1'" if "drive (\<lambda>c. cn_outbound c = []) ?l ?c w1 = (q, c1, w1')" for q c1 w1'
      using drive_ok [OF that ok] by simp
    fix x c1 w2
    assume d: "drive (\<lambda>c. cn_outbound c = []) ?l ?c w1 = (Some (Inr x), c1, w2)"
      and g: "?go x c1 w2 = (r, c', w')" and ok1: "conn_ok c1 w2"
    have out: "cn_outbound c1 = []" using drive_ok [OF d ok] by simp
    have sd: "cn_shutting_down c1" using shut.drive_keeps [OF d] by simp
    from ok1 obtain ms where M: "frames_inv ms c1 (sk_written w2)" "window_inv ms c1" "stream_inv ms c1" "events_inv c1"
      by (rule conn_ok_obtain)
    obtain c2 w3 where e: "enqueue Shutdown c1 w2 = (c2, w3)" by fastforce
    have "clientc.sendable Shutdown" unfolding clientc.sendable_def by (simp add: MAX_FRAME_def)
    then have ok2: "conn_ok c2 w3"
      by (rule enqueue_keeps [OF e M(1) out _ window_inv_other [OF M(2)] _ M(4)])
        (use M(3) sd in \<open>auto simp: stream_inv_def msg_is_read_def msg_is_snapshot_def\<close>)
    obtain q c3 w4 where d2: "drive cn_goodbye ?l c2 w3 = (q, c3, w4)" by (metis prod_cases3)
    have "c' = c3 \<and> w' = w4"
      using g [unfolded e Let_def prod.case d2] by (auto split: option.splits sum.splits if_splits)
    then show "conn_ok c' w'" using drive_ok [OF d2 ok2] by simp
  qed
qed

subsection \<open>Reachable connections\<close>

definition request_ok :: "request \<Rightarrow> bool" where
  "request_ok q \<longleftrightarrow> (case q of StartRead p \<Rightarrow> pos_ok p | SendSnapshot p b \<Rightarrow> pos_ok p | _ \<Rightarrow> True)"

theorem perform_ok:
  assumes "perform q c w = (c', w')" "conn_ok c w" "request_ok q"
  shows "conn_ok c' w'"
proof -
  have after: "\<exists>r. f c w = (r, c', w')" if "after_call f c w = (c', w')" for f :: "'a call"
    using that by (cases "f c w") (simp add: after_call_def)
  show ?thesis
  proof (cases q)
    case AskInfo
    then show ?thesis using assms(1,2) after [of request_info] request_info_ok by auto
  next
    case (StartRead p)
    then show ?thesis using assms after [of "start_read p"] start_read_ok by (auto simp: request_ok_def)
  next
    case NextEvent
    then show ?thesis using assms(1,2) after [of next_event] next_event_ok by auto
  next
    case (SendInput d)
    then show ?thesis using assms(1,2) after [of "send_input d"] send_input_ok by auto
  next
    case (SendResize s)
    then show ?thesis using assms(1,2) after [of "resize s"] resize_ok by auto
  next
    case (SendSnapshot p b)
    then show ?thesis
      using assms after [of "request_snapshot p b"] request_snapshot_ok by (auto simp: request_ok_def)
  next
    case AskShutdown
    then show ?thesis using assms(1,2) after [of request_shutdown] request_shutdown_ok by auto
  qed
qed

text \<open>
  Between two requests the socket and the clock have anything to say; what was written stays. No
  request follows a \<open>shutdown\<close>, which consumes the connection.
\<close>

inductive conn_reach :: "connection \<Rightarrow> socket \<Rightarrow> bool" where
  connected: "sk_written w = [] \<Longrightarrow> conn_reach (connection_new deadlines rest) w"
| request: "conn_reach c w \<Longrightarrow> \<not> cn_shutting_down c \<Longrightarrow> sk_written v = sk_written w \<Longrightarrow> request_ok q
    \<Longrightarrow> perform q c v = (c', w') \<Longrightarrow> conn_reach c' w'"

lemma connection_new_ok: "sk_written w = [] \<Longrightarrow> conn_ok (connection_new deadlines rest) w"
  unfolding conn_ok_def
  by (intro exI [of _ "[]"])
    (auto simp: conn_inv_defs connection_new_def replies_inv_def replies_default_def
      intro!: exI [of _ 0] window_default_at, simp_all add: window_default_def counts_zero_def)

theorem conn_reach_ok: "conn_reach c w \<Longrightarrow> conn_ok c w"
proof (induction rule: conn_reach.induct)
  case (connected w deadlines rest)
  then show ?case by (rule connection_new_ok)
next
  case (request c w v q c' w')
  from conn_ok_written [OF request.IH request.hyps(3)] show ?case
    by (rule perform_ok [OF request.hyps(5) _ request.hyps(4)])
qed

end
