(* ===== verification/Connecting.thy ===== *)
theory Connecting
  imports Connection_Run
begin

text \<open>
  Connecting to a terminal host (\<^verbatim>\<open>crates/farhelm-supervisor/src/hosts/client.rs\<close>): what one
  attempt finds, how attempts are retried until the socket is judged, and how the outcome is
  checked against the process table. The peer process, the search of the process table and the
  socket are outside; what they answer is an argument.
\<close>

subsection \<open>Outcomes\<close>

datatype gone = NoSocket | GoneRefused

datatype unavailable =
    UnsupportedVersion u32
  | UnRefused error_code "byte list"
  | UnMalformed string
  | UnTimeout
  | UnClosed
  | NotAccepting
  | UnIo string

datatype 'p connect_error =
    ConnectGone gone
  | ConnectBusy "'p option"
  | ConnectUnavailable unavailable "'p option"

datatype 'p attempt =
    Welcomed "'p option" "byte list"
  | AttemptRefused
  | Retry "'p connect_error"
  | Final "'p connect_error"

subsection \<open>One attempt\<close>

text \<open>What dialing the socket, writing \<open>Hello\<close> and each read of the answer gave.\<close>

datatype dial = DialTimeout | Dialed | DialNotFound | DialRefused | DialWouldBlock | DialFailed string

datatype hello = HelloSent | HelloFailed io_error | HelloTimeout

datatype greeting = GreetBytes "byte list" | GreetFailed io_error | GreetElapsed

datatype answer =
    Answered "malformed + host_message" "byte list"
  | AnswerEnded
  | AnswerFailed io_error
  | AnswerTimeout

text \<open>The loop that reads the first frame; the deadline comes where the reads are used up.\<close>

fun first_answer :: "byte list \<Rightarrow> greeting list \<Rightarrow> answer" where
  "first_answer buf rs = (case split_frame buf MAX_BEFORE_WELCOME of
     Inr (Some f) \<Rightarrow> Answered (decode_host f PROTOCOL_VERSION) (drop (f_consumed f) buf)
   | Inl e \<Rightarrow> Answered (Inl e) buf
   | Inr None \<Rightarrow> (case rs of
       [] \<Rightarrow> AnswerTimeout
     | GreetBytes bs # rs \<Rightarrow> if bs = [] then AnswerEnded else first_answer (buf @ bs) rs
     | GreetFailed e # rs \<Rightarrow> AnswerFailed e
     | GreetElapsed # rs \<Rightarrow> AnswerTimeout))"

declare first_answer.simps [simp del]

definition greet :: "hello \<Rightarrow> greeting list \<Rightarrow> answer" where
  "greet h rs = (case h of HelloSent \<Rightarrow> first_answer [] rs | HelloFailed e \<Rightarrow> AnswerFailed e
     | HelloTimeout \<Rightarrow> AnswerTimeout)"

definition judge_answer :: "'p option \<Rightarrow> answer \<Rightarrow> 'p attempt" where
  "judge_answer peer a = (case a of
     AnswerTimeout \<Rightarrow> Final (ConnectUnavailable UnTimeout peer)
   | AnswerFailed e \<Rightarrow> (case io_failure e of
       ErrClosed \<Rightarrow> Retry (ConnectUnavailable UnClosed peer)
     | ErrIo what \<Rightarrow> Final (ConnectUnavailable (UnIo what) peer)
     | _ \<Rightarrow> undefined)
   | AnswerEnded \<Rightarrow> Retry (ConnectUnavailable UnClosed peer)
   | Answered r rest \<Rightarrow> (case r of
       Inl e \<Rightarrow> Final (ConnectUnavailable (UnMalformed (malformed_what e)) peer)
     | Inr m \<Rightarrow> (case m of
         Welcome version \<Rightarrow> if version = PROTOCOL_VERSION then Welcomed peer rest
           else Final (ConnectUnavailable (UnsupportedVersion version) peer)
       | Busy \<Rightarrow> Retry (ConnectBusy peer)
       | Error code text \<Rightarrow> Final (ConnectUnavailable (UnRefused code text) peer)
       | _ \<Rightarrow> Final (ConnectUnavailable (UnMalformed ''a message other than Welcome first'') peer))))"

definition attempt_once :: "dial \<Rightarrow> 'p option \<Rightarrow> hello \<Rightarrow> greeting list \<Rightarrow> 'p attempt" where
  "attempt_once d peer h rs = (case d of
     DialTimeout \<Rightarrow> Retry (ConnectUnavailable UnTimeout None)
   | DialNotFound \<Rightarrow> Final (ConnectGone NoSocket)
   | DialRefused \<Rightarrow> AttemptRefused
   | DialWouldBlock \<Rightarrow> Retry (ConnectUnavailable UnTimeout None)
   | DialFailed what \<Rightarrow> Final (ConnectUnavailable (UnIo what) None)
   | Dialed \<Rightarrow> judge_answer peer (greet h rs))"

subsection \<open>Retrying\<close>

definition peer_of :: "'p connect_error \<Rightarrow> 'p option" where
  "peer_of e = (case e of ConnectGone g \<Rightarrow> None | ConnectBusy p \<Rightarrow> p | ConnectUnavailable r p \<Rightarrow> p)"

fun with_peer :: "'p connect_error \<Rightarrow> 'p option \<Rightarrow> 'p connect_error" where
  "with_peer (ConnectBusy None) found = ConnectBusy found"
| "with_peer (ConnectUnavailable reason None) found = ConnectUnavailable reason found"
| "with_peer other found = other"

fun tick :: "nat list \<Rightarrow> nat \<times> nat list" where
  "tick [] = (0, [])"
| "tick (t # ts) = (t, ts)"

text \<open>An attempt that timed out at the deadline, after an earlier one that said something.\<close>

definition timed_out :: "'p attempt \<Rightarrow> 'p connect_error option" where
  "timed_out found = (case found of
     Retry (ConnectUnavailable UnTimeout p) \<Rightarrow> Some (ConnectUnavailable UnTimeout p)
   | Final (ConnectUnavailable UnTimeout p) \<Rightarrow> Some (ConnectUnavailable UnTimeout p)
   | _ \<Rightarrow> None)"

definition cut_short :: "nat \<Rightarrow> 'p connect_error option \<Rightarrow> 'p attempt \<Rightarrow> nat list
    \<Rightarrow> 'p connect_error option \<times> nat list" where
  "cut_short deadline last' found ts = (case timed_out found of
     None \<Rightarrow> (None, ts)
   | Some e \<Rightarrow>
       (let (now, ts') = tick ts in
        (if deadline \<le> now then map_option (\<lambda>earlier. with_peer earlier (peer_of e)) last' else None, ts')))"

text \<open>What follows an attempt worth retrying: go on, or give up with it at the deadline.\<close>

definition give_up :: "client_deadlines \<Rightarrow> nat \<Rightarrow> 'p connect_error \<Rightarrow> nat list
    \<Rightarrow> 'p connect_error option \<times> nat list" where
  "give_up dl deadline e ts =
     (let (now, ts') = tick ts in
      (if deadline < now + to_nanos (dl_retry_interval dl) then Some e else None, ts'))"

text \<open>
  The retry loop over what each attempt found and the readings of the clock; \<open>None\<close> while it
  has not settled.
\<close>

fun connect_attempts :: "client_deadlines \<Rightarrow> nat \<Rightarrow> nat option \<Rightarrow> 'p connect_error option
    \<Rightarrow> 'p attempt list \<Rightarrow> nat list \<Rightarrow> ('p connect_error + 'p option \<times> byte list) option" where
  "connect_attempts dl deadline refusing last' [] ts = None"
| "connect_attempts dl deadline refusing last' (found # rest) ts =
     (case cut_short deadline last' found ts of
        (Some e, ts1) \<Rightarrow> Some (Inl e)
      | (None, ts1) \<Rightarrow>
          (case found of
             Welcomed peer inbound \<Rightarrow> Some (Inr (peer, inbound))
           | Final e \<Rightarrow> Some (Inl e)
           | AttemptRefused \<Rightarrow>
               (let (since, ts2) = (case refusing of Some t \<Rightarrow> (t, ts1) | None \<Rightarrow> tick ts1);
                    (now, ts3) = tick ts2
                in if to_nanos (dl_refusal_window dl) \<le> now - since then Some (Inl (ConnectGone GoneRefused))
                   else connect_attempts dl deadline (Some since) last' rest ts3)
           | Retry e \<Rightarrow>
               (case give_up dl deadline e ts1 of
                  (Some x, ts2) \<Rightarrow> Some (Inl x)
                | (None, ts2) \<Rightarrow> connect_attempts dl deadline None (Some e) rest ts2)))"

text \<open>The check against the process table, with what the search found.\<close>

definition confirm_with_process :: "(string + 'p option) \<Rightarrow> 'p connect_error \<Rightarrow> 'p connect_error" where
  "confirm_with_process found e =
     (if peer_of e \<noteq> None then e
      else case (e, found) of
        (ConnectGone g, Inr (Some host)) \<Rightarrow> ConnectUnavailable NotAccepting (Some host)
      | (ConnectGone g, Inl why) \<Rightarrow>
          ConnectUnavailable (UnIo (''the socket looks gone, but '' @ why)) None
      | (e, Inr (Some host)) \<Rightarrow> with_peer e (Some host)
      | (e, _) \<Rightarrow> e)"

definition connect_with :: "client_deadlines \<Rightarrow> nat \<Rightarrow> (string + 'p option) \<Rightarrow> 'p attempt list \<Rightarrow> nat list
    \<Rightarrow> ('p connect_error + 'p option \<times> connection) option" where
  "connect_with dl start found attempts ts =
     (case connect_attempts dl (start + to_nanos (dl_connect dl)) None None attempts ts of
        None \<Rightarrow> None
      | Some (Inr (peer, inbound)) \<Rightarrow> Some (Inr (peer, connection_new dl inbound))
      | Some (Inl e) \<Rightarrow> Some (Inl (confirm_with_process found e)))"

end
