(* ===== verification/Connection_Facts.thy ===== *)
theory Connection_Facts
  imports Connection_Reach Connecting
begin

text \<open>
  Facts the properties of host connections share: what driving the socket leaves alone, which
  errors end a connection, decoding as a fold over the frames parsed, and the bytes of the
  handshake.
\<close>

subsection \<open>What was sent stays\<close>

lemma window_acknowledge_sent:
  "window_acknowledge written discarded iw = (r, iw') \<Longrightarrow> ic_sent (iw_counts iw') = ic_sent (iw_counts iw)"
  by (auto simp: window_acknowledge_def Let_def split: if_splits prod.splits)

lemma receive_message_sent:
  "receive_message m c = (r, c') \<Longrightarrow> cn_outbound c' = cn_outbound c
    \<and> ic_sent (iw_counts (cn_input c')) = ic_sent (iw_counts (cn_input c))"
  by (cases m) (auto simp: receive_message_def push_event_def receive_info_def receive_snapshot_def
      receive_ack_def Let_def dest: window_acknowledge_sent split: if_splits sum.splits prod.splits)

definition traffic :: "nat \<Rightarrow> byte list \<Rightarrow> connection \<Rightarrow> byte list \<Rightarrow> bool" where
  "traffic n bs c wr \<longleftrightarrow> ic_sent (iw_counts (cn_input c)) = n \<and> wr @ cn_outbound c = bs"

interpretation traffic: drive_invariant "traffic n bs" for n bs
  by unfold_locales (auto simp: traffic_def dest: receive_message_sent)

text \<open>The traffic of a connection now.\<close>

definition sent_now :: "connection \<Rightarrow> nat" where
  "sent_now c = ic_sent (iw_counts (cn_input c))"

definition stream_now :: "connection \<Rightarrow> socket \<Rightarrow> byte list" where
  "stream_now c w = sk_written w @ cn_outbound c"

lemma drive_traffic:
  "drive f l c w = (r, c', w') \<Longrightarrow> sent_now c' = sent_now c \<and> stream_now c' w' = stream_now c w"
  using traffic.drive_keeps [of f l c w r c' w' "sent_now c" "stream_now c w"]
  by (simp add: traffic_def sent_now_def stream_now_def)

lemma drive_finished: "drive f l c w = (Some (Inr u), c', w') \<Longrightarrow> f c' \<and> cn_ended c' = None"
  using traffic.drive_keeps [of f l c w "Some (Inr u)" c' w' "sent_now c" "stream_now c w"]
  by (simp add: traffic_def sent_now_def stream_now_def)

lemma sk_now_keeps: "sk_now w = (t, w') \<Longrightarrow> sk_written w' = sk_written w"
  by (rule sk_now_written)

lemma enqueue_traffic:
  "enqueue m c w = (c', w') \<Longrightarrow> sent_now c' = sent_now c \<and> stream_now c' w' = stream_now c w @ client_frame m
    \<and> cn_ended c' = cn_ended c"
  by (auto simp: enqueue_def sent_now_def stream_now_def split: prod.splits dest: sk_now_keeps)

subsection \<open>Errors\<close>

text \<open>An error \<open>drive\<close> returns ended the connection.\<close>

lemma decode_loop_ended:
  "decode_loop rest c = (r, rest', c') \<Longrightarrow> cn_ended c' = cn_ended c \<and> (\<forall>e. r = Inl e \<longrightarrow> is_fatal e)"
proof (induction rest c rule: decode_loop.induct)
  case (1 rest c)
  note go = "1.prems" [unfolded decode_loop.simps [of rest c]]
  show ?case
  proof (cases "\<exists>f m c1. split_frame rest MAX_FRAME = Inr (Some f) \<and> decode_host f PROTOCOL_VERSION = Inr m
      \<and> receive_message m c = (Inr (), c1)")
    case True
    then obtain f m c1 where f: "split_frame rest MAX_FRAME = Inr (Some f)"
      "decode_host f PROTOCOL_VERSION = Inr m" "receive_message m c = (Inr (), c1)" by blast
    show ?thesis
      using "1.IH" [OF f(1) refl refl f(2) f(3) [symmetric] refl] go f receive_message_ended [OF f(3)]
      by (simp add: Let_def)
  next
    case False
    then show ?thesis
      using go receive_message_ended receive_message_fatal
      by (fastforce simp: Let_def is_fatal_def split: sum.splits option.splits prod.splits)
  qed
qed

lemma drive_error: "drive f l c w = (Some (Inl e), c', w') \<Longrightarrow> cn_ended c' = Some e"
proof (induction f l c w rule: drive.induct)
  case (1 finished limit c w)
  note go = "1.prems"(1) [unfolded drive.simps [of finished limit c w]]
  show ?case
  proof (cases "cn_ended c")
    case (Some x)
    then show ?thesis using go by (auto simp: check_ended_def)
  next
    case None
    then have chk: "check_ended c = Inr ()" by (simp add: check_ended_def)
    obtain q c1 where d: "decode_buffered c = (q, c1)" by fastforce
    obtain rest c0 where l: "decode_loop (cn_inbound c) c = (q, rest, c0)" "c1 = c0\<lparr>cn_inbound := rest\<rparr>"
      using d by (auto simp: decode_buffered_def split: prod.splits)
    have D: "cn_ended c1 = None" "\<And>x. q = Inl x \<Longrightarrow> is_fatal x"
      using decode_loop_ended [OF l(1)] l(2) None by simp_all
    note go = go [unfolded chk sum.case d prod.case]
    show ?thesis
    proof (cases q)
      case (Inl x)
      then show ?thesis using go D by (auto simp: fail_def)
    next
      case (Inr u)
      note go = go [unfolded Inr sum.case Let_def]
      let ?c2 = "clear_deadline c1"
      have e2: "cn_ended ?c2 = None" using D(1) by (simp add: clear_deadline_def)
      show ?thesis
      proof (cases "finished ?c2")
        case True
        then show ?thesis using go by auto
      next
        case f: False
        let ?l = "min_limit limit (cn_write_deadline ?c2)"
        let ?w1 = "snd (past_limit (min_limit limit (cn_write_deadline (clear_deadline c1))) w)"
        note go = go [unfolded if_not_P [OF f]]
        show ?thesis
        proof (cases "fst (past_limit ?l w)")
          case True
          then show ?thesis using go e2 by (auto simp: fail_def is_fatal_def)
        next
          case p: False
          note go = go [unfolded if_not_P [OF p]]
          show ?thesis
          proof (cases "sk_answers ?w1")
            case Nil
            then show ?thesis using go by auto
          next
            case (Cons a as)
            obtain x c3 w3 where st: "conn_step (?l \<noteq> None) a ?c2 (?w1\<lparr>sk_answers := as\<rparr>) = (x, c3, w3)"
              by (metis prod_cases3)
            note go = go [unfolded Cons list.case st prod.case]
            show ?thesis
            proof (cases x)
              case (Inl y)
              then show ?thesis using go conn_step_fatal [OF st [unfolded Inl]] e2 by (auto simp: fail_def)
            next
              case y: (Inr y)
              then show ?thesis
                using "1.IH" [OF chk d [symmetric] Inr refl f refl refl p Cons st [symmetric] y refl] go by simp
            qed
          qed
        qed
      qed
    qed
  qed
qed

text \<open>
  An error of a request ended the connection, or is one of those that leave it as it is; what
  a call does after its first \<open>await\<close> it does on a connection that has not ended.
\<close>

definition error_kept :: "(client_error + 'a) option \<times> connection \<times> socket \<Rightarrow> bool" where
  "error_kept out \<longleftrightarrow> (case out of (Some (Inl e), c, w) \<Rightarrow> cn_ended c = Some e \<or> cn_ended c = None \<and> \<not> is_fatal e
     | _ \<Rightarrow> True)"

lemma error_kept_simps [simp]:
  "error_kept (Some (Inl e), c, w) \<longleftrightarrow> cn_ended c = Some e \<or> cn_ended c = None \<and> \<not> is_fatal e"
  "error_kept (Some (Inr x), c, w)" "error_kept (None, c, w)"
  by (simp_all add: error_kept_def)

named_theorems error_rules

lemma error_kept_drive [error_rules]: "error_kept (drive f l c w)"
proof -
  obtain q c1 w1 where d: "drive f l c w = (q, c1, w1)" by (metis prod_cases3)
  then show ?thesis using drive_error [of f l c w _ c1 w1] by (cases q; cases "the q") auto
qed

lemma error_kept_flush [error_rules]: "error_kept (flush c w)"
  unfolding flush_def by (rule error_kept_drive)

lemma error_kept_checked [error_rules]: "(cn_ended c = None \<Longrightarrow> error_kept (f c w)) \<Longrightarrow> error_kept (checked f c w)"
  by (cases "cn_ended c") (auto simp: checked_def check_ended_def)

lemma error_kept_await [error_rules]:
  assumes "\<And>x c w. cn_ended c = None \<Longrightarrow> error_kept (g x c w)"
  shows "error_kept (await (drive f l) g c w)"
proof -
  obtain q c1 w1 where d: "drive f l c w = (q, c1, w1)" by (metis prod_cases3)
  show ?thesis
  proof (cases "\<exists>x. q = Some (Inr x)")
    case True
    then show ?thesis using d assms [of c1 _ w1] drive_finished by (auto simp: await_def)
  next
    case False
    then show ?thesis
      using d error_kept_drive [of f l c w] by (auto simp: await_def split: option.split sum.split)
  qed
qed

lemma error_kept_await_flush [error_rules]:
  "(\<And>x c w. cn_ended c = None \<Longrightarrow> error_kept (g x c w)) \<Longrightarrow> error_kept (await flush g c w)"
  unfolding flush_def by (rule error_kept_await)

lemma error_kept_pair [error_rules]:
  "(\<And>a b. p = (a, b) \<Longrightarrow> error_kept (F a b)) \<Longrightarrow> error_kept (case p of (a, b) \<Rightarrow> F a b)"
  by (cases p) simp

lemma error_kept_if [error_rules]:
  "(b \<Longrightarrow> error_kept x) \<Longrightarrow> (\<not> b \<Longrightarrow> error_kept y) \<Longrightarrow> error_kept (if b then x else y)"
  by simp

lemma error_kept_requests:
  "error_kept (request_info c w)" "error_kept (start_read p c w)" "error_kept (resize s c w)"
  "error_kept (request_snapshot p blob c w)"
  unfolding request_info_def start_read_def resize_def request_snapshot_def Let_def
  by (intro error_rules; simp add: is_fatal_def)+

lemma admit_error: "admit n iw = (Inl e, iw') \<Longrightarrow> iw' = iw \<and> \<not> is_fatal e"
  by (auto simp: admit_def Let_def is_fatal_def split: if_splits)

lemma error_kept_input: "error_kept (send_input data c w)"
proof -
  have "error_kept (case a of Inl e \<Rightarrow> (Some (Inl e), c\<lparr>cn_input := iw\<rparr>, w)
       | Inr t \<Rightarrow> (let (c1, w1) = enqueue (Input data) (c\<lparr>cn_input := iw\<rparr>) w
            in await flush (\<lambda>_ c w. (Some (Inr t), c, w)) c1 w1))"
    if "cn_ended c = None" "admit n (cn_input c) = (a, iw)" for n c w a iw
    using that admit_error [of n "cn_input c"]
    by (cases a) (auto split: prod.split intro!: error_kept_await_flush)
  then show ?thesis
    unfolding send_input_def by (intro error_rules) (simp_all add: is_fatal_def)
qed

definition shutdown_answer :: "(client_error + unit) option \<times> connection \<times> socket
    \<Rightarrow> (client_error + shutdown_outcome) option \<times> connection \<times> socket" where
  "shutdown_answer out = (case out of
     (None, c3, w3) \<Rightarrow> (None, c3, w3)
   | (Some (Inr u), c3, w3) \<Rightarrow> (Some (Inr (outcome_of True c3)), c3, w3)
   | (Some (Inl e), c3, w3) \<Rightarrow>
       if e = ErrClosed \<and> cn_outbound c3 = [] then (Some (Inr (outcome_of False c3)), c3, w3)
       else (Some (Inl e), c3, w3))"

lemma request_shutdown_alt:
  "request_shutdown = checked (\<lambda>c w.
     let (now, w1) = sk_now w; deadline = now + to_nanos (dl_shutdown (cn_deadlines c))
     in await (drive (\<lambda>c. cn_outbound c = []) (Some deadline))
          (\<lambda>_ c w. let (c2, w2) = enqueue Shutdown c w in shutdown_answer (drive cn_goodbye (Some deadline) c2 w2))
          (c\<lparr>cn_shutting_down := True, cn_events := [], cn_queued := 0\<rparr>) w1)"
  by (simp add: request_shutdown_def shutdown_answer_def Let_def)

lemma error_kept_shutdown: "error_kept (request_shutdown c w)"
proof -
  have "error_kept (shutdown_answer (drive cn_goodbye l c2 w2))" for l c2 w2
    using error_kept_drive [of cn_goodbye l c2 w2]
    by (auto simp: shutdown_answer_def split: option.splits sum.splits prod.splits)
  then show ?thesis
    unfolding request_shutdown_alt Let_def by (intro error_rules)
qed

lemma error_kept_event: "error_kept (next_event c w)"
proof (cases "cn_events c")
  case Nil
  obtain r c1 w1 where d: "drive (\<lambda>c. cn_events c \<noteq> []) None c w = (r, c1, w1)" by (metis prod_cases3)
  have "cn_events c1 \<noteq> []" if "r = Some (Inr u)" for u using d that drive_finished by blast
  then show ?thesis
    using Nil d error_kept_drive [of "\<lambda>c. cn_events c \<noteq> []" None c w]
    by (auto simp: next_event_def take_event_def split: option.split list.split sum.split)
qed (simp add: next_event_def take_event_def)

subsection \<open>Events before the error\<close>

lemma drive_ended: "cn_ended c = Some e \<Longrightarrow> drive f l c w = (Some (Inl e), c, w)"
  by (simp add: drive.simps check_ended_def)

lemma checked_ended: "cn_ended c = Some e \<Longrightarrow> checked f c w = (Some (Inl e), c, w)"
  by (simp add: checked_def check_ended_def)

lemma ended_requests:
  assumes "cn_ended c = Some e"
  shows "request_info c w = (Some (Inl e), c, w)" "start_read p c w = (Some (Inl e), c, w)"
    "resize s c w = (Some (Inl e), c, w)" "request_snapshot p blob c w = (Some (Inl e), c, w)"
    "send_input data c w = (Some (Inl e), c, w)" "request_shutdown c w = (Some (Inl e), c, w)"
  by (simp_all add: checked_ended [OF assms] request_info_def start_read_def resize_def
      request_snapshot_def send_input_def request_shutdown_def)

subsection \<open>Decoding in order\<close>

text \<open>The messages up to the first one refused; what is left of them.\<close>

fun receive_each :: "host_message list \<Rightarrow> connection \<Rightarrow> (client_error + unit) \<times> host_message list \<times> connection" where
  "receive_each [] c = (Inr (), [], c)"
| "receive_each (m # ms) c = (case receive_message m c of
     (Inl e, c') \<Rightarrow> (Inl e, ms, c') | (Inr u, c') \<Rightarrow> receive_each ms c')"

definition host_frames :: "host_message list \<Rightarrow> byte list" where
  "host_frames ms = concat (map hostc.bytes_of ms)"

lemma decode_loop_frames:
  assumes "split_frame tail MAX_FRAME = Inr None"
  shows "\<forall>m\<in>set ms. host_ok m \<Longrightarrow> receive_each ms c = (r, left, c') \<Longrightarrow>
    decode_loop (host_frames ms @ tail) c = (r, host_frames left @ tail, c')"
proof (induction ms arbitrary: c)
  case Nil
  then show ?case using assms by (simp add: host_frames_def decode_loop.simps [of tail])
next
  case (Cons m ms)
  obtain f where f: "split_frame (hostc.bytes_of m @ host_frames ms @ tail) MAX_FRAME = Inr (Some f)"
    "f_consumed f = length (hostc.bytes_of m)" "decode_host f PROTOCOL_VERSION = Inr m"
    using hostc.decode_message [of m "host_frames ms @ tail"] Cons.prems(1) by (auto simp: PROTOCOL_VERSION_def)
  obtain q c1 where q: "receive_message m c = (q, c1)" by fastforce
  have step: "decode_loop (host_frames (m # ms) @ tail) c
      = (case q of Inl e \<Rightarrow> (Inl e, host_frames ms @ tail, c1) | Inr u \<Rightarrow> decode_loop (host_frames ms @ tail) c1)"
    using f q by (simp add: host_frames_def decode_loop.simps [of "hostc.bytes_of m @ _"] split: sum.split)
  show ?case
    using step q Cons by (cases q) auto
qed

subsection \<open>What an input and a shutdown queue\<close>

text \<open>An awaited flush leaves the traffic; what follows it runs with nothing outbound.\<close>

lemma await_flush_cases:
  assumes "await flush g c w = (r, c', w')"
  obtains (stopped) "\<forall>x. r \<noteq> Some (Inr x)" "sent_now c' = sent_now c" "stream_now c' w' = stream_now c w"
  | (went) c1 w1 where "g () c1 w1 = (r, c', w')" "cn_outbound c1 = []" "cn_ended c1 = None"
      "sent_now c1 = sent_now c" "stream_now c1 w1 = stream_now c w"
proof -
  obtain q c1 w1 where d: "drive (\<lambda>c. cn_outbound c = []) None c w = (q, c1, w1)" by (metis prod_cases3)
  show ?thesis
  proof (cases "\<exists>x. q = Some (Inr x)")
    case True
    then obtain u where q: "q = Some (Inr u)" by blast
    from drive_finished [OF d [unfolded q]] drive_traffic [OF d] show ?thesis
      using assms d q by (intro went [of c1 w1]) (simp_all add: await_def flush_def)
  next
    case False
    then show ?thesis using assms d drive_traffic [OF d] stopped
      by (auto simp: await_def flush_def split: option.splits sum.splits)
  qed
qed

lemma admit_sent: "admit n iw = (Inr t, iw') \<Longrightarrow> ic_sent (iw_counts iw') = ic_sent (iw_counts iw) + n \<and> tk_end t = ic_sent (iw_counts iw) + n"
  by (auto simp: admit_def Let_def split: if_splits)

lemma send_input_traffic:
  assumes "send_input data c w = (r, c', w')"
  shows "sent_now c' = sent_now c \<and> stream_now c' w' = stream_now c w \<and> (\<forall>t. r \<noteq> Some (Inr t))
    \<or> data \<noteq> [] \<and> sent_now c' = sent_now c + length data
      \<and> stream_now c' w' = stream_now c w @ client_frame (Input data)
      \<and> (\<forall>t. r = Some (Inr t) \<longrightarrow> tk_end t = sent_now c' \<and> cn_outbound c' = [])"
proof (cases "cn_ended c = None \<and> data \<noteq> [] \<and> \<not> MAX_INPUT < length data")
  case False
  then show ?thesis using assms by (auto simp: send_input_def checked_def check_ended_def split: option.splits)
next
  case True
  let ?g = "\<lambda>_ c w. case admit (length data) (cn_input c) of
         (Inl e, iw) \<Rightarrow> (Some (Inl e), c\<lparr>cn_input := iw\<rparr>, w)
       | (Inr ticket, iw) \<Rightarrow>
           (let (c1, w1) = enqueue (Input data) (c\<lparr>cn_input := iw\<rparr>) w
            in await flush (\<lambda>_ c w. (Some (Inr ticket), c, w)) c1 w1)"
  have "await flush ?g c w = (r, c', w')"
    using assms True by (simp add: send_input_def checked_def check_ended_def)
  then show ?thesis
  proof (cases rule: await_flush_cases)
    case (went c1 w1)
    obtain q iw where a: "admit (length data) (cn_input c1) = (q, iw)" by fastforce
    show ?thesis
    proof (cases q)
      case (Inl e)
      then show ?thesis using went a admit_error [of "length data" "cn_input c1"]
        by (auto simp: sent_now_def stream_now_def)
    next
      case (Inr t)
      obtain c2 w2 where e: "enqueue (Input data) (c1\<lparr>cn_input := iw\<rparr>) w1 = (c2, w2)" by fastforce
      note S = admit_sent [OF a [unfolded Inr]]
      have E: "sent_now c2 = sent_now c + length data" "tk_end t = sent_now c + length data"
        "stream_now c2 w2 = stream_now c w @ client_frame (Input data)"
        using enqueue_traffic [OF e] went S by (simp_all add: sent_now_def stream_now_def)
      have "await flush (\<lambda>_ c w. (Some (Inr t), c, w)) c2 w2 = (r, c', w')"
        using went(1) a Inr e by simp
      then show ?thesis
      proof (cases rule: await_flush_cases)
        case stopped
        then show ?thesis using E True by simp
      next
        case (went c3 w3)
        then show ?thesis using E True by auto
      qed
    qed
  qed simp
qed

lemma request_shutdown_traffic:
  assumes "request_shutdown c w = (Some (Inr out), c', w')"
  shows "stream_now c' w' = stream_now c w @ client_frame Shutdown
    \<and> so_input out = iw_counts (cn_input c') \<and> (so_goodbye out \<longrightarrow> cn_goodbye c')
    \<and> (\<not> so_goodbye out \<longrightarrow> cn_outbound c' = [] \<and> cn_ended c' = Some ErrClosed)"
proof -
  have none: "cn_ended c = None"
    using assms by (auto simp: request_shutdown_def checked_def check_ended_def split: option.splits)
  let ?c = "c\<lparr>cn_shutting_down := True, cn_events := [], cn_queued := 0\<rparr>"
  obtain now w1 where n: "sk_now w = (now, w1)" by fastforce
  let ?l = "Some (now + to_nanos (dl_shutdown (cn_deadlines c)))"
  let ?g = "\<lambda>_ c w. let (c2, w2) = enqueue Shutdown c w in shutdown_answer (drive cn_goodbye ?l c2 w2)"
  have go: "await (drive (\<lambda>c. cn_outbound c = []) ?l) ?g ?c w1 = (Some (Inr out), c', w')"
    using assms none n by (simp add: request_shutdown_alt checked_def check_ended_def Let_def)
  obtain q c1 w2 where d: "drive (\<lambda>c. cn_outbound c = []) ?l ?c w1 = (q, c1, w2)" by (metis prod_cases3)
  obtain u where q: "q = Some (Inr u)"
    using go d by (auto simp: await_def split: option.splits sum.splits)
  have T1: "stream_now c1 w2 = stream_now c w"
    using drive_traffic [OF d] sk_now_keeps [OF n] by (simp add: stream_now_def)
  obtain c2 w3 where e: "enqueue Shutdown c1 w2 = (c2, w3)" by fastforce
  obtain r c3 w4 where d2: "drive cn_goodbye ?l c2 w3 = (r, c3, w4)" by (metis prod_cases3)
  have ans: "shutdown_answer (r, c3, w4) = (Some (Inr out), c', w')"
    using go d q e d2 by (simp add: await_def)
  have T2: "stream_now c3 w4 = stream_now c w @ client_frame Shutdown"
    using T1 enqueue_traffic [OF e] drive_traffic [OF d2] by simp
  show ?thesis
  proof (cases r)
    case (Some x)
    then show ?thesis
      using ans T2 d2 drive_finished [of cn_goodbye] drive_error [of cn_goodbye]
      by (cases x) (auto simp: shutdown_answer_def outcome_of_def split: if_splits)
  qed (use ans in \<open>simp add: shutdown_answer_def\<close>)
qed

subsection \<open>The handshake\<close>

text \<open>However the answer and what follows it are cut, the first frame is read and the rest kept.\<close>

lemma first_answer_frame:
  assumes "host_ok m" "Suc (length (host_body m)) \<le> MAX_BEFORE_WELCOME"
  shows "buf @ concat chunks = hostc.bytes_of m @ tail \<Longrightarrow> \<forall>c\<in>set chunks. c \<noteq> [] \<Longrightarrow>
    \<exists>rest n. first_answer buf (map GreetBytes chunks @ later) = Answered (Inr m) rest \<and> tail = rest @ concat (drop n chunks)"
proof -
  let ?f = "\<lparr>f_kind = host_kind m, f_body = host_body m, f_consumed = length (hostc.bytes_of m)\<rparr>"
  have all: "split_frame (hostc.bytes_of m @ rest) MAX_BEFORE_WELCOME = Inr (Some ?f)" for rest
    using split_frame_bytes [of "host_body m" MAX_BEFORE_WELCOME "host_kind m" rest] assms(2)
    by (simp add: hostc.bytes_of_def MAX_BEFORE_WELCOME_def MAX_ERROR_MESSAGE_def)
  have dec: "decode_host ?f PROTOCOL_VERSION = Inr m"
    using assms(1) by (simp add: decode_host_iff PROTOCOL_VERSION_def)
  show "buf @ concat chunks = hostc.bytes_of m @ tail \<Longrightarrow> \<forall>c\<in>set chunks. c \<noteq> [] \<Longrightarrow> ?thesis"
  proof (induction chunks arbitrary: buf)
  case Nil
  then show ?case using all [of tail] dec by (simp add: first_answer.simps)
next
  case (Cons c cs)
  have some: "split_frame buf MAX_BEFORE_WELCOME = Inr None \<or> split_frame buf MAX_BEFORE_WELCOME = Inr (Some ?f)"
  proof (cases "split_frame buf MAX_BEFORE_WELCOME")
    case (Inl e)
    then show ?thesis
      using split_frame_error_append [OF Inl, of "concat (c # cs)"] all [of tail] Cons.prems(1) by simp
  next
    case (Inr x)
    then show ?thesis
      using split_frame_append [of buf MAX_BEFORE_WELCOME _ "concat (c # cs)"] all [of tail] Cons.prems(1)
      by (cases x) auto
  qed
  show ?case
  proof (cases "split_frame buf MAX_BEFORE_WELCOME = Inr None")
    case True
    obtain rest n where "first_answer (buf @ c) (map GreetBytes cs @ later) = Answered (Inr m) rest"
      "tail = rest @ concat (drop n cs)"
      using Cons.IH [of "buf @ c"] Cons.prems by auto
    then show ?thesis
      using True Cons.prems(2) by (intro exI [of _ rest] exI [of _ "Suc n"]) (simp add: first_answer.simps [of buf])
  next
    case False
    then have f: "split_frame buf MAX_BEFORE_WELCOME = Inr (Some ?f)" using some by blast
    then have "length (hostc.bytes_of m) \<le> length buf" using split_frame_Some(3) by fastforce
    then have "tail = drop (length (hostc.bytes_of m)) buf @ concat (c # cs)"
      using Cons.prems(1) by (metis append_eq_append_conv_if append_take_drop_id append_same_eq append.assoc append_eq_conv_conj)
    then show ?thesis
      using f dec by (intro exI [of _ "drop (length (hostc.bytes_of m)) buf"] exI [of _ 0])
        (simp add: first_answer.simps [of buf])
  qed
  qed
qed

subsection \<open>Judging a socket\<close>

text \<open>An attempt as one dial, handshake and answer make it.\<close>

definition made :: "'p attempt \<Rightarrow> bool" where
  "made a \<longleftrightarrow> (\<exists>d peer h rs. a = attempt_once d peer h rs)"

lemma judge_answer_not_gone:
  "judge_answer p a \<noteq> Retry (ConnectGone g)" "judge_answer p a \<noteq> Final (ConnectGone g)"
proof -
  have "judge_answer p a \<noteq> Retry (ConnectGone g) \<and> judge_answer p a \<noteq> Final (ConnectGone g)"
  proof (cases a)
    case (Answered r rest)
    then show ?thesis by (cases r; cases "projr r") (auto simp: judge_answer_def)
  next
    case (AnswerFailed e)
    then show ?thesis by (cases e) (auto simp: judge_answer_def)
  qed (auto simp: judge_answer_def)
  then show "judge_answer p a \<noteq> Retry (ConnectGone g)" "judge_answer p a \<noteq> Final (ConnectGone g)" by auto
qed

lemma made_not_gone:
  assumes "made a"
  shows "a \<noteq> Retry (ConnectGone g)" "a = Final (ConnectGone g) \<Longrightarrow> g = NoSocket"
proof -
  obtain d peer h rs where a: "a = attempt_once d peer h rs" using assms by (auto simp: made_def)
  show "a \<noteq> Retry (ConnectGone g)" "a = Final (ConnectGone g) \<Longrightarrow> g = NoSocket"
    unfolding a by (cases d; simp add: attempt_once_def judge_answer_not_gone)+
qed

definition goes_on :: "'p attempt \<Rightarrow> bool" where
  "goes_on a \<longleftrightarrow> (case a of AttemptRefused \<Rightarrow> True | Retry e \<Rightarrow> True | _ \<Rightarrow> False)"

lemma with_peer_gone: "with_peer e p = ConnectGone g \<longleftrightarrow> e = ConnectGone g"
  by (cases "(e, p)" rule: with_peer.cases) auto

text \<open>How many readings of the clock each takes.\<close>

lemma tick_drop: "tick ts = (t, ts') \<Longrightarrow> ts' = drop 1 ts"
  by (cases ts) auto

lemma tick_in: "tick ts = (t, ts') \<Longrightarrow> 0 < t \<Longrightarrow> ts = t # ts'"
  by (cases ts) auto

lemma cut_short_drop:
  "cut_short deadline last' found ts = (r, ts') \<Longrightarrow> ts' = drop (if timed_out found = None then 0 else 1) ts"
  by (auto simp: cut_short_def dest: tick_drop split: option.splits prod.splits)

lemma give_up_drop: "give_up dl deadline e ts = (r, ts') \<Longrightarrow> ts' = drop 1 ts"
  by (auto simp: give_up_def dest: tick_drop split: prod.splits)

lemma cut_short_some:
  "cut_short deadline last' found ts = (Some e, ts') \<Longrightarrow> \<exists>earlier p. last' = Some earlier \<and> e = with_peer earlier p"
  by (auto simp: cut_short_def split: option.splits prod.splits if_splits)

lemma cut_short_refused: "cut_short deadline last' AttemptRefused ts = (None, ts)"
  "cut_short deadline last' (Welcomed p b) ts = (None, ts)"
  by (simp_all add: cut_short_def timed_out_def)

lemma give_up_some: "give_up dl deadline e ts = (Some x, ts') \<Longrightarrow> x = e"
  by (auto simp: give_up_def split: prod.splits if_splits)

text \<open>
  The readings of the clock that attempts to go on take: the first refusal of a run two, each
  further one of it one, any other answer one and a timeout two.
\<close>

fun readings :: "bool \<Rightarrow> 'p attempt list \<Rightarrow> nat" where
  "readings refused [] = 0"
| "readings refused (AttemptRefused # as) = (if refused then 1 else 2) + readings True as"
| "readings refused (Retry (ConnectUnavailable UnTimeout p) # as) = 2 + readings False as"
| "readings refused (a # as) = 1 + readings False as"

text \<open>
  Refusals that judge a socket: an uninterrupted run of them, from the reading at its first one
  to the reading at its last one, at least the window later.
\<close>

definition refused_at :: "nat \<Rightarrow> nat option \<Rightarrow> 'p attempt list \<Rightarrow> nat list \<Rightarrow> 'p attempt list \<Rightarrow> nat
    \<Rightarrow> 'p attempt list \<Rightarrow> nat \<Rightarrow> nat \<Rightarrow> bool" where
  "refused_at window refusing as ts pre n post since now \<longleftrightarrow>
     as = pre @ replicate n AttemptRefused @ post \<and> 0 < n \<and> list_all goes_on pre \<and> window \<le> now - since
     \<and> (if pre = [] \<and> refusing \<noteq> None then refusing = Some since \<and> n \<le> length ts \<and> now = ts ! (n - 1)
        else (pre = [] \<or> (\<exists>e. last pre = Retry e))
          \<and> readings (refusing \<noteq> None) pre + n < length ts
          \<and> since = ts ! readings (refusing \<noteq> None) pre \<and> now = ts ! (readings (refusing \<noteq> None) pre + n))"

definition refused_run :: "nat \<Rightarrow> nat option \<Rightarrow> 'p attempt list \<Rightarrow> nat list \<Rightarrow> bool" where
  "refused_run window refusing as ts \<longleftrightarrow> (\<exists>pre n post since now. refused_at window refusing as ts pre n post since now)"

lemma readings_retry:
  "readings refused (Retry e # as) = (if timed_out (Retry e) = None then 1 else 2) + readings False as"
  by (cases e) (auto simp: timed_out_def split: unavailable.split)

lemma refused_run_retry:
  assumes "refused_run w None rest (drop k ts)" "k = (if timed_out (Retry e) = None then 1 else 2)"
  shows "refused_run w refusing (Retry e # rest) ts"
proof -
  obtain pre n post since now where R: "refused_at w None rest (drop k ts) pre n post since now"
    using assms(1) unfolding refused_run_def by blast
  then have "refused_at w refusing (Retry e # rest) ts (Retry e # pre) n post since now"
    unfolding refused_at_def using assms(2) by (auto simp: goes_on_def readings_retry add.assoc numeral_2_eq_2)
  then show ?thesis unfolding refused_run_def by blast
qed

lemma refused_run_more:
  assumes "refused_run w (Some since) rest ts3" "tick ts2 = (now, ts3)"
    and "(since, ts2) = (case refusing of Some t \<Rightarrow> (t, ts) | None \<Rightarrow> tick ts)"
  shows "refused_run w refusing (AttemptRefused # rest) ts"
proof -
  obtain pre n post since' now' where R: "refused_at w (Some since) rest ts3 pre n post since' now'"
    using assms(1) unfolding refused_run_def by blast
  define k where "k = (if refusing = None then 1 else 0 :: nat)"
  have "ts2 = drop k ts" using assms(3) tick_drop [of ts since ts2] by (cases refusing) (auto simp: k_def)
  then have ts3: "ts3 = drop (Suc k) ts" using tick_drop [OF assms(2)] by simp
  show ?thesis
  proof (cases "pre = []")
    case True
    then have P: "rest = replicate n AttemptRefused @ post" "0 < n" "w \<le> now' - since" "since' = since"
      "n + Suc k \<le> length ts" "now' = ts ! (n + k)"
      using R ts3 by (auto simp: refused_at_def add.commute)
    have "since = ts ! 0" if "refusing = None"
      using assms(3) that P(5) by (cases ts) auto
    then have "refused_at w refusing (AttemptRefused # rest) ts [] (Suc n) post since now'"
      unfolding refused_at_def using P assms(3)
      by (cases refusing) (auto simp: k_def)
    then show ?thesis unfolding refused_run_def by blast
  next
    case False
    then have "refused_at w refusing (AttemptRefused # rest) ts (AttemptRefused # pre) n post since' now'"
      using R ts3 unfolding refused_at_def by (auto simp: goes_on_def k_def add.assoc)
    then show ?thesis unfolding refused_run_def by blast
  qed
qed

lemma refused_run_now:
  assumes "tick ts2 = (now, ts3)" "(since, ts2) = (case refusing of Some t \<Rightarrow> (t, ts) | None \<Rightarrow> tick ts)"
    and "w \<le> now - since" "0 < w"
  shows "refused_run w refusing (AttemptRefused # rest) ts"
proof -
  have n: "ts2 = now # ts3" by (rule tick_in [OF assms(1)]) (use assms(3,4) in simp)
  then have "ts = since # ts2" if "refusing = None" using assms(2) that by (cases ts) auto
  then have "refused_at w refusing (AttemptRefused # rest) ts [] 1 rest since now"
    unfolding refused_at_def using assms(2,3) n by (cases refusing) auto
  then show ?thesis unfolding refused_run_def by blast
qed

text \<open>What the retry loop can say, of attempts that were made.\<close>

definition judged :: "nat \<Rightarrow> nat option \<Rightarrow> 'p attempt list \<Rightarrow> nat list \<Rightarrow> 'p connect_error + 'p option \<times> byte list \<Rightarrow> bool" where
  "judged window refusing as ts r \<longleftrightarrow>
     (\<forall>p b. r = Inr (p, b) \<longrightarrow> (\<exists>pre post. as = pre @ Welcomed p b # post \<and> list_all goes_on pre))
     \<and> (r = Inl (ConnectGone NoSocket) \<longrightarrow>
          (\<exists>pre post. as = pre @ Final (ConnectGone NoSocket) # post \<and> list_all goes_on pre))
     \<and> (r = Inl (ConnectGone GoneRefused) \<longrightarrow> refused_run window refusing as ts)"

lemma judged_other: "(\<And>g. e \<noteq> ConnectGone g) \<Longrightarrow> judged w refusing as ts (Inl e)"
  by (simp add: judged_def)

lemma judged_now: "judged w refusing (Welcomed p b # rest) ts (Inr (p, b))"
  "judged w refusing (Final (ConnectGone NoSocket) # rest) ts (Inl (ConnectGone NoSocket))"
  by (auto simp: judged_def intro: exI [of _ "[]"])

lemma judged_step:
  assumes "judged w ref' rest ts' r" "goes_on a"
    "refused_run w ref' rest ts' \<Longrightarrow> refused_run w refusing (a # rest) ts"
  shows "judged w refusing (a # rest) ts r"
proof -
  have "\<exists>pre post. a # rest = pre @ x # post \<and> list_all goes_on pre"
    if "\<exists>pre post. rest = pre @ x # post \<and> list_all goes_on pre" for x
    using that assms(2) by (metis append_Cons list.pred_inject(2))
  then show ?thesis using assms(1,3) unfolding judged_def by blast
qed

lemma connect_attempts_judged:
  assumes "0 < dl_refusal_window dl"
  shows "connect_attempts dl deadline refusing last' as ts = Some r \<Longrightarrow> \<forall>a\<in>set as. made a \<Longrightarrow>
    \<forall>g. last' \<noteq> Some (ConnectGone g) \<Longrightarrow> judged (to_nanos (dl_refusal_window dl)) refusing as ts r"
  using assms
proof (induction dl deadline refusing last' as ts rule: connect_attempts.induct)
  case (2 dl deadline refusing last' found rest ts)
  obtain x ts1 where cut: "cut_short deadline last' found ts = (x, ts1)" by fastforce
  note u = cut_short_drop [OF cut]
  have made: "made found" "\<forall>a\<in>set rest. made a" using "2.prems"(2) by simp_all
  show ?case
  proof (cases x)
    case (Some e)
    then have "r = Inl e" using "2.prems"(1) cut by simp
    moreover have "e \<noteq> ConnectGone g" for g
      using cut_short_some [OF cut [unfolded Some]] "2.prems"(3) by (auto simp: with_peer_gone)
    ultimately show ?thesis by (simp add: judged_other)
  next
    case None
    note go = "2.prems"(1) [unfolded connect_attempts.simps(2) cut None prod.case option.case]
    show ?thesis
    proof (cases found)
      case (Welcomed p b)
      then show ?thesis using go judged_now(1) by auto
    next
      case (Final e)
      then have "r = Inl e" "\<And>g. e = ConnectGone g \<Longrightarrow> g = NoSocket"
        using go made_not_gone(2) [OF made(1)] by auto
      then show ?thesis
        using Final judged_now(2) judged_other [of e] by (cases "\<exists>g. e = ConnectGone g") blast+
    next
      case (Retry e)
      obtain y ts2 where g: "give_up dl deadline e ts1 = (y, ts2)" by fastforce
      have v: "ts2 = drop (if timed_out (Retry e) = None then 1 else 2) ts"
        using give_up_drop [OF g] u Retry by (simp add: numeral_2_eq_2 split: if_splits)
      have e: "e \<noteq> ConnectGone k" for k using made_not_gone(1) [OF made(1)] Retry by simp
      show ?thesis
      proof (cases y)
        case (Some z)
        then have "r = Inl e" using go Retry g give_up_some [OF g [unfolded Some]] by simp
        then show ?thesis using judged_other [OF e] by simp
      next
        case n: None
        have J: "judged (to_nanos (dl_refusal_window dl)) None rest ts2 r"
          by (rule "2.IH"(2) [OF cut [symmetric] None Retry g [symmetric] n]) (use go Retry g n made(2) e "2.prems"(4) in simp_all)
        show ?thesis
          unfolding Retry by (rule judged_step [OF J]) (auto simp: goes_on_def v intro: refused_run_retry)
      qed
    next
      case AttemptRefused
      have ts1: "ts1 = ts" using cut AttemptRefused by (simp add: cut_short_refused)
      obtain since ts2 where s: "(since, ts2) = (case refusing of Some t \<Rightarrow> (t, ts1) | None \<Rightarrow> tick ts1)"
        by (metis surj_pair)
      obtain now ts3 where n: "tick ts2 = (now, ts3)" by fastforce
      note go = go [unfolded AttemptRefused attempt.case Let_def, folded s, unfolded prod.case n]
      show ?thesis
      proof (cases "to_nanos (dl_refusal_window dl) \<le> now - since")
        case True
        have "refused_run (to_nanos (dl_refusal_window dl)) refusing (AttemptRefused # rest) ts"
          by (rule refused_run_now [OF n s [unfolded ts1] True]) (use "2.prems"(4) in \<open>simp add: to_nanos_def\<close>)
        moreover have "r = Inl (ConnectGone GoneRefused)" using go True by simp
        ultimately show ?thesis using AttemptRefused by (simp add: judged_def)
      next
        case False
        have J: "judged (to_nanos (dl_refusal_window dl)) (Some since) rest ts3 r"
          by (rule "2.IH"(1) [OF cut [symmetric] None AttemptRefused s refl n [symmetric] refl False])
            (use go False made(2) "2.prems"(3,4) in simp_all)
        show ?thesis
          unfolding AttemptRefused
          by (rule judged_step [OF J]) (auto simp: goes_on_def intro: refused_run_more [OF _ n s [unfolded ts1]])
      qed
    qed
  qed
qed simp

lemma confirm_gone: "confirm_with_process found e = ConnectGone g \<Longrightarrow> e = ConnectGone g \<and> found = Inr None"
  by (cases e; cases found; cases "projr found")
    (auto simp: confirm_with_process_def with_peer_gone peer_of_def split: if_splits)

lemma refused_run_None:
  "refused_run w None as ts \<longleftrightarrow> (\<exists>pre n post.
     as = pre @ replicate n AttemptRefused @ post \<and> 0 < n \<and> list_all goes_on pre
     \<and> (pre = [] \<or> (\<exists>e. last pre = Retry e)) \<and> readings False pre + n < length ts
     \<and> w \<le> ts ! (readings False pre + n) - ts ! readings False pre)"
  unfolding refused_run_def refused_at_def by (simp only: not_True_eq_False simp_thms if_False) blast

lemma refusals_gone:
  "n < length ts \<Longrightarrow> to_nanos (dl_refusal_window dl) \<le> ts ! n - since \<Longrightarrow>
    connect_attempts dl deadline (Some since) last' (replicate (Suc n) AttemptRefused @ rest) ts
      = Some (Inl (ConnectGone GoneRefused))"
proof (induction n arbitrary: ts)
  case 0
  then show ?case by (cases ts) (simp_all add: cut_short_refused)
next
  case (Suc n)
  then obtain t ts' where ts: "ts = t # ts'" by (cases ts) auto
  then have "connect_attempts dl deadline (Some since) last' (replicate (Suc n) AttemptRefused @ rest) ts'
      = Some (Inl (ConnectGone GoneRefused))"
    by (intro Suc.IH) (use Suc.prems in simp_all)
  then show ?case by (simp add: ts cut_short_refused)
qed

end
