(* ===== verification/Connection_Properties.thy ===== *)
theory Connection_Properties
  imports Connection_Facts
begin

text \<open>
  What a host connection promises its owner: whole frames in order, a bounded window of input,
  replies for their own requests, errors that stay, and what a dropped request did.
\<close>

subsection \<open>A concrete run\<close>

definition sample_socket :: "sock_answer list \<Rightarrow> byte list \<Rightarrow> socket" where
  "sample_socket as wr = \<lparr>sk_clock = [], sk_answers = as, sk_written = wr\<rparr>"

definition sample_new :: connection where
  "sample_new = connection_new default_deadlines []"

definition sample_input :: "byte list" where
  "sample_input = clientc.bytes_of (Input [104, 105])"

text \<open>An input of two bytes whose future is dropped after three bytes of its frame are out.\<close>

definition sample_dropped :: connection where
  "sample_dropped = sample_new\<lparr>cn_outbound := drop 3 sample_input,
     cn_write_deadline := Some (to_nanos REPLY_DEADLINE),
     cn_input := \<lparr>iw_counts = \<lparr>ic_sent = 2, ic_written = 0, ic_discarded = 0\<rparr>,
       iw_unresolved = [(2, 2 + INPUT_COST)], iw_cost = 2 + INPUT_COST\<rparr>\<rparr>"

lemma sample_length: "length sample_input = 11" "client_frame (Input [104, 105]) = sample_input"
proof -
  show "length sample_input = 11" by (simp add: sample_input_def clientc.bytes_of_def put_bytes_def)
  have "clientc.sendable (Input [104, 105])"
    unfolding clientc.sendable_def by (simp add: MAX_FRAME_def MAX_INPUT_def put_bytes_def)
  then show "client_frame (Input [104, 105]) = sample_input" by (simp add: client_frame_bytes sample_input_def)
qed

lemma decode_nothing: "cn_inbound c = [] \<Longrightarrow> decode_buffered c = (Inr (), c)"
  by (simp add: decode_buffered_def decode_loop.simps [of "[]"] split_frame_def)

lemma sample_dropped_sel:
  "cn_inbound sample_dropped = []" "cn_outbound sample_dropped = drop 3 sample_input"
  "cn_write_deadline sample_dropped = Some (to_nanos REPLY_DEADLINE)" "cn_ended sample_dropped = None"
  "cn_events sample_dropped = []" "cn_queued sample_dropped = 0" "\<not> cn_shutting_down sample_dropped"
  "cn_input sample_dropped = \<lparr>iw_counts = \<lparr>ic_sent = 2, ic_written = 0, ic_discarded = 0\<rparr>,
     iw_unresolved = [(2, 2 + INPUT_COST)], iw_cost = 2 + INPUT_COST\<rparr>"
  "sample_dropped\<lparr>cn_outbound := drop 3 sample_input\<rparr> = sample_dropped"
  by (simp_all add: sample_dropped_def sample_new_def connection_new_def)

lemma sample_new_sel:
  "cn_inbound sample_new = []" "cn_outbound sample_new = []" "cn_ended sample_new = None"
  "cn_input sample_new = window_default" "dl_reply (cn_deadlines sample_new) = REPLY_DEADLINE"
  "\<not> cn_shutting_down sample_new" "cn_write_deadline sample_new = None"
  "sample_new\<lparr>cn_write_deadline := None\<rparr> = sample_new"
  by (simp_all add: sample_new_def connection_new_def default_deadlines_def)

lemma sample_queued:
  "sample_new\<lparr>cn_input := cn_input sample_dropped, cn_write_deadline := Some (to_nanos REPLY_DEADLINE),
     cn_outbound := sample_input\<rparr> = sample_dropped\<lparr>cn_outbound := sample_input\<rparr>"
  by (simp add: sample_dropped_def sample_new_def connection_new_def)

lemma sample_admit: "admit 2 window_default = (Inr \<lparr>tk_end = 2\<rparr>, cn_input sample_dropped)"
  by (simp add: sample_dropped_sel admit_def window_room_def window_default_def counts_zero_def INPUT_WINDOW_def limits)

lemma sample_send:
  "send_input [104, 105] sample_new (sample_socket [Put 3] []) = (None, sample_dropped, sample_socket [] (take 3 sample_input))"
proof -
  have fl: "flush sample_new w = (Some (Inr ()), sample_new, w)" for w
    by (simp add: flush_def drive.simps check_ended_def sample_new_sel decode_nothing clear_deadline_def)
  let ?c = "sample_dropped\<lparr>cn_outbound := sample_input\<rparr>"
  have "sample_input \<noteq> []" "drop 3 sample_input \<noteq> []" using sample_length(1) by auto
  then have fl2: "flush ?c (sample_socket [Put 3] [])
      = (None, sample_dropped, sample_socket [] (take 3 sample_input))"
    by (simp add: flush_def drive.simps [of _ _ ?c] drive.simps [of _ _ sample_dropped] check_ended_def
        sample_dropped_sel decode_nothing clear_deadline_def min_limit_def
        past_limit_def sk_now_def sample_socket_def to_nanos_def REPLY_DEADLINE_def conn_step_def)
  have en: "enqueue (Input [104, 105]) (sample_new\<lparr>cn_input := cn_input sample_dropped\<rparr>) (sample_socket [Put 3] [])
      = (?c, sample_socket [Put 3] [])"
    by (simp add: enqueue_def sk_now_def sample_socket_def sample_length(2) sample_new_sel
        flip: sample_queued)
  have size: "MAX_INPUT = 65536" by (simp add: limits)
  have len: "length [104, 105 :: byte] = 2" by simp
  show ?thesis
    unfolding send_input_def checked_def check_ended_def await_def sample_new_sel option.case sum.case
      fl prod.case len size by (simp add: sample_admit en fl2)
qed

lemma sample_reach: "conn_reach sample_dropped (sample_socket [] (take 3 sample_input))"
proof -
  have "conn_reach sample_new (sample_socket [Put 3] [])"
    unfolding sample_new_def by (rule connected) (simp add: sample_socket_def)
  then show ?thesis
    by (rule request [where q = "SendInput [104, 105]" and v = "sample_socket [Put 3] []"])
      (simp_all add: sample_new_sel request_ok_def after_call_def sample_send)
qed

subsection \<open>What a connection sends\<close>

text \<open>
  C10: Whatever futures are dropped where, what a connection wrote and still has to write is a
  sequence of whole frames of messages within the limits, of which only the last can be
  unfinished; it holds at most one \<open>Read\<close>, and a \<open>Shutdown\<close> only once \<open>shutdown\<close> was called.
\<close>

theorem conn_frames:
  assumes "conn_reach c w"
  shows "\<exists>ms. sk_written w @ cn_outbound c = sent_frames ms \<and> (\<forall>m\<in>set ms. clientc.sendable m)
    \<and> (cn_outbound c \<noteq> [] \<longrightarrow> ms \<noteq> [] \<and> length (cn_outbound c) \<le> length (clientc.bytes_of (last ms)))
    \<and> length (filter msg_is_read ms) \<le> 1 \<and> (Shutdown \<in> set ms \<longrightarrow> cn_shutting_down c)"
proof -
  obtain ms where "conn_inv ms c (sk_written w)" using conn_reach_ok [OF assms] by (auto simp: conn_ok_def)
  then show ?thesis by (intro exI [of _ ms]) (auto simp: conn_inv_defs)
qed

lemma conn_frames_witness:
  "\<exists>ms. take 3 sample_input @ drop 3 sample_input = sent_frames ms \<and> length (filter msg_is_read ms) \<le> 1"
  using conn_frames [OF sample_reach] by (auto simp: sample_dropped_sel sample_socket_def)

text \<open>
  C24: While a connection has not ended, what it owes its window is what its unresolved inputs
  cost, never more than \<open>INPUT_WINDOW\<close>; fewer input bytes than that are in an unknown state; and
  the events queued are within \<open>EVENT_QUEUE_LIMIT\<close>. In every state it reaches, ended or not, the
  events queued cost exactly what the running total says, and are at most one event over the
  limit, the one that ended the connection by it.
\<close>

theorem conn_bounds:
  assumes "conn_reach c w"
  shows "(cn_ended c = None \<longrightarrow> iw_cost (cn_input c) = (\<Sum>u\<leftarrow>iw_unresolved (cn_input c). snd u)
      \<and> iw_cost (cn_input c) \<le> INPUT_WINDOW
      \<and> counts_unknown (iw_counts (cn_input c)) + INPUT_COST * length (iw_unresolved (cn_input c)) = iw_cost (cn_input c)
      \<and> cn_queued c \<le> EVENT_QUEUE_LIMIT)
    \<and> cn_queued c = (\<Sum>ev\<leftarrow>cn_events c. event_cost ev)
    \<and> cn_queued c \<le> EVENT_QUEUE_LIMIT + (EVENT_COST + MAX_FRAME)"
proof (cases "cn_ended c = None")
  case False
  obtain ms where "conn_inv ms c (sk_written w)" using conn_reach_ok [OF assms(1)] by (auto simp: conn_ok_def)
  then have "events_inv c" by (simp only: conn_inv_def)
  then show ?thesis using False by (auto simp: events_inv_def)
next
  case True
  obtain ms where I: "conn_inv ms c (sk_written w)" using conn_reach_ok [OF assms(1)] by (auto simp: conn_ok_def)
  then have ev: "cn_queued c = (\<Sum>ev\<leftarrow>cn_events c. event_cost ev)" "cn_queued c \<le> EVENT_QUEUE_LIMIT"
    using True by (simp_all add: conn_inv_defs)
  obtain k where k: "window_at (input_lens ms) k (cn_input c)"
    using I True by (auto simp: conn_inv_defs)
  let ?ls = "input_lens ms"
  have cost: "in_flight ls = (\<Sum>u\<leftarrow>pending_ends b ls. snd u)" for b ls
    using pending_ends_costs [of b ls] by (simp add: in_flight_def)
  moreover have "in_flight ls = sum_list ls + INPUT_COST * length ls" for ls by (induction ls) simp_all
  moreover have "length (pending_ends b ls) = length ls" for b ls using pending_ends_costs [of b ls] by (metis length_map)
  moreover have "sum_list ?ls = sum_list (take k ?ls) + sum_list (drop k ?ls)"
    by (metis append_take_drop_id sum_list.append)
  ultimately show ?thesis
    using k ev True by (auto simp: window_at_def counts_unknown_def)
qed

lemma conn_bounds_witness:
  "iw_cost (cn_input sample_dropped) = 2 + INPUT_COST \<and> counts_unknown (iw_counts (cn_input sample_dropped)) = 2"
  using conn_bounds [OF sample_reach] by (simp add: sample_dropped_sel counts_unknown_def)

subsection \<open>Errors\<close>

text \<open>
  C18: An error of any request either ended the connection, which then holds that very error, or
  is one of those that leave the connection usable. Once it has ended, every request answers the
  error that ended it and changes nothing, except that \<open>next_event\<close> first hands out the events
  already queued.
\<close>

theorem errors_stay:
  "error_kept (request_info c w) \<and> error_kept (start_read p c w) \<and> error_kept (resize s c w)
    \<and> error_kept (request_snapshot p blob c w) \<and> error_kept (send_input data c w)
    \<and> error_kept (request_shutdown c w) \<and> error_kept (next_event c w)
    \<and> (\<forall>e. cn_ended c = Some e \<longrightarrow> request_info c w = (Some (Inl e), c, w) \<and> start_read p c w = (Some (Inl e), c, w)
      \<and> resize s c w = (Some (Inl e), c, w) \<and> request_snapshot p blob c w = (Some (Inl e), c, w)
      \<and> send_input data c w = (Some (Inl e), c, w) \<and> request_shutdown c w = (Some (Inl e), c, w)
      \<and> next_event c w = (case take_event c of (Some ev, c') \<Rightarrow> (Some (Inr ev), c', w)
          | (None, c') \<Rightarrow> (Some (Inl e), c, w)))"
proof -
  have "next_event c w = (case take_event c of (Some ev, c') \<Rightarrow> (Some (Inr ev), c', w)
        | (None, c') \<Rightarrow> (Some (Inl e), c, w))" if "cn_ended c = Some e" for e
    using drive_ended [OF that] by (cases "cn_events c") (simp_all add: next_event_def take_event_def)
  then show ?thesis
    by (simp add: ended_requests
      error_kept_requests error_kept_input error_kept_shutdown error_kept_event)
qed

lemma errors_stay_witness:
  "next_event (sample_new\<lparr>cn_ended := Some ErrClosed\<rparr>) (sample_socket [] [])
    = (Some (Inl ErrClosed), sample_new\<lparr>cn_ended := Some ErrClosed\<rparr>, sample_socket [] [])"
proof -
  let ?c = "sample_new\<lparr>cn_ended := Some ErrClosed\<rparr>"
  have e: "cn_ended ?c = Some ErrClosed" "cn_events ?c = []" by (simp_all add: sample_new_def connection_new_def)
  show ?thesis using errors_stay [of ?c "sample_socket [] []"] e by (simp add: take_event_def)
qed

subsection \<open>What a dropped request did\<close>

text \<open>
  C29: Wherever the future of \<open>send_input\<close> is dropped or fails, its input was either queued whole,
  as the next frame of the stream, or not at all, and the count of input sent tells which; where
  it returned a ticket, the whole frame is on the socket and the ticket is that count.
\<close>

theorem input_all_or_nothing:
  assumes "send_input data c w = (r, c', w')"
  shows "ic_sent (iw_counts (cn_input c')) = ic_sent (iw_counts (cn_input c))
      \<and> sk_written w' @ cn_outbound c' = sk_written w @ cn_outbound c \<and> (\<forall>t. r \<noteq> Some (Inr t))
    \<or> data \<noteq> [] \<and> ic_sent (iw_counts (cn_input c')) = ic_sent (iw_counts (cn_input c)) + length data
      \<and> sk_written w' @ cn_outbound c' = sk_written w @ cn_outbound c @ client_frame (Input data)
      \<and> (\<forall>t. r = Some (Inr t) \<longrightarrow> tk_end t = ic_sent (iw_counts (cn_input c')) \<and> cn_outbound c' = [])"
  using send_input_traffic [OF assms] by (simp add: sent_now_def stream_now_def)

lemma input_all_or_nothing_witness:
  "sk_written (sample_socket [] (take 3 sample_input)) @ cn_outbound sample_dropped = client_frame (Input [104, 105])"
  using input_all_or_nothing [OF sample_send]
  by (simp add: sample_new_sel sample_dropped_sel sample_socket_def window_default_def counts_zero_def)

definition sample_down :: connection where
  "sample_down = sample_new\<lparr>cn_shutting_down := True, cn_outbound := client_frame Shutdown,
     cn_write_deadline := Some (to_nanos REPLY_DEADLINE)\<rparr>"

lemma sample_down_sel:
  "cn_inbound sample_down = []" "cn_outbound sample_down = client_frame Shutdown"
  "cn_write_deadline sample_down = Some (to_nanos REPLY_DEADLINE)" "cn_ended sample_down = None"
  "\<not> cn_goodbye sample_down"
  by (simp_all add: sample_down_def sample_new_def connection_new_def)

lemma shutdown_frame: "client_frame Shutdown = [0, 0, 0, 1, kind_SHUTDOWN]"
proof -
  have "clientc.sendable Shutdown" unfolding clientc.sendable_def by (simp add: MAX_FRAME_def)
  moreover have "be 4 (Suc 0) = [0, 0, 0, 1]" by code_simp
  moreover have "clientc.bytes_of Shutdown = be 4 (Suc 0) @ [kind_SHUTDOWN]"
    unfolding clientc.bytes_of_def by (simp add: frame_bytes_def)
  ultimately show ?thesis by (simp add: client_frame_bytes)
qed

lemma sample_shutdown:
  "\<exists>c' w'. request_shutdown sample_new (sample_socket [Put 5, GotBytes []] []) = (Some (Inr (outcome_of False c')), c', w')"
proof -
  let ?c = "sample_new\<lparr>cn_shutting_down := True, cn_events := [], cn_queued := 0\<rparr>"
  have c: "cn_inbound ?c = []" "cn_outbound ?c = []" "cn_ended ?c = None" "?c\<lparr>cn_write_deadline := None\<rparr> = ?c"
    by (simp_all add: sample_new_def connection_new_def)
  have d1: "drive (\<lambda>c. cn_outbound c = []) l ?c w = (Some (Inr ()), ?c, w)" for l w
    by (simp add: drive.simps check_ended_def c decode_nothing clear_deadline_def)
  have en: "enqueue Shutdown ?c (sample_socket as bs) = (sample_down, sample_socket as bs)" for as bs
    by (simp add: enqueue_def sk_now_def sample_socket_def sample_down_def sample_new_def connection_new_def default_deadlines_def)
  let ?w = "sample_socket [Put 5, GotBytes []] []" and ?e = "sample_down\<lparr>cn_outbound := []\<rparr>"
  have d2: "\<exists>c'. drive cn_goodbye (Some (to_nanos SHUTDOWN_DEADLINE)) ?e
      (sample_socket [GotBytes []] (client_frame Shutdown))
      = (Some (Inl ErrClosed), c', sample_socket [] (client_frame Shutdown)) \<and> cn_outbound c' = []"
    by (simp add: drive.simps [of _ _ ?e] check_ended_def sample_down_sel decode_nothing
        clear_deadline_def min_limit_def past_limit_def sk_now_def sample_socket_def fail_def is_fatal_def
        to_nanos_def SHUTDOWN_DEADLINE_def conn_step_def)
  have d3: "drive cn_goodbye (Some (to_nanos SHUTDOWN_DEADLINE)) sample_down ?w
      = drive cn_goodbye (Some (to_nanos SHUTDOWN_DEADLINE)) ?e (sample_socket [GotBytes []] (client_frame Shutdown))"
    by (simp add: drive.simps [of _ _ sample_down] check_ended_def sample_down_sel decode_nothing
        clear_deadline_def min_limit_def past_limit_def sk_now_def sample_socket_def
        to_nanos_def REPLY_DEADLINE_def SHUTDOWN_DEADLINE_def conn_step_def shutdown_frame)
  have dl: "dl_shutdown (cn_deadlines sample_new) = SHUTDOWN_DEADLINE" "sk_now ?w = (0, ?w)"
    by (simp_all add: sample_new_def connection_new_def default_deadlines_def sk_now_def sample_socket_def)
  obtain c' where c': "drive cn_goodbye (Some (to_nanos SHUTDOWN_DEADLINE)) sample_down ?w
      = (Some (Inl ErrClosed), c', sample_socket [] (client_frame Shutdown))" "cn_outbound c' = []"
    using d2 d3 by auto
  have "request_shutdown sample_new ?w = shutdown_answer (Some (Inl ErrClosed), c', sample_socket [] (client_frame Shutdown))"
    unfolding request_shutdown_alt checked_def check_ended_def sample_new_sel option.case sum.case Let_def
      dl prod.case await_def d1 en by (simp add: c'(1))
  then show ?thesis using c'(2) by (simp add: shutdown_answer_def)
qed

text \<open>
  A \<open>shutdown\<close> that returns has queued one \<open>Shutdown\<close> after everything queued before, and tells
  what became of the input as of the last acknowledgement; without the \<open>Goodbye\<close> it returns only
  if the host closed the connection and every byte up to the \<open>Shutdown\<close> was written.
\<close>

theorem shutdown_outcomes:
  assumes "request_shutdown c w = (Some (Inr out), c', w')"
  shows "sk_written w' @ cn_outbound c' = sk_written w @ cn_outbound c @ client_frame Shutdown
    \<and> so_input out = iw_counts (cn_input c') \<and> (so_goodbye out \<longrightarrow> cn_goodbye c')
    \<and> (\<not> so_goodbye out \<longrightarrow> cn_ended c' = Some ErrClosed
        \<and> sk_written w' = sk_written w @ cn_outbound c @ client_frame Shutdown)"
  using request_shutdown_traffic [OF assms] by (auto simp: stream_now_def)

lemma shutdown_outcomes_witness:
  "\<exists>c' w'. request_shutdown sample_new (sample_socket [Put 5, GotBytes []] []) = (Some (Inr (outcome_of False c')), c', w')
    \<and> sk_written w' = client_frame Shutdown"
proof -
  obtain c' w' where s: "request_shutdown sample_new (sample_socket [Put 5, GotBytes []] [])
      = (Some (Inr (outcome_of False c')), c', w')"
    using sample_shutdown by blast
  then show ?thesis
    using shutdown_outcomes [OF s] by (auto simp: outcome_of_def sample_socket_def sample_new_sel)
qed

subsection \<open>What a connection receives\<close>

text \<open>
  Decoding the receive buffer is receiving the messages it holds one by one, up to the first
  that is refused: it consumes exactly their frames, and keeps the rest, down to the part of a
  frame still arriving.
\<close>

theorem decode_in_order:
  assumes "cn_inbound c = host_frames ms @ tail" "\<forall>m\<in>set ms. host_ok m" "split_frame tail MAX_FRAME = Inr None"
  shows "decode_buffered c = (case receive_each ms c of
    (r, left, c') \<Rightarrow> (r, c'\<lparr>cn_inbound := host_frames left @ tail\<rparr>))"
proof -
  obtain r left c' where "receive_each ms c = (r, left, c')" by (metis prod_cases3)
  then show ?thesis using decode_loop_frames [OF assms(3,2)] assms(1) by (simp add: decode_buffered_def)
qed

lemma decode_in_order_witness:
  "fst (decode_buffered (sample_new\<lparr>cn_inbound := host_frames [Goodbye, Goodbye] @ [0, 0]\<rparr>))
    = Inl (ErrMalformed ''Goodbye without Shutdown'')
  \<and> cn_inbound (snd (decode_buffered (sample_new\<lparr>cn_inbound := host_frames [Goodbye, Goodbye] @ [0, 0]\<rparr>)))
    = host_frames [Goodbye] @ [0, 0]"
proof -
  let ?c = "sample_new\<lparr>cn_inbound := host_frames [Goodbye, Goodbye] @ [0, 0]\<rparr>"
  have "decode_buffered ?c = (case receive_each [Goodbye, Goodbye] ?c of
      (r, left, c') \<Rightarrow> (r, c'\<lparr>cn_inbound := host_frames left @ [0, 0]\<rparr>))"
    by (rule decode_in_order) (simp_all add: split_frame_def)
  then show ?thesis by (simp add: receive_message_def sample_new_sel)
qed

subsection \<open>The window\<close>

text \<open>
  C13: The window is the one its specification asks for, in which the inputs sent are a list of
  lengths of which the first \<open>k\<close> are resolved: an input is admitted exactly if what is in flight
  and its cost fit the window; an acknowledgement is taken exactly if neither total goes back and
  they end at the end of an input sent, and resolves the inputs up to there; any other ends the
  connection.
\<close>

theorem window_refines:
  assumes "window_at ls k iw" "0 < len"
  shows "(case admit len iw of
      (Inl e, iw') \<Rightarrow> iw' = iw \<and> INPUT_WINDOW < in_flight (drop k ls) + len + INPUT_COST
        \<and> e = ErrInputWindowFull (len + INPUT_COST) (INPUT_WINDOW - in_flight (drop k ls))
    | (Inr t, iw') \<Rightarrow> tk_end t = sum_list (ls @ [len]) \<and> window_at (ls @ [len]) k iw'
        \<and> in_flight (drop k ls) + len + INPUT_COST \<le> INPUT_WINDOW)
    \<and> (case window_acknowledge wr di iw of
      (Inl e, iw') \<Rightarrow> is_fatal e \<and> iw_counts iw' = iw_counts iw
    | (Inr u, iw') \<Rightarrow> \<exists>j\<ge>k. wr + di = sum_list (take j ls) \<and> window_at ls j iw'
        \<and> ic_written (iw_counts iw') = wr \<and> ic_discarded (iw_counts iw') = di)
    \<and> (fst (window_acknowledge wr di iw) = Inr () \<longleftrightarrow>
        ic_written (iw_counts iw) \<le> wr \<and> ic_discarded (iw_counts iw) \<le> di \<and> u64_ok (wr + di)
        \<and> (\<exists>j\<le>length ls. wr + di = sum_list (take j ls)))"
proof (intro conjI)
  note A = admit_at [OF assms] and K = acknowledge_at [OF assms(1), of wr di]
  obtain r iw' where a: "admit len iw = (r, iw')" by fastforce
  show "case admit len iw of
      (Inl e, iw') \<Rightarrow> iw' = iw \<and> INPUT_WINDOW < in_flight (drop k ls) + len + INPUT_COST
        \<and> e = ErrInputWindowFull (len + INPUT_COST) (INPUT_WINDOW - in_flight (drop k ls))
    | (Inr t, iw') \<Rightarrow> tk_end t = sum_list (ls @ [len]) \<and> window_at (ls @ [len]) k iw'
        \<and> in_flight (drop k ls) + len + INPUT_COST \<le> INPUT_WINDOW"
    using A [unfolded a snd_conv] a by (cases r) (auto split: if_splits)
  obtain r iw2 where q: "window_acknowledge wr di iw = (r, iw2)" by fastforce
  show "case window_acknowledge wr di iw of
      (Inl e, iw') \<Rightarrow> is_fatal e \<and> iw_counts iw' = iw_counts iw
    | (Inr u, iw') \<Rightarrow> \<exists>j\<ge>k. wr + di = sum_list (take j ls) \<and> window_at ls j iw'
        \<and> ic_written (iw_counts iw') = wr \<and> ic_discarded (iw_counts iw') = di"
    using K(2,3) [unfolded q fst_conv snd_conv] q by (cases r) (auto simp: is_fatal_def)
qed (rule acknowledge_at(1) [OF assms(1)])

lemma window_refines_witness:
  "tk_end (projr (fst (admit 2 window_default))) = 2 \<and> window_at [2] 0 (snd (admit 2 window_default))"
  using window_refines [OF window_default_at, of 2] sample_admit by simp

subsection \<open>Connecting\<close>

text \<open>
  However the answer to \<open>Hello\<close> and what the host sends right after it are cut into reads, the
  answer is judged by what it says, and no byte after a \<open>Welcome\<close> is lost: those already read go
  to the connection, and the others are still on the socket.
\<close>

theorem handshake_any_cut:
  assumes "concat chunks = hostc.bytes_of m @ tail" "\<forall>c\<in>set chunks. c \<noteq> []" "host_ok m"
    and "m = Welcome v \<or> m = Busy \<or> m = Error code msg"
  shows "\<exists>rest n. tail = rest @ concat (drop n chunks)
    \<and> attempt_once Dialed peer HelloSent (map GreetBytes chunks @ later) = (case m of
        Welcome v \<Rightarrow> if v = PROTOCOL_VERSION then Welcomed peer rest
          else Final (ConnectUnavailable (UnsupportedVersion v) peer)
      | Busy \<Rightarrow> Retry (ConnectBusy peer)
      | Error c t \<Rightarrow> Final (ConnectUnavailable (UnRefused c t) peer)
      | _ \<Rightarrow> undefined)"
proof -
  have "Suc (length (host_body m)) \<le> MAX_BEFORE_WELCOME"
    using assms(3,4) by (auto simp: MAX_BEFORE_WELCOME_def limits put_u32_def put_u16_def put_bytes_def)
  from first_answer_frame [OF assms(3) this, of "[]" chunks tail later] assms(1,2) obtain rest n where
    "first_answer [] (map GreetBytes chunks @ later) = Answered (Inr m) rest" "tail = rest @ concat (drop n chunks)"
    by auto
  then show ?thesis
    using assms(4) by (intro exI [of _ rest] exI [of _ n]) (auto simp: attempt_once_def greet_def judge_answer_def)
qed

lemma handshake_any_cut_witness:
  "\<exists>rest n. [7, 8] = rest @ concat (drop n [hostc.bytes_of Busy @ [7], [8]])
    \<and> attempt_once Dialed None HelloSent (map GreetBytes [hostc.bytes_of Busy @ [7], [8]] @ [])
      = (Retry (ConnectBusy None) :: nat attempt)"
  using handshake_any_cut [of "[hostc.bytes_of Busy @ [7], [8]]" Busy "[7, 8]" _ _ _ None "[]"] by simp

text \<open>
  C15: A connection is made only of an attempt that was welcomed, after attempts that all called
  for another, and starts with the bytes that attempt read past the \<open>Welcome\<close>. A host is called
  gone only if the process table was searched and held no host, and the socket did not exist or
  the attempts ended in refusals with no other answer between, at the start or after an answer
  that was worth retrying, and the reading of the clock at the last of these refusals is at least
  the refusal window after the reading at the first of them. Attempts are those one dial,
  handshake and answer can make, and the window is not zero.
\<close>

theorem connect_verdict:
  assumes "connect_with dl start found attempts ts = Some r" "\<forall>a\<in>set attempts. made a" "0 < dl_refusal_window dl"
  shows "case r of
      Inr (peer, c) \<Rightarrow> \<exists>pre rest post. attempts = pre @ Welcomed peer rest # post \<and> list_all goes_on pre
        \<and> c = connection_new dl rest
    | Inl (ConnectGone NoSocket) \<Rightarrow> found = Inr None
        \<and> (\<exists>pre post. attempts = pre @ Final (ConnectGone NoSocket) # post \<and> list_all goes_on pre)
    | Inl (ConnectGone GoneRefused) \<Rightarrow> found = Inr None
        \<and> (\<exists>pre n post. attempts = pre @ replicate n AttemptRefused @ post \<and> 0 < n
            \<and> list_all goes_on pre \<and> (pre = [] \<or> (\<exists>e. last pre = Retry e))
            \<and> readings False pre + n < length ts
            \<and> to_nanos (dl_refusal_window dl) \<le> ts ! (readings False pre + n) - ts ! readings False pre)
    | Inl _ \<Rightarrow> True"
proof -
  let ?w = "to_nanos (dl_refusal_window dl)" and ?deadline = "start + to_nanos (dl_connect dl)"
  obtain q where q: "connect_attempts dl ?deadline None None attempts ts = Some q"
    using assms(1) by (auto simp: connect_with_def split: option.splits)
  have J: "judged ?w None attempts ts q"
    by (rule connect_attempts_judged [OF assms(3) q assms(2)]) simp
  show ?thesis
  proof (cases q)
    case (Inr x)
    then have "r = Inr (fst x, connection_new dl (snd x))" using assms(1) q by (auto simp: connect_with_def split: prod.splits)
    moreover have "\<exists>pre post. attempts = pre @ Welcomed (fst x) (snd x) # post \<and> list_all goes_on pre"
      using J Inr by (auto simp: judged_def)
    ultimately show ?thesis by auto
  next
    case (Inl e)
    then have r: "r = Inl (confirm_with_process found e)" using assms(1) q by (simp add: connect_with_def)
    show ?thesis
    proof (cases "\<exists>g. confirm_with_process found e = ConnectGone g")
      case True
      then obtain g where g: "confirm_with_process found e = ConnectGone g" by blast
      then have eg: "e = ConnectGone g" "found = Inr None" by (auto dest: confirm_gone)
      have "g = GoneRefused \<Longrightarrow> refused_run ?w None attempts ts" using J Inl eg(1) by (simp add: judged_def)
      then show ?thesis
        using J Inl r g eg by (cases g) (simp_all add: judged_def refused_run_None)
    next
      case False
      then show ?thesis using r by (cases "confirm_with_process found e") auto
    qed
  qed
qed

lemma connect_verdict_witness:
  "(\<exists>pre n post. [AttemptRefused, AttemptRefused :: nat attempt] = pre @ replicate n AttemptRefused @ post \<and> 0 < n)
    \<and> connect_with default_deadlines 0 (Inr None) [AttemptRefused, AttemptRefused :: nat attempt] [5, 6, 3000000005]
      = Some (Inl (ConnectGone GoneRefused))"
proof -
  let ?as = "[AttemptRefused, AttemptRefused :: nat attempt]"
  have r: "connect_with default_deadlines 0 (Inr None) ?as [5, 6, 3000000005] = Some (Inl (ConnectGone GoneRefused))"
    by (simp add: connect_with_def cut_short_refused default_deadlines_def to_nanos_def REFUSAL_WINDOW_def
        confirm_with_process_def peer_of_def)
  have "made (AttemptRefused :: nat attempt)"
    unfolding made_def by (rule exI [of _ DialRefused]) (simp add: attempt_once_def)
  moreover have "0 < dl_refusal_window default_deadlines" by (simp add: default_deadlines_def REFUSAL_WINDOW_def)
  ultimately show ?thesis using connect_verdict [OF r] r by auto
qed

text \<open>
  A socket that only refuses always comes out gone: however late the deadline or how long it
  has passed, a run of refusals is followed until it has lasted the refusal window, and where the
  process table holds no host, gone is the outcome.
\<close>

theorem refusals_judged:
  assumes "n < length ts" "to_nanos (dl_refusal_window dl) \<le> ts ! n - since"
  shows "connect_with dl start (Inr None) (replicate (Suc n) AttemptRefused @ rest) (since # ts)
    = Some (Inl (ConnectGone GoneRefused) :: 'p connect_error + 'p option \<times> connection)"
proof -
  let ?d = "start + to_nanos (dl_connect dl)" and ?as = "replicate (Suc n) AttemptRefused @ rest"
  have "connect_attempts dl ?d None None ?as (since # ts) = connect_attempts dl ?d (Some since) None ?as ts"
    by (simp add: cut_short_refused)
  also have "\<dots> = Some (Inl (ConnectGone GoneRefused) :: 'p connect_error + 'p option \<times> byte list)"
    by (rule refusals_gone [OF assms])
  finally show ?thesis by (simp add: connect_with_def confirm_with_process_def peer_of_def del: replicate_Suc)
qed

lemma refusals_judged_witness:
  "connect_with default_deadlines 0 (Inr None) (replicate 3 AttemptRefused) [9000000000, 9100000000, 9200000000, 12000000000]
    = Some (Inl (ConnectGone GoneRefused) :: nat connect_error + nat option \<times> connection)"
  using refusals_judged [of 2 "[9100000000, 9200000000, 12000000000]" default_deadlines 9000000000 0 "[]"]
  by (simp add: default_deadlines_def REFUSAL_WINDOW_def to_nanos_def numeral_3_eq_3)

end
