(* ===== verification/Input_Path.thy ===== *)
theory Input_Path
  imports Connection_Window Client_Loops
begin

text \<open>
  Input from the supervisor's window to the host's pty and its acknowledgements back: the client
  side of \<^verbatim>\<open>hosts/client.rs\<close> composed with the host side of \<^verbatim>\<open>host.rs\<close>. The inputs on
  their way are a list; what the host sends is the bytes its send loop writes, out of the queue
  its acknowledgements are in, and the supervisor decodes those bytes.
\<close>

subsection \<open>What the host does with input\<close>











subsection \<open>The two ends\<close>





subsection \<open>What is on its way back\<close>

text \<open>
  The bytes sent are whole frames of some messages and the started part of the first one queued;
  the queue holds the frames of the messages after these, and only its first one is started.
\<close>

definition ack_of :: "host_message \<Rightarrow> (nat \<times> nat) list" where
  "ack_of m = (case m of InputAck a b \<Rightarrow> [(a, b)] | _ \<Rightarrow> [])"


lemma ack_of_simps [simp]: "ack_of (InputAck a b) = [(a, b)]" "\<not> is_ack m \<Longrightarrow> ack_of m = []"
  by (auto simp: ack_of_def is_ack_def split: host_message.splits)












subsection \<open>The invariant\<close>

























subsection \<open>The contract of the two ends\<close>








end
