(* ===== verification/Grid.thy ===== *)
theory Grid
  imports Prelude
begin

unbundle bit_operations_syntax

text \<open>
  Grid messages (\<^verbatim>\<open>crates/farhelm-proto/src/grid.rs\<close>): a terminal's screen as rows of styled
  runs, and the input a viewer sends back. Here are the messages, their hand-written wire forms
  (colors, styles and runs, which are arrays of JSON values) and every bound a message can break
  by itself. Unsigned fields are natural numbers, strings their UTF-8 bytes. The JSON text itself
  is \<^verbatim>\<open>serde_json\<close>'s: encoding and decoding it are arguments.
\<close>

subsection \<open>Bounds\<close>

definition MAX_TERMINAL_DATA_LEN :: nat where "MAX_TERMINAL_DATA_LEN = 64 * 1024"
definition GRID_MAX_MESSAGE :: nat where "GRID_MAX_MESSAGE = 1024 * 1024"
definition GRID_MAX_INPUT_MESSAGE :: nat where "GRID_MAX_INPUT_MESSAGE = MAX_TERMINAL_DATA_LEN"
definition GRID_MAX_DIMENSION :: nat where "GRID_MAX_DIMENSION = 1000"
definition GRID_MAX_HISTORY_CAP :: nat where "GRID_MAX_HISTORY_CAP = 100000"
definition GRID_MAX_LINKS :: nat where "GRID_MAX_LINKS = 256"
definition GRID_MAX_LINK_ID_BYTES :: nat where "GRID_MAX_LINK_ID_BYTES = 250"
definition GRID_MAX_LINK_URI_BYTES :: nat where "GRID_MAX_LINK_URI_BYTES = 2083"
definition GRID_MAX_CELL_TEXT_BYTES :: nat where "GRID_MAX_CELL_TEXT_BYTES = 4 * (1 + 16)"
definition GRID_MAX_TEXT_INPUT_BYTES :: nat where "GRID_MAX_TEXT_INPUT_BYTES = 16 * 1024"
definition GRID_MAX_PASTE_PART_BYTES :: nat where "GRID_MAX_PASTE_PART_BYTES = 32 * 1024"
definition GRID_MAX_CLIPBOARD_PART_BYTES :: nat where "GRID_MAX_CLIPBOARD_PART_BYTES = 512 * 1024"
definition GRID_MAX_CLIPBOARD_BYTES :: nat where "GRID_MAX_CLIPBOARD_BYTES = 8 * 1024 * 1024"
definition GRID_MAX_KEY_BYTES :: nat where "GRID_MAX_KEY_BYTES = 64"
definition GRID_MAX_LINE_NUMBER :: nat where "GRID_MAX_LINE_NUMBER = 2 ^ 53 - 1"

definition SHIFT :: byte where "SHIFT = 1"
definition ALT :: byte where "ALT = 2"
definition CTRL :: byte where "CTRL = 4"
definition META :: byte where "META = 8"
definition MODS_ALL :: byte where "MODS_ALL = SHIFT OR ALT OR CTRL OR META"

subsection \<open>Errors\<close>

datatype grid_error = TooLarge nat nat | BadJson | Bound string

definition check_len :: "nat \<Rightarrow> nat \<Rightarrow> grid_error + unit" where
  "check_len len limit = guard_err (limit < len) (TooLarge len limit)"

text \<open>The first byte that is not a space, tab, newline or return has to open an object.\<close>

definition check_object :: "byte list \<Rightarrow> grid_error + unit" where
  "check_object bytes = (case find (\<lambda>b. b \<notin> {32, 9, 10, 13}) bytes of
     Some b \<Rightarrow> if b = 123 then Inr () else Inl (Bound ''the message is not a JSON object'')
   | None \<Rightarrow> Inl (Bound ''the message is not a JSON object''))"

subsection \<open>Colors and styles\<close>

definition DIRECT_COLOR_BASE :: int where "DIRECT_COLOR_BASE = 0x1000000"

datatype color = DefaultColor | Palette byte | Rgb byte byte byte

fun to_wire :: "color \<Rightarrow> int" where
  "to_wire DefaultColor = - 1"
| "to_wire (Palette index) = uint index"
| "to_wire (Rgb r g b) =
     DIRECT_COLOR_BASE + (push_bit 16 (uint r) OR push_bit 8 (uint g) OR uint b)"

definition from_wire :: "int \<Rightarrow> color option" where
  "from_wire value =
     (if value = - 1 then Some DefaultColor
      else if 0 \<le> value \<and> value \<le> 255 then Some (Palette (word_of_int value))
      else if DIRECT_COLOR_BASE \<le> value \<and> value < DIRECT_COLOR_BASE + 0x1000000 then
        (let rgb = value - DIRECT_COLOR_BASE in
         Some (Rgb (word_of_int (drop_bit 16 rgb)) (word_of_int (drop_bit 8 rgb)) (word_of_int rgb)))
      else None)"

record style =
  st_flags :: nat
  st_fg :: color
  st_bg :: color
  st_underline :: "color option"

definition style_plain :: style where
  "style_plain = \<lparr>st_flags = 0, st_fg = DefaultColor, st_bg = DefaultColor, st_underline = None\<rparr>"

text \<open>The JSON values that carry them; an object never does.\<close>

datatype json = JNull | JBool bool | JInt int | JText "byte list" | JArray "json list"

definition json_u16 :: "json \<Rightarrow> nat option" where
  "json_u16 v = (case v of JInt i \<Rightarrow> if 0 \<le> i \<and> i < 2 ^ 16 then Some (nat i) else None | _ \<Rightarrow> None)"

definition json_text :: "json \<Rightarrow> byte list option" where
  "json_text v = (case v of JText bs \<Rightarrow> Some bs | _ \<Rightarrow> None)"

definition json_seq :: "json \<Rightarrow> json list option" where
  "json_seq v = (case v of JArray vs \<Rightarrow> Some vs | _ \<Rightarrow> None)"

definition serialize_color :: "color \<Rightarrow> json" where
  "serialize_color c = JInt (to_wire c)"

definition deserialize_color :: "json \<Rightarrow> color option" where
  "deserialize_color v = (case v of JInt i \<Rightarrow> from_wire i | _ \<Rightarrow> None)"

definition serialize_style :: "style \<Rightarrow> json" where
  "serialize_style s = JArray ([JInt (int (st_flags s)), serialize_color (st_fg s), serialize_color (st_bg s)]
     @ (case st_underline s of Some c \<Rightarrow> [serialize_color c] | None \<Rightarrow> []))"

text \<open>
  The visitors: \<open>required\<close> takes an element that must be there, \<open>next_element\<close> one that may be,
  and \<open>no_more\<close> refuses a further one. An error of any of them is the visitor's.
\<close>

definition required :: "(json \<Rightarrow> 'a option) \<Rightarrow> json list \<Rightarrow> ('a \<times> json list) option" where
  "required conv vs = (case vs of [] \<Rightarrow> None | v # vs \<Rightarrow> map_option (\<lambda>x. (x, vs)) (conv v))"

definition next_element :: "(json \<Rightarrow> 'a option) \<Rightarrow> json list \<Rightarrow> ('a option \<times> json list) option" where
  "next_element conv vs = (case vs of [] \<Rightarrow> Some (None, []) | v # vs \<Rightarrow> map_option (\<lambda>x. (Some x, vs)) (conv v))"

definition no_more :: "json list \<Rightarrow> unit option" where
  "no_more vs = (if vs = [] then Some () else None)"

definition visit_style :: "json list \<Rightarrow> style option" where
  "visit_style vs =
     Option.bind (required json_u16 vs) (\<lambda>(flags, vs).
     Option.bind (required deserialize_color vs) (\<lambda>(fg, vs).
     Option.bind (required deserialize_color vs) (\<lambda>(bg, vs).
     Option.bind (next_element deserialize_color vs) (\<lambda>(underline, vs).
     Option.bind (no_more vs) (\<lambda>_.
       Some \<lparr>st_flags = flags, st_fg = fg, st_bg = bg, st_underline = underline\<rparr>)))))"

definition deserialize_style :: "json \<Rightarrow> style option" where
  "deserialize_style v = Option.bind (json_seq v) visit_style"

subsection \<open>Runs and rows\<close>

record grid_run =
  rn_col :: nat
  rn_width :: nat
  rn_text :: "byte list"
  rn_style :: style
  rn_link :: "nat option"

definition serialize_run :: "grid_run \<Rightarrow> json" where
  "serialize_run r = JArray ([JInt (int (rn_col r)), JInt (int (rn_width r)), JText (rn_text r), serialize_style (rn_style r)]
     @ (case rn_link r of Some l \<Rightarrow> [JInt (int l)] | None \<Rightarrow> []))"

definition visit_run :: "json list \<Rightarrow> grid_run option" where
  "visit_run vs =
     Option.bind (required json_u16 vs) (\<lambda>(col, vs).
     Option.bind (required json_u16 vs) (\<lambda>(width, vs).
     Option.bind (required json_text vs) (\<lambda>(txt, vs).
     Option.bind (required deserialize_style vs) (\<lambda>(sty, vs).
     Option.bind (next_element json_u16 vs) (\<lambda>(link, vs).
     Option.bind (no_more vs) (\<lambda>_.
       Some \<lparr>rn_col = col, rn_width = width, rn_text = txt, rn_style = sty, rn_link = link\<rparr>))))))"

definition deserialize_run :: "json \<Rightarrow> grid_run option" where
  "deserialize_run v = Option.bind (json_seq v) visit_run"

definition run_end :: "grid_run \<Rightarrow> nat" where
  "run_end r = rn_col r + rn_width r"

definition plain_ascii :: "byte list \<Rightarrow> bool" where
  "plain_ascii bs \<longleftrightarrow> (\<forall>b\<in>set bs. 0x20 \<le> unat b \<and> unat b < 0x7f)"

definition validate_run :: "nat \<Rightarrow> nat \<Rightarrow> grid_run \<Rightarrow> grid_error + unit" where
  "validate_run row_width links_len r =
     try_bind (guard_err (rn_width r = 0) (Bound ''run has width 0'')) (\<lambda>_.
     try_bind (guard_err (row_width < run_end r) (Bound ''run ends past the row'')) (\<lambda>_.
     try_bind (guard_err (rn_text r = []) (Bound ''run has no text'')) (\<lambda>_.
     try_bind (guard_err (GRID_MAX_CELL_TEXT_BYTES * rn_width r < length (rn_text r)) (Bound ''run has too much text'')) (\<lambda>_.
     try_bind (guard_err (plain_ascii (rn_text r) \<and> length (rn_text r) \<noteq> rn_width r)
       (Bound ''ASCII run is not as wide as its text'')) (\<lambda>_.
     try_bind (guard_err (\<not> plain_ascii (rn_text r) \<and> 2 < rn_width r)
       (Bound ''non-ASCII run is wider than a cell'')) (\<lambda>_.
     (case rn_link r of Some l \<Rightarrow> guard_err (links_len \<le> l) (Bound ''run names a link past the links'')
      | None \<Rightarrow> Inr ())))))))"

record grid_row =
  rw_wraps :: bool
  rw_runs :: "grid_run list"

text \<open>The loop over a row's runs, from the next free column.\<close>

fun validate_runs :: "nat \<Rightarrow> nat \<Rightarrow> nat \<Rightarrow> grid_run list \<Rightarrow> grid_error + unit" where
  "validate_runs row_width links_len next_free [] = Inr ()"
| "validate_runs row_width links_len next_free (r # rs) =
     try_bind (guard_err (rn_col r < next_free) (Bound ''run overlaps or precedes the run before it'')) (\<lambda>_.
     try_bind (validate_run row_width links_len r) (\<lambda>_. validate_runs row_width links_len (run_end r) rs))"

definition validate_row :: "nat \<Rightarrow> nat \<Rightarrow> grid_row \<Rightarrow> grid_error + unit" where
  "validate_row row_width links_len r = validate_runs row_width links_len 0 (rw_runs r)"

definition row_end :: "grid_row \<Rightarrow> nat" where
  "row_end r = (if rw_runs r = [] then 0 else run_end (last (rw_runs r)))"

record screen_row =
  sr_y :: nat
  sr_row :: grid_row

record grid_link =
  lk_id :: "byte list"
  lk_uri :: "byte list"

definition validate_links :: "grid_link list \<Rightarrow> grid_error + unit" where
  "validate_links links =
     try_bind (guard_err (GRID_MAX_LINKS < length links) (Bound ''too many links'')) (\<lambda>_.
     try_all (\<lambda>l.
       try_bind (guard_err (GRID_MAX_LINK_ID_BYTES < length (lk_id l)) (Bound ''link id too long'')) (\<lambda>_.
       guard_err (GRID_MAX_LINK_URI_BYTES < length (lk_uri l)) (Bound ''link URI too long''))) links)"

definition dimension_ok :: "nat \<Rightarrow> bool" where
  "dimension_ok n \<longleftrightarrow> 1 \<le> n \<and> n \<le> GRID_MAX_DIMENSION"

definition validate_size :: "nat \<Rightarrow> nat \<Rightarrow> grid_error + unit" where
  "validate_size cols rows =
     try_all (\<lambda>n. guard_err (\<not> dimension_ok n) (Bound ''size outside the largest grid'')) [cols, rows]"

subsection \<open>Supervisor to client\<close>

datatype cursor_shape = BlockCursor | UnderlineCursor | BarCursor

record grid_cursor =
  gc_x :: nat
  gc_y :: nat
  gc_visible :: bool
  gc_shape :: cursor_shape
  gc_blink :: bool

datatype mouse_mode = MouseOff | MouseClick | MouseDrag | MouseMotion
datatype exit_state = ExitCode i32 | ExitSignal i32

record terminal_state =
  ts_mouse :: mouse_mode
  ts_focus :: bool
  ts_alt_screen :: bool
  ts_default_fg :: "color option"
  ts_default_bg :: "color option"
  ts_history_trimmed :: bool
  ts_exit :: "exit_state option"

datatype clipboard_target = Clipboard | Primary

datatype grid_output =
    GridHello nat nat nat
  | GridRows "screen_row list" "grid_link list"
  | GridFrame nat nat nat nat grid_cursor
  | GridHistory nat nat "grid_row list" "grid_link list"
  | GridHistoryReset
  | GridState terminal_state
  | GridClipboard clipboard_target "byte list" bool

definition not_direct :: "color option \<Rightarrow> bool" where
  "not_direct c = (case c of None \<Rightarrow> False | Some (Rgb r g b) \<Rightarrow> False | Some _ \<Rightarrow> True)"

fun validate_output :: "grid_output \<Rightarrow> grid_error + unit" where
  "validate_output (GridHello cols rows history_cap) =
     try_bind (validate_size cols rows) (\<lambda>_.
     guard_err (GRID_MAX_HISTORY_CAP < history_cap) (Bound ''history_cap''))"
| "validate_output (GridRows rows links) =
     try_bind (validate_links links) (\<lambda>_.
     try_all (\<lambda>r.
       try_bind (guard_err (GRID_MAX_DIMENSION \<le> sr_y r) (Bound ''screen row past the largest grid'')) (\<lambda>_.
       validate_row GRID_MAX_DIMENSION (length links) (sr_row r))) rows)"
| "validate_output (GridFrame rev' cols rows shift cursor) =
     try_bind (validate_size cols rows) (\<lambda>_.
     try_bind (guard_err (GRID_MAX_LINE_NUMBER < rev') (Bound ''frame rev'')) (\<lambda>_.
     try_bind (guard_err (rows < shift) (Bound ''frame shift'')) (\<lambda>_.
     guard_err (cols \<le> gc_x cursor \<or> rows \<le> gc_y cursor) (Bound ''cursor outside the screen''))))"
| "validate_output (GridHistory first' cols rows links) =
     try_bind (guard_err (\<not> dimension_ok cols) (Bound ''history cols'')) (\<lambda>_.
     try_bind (validate_links links) (\<lambda>_.
     try_bind (guard_err (GRID_MAX_LINE_NUMBER < first') (Bound ''history first line'')) (\<lambda>_.
     try_bind (guard_err (GRID_MAX_LINE_NUMBER + 1 < first' + length rows) (Bound ''history lines'')) (\<lambda>_.
     try_all (validate_row cols (length links)) rows))))"
| "validate_output GridHistoryReset = Inr ()"
| "validate_output (GridClipboard target txt last') =
     guard_err (GRID_MAX_CLIPBOARD_PART_BYTES < length txt) (Bound ''clipboard part'')"
| "validate_output (GridState state) =
     try_all (\<lambda>c. guard_err (not_direct c) (Bound ''state color is not a direct color''))
       [ts_default_fg state, ts_default_bg state]"

text \<open>
  Decoding and encoding one data frame, with the JSON parser and printer as arguments: the parser
  gives \<open>None\<close> where \<^verbatim>\<open>serde_json\<close> refuses the bytes.
\<close>

definition decode_output :: "(byte list \<Rightarrow> grid_output option) \<Rightarrow> byte list \<Rightarrow> grid_error + grid_output" where
  "decode_output parse bytes =
     try_bind (check_len (length bytes) GRID_MAX_MESSAGE) (\<lambda>_.
     try_bind (check_object bytes) (\<lambda>_.
     try_bind (case parse bytes of Some m \<Rightarrow> Inr m | None \<Rightarrow> Inl BadJson) (\<lambda>m.
     try_bind (validate_output m) (\<lambda>_. Inr m))))"

definition encode_output :: "(grid_output \<Rightarrow> byte list) \<Rightarrow> grid_output \<Rightarrow> grid_error + byte list" where
  "encode_output json_of m =
     try_bind (validate_output m) (\<lambda>_.
     try_bind (check_len (length (json_of m)) GRID_MAX_MESSAGE) (\<lambda>_. Inr (json_of m)))"

subsection \<open>Client to supervisor\<close>

datatype mouse_event_kind = MouseDown | MouseUp | MouseMove | MouseWheel

datatype grid_input =
    GridKey "byte list" "byte list" nat byte bool
  | GridText "byte list"
  | GridPaste "byte list" bool
  | GridMouse mouse_event_kind int nat nat byte
  | GridFocus bool

definition validate_mods :: "byte \<Rightarrow> grid_error + unit" where
  "validate_mods mods = guard_err (mods AND NOT MODS_ALL \<noteq> 0) (Bound ''modifier bits include undefined ones'')"

definition buttons :: "mouse_event_kind \<Rightarrow> int set" where
  "buttons kind = (case kind of MouseDown \<Rightarrow> {0..2} | MouseUp \<Rightarrow> {0..2} | MouseMove \<Rightarrow> {- 1..2} | MouseWheel \<Rightarrow> {0..1})"

fun validate_input :: "grid_input \<Rightarrow> grid_error + unit" where
  "validate_input (GridKey key code kc mods mac) =
     try_bind (try_all (\<lambda>v. guard_err (GRID_MAX_KEY_BYTES < length v) (Bound ''key or code too long'')) [key, code]) (\<lambda>_.
     validate_mods mods)"
| "validate_input (GridText txt) =
     guard_err (GRID_MAX_TEXT_INPUT_BYTES < length txt) (Bound ''text input'')"
| "validate_input (GridPaste txt last') =
     guard_err (GRID_MAX_PASTE_PART_BYTES < length txt) (Bound ''paste part'')"
| "validate_input (GridMouse kind button x y mods) =
     try_bind (guard_err (button \<notin> buttons kind) (Bound ''mouse button'')) (\<lambda>_.
     try_bind (guard_err (GRID_MAX_DIMENSION \<le> x \<or> GRID_MAX_DIMENSION \<le> y) (Bound ''mouse past the largest grid'')) (\<lambda>_.
     validate_mods mods))"
| "validate_input (GridFocus focused) = Inr ()"

definition decode_input :: "(byte list \<Rightarrow> grid_input option) \<Rightarrow> byte list \<Rightarrow> grid_error + grid_input" where
  "decode_input parse bytes =
     try_bind (check_len (length bytes) GRID_MAX_INPUT_MESSAGE) (\<lambda>_.
     try_bind (check_object bytes) (\<lambda>_.
     try_bind (case parse bytes of Some m \<Rightarrow> Inr m | None \<Rightarrow> Inl BadJson) (\<lambda>m.
     try_bind (validate_input m) (\<lambda>_. Inr m))))"

definition encode_input :: "(grid_input \<Rightarrow> byte list) \<Rightarrow> grid_input \<Rightarrow> grid_error + byte list" where
  "encode_input json_of m =
     try_bind (validate_input m) (\<lambda>_.
     try_bind (check_len (length (json_of m)) GRID_MAX_INPUT_MESSAGE) (\<lambda>_. Inr (json_of m)))"

end
