(* ===== verification/Grid_Stream.thy ===== *)
theory Grid_Stream
  imports Grid
begin

text \<open>
  The rules of a grid stream that span messages (\<^verbatim>\<open>GridStreamCheck\<close> in
  \<^verbatim>\<open>crates/farhelm-proto/src/grid.rs\<close>), and the same rules stated over the stream so far
  instead of the few numbers the check keeps.
\<close>

subsection \<open>The check\<close>

record stream_check =
  sc_started :: bool
  sc_has_state :: bool
  sc_last_rev :: "nat option"
  sc_update_open :: bool
  sc_pending :: "(nat \<times> nat) list"
  sc_next_history_line :: "nat option"
  sc_clipboard :: "(clipboard_target \<times> nat) option"

definition check_new :: stream_check where
  "check_new = \<lparr>sc_started = False, sc_has_state = False, sc_last_rev = None, sc_update_open = False,
     sc_pending = [], sc_next_history_line = None, sc_clipboard = None\<rparr>"

text \<open>The ordered map of the rows buffered: its entries by row, a later one in place of an earlier.\<close>

fun put_row :: "nat \<times> nat \<Rightarrow> (nat \<times> nat) list \<Rightarrow> (nat \<times> nat) list" where
  "put_row (y, e) [] = [(y, e)]"
| "put_row (y, e) ((y', e') # rest) =
     (if y < y' then (y, e) # (y', e') # rest
      else if y = y' then (y, e) # rest
      else (y', e') # put_row (y, e) rest)"

definition extend_rows :: "screen_row list \<Rightarrow> (nat \<times> nat) list \<Rightarrow> (nat \<times> nat) list" where
  "extend_rows rows pending = fold put_row (map (\<lambda>r. (sr_y r, row_end (sr_row r))) rows) pending"

definition is_clipboard :: "grid_output \<Rightarrow> bool" where
  "is_clipboard m = (case m of GridClipboard t x l \<Rightarrow> True | _ \<Rightarrow> False)"

definition in_update :: "grid_output \<Rightarrow> bool" where
  "in_update m = (case m of GridRows r l \<Rightarrow> True | GridFrame v c r s k \<Rightarrow> True | _ \<Rightarrow> False)"

definition check_pending :: "nat \<Rightarrow> nat \<Rightarrow> (nat \<times> nat) list \<Rightarrow> grid_error + unit" where
  "check_pending cols rows pending =
     try_all (\<lambda>(y, e).
       try_bind (guard_err (rows \<le> y) (Bound ''screen row past the rows of its frame'')) (\<lambda>_.
       guard_err (cols < e) (Bound ''screen row past the columns of its frame''))) pending"

definition saturating_add :: "nat \<Rightarrow> nat \<Rightarrow> nat" where
  "saturating_add a b = min (a + b) (2 ^ 64 - 1)"

fun accept_message :: "grid_output \<Rightarrow> stream_check \<Rightarrow> (grid_error + unit) \<times> stream_check" where
  "accept_message (GridRows rows links) c =
     (Inr (), c\<lparr>sc_update_open := True, sc_pending := extend_rows rows (sc_pending c)\<rparr>)"
| "accept_message (GridFrame rev' cols rows shift cursor) c =
     (if (case sc_last_rev c of Some last' \<Rightarrow> rev' \<le> last' | None \<Rightarrow> False)
      then (Inl (Bound ''frame rev does not follow the last''), c)
      else case check_pending cols rows (sc_pending c) of
        Inl e \<Rightarrow> (Inl e, c)
      | Inr u \<Rightarrow> (Inr (), c\<lparr>sc_pending := [], sc_update_open := False, sc_last_rev := Some rev'\<rparr>))"
| "accept_message (GridHistory first' cols rows links) c =
     (if (case sc_next_history_line c of Some expected \<Rightarrow> first' \<noteq> expected | None \<Rightarrow> False)
      then (Inl (Bound ''history does not start where the last append ended''), c)
      else (Inr (), c\<lparr>sc_next_history_line := Some (saturating_add first' (length rows))\<rparr>))"
| "accept_message GridHistoryReset c = (Inr (), c\<lparr>sc_next_history_line := None\<rparr>)"
| "accept_message (GridState s) c = (Inr (), c)"
| "accept_message (GridClipboard target txt last') c =
     (case (case sc_clipboard c of
         Some (open', so_far) \<Rightarrow> if open' \<noteq> target then Inl (Bound ''a clipboard part inside a write to the other'') else Inr so_far
       | None \<Rightarrow> Inr 0) of
        Inl e \<Rightarrow> (Inl e, c)
      | Inr so_far \<Rightarrow>
          (let sum = so_far + length txt in
           if GRID_MAX_CLIPBOARD_BYTES < sum then (Inl (Bound ''clipboard write too long''), c)
           else (Inr (), c\<lparr>sc_clipboard := (if last' then None else Some (target, sum))\<rparr>)))"
| "accept_message (GridHello cols rows cap) c = undefined"

fun is_grid_hello :: "grid_output \<Rightarrow> bool" where
  "is_grid_hello (GridHello cols rows cap) = True"
| "is_grid_hello _ = False"

fun is_state :: "grid_output \<Rightarrow> bool" where
  "is_state (GridState s) = True"
| "is_state _ = False"

definition stream_accept :: "grid_output \<Rightarrow> stream_check \<Rightarrow> (grid_error + unit) \<times> stream_check" where
  "stream_accept m c =
     (if is_grid_hello m then
        (if sc_started c then (Inl (Bound ''a second hello on one attachment''), c)
         else (Inr (), c\<lparr>sc_started := True\<rparr>))
      else if \<not> sc_started c then (Inl (Bound ''a message before hello''), c)
      else if \<not> sc_has_state c then
        (if \<not> is_state m then (Inl (Bound ''a message between hello and the first state''), c)
         else (Inr (), c\<lparr>sc_has_state := True\<rparr>))
      else if sc_clipboard c \<noteq> None \<and> \<not> is_clipboard m then (Inl (Bound ''a message inside a clipboard write''), c)
      else if sc_update_open c \<and> \<not> in_update m then (Inl (Bound ''a message inside a screen update''), c)
      else accept_message m c)"

fun stream_run :: "grid_output list \<Rightarrow> stream_check \<Rightarrow> (grid_error + unit) \<times> stream_check" where
  "stream_run [] c = (Inr (), c)"
| "stream_run (m # ms) c = (case stream_accept m c of (Inl e, c') \<Rightarrow> (Inl e, c') | (Inr u, c') \<Rightarrow> stream_run ms c')"

subsection \<open>The rules over the stream so far\<close>

text \<open>What of the stream is still open: the trailing \<open>rows\<close>, and the trailing clipboard parts.\<close>

definition is_rows :: "grid_output \<Rightarrow> bool" where
  "is_rows m = (case m of GridRows r l \<Rightarrow> True | _ \<Rightarrow> False)"

definition is_part :: "grid_output \<Rightarrow> bool" where
  "is_part m = (case m of GridClipboard t x l \<Rightarrow> \<not> l | _ \<Rightarrow> False)"

definition trailing :: "(grid_output \<Rightarrow> bool) \<Rightarrow> grid_output list \<Rightarrow> grid_output list" where
  "trailing p pre = rev (takeWhile p (rev pre))"

definition row_edges :: "grid_output list \<Rightarrow> (nat \<times> nat) list" where
  "row_edges ms = concat (map (\<lambda>m. case m of
     GridRows rows l \<Rightarrow> map (\<lambda>r. (sr_y r, row_end (sr_row r))) rows | _ \<Rightarrow> []) ms)"

definition part_target :: "grid_output \<Rightarrow> clipboard_target option" where
  "part_target m = (case m of GridClipboard t x l \<Rightarrow> Some t | _ \<Rightarrow> None)"

definition part_bytes :: "grid_output \<Rightarrow> nat" where
  "part_bytes m = (case m of GridClipboard t x l \<Rightarrow> length x | _ \<Rightarrow> 0)"

definition revs :: "grid_output list \<Rightarrow> nat list" where
  "revs ms = concat (map (\<lambda>m. case m of GridFrame v c r s k \<Rightarrow> [v] | _ \<Rightarrow> []) ms)"

definition is_history :: "grid_output \<Rightarrow> bool" where
  "is_history m = (case m of GridHistory f c r l \<Rightarrow> True | GridHistoryReset \<Rightarrow> True | _ \<Rightarrow> False)"

definition history_next :: "grid_output list \<Rightarrow> nat option" where
  "history_next pre = (case find is_history (rev pre) of
     Some (GridHistory f c rows l) \<Rightarrow> Some (f + length rows) | _ \<Rightarrow> None)"

text \<open>What one message has to be, given everything before it.\<close>

definition frame_follows :: "grid_output list \<Rightarrow> nat \<Rightarrow> nat \<Rightarrow> nat \<Rightarrow> bool" where
  "frame_follows pre v cols rows \<longleftrightarrow> (\<forall>u\<in>set (revs pre). u < v)
     \<and> (let edges = row_edges (trailing is_rows pre) in
        \<forall>(y, e)\<in>set edges. map_of (rev edges) y = Some e \<longrightarrow> y < rows \<and> e \<le> cols)"

definition may_follow :: "grid_output list \<Rightarrow> grid_output \<Rightarrow> bool" where
  "may_follow pre m \<longleftrightarrow>
     (if pre = [] then is_grid_hello m
      else if length pre = 1 then is_state m
      else \<not> is_grid_hello m
        \<and> (trailing is_part pre \<noteq> [] \<longrightarrow> part_target m = part_target (hd (trailing is_part pre)))
        \<and> (trailing is_rows pre \<noteq> [] \<longrightarrow> in_update m)
        \<and> (case m of
            GridFrame v cols rows s k \<Rightarrow> frame_follows pre v cols rows
          | GridHistory f c rows l \<Rightarrow> (case history_next pre of None \<Rightarrow> True | Some n \<Rightarrow> f = n)
          | GridClipboard t x l \<Rightarrow> (\<Sum>p\<leftarrow>trailing is_part pre. part_bytes p) + length x \<le> GRID_MAX_CLIPBOARD_BYTES
          | _ \<Rightarrow> True))"

subsection \<open>The check keeps what the rules ask of the stream so far\<close>

lemma trailing_snoc [simp]: "trailing p [] = []" "trailing p (pre @ [m]) = (if p m then trailing p pre @ [m] else [])"
  by (simp_all add: trailing_def)

lemma row_edges_snoc [simp]: "row_edges [] = []"
  "row_edges (ms @ [m]) = row_edges ms @ (case m of GridRows rows l \<Rightarrow> map (\<lambda>r. (sr_y r, row_end (sr_row r))) rows | _ \<Rightarrow> [])"
  by (simp_all add: row_edges_def)

lemma revs_snoc [simp]: "revs [] = []" "revs (ms @ [m]) = revs ms @ (case m of GridFrame v c r s k \<Rightarrow> [v] | _ \<Rightarrow> [])"
  by (simp_all add: revs_def)

lemma history_next_snoc [simp]: "history_next [] = None"
  "history_next (pre @ [m]) = (case m of GridHistory f c rows l \<Rightarrow> Some (f + length rows)
     | GridHistoryReset \<Rightarrow> None | _ \<Rightarrow> history_next pre)"
  by (auto simp: history_next_def is_history_def split: grid_output.splits)

definition ordered :: "(nat \<times> nat) list \<Rightarrow> bool" where
  "ordered p \<longleftrightarrow> sorted_wrt (<) (map fst p)"

lemma ordered_Nil [simp]: "ordered []"
  by (simp add: ordered_def)

lemma put_row_keys: "fst ` set (put_row (y, e) p) = insert y (fst ` set p)"
  by (induction "(y, e)" p rule: put_row.induct) auto

lemma put_row_ordered: "ordered p \<Longrightarrow> ordered (put_row (y, e) p)"
proof (induction "(y, e)" p rule: put_row.induct)
  case (2 y' e' rest)
  have keys: "\<forall>k\<in>fst ` set (put_row (y, e) rest). y' < k" if "y' < y"
    using 2 that unfolding put_row_keys by (auto simp: ordered_def)
  show ?case using 2 keys by (auto simp: ordered_def)
qed (simp add: ordered_def)

lemma put_row_map: "ordered p \<Longrightarrow> map_of (put_row (y, e) p) = (map_of p)(y \<mapsto> e)"
proof (induction "(y, e)" p rule: put_row.induct)
  case (2 y' e' rest)
  then show ?case by (auto simp: ordered_def fun_eq_iff)
qed simp

lemma extend_rows_map:
  "ordered p \<Longrightarrow> ordered (extend_rows rows p)
    \<and> map_of (extend_rows rows p) = map_of p ++ map_of (rev (map (\<lambda>r. (sr_y r, row_end (sr_row r))) rows))"
  by (induction rows arbitrary: p) (simp_all add: extend_rows_def put_row_ordered put_row_map map_add_upd_left)

lemma ordered_entry: "ordered p \<Longrightarrow> (y, e) \<in> set p \<longleftrightarrow> map_of p y = Some e"
  unfolding ordered_def by (metis distinct_map map_of_eq_Some_iff strict_sorted_iff)

lemma check_pending_ok: "check_pending cols rows p = Inr u \<longleftrightarrow> (\<forall>(y, e)\<in>set p. y < rows \<and> e \<le> cols)"
  by (auto simp: check_pending_def try_all_eq_Inr try_bind_eq_Inr)

definition clip_ok :: "grid_output list \<Rightarrow> (clipboard_target \<times> nat) option \<Rightarrow> bool" where
  "clip_ok parts clip \<longleftrightarrow> (case clip of None \<Rightarrow> parts = []
     | Some (t, n) \<Rightarrow> parts \<noteq> [] \<and> (\<forall>p\<in>set parts. part_target p = Some t) \<and> n = (\<Sum>p\<leftarrow>parts. part_bytes p))"

lemma clip_ok_Nil [simp]: "clip_ok [] clip \<longleftrightarrow> clip = None"
  by (simp add: clip_ok_def split: option.split)

definition checks :: "grid_output list \<Rightarrow> stream_check \<Rightarrow> bool" where
  "checks pre c \<longleftrightarrow> sc_started c = (pre \<noteq> []) \<and> sc_has_state c = (2 \<le> length pre)
     \<and> sorted_wrt (<) (revs pre) \<and> sc_last_rev c = (if revs pre = [] then None else Some (last (revs pre)))
     \<and> sc_update_open c = (trailing is_rows pre \<noteq> [])
     \<and> ordered (sc_pending c) \<and> map_of (sc_pending c) = map_of (rev (row_edges (trailing is_rows pre)))
     \<and> sc_next_history_line c = history_next pre
     \<and> clip_ok (trailing is_part pre) (sc_clipboard c)"

lemma checks_new: "checks [] check_new"
  by (simp add: checks_def check_new_def ordered_def)

lemmas kinds = is_rows_def is_part_def is_clipboard_def in_update_def

lemma revs_less: "sorted_wrt (<) (revs pre) \<Longrightarrow> revs pre \<noteq> [] \<Longrightarrow> (\<forall>u\<in>set (revs pre). u < v) \<longleftrightarrow> last (revs pre) < v"
proof -
  assume s: "sorted_wrt (<) (revs pre)" and n: "revs pre \<noteq> []"
  have "sorted_wrt (<) (butlast (revs pre) @ [last (revs pre)])" using s n by simp
  then have b: "\<forall>u\<in>set (butlast (revs pre)). u < last (revs pre)" unfolding sorted_wrt_append by simp
  have "set (revs pre) = set (butlast (revs pre) @ [last (revs pre)])" using n by simp
  also have "\<dots> = insert (last (revs pre)) (set (butlast (revs pre)))" by simp
  finally show ?thesis using b by (metis insertCI insertE less_trans)
qed

lemma frame_step:
  assumes "checks pre c" "2 \<le> length pre" "trailing is_part pre = []"
    and "accept_message (GridFrame v cols rows shift cursor) c = (r, c')"
  shows "(r = Inr () \<longleftrightarrow> frame_follows pre v cols rows)
    \<and> (r = Inr () \<longrightarrow> checks (pre @ [GridFrame v cols rows shift cursor]) c') \<and> (r \<noteq> Inr () \<longrightarrow> c' = c)"
proof -
  have C: "sorted_wrt (<) (revs pre)" "sc_last_rev c = (if revs pre = [] then None else Some (last (revs pre)))"
    "ordered (sc_pending c)" "map_of (sc_pending c) = map_of (rev (row_edges (trailing is_rows pre)))"
    using assms(1) by (simp_all add: checks_def)
  have late: "(case sc_last_rev c of Some last' \<Rightarrow> v \<le> last' | None \<Rightarrow> False) \<longleftrightarrow> \<not> (\<forall>u\<in>set (revs pre). u < v)"
    using C(2) revs_less [OF C(1), of v] by (cases "revs pre = []") auto
  have "(y, e) \<in> set (sc_pending c) \<longleftrightarrow> (y, e) \<in> set (row_edges (trailing is_rows pre))
      \<and> map_of (rev (row_edges (trailing is_rows pre))) y = Some e" for y e
    using ordered_entry [OF C(3)] C(4) map_of_SomeD [of "rev (row_edges (trailing is_rows pre))" y e] by auto
  then have pend: "check_pending cols rows (sc_pending c) = Inr () \<longleftrightarrow>
      (\<forall>(y, e)\<in>set (row_edges (trailing is_rows pre)).
        map_of (rev (row_edges (trailing is_rows pre))) y = Some e \<longrightarrow> y < rows \<and> e \<le> cols)"
    unfolding check_pending_ok by blast
  have sorted: "sorted_wrt (<) (revs pre @ [v])" if "\<forall>u\<in>set (revs pre). u < v"
    using C(1) that by (simp add: sorted_wrt_append)
  show ?thesis
    using assms late pend sorted
    by (cases "check_pending cols rows (sc_pending c)")
      (auto simp: frame_follows_def Let_def checks_def kinds ordered_def split: if_splits)
qed

lemma part_simps [simp]: "part_target (GridClipboard t x l) = Some t" "part_bytes (GridClipboard t x l) = length x"
  by (simp_all add: part_target_def part_bytes_def)

lemma open_part: "trailing is_part pre \<noteq> [] \<Longrightarrow> \<exists>t. part_target (hd (trailing is_part pre)) = Some t"
proof -
  assume "trailing is_part pre \<noteq> []"
  then have "is_part (hd (trailing is_part pre))"
    unfolding trailing_def by (metis hd_in_set set_rev set_takeWhileD)
  then show ?thesis by (auto simp: is_part_def split: grid_output.splits)
qed

lemma clipboard_step:
  assumes "checks pre c" "2 \<le> length pre" "trailing is_rows pre = []"
    and "accept_message (GridClipboard t x l) c = (r, c')"
  shows "(r = Inr () \<longleftrightarrow> (trailing is_part pre \<noteq> [] \<longrightarrow> Some t = part_target (hd (trailing is_part pre)))
      \<and> (\<Sum>p\<leftarrow>trailing is_part pre. part_bytes p) + length x \<le> GRID_MAX_CLIPBOARD_BYTES)
    \<and> (r = Inr () \<longrightarrow> checks (pre @ [GridClipboard t x l]) c') \<and> (r \<noteq> Inr () \<longrightarrow> c' = c)"
proof (cases "sc_clipboard c")
  case None
  moreover from this have "trailing is_part pre = []" using assms(1) by (simp add: checks_def clip_ok_def)
  ultimately show ?thesis
    using assms by (auto simp: checks_def kinds Let_def clip_ok_def split: if_splits)
next
  case (Some tn)
  then obtain t' n where tn: "sc_clipboard c = Some (t', n)" by (cases tn) auto
  then have T: "trailing is_part pre \<noteq> []" "\<forall>p\<in>set (trailing is_part pre). part_target p = Some t'"
    "n = (\<Sum>p\<leftarrow>trailing is_part pre. part_bytes p)"
    using assms(1) by (simp_all add: checks_def clip_ok_def)
  then have "part_target (hd (trailing is_part pre)) = Some t'" by simp
  then show ?thesis
    using assms tn T by (auto simp: checks_def kinds Let_def clip_ok_def split: if_splits)
qed

lemma history_saturates: "validate_output (GridHistory f cols rows links) = Inr () \<Longrightarrow> saturating_add f (length rows) = f + length rows"
  by (auto simp: saturating_add_def try_bind_eq_Inr GRID_MAX_LINE_NUMBER_def)

lemma checks_sel:
  assumes "checks pre c"
  shows "sc_started c = (pre \<noteq> [])" "sc_has_state c = (2 \<le> length pre)"
    "sc_update_open c = (trailing is_rows pre \<noteq> [])" "sc_clipboard c = None \<longleftrightarrow> trailing is_part pre = []"
proof -
  show "sc_clipboard c = None \<longleftrightarrow> trailing is_part pre = []"
    using assms by (auto simp: checks_def clip_ok_def split: option.splits)
qed (use assms in \<open>simp_all add: checks_def\<close>)

lemma rows_step:
  assumes "checks pre c" "2 \<le> length pre" "trailing is_part pre = []"
  shows "checks (pre @ [GridRows rows links]) (c\<lparr>sc_update_open := True, sc_pending := extend_rows rows (sc_pending c)\<rparr>)"
proof -
  have "pre \<noteq> []" using assms(2) by auto
  then show ?thesis
    using assms extend_rows_map [of "sc_pending c" rows] by (simp add: checks_def kinds)
qed

lemma other_step:
  assumes "checks pre c" "2 \<le> length pre" "trailing is_part pre = []" "trailing is_rows pre = []"
  shows "checks (pre @ [GridHistoryReset]) (c\<lparr>sc_next_history_line := None\<rparr>)"
    "checks (pre @ [GridState s]) c"
    "checks (pre @ [GridHistory f cols rows links]) (c\<lparr>sc_next_history_line := Some (f + length rows)\<rparr>)"
proof -
  have "pre \<noteq> []" using assms(2) by auto
  then show "checks (pre @ [GridHistoryReset]) (c\<lparr>sc_next_history_line := None\<rparr>)"
    "checks (pre @ [GridState s]) c"
    "checks (pre @ [GridHistory f cols rows links]) (c\<lparr>sc_next_history_line := Some (f + length rows)\<rparr>)"
    using assms by (simp_all add: checks_def kinds)
qed

lemma only_hello:
  "is_grid_hello m \<Longrightarrow> trailing is_rows [m] = [] \<and> trailing is_part [m] = [] \<and> revs [m] = [] \<and> history_next [m] = None"
  by (cases m) (simp_all add: trailing_def kinds revs_def history_next_def is_history_def)

lemma opening_step:
  assumes "checks pre c"
  shows "pre = [] \<Longrightarrow> is_grid_hello m \<Longrightarrow> checks [m] (c\<lparr>sc_started := True\<rparr>)"
    "length pre = 1 \<Longrightarrow> is_state m \<Longrightarrow> trailing is_rows pre = [] \<Longrightarrow> trailing is_part pre = [] \<Longrightarrow>
      checks (pre @ [m]) (c\<lparr>sc_has_state := True\<rparr>)"
proof -
  show "checks [m] (c\<lparr>sc_started := True\<rparr>)" if "pre = []" "is_grid_hello m"
    using assms only_hello [OF that(2)] that(1) by (simp add: checks_def)
  show "checks (pre @ [m]) (c\<lparr>sc_has_state := True\<rparr>)"
    if l: "length pre = 1" and st: "is_state m" and none: "trailing is_rows pre = []" "trailing is_part pre = []"
  proof -
    obtain s where "m = GridState s" using st by (cases m) auto
    moreover have "pre \<noteq> []" using l by auto
    ultimately show ?thesis using assms l none by (simp add: checks_def kinds)
  qed
qed

lemma stream_step:
  assumes C: "checks pre c" and go: "stream_accept m c = (r, c')" and ok: "validate_output m = Inr ()"
    and one: "length pre = 1 \<Longrightarrow> is_grid_hello (hd pre)"
  shows "(r = Inr () \<longleftrightarrow> may_follow pre m) \<and> (r = Inr () \<longrightarrow> checks (pre @ [m]) c') \<and> (r \<noteq> Inr () \<longrightarrow> c' = c)"
proof -
  note S = checks_sel [OF C]
  consider "pre = []" | "length pre = 1" | "2 \<le> length pre" by (cases pre; cases "tl pre") auto
  then show ?thesis
  proof cases
    case 1
    then show ?thesis
      using go S opening_step(1) [OF C, of m] by (auto simp: stream_accept_def may_follow_def split: if_splits)
  next
    case 2
    then obtain x where x: "pre = [x]" "is_grid_hello x" using one by (cases pre) auto
    have "trailing is_rows pre = []" "trailing is_part pre = []"
      using x by (cases x; simp add: trailing_def kinds)+
    moreover have "is_state m \<Longrightarrow> \<not> is_grid_hello m" by (cases m) auto
    ultimately show ?thesis
      using 2 go S opening_step(2) [OF C, of m] by (auto simp: stream_accept_def may_follow_def split: if_splits)
  next
    case 3
    then have mf: "may_follow pre m \<longleftrightarrow> \<not> is_grid_hello m
        \<and> (trailing is_part pre \<noteq> [] \<longrightarrow> part_target m = part_target (hd (trailing is_part pre)))
        \<and> (trailing is_rows pre \<noteq> [] \<longrightarrow> in_update m)
        \<and> (case m of
            GridFrame v cols rows s k \<Rightarrow> frame_follows pre v cols rows
          | GridHistory f c rows l \<Rightarrow> (case history_next pre of None \<Rightarrow> True | Some n \<Rightarrow> f = n)
          | GridClipboard t x l \<Rightarrow> (\<Sum>p\<leftarrow>trailing is_part pre. part_bytes p) + length x \<le> GRID_MAX_CLIPBOARD_BYTES
          | _ \<Rightarrow> True)"
      by (auto simp: may_follow_def)
    have started: "sc_started c" "sc_has_state c" using S(1,2) 3 by auto
    show ?thesis
    proof (cases "is_grid_hello m \<or> trailing is_part pre \<noteq> [] \<and> \<not> is_clipboard m \<or> trailing is_rows pre \<noteq> [] \<and> \<not> in_update m")
      case True
      have "part_target m \<noteq> part_target (hd (trailing is_part pre))"
        if "trailing is_part pre \<noteq> []" "\<not> is_clipboard m"
        using open_part [OF that(1)] that(2) by (cases m) (auto simp: part_target_def is_clipboard_def)
      then have "\<not> may_follow pre m" unfolding mf using True by blast
      moreover have "c' = c \<and> (\<exists>e. r = Inl e)"
        using go started S(3,4) True by (auto simp: stream_accept_def split: if_splits)
      ultimately show ?thesis by auto
    next
      case False
      then have a: "accept_message m c = (r, c')"
        using go started S(3,4) by (auto simp: stream_accept_def)
      show ?thesis
      proof (cases m)
        case (GridRows rows links)
        then show ?thesis using False a mf rows_step [OF C 3] by (auto simp: kinds)
      next
        case (GridFrame v cols rows s k)
        then have "trailing is_part pre = []" using False by (simp add: kinds)
        then show ?thesis
          using mf frame_step [OF C 3 _ a [unfolded GridFrame]] GridFrame by (auto simp: kinds)
      next
        case (GridHistory f cols rows links)
        then have none: "trailing is_part pre = []" "trailing is_rows pre = []" using False by (auto simp: kinds)
        have "sc_next_history_line c = history_next pre" using C by (simp add: checks_def)
        then show ?thesis
          using mf a GridHistory none other_step(3) [OF C 3 none] history_saturates ok
          by (cases "history_next pre") (auto split: if_splits)
      next
        case GridHistoryReset
        then show ?thesis using False a mf other_step(1) [OF C 3] by (auto simp: kinds)
      next
        case (GridState s)
        then show ?thesis using False a mf other_step(2) [OF C 3] by (auto simp: kinds)
      next
        case (GridClipboard t x l)
        then have "trailing is_rows pre = []" using False by (auto simp: kinds)
        then show ?thesis
          using mf clipboard_step [OF C 3 _ a [unfolded GridClipboard]] GridClipboard by auto
      next
        case (GridHello cols rows cap)
        then show ?thesis using False by simp
      qed
    qed
  qed
qed

end
