(* ===== verification/Grid_Properties.thy ===== *)
theory Grid_Properties
  imports Grid_Stream
begin

text \<open>
  What the grid format promises: exact wire forms, rows that fit their screen, messages checked
  in both directions, and a stream check that accepts exactly the streams its rules allow, in
  bounded memory.
\<close>

subsection \<open>Wire forms\<close>

lemma rgb_bounds: "0 \<le> uint (b :: byte)" "uint b \<le> 255"
  using uint_lt2p [of b] by simp_all

lemma disjoint_or: "0 \<le> (x :: int) \<Longrightarrow> x < 2 ^ n \<Longrightarrow> push_bit n y OR x = y * 2 ^ n + x"
proof -
  assume "0 \<le> x" "x < 2 ^ n"
  then have x: "take_bit n x = x" by (simp add: take_bit_int_eq_self)
  have "\<not> bit (push_bit n y) k \<or> \<not> bit x k" for k
    using x bit_take_bit_iff [of n x k] by (auto simp: bit_push_bit_iff)
  then have "push_bit n y + x = push_bit n y OR x" by (rule disjunctive_add)
  then show ?thesis by (simp add: push_bit_eq_mult)
qed

lemma to_wire_rgb: "to_wire (Rgb r g b) = DIRECT_COLOR_BASE + uint r * 65536 + uint g * 256 + uint b"
proof -
  have gb: "push_bit 8 (uint g) OR uint b = uint g * 256 + uint b"
    using disjoint_or [of "uint b" 8 "uint g"] rgb_bounds [of b] by simp
  have "push_bit 16 (uint r) OR (uint g * 256 + uint b) = uint r * 65536 + (uint g * 256 + uint b)"
    using disjoint_or [of "uint g * 256 + uint b" 16 "uint r"] rgb_bounds [of b] rgb_bounds [of g] by simp
  then show ?thesis using gb by (simp add: or.assoc)
qed

text \<open>The three bytes of a number below \<open>2 ^ 24\<close>.\<close>

lemma three_bytes:
  fixes j x y z :: int
  assumes "0 \<le> x" "x \<le> 255" "0 \<le> y" "y \<le> 255" "0 \<le> z" "z \<le> 255"
  shows "0 \<le> j \<and> j < 16777216 \<and> j div 65536 mod 256 = x \<and> j div 256 mod 256 = y \<and> j mod 256 = z
    \<longleftrightarrow> j = x * 65536 + y * 256 + z"
proof -
  have d: "j div 65536 = j div 256 div 256" by (simp add: div_mult2_eq)
  show ?thesis
  proof
    assume a: "0 \<le> j \<and> j < 16777216 \<and> j div 65536 mod 256 = x \<and> j div 256 mod 256 = y \<and> j mod 256 = z"
    then have "0 \<le> j div 65536" "j div 65536 < 256" by linarith+
    then have "j div 65536 = x" using a by simp
    moreover have "j div 256 = j div 65536 * 256 + y" using a d by (metis div_mult_mod_eq)
    moreover have "j = j div 256 * 256 + z" using a by (metis div_mult_mod_eq)
    ultimately show "j = x * 65536 + y * 256 + z" by linarith
  next
    assume j: "j = x * 65536 + y * 256 + z"
    have split: "j = z + (x * 256 + y) * 256" using j by simp
    have "j mod 256 = z" unfolding split using assms by (simp only: mod_mult_self1) simp
    moreover have b: "j div 256 = y + x * 256" unfolding split using assms by (simp add: div_mult_self1)
    moreover have "j div 65536 = x" unfolding d b using assms by (simp add: div_mult_self1)
    moreover have "j div 256 mod 256 = y" unfolding b using assms by (simp only: mod_mult_self1) simp
    moreover have "0 \<le> j" "j < 16777216" using j assms by linarith+
    ultimately show "0 \<le> j \<and> j < 16777216 \<and> j div 65536 mod 256 = x \<and> j div 256 mod 256 = y \<and> j mod 256 = z"
      using assms by simp
  qed
qed

lemma word_byte: "word_of_int k = (b :: byte) \<longleftrightarrow> k mod 256 = uint b"
  by (auto simp: word_uint_eq_iff uint_word_of_int)

lemma color_exact: "from_wire i = Some c \<longleftrightarrow> i = to_wire c"
proof (cases c)
  case DefaultColor
  then show ?thesis by (auto simp: from_wire_def Let_def)
next
  case (Palette p)
  have "from_wire i = Some (Palette p) \<longleftrightarrow> 0 \<le> i \<and> i \<le> 255 \<and> word_of_int i = p"
    by (auto simp: from_wire_def Let_def)
  also have "\<dots> \<longleftrightarrow> i = uint p"
    using rgb_bounds [of p] by (auto simp: uint_word_of_int)
  finally show ?thesis using Palette by simp
next
  case (Rgb r g b)
  define j where "j = i - DIRECT_COLOR_BASE"
  have "from_wire i = Some (Rgb r g b) \<longleftrightarrow> 0 \<le> j \<and> j < 16777216
      \<and> word_of_int (j div 65536) = r \<and> word_of_int (j div 256) = g \<and> word_of_int j = b"
    by (auto simp: from_wire_def Let_def j_def DIRECT_COLOR_BASE_def drop_bit_eq_div)
  also have "\<dots> \<longleftrightarrow> j = uint r * 65536 + uint g * 256 + uint b"
    unfolding word_byte by (rule three_bytes) (use rgb_bounds in auto)
  finally show ?thesis unfolding Rgb to_wire_rgb j_def by linarith
qed

lemma json_u16_exact: "json_u16 v = Some n \<longleftrightarrow> v = JInt (int n) \<and> n < 65536"
  by (cases v) (auto simp: json_u16_def)

lemma json_color_exact: "deserialize_color v = Some c \<longleftrightarrow> v = serialize_color c"
  by (cases v) (auto simp: deserialize_color_def serialize_color_def color_exact)

lemma json_text_exact: "json_text v = Some t \<longleftrightarrow> v = JText t"
  by (cases v) (auto simp: json_text_def)

lemma json_seq_exact: "json_seq v = Some vs \<longleftrightarrow> v = JArray vs"
  by (cases v) (auto simp: json_seq_def)

lemma required_exact:
  "required conv vs = Some (x, rest) \<longleftrightarrow> (\<exists>v. vs = v # rest \<and> conv v = Some x)"
  by (cases vs) (auto simp: required_def)

lemma next_element_exact:
  "next_element conv vs = Some (x, rest) \<longleftrightarrow>
    (case x of None \<Rightarrow> vs = [] \<and> rest = [] | Some y \<Rightarrow> \<exists>v. vs = v # rest \<and> conv v = Some y)"
  by (cases vs) (auto simp: next_element_def split: option.split)

lemma no_more_exact: "no_more vs = Some u \<longleftrightarrow> vs = []"
  by (simp add: no_more_def)

lemmas visit_exact = bind_eq_Some_conv required_exact next_element_exact no_more_exact
  json_u16_exact json_color_exact json_text_exact json_seq_exact

lemma style_exact: "deserialize_style v = Some s \<longleftrightarrow> v = serialize_style s \<and> st_flags s < 65536"
proof -
  have "visit_style vs = Some s \<longleftrightarrow> JArray vs = serialize_style s \<and> st_flags s < 65536" for vs
    by (cases s; cases "st_underline s")
      (auto simp: visit_style_def serialize_style_def visit_exact split: prod.splits)
  then show ?thesis by (auto simp: deserialize_style_def visit_exact serialize_style_def)
qed

text \<open>
  C30: A JSON array decodes to a run exactly when it is the array that run encodes to and its
  numbers fit their types: nothing else is accepted, no array has two meanings, and the style,
  its colors and whether the underline color and the link were sent survive the round trip.
\<close>

theorem run_wire_exact:
  "deserialize_run v = Some r \<longleftrightarrow> v = serialize_run r \<and> rn_col r < 65536 \<and> rn_width r < 65536
    \<and> st_flags (rn_style r) < 65536 \<and> (rn_link r \<noteq> None \<longrightarrow> the (rn_link r) < 65536)"
proof -
  have "visit_run vs = Some r \<longleftrightarrow> JArray vs = serialize_run r \<and> rn_col r < 65536 \<and> rn_width r < 65536
      \<and> st_flags (rn_style r) < 65536 \<and> (rn_link r \<noteq> None \<longrightarrow> the (rn_link r) < 65536)" for vs
    by (cases r; cases "rn_link r")
      (auto simp: visit_run_def serialize_run_def visit_exact style_exact split: prod.splits)
  then show ?thesis by (auto simp: deserialize_run_def visit_exact serialize_run_def)
qed

definition grid_run_sample :: grid_run where
  "grid_run_sample = \<lparr>rn_col = 3, rn_width = 2, rn_text = [104, 105], rn_style = style_plain, rn_link = Some 0\<rparr>"

lemma run_wire_exact_witness: "deserialize_run (serialize_run grid_run_sample) = Some grid_run_sample"
  using run_wire_exact [of "serialize_run grid_run_sample" grid_run_sample] by (simp add: grid_run_sample_def style_plain_def)

subsection \<open>Rows fit their screen\<close>

lemma validate_run_ok:
  assumes "validate_run w n r = Inr ()"
  shows "0 < rn_width r" "run_end r \<le> w" "length (rn_text r) \<le> GRID_MAX_CELL_TEXT_BYTES * rn_width r"
    "plain_ascii (rn_text r) \<Longrightarrow> length (rn_text r) = rn_width r" "\<not> plain_ascii (rn_text r) \<Longrightarrow> rn_width r \<le> 2"
    "rn_text r \<noteq> []" "rn_link r = Some l \<Longrightarrow> l < n"
  using assms by (auto simp: validate_run_def try_bind_eq_Inr split: option.splits)

lemma validate_runs_ok:
  "validate_runs w n next_free rs = Inr () \<Longrightarrow> next_free \<le> w \<Longrightarrow>
    sorted_wrt (\<lambda>a b. run_end a \<le> rn_col b) rs \<and> (\<forall>r\<in>set rs. validate_run w n r = Inr () \<and> next_free \<le> rn_col r)
    \<and> (\<Sum>r\<leftarrow>rs. rn_width r) \<le> w - next_free"
proof (induction w n next_free rs rule: validate_runs.induct)
  case (2 w n next_free r rs)
  then have r: "next_free \<le> rn_col r" "validate_run w n r = Inr ()" "validate_runs w n (run_end r) rs = Inr ()"
    by (auto simp: try_bind_eq_Inr)
  note R = validate_run_ok(2) [OF r(2)]
  have IH: "sorted_wrt (\<lambda>a b. run_end a \<le> rn_col b) rs"
    "\<forall>q\<in>set rs. validate_run w n q = Inr () \<and> run_end r \<le> rn_col q" "(\<Sum>r\<leftarrow>rs. rn_width r) \<le> w - run_end r"
    using "2.IH" r R by auto
  have "next_free \<le> rn_col q" if "q \<in> set rs" for q
    using IH(2) that r(1) by (fastforce simp: run_end_def)
  then show ?case using IH r R by (auto simp: run_end_def)
qed simp

text \<open>
  A row that passes its check paints disjoint stretches of the row, in increasing order and
  inside its width; together they cover at most that many cells with at most 68 bytes of text a
  cell, and every link a run names is one the message carries.
\<close>

theorem row_fits:
  assumes "validate_row w n row = Inr ()"
  shows "sorted_wrt (\<lambda>a b. run_end a \<le> rn_col b) (rw_runs row)
    \<and> (\<forall>r\<in>set (rw_runs row). 0 < rn_width r \<and> run_end r \<le> w \<and> (\<forall>l. rn_link r = Some l \<longrightarrow> l < n))
    \<and> (\<Sum>r\<leftarrow>rw_runs row. rn_width r) \<le> w \<and> (\<Sum>r\<leftarrow>rw_runs row. length (rn_text r)) \<le> 68 * w
    \<and> row_end row \<le> w"
proof -
  have V: "sorted_wrt (\<lambda>a b. run_end a \<le> rn_col b) (rw_runs row)"
    "\<forall>r\<in>set (rw_runs row). validate_run w n r = Inr ()" "(\<Sum>r\<leftarrow>rw_runs row. rn_width r) \<le> w"
    using validate_runs_ok [of w n 0 "rw_runs row"] assms by (auto simp: validate_row_def)
  have "\<forall>r\<in>set rs. length (rn_text r) \<le> 68 * rn_width r \<Longrightarrow> (\<Sum>r\<leftarrow>rs. length (rn_text r)) \<le> 68 * (\<Sum>r\<leftarrow>rs. rn_width r)" for rs
    by (induction rs) auto
  moreover have "\<forall>r\<in>set (rw_runs row). length (rn_text r) \<le> 68 * rn_width r"
    using V(2) validate_run_ok(3) by (fastforce simp: GRID_MAX_CELL_TEXT_BYTES_def)
  ultimately have "(\<Sum>r\<leftarrow>rw_runs row. length (rn_text r)) \<le> 68 * (\<Sum>r\<leftarrow>rw_runs row. rn_width r)" by blast
  then have "(\<Sum>r\<leftarrow>rw_runs row. length (rn_text r)) \<le> 68 * w" using V(3) by linarith
  moreover have "row_end row \<le> w"
    using V(2) validate_run_ok(2) last_in_set [of "rw_runs row"] by (fastforce simp: row_end_def)
  ultimately show ?thesis using V validate_run_ok(1,2,7) by blast
qed

lemma row_fits_witness:
  "row_end \<lparr>rw_wraps = False, rw_runs = [grid_run_sample]\<rparr> \<le> 5"
proof -
  have "validate_row 5 1 \<lparr>rw_wraps = False, rw_runs = [grid_run_sample]\<rparr> = Inr ()"
    by (simp add: validate_row_def validate_run_def grid_run_sample_def run_end_def plain_ascii_def
        GRID_MAX_CELL_TEXT_BYTES_def)
  from row_fits [OF this] show ?thesis by blast
qed

subsection \<open>Messages\<close>

text \<open>
  The bounds of the format, written out: what a row, links, a message to the client and a message
  to the supervisor have to be.
\<close>

definition sound_run :: "nat \<Rightarrow> nat \<Rightarrow> grid_run \<Rightarrow> bool" where
  "sound_run width links r \<longleftrightarrow> 0 < rn_width r \<and> rn_col r + rn_width r \<le> width
     \<and> 0 < length (rn_text r) \<and> length (rn_text r) \<le> 68 * rn_width r
     \<and> (if \<forall>b\<in>set (rn_text r). 32 \<le> unat b \<and> unat b \<le> 126 then length (rn_text r) = rn_width r else rn_width r \<le> 2)
     \<and> (case rn_link r of None \<Rightarrow> True | Some l \<Rightarrow> l < links)"

definition sound_row :: "nat \<Rightarrow> nat \<Rightarrow> grid_row \<Rightarrow> bool" where
  "sound_row width links row \<longleftrightarrow> list_all (sound_run width links) (rw_runs row)
     \<and> sorted_wrt (\<lambda>a b. rn_col a + rn_width a \<le> rn_col b) (rw_runs row)"

definition sound_links :: "grid_link list \<Rightarrow> bool" where
  "sound_links links \<longleftrightarrow> length links \<le> 256 \<and> list_all (\<lambda>l. length (lk_id l) \<le> 250 \<and> length (lk_uri l) \<le> 2083) links"

fun sound_output :: "grid_output \<Rightarrow> bool" where
  "sound_output (GridHello cols rows history_cap) \<longleftrightarrow> cols \<in> {1..1000} \<and> rows \<in> {1..1000} \<and> history_cap \<le> 100000"
| "sound_output (GridRows rows links) \<longleftrightarrow> sound_links links
     \<and> list_all (\<lambda>r. sr_y r < 1000 \<and> sound_row 1000 (length links) (sr_row r)) rows"
| "sound_output (GridFrame rev' cols rows shift cursor) \<longleftrightarrow> cols \<in> {1..1000} \<and> rows \<in> {1..1000} \<and> rev' < 2 ^ 53
     \<and> shift \<le> rows \<and> gc_x cursor < cols \<and> gc_y cursor < rows"
| "sound_output (GridHistory first' cols rows links) \<longleftrightarrow> cols \<in> {1..1000} \<and> sound_links links
     \<and> first' < 2 ^ 53 \<and> first' + length rows \<le> 2 ^ 53 \<and> list_all (sound_row cols (length links)) rows"
| "sound_output GridHistoryReset \<longleftrightarrow> True"
| "sound_output (GridClipboard target txt last') \<longleftrightarrow> length txt \<le> 524288"
| "sound_output (GridState state) \<longleftrightarrow>
     list_all (\<lambda>c. case c of None \<Rightarrow> True | Some (Rgb r g b) \<Rightarrow> True | Some _ \<Rightarrow> False) [ts_default_fg state, ts_default_bg state]"

fun sound_input :: "grid_input \<Rightarrow> bool" where
  "sound_input (GridKey key code kc mods mac) \<longleftrightarrow> length key \<le> 64 \<and> length code \<le> 64 \<and> unat mods < 16"
| "sound_input (GridText txt) \<longleftrightarrow> length txt \<le> 16384"
| "sound_input (GridPaste txt last') \<longleftrightarrow> length txt \<le> 32768"
| "sound_input (GridMouse kind button x y mods) \<longleftrightarrow> (if kind = MouseMove then - 1 else 0) \<le> button
     \<and> button \<le> (if kind = MouseWheel then 1 else 2) \<and> x < 1000 \<and> y < 1000 \<and> unat mods < 16"
| "sound_input (GridFocus focused) \<longleftrightarrow> True"

definition opens_object :: "byte list \<Rightarrow> bool" where
  "opens_object bs \<longleftrightarrow> (\<exists>blanks rest. bs = blanks @ 123 # rest \<and> set blanks \<subseteq> {32, 9, 10, 13})"

lemma check_object_exact: "check_object bs = Inr () \<longleftrightarrow> opens_object bs"
proof (induction bs)
  case Nil
  then show ?case by (simp add: check_object_def opens_object_def)
next
  case (Cons b bs)
  show ?case
  proof (cases "b \<in> {32, 9, 10, 13}")
    case True
    then have "check_object (b # bs) = check_object bs" by (auto simp: check_object_def)
    moreover have "opens_object (b # bs) \<longleftrightarrow> opens_object bs"
    proof
      assume "opens_object (b # bs)"
      then obtain blanks rest where B: "b # bs = blanks @ 123 # rest" "set blanks \<subseteq> {32, 9, 10, 13}"
        unfolding opens_object_def by blast
      then obtain blanks' where "blanks = b # blanks'" using True by (cases blanks) auto
      then show "opens_object bs" using B unfolding opens_object_def by (intro exI [of _ blanks'] exI [of _ rest]) auto
    next
      assume "opens_object bs"
      then obtain blanks rest where "bs = blanks @ 123 # rest" "set blanks \<subseteq> {32, 9, 10, 13}"
        unfolding opens_object_def by blast
      then show "opens_object (b # bs)"
        using True unfolding opens_object_def by (intro exI [of _ "b # blanks"] exI [of _ rest]) auto
    qed
    ultimately show ?thesis using Cons.IH by simp
  next
    case False
    have "opens_object (b # bs) \<longleftrightarrow> b = 123"
    proof
      assume "opens_object (b # bs)"
      then obtain blanks rest where "b # bs = blanks @ 123 # rest" "set blanks \<subseteq> {32, 9, 10, 13}"
        unfolding opens_object_def by blast
      then show "b = 123" using False by (cases blanks) auto
    qed (auto simp: opens_object_def intro: exI [of _ "[]"])
    then show ?thesis using False by (simp add: check_object_def)
  qed
qed

lemma validate_run_exact: "validate_run w n r = Inr () \<longleftrightarrow> sound_run w n r"
proof -
  have p: "plain_ascii bs \<longleftrightarrow> (\<forall>b\<in>set bs. 32 \<le> unat b \<and> unat b \<le> 126)" for bs
    by (fastforce simp: plain_ascii_def)
  show ?thesis
    unfolding sound_run_def p [symmetric]
    by (auto simp: validate_run_def run_end_def try_bind_eq_Inr GRID_MAX_CELL_TEXT_BYTES_def split: option.splits)
qed

lemma validate_runs_exact:
  "validate_runs w n next_free rs = Inr () \<longleftrightarrow> list_all (sound_run w n) rs
    \<and> sorted_wrt (\<lambda>a b. rn_col a + rn_width a \<le> rn_col b) rs \<and> list_all (\<lambda>r. next_free \<le> rn_col r) rs"
proof (induction w n next_free rs rule: validate_runs.induct)
  case (2 w n next_free r rs)
  then show ?case
    by (fastforce simp: try_bind_eq_Inr validate_run_exact run_end_def list_all_iff)
qed simp

lemma validate_row_exact: "validate_row w n row = Inr () \<longleftrightarrow> sound_row w n row"
  by (simp add: validate_row_def validate_runs_exact sound_row_def list_all_iff)

lemma validate_links_exact: "validate_links links = Inr () \<longleftrightarrow> sound_links links"
  by (auto simp: validate_links_def sound_links_def try_bind_eq_Inr try_all_eq_Inr list_all_iff GRID_MAX_LINKS_def
      GRID_MAX_LINK_ID_BYTES_def GRID_MAX_LINK_URI_BYTES_def)

lemma validate_mods_exact: "validate_mods mods = Inr () \<longleftrightarrow> unat mods < 16"
proof -
  have all: "MODS_ALL = mask 4"
    by (simp add: MODS_ALL_def SHIFT_def ALT_def CTRL_def META_def mask_eq_exp_minus_1)
  have "mods AND NOT MODS_ALL = 0 \<longleftrightarrow> take_bit 4 mods = mods"
    unfolding all by (auto simp: bit_eq_iff bit_simps)
  also have "\<dots> \<longleftrightarrow> unat mods mod 16 = unat mods"
    by (simp add: word_unat_eq_iff take_bit_eq_mod unat_mod_distrib)
  also have "\<dots> \<longleftrightarrow> unat mods < 16" by (metis mod_less mod_less_divisor zero_less_numeral)
  finally show ?thesis by (simp add: validate_mods_def)
qed

lemma validate_output_exact: "validate_output m = Inr () \<longleftrightarrow> sound_output m"
proof (cases m)
  case (GridState state)
  have "not_direct c \<longleftrightarrow> \<not> (case c of None \<Rightarrow> True | Some (Rgb r g b) \<Rightarrow> True | Some _ \<Rightarrow> False)" for c
    by (simp add: not_direct_def split: option.split color.split)
  then show ?thesis using GridState by (simp add: try_bind_eq_Inr)
qed (auto simp: try_bind_eq_Inr try_all_eq_Inr validate_size_def dimension_ok_def validate_links_exact validate_row_exact list_all_iff
    GRID_MAX_DIMENSION_def GRID_MAX_HISTORY_CAP_def GRID_MAX_LINE_NUMBER_def GRID_MAX_CLIPBOARD_PART_BYTES_def)

lemma validate_input_exact: "validate_input m = Inr () \<longleftrightarrow> sound_input m"
  by (cases m) (auto simp: try_bind_eq_Inr validate_mods_exact buttons_def GRID_MAX_KEY_BYTES_def
      GRID_MAX_TEXT_INPUT_BYTES_def GRID_MAX_PASTE_PART_BYTES_def GRID_MAX_DIMENSION_def split: mouse_event_kind.splits)

text \<open>
  C31: Both directions let through exactly the messages within every bound of the format. Bytes are
  decoded to a message exactly where they are within the size limit (1 MiB to the client, 64 KiB to
  the supervisor), their first byte that is not blank opens an object, the JSON parser reads that
  message in them, and it is sound: sizes from 1 to 1000, runs in increasing order inside their
  row with bounded text, links, cursors, revisions, line numbers, parts, keys, buttons and
  modifiers in range. A message is encoded, as the JSON printer writes it, exactly where it is
  sound and what is written is within the limit. The JSON parser and printer are arguments; a
  message encoded decodes to itself where the parser reads back what the printer wrote and that
  opens an object.
\<close>

theorem messages_checked:
  "(decode_output parse bs = Inr m \<longleftrightarrow> length bs \<le> 1024 * 1024 \<and> opens_object bs \<and> parse bs = Some m \<and> sound_output m)
    \<and> (decode_input parse' bs = Inr i \<longleftrightarrow> length bs \<le> 64 * 1024 \<and> opens_object bs \<and> parse' bs = Some i \<and> sound_input i)
    \<and> (encode_output json_of m = Inr bs \<longleftrightarrow> bs = json_of m \<and> length bs \<le> 1024 * 1024 \<and> sound_output m)
    \<and> (encode_input json_of' i = Inr bs \<longleftrightarrow> bs = json_of' i \<and> length bs \<le> 64 * 1024 \<and> sound_input i)"
  by (auto simp: decode_output_def decode_input_def encode_output_def encode_input_def check_len_def
      try_bind_eq_Inr validate_output_exact validate_input_exact check_object_exact
      GRID_MAX_MESSAGE_def GRID_MAX_INPUT_MESSAGE_def MAX_TERMINAL_DATA_LEN_def split: option.splits)

subsection \<open>Streams\<close>

lemma stream_run_exact:
  "checks pre c \<Longrightarrow> (length pre = 1 \<Longrightarrow> is_grid_hello (hd pre)) \<Longrightarrow> \<forall>m\<in>set ms. validate_output m = Inr () \<Longrightarrow>
    fst (stream_run ms c) = Inr () \<longleftrightarrow> (\<forall>i<length ms. may_follow (pre @ take i ms) (ms ! i))"
proof (induction ms arbitrary: pre c)
  case (Cons m ms)
  obtain r c' where go: "stream_accept m c = (r, c')" by fastforce
  note S = stream_step [OF Cons.prems(1) go _ Cons.prems(2)]
  have first: "(\<forall>i<length (m # ms). may_follow (pre @ take i (m # ms)) ((m # ms) ! i)) \<longleftrightarrow>
      may_follow pre m \<and> (\<forall>i<length ms. may_follow ((pre @ [m]) @ take i ms) (ms ! i))"
    by (auto simp: less_Suc_eq_0_disj)
  show ?case
  proof (cases r)
    case (Inl e)
    then show ?thesis using S Cons.prems(3) go first by simp
  next
    case (Inr u)
    then have ok: "may_follow pre m" "checks (pre @ [m]) c'" using S Cons.prems(3) by auto
    have "is_grid_hello (hd (pre @ [m]))" if "length (pre @ [m]) = 1"
      using that ok(1) by (simp add: may_follow_def)
    from Cons.IH [OF ok(2) this] show ?thesis
      using Inr go first ok(1) Cons.prems(3) by simp
  qed
qed simp

text \<open>
  C9: The stream check, which keeps a few numbers, accepts a stream of valid messages exactly if
  every message of it may follow those before it: \<open>hello\<close> once and first, \<open>state\<close> second, frames
  with growing revisions that commit only rows inside them, history that continues or was reset,
  and screen updates and clipboard writes whole, of one target and within their limit.
\<close>

theorem stream_check_exact:
  assumes "\<forall>m\<in>set ms. validate_output m = Inr ()"
  shows "fst (stream_run ms check_new) = Inr () \<longleftrightarrow> (\<forall>i<length ms. may_follow (take i ms) (ms ! i))"
  using stream_run_exact [OF checks_new _ assms] by simp

definition grid_state_sample :: terminal_state where
  "grid_state_sample = \<lparr>ts_mouse = MouseOff, ts_focus = False, ts_alt_screen = False, ts_default_fg = None,
     ts_default_bg = None, ts_history_trimmed = False, ts_exit = None\<rparr>"

definition grid_stream_sample :: "grid_output list" where
  "grid_stream_sample = [GridHello 80 24 1000, GridState grid_state_sample,
     GridClipboard Clipboard [104] False, GridClipboard Clipboard [105] True]"

lemma grid_sample_valid: "\<forall>m\<in>set grid_stream_sample. validate_output m = Inr ()"
  by (simp add: grid_stream_sample_def grid_state_sample_def validate_size_def dimension_ok_def not_direct_def
      GRID_MAX_DIMENSION_def GRID_MAX_HISTORY_CAP_def GRID_MAX_CLIPBOARD_PART_BYTES_def)

lemma grid_sample_accepted: "stream_run (take 3 grid_stream_sample) check_new
    = (Inr (), check_new\<lparr>sc_started := True, sc_has_state := True, sc_clipboard := Some (Clipboard, 1)\<rparr>)"
  by (simp add: grid_stream_sample_def stream_accept_def check_new_def is_clipboard_def in_update_def
      GRID_MAX_CLIPBOARD_BYTES_def)

lemma stream_check_exact_witness: "may_follow (take 2 grid_stream_sample) (grid_stream_sample ! 2)"
proof -
  have v: "\<forall>m\<in>set (take 3 grid_stream_sample). validate_output m = Inr ()"
    using grid_sample_valid by (meson in_set_takeD)
  have "\<forall>i<length (take 3 grid_stream_sample). may_follow (take i (take 3 grid_stream_sample)) (take 3 grid_stream_sample ! i)"
    using stream_check_exact [OF v] grid_sample_accepted by simp
  from this [rule_format, of 2] have "may_follow (take 2 (take 3 grid_stream_sample)) (take 3 grid_stream_sample ! 2)"
    by (simp add: grid_stream_sample_def)
  then show ?thesis by (simp add: grid_stream_sample_def)
qed

text \<open>What the check holds on to.\<close>

definition rows_small :: "(nat \<times> nat) list \<Rightarrow> bool" where
  "rows_small p \<longleftrightarrow> fst ` set p \<subseteq> {..<GRID_MAX_DIMENSION}"

lemma rows_small_Nil [simp]: "rows_small []"
  by (simp add: rows_small_def)

definition small_check :: "stream_check \<Rightarrow> bool" where
  "small_check c \<longleftrightarrow> ordered (sc_pending c) \<and> rows_small (sc_pending c)
     \<and> (\<forall>t n. sc_clipboard c = Some (t, n) \<longrightarrow> n \<le> GRID_MAX_CLIPBOARD_BYTES)"

lemma accept_refused: "stream_accept m c = (Inl e, c') \<Longrightarrow> c' = c"
  by (cases m) (auto simp: stream_accept_def Let_def split: if_splits sum.splits option.splits)

lemma extend_rows_keys: "fst ` set (extend_rows rows p) = sr_y ` set rows \<union> fst ` set p"
  by (induction rows arbitrary: p) (auto simp: extend_rows_def put_row_keys)

lemma accept_small:
  assumes "stream_accept m c = (Inr (), c')" "small_check c" "validate_output m = Inr ()"
  shows "small_check c'"
proof (cases m)
  case (GridRows rows links)
  have "\<forall>r\<in>set rows. sr_y r < GRID_MAX_DIMENSION"
    using assms(3) GridRows by (auto simp: try_bind_eq_Inr try_all_eq_Inr)
  moreover have "rows_small (sc_pending c)" using assms(2) by (simp add: small_check_def)
  ultimately have keys: "rows_small (extend_rows rows (sc_pending c))"
    unfolding rows_small_def extend_rows_keys by blast
  have "sc_pending c' = extend_rows rows (sc_pending c)" "sc_clipboard c' = sc_clipboard c"
    using assms(1) GridRows by (auto simp: stream_accept_def split: if_splits)
  then show ?thesis
    using keys assms(2) extend_rows_map [of "sc_pending c" rows] unfolding small_check_def by simp
next
  case (GridClipboard t x l)
  then show ?thesis
    using assms by (auto simp: stream_accept_def small_check_def Let_def split: if_splits option.splits)
qed (use assms in \<open>auto simp: stream_accept_def small_check_def split: if_splits option.splits sum.splits\<close>)

lemma run_small:
  "stream_run ms c = (Inr (), c') \<Longrightarrow> small_check c \<Longrightarrow> \<forall>m\<in>set ms. validate_output m = Inr () \<Longrightarrow> small_check c'"
proof (induction ms arbitrary: c)
  case (Cons m ms)
  then show ?case using accept_small [of m c] by (auto split: prod.splits sum.splits)
qed simp

text \<open>
  However many messages a stream has, its check holds at most one entry for each of 1000
  rows and counts at most 8 MiB of an open clipboard write; and a message it refuses leaves it
  exactly as it was.
\<close>

theorem stream_check_bounded:
  assumes "stream_run ms check_new = (Inr (), c)" "\<forall>m\<in>set ms. validate_output m = Inr ()"
  shows "length (sc_pending c) \<le> GRID_MAX_DIMENSION
    \<and> (\<forall>t n. sc_clipboard c = Some (t, n) \<longrightarrow> n \<le> GRID_MAX_CLIPBOARD_BYTES)
    \<and> (\<forall>m e c'. stream_accept m c = (Inl e, c') \<longrightarrow> c' = c)"
proof -
  have small: "small_check c"
    by (rule run_small [OF assms(1) _ assms(2)]) (simp add: small_check_def check_new_def rows_small_def)
  then have "distinct (map fst (sc_pending c))" by (simp add: small_check_def ordered_def strict_sorted_iff)
  then have "length (sc_pending c) = card (set (map fst (sc_pending c)))" by (metis distinct_card length_map)
  also have "\<dots> \<le> card {..<GRID_MAX_DIMENSION}"
    by (rule card_mono) (use small in \<open>simp_all add: small_check_def rows_small_def\<close>)
  finally show ?thesis using small accept_refused by (auto simp: small_check_def)
qed

lemma stream_check_bounded_witness:
  "case sc_clipboard (check_new\<lparr>sc_started := True, sc_has_state := True, sc_clipboard := Some (Clipboard, 1)\<rparr>)
    of Some (t, n) \<Rightarrow> n \<le> GRID_MAX_CLIPBOARD_BYTES | None \<Rightarrow> True"
proof -
  have "\<forall>m\<in>set (take 3 grid_stream_sample). validate_output m = Inr ()" using grid_sample_valid by (meson in_set_takeD)
  from stream_check_bounded [OF grid_sample_accepted this]
  have "\<forall>t n. sc_clipboard (check_new\<lparr>sc_started := True, sc_has_state := True, sc_clipboard := Some (Clipboard, 1)\<rparr>)
    = Some (t, n) \<longrightarrow> n \<le> GRID_MAX_CLIPBOARD_BYTES" by blast
  then show ?thesis by simp
qed

end
