(* ===== verification/Tag.thy ===== *)
theory Tag
  imports Codec
begin

text \<open>
  The client tag (\<^verbatim>\<open>crates/farhelm-supervisor/src/hosts/tag.rs\<close>): what a supervisor writes into
  each host it starts, and any later supervisor reads back. Strings are their UTF-8 bytes,
  \<open>tag_ok\<close> says what the types of the code say of the fields. The fields satisfy the
  same \<open>field_codec\<close> contract as the wire format's, which gives the exactness of decoding.
\<close>

subsection \<open>The tag\<close>

definition TAG_MAGIC :: "byte list" where "TAG_MAGIC = [70, 72, 84, 71]"
definition TAG_VERSION :: u16 where "TAG_VERSION = 1"
definition MAX_ID_LEN :: nat where "MAX_ID_LEN = 256"
definition ROLE_AGENT :: byte where "ROLE_AGENT = 1"
definition ROLE_TAB :: byte where "ROLE_TAB = 2"

type_synonym i64 = "64 word"

datatype host_role = Agent i64 | Tab "byte list" bool

record host_tag =
  tag_session_id :: "byte list"
  tag_created_ns :: nat
  tag_role :: host_role

datatype tag_error = TagError string nat

datatype unreadable_tag = NotFarhelm | UnknownVersion u16 | MalformedTag string

text \<open>What the code's types say: a \<open>u64\<close> stamp and UTF-8 strings.\<close>

definition tag_ok :: "host_tag \<Rightarrow> bool" where
  "tag_ok t \<longleftrightarrow> u64_ok (tag_created_ns t) \<and> utf8_valid (tag_session_id t)
     \<and> (case tag_role t of Agent g \<Rightarrow> True | Tab i s \<Rightarrow> utf8_valid i)"

text \<open>
  The stamp from a clock: \<open>since\<close> is the time since the epoch in nanoseconds, \<open>None\<close> for a
  clock before it.
\<close>

definition creation_stamp :: "nat option \<Rightarrow> nat" where
  "creation_stamp since = (case since of None \<Rightarrow> 0 | Some n \<Rightarrow> if u64_ok n then n else 2 ^ 64 - 1)"

subsection \<open>Encoding\<close>

definition put_id :: "byte list \<Rightarrow> string \<Rightarrow> byte list \<Rightarrow> tag_error + byte list" where
  "put_id out field ident =
     (if \<not> (1 \<le> length ident \<and> length ident \<le> MAX_ID_LEN) then Inl (TagError field (length ident))
      else Inr (out @ be 2 (length ident) @ ident))"

definition encode_tag :: "host_tag \<Rightarrow> tag_error + byte list" where
  "encode_tag t =
     (let out = TAG_MAGIC @ be 2 (unat TAG_VERSION);
          out = out @ [case tag_role t of Agent g \<Rightarrow> ROLE_AGENT | Tab i s \<Rightarrow> ROLE_TAB];
          out = out @ be 8 (tag_created_ns t) in
      try_bind (put_id out ''session id'' (tag_session_id t)) (\<lambda>out.
      case tag_role t of
        Agent generation \<Rightarrow> Inr (out @ be 8 (unat generation))
      | Tab tab_id scoped \<Rightarrow> try_bind (put_id out ''tab id'' tab_id) (\<lambda>out. Inr (out @ [if scoped then 1 else 0]))))"

subsection \<open>Decoding\<close>

definition t_take :: "nat \<Rightarrow> byte list reader" where
  "t_take n = (\<lambda>bs. if length bs < n then Inl (Malformed ''too short'') else Inr (take n bs, drop n bs))"

definition t_u8 :: "byte reader" where "t_u8 = r_bind (t_take 1) (\<lambda>bs. r_ret (hd bs))"
definition t_u16 :: "u16 reader" where "t_u16 = r_bind (t_take 2) (\<lambda>bs. r_ret (of_nat (de bs)))"
definition t_u64 :: "nat reader" where "t_u64 = r_bind (t_take 8) (\<lambda>bs. r_ret (de bs))"
definition t_i64 :: "i64 reader" where "t_i64 = r_bind (t_take 8) (\<lambda>bs. r_ret (of_nat (de bs)))"

definition t_id :: "byte list reader" where
  "t_id = r_bind t_u16 (\<lambda>len.
     if \<not> (1 \<le> unat len \<and> unat len \<le> MAX_ID_LEN) then r_fail ''id length out of range''
     else r_bind (t_take (unat len)) (\<lambda>bs. if utf8_valid bs then r_ret bs else r_fail ''id is not UTF-8''))"

definition t_scoped :: "bool reader" where
  "t_scoped = r_bind t_u8 (\<lambda>b. if b = 0 then r_ret False else if b = 1 then r_ret True
     else r_fail ''scope flag is neither 0 nor 1'')"

definition t_role :: "byte \<Rightarrow> host_role reader" where
  "t_role role =
     (if role = ROLE_AGENT then r_bind t_i64 (\<lambda>g. r_ret (Agent g))
      else if role = ROLE_TAB then r_bind t_id (\<lambda>i. r_bind t_scoped (\<lambda>s. r_ret (Tab i s)))
      else r_fail ''unknown role'')"

definition t_end :: "unit reader" where
  "t_end = (\<lambda>bs. if bs = [] then Inr ((), []) else Inl (Malformed ''trailing bytes''))"

definition decode_v1 :: "host_tag reader" where
  "decode_v1 =
     r_bind t_u8 (\<lambda>role. r_bind t_u64 (\<lambda>created_ns. r_bind t_id (\<lambda>session_id.
     r_bind (t_role role) (\<lambda>role. r_bind t_end (\<lambda>_.
       r_ret \<lparr>tag_session_id = session_id, tag_created_ns = created_ns, tag_role = role\<rparr>)))))"

definition decode_tag :: "byte list \<Rightarrow> unreadable_tag + host_tag" where
  "decode_tag bytes =
     (if take 4 bytes \<noteq> TAG_MAGIC then Inl NotFarhelm
      else case t_u16 (drop 4 bytes) of
        Inl e \<Rightarrow> Inl (MalformedTag ''no version'')
      | Inr (version, rest) \<Rightarrow>
          (if version = 1 then
             (case decode_v1 rest of Inl (Malformed what) \<Rightarrow> Inl (MalformedTag what) | Inr (t, _) \<Rightarrow> Inr t)
           else Inl (UnknownVersion version)))"

subsection \<open>The fields are codecs\<close>

lemma t_take_iff [simp]: "t_take n bs = Inr (x, rest) \<longleftrightarrow> length x = n \<and> bs = x @ rest"
  by (auto simp: t_take_def)

lemma t_of_take: "r_bind (t_take k) f bs = Inr z \<longleftrightarrow> r_bind (r_take k) f bs = Inr z"
  by (auto simp: r_bind_iff)

definition put_tag_id :: "byte list \<Rightarrow> byte list" where "put_tag_id i = be 2 (length i) @ i"

definition id_ok :: "byte list \<Rightarrow> bool" where
  "id_ok i \<longleftrightarrow> 1 \<le> length i \<and> length i \<le> MAX_ID_LEN \<and> utf8_valid i"

interpretation t8: field_codec put_u8 t_u8 "\<lambda>_. True"
  by unfold_locales (unfold t_u8_def t_of_take r_u8_def [symmetric] u8c.get_iff, rule refl)

interpretation t16: field_codec put_u16 t_u16 "\<lambda>_. True"
  by unfold_locales (unfold t_u16_def t_of_take r_u16_def [symmetric] u16c.get_iff, rule refl)

interpretation t64: field_codec put_u64 t_u64 u64_ok
  by unfold_locales (unfold t_u64_def t_of_take r_u64_def [symmetric] u64c.get_iff, rule refl)

interpretation ti64: field_codec "\<lambda>v :: i64. be 8 (unat v)" t_i64 "\<lambda>_. True"
  by unfold_locales (simp add: t_i64_def t_of_take field_of_nat_iff)

interpretation tid: field_codec put_tag_id t_id id_ok
proof
  fix bs x rest :: "byte list"
  have inner: "(if \<not> (1 \<le> unat l \<and> unat l \<le> MAX_ID_LEN) then r_fail ''id length out of range''
      else r_bind (t_take (unat l)) (\<lambda>bs. if utf8_valid bs then r_ret bs else r_fail ''id is not UTF-8'')) ys = Inr (x, rest)
    \<longleftrightarrow> unat l = length x \<and> id_ok x \<and> ys = x @ rest" for l :: u16 and ys
    by (auto simp: r_bind_iff id_ok_def split: if_splits)
  have "unat (of_nat (length x) :: u16) = length x" if "id_ok x"
    using that by (simp add: id_ok_def MAX_ID_LEN_def unat_of_nat take_bit_nat_eq_self)
  then have "(\<exists>l :: u16. bs = be 2 (unat l) @ x @ rest \<and> unat l = length x \<and> id_ok x) \<longleftrightarrow> id_ok x \<and> bs = put_tag_id x @ rest"
    unfolding put_tag_id_def by (metis append.assoc)
  then show "t_id bs = Inr (x, rest) \<longleftrightarrow> id_ok x \<and> bs = put_tag_id x @ rest"
    unfolding t_id_def r_bind_iff [of t_u16] t16.get_iff put_u16_def inner by blast
qed

interpretation tscoped: field_codec put_bool t_scoped "\<lambda>_. True"
proof
  fix bs rest :: "byte list" and x
  show "t_scoped bs = Inr (x, rest) \<longleftrightarrow> True \<and> bs = put_bool x @ rest"
    by (cases x) (auto simp: t_scoped_def r_bind_iff t8.get_iff put_bool_def put_u8_def split: if_splits intro: exI [of _ 0])
qed

definition put_role :: "host_role \<Rightarrow> byte list" where
  "put_role r = (case r of Agent g \<Rightarrow> be 8 (unat g) | Tab i s \<Rightarrow> put_tag_id i @ put_bool s)"

definition role_byte :: "host_role \<Rightarrow> byte" where
  "role_byte r = (case r of Agent g \<Rightarrow> ROLE_AGENT | Tab i s \<Rightarrow> ROLE_TAB)"

definition role_ok :: "host_role \<Rightarrow> bool" where
  "role_ok r = (case r of Agent g \<Rightarrow> True | Tab i s \<Rightarrow> id_ok i)"

lemmas roles = ROLE_AGENT_def ROLE_TAB_def

lemma t_role_iff: "t_role b bs = Inr (r, rest) \<longleftrightarrow> b = role_byte r \<and> role_ok r \<and> bs = put_role r @ rest"
  by (cases r) (auto simp: t_role_def r_bind_iff ti64.get_iff tid.get_iff tscoped.get_iff roles
      put_role_def role_ok_def role_byte_def split: if_splits)

lemma t_end_iff [simp]: "t_end bs = Inr z \<longleftrightarrow> bs = [] \<and> z = ((), [])"
  by (auto simp: t_end_def)

definition tag_body :: "host_tag \<Rightarrow> byte list" where
  "tag_body t = role_byte (tag_role t) # put_u64 (tag_created_ns t) @ put_tag_id (tag_session_id t) @ put_role (tag_role t)"

definition encodable :: "host_tag \<Rightarrow> bool" where
  "encodable t \<longleftrightarrow> u64_ok (tag_created_ns t) \<and> id_ok (tag_session_id t) \<and> role_ok (tag_role t)"

lemma decode_v1_iff: "decode_v1 bs = Inr (t, rest) \<longleftrightarrow> encodable t \<and> rest = [] \<and> bs = tag_body t"
  by (cases t) (auto simp: decode_v1_def r_bind_iff t8.get_iff t64.get_iff tid.get_iff t_role_iff put_u8_def
      encodable_def tag_body_def)

lemma put_id_Inr: "put_id out field i = Inr b \<longleftrightarrow> 1 \<le> length i \<and> length i \<le> MAX_ID_LEN \<and> b = out @ put_tag_id i"
  by (auto simp: put_id_def put_tag_id_def)

lemma encode_tag_iff:
  assumes "tag_ok t"
  shows "encode_tag t = Inr bs \<longleftrightarrow> encodable t \<and> bs = TAG_MAGIC @ be 2 1 @ tag_body t"
  using assms
  by (cases t; cases "tag_role t")
    (auto simp: encode_tag_def Let_def try_bind_eq_Inr put_id_Inr encodable_def tag_ok_def id_ok_def role_ok_def
      tag_body_def role_byte_def put_role_def put_u64_def put_bool_def TAG_VERSION_def)

lemma decode_v1_case:
  "(case decode_v1 rest of Inl (Malformed what) \<Rightarrow> Inl (MalformedTag what) | Inr (t, _) \<Rightarrow> Inr t) = Inr t
    \<longleftrightarrow> encodable t \<and> rest = tag_body t"
proof (cases "decode_v1 rest")
  case (Inl e)
  then have "\<not> (encodable t \<and> rest = tag_body t)" using decode_v1_iff [of rest t "[]"] by auto
  with Inl show ?thesis by (cases e) simp
next
  case (Inr z)
  then obtain t' r where z: "decode_v1 rest = Inr (t', r)" by (cases z) auto
  then have "t' = t \<longleftrightarrow> encodable t \<and> rest = tag_body t"
    using decode_v1_iff [of rest t' r] decode_v1_iff [of rest t "[]"] by auto
  with z show ?thesis by simp
qed

lemma decode_tag_iff: "decode_tag bs = Inr t \<longleftrightarrow> encodable t \<and> bs = TAG_MAGIC @ be 2 1 @ tag_body t"
proof (cases "take 4 bs = TAG_MAGIC")
  case True
  then have bs: "bs = TAG_MAGIC @ drop 4 bs" by (metis append_take_drop_id)
  have v: "t_u16 (drop 4 bs) = Inr (1, rest) \<longleftrightarrow> drop 4 bs = be 2 1 @ rest" for rest
    by (simp add: t16.get_iff put_u16_def)
  have "decode_tag bs = Inr t \<longleftrightarrow> (\<exists>rest. t_u16 (drop 4 bs) = Inr (1, rest) \<and> encodable t \<and> rest = tag_body t)"
    using True decode_v1_case [of _ t] by (auto simp: decode_tag_def split: sum.splits)
  also have "\<dots> \<longleftrightarrow> encodable t \<and> drop 4 bs = be 2 1 @ tag_body t" unfolding v by blast
  also have "\<dots> \<longleftrightarrow> encodable t \<and> bs = TAG_MAGIC @ be 2 1 @ tag_body t" by (subst (2) bs) simp
  finally show ?thesis .
next
  case False
  then show ?thesis by (auto simp: decode_tag_def TAG_MAGIC_def)
qed

subsection \<open>Properties\<close>

definition sample_tag :: host_tag where
  "sample_tag = \<lparr>tag_session_id = [115, 49], tag_created_ns = 7, tag_role = Tab [116, 50] True\<rparr>"

text \<open>
  C36: Decoding a tag is exact. For a tag whose fields have the code's types, the bytes decode to
  it if and only if they are the ones it encodes to: what any supervisor wrote is read back
  unchanged, and no other bytes pass for the tag.
\<close>

theorem tag_decode_exact:
  assumes "tag_ok t"
  shows "decode_tag bs = Inr t \<longleftrightarrow> encode_tag t = Inr bs"
  using assms by (simp add: decode_tag_iff encode_tag_iff)

theorem tag_decode_exact_witness:
  "decode_tag ([70, 72, 84, 71, 0, 1, 2] @ [0, 0, 0, 0, 0, 0, 0, 7, 0, 2, 115, 49, 0, 2, 116, 50, 1]) = Inr sample_tag"
proof -
  have u: "utf8_valid [115, 49]" "utf8_valid [116, 50]" by code_simp+
  then have ok: "tag_ok sample_tag" by (simp add: tag_ok_def sample_tag_def u64_ok_def)
  have "encode_tag sample_tag = Inr ([70, 72, 84, 71, 0, 1, 2] @ [0, 0, 0, 0, 0, 0, 0, 7, 0, 2, 115, 49, 0, 2, 116, 50, 1])"
    by code_simp
  then show ?thesis using tag_decode_exact [OF ok] by simp
qed

text \<open>
  the fate of a tag is decided by what it starts with and by its ids. A tag is written exactly
  when its ids have 1 to 256 bytes, and then it is at most 532 bytes, within the host's limit on
  tags; bytes without the magic are not Farhelm's, and whatever follows the magic and a version other
  than 1, it is reported as that version and never as malformed.
\<close>

theorem tag_readable:
  assumes "tag_ok t"
  shows "((\<exists>bs. encode_tag t = Inr bs) \<longleftrightarrow>
      length (tag_session_id t) \<in> {1..MAX_ID_LEN} \<and> (\<forall>i s. tag_role t = Tab i s \<longrightarrow> length i \<in> {1..MAX_ID_LEN}))
    \<and> (\<forall>bs. encode_tag t = Inr bs \<longrightarrow> length bs \<le> 532 \<and> length bs \<le> MAX_TAG)
    \<and> (\<forall>bs. take 4 bs \<noteq> TAG_MAGIC \<longrightarrow> decode_tag bs = Inl NotFarhelm)
    \<and> (\<forall>version rest. version \<noteq> 1 \<longrightarrow>
        decode_tag (TAG_MAGIC @ be 2 (unat version) @ rest) = Inl (UnknownVersion version))"
proof (intro conjI allI impI)
  show "(\<exists>bs. encode_tag t = Inr bs) \<longleftrightarrow>
      length (tag_session_id t) \<in> {1..MAX_ID_LEN} \<and> (\<forall>i s. tag_role t = Tab i s \<longrightarrow> length i \<in> {1..MAX_ID_LEN})"
    using assms by (cases "tag_role t") (auto simp: encode_tag_iff encodable_def tag_ok_def id_ok_def role_ok_def)
  have len: "length bs \<le> 532" if "encode_tag t = Inr bs" for bs
    using that assms by (cases "tag_role t")
      (auto simp: encode_tag_iff encodable_def id_ok_def role_ok_def MAX_ID_LEN_def tag_body_def put_role_def
        put_tag_id_def TAG_MAGIC_def)
  show "length bs \<le> 532" "length bs \<le> MAX_TAG" if "encode_tag t = Inr bs" for bs
    using len [OF that] by (simp_all add: MAX_TAG_def)
  show "decode_tag bs = Inl NotFarhelm" if "take 4 bs \<noteq> TAG_MAGIC" for bs
    using that by (simp add: decode_tag_def)
  show "decode_tag (TAG_MAGIC @ be 2 (unat version) @ rest) = Inl (UnknownVersion version)" if "version \<noteq> 1" for version rest
    using that t16.get_put [of version rest] by (simp add: decode_tag_def TAG_MAGIC_def put_u16_def)
qed

theorem tag_readable_witness:
  "\<exists>bs. encode_tag sample_tag = Inr bs \<and> length bs \<le> MAX_TAG"
proof -
  have u: "utf8_valid [115, 49]" "utf8_valid [116, 50]" by code_simp+
  then have ok: "tag_ok sample_tag" by (simp add: tag_ok_def sample_tag_def u64_ok_def)
  have "length (tag_session_id sample_tag) \<in> {1..MAX_ID_LEN}
      \<and> (\<forall>i s. tag_role sample_tag = Tab i s \<longrightarrow> length i \<in> {1..MAX_ID_LEN})"
    by (simp add: sample_tag_def MAX_ID_LEN_def)
  then show ?thesis using tag_readable [OF ok] by blast
qed

end
