(* ===== verification/Paste.thy ===== *)
theory Paste
  imports Prelude "HOL-Library.Sublist"
begin

text \<open>
  The pasted text between the markers (\<^verbatim>\<open>PasteText\<close> in
  \<^verbatim>\<open>crates/farhelm-supervisor/src/grid_input.rs\<close>): a filter that sees a paste part by part, and
  the two replacements it stands for, over the whole paste. A state is the filter with the output
  vector its methods append to.
\<close>

definition PASTE_START :: "byte list" where "PASTE_START = [0x1b, 0x5b, 0x32, 0x30, 0x30, 0x7e]"
definition PASTE_END :: "byte list" where "PASTE_END = [0x1b, 0x5b, 0x32, 0x30, 0x31, 0x7e]"

record paste_text =
  pt_held :: "byte list"
  pt_after_cr :: bool

definition paste_text_default :: paste_text where
  "paste_text_default = \<lparr>pt_held = [], pt_after_cr = False\<rparr>"

definition emit :: "byte \<Rightarrow> paste_text \<times> byte list \<Rightarrow> paste_text \<times> byte list" where
  "emit b s = (case s of (p, out) \<Rightarrow>
     (p\<lparr>pt_after_cr := (b = 13)\<rparr>,
      if b = 10 \<and> pt_after_cr p then out else if b = 10 then out @ [13] else out @ [b]))"

definition held_len :: "paste_text \<times> byte list \<Rightarrow> nat" where "held_len s = length (pt_held (fst s))"

text \<open>
  One byte, and the loop over several that both \<open>push\<close> and the re-reading of a refuted marker are.
  They call each other; the loop's state is what the byte before it left.
\<close>

function paste_byte :: "byte \<Rightarrow> paste_text \<times> byte list \<Rightarrow> paste_text \<times> byte list"
  and paste_push :: "byte list \<Rightarrow> paste_text \<times> byte list \<Rightarrow> paste_text \<times> byte list" where
  "paste_byte b (p, out) =
     (if pt_held p = [] then
        (if b = 0x1b then (p\<lparr>pt_held := pt_held p @ [b]\<rparr>, out) else emit b (p, out))
      else
        let held = pt_held p @ [b] in
        if held = PASTE_END then (p\<lparr>pt_held := []\<rparr>, out)
        else if \<not> prefix held PASTE_END then paste_push (tl held) (p\<lparr>pt_held := []\<rparr>, out)
        else (p\<lparr>pt_held := held\<rparr>, out))"
| "paste_push [] s = s"
| "paste_push (b # bs) s = paste_push bs (paste_byte b s)"
  by pat_completeness auto

termination
proof -
  have grows: "(paste_byte_paste_push_dom (Inl (b, s)) \<longrightarrow> held_len (paste_byte b s) \<le> Suc (held_len s))
    \<and> (paste_byte_paste_push_dom (Inr (bs, s)) \<longrightarrow> held_len (paste_push bs s) \<le> length bs + held_len s)" for b bs s
  proof -
    have "paste_byte_paste_push_dom (Inl (b, s)) \<Longrightarrow> held_len (paste_byte b s) \<le> Suc (held_len s)"
      "paste_byte_paste_push_dom (Inr (bs, s)) \<Longrightarrow> held_len (paste_push bs s) \<le> length bs + held_len s" for b bs s
    proof (induction b s and bs s rule: paste_byte_paste_push.pinduct)
      case (1 b p out)
      then show ?case by (auto simp: paste_byte.psimps Let_def held_len_def emit_def)
    next
      case (2 s)
      then show ?case by (simp add: paste_push.psimps)
    next
      case (3 b bs s)
      then show ?case by (simp add: paste_push.psimps)
    qed
    then show ?thesis by blast
  qed
  show ?thesis
  proof (relation "measures [\<lambda>arg. case arg of Inl (b, s) \<Rightarrow> 2 * held_len s + 1 | Inr (bs, s) \<Rightarrow> 2 * (held_len s + length bs),
      \<lambda>arg. case arg of Inl (b, s) \<Rightarrow> 0 | Inr (bs, s) \<Rightarrow> length bs]", goal_cases)
    case (4 b bs s)
    then show ?case using grows [of b s "[]"] by (simp; linarith)
  qed (auto simp: held_len_def)
qed

definition paste_end :: "paste_text \<times> byte list \<Rightarrow> paste_text \<times> byte list" where
  "paste_end s = (case s of (p, out) \<Rightarrow> fold emit (tl (pt_held p)) (p\<lparr>pt_held := []\<rparr>, out))"

subsection \<open>The two replacements\<close>

text \<open>\<^verbatim>\<open>text.replace(/\x1b\[201~|\x1b/g, "")\<close>: a marker goes whole, any other ESC alone.\<close>

fun sanitize :: "byte list \<Rightarrow> byte list" where
  "sanitize [] = []"
| "sanitize (b # bs) =
     (if b = 0x1b then (if prefix (tl PASTE_END) bs then sanitize (drop 5 bs) else sanitize bs)
      else b # sanitize bs)"

text \<open>\<^verbatim>\<open>text.replace(/\r?\n/g, "\r")\<close>.\<close>

fun crlf :: "byte list \<Rightarrow> byte list" where
  "crlf [] = []"
| "crlf (b # bs) =
     (if b = 13 \<and> bs \<noteq> [] \<and> hd bs = 10 then 13 # crlf (tl bs)
      else if b = 10 then 13 # crlf bs
      else b # crlf bs)"

subsection \<open>The filter computes them\<close>

text \<open>What \<open>emit\<close> makes of a byte string, given whether a CR came just before.\<close>

fun emitted :: "bool \<Rightarrow> byte list \<Rightarrow> byte list" where
  "emitted cr [] = []"
| "emitted cr (b # bs) = (if b = 10 then (if cr then [] else [13]) else [b]) @ emitted (b = 13) bs"

definition ends_cr :: "bool \<Rightarrow> byte list \<Rightarrow> bool" where
  "ends_cr cr bs = (if bs = [] then cr else last bs = 13)"

lemma emitted_append: "emitted cr (xs @ ys) = emitted cr xs @ emitted (ends_cr cr xs) ys"
  by (induction xs arbitrary: cr) (auto simp: ends_cr_def)

lemma ends_cr_append: "ends_cr (ends_cr cr xs) ys = ends_cr cr (xs @ ys)"
  by (simp add: ends_cr_def)

lemma fold_emit:
  "fold emit bs (p, out) = (p\<lparr>pt_after_cr := ends_cr (pt_after_cr p) bs\<rparr>, out @ emitted (pt_after_cr p) bs)"
  by (induction bs arbitrary: p out) (auto simp: emit_def ends_cr_def)

lemma emitted_cr: "emitted True bs = (if bs \<noteq> [] \<and> hd bs = 10 then emitted False (tl bs) else emitted False bs)"
  by (cases bs) auto

lemma emitted_crlf: "emitted False bs = crlf bs"
proof (induction bs rule: crlf.induct)
  case (2 b bs)
  then show ?case by (cases "b = 13") (auto simp: emitted_cr)
qed simp

lemma sanitize_no_esc: "0x1b \<notin> set bs \<Longrightarrow> sanitize bs = bs"
  by (induction bs) auto

lemma no_esc_sanitize: "0x1b \<notin> set (sanitize bs)"
  by (induction bs rule: sanitize.induct) auto

lemma set_emitted: "set (emitted cr bs) \<subseteq> insert 13 (set bs - {10})"
  by (induction bs arbitrary: cr) auto

lemma set_crlf: "set (crlf bs) \<subseteq> insert 13 (set bs - {10})"
  using set_emitted [of False bs] by (simp add: emitted_crlf)

definition held_ok :: "byte list \<Rightarrow> bool" where
  "held_ok h \<longleftrightarrow> h = [] \<or> (strict_prefix h PASTE_END)"

lemma esc_first: "0x1b \<notin> set (tl PASTE_END)"
  by (simp add: PASTE_END_def)

lemma held_no_esc: "prefix h PASTE_END \<Longrightarrow> 0x1b \<notin> set (tl h)"
proof (cases "h = []")
  case False
  assume "prefix h PASTE_END"
  then obtain zs where "PASTE_END = h @ zs" by (auto simp: prefix_def)
  then have "tl PASTE_END = tl h @ zs" using False by (metis tl_append2)
  then show ?thesis using esc_first by simp
qed simp

lemma held_starts: "prefix h PASTE_END \<Longrightarrow> h \<noteq> [] \<Longrightarrow> h = 0x1b # tl h"
  by (cases h) (auto simp: PASTE_END_def)

lemma sanitize_marker: "sanitize (PASTE_END @ zs) = sanitize zs"
  by (simp add: PASTE_END_def)

lemma sanitize_refuted:
  assumes "h \<noteq> []" "strict_prefix h PASTE_END" "\<not> prefix (h @ [b]) PASTE_END"
  shows "sanitize (h @ b # zs) = sanitize (tl (h @ [b]) @ zs)"
proof -
  have pre: "prefix h PASTE_END" using assms(2) by (simp add: strict_prefix_def)
  have h: "h = 0x1b # tl h" by (rule held_starts [OF pre assms(1)])
  have P: "PASTE_END = 0x1b # tl PASTE_END" by (simp add: PASTE_END_def)
  have "\<not> prefix (tl PASTE_END) (tl h @ b # zs)"
  proof
    assume "prefix (tl PASTE_END) (tl h @ b # zs)"
    then have "prefix (0x1b # tl PASTE_END) ((0x1b # tl h) @ b # zs)" by simp
    then have "prefix PASTE_END (h @ b # zs)" using P h by simp
    moreover have "prefix (h @ [b]) (h @ b # zs)" by (simp add: prefix_def)
    moreover have "length (h @ [b]) \<le> length PASTE_END"
      using prefix_length_less [OF assms(2)] by simp
    ultimately have "prefix (h @ [b]) PASTE_END" by (meson prefix_length_prefix)
    with assms(3) show False by simp
  qed
  then have "sanitize ((0x1b # tl h) @ b # zs) = sanitize (tl h @ b # zs)" by simp
  moreover have "tl (h @ [b]) @ zs = tl h @ b # zs" using assms(1) by simp
  ultimately show ?thesis using h by simp
qed

lemma emit_step: "emit b (p, out) = (p\<lparr>pt_after_cr := ends_cr (pt_after_cr p) [b]\<rparr>, out @ emitted (pt_after_cr p) [b])"
  by (simp add: emit_def ends_cr_def)

text \<open>
  What one call does to what is still to come: it passes on \<open>e\<close>, and the sanitized text of what
  was held and what it read is \<open>e\<close> followed by that of what it holds now.
\<close>

definition passes :: "paste_text \<times> byte list \<Rightarrow> byte list \<Rightarrow> paste_text \<times> byte list \<Rightarrow> bool" where
  "passes s bs s' \<longleftrightarrow> held_ok (pt_held (fst s')) \<and> (\<exists>e.
     snd s' = snd s @ emitted (pt_after_cr (fst s)) e \<and> pt_after_cr (fst s') = ends_cr (pt_after_cr (fst s)) e
     \<and> (\<forall>zs. sanitize (pt_held (fst s) @ bs @ zs) = e @ sanitize (pt_held (fst s') @ zs)))"

lemma passesI:
  assumes "held_ok h'" "\<And>zs. sanitize (pt_held p @ bs @ zs) = e @ sanitize (h' @ zs)"
  shows "passes (p, out) bs (\<lparr>pt_held = h', pt_after_cr = ends_cr (pt_after_cr p) e\<rparr>, out @ emitted (pt_after_cr p) e)"
  using assms by (auto simp: passes_def)

lemma passes_trans:
  assumes "passes s xs s'" "passes s' ys s''"
  shows "passes s (xs @ ys) s''"
proof -
  obtain e where e: "snd s' = snd s @ emitted (pt_after_cr (fst s)) e"
    "pt_after_cr (fst s') = ends_cr (pt_after_cr (fst s)) e"
    "\<forall>zs. sanitize (pt_held (fst s) @ xs @ zs) = e @ sanitize (pt_held (fst s') @ zs)"
    using assms(1) by (auto simp: passes_def)
  obtain f where f: "held_ok (pt_held (fst s''))" "snd s'' = snd s' @ emitted (pt_after_cr (fst s')) f"
    "pt_after_cr (fst s'') = ends_cr (pt_after_cr (fst s')) f"
    "\<forall>zs. sanitize (pt_held (fst s') @ ys @ zs) = f @ sanitize (pt_held (fst s'') @ zs)"
    using assms(2) by (auto simp: passes_def)
  have "sanitize (pt_held (fst s) @ (xs @ ys) @ zs) = (e @ f) @ sanitize (pt_held (fst s'') @ zs)" for zs
    using e(3) f(4) by simp
  then show ?thesis
    unfolding passes_def using e(1,2) f(1-3) by (auto simp: emitted_append ends_cr_append intro!: exI [of _ "e @ f"])
qed

lemma paste_passes:
  "held_ok (pt_held (fst s)) \<Longrightarrow> passes s [b] (paste_byte b s)"
  "held_ok (pt_held (fst s)) \<Longrightarrow> passes s bs (paste_push bs s)"
proof (induction b s and bs s rule: paste_byte_paste_push.induct)
  case (1 b p out)
  let ?h = "pt_held p"
  have p [simp]: "p\<lparr>pt_held := h\<rparr> = \<lparr>pt_held = h, pt_after_cr = pt_after_cr p\<rparr>"
    "p\<lparr>pt_after_cr := a\<rparr> = \<lparr>pt_held = ?h, pt_after_cr = a\<rparr>" for h a by (cases p; simp)+
  have ok: "held_ok ?h" using 1 by simp
  show ?case
  proof (cases "?h = []")
    case True
    show ?thesis
    proof (cases "b = 0x1b")
      case esc: True
      have "held_ok [0x1b]" by (simp add: held_ok_def strict_prefix_def PASTE_END_def)
      then have "passes (p, out) [b] (\<lparr>pt_held = [b], pt_after_cr = ends_cr (pt_after_cr p) []\<rparr>, out @ emitted (pt_after_cr p) [])"
        using True esc by (intro passesI) simp_all
      then show ?thesis using True esc by (simp add: ends_cr_def)
    next
      case False
      then have "passes (p, out) [b] (\<lparr>pt_held = [], pt_after_cr = ends_cr (pt_after_cr p) [b]\<rparr>, out @ emitted (pt_after_cr p) [b])"
        using True by (intro passesI) (simp_all add: held_ok_def)
      moreover have "paste_byte b (p, out) = (\<lparr>pt_held = [], pt_after_cr = ends_cr (pt_after_cr p) [b]\<rparr>, out @ emitted (pt_after_cr p) [b])"
        using True False by (simp add: emit_step del: emitted.simps)
      ultimately show ?thesis by simp
    qed
  next
    case False
    then have h: "strict_prefix ?h PASTE_END" using ok by (simp add: held_ok_def)
    let ?h' = "?h @ [b]"
    consider (whole) "?h' = PASTE_END" | (part) "?h' \<noteq> PASTE_END" "prefix ?h' PASTE_END" | (refuted) "\<not> prefix ?h' PASTE_END"
      by blast
    then show ?thesis
    proof cases
      case whole
      have "sanitize (?h @ [b] @ zs) = sanitize zs" for zs
        using sanitize_marker [of zs] unfolding whole [symmetric] by simp
      then have "passes (p, out) [b] (\<lparr>pt_held = [], pt_after_cr = ends_cr (pt_after_cr p) []\<rparr>, out @ emitted (pt_after_cr p) [])"
        by (intro passesI) (simp_all add: held_ok_def)
      then show ?thesis using False whole by (simp add: ends_cr_def)
    next
      case part
      then have "passes (p, out) [b] (\<lparr>pt_held = ?h', pt_after_cr = ends_cr (pt_after_cr p) []\<rparr>, out @ emitted (pt_after_cr p) [])"
        by (intro passesI) (simp_all add: held_ok_def strict_prefix_def)
      then show ?thesis using False part by (simp add: ends_cr_def)
    next
      case refuted
      then have ne: "?h' \<noteq> PASTE_END" by auto
      have "passes (p\<lparr>pt_held := []\<rparr>, out) (tl ?h') (paste_push (tl ?h') (p\<lparr>pt_held := []\<rparr>, out))"
        using 1(1) [OF False refl ne refuted] by (simp add: held_ok_def)
      moreover have "sanitize (?h @ [b] @ zs) = sanitize (tl ?h' @ zs)" for zs
        using sanitize_refuted [OF False h refuted, of zs] by simp
      ultimately have "passes (p, out) [b] (paste_push (tl ?h') (p\<lparr>pt_held := []\<rparr>, out))"
        unfolding passes_def by simp
      then show ?thesis using False ne refuted by (simp add: Let_def)
    qed
  qed
next
  case (2 s)
  then show ?case by (auto simp: passes_def ends_cr_def intro: exI [of _ "[]"])
next
  case (3 b bs s)
  have one: "passes s [b] (paste_byte b s)" using 3 by simp
  then have "held_ok (pt_held (fst (paste_byte b s)))" by (simp add: passes_def)
  then have "passes (paste_byte b s) bs (paste_push bs (paste_byte b s))" using 3 by simp
  from passes_trans [OF one this] show ?case by simp
qed

lemma paste_push_append: "paste_push (xs @ ys) s = paste_push ys (paste_push xs s)"
  by (induction xs arbitrary: s) simp_all

text \<open>From a fresh filter, all the parts and then the end.\<close>

lemma paste_filter:
  "paste_end (paste_push bs (paste_text_default, out))
    = (\<lparr>pt_held = [], pt_after_cr = ends_cr False (sanitize bs)\<rparr>, out @ crlf (sanitize bs))"
proof -
  define s where "s = paste_push bs (paste_text_default, out)"
  have "passes (paste_text_default, out) bs s"
    unfolding s_def by (rule paste_passes) (simp add: paste_text_default_def held_ok_def)
  then obtain e where e: "held_ok (pt_held (fst s))" "snd s = out @ emitted False e" "pt_after_cr (fst s) = ends_cr False e"
    "\<forall>zs. sanitize (bs @ zs) = e @ sanitize (pt_held (fst s) @ zs)"
    by (auto simp: passes_def paste_text_default_def)
  let ?h = "pt_held (fst s)"
  have "sanitize ?h = tl ?h"
  proof (cases "?h = []")
    case False
    then have "strict_prefix ?h PASTE_END" using e(1) by (simp add: held_ok_def)
    then have p: "prefix ?h PASTE_END" "length ?h < 6" using prefix_length_less [of ?h PASTE_END]
      by (auto simp: PASTE_END_def)
    have "\<not> prefix (tl PASTE_END) (tl ?h)"
      using p(2) prefix_length_le [of "tl PASTE_END" "tl ?h"] by (auto simp: PASTE_END_def)
    then have "sanitize (0x1b # tl ?h) = tl ?h"
      using sanitize_no_esc [OF held_no_esc [OF p(1)]] by simp
    then show ?thesis by (metis held_starts [OF p(1) False])
  qed simp
  then have "sanitize bs = e @ tl ?h" using e(4) [rule_format, of "[]"] by simp
  moreover have "paste_end s = (\<lparr>pt_held = [], pt_after_cr = ends_cr False (e @ tl ?h)\<rparr>, out @ emitted False (e @ tl ?h))"
    using e(2,3) by (cases s) (simp add: paste_end_def fold_emit emitted_append ends_cr_append)
  ultimately show ?thesis by (simp add: s_def emitted_crlf)
qed

end
