(* ===== verification/Keys.thy ===== *)
theory Keys
  imports Messages Grid Paste
begin

unbundle bit_operations_syntax

text \<open>
  The bytes of a keydown (\<^verbatim>\<open>encode_key\<close>, \<^verbatim>\<open>key_sequence\<close> and \<^verbatim>\<open>other_key\<close> in
  \<^verbatim>\<open>crates/farhelm-supervisor/src/grid_input.rs\<close>). Strings are UTF-8 bytes. Lower-casing a
  character that is not one ASCII byte is the standard library's Unicode table, an argument here.
\<close>

subsection \<open>Text\<close>

definition ESC :: byte where "ESC = 0x1b"

definition utf16_len :: "byte list \<Rightarrow> nat" where
  "utf16_len txt = length (filter (\<lambda>b. \<not> cont_byte b) txt) + length (filter (\<lambda>b. 0xF0 \<le> b) txt)"

definition first_utf16_unit :: "byte list \<Rightarrow> byte list" where
  "first_utf16_unit txt = (case utf8_char txt of None \<Rightarrow> []
     | Some n \<Rightarrow> if n = 4 then [0xEF, 0xBF, 0xBD] else take n txt)"

definition to_lowercase :: "(byte list \<Rightarrow> byte list) \<Rightarrow> byte list \<Rightarrow> byte list" where
  "to_lowercase other letter = (case letter of
     [b] \<Rightarrow> [if 65 \<le> b \<and> b \<le> 90 then b + 32 else b]
   | _ \<Rightarrow> other letter)"

definition to_ascii_uppercase :: "byte \<Rightarrow> byte" where
  "to_ascii_uppercase b = (if 97 \<le> b \<and> b \<le> 122 then b - 32 else b)"

datatype key_platform = Mac | OtherPlatform

subsection \<open>The keys with a sequence of their own\<close>

definition alt_key_mapping :: "nat \<Rightarrow> (byte \<times> byte) option" where
  "alt_key_mapping kc = map_of (zip
     [48, 49, 50, 51, 52, 53, 54, 55, 56, 57, 186, 187, 188, 189, 190, 191, 192, 219, 220, 221, 222]
     (zip (ascii ''0123456789;=,-./'' @ [0x60] @ ascii ''['' @ [0x5c] @ ascii '']'' @ [0x27]) (ascii '')!@#$%^&*(:+<_>?~{|}'' @ [0x22]))) kc"

definition held_bit :: "byte \<Rightarrow> byte \<Rightarrow> bool" where
  "held_bit mods m \<longleftrightarrow> mods AND m \<noteq> 0"

definition control_code :: "nat \<Rightarrow> nat option" where
  "control_code kc =
     (if 65 \<le> kc \<and> kc \<le> 90 then Some (kc - 64)
      else if kc = 32 then Some 0
      else if 51 \<le> kc \<and> kc \<le> 55 then Some (kc - 51 + 27)
      else if kc = 56 then Some 0x7f
      else if kc = 219 then Some 0x1b
      else if kc = 220 then Some 0x1c
      else if kc = 221 then Some 0x1d
      else None)"

definition other_key ::
  "(byte list \<Rightarrow> byte list) \<Rightarrow> byte list \<Rightarrow> byte list \<Rightarrow> nat \<Rightarrow> bool \<Rightarrow> bool \<Rightarrow> bool \<Rightarrow> bool \<Rightarrow> key_platform \<Rightarrow> byte list option" where
  "other_key lower key code kc shift alt ctrl meta platform =
     (let is_mac = (platform = Mac) in
      if ctrl \<and> \<not> shift \<and> \<not> alt \<and> \<not> meta then map_option (\<lambda>c. [of_nat c]) (control_code kc)
      else if is_mac \<or> \<not> alt \<or> meta then
        (if is_mac \<and> \<not> alt \<and> \<not> ctrl \<and> \<not> shift \<and> meta then None
         else if key \<noteq> [] \<and> \<not> ctrl \<and> \<not> alt \<and> \<not> meta \<and> 48 \<le> kc \<and> utf16_len key = 1 then Some key
         else if key \<noteq> [] \<and> ctrl then
           (if key = ascii ''_'' then Some [0x1f] else if key = ascii ''@'' then Some [0] else None)
         else None)
      else case alt_key_mapping kc of
        Some (plain, shifted) \<Rightarrow> Some [ESC, if shift then shifted else plain]
      | None \<Rightarrow>
          if 65 \<le> kc \<and> kc \<le> 90 then
            (let ch = (of_nat (if ctrl then kc - 64 else kc + 32) :: byte) in
             Some [ESC, if shift then to_ascii_uppercase ch else ch])
          else if kc = 32 then Some (ESC # (if ctrl then [0] else ascii '' ''))
          else if key = ascii ''Dead'' \<and> take 3 code = ascii ''Key'' then
            (let letter = first_utf16_unit (drop 3 code) in
             Some (ESC # (if shift then letter else to_lowercase lower letter)))
          else None)"

definition key_sequence ::
  "(byte list \<Rightarrow> byte list) \<Rightarrow> byte list \<Rightarrow> byte list \<Rightarrow> nat \<Rightarrow> byte \<Rightarrow> bool \<Rightarrow> key_platform \<Rightarrow> byte list option" where
  "key_sequence lower key code kc mods application_cursor platform =
     (let shift = held_bit mods SHIFT; alt = held_bit mods ALT; ctrl = held_bit mods CTRL; meta = held_bit mods META;
          param = unat (mods AND MODS_ALL) + 1;
          modified = 1 < param;
          cursor = (\<lambda>letter. if modified then [ESC] @ ascii ''[1;'' @ decimal param @ ascii [letter]
            else if application_cursor then [ESC] @ ascii [CHR ''O'', letter] else [ESC] @ ascii [CHR ''['', letter]);
          ios_arrow = (\<lambda>letter. if application_cursor then [ESC] @ ascii [CHR ''O'', letter] else [ESC] @ ascii [CHR ''['', letter]) in
      if kc = 0 then
        (if key = ascii ''UIKeyInputUpArrow'' then Some (ios_arrow CHR ''A'')
         else if key = ascii ''UIKeyInputLeftArrow'' then Some (ios_arrow CHR ''D'')
         else if key = ascii ''UIKeyInputRightArrow'' then Some (ios_arrow CHR ''C'')
         else if key = ascii ''UIKeyInputDownArrow'' then Some (ios_arrow CHR ''B'')
         else None)
      else if kc = 8 then Some ((if alt then [ESC] else []) @ [if ctrl then 0x08 else 0x7f])
      else if kc = 9 then Some (if shift then [ESC] @ ascii ''[Z'' else [9])
      else if kc = 13 then Some (if alt then [ESC, 13] else [13])
      else if kc = 27 then Some (if alt then [ESC, ESC] else [ESC])
      else if 37 \<le> kc \<and> kc \<le> 40 \<and> meta then None
      else if kc = 37 then Some (cursor CHR ''D'')
      else if kc = 39 then Some (cursor CHR ''C'')
      else if kc = 38 then Some (cursor CHR ''A'')
      else if kc = 40 then Some (cursor CHR ''B'')
      else if kc = 45 then (if shift \<or> ctrl then None else Some ([ESC] @ ascii ''[2~''))
      else if kc = 46 then
        Some (if modified then [ESC] @ ascii ''[3;'' @ decimal param @ ascii ''~'' else [ESC] @ ascii ''[3~'')
      else if kc = 36 then Some (cursor CHR ''H'')
      else if kc = 35 then Some (cursor CHR ''F'')
      else if kc = 33 \<or> kc = 34 then
        (let number = (if kc = 33 then 5 else 6) in
         if shift then None
         else if ctrl then Some ([ESC] @ ascii ''['' @ decimal number @ ascii '';'' @ decimal param @ ascii ''~'')
         else Some ([ESC] @ ascii ''['' @ decimal number @ ascii ''~''))
      else if 112 \<le> kc \<and> kc \<le> 115 then
        (let letter = ascii ''PQRS'' ! (kc - 112) in
         Some (if modified then [ESC] @ ascii ''[1;'' @ decimal param @ [letter] else [ESC] @ ascii ''O'' @ [letter]))
      else if 116 \<le> kc \<and> kc \<le> 123 then
        (let number = [15, 17, 18, 19, 20, 21, 23, 24] ! (kc - 116) in
         Some (if modified then [ESC] @ ascii ''['' @ decimal number @ ascii '';'' @ decimal param @ ascii ''~''
           else [ESC] @ ascii ''['' @ decimal number @ ascii ''~''))
      else other_key lower key code kc shift alt ctrl meta platform)"

definition encode_key ::
  "(byte list \<Rightarrow> byte list) \<Rightarrow> byte list \<Rightarrow> byte list \<Rightarrow> nat \<Rightarrow> byte \<Rightarrow> bool \<Rightarrow> key_platform \<Rightarrow> byte list" where
  "encode_key lower key code kc mods application_cursor platform =
     (case key_sequence lower key code kc mods application_cursor platform of
        None \<Rightarrow> []
      | Some sent \<Rightarrow>
          if key = ascii ''Enter'' \<and> mods = SHIFT \<and> take 1 sent = [13] then ESC # sent else sent)"

subsection \<open>Decimal numbers\<close>

lemma decimal_small: "n < 10 \<Longrightarrow> decimal n = [48 + of_nat n]"
  by (simp add: decimal.simps)

lemma length_decimal_two: "n < 100 \<Longrightarrow> 1 \<le> length (decimal n) \<and> length (decimal n) \<le> 2"
proof -
  assume "n < 100"
  then have "n div 10 < 10" by linarith
  then show ?thesis by (subst (1 2) decimal.simps) (simp add: decimal_small)
qed

lemma digit_value: "n < 10 \<Longrightarrow> unat (48 + of_nat n :: byte) = 48 + n"
  by (simp add: unat_word_ariths unat_of_nat take_bit_eq_mod)

lemma decimal_digits: "b \<in> set (decimal n) \<Longrightarrow> 48 \<le> unat b \<and> unat b \<le> 57"
proof (induction n rule: decimal.induct)
  case (1 n)
  show ?case
  proof (cases "n < 10")
    case True
    then show ?thesis using 1 digit_value [of n] by (simp add: decimal_small)
  next
    case False
    then have "b \<in> set (decimal (n div 10)) \<or> b = 48 + of_nat (n mod 10)"
      using 1(2) by (subst (asm) decimal.simps) auto
    then show ?thesis using 1(1) [OF False] digit_value [of "n mod 10"] by auto
  qed
qed

lemma decimal_misses: "unat b < 48 \<or> 57 < unat b \<Longrightarrow> b \<notin> set (decimal n)"
  using decimal_digits by fastforce

definition undecimal :: "byte list \<Rightarrow> nat" where
  "undecimal bs = foldl (\<lambda>a b. a * 10 + (unat b - 48)) 0 bs"

lemma undecimal_decimal [simp]: "undecimal (decimal n) = n"
proof (induction n rule: decimal.induct)
  case (1 n)
  show ?case
  proof (cases "n < 10")
    case True
    then show ?thesis using digit_value by (simp add: decimal_small undecimal_def)
  next
    case False
    then have "undecimal (decimal n) = undecimal (decimal (n div 10)) * 10 + n mod 10"
      using digit_value [of "n mod 10"] by (simp add: decimal.simps [of n] undecimal_def)
    then show ?thesis using 1 [OF False] by simp
  qed
qed

text \<open>A number that something other than its digits follows can be read off.\<close>

lemma decimal_split:
  assumes "decimal a @ x # xs = decimal b @ y # ys" "x \<notin> set (decimal b)" "y \<notin> set (decimal a)"
  shows "a = b \<and> x = y \<and> xs = ys"
proof -
  obtain us where us: "decimal a = decimal b @ us \<and> us @ x # xs = y # ys
      \<or> decimal a @ us = decimal b \<and> x # xs = us @ y # ys"
    using assms(1) by (auto simp: append_eq_append_conv2)
  then have "us = []"
  proof (cases us)
    case (Cons c list)
    then have "x \<in> set (decimal b) \<or> y \<in> set (decimal a)" using us by (metis append_Cons in_set_conv_decomp list.inject)
    then show ?thesis using assms(2,3) by blast
  qed
  then have "decimal a = decimal b" "x # xs = y # ys" using us by auto
  then show ?thesis by (metis undecimal_decimal list.inject)
qed

end
