(* ===== verification/Key_Properties.thy ===== *)
theory Key_Properties
  imports Keys
begin

unbundle bit_operations_syntax

text \<open>
  What the key encoder promises of every key: few bytes, never a bracketed-paste marker, and the
  same bytes on every platform unless Alt is held.
\<close>

subsection \<open>Single characters\<close>

lemma utf16_len_append: "utf16_len (xs @ ys) = utf16_len xs + utf16_len ys"
  by (simp add: utf16_len_def)

lemma utf8_lead: "utf8_char (b # t) = Some n \<Longrightarrow> \<not> cont_byte b \<and> (n = 4 \<longrightarrow> 0xF0 \<le> b)"
proof -
  assume n: "utf8_char (b # t) = Some n"
  then have "b \<le> 0x7F \<or> 0xC2 \<le> b \<or> 0xE0 \<le> b \<or> 0xF0 \<le> b" by (auto simp: utf8_char_def split: if_splits)
  moreover have "n = 4 \<Longrightarrow> 0xF0 \<le> b" using n by (auto simp: utf8_char_def split: if_splits list.splits)
  ultimately show ?thesis by (auto simp: cont_byte_def word_le_nat_alt)
qed

lemma utf16_len_Cons: "\<not> cont_byte b \<Longrightarrow> utf16_len (b # t) = (if 0xF0 \<le> b then 2 else 1) + utf16_len t"
  by (simp add: utf16_len_def)

lemma one_unit:
  assumes "utf8_valid key" "utf16_len key = 1"
  shows "length key \<le> 3"
proof (cases key)
  case Nil
  then show ?thesis by simp
next
  case (Cons b t)
  then obtain n where n: "utf8_char key = Some n" "utf8_valid (drop n key)"
    using assms(1) Cons unfolding utf8_valid.simps [of key] by (auto split: option.splits)
  have b: "\<not> cont_byte b" "n = 4 \<Longrightarrow> 0xF0 \<le> b" using utf8_lead [of b t n] n(1) Cons by auto
  have len: "(if 0xF0 \<le> b then 2 else 1) + utf16_len t = 1" using assms(2) utf16_len_Cons [OF b(1)] Cons by simp
  have bounds: "0 < n" "n \<le> 4" "n \<le> length key" using utf8_char_bounds [OF n(1)] by auto
  have "drop n key = []"
  proof (rule ccontr)
    assume "drop n key \<noteq> []"
    then obtain c u where c: "drop n key = c # u" by (cases "drop n key") auto
    then have "\<not> cont_byte c"
      using n(2) utf8_lead [of c u] unfolding utf8_valid.simps [of "drop n key"] by (auto split: option.splits)
    then have "1 \<le> utf16_len (drop n key)" using c utf16_len_Cons [of c u] by simp
    moreover have "t = take (n - 1) t @ drop n key" using Cons bounds(1) by (cases n) auto
    then have "utf16_len t = utf16_len (take (n - 1) t) + utf16_len (drop n key)" by (metis utf16_len_append)
    ultimately show False using len by (simp split: if_splits)
  qed
  moreover have "n \<noteq> 4" using b(2) len by (auto split: if_splits)
  ultimately show ?thesis using bounds by simp
qed

lemma high_bracket: "\<not> (0x80 :: byte) \<le> 0x5b" by simp

lemma esc_bracket: "(0x1b :: byte) \<noteq> 0x5b" by simp

subsection \<open>The shapes of key sequences\<close>

text \<open>
  \<open>lower\<close> lower-cases one character that is not ASCII: it gives at most three characters, none
  of which is an opening bracket.
\<close>

definition lower_ok :: "(byte list \<Rightarrow> byte list) \<Rightarrow> bool" where
  "lower_ok lower \<longleftrightarrow> (\<forall>c. length c \<le> 3 \<and> (\<forall>b\<in>set c. 0x80 \<le> b) \<longrightarrow> length (lower c) \<le> 12 \<and> 0x5b \<notin> set (lower c))"

text \<open>At most four bytes, ESC and a few that hold no bracket, or one control sequence.\<close>

definition control_sequence :: "byte list \<Rightarrow> bool" where
  "control_sequence out \<longleftrightarrow> (\<exists>p. out = ESC # 0x5b # p \<and> length p \<le> 7 \<and> 0x1b \<notin> set p
     \<and> (length p \<le> 3 \<or> 0x3b \<in> set (take 3 p)))"

definition key_shape :: "byte list \<Rightarrow> bool" where
  "key_shape out \<longleftrightarrow> length out \<le> 4 \<or> (\<exists>p. out = ESC # p \<and> length p \<le> 12 \<and> 0x5b \<notin> set p)
     \<or> control_sequence out"

definition shaped :: "byte list option \<Rightarrow> bool" where
  "shaped r = (case r of None \<Rightarrow> True | Some out \<Rightarrow> key_shape out)"

lemma shaped_simps [simp]: "shaped None" "shaped (Some out) = key_shape out"
  by (simp_all add: shaped_def)

lemma shaped_if: "(c \<Longrightarrow> shaped a) \<Longrightarrow> (\<not> c \<Longrightarrow> shaped b) \<Longrightarrow> shaped (if c then a else b)"
  by simp

lemma length_ascii [simp]: "length (ascii s) = length s"
  by (simp add: ascii_def)

lemma key_shape_short [simp]: "length out \<le> 4 \<Longrightarrow> key_shape out"
  by (simp add: key_shape_def)

lemma key_shape_csi: "length p \<le> 7 \<Longrightarrow> 0x1b \<notin> set p \<Longrightarrow> length p \<le> 3 \<or> 0x3b \<in> set (take 3 p) \<Longrightarrow> key_shape (ESC # 0x5b # p)"
  by (auto simp: key_shape_def control_sequence_def)

lemma decimal_plain [simp]: "0x1b \<notin> set (decimal n)"
  by (rule decimal_misses) simp

lemma ascii_simps: "ascii [] = []" "ascii (c # s) = of_char c # ascii s"
  by (simp_all add: ascii_def)

lemma key_shape_one:
  assumes "param < 100" "x \<noteq> 0x1b" "y \<noteq> 0x1b"
  shows "key_shape (ESC # 0x5b # x # 0x3b # decimal param @ [y])"
  using length_decimal_two [OF assms(1)] assms(2,3) by (intro key_shape_csi) auto

lemma key_shape_two:
  assumes "param < 100" "number < 100"
  shows "key_shape (ESC # 0x5b # decimal number @ 0x3b # decimal param @ [0x7e])"
proof (rule key_shape_csi)
  have "length (decimal number) \<le> 2" using length_decimal_two [OF assms(2)] by simp
  then have "0x3b \<in> set (take (3 - length (decimal number)) (0x3b # decimal param @ [0x7e]))"
    by (cases "3 - length (decimal number)") auto
  then show "length (decimal number @ 0x3b # decimal param @ [0x7e]) \<le> 3
    \<or> 0x3b \<in> set (take 3 (decimal number @ 0x3b # decimal param @ [0x7e]))" by simp
qed (use length_decimal_two [OF assms(1)] length_decimal_two [OF assms(2)] in auto)

lemma key_shape_number:
  assumes "number < 100"
  shows "key_shape (ESC # 0x5b # decimal number @ [0x7e])"
  using length_decimal_two [OF assms] by (intro key_shape_csi) auto

lemma param_small: "unat (mods AND MODS_ALL) + 1 < 100"
proof -
  have "mods AND MODS_ALL \<le> MODS_ALL" by (rule word_and_le1)
  then have "unat (mods AND MODS_ALL) \<le> unat MODS_ALL" by (simp only: word_le_nat_alt)
  also have "\<dots> = 15" by (simp add: MODS_ALL_def SHIFT_def ALT_def CTRL_def META_def)
  finally show ?thesis by simp
qed

lemma first_unit_high: "length (first_utf16_unit t) = 1 \<or> (\<forall>b\<in>set (first_utf16_unit t). 0x80 \<le> b)"
proof (cases "utf8_char t")
  case None
  then show ?thesis by (simp add: first_utf16_unit_def)
next
  case (Some n)
  show ?thesis
  proof (cases "n = 1 \<or> n = 4")
    case True
    then show ?thesis using Some utf8_char_bounds [OF Some] by (auto simp: first_utf16_unit_def)
  next
    case False
    then obtain b u where t: "t = b # u" using Some by (cases t) (auto simp: utf8_char_def)
    have "0x80 \<le> b" using Some t False by (auto simp: utf8_char_def word_le_nat_alt split: if_splits)
    moreover have "0x80 \<le> t ! i" if "0 < i" "i < n" for i
      using utf8_char_conts [OF Some] that by (simp add: cont_byte_def)
    ultimately have "0x80 \<le> t ! i" if "i < n" for i
      using t that by (cases "i = 0") (simp, blast)
    then have "\<forall>x\<in>set (take n t). 0x80 \<le> x" by (auto simp: in_set_conv_nth)
    then show ?thesis using Some False by (simp add: first_utf16_unit_def)
  qed
qed

lemma other_key_shape:
  assumes "lower_ok lower" "utf8_valid key"
  shows "shaped (other_key lower key code kc shift alt ctrl meta platform)"
proof -
  note high = first_unit_high
  have unit: "length (first_utf16_unit t) \<le> 3" for t
    using utf8_char_bounds [of t] by (auto simp: first_utf16_unit_def split: option.split)
  have low: "key_shape (ESC # to_lowercase lower l)" if "length l \<le> 3" "length l = 1 \<or> (\<forall>b\<in>set l. 0x80 \<le> b)" for l
  proof (cases "length l = 1")
    case True
    then obtain b where "l = [b]" by (auto simp: length_Suc_conv)
    then show ?thesis by (simp add: to_lowercase_def)
  next
    case False
    then have "length (lower l) \<le> 12" "0x5b \<notin> set (lower l)" using assms(1) that by (simp_all add: lower_ok_def)
    then show ?thesis using False by (auto simp: to_lowercase_def key_shape_def split: list.split)
  qed
  show ?thesis
    unfolding other_key_def Let_def
    using one_unit [OF assms(2)] unit [of "drop 3 code"] low [OF unit high, of "drop 3 code"]
    by (intro shaped_if) (auto split: option.split simp: shaped_def map_option_case)
qed

lemma key_sequence_shape:
  assumes "lower_ok lower" "utf8_valid key"
  shows "shaped (key_sequence lower key code kc mods app platform)"
proof -
  define param where "param = unat (mods AND MODS_ALL) + 1"
  have param: "param < 100" unfolding param_def by (rule param_small)
  have one: "key_shape ([ESC] @ ascii [CHR ''['', d, CHR '';''] @ decimal param @ [y])" if "of_char d \<noteq> (0x1b :: byte)" "y \<noteq> 0x1b" for d y
    using key_shape_one [OF param that] by (simp add: ascii_simps)
  have two: "key_shape (ESC # ascii ''['' @ decimal number @ ascii '';'' @ decimal param @ ascii ''~'')" if "number < 100" for number
    using key_shape_two [OF param that] by (simp add: ascii_simps)
  have num: "key_shape (ESC # ascii ''['' @ decimal number @ ascii ''~'')" if "number < 100" for number
    using key_shape_number [OF that] by (simp add: ascii_simps)
  have fn: "[15, 17, 18, 19, 20, 21, 23, 24 :: nat] ! (kc - 116) < 100" if "116 \<le> kc" "kc \<le> 123"
  proof -
    have "\<forall>n\<in>set [15, 17, 18, 19, 20, 21, 23, 24 :: nat]. n < 100" by simp
    moreover have "kc - 116 < length [15, 17, 18, 19, 20, 21, 23, 24 :: nat]" using that by simp
    ultimately show ?thesis using nth_mem by blast
  qed
  have pf: "ascii ''PQRS'' ! (kc - 112) \<noteq> 0x1b" if "112 \<le> kc" "kc \<le> 115"
  proof -
    have "\<forall>b\<in>set (ascii ''PQRS''). b \<noteq> 0x1b" by (simp add: ascii_simps)
    moreover have "kc - 112 < length (ascii ''PQRS'')" using that by simp
    ultimately show ?thesis using nth_mem by blast
  qed
  have del: "key_shape (ESC # ascii ''[3;'' @ decimal param @ ascii ''~'')"
    using one [where d = "CHR ''3''" and y = "0x7e"] by (simp add: ascii_simps)
  have fkey: "key_shape (ESC # ascii ''[1;'' @ decimal param @ [ascii ''PQRS'' ! (kc - 112)])" if "112 \<le> kc" "kc \<le> 115"
    using one [where d = "CHR ''1''" and y = "ascii ''PQRS'' ! (kc - 112)"] pf [OF that] by (simp add: ascii_simps)
  have cursor: "key_shape (if modified then [ESC] @ ascii ''[1;'' @ decimal param @ ascii [l]
      else if app then [ESC] @ ascii [CHR ''O'', l] else [ESC] @ ascii [CHR ''['', l])" if "of_char l \<noteq> (0x1b :: byte)" for modified l
    using one [where d = "CHR ''1''" and y = "of_char l"] that by (auto simp: ascii_simps)
  show ?thesis
    unfolding key_sequence_def Let_def param_def [symmetric]
    by (intro shaped_if) (simp_all add: cursor del fkey two num fn other_key_shape [OF assms])
qed

lemma encode_key_shape:
  assumes "lower_ok lower" "utf8_valid key"
  shows "length (encode_key lower key code kc mods app platform) \<le> 5 \<or> key_shape (encode_key lower key code kc mods app platform)"
proof (cases "key_sequence lower key code kc mods app platform")
  case None
  then show ?thesis by (simp add: encode_key_def)
next
  case (Some sent)
  then have "key_shape sent" using key_sequence_shape [OF assms, of code kc mods app platform] by simp
  moreover have "length sent \<le> 4" if "take 1 sent = [13]"
    using that \<open>key_shape sent\<close> by (cases sent) (auto simp: key_shape_def control_sequence_def ESC_def)
  ultimately show ?thesis using Some by (auto simp: encode_key_def)
qed

lemma no_marker:
  assumes "length out \<le> 5 \<or> key_shape out" "m = [0x1b, 0x5b, 0x32, 0x30, x, 0x7e]" "x \<noteq> 0x3b"
  shows "\<not> sublist m out"
proof
  assume s: "sublist m out"
  then obtain ps ss where out: "out = ps @ m @ ss" by (auto simp: sublist_def)
  have len: "6 \<le> length out" using out assms(2) by simp
  then consider p where "out = ESC # p" "0x5b \<notin> set p" | "control_sequence out"
    using assms(1) by (auto simp: key_shape_def)
  then show False
  proof cases
    case 1
    have "0x5b \<in> set out" using out assms(2) by simp
    with 1 show False by (simp add: ESC_def)
  next
    case 2
    then obtain p where p: "out = ESC # 0x5b # p" "0x1b \<notin> set p" "length p \<le> 3 \<or> 0x3b \<in> set (take 3 p)"
      by (auto simp: control_sequence_def)
    have "ps = []"
    proof (cases ps)
      case (Cons a ps')
      then have "0x5b # p = ps' @ m @ ss" using out p(1) by simp
      moreover have "0x1b \<in> set (ps' @ m @ ss)" using assms(2) by simp
      ultimately show ?thesis using p(2) by (metis set_ConsD numeral_eq_iff ESC_def esc_bracket)
    qed
    then have "p = [0x32, 0x30, x, 0x7e] @ ss" using out p(1) assms(2) by simp
    then show False using p(3) assms(3) by auto
  qed
qed

lemma key_bytes_safe_length:
  assumes "lower_ok lower" "utf8_valid key"
  shows "length (encode_key lower key code kc mods app platform) \<le> 64"
  using encode_key_shape [OF assms, of code kc mods app platform] by (auto simp: key_shape_def control_sequence_def)

lemma high_not_bracket: "\<forall>b\<in>set c. 0x80 \<le> b \<Longrightarrow> (0x5b :: byte) \<notin> set c"
  by (metis high_bracket)

lemma lower_ok_id: "lower_ok id"
  using high_not_bracket by (simp add: lower_ok_def)

subsection \<open>Properties\<close>

definition ATOMIC_INPUT :: nat where "ATOMIC_INPUT = 64"

text \<open>
  C35: A key never does more than type a key. Whatever key a viewer reports, its bytes fit one
  write to the program's terminal (at most 64 bytes, so the host never splits a sequence such as
  Shift+Enter's), and neither of the two bracketed-paste markers occurs in them: no key can open
  or close a paste around what is typed.
\<close>

theorem key_bytes_safe:
  assumes "lower_ok lower" "utf8_valid key"
  shows "length (encode_key lower key code kc mods app platform) \<le> ATOMIC_INPUT
    \<and> \<not> sublist PASTE_START (encode_key lower key code kc mods app platform)
    \<and> \<not> sublist PASTE_END (encode_key lower key code kc mods app platform)"
proof -
  note shape = encode_key_shape [OF assms, of code kc mods app platform]
  have "length (encode_key lower key code kc mods app platform) \<le> 64" by (rule key_bytes_safe_length [OF assms])
  then show ?thesis
    using no_marker [OF shape PASTE_START_def] no_marker [OF shape PASTE_END_def] by (simp add: ATOMIC_INPUT_def)
qed

lemma key_bytes_safe_witness:
  "length (encode_key id (ascii ''Enter'') (ascii ''Enter'') 13 SHIFT False Mac) \<le> ATOMIC_INPUT
    \<and> encode_key id (ascii ''Enter'') (ascii ''Enter'') 13 SHIFT False Mac = [0x1b, 13]"
proof -
  have "utf8_valid (ascii ''Enter'')" by code_simp
  moreover have "encode_key id (ascii ''Enter'') (ascii ''Enter'') 13 SHIFT False Mac = [0x1b, 13]" by code_simp
  ultimately show ?thesis using key_bytes_safe [OF lower_ok_id] by blast
qed

text \<open>
  the platform matters only while Alt is held without Meta. For every other keydown a Mac and
  any other keyboard send the same bytes, so a terminal attached from two machines reads the same
  keys.
\<close>

theorem key_platform_only_alt:
  assumes "\<not> held_bit mods ALT \<or> held_bit mods META"
  shows "encode_key lower key code kc mods app Mac = encode_key lower key code kc mods app OtherPlatform"
proof -
  have "other_key lower key code kc shift alt ctrl meta Mac = other_key lower key code kc shift alt ctrl meta OtherPlatform"
    if "\<not> alt \<or> meta" for shift alt ctrl meta
    using that by (auto simp: other_key_def)
  then have "key_sequence lower key code kc mods app Mac = key_sequence lower key code kc mods app OtherPlatform"
    using assms by (simp add: key_sequence_def Let_def)
  then show ?thesis by (simp add: encode_key_def)
qed

lemma key_platform_only_alt_witness:
  "encode_key id (ascii ''_'') (ascii ''Minus'') 189 (CTRL OR SHIFT) False Mac
    = encode_key id (ascii ''_'') (ascii ''Minus'') 189 (CTRL OR SHIFT) False OtherPlatform"
  by (rule key_platform_only_alt) (simp add: held_bit_def ALT_def CTRL_def SHIFT_def)

end
