(* ===== verification/Mouse.thy ===== *)
theory Mouse
  imports Keys
begin

unbundle bit_operations_syntax

text \<open>
  Mouse and focus reports (\<^verbatim>\<open>encode_mouse\<close>, \<^verbatim>\<open>event_code\<close> and \<^verbatim>\<open>encode_focus\<close> in
  \<^verbatim>\<open>crates/farhelm-supervisor/src/grid_input.rs\<close>) from a program's modes
  (\<^verbatim>\<open>crates/farhelm-terminal-emulator/src/modes.rs\<close>), and what a program can read back from them.
\<close>

subsection \<open>Modes\<close>

datatype mouse_reporting = ReportOff | ReportClicks | ReportDrag | ReportMotion
datatype mouse_encoding = EncDefault | EncUtf8 | EncSgr

record modes =
  md_bracketed_paste :: bool
  md_mouse_reporting :: mouse_reporting
  md_mouse_encoding :: mouse_encoding
  md_focus_reporting :: bool
  md_application_cursor :: bool
  md_application_keypad :: bool
  md_alternate_screen :: bool
  md_cursor_visible :: bool

text \<open>The emulator's mode flags that are read.\<close>

datatype term_mode = MOUSE_MOTION | MOUSE_DRAG | MOUSE_REPORT_CLICK | SGR_MOUSE | UTF8_MOUSE
  | BRACKETED_PASTE | FOCUS_IN_OUT | APP_CURSOR | APP_KEYPAD | ALT_SCREEN | SHOW_CURSOR

definition from_term_mode :: "(term_mode \<Rightarrow> bool) \<Rightarrow> modes" where
  "from_term_mode contains = \<lparr>
     md_bracketed_paste = contains BRACKETED_PASTE,
     md_mouse_reporting =
       (if contains MOUSE_MOTION then ReportMotion else if contains MOUSE_DRAG then ReportDrag
        else if contains MOUSE_REPORT_CLICK then ReportClicks else ReportOff),
     md_mouse_encoding =
       (if contains SGR_MOUSE then EncSgr else if contains UTF8_MOUSE then EncUtf8 else EncDefault),
     md_focus_reporting = contains FOCUS_IN_OUT,
     md_application_cursor = contains APP_CURSOR,
     md_application_keypad = contains APP_KEYPAD,
     md_alternate_screen = contains ALT_SCREEN,
     md_cursor_visible = contains SHOW_CURSOR\<rparr>"

subsection \<open>Reports\<close>

definition BUTTON_NONE :: nat where "BUTTON_NONE = 3"
definition BUTTON_WHEEL :: nat where "BUTTON_WHEEL = 4"

datatype mouse_action = ActUp | ActDown | ActMove

definition event_code :: "nat \<Rightarrow> mouse_action \<Rightarrow> byte \<Rightarrow> bool \<Rightarrow> nat" where
  "event_code button action mods sgr =
     (let code = 0;
          code = (if held_bit mods CTRL then code OR 16 else code);
          code = (if held_bit mods SHIFT then code OR 4 else code);
          code = (if held_bit mods ALT then code OR 8 else code) in
      if button = BUTTON_WHEEL then
        (let code = code OR 64 in if action = ActDown then code OR 1 else code)
      else
        (let code = code OR (button AND 3) in
         case action of
           ActMove \<Rightarrow> code OR 32
         | ActUp \<Rightarrow> if \<not> sgr then code OR 3 else code
         | ActDown \<Rightarrow> code))"

text \<open>The button and the action of an event; a button outside 0 to 2 is none.\<close>

definition mouse_button :: "mouse_event_kind \<Rightarrow> int \<Rightarrow> nat \<times> mouse_action" where
  "mouse_button kind button =
     (let held = (if 0 \<le> button \<and> button \<le> 2 then nat button else BUTTON_NONE) in
      case kind of
        MouseDown \<Rightarrow> (held, ActDown)
      | MouseUp \<Rightarrow> (held, ActUp)
      | MouseMove \<Rightarrow> (held, ActMove)
      | MouseWheel \<Rightarrow> (BUTTON_WHEEL, if button = 0 then ActUp else ActDown))"

definition reported :: "mouse_reporting \<Rightarrow> nat \<Rightarrow> mouse_action \<Rightarrow> bool" where
  "reported r button action = (case r of
     ReportOff \<Rightarrow> False
   | ReportClicks \<Rightarrow> action \<noteq> ActMove
   | ReportDrag \<Rightarrow> action \<noteq> ActMove \<or> button \<noteq> BUTTON_NONE
   | ReportMotion \<Rightarrow> True)"

text \<open>A character's UTF-8 bytes; a surrogate or a value past the last character is none.\<close>

definition char_utf8 :: "nat \<Rightarrow> byte list option" where
  "char_utf8 v =
     (if v < 0x80 then Some [of_nat v]
      else if v < 0x800 then Some [of_nat (0xC0 + v div 64), of_nat (0x80 + v mod 64)]
      else if v < 0x10000 then
        (if 0xD800 \<le> v \<and> v < 0xE000 then None
         else Some [of_nat (0xE0 + v div 4096), of_nat (0x80 + v div 64 mod 64), of_nat (0x80 + v mod 64)])
      else if v < 0x110000 then
        Some [of_nat (0xF0 + v div 262144), of_nat (0x80 + v div 4096 mod 64), of_nat (0x80 + v div 64 mod 64),
          of_nat (0x80 + v mod 64)]
      else None)"

fun push_bytes :: "nat list \<Rightarrow> byte list \<Rightarrow> byte list" where
  "push_bytes [] out = out"
| "push_bytes (v # vs) out = (if 255 < v then [] else push_bytes vs (out @ [of_nat v]))"

fun push_chars :: "nat list \<Rightarrow> byte list \<Rightarrow> byte list" where
  "push_chars [] out = out"
| "push_chars (v # vs) out = (case char_utf8 v of None \<Rightarrow> [] | Some bs \<Rightarrow> push_chars vs (out @ bs))"

definition mouse_report :: "mouse_encoding \<Rightarrow> nat \<Rightarrow> mouse_action \<Rightarrow> nat \<Rightarrow> nat \<Rightarrow> byte \<Rightarrow> byte list" where
  "mouse_report enc button action x y mods =
     (let column = x + 1; row = y + 1 in
      case enc of
        EncSgr \<Rightarrow>
          (let code = event_code button action mods True;
               last' = (if action = ActUp \<and> button \<noteq> BUTTON_WHEEL then CHR ''m'' else CHR ''M'') in
           [ESC] @ ascii ''[<'' @ decimal code @ ascii '';'' @ decimal column @ ascii '';'' @ decimal row @ ascii [last'])
      | EncDefault \<Rightarrow>
          push_bytes [event_code button action mods False + 32, column + 32, row + 32] ([ESC] @ ascii ''[M'')
      | EncUtf8 \<Rightarrow>
          push_chars [event_code button action mods False + 32, column + 32, row + 32] ([ESC] @ ascii ''[M''))"

definition encode_mouse ::
  "mouse_event_kind \<Rightarrow> int \<Rightarrow> nat \<Rightarrow> nat \<Rightarrow> byte \<Rightarrow> modes \<Rightarrow> nat \<times> nat \<Rightarrow> byte list" where
  "encode_mouse kind button x y mods modes size' =
     (if md_mouse_reporting modes = ReportOff then
        (if kind = MouseWheel \<and> md_alternate_screen modes then
           (let letter = (if button = 0 then CHR ''A'' else CHR ''B'');
                intro = (if md_application_cursor modes then CHR ''O'' else CHR ''['') in
            [ESC] @ ascii [intro, letter])
         else [])
      else if fst size' \<le> x \<or> snd size' \<le> y then []
      else case mouse_button kind button of (button, action) \<Rightarrow>
        if button = BUTTON_NONE \<and> action \<noteq> ActMove then []
        else if \<not> reported (md_mouse_reporting modes) button action then []
        else mouse_report (md_mouse_encoding modes) button action x y mods)"

definition encode_focus :: "bool \<Rightarrow> modes \<Rightarrow> byte list" where
  "encode_focus focused modes =
     (if \<not> md_focus_reporting modes then []
      else if focused then [ESC] @ ascii ''[I'' else [ESC] @ ascii ''[O'')"

subsection \<open>What a report says\<close>

definition base_code :: "nat \<Rightarrow> mouse_action \<Rightarrow> bool \<Rightarrow> nat" where
  "base_code button action sgr =
     (if button = 4 then 64 + (if action = ActDown then 1 else 0)
      else case action of ActMove \<Rightarrow> 32 + button | ActUp \<Rightarrow> (if sgr then button else 3) | ActDown \<Rightarrow> button)"

definition mods_code :: "byte \<Rightarrow> nat" where
  "mods_code mods = (if held_bit mods CTRL then 16 else 0) + (if held_bit mods SHIFT then 4 else 0) + (if held_bit mods ALT then 8 else 0)"

lemma event_code_sum:
  assumes "button \<le> 4"
  shows "event_code button action mods sgr = base_code button action sgr + mods_code mods"
proof -
  have "button = 0 \<or> button = 1 \<or> button = 2 \<or> button = 3 \<or> button = 4" using assms by linarith
  then show ?thesis
    unfolding event_code_def base_code_def mods_code_def Let_def BUTTON_WHEEL_def
    by (cases action; cases "held_bit mods CTRL"; cases "held_bit mods SHIFT"; cases "held_bit mods ALT") auto
qed

lemma mods_code_le: "mods_code mods \<le> 28"
  by (simp add: mods_code_def)

lemma mods_code_inject:
  "mods_code m = mods_code m' \<Longrightarrow> held_bit m CTRL = held_bit m' CTRL \<and> held_bit m SHIFT = held_bit m' SHIFT \<and> held_bit m ALT = held_bit m' ALT"
  by (auto simp: mods_code_def split: if_splits)

lemma mouse_button_le: "mouse_button kind b = (button, action) \<Longrightarrow> button \<le> 4"
  by (auto simp: mouse_button_def BUTTON_NONE_def BUTTON_WHEEL_def Let_def split: mouse_event_kind.splits if_splits)

lemma validate_mouse:
  "validate_input (GridMouse kind b x y mods) = Inr () \<longleftrightarrow>
    b \<in> buttons kind \<and> x < GRID_MAX_DIMENSION \<and> y < GRID_MAX_DIMENSION \<and> mods AND NOT MODS_ALL = 0"
  by (auto simp: try_bind_eq_Inr validate_mods_def)

lemma base_code_le: "button \<le> 4 \<Longrightarrow> base_code button action sgr \<le> 65"
  by (auto simp: base_code_def split: mouse_action.split)

lemma event_code_le: "button \<le> 4 \<Longrightarrow> event_code button action mods sgr \<le> 93"
  using base_code_le [of button action sgr] mods_code_le [of mods] by (simp add: event_code_sum)

end
