(* ===== verification/Input_Encoder.thy ===== *)
theory Input_Encoder
  imports Mouse Key_Properties
begin

unbundle bit_operations_syntax

text \<open>
  The input encoder of one attachment (\<^verbatim>\<open>InputEncoder\<close> in
  \<^verbatim>\<open>crates/farhelm-supervisor/src/grid_input.rs\<close>): each grid input message becomes the bytes a
  program reads; the only state is the paste in progress.
\<close>

subsection \<open>The encoder\<close>

record paste_in_progress =
  pp_bracketed :: bool
  pp_text :: paste_text

datatype input_error = PasteInterrupted string

type_synonym input_encoder = "paste_in_progress option"

definition encoder_new :: input_encoder where "encoder_new = None"

definition paste_open :: "input_encoder \<Rightarrow> bool" where "paste_open enc \<longleftrightarrow> enc \<noteq> None"

definition interrupting_kind :: "grid_input \<Rightarrow> string option" where
  "interrupting_kind input = (case input of
     GridKey k c kc m mac \<Rightarrow> Some ''key''
   | GridText d \<Rightarrow> Some ''text''
   | GridPaste d l \<Rightarrow> None
   | GridMouse k b x y m \<Rightarrow> Some ''mouse''
   | GridFocus f \<Rightarrow> Some ''focus'')"

definition encode_paste :: "byte list \<Rightarrow> bool \<Rightarrow> modes \<Rightarrow> input_encoder \<Rightarrow> byte list \<times> input_encoder" where
  "encode_paste data last' modes enc =
     (if enc = None \<and> data = [] \<and> last' then ([], None)
      else
        let (paste, out) = (case enc of
            Some paste \<Rightarrow> (paste, [])
          | None \<Rightarrow>
              let bracketed = md_bracketed_paste modes in
              (\<lparr>pp_bracketed = bracketed, pp_text = paste_text_default\<rparr>, if bracketed then PASTE_START else []));
            (txt, out) = paste_push data (pp_text paste, out) in
        if \<not> last' then (out, Some (paste\<lparr>pp_text := txt\<rparr>))
        else
          let (txt, out) = paste_end (txt, out) in
          (if pp_bracketed paste then out @ PASTE_END else out, None))"

definition encode_message ::
  "(byte list \<Rightarrow> byte list) \<Rightarrow> grid_input \<Rightarrow> modes \<Rightarrow> nat \<times> nat \<Rightarrow> input_encoder \<Rightarrow> (input_error + byte list) \<times> input_encoder" where
  "encode_message lower input modes size' enc =
     (case (interrupting_kind input, enc) of
        (Some kind, Some paste) \<Rightarrow> (Inl (PasteInterrupted kind), enc)
      | _ \<Rightarrow>
        (case input of
           GridKey key code kc mods mac \<Rightarrow>
             (Inr (encode_key lower key code kc mods (md_application_cursor modes) (if mac then Mac else OtherPlatform)), enc)
         | GridText data \<Rightarrow> (Inr data, enc)
         | GridPaste data last' \<Rightarrow> (case encode_paste data last' modes enc of (out, enc) \<Rightarrow> (Inr out, enc))
         | GridMouse kind button x y mods \<Rightarrow> (Inr (encode_mouse kind button x y mods modes size'), enc)
         | GridFocus focused \<Rightarrow> (Inr (encode_focus focused modes), enc)))"

definition finish :: "input_encoder \<Rightarrow> byte list option \<times> input_encoder" where
  "finish enc = (case enc of
     Some paste \<Rightarrow> (if pp_bracketed paste then Some PASTE_END else None, None)
   | None \<Rightarrow> (None, None))"

text \<open>\<^verbatim>\<open>bytes.chunks(MAX_INPUT)\<close>.\<close>

function input_frames :: "byte list \<Rightarrow> byte list list" where
  "input_frames bytes = (if bytes = [] then [] else take MAX_INPUT bytes # input_frames (drop MAX_INPUT bytes))"
  by pat_completeness auto
termination by (relation "measure length") (auto simp: MAX_INPUT_def)

declare input_frames.simps [simp del]

text \<open>The parts of one paste, each with the modes when it arrived; the last ends it.\<close>

fun encode_parts :: "(byte list \<times> modes) list \<Rightarrow> input_encoder \<Rightarrow> byte list list \<times> input_encoder" where
  "encode_parts [] enc = ([], enc)"
| "encode_parts ((data, modes) # parts) enc =
     (let (out, enc) = encode_paste data (parts = []) modes enc;
          (outs, enc) = encode_parts parts enc in (out # outs, enc))"

subsection \<open>Lengths\<close>

lemma emit_length: "length (snd (emit b s)) \<le> Suc (length (snd s))"
  by (cases s) (simp add: emit_def)

lemma emitted_length: "length (emitted cr bs) \<le> length bs"
  by (induction bs arbitrary: cr) (auto intro: le_SucI)

text \<open>A filter's output and what it holds together grow by at most what it reads.\<close>

lemma paste_length:
  "length (snd (paste_byte b s)) + held_len (paste_byte b s) \<le> Suc (length (snd s) + held_len s)"
  "length (snd (paste_push bs s)) + held_len (paste_push bs s) \<le> length bs + (length (snd s) + held_len s)"
proof (induction b s and bs s rule: paste_byte_paste_push.induct)
  case (1 b p out)
  show ?case
  proof (cases "pt_held p = [] \<or> pt_held p @ [b] = PASTE_END \<or> prefix (pt_held p @ [b]) PASTE_END")
    case True
    then show ?thesis by (auto simp: held_len_def emit_def Let_def)
  next
    case False
    then show ?thesis using 1 by (simp add: held_len_def)
  qed
qed simp_all

lemma paste_end_length: "length (snd (paste_end s)) \<le> length (snd s) + held_len s"
proof -
  obtain p out where s: "s = (p, out)" by (cases s)
  have "length (emitted (pt_after_cr p) (tl (pt_held p))) \<le> length (pt_held p)"
    using emitted_length [of "pt_after_cr p" "tl (pt_held p)"] by simp
  then show ?thesis by (simp add: s paste_end_def held_len_def fold_emit)
qed

subsection \<open>One paste, however it is cut\<close>

lemma emit_pre: "emit b (p, pre @ out) = (fst (emit b (p, out)), pre @ snd (emit b (p, out)))"
  by (simp add: emit_def)

lemma paste_pre:
  "paste_byte b (fst s, pre @ snd s) = (fst (paste_byte b s), pre @ snd (paste_byte b s))"
  "paste_push bs (fst s, pre @ snd s) = (fst (paste_push bs s), pre @ snd (paste_push bs s))"
proof (induction b s and bs s rule: paste_byte_paste_push.induct)
  case (1 b p out)
  then show ?case by (auto simp: emit_pre Let_def)
next
  case (3 b bs s)
  then show ?case by (metis paste_push.simps(2) prod.collapse)
qed simp

lemma paste_end_pre: "paste_end (p, pre @ out) = (fst (paste_end (p, out)), pre @ snd (paste_end (p, out)))"
  by (simp add: paste_end_def fold_emit)

definition closing :: "paste_in_progress \<Rightarrow> byte list" where
  "closing paste = (if pp_bracketed paste then PASTE_END else [])"

lemma encode_parts_open:
  "parts \<noteq> [] \<Longrightarrow> encode_parts parts (Some paste) = (outs, enc) \<Longrightarrow>
    enc = None \<and> concat outs = snd (paste_end (paste_push (concat (map fst parts)) (pp_text paste, []))) @ closing paste"
proof (induction parts arbitrary: paste outs)
  case (Cons part parts)
  obtain d m where part: "part = (d, m)" by (cases part)
  obtain t o1 where push: "paste_push d (pp_text paste, []) = (t, o1)" by (cases "paste_push d (pp_text paste, [])")
  show ?case
  proof (cases "parts = []")
    case True
    then show ?thesis
      using Cons.prems part push by (auto simp: encode_paste_def Let_def closing_def split: prod.splits)
  next
    case False
    let ?paste = "paste\<lparr>pp_text := t\<rparr>"
    have first: "encode_paste d False m (Some paste) = (o1, Some ?paste)"
      using push by (simp add: encode_paste_def)
    obtain outs' where rest: "encode_parts parts (Some ?paste) = (outs', enc)" "outs = o1 # outs'"
      using Cons.prems(2) False part first by (auto split: prod.splits)
    from Cons.IH [OF False rest(1)]
    have IH: "enc = None" "concat outs' = snd (paste_end (paste_push (concat (map fst parts)) (t, []))) @ closing paste"
      by (auto simp: closing_def)
    have "paste_push (concat (map fst (part # parts))) (pp_text paste, []) = paste_push (concat (map fst parts)) (t, o1)"
      using part push by (simp add: paste_push_append)
    also have "\<dots> = (fst (paste_push (concat (map fst parts)) (t, [])), o1 @ snd (paste_push (concat (map fst parts)) (t, [])))"
      using paste_pre(2) [of _ "(t, [])" o1] by simp
    finally have "snd (paste_end (paste_push (concat (map fst (part # parts))) (pp_text paste, [])))
        = o1 @ snd (paste_end (paste_push (concat (map fst parts)) (t, [])))"
      by (simp add: paste_end_pre)
    then show ?thesis using IH rest(2) by simp
  qed
qed simp

lemma encode_paste_first:
  assumes "\<not> (data = [] \<and> last')"
  shows "encode_paste data last' modes None =
    (let paste = \<lparr>pp_bracketed = md_bracketed_paste modes, pp_text = paste_text_default\<rparr>;
         (out, enc) = encode_paste data last' modes (Some paste) in
     ((if md_bracketed_paste modes then PASTE_START else []) @ out, enc))"
proof -
  define pre where "pre = (if md_bracketed_paste modes then PASTE_START else [])"
  obtain t o1 where push: "paste_push data (paste_text_default, []) = (t, o1)" by (cases "paste_push data (paste_text_default, [])")
  then have "paste_push data (paste_text_default, pre) = (t, pre @ o1)"
    using paste_pre(2) [of data "(paste_text_default, [])" pre] by simp
  then show ?thesis
    using push assms paste_end_pre [of t pre o1]
    by (cases "last'"; cases "data = []") (simp_all add: encode_paste_def pre_def [symmetric] split: prod.splits)
qed

text \<open>
  C14: A paste comes out the same however it was cut into parts, and whatever the program does to
  its modes meanwhile. The bytes of all the parts together are the whole text with every
  end-of-paste marker and every other ESC dropped and then every CRLF and LF as CR, between the two
  markers when the program had bracketed paste on at the first part; an empty paste of one part is
  nothing. Between the markers there is no ESC and no line feed, so the text cannot close its paste.
\<close>

theorem paste_any_cut:
  assumes "parts \<noteq> []" "encode_parts parts encoder_new = (outs, enc)"
  shows "enc = encoder_new
    \<and> concat outs =
      (let txt = concat (map fst parts) in
       if txt = [] \<and> length parts = 1 then []
       else if md_bracketed_paste (snd (hd parts)) then PASTE_START @ crlf (sanitize txt) @ PASTE_END
       else crlf (sanitize txt))
    \<and> 0x1b \<notin> set (crlf (sanitize (concat (map fst parts)))) \<and> 10 \<notin> set (crlf (sanitize (concat (map fst parts))))"
proof -
  obtain d m rest where parts: "parts = (d, m) # rest" using assms(1) by (cases parts) auto
  have plain: "0x1b \<notin> set (crlf (sanitize ys)) \<and> 10 \<notin> set (crlf (sanitize ys))" for ys
    using set_crlf [of "sanitize ys"] no_esc_sanitize [of ys] by auto
  show ?thesis
  proof (cases "d = [] \<and> rest = []")
    case True
    then have "outs = [[]]" "enc = None" using assms(2) parts by (simp_all add: encoder_new_def encode_paste_def)
    then show ?thesis using True parts by (simp add: encoder_new_def)
  next
    case False
    let ?paste = "\<lparr>pp_bracketed = md_bracketed_paste m, pp_text = paste_text_default\<rparr>"
    define pre where "pre = (if md_bracketed_paste m then PASTE_START else [])"
    obtain outs' where outs: "encode_parts parts (Some ?paste) = (outs', enc)" "concat outs = pre @ concat outs'"
      using assms(2) parts encode_paste_first [of d "rest = []" m] False
      by (auto simp: encoder_new_def Let_def pre_def split: prod.splits)
    from encode_parts_open [OF assms(1) outs(1)]
    have "enc = None" "concat outs' = crlf (sanitize (concat (map fst parts))) @ closing ?paste"
      using paste_filter [of "concat (map fst parts)" "[]"] by auto
    moreover have "\<not> (concat (map fst parts) = [] \<and> length parts = 1)" using False parts by auto
    ultimately show ?thesis
      using outs(2) parts plain by (auto simp: encoder_new_def pre_def closing_def Let_def)
  qed
qed

definition sample_modes :: modes where
  "sample_modes = from_term_mode (\<lambda>m. m = BRACKETED_PASTE \<or> m = SGR_MOUSE \<or> m = MOUSE_DRAG)"

lemma paste_any_cut_witness:
  "encode_parts [([97, 13], sample_modes), ([10, 0x1b, 0x5b], from_term_mode (\<lambda>m. False)), ([0x32, 0x30, 0x31, 0x7e, 98], sample_modes)] encoder_new
    = ([PASTE_START @ [97, 13], [], [98] @ PASTE_END], encoder_new)
   \<and> concat [PASTE_START @ [97, 13], [], [98] @ PASTE_END] = PASTE_START @ crlf (sanitize [97, 13, 10, 0x1b, 0x5b, 0x32, 0x30, 0x31, 0x7e, 98]) @ PASTE_END"
proof -
  let ?parts = "[([97, 13], sample_modes), ([10, 0x1b, 0x5b], from_term_mode (\<lambda>m. False)), ([0x32, 0x30, 0x31, 0x7e, 98], sample_modes)]"
  have run: "encode_parts ?parts encoder_new = ([PASTE_START @ [97, 13], [], [98] @ PASTE_END], encoder_new)"
    by code_simp
  have "md_bracketed_paste sample_modes" by (simp add: sample_modes_def from_term_mode_def)
  then show ?thesis using paste_any_cut [OF _ run] run by (simp add: Let_def)
qed

subsection \<open>What one message comes to\<close>

text \<open>The messages of an attachment, each with the modes and size when it arrived.\<close>

type_synonym arrival = "grid_input \<times> modes \<times> (nat \<times> nat)"

fun encode_run :: "(byte list \<Rightarrow> byte list) \<Rightarrow> arrival list \<Rightarrow> input_encoder \<Rightarrow> (input_error + byte list) list \<times> input_encoder" where
  "encode_run lower [] enc = ([], enc)"
| "encode_run lower ((input, modes, size') # ms) enc =
     (let (r, enc) = encode_message lower input modes size' enc; (rs, enc) = encode_run lower ms enc in (r # rs, enc))"

definition enc_ok :: "input_encoder \<Rightarrow> bool" where
  "enc_ok enc \<longleftrightarrow> (\<forall>paste. enc = Some paste \<longrightarrow> held_ok (pt_held (pp_text paste)))"

lemma held_ok_le: "held_ok h \<Longrightarrow> length h \<le> 5"
  using prefix_length_less [of h PASTE_END] by (auto simp: held_ok_def PASTE_END_def)

lemma encode_paste_ok:
  assumes "enc_ok enc" "encode_paste data last' modes enc = (out, enc')"
  shows "enc_ok enc' \<and> length out \<le> length data + 17"
proof (cases "enc = None \<and> data = [] \<and> last'")
  case True
  then show ?thesis using assms(2) by (simp add: encode_paste_def enc_ok_def)
next
  case False
  define start :: "paste_in_progress \<times> byte list" where "start = (case enc of Some paste \<Rightarrow> (paste, [])
    | None \<Rightarrow> (\<lparr>pp_bracketed = md_bracketed_paste modes, pp_text = paste_text_default\<rparr>, if md_bracketed_paste modes then PASTE_START else []))"
  obtain paste pre where start: "start = (paste, pre)" by (cases start)
  have held: "held_ok (pt_held (pp_text paste))"
    using start assms(1) by (auto simp: start_def enc_ok_def paste_text_default_def held_ok_def split: option.splits)
  have "pre = [] \<or> pt_held (pp_text paste) = [] \<and> length pre \<le> 6"
    using start by (auto simp: start_def paste_text_default_def PASTE_START_def split: option.splits)
  then have h: "held_ok (pt_held (pp_text paste))" "length pre + length (pt_held (pp_text paste)) \<le> 6"
    using held held_ok_le [OF held] by auto
  define s where "s = paste_push data (pp_text paste, pre)"
  have s: "held_ok (pt_held (fst s))" "length (snd s) + held_len s \<le> length data + 6"
    using paste_passes(2) [of "(pp_text paste, pre)" data] paste_length(2) [of data "(pp_text paste, pre)"] h
    by (auto simp: s_def passes_def held_len_def)
  have e: "length (snd (paste_end s)) \<le> length data + 6" using paste_end_length [of s] s(2) by simp
  have "encode_paste data last' modes enc =
    (if \<not> last' then (snd s, Some (paste\<lparr>pp_text := fst s\<rparr>)) else (if pp_bracketed paste then snd (paste_end s) @ PASTE_END else snd (paste_end s), None))"
    using False start unfolding encode_paste_def start_def Let_def s_def by (simp split: option.splits prod.splits)
  then show ?thesis using assms(2) s e by (auto simp: enc_ok_def PASTE_END_def split: if_splits)
qed

lemma report_length: "length (push_bytes vs out) \<le> length out + length vs"
  by (induction vs out rule: push_bytes.induct) auto

lemma char_utf8_length: "char_utf8 v = Some bs \<Longrightarrow> length bs \<le> 4"
  by (auto simp: char_utf8_def split: if_splits)

lemma chars_length: "length (push_chars vs out) \<le> length out + 4 * length vs"
proof (induction vs out rule: push_chars.induct)
  case (2 v vs out)
  then show ?case using char_utf8_length [of v] by (cases "char_utf8 v") fastforce+
qed simp

lemma decimal_four: "n < 10000 \<Longrightarrow> length (decimal n) \<le> 4"
proof -
  assume n: "n < 10000"
  show ?thesis
  proof (cases "n < 100")
    case False
    then have "length (decimal n) = 2 + length (decimal (n div 100))"
      by (simp add: decimal.simps [of n] decimal.simps [of "n div 10"] div_mult2_eq [symmetric])
    then show ?thesis using length_decimal_two [of "n div 100"] n by simp
  qed (use length_decimal_two [of n] in simp)
qed

lemma mouse_length:
  assumes "validate_input (GridMouse kind b x y mods) = Inr ()"
  shows "length (encode_mouse kind b x y mods modes size') \<le> 18"
proof -
  have small: "x + 1 < 10000" "y + 1 < 10000" using assms unfolding validate_mouse by (simp_all add: GRID_MAX_DIMENSION_def)
  have "length (mouse_report enc button action x y mods) \<le> 18" if "button \<le> 4" for enc button action
  proof (cases enc)
    case EncDefault
    then show ?thesis using report_length [of "[event_code button action mods False + 32, x + 1 + 32, y + 1 + 32]" "[ESC] @ ascii ''[M''"]
      by (simp add: mouse_report_def del: push_bytes.simps)
  next
    case EncUtf8
    then show ?thesis using chars_length [of "[event_code button action mods False + 32, x + 1 + 32, y + 1 + 32]" "[ESC] @ ascii ''[M''"]
      by (simp add: mouse_report_def del: push_chars.simps)
  next
    case EncSgr
    have "length (decimal (event_code button action mods True)) \<le> 2"
      using length_decimal_two [of "event_code button action mods True"] event_code_le [OF that, of action mods True] by simp
    then show ?thesis using EncSgr decimal_four [OF small(1)] decimal_four [OF small(2)] by (simp add: mouse_report_def Let_def)
  qed
  then show ?thesis using mouse_button_le [of kind b]
    by (auto simp: encode_mouse_def Let_def split: prod.splits)
qed

definition key_utf8 :: "grid_input \<Rightarrow> bool" where
  "key_utf8 m = (case m of GridKey key c k b a \<Rightarrow> utf8_valid key | _ \<Rightarrow> True)"

lemma encode_message_length:
  assumes "lower_ok lower" "key_utf8 m" "validate_input m = Inr ()" "enc_ok enc"
    and "encode_message lower m modes size' enc = (r, enc')"
  shows "enc_ok enc' \<and> (\<forall>bytes. r = Inr bytes \<longrightarrow> length bytes \<le> MAX_INPUT)"
proof (cases m)
  case (GridPaste data last')
  have "length data \<le> GRID_MAX_PASTE_PART_BYTES" using assms(3) GridPaste by simp
  then show ?thesis
    using assms(5) GridPaste encode_paste_ok [OF assms(4), of data last' modes]
    by (fastforce simp: encode_message_def interrupting_kind_def GRID_MAX_PASTE_PART_BYTES_def MAX_INPUT_def split: prod.splits)
next
  case (GridKey key code kc mods mac)
  have "length (encode_key lower key code kc mods app platform) \<le> 64" for app platform
    using key_bytes_safe_length [OF assms(1), of key] assms(2) GridKey by (simp add: key_utf8_def)
  then have "length (encode_key lower key code kc mods app platform) \<le> MAX_INPUT" for app platform
    by (rule order_trans) (simp add: MAX_INPUT_def)
  then show ?thesis using assms(4,5) GridKey
    by (auto simp: encode_message_def interrupting_kind_def split: option.splits)
next
  case (GridText data)
  have "length data \<le> GRID_MAX_TEXT_INPUT_BYTES" using assms(3) GridText by simp
  then show ?thesis using assms(4,5) GridText
    by (auto simp: encode_message_def interrupting_kind_def GRID_MAX_TEXT_INPUT_BYTES_def MAX_INPUT_def split: option.splits)
next
  case (GridMouse kind b x y mods)
  then have "length (encode_mouse kind b x y mods modes size') \<le> 18" using mouse_length assms(3) by blast
  then show ?thesis using assms(4,5) GridMouse
    by (auto simp: encode_message_def interrupting_kind_def MAX_INPUT_def split: option.splits)
next
  case (GridFocus f)
  then show ?thesis using assms(4,5)
    by (auto simp: encode_message_def interrupting_kind_def encode_focus_def MAX_INPUT_def split: option.splits)
qed

lemma one_frame: "length bytes \<le> MAX_INPUT \<Longrightarrow> input_frames bytes = (if bytes = [] then [] else [bytes])"
  by (simp add: input_frames.simps [of bytes] input_frames.simps [of "[]"])

lemma encode_run_ok:
  "lower_ok lower \<Longrightarrow> \<forall>(m, a)\<in>set ms. key_utf8 m \<and> validate_input m = Inr () \<Longrightarrow> enc_ok enc \<Longrightarrow>
    encode_run lower ms enc = (rs, enc') \<Longrightarrow> enc_ok enc' \<and> (\<forall>bytes. Inr bytes \<in> set rs \<longrightarrow> length bytes \<le> MAX_INPUT)"
proof (induction ms arbitrary: enc rs)
  case (Cons m ms)
  obtain input modes size' where m: "m = (input, modes, size')" by (cases m)
  obtain r enc1 where one: "encode_message lower input modes size' enc = (r, enc1)" by fastforce
  obtain rs1 where rest: "encode_run lower ms enc1 = (rs1, enc')" "rs = r # rs1"
    using Cons.prems(4) m one by (auto split: prod.splits)
  have k: "key_utf8 input" "validate_input input = Inr ()" using Cons.prems(2) m by auto
  note step = encode_message_length [OF Cons.prems(1) k Cons.prems(3) one]
  have "enc_ok enc' \<and> (\<forall>bytes. Inr bytes \<in> set rs1 \<longrightarrow> length bytes \<le> MAX_INPUT)"
    using Cons.IH [OF Cons.prems(1) _ _ rest(1)] Cons.prems(2) step by simp
  then show ?case using step rest(2) by auto
qed simp

lemma frames_concat: "concat (input_frames bytes) = bytes"
  by (induction bytes rule: input_frames.induct) (subst input_frames.simps, simp)

text \<open>
  C34: One grid input message is one \<open>Input\<close> to the host. For any sequence of messages that passed
  their own checks, encoded one after the other from a fresh encoder, the bytes of each fit one
  \<open>Input\<close>, so cutting them gives that one frame (and none for no bytes); a message is refused exactly
  when it is no paste part and a paste is open, and a refusal leaves the paste as it was.
\<close>

theorem encoder_fits:
  assumes "lower_ok lower" "\<forall>(m, a)\<in>set ms. key_utf8 m \<and> validate_input m = Inr ()"
    and "encode_run lower ms encoder_new = (rs, enc)"
  shows "(\<forall>bytes. Inr bytes \<in> set rs \<longrightarrow> length bytes \<le> MAX_INPUT \<and> input_frames bytes = (if bytes = [] then [] else [bytes]))
    \<and> (\<forall>input modes size' e enc'. encode_message lower input modes size' enc = (Inl e, enc') \<longrightarrow>
        enc' = enc \<and> paste_open enc \<and> map_option PasteInterrupted (interrupting_kind input) = Some e)
    \<and> (\<forall>input modes size'. paste_open enc \<and> interrupting_kind input \<noteq> None \<longrightarrow>
        (\<exists>e. encode_message lower input modes size' enc = (Inl e, enc)))"
proof (intro conjI allI impI)
  have len: "\<forall>bytes. Inr bytes \<in> set rs \<longrightarrow> length bytes \<le> MAX_INPUT"
    using encode_run_ok [OF assms(1,2) _ assms(3)] by (simp add: enc_ok_def encoder_new_def)
  show "length bytes \<le> MAX_INPUT" "input_frames bytes = (if bytes = [] then [] else [bytes])" if "Inr bytes \<in> set rs" for bytes
    using len that one_frame [of bytes] by blast+
  fix input modes size' e enc'
  assume e: "encode_message lower input modes size' enc = (Inl e, enc')"
  then show "enc' = enc" "paste_open enc" "map_option PasteInterrupted (interrupting_kind input) = Some e"
    by (auto simp: encode_message_def paste_open_def split: option.splits grid_input.splits prod.splits)
next
  fix input modes size'
  assume "paste_open enc \<and> interrupting_kind input \<noteq> None"
  then show "\<exists>e. encode_message lower input modes size' enc = (Inl e, enc)"
    by (auto simp: encode_message_def paste_open_def)
qed

lemma encoder_fits_witness:
  "encode_run id [(GridText [104, 105], sample_modes, (80, 24)), (GridPaste [104] False, sample_modes, (80, 24)), (GridFocus True, sample_modes, (80, 24))] encoder_new
    = ([Inr [104, 105], Inr (PASTE_START @ [104]), Inl (PasteInterrupted ''focus'')],
       Some \<lparr>pp_bracketed = True, pp_text = \<lparr>pt_held = [], pt_after_cr = False\<rparr>\<rparr>)
   \<and> input_frames (PASTE_START @ [104]) = [PASTE_START @ [104]]"
proof -
  let ?ms = "[(GridText [104, 105], sample_modes, (80, 24)), (GridPaste [104] False, sample_modes, (80, 24)), (GridFocus True, sample_modes, (80, 24))] :: arrival list"
  have run: "encode_run id ?ms encoder_new = ([Inr [104, 105], Inr (PASTE_START @ [104]), Inl (PasteInterrupted ''focus'')],
       Some \<lparr>pp_bracketed = True, pp_text = \<lparr>pt_held = [], pt_after_cr = False\<rparr>\<rparr>)"
    by code_simp
  have ok: "\<forall>(m, a)\<in>set ?ms. key_utf8 m \<and> validate_input m = Inr ()"
    by (simp add: key_utf8_def GRID_MAX_TEXT_INPUT_BYTES_def GRID_MAX_PASTE_PART_BYTES_def)
  have "Inr (PASTE_START @ [104]) \<in> set [Inr [104, 105], Inr (PASTE_START @ [104]), Inl (PasteInterrupted ''focus'')]" by simp
  then have "input_frames (PASTE_START @ [104]) = [PASTE_START @ [104]]"
    using encoder_fits [OF lower_ok_id ok run] by (metis append_is_Nil_conv not_Cons_self2)
  then show ?thesis using run by blast
qed

end
