(* ===== verification/Mouse_Properties.thy ===== *)
theory Mouse_Properties
  imports Input_Encoder
begin

unbundle bit_operations_syntax

text \<open>
  Which mouse events a program hears of, and that a report in the SGR encoding says which event it
  was.
\<close>

lemma mouse_button_valid:
  assumes "b \<in> buttons kind"
  shows "mouse_button kind b = (case kind of
      MouseDown \<Rightarrow> (nat b, ActDown) | MouseUp \<Rightarrow> (nat b, ActUp)
    | MouseMove \<Rightarrow> (if b = - 1 then 3 else nat b, ActMove)
    | MouseWheel \<Rightarrow> (4, if b = 0 then ActUp else ActDown))"
  using assms by (cases kind) (auto simp: mouse_button_def buttons_def BUTTON_NONE_def BUTTON_WHEEL_def)

lemma push_bytes_nonempty: "out \<noteq> [] \<Longrightarrow> push_bytes vs out \<noteq> [] \<longleftrightarrow> (\<forall>v\<in>set vs. v \<le> 255)"
  by (induction vs out rule: push_bytes.induct) auto

lemma char_small: "v < 0x800 \<Longrightarrow> \<exists>c. char_utf8 v = Some c"
  by (simp add: char_utf8_def)

lemma push_chars_nonempty: "out \<noteq> [] \<Longrightarrow> \<forall>v\<in>set vs. v < 0x800 \<Longrightarrow> push_chars vs out \<noteq> []"
proof (induction vs out rule: push_chars.induct)
  case (2 v vs out)
  then show ?case using char_small [of v] by auto
qed simp

lemma report_nonempty:
  assumes "button \<le> 4" "x < 1000" "y < 1000"
  shows "mouse_report enc button action x y mods \<noteq> [] \<longleftrightarrow> (enc = EncDefault \<longrightarrow> x \<le> 222 \<and> y \<le> 222)"
proof -
  have c: "event_code button action mods False \<le> 93" by (rule event_code_le [OF assms(1)])
  show ?thesis
  proof (cases enc)
    case EncDefault
    then show ?thesis using c push_bytes_nonempty [of "[ESC] @ ascii ''[M''" "[event_code button action mods False + 32, x + 1 + 32, y + 1 + 32]"]
      by (auto simp: mouse_report_def Let_def simp del: push_bytes.simps)
  next
    case EncUtf8
    then show ?thesis using c assms push_chars_nonempty [of "[ESC] @ ascii ''[M''" "[event_code button action mods False + 32, x + 1 + 32, y + 1 + 32]"]
      by (simp add: mouse_report_def Let_def del: push_chars.simps)
  qed (simp add: mouse_report_def Let_def)
qed

text \<open>
  A program hears of exactly the mouse events its modes ask for. With reporting on, an event
  that passed the format's checks sends bytes if and only if it is on the screen as it is now, it is
  no motion or the mode reports that motion (any, or with a button held), and the encoding can say
  where it was (the default one cannot past column and row 223); with reporting off it sends bytes
  exactly for a wheel step on the alternate screen.
\<close>

theorem mouse_reported:
  assumes "validate_input (GridMouse kind b x y mods) = Inr ()"
  shows "encode_mouse kind b x y mods modes (c, l) \<noteq> [] \<longleftrightarrow>
    (if md_mouse_reporting modes = ReportOff then kind = MouseWheel \<and> md_alternate_screen modes
     else x < c \<and> y < l
       \<and> (kind = MouseMove \<longrightarrow> md_mouse_reporting modes = ReportMotion \<or> md_mouse_reporting modes = ReportDrag \<and> b \<noteq> - 1)
       \<and> (md_mouse_encoding modes = EncDefault \<longrightarrow> x \<le> 222 \<and> y \<le> 222))"
proof -
  have v: "b \<in> buttons kind" "x < 1000" "y < 1000" using assms unfolding validate_mouse GRID_MAX_DIMENSION_def by simp_all
  obtain button action where ba: "mouse_button kind b = (button, action)" by (cases "mouse_button kind b")
  have r: "mouse_report (md_mouse_encoding modes) button action x y mods \<noteq> [] \<longleftrightarrow> (md_mouse_encoding modes = EncDefault \<longrightarrow> x \<le> 222 \<and> y \<le> 222)"
    by (rule report_nonempty [OF mouse_button_le [OF ba] v(2,3)])
  have none: "button = BUTTON_NONE \<and> action \<noteq> ActMove \<longleftrightarrow> False"
    using ba v(1) unfolding mouse_button_valid [OF v(1)] by (cases kind) (auto simp: BUTTON_NONE_def buttons_def nat_eq_iff)
  have rep: "reported (md_mouse_reporting modes) button action \<longleftrightarrow> md_mouse_reporting modes \<noteq> ReportOff
      \<and> (kind = MouseMove \<longrightarrow> md_mouse_reporting modes = ReportMotion \<or> md_mouse_reporting modes = ReportDrag \<and> b \<noteq> - 1)"
    using ba v(1) unfolding mouse_button_valid [OF v(1)]
    by (cases kind; cases "md_mouse_reporting modes") (auto simp: reported_def BUTTON_NONE_def buttons_def nat_eq_iff split: if_splits)
  show ?thesis
    unfolding encode_mouse_def ba prod.case none if_False rep
    using r by (auto simp: ascii_def)
qed

lemma mouse_reported_witness:
  "encode_mouse MouseMove 0 4 5 0 sample_modes (80, 24) \<noteq> [] \<and> encode_mouse MouseMove (- 1) 4 5 0 sample_modes (80, 24) = []"
proof -
  have v: "validate_input (GridMouse MouseMove 0 4 5 0) = Inr ()" "validate_input (GridMouse MouseMove (- 1) 4 5 0) = Inr ()"
    by (simp_all add: validate_mods_def buttons_def GRID_MAX_DIMENSION_def)
  show ?thesis
    using mouse_reported [OF v(1), of sample_modes 80 24] mouse_reported [OF v(2), of sample_modes 80 24]
    by (simp add: sample_modes_def from_term_mode_def)
qed

text \<open>The number a validated event's report carries tells the kind, the button and the modifiers apart.\<close>

lemma base_code_valid:
  assumes "b \<in> buttons kind" "mouse_button kind b = (button, action)"
  shows "base_code button action True = (case kind of
      MouseDown \<Rightarrow> nat b | MouseUp \<Rightarrow> nat b | MouseMove \<Rightarrow> (if b = - 1 then 35 else 32 + nat b)
    | MouseWheel \<Rightarrow> (if b = 0 then 64 else 65))"
  using assms(1,2) unfolding mouse_button_valid [OF assms(1)]
  by (cases kind) (auto simp: base_code_def buttons_def split: if_splits)

lemma code_parts:
  assumes "(32 * q + r) + 4 * k = (32 * q' + r') + 4 * (k' :: nat)" "r < 4" "r' < 4" "k < 8" "k' < 8"
  shows "q = q' \<and> r = r' \<and> k = k'"
proof -
  have r: "r = r'"
  proof -
    have "(32 * q + r + 4 * k) mod 4 = r" "(32 * q' + r' + 4 * k') mod 4 = r'" using assms(2,3) by presburger+
    then show ?thesis using assms(1) by simp
  qed
  then have "8 * q + k = 8 * q' + k'" using assms(1) by linarith
  then have "q = q'" using assms(4,5) by linarith
  then show ?thesis using r assms(1) by simp
qed

lemma code_inject:
  assumes "b \<in> buttons kind" "mouse_button kind b = (button, action)"
    and "b' \<in> buttons kind'" "mouse_button kind' b' = (button', action')"
    and "event_code button action mods True = event_code button' action' mods' True"
  shows "base_code button action True = base_code button' action' True \<and> mods_code mods = mods_code mods'"
proof -
  have base: "\<exists>q r. base_code x a True = 32 * q + r \<and> r < 4"
    if "c \<in> buttons j" "mouse_button j c = (x, a)" for c j x a
    unfolding base_code_valid [OF that] using that(1)
    by (intro exI [of _ "case j of MouseDown \<Rightarrow> 0 | MouseUp \<Rightarrow> 0 | MouseMove \<Rightarrow> 1 | MouseWheel \<Rightarrow> 2"]
        exI [of _ "case j of MouseDown \<Rightarrow> nat c | MouseUp \<Rightarrow> nat c | MouseMove \<Rightarrow> (if c = - 1 then 3 else nat c) | MouseWheel \<Rightarrow> (if c = 0 then 0 else 1)"])
      (cases j; auto simp: buttons_def)
  have modk: "\<exists>k. mods_code m = 4 * k \<and> k < 8" for m
    by (intro exI [of _ "mods_code m div 4"]) (simp add: mods_code_def)
  obtain q r where q: "base_code button action True = 32 * q + r" "r < 4" using base [OF assms(1,2)] by auto
  obtain q' r' where q': "base_code button' action' True = 32 * q' + r'" "r' < 4" using base [OF assms(3,4)] by auto
  obtain k where k: "mods_code mods = 4 * k" "k < 8" using modk by blast
  obtain k' where k': "mods_code mods' = 4 * k'" "k' < 8" using modk by blast
  have "(32 * q + r) + 4 * k = (32 * q' + r') + 4 * k'"
    using assms(5) unfolding event_code_sum [OF mouse_button_le [OF assms(2)]] event_code_sum [OF mouse_button_le [OF assms(4)]] q q' k k' .
  from code_parts [OF this q(2) q'(2) k(2) k'(2)] show ?thesis using q q' k k' by simp
qed

definition final_letter :: "nat \<Rightarrow> mouse_action \<Rightarrow> char" where
  "final_letter button action = (if action = ActUp \<and> button \<noteq> BUTTON_WHEEL then CHR ''m'' else CHR ''M'')"

lemma sgr_report_inject:
  assumes "mouse_report EncSgr button action x y mods = mouse_report EncSgr button' action' x' y' mods'"
  shows "event_code button action mods True = event_code button' action' mods' True \<and> x = x' \<and> y = y'
    \<and> final_letter button action = final_letter button' action'"
proof -
  have semi: "(0x3b :: byte) \<notin> set (decimal n)" for n by (rule decimal_misses) simp
  have fin: "of_char (final_letter u v) \<notin> set (decimal n)" for u v n
    by (rule decimal_misses) (simp add: final_letter_def)
  have "decimal (event_code button action mods True) @ 0x3b # (decimal (x + 1) @ 0x3b # (decimal (y + 1) @ [of_char (final_letter button action)]))
    = decimal (event_code button' action' mods' True) @ 0x3b # (decimal (x' + 1) @ 0x3b # (decimal (y' + 1) @ [of_char (final_letter button' action')]))"
    using assms by (simp add: mouse_report_def Let_def ascii_simps final_letter_def)
  from decimal_split [OF this semi semi] have 1: "event_code button action mods True = event_code button' action' mods' True"
    "decimal (x + 1) @ 0x3b # (decimal (y + 1) @ [of_char (final_letter button action)])
      = decimal (x' + 1) @ 0x3b # (decimal (y' + 1) @ [of_char (final_letter button' action')])" by blast+
  from decimal_split [OF 1(2) semi semi] have 2: "x = x'"
    "decimal (y + 1) @ [of_char (final_letter button action) :: byte] = decimal (y' + 1) @ [of_char (final_letter button' action')]" by simp_all
  from decimal_split [OF 2(2) fin fin] have "y = y'" "(of_char (final_letter button action) :: byte) = of_char (final_letter button' action')"
    by simp_all
  then have "final_letter button action = final_letter button' action'" by (auto simp: final_letter_def split: if_splits)
  with \<open>y = y'\<close> show ?thesis using 1 2 by blast
qed

text \<open>
  A report in the SGR encoding says which event it was. When two events that passed the format's
  checks are reported with the same bytes, they are of the same kind, with the same button, at the
  same cell, under the same Shift, Alt and Ctrl.
\<close>

theorem sgr_report_exact:
  assumes "validate_input (GridMouse kind b x y mods) = Inr ()" "validate_input (GridMouse kind' b' x' y' mods') = Inr ()"
    and "md_mouse_reporting modes \<noteq> ReportOff" "md_mouse_encoding modes = EncSgr"
    and "encode_mouse kind b x y mods modes size' = encode_mouse kind' b' x' y' mods' modes size''"
    and "encode_mouse kind b x y mods modes size' \<noteq> []"
  shows "kind = kind' \<and> b = b' \<and> x = x' \<and> y = y' \<and> held_bit mods SHIFT = held_bit mods' SHIFT
    \<and> held_bit mods ALT = held_bit mods' ALT \<and> held_bit mods CTRL = held_bit mods' CTRL"
proof -
  have v: "b \<in> buttons kind" "b' \<in> buttons kind'" using assms(1,2) unfolding validate_mouse by blast+
  obtain button action where ba: "mouse_button kind b = (button, action)" by (cases "mouse_button kind b")
  obtain button' action' where ba': "mouse_button kind' b' = (button', action')" by (cases "mouse_button kind' b'")
  have "mouse_report EncSgr button action x y mods = encode_mouse kind b x y mods modes size'"
    using assms(3,4,6) ba unfolding encode_mouse_def by (auto split: if_splits)
  moreover have "mouse_report EncSgr button' action' x' y' mods' = encode_mouse kind' b' x' y' mods' modes size''"
    using assms(3,4) assms(6) [unfolded assms(5)] ba' unfolding encode_mouse_def by (auto split: if_splits)
  ultimately have eq: "event_code button action mods True = event_code button' action' mods' True" "x = x'" "y = y'"
    "final_letter button action = final_letter button' action'"
    using sgr_report_inject assms(5) by metis+
  have code: "base_code button action True = base_code button' action' True" "mods_code mods = mods_code mods'"
    using code_inject [OF v(1) ba v(2) ba' eq(1)] by blast+
  have "kind = kind' \<and> b = b'"
    using code(1) eq(4) ba ba' v
    unfolding base_code_valid [OF v(1) ba] base_code_valid [OF v(2) ba'] mouse_button_valid [OF v(1)] mouse_button_valid [OF v(2)]
    by (cases kind; cases kind') (auto simp: buttons_def final_letter_def BUTTON_WHEEL_def split: if_splits)
  then show ?thesis using eq(2,3) mods_code_inject [OF code(2)] by blast
qed

lemma sgr_report_exact_witness:
  "encode_mouse MouseDown 1 4 5 SHIFT sample_modes (80, 24) = encode_mouse MouseDown 1 4 5 (SHIFT OR META) sample_modes (80, 24)
    \<and> held_bit SHIFT SHIFT = held_bit (SHIFT OR META) SHIFT"
proof -
  have v: "validate_input (GridMouse MouseDown 1 4 5 SHIFT) = Inr ()" "validate_input (GridMouse MouseDown 1 4 5 (SHIFT OR META)) = Inr ()"
    by (simp_all add: validate_mods_def buttons_def GRID_MAX_DIMENSION_def MODS_ALL_def SHIFT_def ALT_def CTRL_def META_def)
  have m: "md_mouse_reporting sample_modes \<noteq> ReportOff" "md_mouse_encoding sample_modes = EncSgr"
    by (simp_all add: sample_modes_def from_term_mode_def)
  have eq: "encode_mouse MouseDown 1 4 5 SHIFT sample_modes (80, 24) = encode_mouse MouseDown 1 4 5 (SHIFT OR META) sample_modes (80, 24)"
    "encode_mouse MouseDown 1 4 5 SHIFT sample_modes (80, 24) \<noteq> []"
    by code_simp+
  show ?thesis using sgr_report_exact [OF v m eq] eq by blast
qed

end
