(* ===== verification/Attach.thy ===== *)
theory Attach
  imports Input_Encoder
begin

text \<open>
  A grid attachment's input side (\<^verbatim>\<open>HostAttach\<close> and its \<^verbatim>\<open>Pump\<close> in
  \<^verbatim>\<open>crates/farhelm-supervisor/src/service/grid_stream.rs\<close>): each data frame is decoded and encoded
  at once, pastes are collected until their last part, and a pump hands the queued input to the
  host's runtime. The runtime itself is the environment: it takes or refuses what it is handed and
  says each input's fate later. \<open>submits_a_line\<close> is \<^verbatim>\<open>service/capture.rs\<close>'s.
\<close>

subsection \<open>Lines\<close>

function submits_from :: "byte list \<Rightarrow> bool \<Rightarrow> nat \<Rightarrow> bool" where
  "submits_from frame in_paste index =
     (if index < length frame then
        let rest = drop index frame in
        if prefix PASTE_START rest then submits_from frame True (index + length PASTE_START)
        else if prefix PASTE_END rest then submits_from frame False (index + length PASTE_END)
        else if frame ! index = 13 \<and> \<not> in_paste \<and> (index = 0 \<or> frame ! (index - 1) \<noteq> 0x1b) then True
        else submits_from frame in_paste (index + 1)
      else False)"
  by pat_completeness auto
termination
  by (relation "measure (\<lambda>(frame, in_paste, index). length frame - index)") (auto simp: PASTE_START_def PASTE_END_def)

declare submits_from.simps [simp del]

definition submits_a_line :: "byte list \<Rightarrow> bool" where
  "submits_a_line frame = submits_from frame False 0"

subsection \<open>The attachment\<close>

definition MAX_PASTE :: nat where "MAX_PASTE = 8 * 1024 * 1024"
definition INPUT_BACKLOG :: nat where "INPUT_BACKLOG = MAX_PASTE"

record collected_paste =
  cp_bytes :: "byte list"
  cp_bracketed :: bool

datatype queued_input = OneOff "byte list" | QueuedPaste "byte list" bool

datatype input_fate = FateWritten | FateDiscarded | FateUnknown | FateNotSent

text \<open>What the runtime is handed: one input, or a whole paste and whether it opens with the marker.\<close>

datatype handed = HandedInput "byte list" | HandedPaste "byte list" bool

text \<open>An input the runtime took and has not told the fate of; a paste keeps its bytes counted.\<close>

datatype pending_fate = PieceFate | PasteFate nat

datatype attach_error = PumpFailed string | MalformedInput grid_error | BrokenRule input_error | BacklogFull | InputEnded

record attach =
  ha_encoder :: input_encoder
  ha_paste :: "collected_paste option"
  ha_queue :: "queued_input list"
  ha_backlog :: nat
  ha_failure :: "string option"
  ha_fates :: "pending_fate list"
  ha_pump :: bool
  ha_handed :: "handed list"

text \<open>\<open>ha_pump\<close> says that the pump runs; \<open>ha_handed\<close> is what the runtime took from it, ever.\<close>

definition attach_new :: attach where
  "attach_new = \<lparr>ha_encoder = encoder_new, ha_paste = None, ha_queue = [], ha_backlog = 0, ha_failure = None,
     ha_fates = [], ha_pump = True, ha_handed = []\<rparr>"

definition reserve :: "nat \<Rightarrow> attach \<Rightarrow> (attach_error + unit) \<times> attach" where
  "reserve len a =
     (if INPUT_BACKLOG < ha_backlog a + len then (Inl BacklogFull, a)
      else (Inr (), a\<lparr>ha_backlog := ha_backlog a + len\<rparr>))"

definition drop_paste :: "attach \<Rightarrow> attach" where
  "drop_paste a = (case ha_paste a of
     Some paste \<Rightarrow> a\<lparr>ha_paste := None, ha_backlog := ha_backlog a - length (cp_bytes paste)\<rparr>
   | None \<Rightarrow> a)"

definition queue_for_pump :: "queued_input \<Rightarrow> attach \<Rightarrow> (attach_error + unit) \<times> attach" where
  "queue_for_pump input a =
     (if ha_pump a then (Inr (), a\<lparr>ha_queue := ha_queue a @ [input]\<rparr>) else (Inl InputEnded, a))"

definition collect_paste :: "byte list \<Rightarrow> bool \<Rightarrow> bool \<Rightarrow> attach \<Rightarrow> (attach_error + bool) \<times> attach" where
  "collect_paste bytes last' bracketed a =
     (if ha_paste a = None \<and> last' \<and> bytes = [] then (Inr False, a)
      else case reserve (length bytes) a of
        (Inl refused, a) \<Rightarrow> (Inl refused, drop_paste a)
      | (Inr u, a) \<Rightarrow>
        (let paste = (case ha_paste a of Some paste \<Rightarrow> paste | None \<Rightarrow> \<lparr>cp_bytes = [], cp_bracketed = bracketed\<rparr>);
             paste = paste\<lparr>cp_bytes := cp_bytes paste @ bytes\<rparr> in
         if \<not> last' then (Inr False, a\<lparr>ha_paste := Some paste\<rparr>)
         else
           let a = a\<lparr>ha_paste := None\<rparr> in
           if cp_bytes paste = [] then (Inr False, a)
           else
             let submits = \<not> cp_bracketed paste \<and> submits_a_line (cp_bytes paste) in
             case queue_for_pump (QueuedPaste (cp_bytes paste) (cp_bracketed paste)) a of
               (Inl e, a) \<Rightarrow> (Inl e, a)
             | (Inr u, a) \<Rightarrow> (Inr submits, a)))"

definition send_grid_input ::
  "(byte list \<Rightarrow> byte list) \<Rightarrow> (byte list \<Rightarrow> grid_input option) \<Rightarrow> modes \<Rightarrow> nat \<times> nat \<Rightarrow> byte list \<Rightarrow> attach
    \<Rightarrow> (attach_error + bool) \<times> attach" where
  "send_grid_input lower parse modes size' frame a =
     (case ha_failure a of Some reason \<Rightarrow> (Inl (PumpFailed reason), a)
      | None \<Rightarrow>
        (case decode_input parse frame of Inl e \<Rightarrow> (Inl (MalformedInput e), a)
         | Inr input \<Rightarrow>
           (case encode_message lower input modes size' (ha_encoder a) of
              (Inl e, enc) \<Rightarrow> (Inl (BrokenRule e), a\<lparr>ha_encoder := enc\<rparr>)
            | (Inr bytes, enc) \<Rightarrow>
              (let a = a\<lparr>ha_encoder := enc\<rparr> in
               case input of
                 GridPaste data last' \<Rightarrow> collect_paste bytes last' (md_bracketed_paste modes) a
               | _ \<Rightarrow>
                 if bytes = [] then (Inr False, a)
                 else
                   let submits = submits_a_line bytes in
                   case reserve (length bytes) a of
                     (Inl e, a) \<Rightarrow> (Inl e, a)
                   | (Inr u, a) \<Rightarrow>
                     (case queue_for_pump (OneOff bytes) a of
                        (Inl e, a) \<Rightarrow> (Inl e, a)
                      | (Inr u, a) \<Rightarrow> (Inr submits, a))))))"

subsection \<open>The pump\<close>

text \<open>
  The runtime's answers to what it is handed, in order: it takes it, or refuses it for a reason; and
  when they run out, the attachment ended while one was waited for, and what was being handed over
  was not. \<open>ha_fates\<close> holds the fates still to come, oldest first. A hand-over that does not succeed
  leaves the pump with a reason, or with none when it was cancelled.
\<close>

datatype hand_answer = HandTaken | HandRefused string

fun send_pieces :: "hand_answer list \<Rightarrow> byte list list \<Rightarrow> attach \<Rightarrow> (string option + unit) \<times> attach" where
  "send_pieces answers [] a = (Inr (), a)"
| "send_pieces [] (piece # pieces) a = (Inl None, a)"
| "send_pieces (HandRefused reason # answers) (piece # pieces) a = (Inl (Some reason), a)"
| "send_pieces (HandTaken # answers) (piece # pieces) a =
     send_pieces answers pieces (a\<lparr>ha_handed := ha_handed a @ [HandedInput piece], ha_fates := ha_fates a @ [PieceFate]\<rparr>)"

definition pump_handle :: "hand_answer list \<Rightarrow> queued_input \<Rightarrow> attach \<Rightarrow> (string option + unit) \<times> attach" where
  "pump_handle answers input a = (case input of
     OneOff bytes \<Rightarrow> send_pieces answers (input_frames bytes) (a\<lparr>ha_backlog := ha_backlog a - length bytes\<rparr>)
   | QueuedPaste bytes bracketed \<Rightarrow>
       (case answers of
          [] \<Rightarrow> (Inl None, a)
        | HandRefused refused # _ \<Rightarrow> (Inl (Some refused), a\<lparr>ha_backlog := ha_backlog a - length bytes\<rparr>)
        | HandTaken # _ \<Rightarrow> (Inr (), a\<lparr>ha_handed := ha_handed a @ [HandedPaste bytes bracketed],
            ha_fates := ha_fates a @ [PasteFate (length bytes)]\<rparr>)))"

definition lost :: "input_fate \<Rightarrow> string option" where
  "lost fate = (case fate of
     FateWritten \<Rightarrow> None
   | FateDiscarded \<Rightarrow> None
   | FateUnknown \<Rightarrow> Some ''the connection to the terminal host ended before it confirmed the input, so some of it may be lost''
   | FateNotSent \<Rightarrow> Some ''input was not sent after earlier input was lost'')"

definition pump_stop :: "string option \<Rightarrow> attach \<Rightarrow> attach" where
  "pump_stop failed a = (let a = (case failed of Some reason \<Rightarrow> a\<lparr>ha_failure := Some reason\<rparr> | None \<Rightarrow> a) in
     a\<lparr>ha_pump := False, ha_queue := []\<rparr>)"

text \<open>One turn of the pump's loop, on the event that came: a cancel, the oldest fate, or queued input.\<close>

datatype pump_event = Cancelled | Fate input_fate | Queued "hand_answer list"

definition pump_step :: "pump_event \<Rightarrow> attach \<Rightarrow> attach" where
  "pump_step event a = (if \<not> ha_pump a then a else case event of
     Cancelled \<Rightarrow> pump_stop None a
   | Fate fate \<Rightarrow>
       (case ha_fates a of
          [] \<Rightarrow> a
        | oldest # fates \<Rightarrow>
            (let a = (case oldest of PieceFate \<Rightarrow> a | PasteFate len \<Rightarrow> a\<lparr>ha_backlog := ha_backlog a - len\<rparr>);
                 a = a\<lparr>ha_fates := fates\<rparr> in
             case lost fate of Some reason \<Rightarrow> pump_stop (Some reason) a | None \<Rightarrow> a))
   | Queued answers \<Rightarrow>
       (case ha_queue a of
          [] \<Rightarrow> a
        | input # queue \<Rightarrow>
            (case pump_handle answers input (a\<lparr>ha_queue := queue\<rparr>) of
               (Inl failed, a) \<Rightarrow> pump_stop failed a
             | (Inr u, a) \<Rightarrow> a)))"

subsection \<open>Runs of an attachment\<close>

text \<open>
  The frames the viewer sends and the turns of the pump, in any order. An error ends the attachment,
  so nothing follows one. \<open>ms\<close> is what was accepted: each message with the modes and the size it was
  encoded with.
\<close>

inductive attach_reach :: "(byte list \<Rightarrow> byte list) \<Rightarrow> (byte list \<Rightarrow> grid_input option) \<Rightarrow> arrival list \<Rightarrow> attach \<Rightarrow> bool"
  for lower parse where
  start: "attach_reach lower parse [] attach_new"
| pump: "attach_reach lower parse ms a \<Longrightarrow> attach_reach lower parse ms (pump_step event a)"
| frame: "attach_reach lower parse ms a \<Longrightarrow> decode_input parse bytes = Inr input \<Longrightarrow>
    send_grid_input lower parse modes size' bytes a = (Inr submits, a') \<Longrightarrow>
    attach_reach lower parse (ms @ [(input, modes, size')]) a'"

inductive_cases attach_reachE: "attach_reach lower parse ms a"

text \<open>
  What the program is to be written, from the messages alone: each message's bytes as one input,
  and each whole paste as one.
\<close>

definition paste_bytes :: "(byte list \<times> modes) list \<Rightarrow> byte list" where
  "paste_bytes parts = (let whole = concat (map fst parts) in
     if whole = [] \<and> length parts = 1 then []
     else if md_bracketed_paste (snd (hd parts)) then PASTE_START @ crlf (sanitize whole) @ PASTE_END
     else crlf (sanitize whole))"

definition message_bytes :: "(byte list \<Rightarrow> byte list) \<Rightarrow> arrival \<Rightarrow> byte list" where
  "message_bytes lower m = (case m of (input, modes, size') \<Rightarrow>
     (case input of
        GridKey key code kc mods mac \<Rightarrow>
          encode_key lower key code kc mods (md_application_cursor modes) (if mac then Mac else OtherPlatform)
      | GridText data \<Rightarrow> data
      | GridPaste data last' \<Rightarrow> []
      | GridMouse kind button x y mods \<Rightarrow> encode_mouse kind button x y mods modes size'
      | GridFocus focused \<Rightarrow> encode_focus focused modes))"

fun intended :: "(byte list \<Rightarrow> byte list) \<Rightarrow> (byte list \<times> modes) list \<Rightarrow> arrival list \<Rightarrow> queued_input list" where
  "intended lower parts [] = []"
| "intended lower parts (m # ms) =
     (case m of
        (GridPaste data last', modes, size') \<Rightarrow>
          (let parts = parts @ [(data, modes)] in
           if \<not> last' then intended lower parts ms
           else (if paste_bytes parts = [] then [] else [QueuedPaste (paste_bytes parts) (md_bracketed_paste (snd (hd parts)))])
             @ intended lower [] ms)
      | _ \<Rightarrow> (if message_bytes lower m = [] then [] else [OneOff (message_bytes lower m)]) @ intended lower parts ms)"

text \<open>
  The runtime is handed exactly these inputs: a one-off one in pieces the wire can carry, a paste as
  one.
\<close>

inductive hands_over :: "handed list \<Rightarrow> queued_input list \<Rightarrow> bool" where
  nothing_left: "hands_over [] []"
| one_off: "concat pieces = bytes \<Longrightarrow> \<forall>p\<in>set pieces. p \<noteq> [] \<and> length p \<le> MAX_INPUT \<Longrightarrow> hands_over hs qs \<Longrightarrow>
    hands_over (map HandedInput pieces @ hs) (OneOff bytes # qs)"
| whole_paste: "hands_over hs qs \<Longrightarrow> hands_over (HandedPaste bytes bracketed # hs) (QueuedPaste bytes bracketed # qs)"

text \<open>The same up to a first input that was cut short.\<close>

definition cut_off :: "handed list \<Rightarrow> queued_input list \<Rightarrow> queued_input list \<Rightarrow> bool" where
  "cut_off hs taken later \<longleftrightarrow> (\<exists>whole pieces. hs = whole @ map HandedInput pieces \<and> hands_over whole taken
     \<and> (pieces = [] \<or> (\<exists>bytes rest. later = OneOff bytes # rest \<and> prefix (concat pieces) bytes)))"

end
