(* ===== verification/Attach_Properties.thy ===== *)
theory Attach_Properties
  imports Attach
begin

text \<open>
  What an attachment's input comes to: each message's bytes once and in order, a paste whole or not
  at all, and never more than the backlog held.
\<close>

subsection \<open>The intended input, one message at a time\<close>

fun open_parts :: "(byte list \<times> modes) list \<Rightarrow> arrival list \<Rightarrow> (byte list \<times> modes) list" where
  "open_parts parts [] = parts"
| "open_parts parts (m # ms) =
     (case m of
        (GridPaste data last', modes, size') \<Rightarrow> open_parts (if last' then [] else parts @ [(data, modes)]) ms
      | _ \<Rightarrow> open_parts parts ms)"

lemma open_parts_append: "open_parts parts (ms @ ns) = open_parts (open_parts parts ms) ns"
proof (induction ms arbitrary: parts)
  case (Cons x xs)
  obtain i mo s where "x = (i, mo, s)" by (cases x)
  then show ?case using Cons by (cases i) simp_all
qed simp

lemma intended_append: "intended lower parts (ms @ ns) = intended lower parts ms @ intended lower (open_parts parts ms) ns"
proof (induction ms arbitrary: parts)
  case (Cons x xs)
  obtain i mo s where "x = (i, mo, s)" by (cases x)
  then show ?case using Cons by (cases i) (simp_all add: Let_def)
qed simp

text \<open>The parts of a paste that is still open.\<close>

fun encode_open :: "(byte list \<times> modes) list \<Rightarrow> input_encoder \<Rightarrow> byte list list \<times> input_encoder" where
  "encode_open [] enc = ([], enc)"
| "encode_open ((data, modes) # parts) enc =
     (let (out, enc) = encode_paste data False modes enc; (outs, enc) = encode_open parts enc in (out # outs, enc))"

lemma encode_open_snoc:
  "encode_open (parts @ [(data, modes)]) enc =
    (let (outs, enc) = encode_open parts enc; (out, enc) = encode_paste data False modes enc in (outs @ [out], enc))"
  by (induction parts enc rule: encode_open.induct) (auto simp: Let_def split: prod.splits)

lemma encode_parts_snoc:
  "encode_parts (parts @ [(data, modes)]) enc =
    (let (outs, enc) = encode_open parts enc; (out, enc) = encode_paste data True modes enc in (outs @ [out], enc))"
  by (induction parts enc rule: encode_open.induct) (auto simp: Let_def split: prod.splits)

lemma encode_paste_open: "encode_paste data False modes enc = (out, enc') \<Longrightarrow>
    \<exists>paste. enc' = Some paste \<and> pp_bracketed paste = (case enc of Some p \<Rightarrow> pp_bracketed p | None \<Rightarrow> md_bracketed_paste modes)"
  by (auto simp: encode_paste_def Let_def split: option.splits prod.splits if_splits)

lemma whole_paste:
  assumes "encode_open parts None = (outs, enc)" "encode_paste data True modes enc = (out, enc')"
  shows "concat outs @ out = paste_bytes (parts @ [(data, modes)]) \<and> enc' = None"
proof -
  have "encode_parts (parts @ [(data, modes)]) encoder_new = (outs @ [out], enc')"
    using assms by (simp add: encode_parts_snoc encoder_new_def)
  from paste_any_cut [OF _ this] show ?thesis by (simp add: paste_bytes_def Let_def encoder_new_def)
qed

subsection \<open>The invariant\<close>

definition queued_len :: "queued_input \<Rightarrow> nat" where
  "queued_len q = (case q of OneOff bs \<Rightarrow> length bs | QueuedPaste bs b \<Rightarrow> length bs)"

definition fate_len :: "pending_fate \<Rightarrow> nat" where
  "fate_len f = (case f of PieceFate \<Rightarrow> 0 | PasteFate n \<Rightarrow> n)"

definition collected_len :: "collected_paste option \<Rightarrow> nat" where
  "collected_len p = (case p of None \<Rightarrow> 0 | Some paste \<Rightarrow> length (cp_bytes paste))"

definition held_bytes :: "attach \<Rightarrow> nat" where
  "held_bytes a = collected_len (ha_paste a) + sum_list (map queued_len (ha_queue a)) + sum_list (map fate_len (ha_fates a))"

definition counts :: "attach \<Rightarrow> bool" where
  "counts a \<longleftrightarrow> ha_backlog a \<le> INPUT_BACKLOG \<and> (ha_pump a \<longrightarrow> ha_backlog a = held_bytes a)"

definition collecting :: "(byte list \<times> modes) list \<Rightarrow> attach \<Rightarrow> bool" where
  "collecting parts a \<longleftrightarrow> (\<exists>outs. encode_open parts None = (outs, ha_encoder a)
     \<and> ha_paste a = (if parts = [] then None
         else Some \<lparr>cp_bytes = concat outs, cp_bracketed = md_bracketed_paste (snd (hd parts))\<rparr>))"

definition delivers :: "queued_input list \<Rightarrow> attach \<Rightarrow> bool" where
  "delivers items a \<longleftrightarrow> (\<exists>taken later. items = taken @ later
     \<and> (if ha_pump a then hands_over (ha_handed a) taken \<and> later = ha_queue a
        else cut_off (ha_handed a) taken later \<and> ha_queue a = []))"

lemma delivers_upd [simp]: "delivers items (a\<lparr>ha_encoder := e\<rparr>) = delivers items a"
    "delivers items (a\<lparr>ha_paste := p\<rparr>) = delivers items a" "delivers items (a\<lparr>ha_backlog := n\<rparr>) = delivers items a"
  by (simp_all add: delivers_def)

lemma delivers_running: "ha_pump a \<Longrightarrow> delivers items a \<longleftrightarrow> (\<exists>taken. items = taken @ ha_queue a \<and> hands_over (ha_handed a) taken)"
  by (auto simp: delivers_def)

lemma hands_over_append: "hands_over hs qs \<Longrightarrow> hands_over hs' qs' \<Longrightarrow> hands_over (hs @ hs') (qs @ qs')"
  by (induction rule: hands_over.induct) (auto intro: hands_over.intros)

lemma cut_off_later: "cut_off hs taken later \<Longrightarrow> cut_off hs taken (later @ added)"
  by (fastforce simp: cut_off_def)

lemma cut_off_whole: "hands_over hs taken \<Longrightarrow> cut_off hs taken later"
  by (auto simp: cut_off_def intro: exI [of _ "[]"])

lemma delivers_more: "delivers items a \<Longrightarrow> ha_pump a' = ha_pump a \<Longrightarrow> ha_handed a' = ha_handed a \<Longrightarrow>
    ha_queue a' = ha_queue a @ (if ha_pump a then added else []) \<Longrightarrow> delivers (items @ added) a'"
proof -
  assume d: "delivers items a" and eq: "ha_pump a' = ha_pump a" "ha_handed a' = ha_handed a" "ha_queue a' = ha_queue a @ (if ha_pump a then added else [])"
  show ?thesis
  proof (cases "ha_pump a")
    case True
    then show ?thesis using d eq by (auto simp: delivers_running)
  next
    case False
    then obtain taken later where "items = taken @ later" "cut_off (ha_handed a) taken later" "ha_queue a = []"
      using d by (auto simp: delivers_def)
    then have "items @ added = taken @ (later @ added)" "cut_off (ha_handed a) taken (later @ added)" "ha_queue a' = []"
      using False eq cut_off_later by simp_all
    then show ?thesis using False eq unfolding delivers_def by auto
  qed
qed

lemmas len_defs = queued_len_def fate_len_def collected_len_def

lemma send_pieces_sel:
  "send_pieces answers pieces a = (r, a') \<Longrightarrow> \<exists>n\<le>length pieces. (r = Inr () \<longrightarrow> n = length pieces)
    \<and> a' = a\<lparr>ha_handed := ha_handed a @ map HandedInput (take n pieces), ha_fates := ha_fates a @ replicate n PieceFate\<rparr>"
proof (induction answers pieces a rule: send_pieces.induct)
  case (4 answers piece pieces a)
  then obtain n where "n \<le> length pieces" "r = Inr () \<longrightarrow> n = length pieces"
    "a' = a\<lparr>ha_handed := (ha_handed a @ [HandedInput piece]) @ map HandedInput (take n pieces), ha_fates := (ha_fates a @ [PieceFate]) @ replicate n PieceFate\<rparr>"
    by auto
  then show ?case by (intro exI [of _ "Suc n"]) simp
qed auto

lemma input_frames_pieces: "p \<in> set (input_frames bytes) \<Longrightarrow> p \<noteq> [] \<and> length p \<le> MAX_INPUT"
proof (induction bytes rule: input_frames.induct)
  case (1 bytes)
  then show ?case by (subst (asm) (2) input_frames.simps) (auto simp: MAX_INPUT_def split: if_splits)
qed

lemma prefix_concat_take: "prefix (concat (take n xs)) (concat xs)"
  by (metis append_take_drop_id concat_append prefixI)

lemma fate_len_piece [simp]: "fate_len PieceFate = 0"
  by (simp add: fate_len_def)

lemma pump_stop_sel [simp]:
  "ha_encoder (pump_stop r a) = ha_encoder a" "ha_paste (pump_stop r a) = ha_paste a" "ha_queue (pump_stop r a) = []"
  "ha_backlog (pump_stop r a) = ha_backlog a" "ha_pump (pump_stop r a) = False" "ha_handed (pump_stop r a) = ha_handed a"
  by (simp_all add: pump_stop_def Let_def split: option.splits)

text \<open>The pump hands over what it took, or the start of it, and touches nothing else.\<close>

lemma pump_handle_ok:
  assumes "pump_handle answers input a = (r, a')" "ha_pump a"
    and "ha_backlog a = held_bytes a + queued_len input"
  shows "ha_encoder a' = ha_encoder a \<and> ha_paste a' = ha_paste a \<and> ha_queue a' = ha_queue a
    \<and> ha_pump a' \<and> ha_backlog a' \<le> ha_backlog a \<and> (r = Inr () \<longrightarrow> ha_backlog a' = held_bytes a')"
proof (cases input)
  case (OneOff bs)
  then have "send_pieces answers (input_frames bs) (a\<lparr>ha_backlog := ha_backlog a - length bs\<rparr>) = (r, a')"
    using assms(1) by (simp add: pump_handle_def)
  from send_pieces_sel [OF this] obtain n where "a' = (a\<lparr>ha_backlog := ha_backlog a - length bs\<rparr>)
      \<lparr>ha_handed := ha_handed a @ map HandedInput (take n (input_frames bs)), ha_fates := ha_fates a @ replicate n PieceFate\<rparr>"
    by auto
  then show ?thesis using OneOff assms(2,3) by (simp add: held_bytes_def queued_len_def)
next
  case (QueuedPaste bs b)
  then show ?thesis using assms by (auto simp: pump_handle_def held_bytes_def len_defs split: list.splits hand_answer.splits)
qed

lemma pump_handle_hands:
  assumes "pump_handle answers input a = (r, a')"
  shows "\<exists>hs. ha_handed a' = ha_handed a @ hs
    \<and> (if r = Inr () then hands_over hs [input] else \<exists>pieces. hs = map HandedInput pieces \<and> (pieces = [] \<or> (\<exists>bytes. input = OneOff bytes \<and> prefix (concat pieces) bytes)))"
proof (cases input)
  case (OneOff bs)
  from assms OneOff have "send_pieces answers (input_frames bs) (a\<lparr>ha_backlog := ha_backlog a - length bs\<rparr>) = (r, a')"
    by (simp add: pump_handle_def)
  from send_pieces_sel [OF this] obtain n where n: "r = Inr () \<longrightarrow> n = length (input_frames bs)"
    "ha_handed a' = ha_handed a @ map HandedInput (take n (input_frames bs))" by force
  have "hands_over (map HandedInput (input_frames bs) @ []) [OneOff bs]"
    using input_frames_pieces by (intro hands_over.one_off frames_concat hands_over.nothing_left) blast
  then have whole: "r = Inr () \<Longrightarrow> hands_over (map HandedInput (take n (input_frames bs))) [OneOff bs]" using n(1) by simp
  have part: "prefix (concat (take n (input_frames bs))) bs" using prefix_concat_take [of n "input_frames bs"] by (simp add: frames_concat)
  show ?thesis unfolding OneOff
    by (rule exI [of _ "map HandedInput (take n (input_frames bs))"]) (use n(2) whole part in auto)
next
  case (QueuedPaste bs b)
  then show ?thesis using assms
    by (auto simp: pump_handle_def hands_over.whole_paste [OF hands_over.nothing_left] split: list.splits hand_answer.splits)
qed

lemma pump_step_ok:
  assumes "counts a" "delivers items a" "collecting parts a"
  shows "counts (pump_step event a) \<and> delivers items (pump_step event a) \<and> collecting parts (pump_step event a)"
proof (cases "ha_pump a")
  case False
  then show ?thesis using assms by (simp add: pump_step_def)
next
  case True
  then obtain taken where held: "ha_backlog a = held_bytes a" "ha_backlog a \<le> INPUT_BACKLOG"
    and items: "items = taken @ ha_queue a" "hands_over (ha_handed a) taken"
    using assms(1,2) by (auto simp: counts_def delivers_running)
  have stop: "delivers items (pump_stop r a')" if "ha_handed a' = ha_handed a" for r a'
    using items cut_off_whole [OF items(2)] that by (auto simp: delivers_def)
  show ?thesis
  proof (cases event)
    case Cancelled
    then show ?thesis using True held assms(3) stop [of a None] by (simp add: pump_step_def counts_def collecting_def)
  next
    case (Fate fate)
    show ?thesis
    proof (cases "ha_fates a")
      case Nil
      then show ?thesis using Fate assms by (simp add: pump_step_def)
    next
      case (Cons f fs)
      define a1 where "a1 = (case f of PieceFate \<Rightarrow> a | PasteFate len \<Rightarrow> a\<lparr>ha_backlog := ha_backlog a - len\<rparr>)\<lparr>ha_fates := fs\<rparr>"
      have a1: "ha_backlog a1 = ha_backlog a - fate_len f" "ha_fates a1 = fs" "ha_pump a1" "ha_handed a1 = ha_handed a"
        "ha_queue a1 = ha_queue a" "ha_encoder a1 = ha_encoder a" "ha_paste a1 = ha_paste a"
        using True by (auto simp: a1_def fate_len_def split: pending_fate.splits)
      have step: "pump_step event a = (case lost fate of Some reason \<Rightarrow> pump_stop (Some reason) a1 | None \<Rightarrow> a1)"
        using True Fate Cons by (cases f; cases "lost fate") (simp_all add: pump_step_def a1_def Let_def)
      have "ha_backlog a1 = held_bytes a1" "ha_backlog a1 \<le> INPUT_BACKLOG"
        using held a1 Cons by (auto simp: held_bytes_def)
      then show ?thesis
        using a1 items assms(3) stop [of a1 "Some (the (lost fate))"]
        by (cases "lost fate") (simp_all add: step counts_def delivers_running collecting_def)
    qed
  next
    case (Queued answers)
    show ?thesis
    proof (cases "ha_queue a")
      case Nil
      then show ?thesis using Queued assms by (simp add: pump_step_def)
    next
      case (Cons q qs)
      let ?a = "a\<lparr>ha_queue := qs\<rparr>"
      obtain r a1 where go: "pump_handle answers q ?a = (r, a1)" by (cases "pump_handle answers q ?a")
      have "ha_backlog ?a = held_bytes ?a + queued_len q" using held(1) Cons by (simp add: held_bytes_def)
      from pump_handle_ok [OF go _ this] True
      have a1: "ha_encoder a1 = ha_encoder a" "ha_paste a1 = ha_paste a" "ha_queue a1 = qs"
        "ha_pump a1" "ha_backlog a1 \<le> ha_backlog a" "r = Inr () \<longrightarrow> ha_backlog a1 = held_bytes a1" by auto
      from pump_handle_hands [OF go] obtain hs where hs: "ha_handed a1 = ha_handed a @ hs"
        "if r = Inr () then hands_over hs [q] else \<exists>pieces. hs = map HandedInput pieces \<and> (pieces = [] \<or> (\<exists>bytes. q = OneOff bytes \<and> prefix (concat pieces) bytes))"
        by auto
      have step: "pump_step event a = (case r of Inl failed \<Rightarrow> pump_stop failed a1 | Inr u \<Rightarrow> a1)"
        using True Queued Cons go by (simp add: pump_step_def)
      show ?thesis
      proof (cases r)
        case (Inl failed)
        then obtain pieces where "hs = map HandedInput pieces" "pieces = [] \<or> (\<exists>bytes. q = OneOff bytes \<and> prefix (concat pieces) bytes)"
          using hs(2) by auto
        then have "cut_off (ha_handed a1) taken (ha_queue a)"
          using hs(1) items(2) Cons by (auto simp: cut_off_def)
        then have "delivers items (pump_stop failed a1)" using items(1) by (auto simp: delivers_def)
        then show ?thesis using Inl a1 held(2) assms(3) by (simp add: step counts_def collecting_def)
      next
        case (Inr u)
        then have "hands_over (ha_handed a1) (taken @ [q])"
          using hs items(2) hands_over_append by (cases u) auto
        then have "delivers items a1" using items(1) Cons a1 by (auto simp: delivers_running)
        then show ?thesis using Inr a1 held(2) assms(3) by (simp add: step counts_def collecting_def)
      qed
    qed
  qed
qed

subsection \<open>A frame\<close>

lemma reserve_cases:
  "reserve len a = (Inr u, a') \<Longrightarrow> a' = a\<lparr>ha_backlog := ha_backlog a + len\<rparr> \<and> ha_backlog a + len \<le> INPUT_BACKLOG"
  "reserve len a = (Inl e, a') \<Longrightarrow> a' = a \<and> e = BacklogFull \<and> INPUT_BACKLOG < ha_backlog a + len"
  by (auto simp: reserve_def split: if_splits)

lemma queue_cases:
  "queue_for_pump input a = (Inr u, a') \<Longrightarrow> ha_pump a \<and> a' = a\<lparr>ha_queue := ha_queue a @ [input]\<rparr>"
  "queue_for_pump input a = (Inl e, a') \<Longrightarrow> \<not> ha_pump a \<and> a' = a"
  by (auto simp: queue_for_pump_def split: if_splits)

lemma queue_go:
  "(case queue_for_pump q a of (Inl e, a) \<Rightarrow> (Inl e, a) | (Inr u, a) \<Rightarrow> (Inr s, a)) = (Inr s', a') \<Longrightarrow>
    ha_pump a \<and> a' = a\<lparr>ha_queue := ha_queue a @ [q]\<rparr>"
  by (auto simp: queue_for_pump_def split: if_splits)

lemma collecting_open:
  assumes "collecting parts a" "parts \<noteq> []"
  shows "\<exists>outs paste. encode_open parts None = (outs, Some paste) \<and> ha_encoder a = Some paste
    \<and> ha_paste a = Some \<lparr>cp_bytes = concat outs, cp_bracketed = md_bracketed_paste (snd (hd parts))\<rparr>"
proof -
  obtain d m ps where parts: "parts = ps @ [(d, m)]" using assms(2) by (metis prod.exhaust rev_exhaust)
  obtain outs where o: "encode_open parts None = (outs, ha_encoder a)"
    "ha_paste a = Some \<lparr>cp_bytes = concat outs, cp_bracketed = md_bracketed_paste (snd (hd parts))\<rparr>"
    using assms by (auto simp: collecting_def)
  then have "\<exists>paste. ha_encoder a = Some paste"
    using encode_paste_open unfolding parts encode_open_snoc Let_def by (fastforce split: prod.splits)
  then show ?thesis using o by auto
qed

lemma collect_paste_go:
  assumes "\<not> (ha_paste a = None \<and> last' \<and> bytes = [])" "reserve (length bytes) a = (Inr (), a1)"
    and "(case ha_paste a1 of Some paste \<Rightarrow> paste | None \<Rightarrow> \<lparr>cp_bytes = [], cp_bracketed = br\<rparr>)
        \<lparr>cp_bytes := cp_bytes (case ha_paste a1 of Some paste \<Rightarrow> paste | None \<Rightarrow> \<lparr>cp_bytes = [], cp_bracketed = br\<rparr>) @ bytes\<rparr> = paste"
  shows "collect_paste bytes last' br a =
    (if \<not> last' then (Inr False, a1\<lparr>ha_paste := Some paste\<rparr>)
     else if cp_bytes paste = [] then (Inr False, a1\<lparr>ha_paste := None\<rparr>)
     else case queue_for_pump (QueuedPaste (cp_bytes paste) (cp_bracketed paste)) (a1\<lparr>ha_paste := None\<rparr>) of
       (Inl e, a) \<Rightarrow> (Inl e, a)
     | (Inr u, a) \<Rightarrow> (Inr (\<not> cp_bracketed paste \<and> submits_a_line (cp_bytes paste)), a))"
  unfolding collect_paste_def if_not_P [OF assms(1)] assms(2) prod.case sum.case Let_def assms(3) ..

lemma hd_snoc_any: "xs \<noteq> [] \<Longrightarrow> hd (xs @ ys) = hd xs"
  by simp

text \<open>One accepted paste part.\<close>

lemma paste_frame:
  assumes C: "counts a" "delivers items a" "collecting parts a"
    and enc: "encode_paste data last' modes (ha_encoder a) = (bytes, enc)"
    and go: "collect_paste bytes last' (md_bracketed_paste modes) (a\<lparr>ha_encoder := enc\<rparr>) = (Inr submits, a')"
  shows "counts a'
    \<and> delivers (items @ (if last' \<and> paste_bytes (parts @ [(data, modes)]) \<noteq> []
        then [QueuedPaste (paste_bytes (parts @ [(data, modes)])) (md_bracketed_paste (snd (hd (parts @ [(data, modes)]))))] else [])) a'
    \<and> collecting (if last' then [] else parts @ [(data, modes)]) a'"
proof -
  let ?a = "a\<lparr>ha_encoder := enc\<rparr>"
  let ?parts = "parts @ [(data, modes)]"
  obtain outs where outs: "encode_open parts None = (outs, ha_encoder a)"
    and p: "ha_paste a = (if parts = [] then None else Some \<lparr>cp_bytes = concat outs, cp_bracketed = md_bracketed_paste (snd (hd parts))\<rparr>)"
    using C(3) by (auto simp: collecting_def)
  have whole: "last' \<Longrightarrow> concat outs @ bytes = paste_bytes ?parts \<and> enc = None"
    using whole_paste [OF outs] enc by auto
  have opened: "\<not> last' \<Longrightarrow> encode_open ?parts None = (outs @ [bytes], enc)"
    using outs enc by (simp add: encode_open_snoc)
  show ?thesis
  proof (cases "parts = [] \<and> last' \<and> bytes = []")
    case True
    then have "outs = []" using outs by simp
    then have "paste_bytes ?parts = []" "enc = None" using whole True by auto
    moreover have "a' = ?a" using go True p by (simp add: collect_paste_def)
    ultimately show ?thesis using C True p by (simp add: counts_def held_bytes_def collecting_def)
  next
    case False
    let ?paste = "\<lparr>cp_bytes = concat outs @ bytes, cp_bracketed = md_bracketed_paste (snd (hd ?parts))\<rparr>"
    have outs0: "parts = [] \<Longrightarrow> outs = []" using outs by simp
    have len: "collected_len (ha_paste a) = length (concat outs)" using p outs0 by (auto simp: collected_len_def)
    obtain a1 where r: "reserve (length bytes) ?a = (Inr (), a1)"
      using go False p by (auto simp: collect_paste_def split: prod.splits sum.splits if_splits)
    have a1: "a1 = ?a\<lparr>ha_backlog := ha_backlog a + length bytes\<rparr>" "ha_backlog a + length bytes \<le> INPUT_BACKLOG"
      using reserve_cases(1) [OF r] by simp_all
    have paste: "(case ha_paste a1 of Some paste \<Rightarrow> paste | None \<Rightarrow> \<lparr>cp_bytes = [], cp_bracketed = md_bracketed_paste modes\<rparr>)
        \<lparr>cp_bytes := cp_bytes (case ha_paste a1 of Some paste \<Rightarrow> paste | None \<Rightarrow> \<lparr>cp_bytes = [], cp_bracketed = md_bracketed_paste modes\<rparr>) @ bytes\<rparr> = ?paste"
      using p outs0 a1 by (cases "parts = []") simp_all
    have busy: "\<not> (ha_paste ?a = None \<and> last' \<and> bytes = [])" using False p by (cases "parts = []") simp_all
    have go1: "(if \<not> last' then (Inr False, a1\<lparr>ha_paste := Some ?paste\<rparr>)
        else if cp_bytes ?paste = [] then (Inr False, a1\<lparr>ha_paste := None\<rparr>)
        else case queue_for_pump (QueuedPaste (cp_bytes ?paste) (cp_bracketed ?paste)) (a1\<lparr>ha_paste := None\<rparr>) of
          (Inl e, a) \<Rightarrow> (Inl e, a)
        | (Inr u, a) \<Rightarrow> (Inr (\<not> cp_bracketed ?paste \<and> submits_a_line (cp_bytes ?paste)), a)) = (Inr submits, a')"
      using go unfolding collect_paste_go [OF busy r paste] .
    consider (part) "\<not> last'" | (empty) "last'" "concat outs @ bytes = []" | (full) "last'" "concat outs @ bytes \<noteq> []" by blast
    then show ?thesis
    proof cases
      case part
      then have "a' = a1\<lparr>ha_paste := Some ?paste\<rparr>" using go1 by simp
      then show ?thesis using part C a1 opened len by (simp add: counts_def held_bytes_def collecting_def collected_len_def)
    next
      case empty
      then have "a' = a1\<lparr>ha_paste := None\<rparr>" using go1 by simp
      then show ?thesis using empty C a1 whole len
        by (simp add: counts_def held_bytes_def collecting_def collected_len_def)
    next
      case full
      then have n: "(\<not> last') = False" "(cp_bytes ?paste = []) = False" by simp_all
      have q: "ha_pump a" "a' = a1\<lparr>ha_paste := None, ha_queue := ha_queue a @ [QueuedPaste (concat outs @ bytes) (md_bracketed_paste (snd (hd ?parts)))]\<rparr>"
        using queue_go [OF go1 [unfolded n if_False]] a1 by simp_all
      have L: "length (paste_bytes ?parts) = length (concat outs) + length bytes"
        using whole full by (metis length_append)
      show ?thesis using q full C a1 whole len L
        by (simp add: counts_def held_bytes_def delivers_running collecting_def collected_len_def queued_len_def)
    qed
  qed
qed

lemma counts_encoder: "counts a \<Longrightarrow> counts (a\<lparr>ha_encoder := enc\<rparr>)"
  by (simp add: counts_def held_bytes_def)

text \<open>One accepted message that is no paste part.\<close>

lemma message_frame:
  assumes C: "counts a" "delivers items a" "collecting parts a"
    and enc: "encode_message lower input modes size' (ha_encoder a) = (Inr bytes, enc)"
    and plain: "interrupting_kind input \<noteq> None"
    and go: "send_grid_input lower parse modes size' frame a = (Inr submits, a')" "decode_input parse frame = Inr input"
  shows "counts a' \<and> parts = [] \<and> collecting parts a'
    \<and> delivers (items @ (if message_bytes lower (input, modes, size') \<noteq> [] then [OneOff (message_bytes lower (input, modes, size'))] else [])) a'"
proof -
  have "ha_encoder a = None" using enc plain by (auto simp: encode_message_def split: option.splits)
  then have parts: "parts = []"
    using collecting_open [OF C(3)] by auto
  have bytes: "bytes = message_bytes lower (input, modes, size')" and e: "enc = ha_encoder a"
    using enc plain \<open>ha_encoder a = None\<close>
    by (cases input; simp add: encode_message_def message_bytes_def interrupting_kind_def)+
  have nofail: "ha_failure a = None" using go(1) by (auto simp: send_grid_input_def split: option.splits)
  have kinds: "(case input of GridPaste data last' \<Rightarrow> X data last' | _ \<Rightarrow> Y) = Y" for X Y
    using plain by (cases input) (simp_all add: interrupting_kind_def)
  have upd: "a\<lparr>ha_encoder := enc\<rparr> = a" using e by (cases a) simp
  have go1: "(if bytes = [] then (Inr False, a)
      else case reserve (length bytes) a of (Inl e, a) \<Rightarrow> (Inl e, a)
        | (Inr u, a) \<Rightarrow> (case queue_for_pump (OneOff bytes) a of (Inl e, a) \<Rightarrow> (Inl e, a)
            | (Inr u, a) \<Rightarrow> (Inr (submits_a_line bytes), a))) = (Inr submits, a')"
    using go(1) unfolding send_grid_input_def nofail go(2) enc option.case sum.case prod.case kinds Let_def upd .
  show ?thesis
  proof (cases "bytes = []")
    case True
    then show ?thesis using go1 bytes C parts by auto
  next
    case False
    then have n: "(bytes = []) = False" by simp
    obtain a1 where r: "reserve (length bytes) a = (Inr (), a1)"
      using go1 n by (auto split: prod.splits sum.splits)
    have a1: "a1 = a\<lparr>ha_backlog := ha_backlog a + length bytes\<rparr>" "ha_backlog a + length bytes \<le> INPUT_BACKLOG"
      using reserve_cases(1) [OF r] by simp_all
    have q: "ha_pump a" "a' = a1\<lparr>ha_queue := ha_queue a @ [OneOff bytes]\<rparr>"
      using queue_go [OF go1 [unfolded n if_False r prod.case sum.case]] a1 by simp_all
    then show ?thesis using C a1 bytes parts False
      by (simp add: counts_def held_bytes_def delivers_running collecting_def queued_len_def)
  qed
qed

lemma plain_message:
  "interrupting_kind input \<noteq> None \<Longrightarrow> open_parts parts [(input, modes, size')] = parts \<and>
    intended lower parts [(input, modes, size')] =
      (if message_bytes lower (input, modes, size') \<noteq> [] then [OneOff (message_bytes lower (input, modes, size'))] else [])"
  by (cases input) (simp_all add: interrupting_kind_def)

lemma paste_message:
  "intended lower parts [(GridPaste data last', modes, size')] =
    (if last' \<and> paste_bytes (parts @ [(data, modes)]) \<noteq> []
     then [QueuedPaste (paste_bytes (parts @ [(data, modes)])) (md_bracketed_paste (snd (hd (parts @ [(data, modes)]))))] else [])"
  by (simp add: Let_def)

lemma attach_reach_ok:
  "attach_reach lower parse ms a \<Longrightarrow> counts a \<and> delivers (intended lower [] ms) a \<and> collecting (open_parts [] ms) a"
proof (induction rule: attach_reach.induct)
  case start
  then show ?case by (simp add: attach_new_def counts_def held_bytes_def delivers_running collecting_def encoder_new_def collected_len_def nothing_left)
next
  case (pump ms a event)
  then show ?case using pump_step_ok by blast
next
  case (frame ms a bytes input modes size' submits a')
  then have C: "counts a" "delivers (intended lower [] ms) a" "collecting (open_parts [] ms) a" by auto
  obtain out enc where e: "encode_message lower input modes size' (ha_encoder a) = (Inr out, enc)"
    using frame.hyps(2,3) by (auto simp: send_grid_input_def split: option.splits prod.splits sum.splits)
  show ?case
  proof (cases "interrupting_kind input = None")
    case True
    then obtain data last' where input: "input = GridPaste data last'" by (cases input) (auto simp: interrupting_kind_def)
    have p: "encode_paste data last' modes (ha_encoder a) = (out, enc)"
      using e input by (auto simp: encode_message_def interrupting_kind_def split: prod.splits)
    have go: "collect_paste out last' (md_bracketed_paste modes) (a\<lparr>ha_encoder := enc\<rparr>) = (Inr submits, a')"
      using frame.hyps(2,3) e input by (auto simp: send_grid_input_def split: option.splits)
    from paste_frame [OF C p go] show ?thesis
      unfolding intended_append open_parts_append input paste_message by simp
  next
    case False
    note P = plain_message [OF False]
    show ?thesis
      using message_frame [OF C e False frame.hyps(3,2)]
      unfolding intended_append open_parts_append P [THEN conjunct1] P [THEN conjunct2] by blast
  qed
qed

subsection \<open>Properties\<close>

text \<open>
  C4: What an attachment hands the terminal's runtime is what its viewer did, each message once, in
  order, and a paste whole or not at all. However the frames and the pump's turns interleave, and
  whatever the runtime answers, the inputs handed over so far, followed by those that wait for the
  pump, are the accepted messages' bytes in their order: a message's in pieces the wire can carry
  that together are its bytes, a paste as one input whose bytes are the sanitized whole between its
  markers. Only a pump that has stopped may have dropped the end of them, in the middle of one
  message's pieces at most and never of a paste; and a paste without its last part is nowhere in it.
\<close>

theorem attach_exact:
  assumes "attach_reach lower parse ms a"
  shows "\<exists>taken later. intended lower [] ms = taken @ later
    \<and> (if ha_pump a then hands_over (ha_handed a) taken \<and> later = ha_queue a
       else cut_off (ha_handed a) taken later)"
  using attach_reach_ok [OF assms] by (auto simp: delivers_def split: if_splits)

definition sample_parse :: "byte list \<Rightarrow> grid_input option" where
  "sample_parse bytes = (if length bytes = 1 then Some (GridPaste [104, 10] False) else Some (GridPaste [105] True))"

definition sample_attach :: attach where
  "sample_attach = \<lparr>ha_encoder = None, ha_paste = None, ha_queue = [], ha_backlog = 15, ha_failure = None,
     ha_fates = [PasteFate 15], ha_pump = True, ha_handed = [HandedPaste (PASTE_START @ [104, 13, 105] @ PASTE_END) True]\<rparr>"

definition sample_messages :: "arrival list" where
  "sample_messages = [(GridPaste [104, 10] False, sample_modes, (80, 24)), (GridPaste [105] True, from_term_mode (\<lambda>m. False), (80, 24))]"

lemma sample_attach_reach: "attach_reach id sample_parse sample_messages sample_attach"
proof -
  let ?p = "\<lparr>pp_bracketed = True, pp_text = \<lparr>pt_held = [], pt_after_cr = False\<rparr>\<rparr>"
  have d: "decode_input sample_parse [123] = Inr (GridPaste [104, 10] False)" "decode_input sample_parse [123, 125] = Inr (GridPaste [105] True)"
    by (simp_all add: decode_input_def check_len_def check_object_def sample_parse_def GRID_MAX_INPUT_MESSAGE_def
        MAX_TERMINAL_DATA_LEN_def GRID_MAX_PASTE_PART_BYTES_def)
  have e: "encode_message id (GridPaste [104, 10] False) sample_modes (80, 24) None = (Inr (PASTE_START @ [104, 13]), Some ?p)"
    "encode_message id (GridPaste [105] True) (from_term_mode (\<lambda>m. False)) (80, 24) (Some ?p) = (Inr ([105] @ PASTE_END), None)"
    by code_simp+
  have m: "md_bracketed_paste sample_modes" by (simp add: sample_modes_def from_term_mode_def)
  define a1 where "a1 = attach_new\<lparr>ha_encoder := Some ?p, ha_backlog := 8,
    ha_paste := Some \<lparr>cp_bytes = PASTE_START @ [104, 13], cp_bracketed = True\<rparr>\<rparr>"
  have 1: "send_grid_input id sample_parse sample_modes (80, 24) [123] attach_new = (Inr False, a1)"
    using e(1) m by (simp add: send_grid_input_def d collect_paste_def reserve_def INPUT_BACKLOG_def MAX_PASTE_def a1_def
        attach_new_def encoder_new_def PASTE_START_def)
  define a2 where "a2 = attach_new\<lparr>ha_encoder := None, ha_backlog := 15, ha_queue := [QueuedPaste (PASTE_START @ [104, 13, 105] @ PASTE_END) True]\<rparr>"
  have 2: "send_grid_input id sample_parse (from_term_mode (\<lambda>m. False)) (80, 24) [123, 125] a1 = (Inr False, a2)"
    using e(2) by (simp add: send_grid_input_def d collect_paste_def reserve_def INPUT_BACKLOG_def MAX_PASTE_def a1_def a2_def
        queue_for_pump_def attach_new_def encoder_new_def PASTE_START_def PASTE_END_def)
  have 3: "pump_step (Queued [HandTaken]) a2 = sample_attach"
    by (simp add: pump_step_def pump_handle_def a2_def attach_new_def sample_attach_def encoder_new_def PASTE_START_def PASTE_END_def)
  have "attach_reach id sample_parse [(GridPaste [104, 10] False, sample_modes, (80, 24))] a1"
    using attach_reach.frame [OF attach_reach.start d(1) 1] by simp
  from attach_reach.pump [OF attach_reach.frame [OF this d(2) 2]] show ?thesis
    unfolding sample_messages_def append_Cons append_Nil 3 [symmetric] .
qed

lemma attach_exact_witness: "hands_over (ha_handed sample_attach) (intended id [] sample_messages)"
  using attach_exact [OF sample_attach_reach] by (auto simp: sample_attach_def)

text \<open>
  C33: An attachment never holds more than its backlog. In every reachable state the bytes counted are
  at most 8 MiB, and while the pump runs they are exactly the paste being collected, the input queued
  and the pastes the runtime has not yet written; an input refused for the backlog changes nothing of
  what is queued, and leaves no paste being collected.
\<close>

theorem attach_backlog:
  assumes "attach_reach lower parse ms a"
  shows "ha_backlog a \<le> INPUT_BACKLOG
    \<and> (ha_pump a \<longrightarrow> ha_backlog a = collected_len (ha_paste a) + sum_list (map queued_len (ha_queue a)) + sum_list (map fate_len (ha_fates a)))
    \<and> (\<forall>modes size' frame a'. send_grid_input lower parse modes size' frame a = (Inl BacklogFull, a') \<longrightarrow>
        ha_queue a' = ha_queue a \<and> ha_paste a' = None)"
proof (intro conjI allI impI)
  note R = attach_reach_ok [OF assms]
  show "ha_backlog a \<le> INPUT_BACKLOG"
    "ha_pump a \<Longrightarrow> ha_backlog a = collected_len (ha_paste a) + sum_list (map queued_len (ha_queue a)) + sum_list (map fate_len (ha_fates a))"
    using R by (simp_all add: counts_def held_bytes_def)
  fix modes size' frame a'
  assume go: "send_grid_input lower parse modes size' frame a = (Inl BacklogFull, a')"
  obtain input out enc where e: "decode_input parse frame = Inr input" "ha_failure a = None"
    "encode_message lower input modes size' (ha_encoder a) = (Inr out, enc)"
    using go by (auto simp: send_grid_input_def split: option.splits prod.splits sum.splits)
  have "ha_queue a' = ha_queue a \<and> ha_paste a' = None"
  proof (cases "interrupting_kind input = None")
    case True
    then obtain data last' where input: "input = GridPaste data last'" by (cases input) (auto simp: interrupting_kind_def)
    have c: "collect_paste out last' (md_bracketed_paste modes) (a\<lparr>ha_encoder := enc\<rparr>) = (Inl BacklogFull, a')"
      using go e input by (simp add: send_grid_input_def)
    then have "fst (reserve (length out) (a\<lparr>ha_encoder := enc\<rparr>)) \<noteq> Inr ()"
      by (auto simp: collect_paste_def queue_for_pump_def Let_def split: prod.splits if_splits)
    then show ?thesis using c
      by (auto simp: collect_paste_def drop_paste_def reserve_def split: if_splits option.splits)
  next
    case False
    have "ha_encoder a = None" using e(3) False by (auto simp: encode_message_def split: option.splits)
    then have "open_parts [] ms = []" using collecting_open [of "open_parts [] ms" a] R by fastforce
    then have "ha_paste a = None" using R by (auto simp: collecting_def)
    then show ?thesis using go e False
      by (cases input) (auto simp: send_grid_input_def interrupting_kind_def reserve_def queue_for_pump_def Let_def split: if_splits)
  qed
  then show "ha_queue a' = ha_queue a" "ha_paste a' = None" by auto
qed

lemma attach_backlog_witness: "ha_backlog sample_attach = 15 \<and> ha_backlog sample_attach \<le> INPUT_BACKLOG"
  using attach_backlog [OF sample_attach_reach] by (simp add: sample_attach_def)

end
