(* ===== verification/Cells.thy ===== *)
theory Cells
  imports Grid
begin

unbundle bit_operations_syntax

text \<open>
  One row of an emulator's cells as styled runs (\<^verbatim>\<open>row_from_cells\<close> and the colors and styles it uses,
  in \<^verbatim>\<open>crates/farhelm-supervisor/src/grid_output.rs\<close>). A cell has what is read of the emulator's:
  its character and combining characters as UTF-8 bytes, its flags, colors and link.
\<close>

subsection \<open>The emulator's cells\<close>

datatype cell_flag = F_BOLD | F_DIM | F_ITALIC | F_UNDERLINE | F_DOUBLE_UNDERLINE | F_UNDERCURL
  | F_DOTTED_UNDERLINE | F_DASHED_UNDERLINE | F_INVERSE | F_HIDDEN | F_STRIKEOUT
  | F_WIDE_CHAR | F_WIDE_CHAR_SPACER | F_LEADING_WIDE_CHAR_SPACER | F_WRAPLINE

text \<open>A named color by its number: the 16 of the palette, the special ones, and the dim ones.\<close>

datatype term_color = SpecColor byte byte byte | IndexedColor byte | NamedColor nat

definition Named_DimBlack :: nat where "Named_DimBlack = 259"

record term_cell =
  tc_char :: "byte list"
  tc_zerowidth :: "byte list list"
  tc_flags :: "cell_flag list"
  tc_fg :: term_color
  tc_bg :: term_color
  tc_underline :: "term_color option"
  tc_link :: "grid_link option"

text \<open>The palette entries the program redefined.\<close>

type_synonym term_colors = "nat \<Rightarrow> (byte \<times> byte \<times> byte) option"

definition has_flag :: "term_cell \<Rightarrow> cell_flag \<Rightarrow> bool" where
  "has_flag c f \<longleftrightarrow> f \<in> set (tc_flags c)"

subsection \<open>Colors and styles\<close>

definition rgb_color :: "byte \<times> byte \<times> byte \<Rightarrow> color" where
  "rgb_color rgb = (case rgb of (r, g, b) \<Rightarrow> Rgb r g b)"

definition palette_index :: "nat \<Rightarrow> nat option" where
  "palette_index number =
     (if number < 16 then Some number
      else if Named_DimBlack \<le> number \<and> number < Named_DimBlack + 8 then Some (number - Named_DimBlack)
      else None)"

definition wire_color :: "term_colors \<Rightarrow> term_color \<Rightarrow> color" where
  "wire_color colors c =
     (let indexed = (\<lambda>index. case colors index of Some rgb \<Rightarrow> rgb_color rgb | None \<Rightarrow> Palette (of_nat index)) in
      case c of
        SpecColor r g b \<Rightarrow> rgb_color (r, g, b)
      | IndexedColor index \<Rightarrow> indexed (unat index)
      | NamedColor named \<Rightarrow> (case palette_index named of Some index \<Rightarrow> indexed index | None \<Rightarrow> DefaultColor))"

definition style_bits :: "(cell_flag \<times> nat) list" where
  "style_bits = [(F_BOLD, 1), (F_DIM, 2), (F_ITALIC, 4), (F_UNDERLINE, 8), (F_DOUBLE_UNDERLINE, 16),
     (F_UNDERCURL, 32), (F_DOTTED_UNDERLINE, 64), (F_DASHED_UNDERLINE, 128), (F_INVERSE, 256), (F_HIDDEN, 512),
     (F_STRIKEOUT, 1024)]"

definition style_of :: "term_cell \<Rightarrow> term_colors \<Rightarrow> style" where
  "style_of c colors = \<lparr>
     st_flags = fold (\<lambda>(f, bit') bits. bits OR bit') (filter (\<lambda>(f, bit'). has_flag c f) style_bits) 0,
     st_fg = wire_color colors (tc_fg c),
     st_bg = wire_color colors (tc_bg c),
     st_underline = (case map_option (wire_color colors) (tc_underline c) of
        Some DefaultColor \<Rightarrow> None | u \<Rightarrow> u)\<rparr>"

subsection \<open>Runs\<close>

record cell_run =
  ce_col :: nat
  ce_width :: nat
  ce_text :: "byte list"
  ce_style :: style
  ce_link :: "grid_link option"

definition ce_end :: "cell_run \<Rightarrow> nat" where
  "ce_end r = ce_col r + ce_width r"

definition is_ascii_run :: "cell_run \<Rightarrow> bool" where
  "is_ascii_run r \<longleftrightarrow> (\<forall>b\<in>set (ce_text r). 0x20 \<le> unat b \<and> unat b < 0x7f)"

definition is_default_blank :: "cell_run \<Rightarrow> bool" where
  "is_default_blank r \<longleftrightarrow> ce_style r = style_plain \<and> ce_link r = None \<and> (\<forall>b\<in>set (ce_text r). b = 32)"

record cell_row =
  cw_wraps :: bool
  cw_runs :: "cell_run list"

definition cell_row_default :: cell_row where
  "cell_row_default = \<lparr>cw_wraps = False, cw_runs = []\<rparr>"

definition is_blank_row :: "cell_row \<Rightarrow> bool" where
  "is_blank_row r \<longleftrightarrow> \<not> cw_wraps r \<and> cw_runs r = []"

text \<open>Spaces off both ends of a default-style run, in place, and then the blank runs dropped.\<close>

definition trim_matches :: "byte list \<Rightarrow> byte list" where
  "trim_matches bs = rev (dropWhile (\<lambda>b. b = 32) (rev (dropWhile (\<lambda>b. b = 32) bs)))"

definition trim_run :: "cell_run \<Rightarrow> cell_run" where
  "trim_run r =
     (if ce_style r \<noteq> style_plain \<or> ce_link r \<noteq> None \<or> \<not> is_ascii_run r then r
      else
        let leading = length (ce_text r) - length (dropWhile (\<lambda>b. b = 32) (ce_text r));
            kept = length (trim_matches (ce_text r)) in
        if kept = 0 then r
        else r\<lparr>ce_text := take kept (drop leading (ce_text r)), ce_col := ce_col r + leading, ce_width := kept\<rparr>)"

definition trim_default_blanks :: "cell_run list \<Rightarrow> cell_run list" where
  "trim_default_blanks runs = filter (\<lambda>r. \<not> is_default_blank r) (map trim_run runs)"

text \<open>A space or a graphic character of ASCII, one byte.\<close>

definition ascii_cell_char :: "byte list \<Rightarrow> bool" where
  "ascii_cell_char ch = (case ch of [b] \<Rightarrow> 0x20 \<le> unat b \<and> unat b < 0x7f | _ \<Rightarrow> False)"

function cells_loop :: "term_cell list \<Rightarrow> nat \<Rightarrow> term_colors \<Rightarrow> nat \<Rightarrow> bool \<Rightarrow> cell_run list \<Rightarrow> cell_run list" where
  "cells_loop row cols colors col last_ascii runs =
     (if col < cols then
        let c = row ! col in
        if has_flag c F_WIDE_CHAR_SPACER \<or> has_flag c F_LEADING_WIDE_CHAR_SPACER then
          cells_loop row cols colors (col + 1) last_ascii runs
        else
          let sty = style_of c colors;
              link = tc_link c;
              character = (if tc_char c = [9] then [32] else tc_char c);
              wide = has_flag c F_WIDE_CHAR in
          if \<not> wide \<and> tc_zerowidth c = [] \<and> ascii_cell_char character then
            cells_loop row cols colors (col + 1) True
              (if runs \<noteq> [] \<and> last_ascii \<and> ce_end (last runs) = col \<and> ce_style (last runs) = sty \<and> ce_link (last runs) = link
               then butlast runs @ [(last runs)\<lparr>ce_text := ce_text (last runs) @ character, ce_width := ce_width (last runs) + 1\<rparr>]
               else runs @ [\<lparr>ce_col = col, ce_width = 1, ce_text = character, ce_style = sty, ce_link = link\<rparr>])
          else
            let width = (if wide \<and> col + 1 < cols then 2 else 1) in
            cells_loop row cols colors (col + width) False
              (runs @ [\<lparr>ce_col = col, ce_width = width, ce_text = character @ concat (tc_zerowidth c), ce_style = sty, ce_link = link\<rparr>])
      else runs)"
  by pat_completeness auto
termination
  by (relation "measure (\<lambda>(row, cols, colors, col, last_ascii, runs). cols - col)") (auto split: if_splits)

declare cells_loop.simps [simp del]

definition row_from_cells :: "term_cell list \<Rightarrow> nat \<Rightarrow> term_colors \<Rightarrow> cell_row" where
  "row_from_cells row cols colors =
     (let cols = min (min cols (length row)) 65535 in
      \<lparr>cw_wraps = (0 < cols \<and> has_flag (row ! (cols - 1)) F_WRAPLINE),
       cw_runs = trim_default_blanks (cells_loop row cols colors 0 False [])\<rparr>)"

end
