(* ===== verification/Cells_Properties.thy ===== *)
theory Cells_Properties
  imports Cells
begin

text \<open>
  What a row of runs draws, and that it is what the emulator's cells look like: dropping blanks,
  sharing runs and covering a wide character's spacer change nothing a viewer sees, and the runs
  satisfy the format's checks.
\<close>

subsection \<open>What is drawn\<close>

type_synonym glyph = "byte list \<times> style \<times> grid_link option \<times> nat"

definition shown :: "byte list \<Rightarrow> style \<Rightarrow> grid_link option \<Rightarrow> glyph option" where
  "shown ch s l = (if ch = [32] \<and> s = style_plain \<and> l = None then None else Some (ch, s, l, 0))"

definition drawn :: "cell_run \<Rightarrow> nat \<Rightarrow> glyph option" where
  "drawn r c =
     (if c < ce_col r \<or> ce_end r \<le> c then None
      else if is_ascii_run r then shown [ce_text r ! (c - ce_col r)] (ce_style r) (ce_link r)
      else Some (ce_text r, ce_style r, ce_link r, c - ce_col r))"

fun draw :: "cell_run list \<Rightarrow> nat \<Rightarrow> glyph option" where
  "draw [] c = None"
| "draw (r # rs) c = (case drawn r c of Some g \<Rightarrow> Some g | None \<Rightarrow> draw rs c)"

text \<open>What a cell looks like, from the emulator's side.\<close>

definition spacer :: "term_cell \<Rightarrow> bool" where
  "spacer c \<longleftrightarrow> has_flag c F_WIDE_CHAR_SPACER \<or> has_flag c F_LEADING_WIDE_CHAR_SPACER"

definition cell_char :: "term_cell \<Rightarrow> byte list" where
  "cell_char c = (if tc_char c = [9] then [32] else tc_char c)"

definition cell_text :: "term_cell \<Rightarrow> byte list" where
  "cell_text c = cell_char c @ concat (tc_zerowidth c)"

definition look :: "term_cell list \<Rightarrow> term_colors \<Rightarrow> nat \<Rightarrow> glyph option" where
  "look row colors c =
     (let cell = row ! c in
      if spacer cell then
        (if 0 < c \<and> has_flag (row ! (c - 1)) F_WIDE_CHAR \<and> \<not> spacer (row ! (c - 1))
         then Some (cell_text (row ! (c - 1)), style_of (row ! (c - 1)) colors, tc_link (row ! (c - 1)), 1)
         else None)
      else shown (cell_text cell) (style_of cell colors) (tc_link cell))"

text \<open>
  What the emulator keeps true of its cells: a character is one byte or several that are not ASCII,
  combining characters are not ASCII and at most 16, and a wide character is not ASCII and has its
  spacer next to it.
\<close>

definition high :: "byte list \<Rightarrow> bool" where
  "high ch \<longleftrightarrow> ch \<noteq> [] \<and> length ch \<le> 4 \<and> (\<forall>b\<in>set ch. 0x80 \<le> unat b)"

definition cell_ok :: "term_cell \<Rightarrow> bool" where
  "cell_ok c \<longleftrightarrow> (length (tc_char c) = 1 \<or> high (tc_char c))
     \<and> (\<forall>z\<in>set (tc_zerowidth c). high z) \<and> length (tc_zerowidth c) \<le> 16
     \<and> (has_flag c F_WIDE_CHAR \<and> \<not> spacer c \<longrightarrow> high (tc_char c))"

definition cells_ok :: "term_cell list \<Rightarrow> nat \<Rightarrow> bool" where
  "cells_ok row cols \<longleftrightarrow> cols \<le> length row \<and> (\<forall>c\<in>set row. cell_ok c)
     \<and> (\<forall>c. c + 1 < cols \<and> has_flag (row ! c) F_WIDE_CHAR \<and> \<not> spacer (row ! c) \<longrightarrow> has_flag (row ! (c + 1)) F_WIDE_CHAR_SPACER)"

lemma draw_append: "draw (xs @ ys) c = (case draw xs c of Some g \<Rightarrow> Some g | None \<Rightarrow> draw ys c)"
  by (induction xs) (auto split: option.split)

lemma draw_none: "(\<forall>r\<in>set rs. drawn r c = None) \<Longrightarrow> draw rs c = None"
  by (induction rs) auto

subsection \<open>Trimming draws the same\<close>

lemma trim_matches_split:
  obtains pre post where "bs = pre @ trim_matches bs @ post" "\<forall>b\<in>set pre. b = 32" "\<forall>b\<in>set post. b = 32"
    "length pre = length bs - length (dropWhile (\<lambda>b. b = 32) bs)" "trim_matches bs = [] \<longrightarrow> (\<forall>b\<in>set bs. b = 32)"
proof -
  let ?P = "\<lambda>b :: byte. b = 32"
  define pre d where "pre = takeWhile ?P bs" and "d = dropWhile ?P bs"
  have bs: "bs = pre @ d" by (simp add: pre_def d_def)
  have n: "length bs = length pre + length d" unfolding pre_def d_def by (metis length_append takeWhile_dropWhile_id)
  define post where "post = rev (takeWhile ?P (rev d))"
  have "rev d = takeWhile ?P (rev d) @ dropWhile ?P (rev d)" by simp
  then have "rev (rev d) = rev (dropWhile ?P (rev d)) @ rev (takeWhile ?P (rev d))" by (metis rev_append)
  then have d: "d = trim_matches bs @ post" by (simp add: trim_matches_def d_def post_def)
  have pre: "\<forall>b\<in>set pre. b = 32" using set_takeWhileD unfolding pre_def by fastforce
  have post: "\<forall>b\<in>set post. b = 32" using set_takeWhileD unfolding post_def by fastforce
  show ?thesis
  proof (rule that [of pre post])
    show "bs = pre @ trim_matches bs @ post" using bs unfolding d .
    show "length pre = length bs - length (dropWhile ?P bs)" using n unfolding d_def by linarith
    show "trim_matches bs = [] \<longrightarrow> (\<forall>b\<in>set bs. b = 32)"
    proof
      assume none: "trim_matches bs = []"
      have "bs = pre @ post" using bs unfolding d none by simp
      then have "set bs = set pre \<union> set post" by simp
      then show "\<forall>b\<in>set bs. b = 32" using pre post by blast
    qed
  qed (fact pre post)+
qed

definition cell_run_ok :: "cell_run \<Rightarrow> bool" where
  "cell_run_ok r \<longleftrightarrow> 0 < ce_width r \<and> ce_text r \<noteq> [] \<and> (is_ascii_run r \<longrightarrow> length (ce_text r) = ce_width r)
     \<and> (\<not> is_ascii_run r \<longrightarrow> ce_width r \<le> 2 \<and> length (ce_text r) \<le> GRID_MAX_CELL_TEXT_BYTES)"

lemma is_ascii_part: "is_ascii_run r \<Longrightarrow> is_ascii_run (r\<lparr>ce_text := take k (drop l (ce_text r)), ce_col := x, ce_width := w\<rparr>)"
  unfolding is_ascii_run_def by (auto dest!: in_set_takeD in_set_dropD)

lemma trim_run_cases:
  assumes "cell_run_ok r"
  obtains "trim_run r = r"
  | pre mid post where "trim_run r = r\<lparr>ce_text := mid, ce_col := ce_col r + length pre, ce_width := length mid\<rparr>"
      "ce_text r = pre @ mid @ post" "mid \<noteq> []" "\<forall>b\<in>set pre. b = 32" "\<forall>b\<in>set post. b = 32"
      "length (ce_text r) = ce_width r" "is_ascii_run r" "is_ascii_run (trim_run r)" "ce_style r = style_plain" "ce_link r = None"
proof (cases "ce_style r \<noteq> style_plain \<or> ce_link r \<noteq> None \<or> \<not> is_ascii_run r \<or> trim_matches (ce_text r) = []")
  case True
  then have "trim_run r = r" unfolding trim_run_def Let_def by auto
  then show ?thesis by (rule that(1))
next
  case False
  obtain pre post where p: "ce_text r = pre @ trim_matches (ce_text r) @ post" "\<forall>b\<in>set pre. b = 32" "\<forall>b\<in>set post. b = 32"
    "length pre = length (ce_text r) - length (dropWhile (\<lambda>b. b = 32) (ce_text r))"
    by (rule trim_matches_split [of "ce_text r"]) blast
  have "take (length (trim_matches (ce_text r))) (drop (length pre) (ce_text r)) = trim_matches (ce_text r)"
    by (subst p(1)) simp
  then have t: "trim_run r = r\<lparr>ce_text := trim_matches (ce_text r), ce_col := ce_col r + length pre, ce_width := length (trim_matches (ce_text r))\<rparr>"
    using False unfolding trim_run_def Let_def p(4) by simp
  have len: "length (ce_text r) = ce_width r" using False assms by (simp add: cell_run_ok_def)
  have "set (trim_matches (ce_text r)) \<subseteq> set (ce_text r)" using arg_cong [OF p(1), of set] by auto
  then have "is_ascii_run (trim_run r)" using False unfolding t is_ascii_run_def by auto
  then show ?thesis using that(2) [OF t p(1) _ p(2,3) len] False by blast
qed

lemma trim_run_ok:
  assumes "cell_run_ok r"
  shows "cell_run_ok (trim_run r) \<and> ce_col r \<le> ce_col (trim_run r) \<and> ce_end (trim_run r) \<le> ce_end r"
  using assms
proof (cases rule: trim_run_cases)
  case (2 pre mid post)
  then have "length pre + length mid \<le> ce_width r" "0 < length mid" by auto
  then show ?thesis using 2(8) by (simp add: 2(1) cell_run_ok_def ce_end_def)
qed (simp add: assms)

lemma drawn_trim:
  assumes "cell_run_ok r"
  shows "drawn (trim_run r) c = drawn r c"
  using assms
proof (cases rule: trim_run_cases)
  case (2 pre mid post)
  note ascii = 2(8) [unfolded 2(1)]
  have w: "ce_width r = length pre + length mid + length post" using 2(2,6) by simp
  consider "c < ce_col r \<or> ce_end r \<le> c" | "ce_col r \<le> c" "c < ce_end r" "c < ce_col r + length pre \<or> ce_col r + length pre + length mid \<le> c"
    | "ce_col r + length pre \<le> c" "c < ce_col r + length pre + length mid" by linarith
  then show ?thesis
  proof cases
    case 1
    then show ?thesis by (auto simp: drawn_def 2(1) ce_end_def w)
  next
    case part: 2
    define j where "j = c - ce_col r"
    have "(pre @ mid @ post) ! j = 32"
    proof (cases "j < length pre")
      case True
      then show ?thesis using 2(4) by (simp add: nth_append)
    next
      case False
      then have "length pre + length mid \<le> j" "j < length pre + length mid + length post" using part w by (auto simp: j_def ce_end_def)
      then have "\<not> j < length pre" "\<not> j - length pre < length mid" "j - length pre - length mid < length post" by linarith+
      then show ?thesis using 2(5) by (simp add: nth_append)
    qed
    moreover have "drawn (trim_run r) c = None" using part(3) by (auto simp: drawn_def 2(1) ce_end_def)
    ultimately show ?thesis using part(1,2) 2(2,7,9,10) by (simp add: drawn_def shown_def j_def)
  next
    case 3
    then have "\<not> c - ce_col r < length pre" "c - ce_col r - length pre < length mid" by linarith+
    then have "(pre @ mid @ post) ! (c - ce_col r) = mid ! (c - (ce_col r + length pre))" by (simp add: nth_append)
    then show ?thesis using 3 ascii 2(2,7) by (simp add: drawn_def 2(1) ce_end_def w)
  qed
qed simp

lemma drawn_blank: "is_default_blank r \<Longrightarrow> cell_run_ok r \<Longrightarrow> drawn r c = None"
proof -
  assume b: "is_default_blank r" "cell_run_ok r"
  then have "is_ascii_run r" by (auto simp: is_default_blank_def is_ascii_run_def)
  with b show ?thesis by (auto simp: drawn_def is_default_blank_def shown_def cell_run_ok_def ce_end_def)
qed

lemma draw_trim: "\<forall>r\<in>set runs. cell_run_ok r \<Longrightarrow> draw (trim_default_blanks runs) c = draw runs c"
proof (induction runs)
  case (Cons r runs)
  have r: "cell_run_ok r" "cell_run_ok (trim_run r)" using Cons.prems trim_run_ok [of r] by simp_all
  have "draw (trim_default_blanks runs) c = draw runs c" by (rule Cons.IH) (use Cons.prems in simp)
  then show ?case
    using drawn_trim [OF r(1), of c] drawn_blank [OF _ r(2), of c]
    by (cases "is_default_blank (trim_run r)"; cases "drawn r c") (simp_all add: trim_default_blanks_def)
qed (simp add: trim_default_blanks_def)

subsection \<open>The loop draws the cells\<close>

definition in_order :: "cell_run list \<Rightarrow> nat \<Rightarrow> bool" where
  "in_order runs col \<longleftrightarrow> sorted_wrt (\<lambda>a b. ce_end a \<le> ce_col b) runs \<and> (\<forall>r\<in>set runs. ce_end r \<le> col)"

definition loop_ok :: "term_cell list \<Rightarrow> nat \<Rightarrow> term_colors \<Rightarrow> nat \<Rightarrow> bool \<Rightarrow> cell_run list \<Rightarrow> bool" where
  "loop_ok row cols colors col last_ascii runs \<longleftrightarrow> col \<le> cols \<and> (\<forall>r\<in>set runs. cell_run_ok r) \<and> in_order runs col
     \<and> (last_ascii \<longrightarrow> runs \<noteq> [] \<and> is_ascii_run (last runs))
     \<and> (\<forall>c<col. draw runs c = look row colors c)
     \<and> (0 < col \<and> col < cols \<longrightarrow> \<not> (has_flag (row ! (col - 1)) F_WIDE_CHAR \<and> \<not> spacer (row ! (col - 1))))"

lemma draw_past: "\<forall>r\<in>set runs. ce_end r \<le> col \<Longrightarrow> col \<le> c \<Longrightarrow> draw runs c = None"
  by (rule draw_none) (auto simp: drawn_def)

lemma draw_last: "draw runs c = None \<Longrightarrow> draw (runs @ [r]) c = drawn r c"
  by (simp add: draw_append split: option.split)

lemma draw_push:
  assumes "in_order runs col" "ce_col r = col"
  shows "draw (runs @ [r]) c = (if c < col then draw runs c else drawn r c)"
  using assms draw_past [of runs col c] unfolding draw_append in_order_def
  by (cases "c < col") (auto simp: drawn_def split: option.split)

lemma in_order_push: "in_order runs col \<Longrightarrow> ce_col r = col \<Longrightarrow> in_order (runs @ [r]) (ce_end r)"
  by (auto simp: in_order_def sorted_wrt_append ce_end_def)

lemma high_not_plain: "high z \<Longrightarrow> set z \<subseteq> S \<Longrightarrow> \<not> (\<forall>b\<in>S. 0x20 \<le> unat b \<and> unat b < 0x7f)"
  unfolding high_def by (cases z) fastforce+

lemma utf8_text_length: "\<forall>z\<in>set zs. length z \<le> 4 \<Longrightarrow> length (concat zs) \<le> 4 * length zs"
  by (induction zs) auto

text \<open>A cell that is neither a spacer nor one ASCII character is a run of its own.\<close>

lemma own_run:
  assumes "cell_ok c" "\<not> spacer c"
    and "\<not> (\<not> has_flag c F_WIDE_CHAR \<and> tc_zerowidth c = [] \<and> ascii_cell_char (cell_char c))"
    and "w = 1 \<or> w = 2"
  shows "cell_run_ok \<lparr>ce_col = col, ce_width = w, ce_text = cell_text c, ce_style = s, ce_link = l\<rparr> \<and> cell_text c \<noteq> [32]
    \<and> \<not> is_ascii_run \<lparr>ce_col = col, ce_width = w, ce_text = cell_text c, ce_style = s, ce_link = l\<rparr>"
proof -
  have char: "length (tc_char c) = 1 \<or> high (tc_char c)" and zs: "\<forall>z\<in>set (tc_zerowidth c). high z" "length (tc_zerowidth c) \<le> 16"
    and wide: "has_flag c F_WIDE_CHAR \<Longrightarrow> high (tc_char c)"
    using assms(1,2) by (auto simp: cell_ok_def)
  have hi: "high (tc_char c) \<Longrightarrow> cell_char c = tc_char c" by (auto simp: cell_char_def high_def)
  have len1: "cell_char c \<noteq> [] \<and> length (cell_char c) \<le> 4" using char by (auto simp: cell_char_def high_def)
  have "length (concat (tc_zerowidth c)) \<le> 4 * length (tc_zerowidth c)"
    by (rule utf8_text_length) (use zs(1) in \<open>auto simp: high_def\<close>)
  then have len: "length (cell_text c) \<le> GRID_MAX_CELL_TEXT_BYTES" using len1 zs(2) by (simp add: cell_text_def GRID_MAX_CELL_TEXT_BYTES_def)
  have not_plain: "\<not> (\<forall>b\<in>set (cell_text c). 0x20 \<le> unat b \<and> unat b < 0x7f)"
  proof (cases "tc_zerowidth c")
    case (Cons z zt)
    then have "high z" "set z \<subseteq> set (cell_text c)" using zs(1) by (auto simp: cell_text_def)
    then show ?thesis by (rule high_not_plain)
  next
    case Nil
    then have same: "cell_text c = cell_char c" by (simp add: cell_text_def)
    show ?thesis
    proof (cases "high (tc_char c)")
      case True
      then show ?thesis using hi unfolding same by (cases "tc_char c") (auto simp: high_def)
    next
      case False
      then have "\<not> ascii_cell_char (cell_char c)" "length (cell_char c) = 1" using assms(3) Nil wide char by (auto simp: cell_char_def)
      then show ?thesis unfolding same ascii_cell_char_def by (auto simp: length_Suc_conv)
    qed
  qed
  have ne: "cell_text c \<noteq> []" using len1 by (auto simp: cell_text_def)
  show ?thesis using not_plain len ne assms(4) by (auto simp: cell_run_ok_def is_ascii_run_def)
qed

lemma look_cell: "\<not> spacer (row ! c) \<Longrightarrow> look row colors c = shown (cell_text (row ! c)) (style_of (row ! c) colors) (tc_link (row ! c))"
  by (simp add: look_def Let_def)

lemma drawn_own: "\<not> is_ascii_run r \<Longrightarrow> ce_col r \<le> c \<Longrightarrow> c < ce_end r \<Longrightarrow> drawn r c = Some (ce_text r, ce_style r, ce_link r, c - ce_col r)"
  by (simp add: drawn_def)

lemma less_Suc_cases: "(\<And>c. c < n \<Longrightarrow> P c) \<Longrightarrow> P n \<Longrightarrow> \<forall>c<Suc n. P c"
  using less_Suc_eq by auto

lemma loop_spacer:
  assumes "loop_ok row cols colors col last_ascii runs" "col < cols" "spacer (row ! col)"
  shows "loop_ok row cols colors (col + 1) last_ascii runs"
proof -
  note L = assms(1) [unfolded loop_ok_def]
  have "look row colors col = None" using L assms(2,3) by (auto simp: look_def Let_def)
  moreover have "draw runs col = None" using L draw_past [of runs col col] by (simp add: in_order_def)
  ultimately have "\<forall>c<Suc col. draw runs c = look row colors c" using L by (intro less_Suc_cases) auto
  moreover have "in_order runs (col + 1)" using L by (auto simp: in_order_def)
  ultimately show ?thesis using L assms(2,3) by (simp add: loop_ok_def)
qed

lemma loop_own:
  assumes "loop_ok row cols colors col last_ascii runs" "col < cols" "\<not> spacer (row ! col)" "cell_ok (row ! col)"
    and "\<not> (\<not> has_flag (row ! col) F_WIDE_CHAR \<and> tc_zerowidth (row ! col) = [] \<and> ascii_cell_char (cell_char (row ! col)))"
    and w: "w = (if has_flag (row ! col) F_WIDE_CHAR \<and> col + 1 < cols then 2 else 1)"
    and spc: "w = 2 \<Longrightarrow> has_flag (row ! (col + 1)) F_WIDE_CHAR_SPACER"
  defines "r \<equiv> \<lparr>ce_col = col, ce_width = w, ce_text = cell_text (row ! col), ce_style = style_of (row ! col) colors, ce_link = tc_link (row ! col)\<rparr>"
  shows "loop_ok row cols colors (col + w) False (runs @ [r])"
proof -
  note L = assms(1) [unfolded loop_ok_def]
  have w12: "w = 1 \<or> w = 2" using w by auto
  have own: "cell_run_ok r \<and> cell_text (row ! col) \<noteq> [32] \<and> \<not> is_ascii_run r"
    using own_run [OF assms(4,3,5) w12] unfolding r_def .
  have r: "ce_col r = col" "ce_end r = col + w" by (simp_all add: r_def ce_end_def)
  have ord: "in_order (runs @ [r]) (col + w)" using in_order_push [of runs col r] L r by simp
  have at: "draw (runs @ [r]) c = (if c < col then look row colors c else drawn r c)" for c
    using draw_push [of runs col r c] L r(1) by simp
  have look0: "drawn r col = look row colors col"
    using own look_cell [OF assms(3)] drawn_own [of r col] r w12 by (auto simp: shown_def r_def)
  have look1: "drawn r (col + 1) = look row colors (col + 1)" if "w = 2"
  proof -
    have wide: "has_flag (row ! col) F_WIDE_CHAR" using that w by (auto split: if_splits)
    have "spacer (row ! (col + 1))" using spc [OF that] by (simp add: spacer_def)
    then have "look row colors (col + 1) = Some (cell_text (row ! col), style_of (row ! col) colors, tc_link (row ! col), 1)"
      using wide assms(3) by (simp add: look_def)
    then show ?thesis using drawn_own [of r "col + 1"] own r that by (simp add: r_def)
  qed
  have all: "\<forall>c<col + w. draw (runs @ [r]) c = look row colors c"
  proof (intro allI impI)
    fix c assume "c < col + w"
    then consider "c < col" | "c = col" | "c = col + 1" "w = 2" using w12 by linarith
    then show "draw (runs @ [r]) c = look row colors c" using at look0 look1 by cases simp_all
  qed
  have le: "col + w \<le> cols" using w assms(2) by auto
  have next': "col + w < cols \<longrightarrow> \<not> (has_flag (row ! (col + w - 1)) F_WIDE_CHAR \<and> \<not> spacer (row ! (col + w - 1)))"
  proof (cases "w = 2")
    case True
    then show ?thesis using spc by (simp add: spacer_def)
  next
    case False
    then have "w = 1" using w12 by simp
    then show ?thesis using w by auto
  qed
  show ?thesis unfolding loop_ok_def using le own ord L all next' by simp
qed

lemma ascii_cell_charD: "ascii_cell_char ch \<Longrightarrow> \<exists>b. ch = [b] \<and> 0x20 \<le> unat b \<and> unat b < 0x7f"
  by (auto simp: ascii_cell_char_def split: list.splits)

text \<open>One more ASCII cell, in a run of its own or in the run before it.\<close>

definition merged :: "cell_run \<Rightarrow> byte list \<Rightarrow> cell_run" where
  "merged l ch = l\<lparr>ce_text := ce_text l @ ch, ce_width := ce_width l + 1\<rparr>"

lemma merged_ok:
  assumes "cell_run_ok l" "is_ascii_run l" "ascii_cell_char ch"
  shows "cell_run_ok (merged l ch)" "is_ascii_run (merged l ch)" "ce_col (merged l ch) = ce_col l" "ce_end (merged l ch) = ce_end l + 1"
    "c < ce_end l \<Longrightarrow> drawn (merged l ch) c = drawn l c" "drawn (merged l ch) (ce_end l) = shown ch (ce_style l) (ce_link l)"
proof -
  obtain b where b: "ch = [b]" "0x20 \<le> unat b" "unat b < 0x7f" using ascii_cell_charD [OF assms(3)] by blast
  have len: "length (ce_text l) = ce_width l" using assms(1,2) by (simp add: cell_run_ok_def)
  show a: "is_ascii_run (merged l ch)" using assms(2) b by (auto simp: merged_def is_ascii_run_def)
  show col: "ce_col (merged l ch) = ce_col l" "ce_end (merged l ch) = ce_end l + 1" by (simp_all add: merged_def ce_end_def)
  show "cell_run_ok (merged l ch)" using assms(1) a b len by (simp add: cell_run_ok_def merged_def)
  show "drawn (merged l ch) c = drawn l c" if "c < ce_end l"
    using that a assms(2) col len by (auto simp: drawn_def merged_def nth_append ce_end_def)
  show "drawn (merged l ch) (ce_end l) = shown ch (ce_style l) (ce_link l)"
    using a col len b nth_append_length [of "ce_text l" b "[]"] by (simp add: drawn_def merged_def ce_end_def)
qed

lemma loop_ascii:
  assumes "loop_ok row cols colors col last_ascii runs" "col < cols" "\<not> spacer (row ! col)"
    and "\<not> has_flag (row ! col) F_WIDE_CHAR" "tc_zerowidth (row ! col) = []" and ch: "ascii_cell_char (cell_char (row ! col))"
  defines "r \<equiv> \<lparr>ce_col = col, ce_width = 1, ce_text = cell_char (row ! col), ce_style = style_of (row ! col) colors, ce_link = tc_link (row ! col)\<rparr>"
  shows "loop_ok row cols colors (col + 1) True
    (if runs \<noteq> [] \<and> last_ascii \<and> ce_end (last runs) = col \<and> ce_style (last runs) = ce_style r \<and> ce_link (last runs) = ce_link r
     then butlast runs @ [merged (last runs) (cell_char (row ! col))] else runs @ [r])"
proof -
  note L = assms(1) [unfolded loop_ok_def]
  obtain b where b: "cell_char (row ! col) = [b]" "0x20 \<le> unat b" "unat b < 0x7f" using ascii_cell_charD [OF ch] by blast
  have look: "look row colors col = shown (cell_char (row ! col)) (ce_style r) (ce_link r)"
    using look_cell [OF assms(3)] assms(5) by (simp add: cell_text_def r_def)
  have rest: "col + 1 \<le> cols" "\<not> has_flag (row ! (col + 1 - 1)) F_WIDE_CHAR" using assms(2,4) by simp_all
  show ?thesis
  proof (cases "runs \<noteq> [] \<and> last_ascii \<and> ce_end (last runs) = col \<and> ce_style (last runs) = ce_style r \<and> ce_link (last runs) = ce_link r")
    case False
    have ok: "cell_run_ok r" "is_ascii_run r" "ce_col r = col" "ce_end r = col + 1"
      using b by (auto simp: r_def cell_run_ok_def is_ascii_run_def ce_end_def)
    have "drawn r col = look row colors col" using ok look b by (simp add: drawn_def r_def)
    then have "\<forall>c<Suc col. draw (runs @ [r]) c = look row colors c"
      using draw_push [of runs col r] L ok(3) by (intro less_Suc_cases) auto
    then show ?thesis using False in_order_push [of runs col r] L ok rest by (auto simp: loop_ok_def)
  next
    case True
    obtain bl l where runs: "runs = bl @ [l]" using True by (cases runs rule: rev_cases) auto
    have l: "cell_run_ok l" "is_ascii_run l" "ce_end l = col" "ce_style l = ce_style r" "ce_link l = ce_link r"
      using L True by (auto simp: runs)
    let ?m = "merged l (cell_char (row ! col))"
    note m = merged_ok [OF l(1,2) ch]
    have ord: "sorted_wrt (\<lambda>a b. ce_end a \<le> ce_col b) bl" "\<forall>r\<in>set bl. ce_end r \<le> ce_col l" "\<forall>r\<in>set bl. ce_end r \<le> col"
      using L unfolding runs by (auto simp: in_order_def sorted_wrt_append)
    have "in_order (bl @ [?m]) (col + 1)" using ord m(3,4) l(3) by (auto simp: in_order_def sorted_wrt_append)
    moreover have "\<forall>c<Suc col. draw (bl @ [?m]) c = look row colors c"
    proof (rule less_Suc_cases)
      fix c assume c: "c < col"
      then have "draw (bl @ [?m]) c = draw runs c" using m(5) [of c] l(3) by (cases "draw bl c"; cases "drawn l c") (simp_all add: runs draw_append)
      then show "draw (bl @ [?m]) c = look row colors c" using L c by simp
    next
      show "draw (bl @ [?m]) col = look row colors col"
        using draw_last [OF draw_past [OF ord(3), of col]] m(6) l look by simp
    qed
    moreover have "\<forall>r\<in>set (bl @ [?m]). cell_run_ok r" using L m(1) by (simp add: runs)
    ultimately have "loop_ok row cols colors (col + 1) True (bl @ [?m])" using rest m(2) by (simp add: loop_ok_def)
    then show ?thesis using True unfolding runs by simp
  qed
qed

lemma cells_loop_spacer:
  "col < cols \<Longrightarrow> spacer (row ! col) \<Longrightarrow>
    cells_loop row cols colors col last_ascii runs = cells_loop row cols colors (col + 1) last_ascii runs"
  by (subst cells_loop.simps) (simp add: spacer_def)

lemma cells_loop_ascii:
  assumes "col < cols" "\<not> spacer (row ! col)"
    "\<not> has_flag (row ! col) F_WIDE_CHAR" "tc_zerowidth (row ! col) = []" "ascii_cell_char (cell_char (row ! col))"
  shows "cells_loop row cols colors col last_ascii runs = cells_loop row cols colors (col + 1) True
    (if runs \<noteq> [] \<and> last_ascii \<and> ce_end (last runs) = col \<and> ce_style (last runs) = style_of (row ! col) colors
        \<and> ce_link (last runs) = tc_link (row ! col)
     then butlast runs @ [merged (last runs) (cell_char (row ! col))]
     else runs @ [\<lparr>ce_col = col, ce_width = 1, ce_text = cell_char (row ! col), ce_style = style_of (row ! col) colors, ce_link = tc_link (row ! col)\<rparr>])"
  using assms by (subst cells_loop.simps) (simp only: spacer_def Let_def cell_char_def merged_def if_True if_False simp_thms)

lemma cells_loop_own:
  assumes "col < cols" "\<not> spacer (row ! col)"
    "\<not> (\<not> has_flag (row ! col) F_WIDE_CHAR \<and> tc_zerowidth (row ! col) = [] \<and> ascii_cell_char (cell_char (row ! col)))"
    "w = (if has_flag (row ! col) F_WIDE_CHAR \<and> col + 1 < cols then 2 else 1)"
  shows "cells_loop row cols colors col last_ascii runs = cells_loop row cols colors (col + w) False
    (runs @ [\<lparr>ce_col = col, ce_width = w, ce_text = cell_text (row ! col), ce_style = style_of (row ! col) colors, ce_link = tc_link (row ! col)\<rparr>])"
  using assms(1-3) unfolding assms(4)
  by (subst cells_loop.simps) (simp only: spacer_def Let_def cell_char_def cell_text_def if_True if_False simp_thms)

lemma cells_loop_ok:
  assumes "cells_ok row cols" "loop_ok row cols colors col last_ascii runs"
  shows "\<exists>x. loop_ok row cols colors cols x (cells_loop row cols colors col last_ascii runs)"
  using assms(2)
proof (induction "cols - col" arbitrary: col last_ascii runs rule: less_induct)
  case less
  note L = less(2)
  show ?case
  proof (cases "col < cols")
    case False
    then have "col = cols" using L by (simp add: loop_ok_def)
    then show ?thesis using L by (subst cells_loop.simps) auto
  next
    case True
    have cell: "cell_ok (row ! col)" using assms(1) True by (auto simp: cells_ok_def)
    have next': "\<exists>x. loop_ok row cols colors cols x (cells_loop row cols colors (col + w) a rs)"
      if "loop_ok row cols colors (col + w) a rs" "0 < w" for w a rs
      by (rule less(1) [OF _ that(1)]) (use True that(2) in simp)
    consider "spacer (row ! col)"
      | "\<not> spacer (row ! col)" "\<not> has_flag (row ! col) F_WIDE_CHAR" "tc_zerowidth (row ! col) = []" "ascii_cell_char (cell_char (row ! col))"
      | "\<not> spacer (row ! col)"
        "\<not> (\<not> has_flag (row ! col) F_WIDE_CHAR \<and> tc_zerowidth (row ! col) = [] \<and> ascii_cell_char (cell_char (row ! col)))"
      by blast
    then show ?thesis
    proof cases
      case 1
      then show ?thesis using next' [OF loop_spacer [OF L True]] unfolding cells_loop_spacer [OF True 1] by simp
    next
      case 2
      then show ?thesis using next' [OF loop_ascii [OF L True 2] zero_less_one] unfolding cells_loop_ascii [OF True 2]
        by (simp only: cell_run.simps)
    next
      case 3
      define w where "w = (if has_flag (row ! col) F_WIDE_CHAR \<and> col + 1 < cols then 2 else 1 :: nat)"
      have w: "w = 2 \<Longrightarrow> has_flag (row ! (col + 1)) F_WIDE_CHAR_SPACER" "0 < w"
        using assms(1) 3(1) by (auto simp: w_def cells_ok_def split: if_splits)
      show ?thesis unfolding cells_loop_own [OF True 3 w_def]
        by (rule next' [OF loop_own [OF L True 3(1) cell 3(2) w_def w(1)] w(2)])
    qed
  qed
qed

lemma in_order_trim:
  assumes "in_order runs col" "\<forall>r\<in>set runs. cell_run_ok r"
  shows "in_order (trim_default_blanks runs) col \<and> (\<forall>r\<in>set (trim_default_blanks runs). cell_run_ok r)"
proof -
  have r: "cell_run_ok (trim_run r)" "ce_col r \<le> ce_col (trim_run r)" "ce_end (trim_run r) \<le> ce_end r" if "r \<in> set runs" for r
    using trim_run_ok [of r] assms(2) that by simp_all
  have "sorted_wrt (\<lambda>a b. ce_end (trim_run a) \<le> ce_col (trim_run b)) runs"
  proof (rule sorted_wrt_mono_rel [of runs "\<lambda>a b. ce_end a \<le> ce_col b"])
    fix a b assume "a \<in> set runs" "b \<in> set runs" "ce_end a \<le> ce_col b"
    then show "ce_end (trim_run a) \<le> ce_col (trim_run b)" using r(2) [of b] r(3) [of a] by linarith
  qed (use assms(1) in \<open>simp add: in_order_def\<close>)
  then have "sorted_wrt (\<lambda>a b. ce_end a \<le> ce_col b) (trim_default_blanks runs)"
    unfolding trim_default_blanks_def by (intro sorted_wrt_filter) (simp add: sorted_wrt_map)
  moreover have "ce_end (trim_run r) \<le> col" if "r \<in> set runs" for r
    using r(3) [OF that] assms(1) that unfolding in_order_def by (blast intro: order_trans)
  ultimately show ?thesis using r(1) by (auto simp: in_order_def trim_default_blanks_def)
qed

text \<open>Runs as the format wants them, in increasing order inside the width.\<close>

definition runs_ok :: "cell_run list \<Rightarrow> nat \<Rightarrow> bool" where
  "runs_ok runs cols \<longleftrightarrow> in_order runs cols \<and> (\<forall>r\<in>set runs. cell_run_ok r)"

lemma row_from_cells_ok:
  assumes "cells_ok row cols" "cols \<le> 65535"
  shows "runs_ok (cw_runs (row_from_cells row cols colors)) cols
    \<and> (\<forall>c<cols. draw (cw_runs (row_from_cells row cols colors)) c = look row colors c)"
proof -
  have cols: "min (min cols (length row)) 65535 = cols" using assms by (simp add: cells_ok_def)
  have "loop_ok row cols colors 0 False []" by (simp add: loop_ok_def in_order_def)
  then obtain x where L: "loop_ok row cols colors cols x (cells_loop row cols colors 0 False [])"
    using cells_loop_ok [OF assms(1)] by blast
  then have "in_order (cells_loop row cols colors 0 False []) cols" "\<forall>r\<in>set (cells_loop row cols colors 0 False []). cell_run_ok r"
    by (simp_all add: loop_ok_def)
  moreover have "cw_runs (row_from_cells row cols colors) = trim_default_blanks (cells_loop row cols colors 0 False [])"
    unfolding row_from_cells_def cols Let_def by simp
  ultimately show ?thesis
    using in_order_trim [of "cells_loop row cols colors 0 False []" cols] draw_trim [of "cells_loop row cols colors 0 False []"] L
    by (simp add: loop_ok_def runs_ok_def)
qed

text \<open>
  C23: The runs of a row draw what the emulator's cells are. For a row of cells as the emulator keeps
  them (a character with at most 16 combining characters, a wide character followed by its spacer),
  every column of the row's runs shows the cell's character, style and link, the second half of the
  wide character before it, or blank; the runs lie in order inside the row, none is blank, and each
  is printable ASCII as wide as its text or one cell's content within the format's limit; the row
  wraps exactly if its last cell says so.
\<close>

theorem row_drawn:
  assumes "cells_ok row cols" "0 < cols" "cols \<le> 65535"
  shows "(\<forall>c<cols. draw (cw_runs (row_from_cells row cols colors)) c = look row colors c)
    \<and> sorted_wrt (\<lambda>a b. ce_end a \<le> ce_col b) (cw_runs (row_from_cells row cols colors))
    \<and> (\<forall>r\<in>set (cw_runs (row_from_cells row cols colors)). ce_end r \<le> cols \<and> cell_run_ok r \<and> \<not> is_default_blank r)
    \<and> cw_wraps (row_from_cells row cols colors) = has_flag (row ! (cols - 1)) F_WRAPLINE"
proof -
  have cols: "min (min cols (length row)) 65535 = cols" using assms by (simp add: cells_ok_def)
  have "\<forall>r\<in>set (cw_runs (row_from_cells row cols colors)). \<not> is_default_blank r"
    by (simp add: row_from_cells_def Let_def trim_default_blanks_def)
  moreover have "cw_wraps (row_from_cells row cols colors) = has_flag (row ! (cols - 1)) F_WRAPLINE"
    using assms(2) unfolding row_from_cells_def cols Let_def by simp
  ultimately show ?thesis using row_from_cells_ok [OF assms(1,3), of colors] by (simp add: runs_ok_def in_order_def)
qed

definition plain_cell :: "byte list \<Rightarrow> cell_flag list \<Rightarrow> term_cell" where
  "plain_cell ch flags = \<lparr>tc_char = ch, tc_zerowidth = [], tc_flags = flags, tc_fg = NamedColor 256, tc_bg = NamedColor 257,
     tc_underline = None, tc_link = None\<rparr>"

definition sample_cells :: "term_cell list" where
  "sample_cells = [plain_cell [9] [], plain_cell [104] [], plain_cell [105] [], plain_cell [0xE4, 0xB8, 0xAD] [F_WIDE_CHAR],
     plain_cell [32] [F_WIDE_CHAR_SPACER], plain_cell [32] [F_WRAPLINE]]"

lemma sample_cells_ok: "cells_ok sample_cells 6"
proof -
  have "\<forall>c\<in>set sample_cells. cell_ok c"
    by (simp add: sample_cells_def cell_ok_def plain_cell_def high_def has_flag_def spacer_def)
  moreover have "has_flag (sample_cells ! (c + 1)) F_WIDE_CHAR_SPACER" if "c + 1 < 6" "has_flag (sample_cells ! c) F_WIDE_CHAR" for c
  proof -
    have "c \<in> {0, 1, 2, 3, 4}" using that(1) by auto
    then show ?thesis using that(2) by (auto simp: sample_cells_def plain_cell_def has_flag_def)
  qed
  ultimately show ?thesis by (simp add: cells_ok_def sample_cells_def)
qed

lemma plain_style:
  "set flags \<subseteq> {F_WIDE_CHAR, F_WIDE_CHAR_SPACER, F_WRAPLINE} \<Longrightarrow> style_of (plain_cell ch flags) (\<lambda>_. None) = style_plain"
  by (auto simp: style_of_def plain_cell_def style_bits_def has_flag_def wire_color_def palette_index_def Named_DimBlack_def style_plain_def)

lemma plain_sel:
  "tc_char (plain_cell ch flags) = ch" "tc_zerowidth (plain_cell ch flags) = []" "tc_link (plain_cell ch flags) = None"
  "has_flag (plain_cell ch flags) f \<longleftrightarrow> f \<in> set flags"
  by (simp_all add: plain_cell_def has_flag_def)

definition plain_run :: "nat \<Rightarrow> nat \<Rightarrow> byte list \<Rightarrow> cell_run" where
  "plain_run col w txt = \<lparr>ce_col = col, ce_width = w, ce_text = txt, ce_style = style_plain, ce_link = None\<rparr>"

lemma sample_cells_len: "length sample_cells = 6" by (simp add: sample_cells_def)

lemma sample_loop:
  "cells_loop sample_cells 6 (\<lambda>_. None) 0 False [] =
    [plain_run 0 3 [32, 104, 105], plain_run 3 2 [0xE4, 0xB8, 0xAD], plain_run 5 1 [32]]"
proof -
  note cell = sample_cells_def plain_sel plain_style spacer_def ascii_cell_char_def cell_char_def cell_text_def plain_run_def
    ce_end_def merged_def
  have "cells_loop sample_cells 6 (\<lambda>_. None) 0 False [] = cells_loop sample_cells 6 (\<lambda>_. None) (0 + 1) True [plain_run 0 1 [32]]"
    by (subst cells_loop_ascii) (simp_all add: cell)
  also have "\<dots> = cells_loop sample_cells 6 (\<lambda>_. None) (1 + 1) True [plain_run 0 2 [32, 104]]"
    by (subst cells_loop_ascii) (simp_all add: cell flip: numeral_2_eq_2 numeral_3_eq_3)
  also have "\<dots> = cells_loop sample_cells 6 (\<lambda>_. None) (2 + 1) True [plain_run 0 3 [32, 104, 105]]"
    by (subst cells_loop_ascii) (simp_all add: cell flip: numeral_2_eq_2 numeral_3_eq_3)
  also have "\<dots> = cells_loop sample_cells 6 (\<lambda>_. None) (3 + 2) False [plain_run 0 3 [32, 104, 105], plain_run 3 2 [0xE4, 0xB8, 0xAD]]"
    by (subst cells_loop_own [where w = 2]) (simp_all add: cell)
  also have "\<dots> = cells_loop sample_cells 6 (\<lambda>_. None) (5 + 1) True
      [plain_run 0 3 [32, 104, 105], plain_run 3 2 [0xE4, 0xB8, 0xAD], plain_run 5 1 [32]]"
    by (subst cells_loop_ascii) (simp_all add: cell)
  also have "\<dots> = [plain_run 0 3 [32, 104, 105], plain_run 3 2 [0xE4, 0xB8, 0xAD], plain_run 5 1 [32]]"
    by (subst cells_loop.simps) simp
  finally show ?thesis .
qed

lemma row_drawn_witness:
  "cw_runs (row_from_cells sample_cells 6 (\<lambda>_. None)) = [plain_run 1 2 [104, 105], plain_run 3 2 [0xE4, 0xB8, 0xAD]]
    \<and> draw (cw_runs (row_from_cells sample_cells 6 (\<lambda>_. None))) 4 = look sample_cells (\<lambda>_. None) 4"
proof -
  have "cw_runs (row_from_cells sample_cells 6 (\<lambda>_. None)) = trim_default_blanks (cells_loop sample_cells 6 (\<lambda>_. None) 0 False [])"
    using sample_cells_len by (simp add: row_from_cells_def)
  also have "\<dots> = [plain_run 1 2 [104, 105], plain_run 3 2 [0xE4, 0xB8, 0xAD]]"
    unfolding sample_loop by code_simp
  finally show ?thesis using row_drawn [OF sample_cells_ok, of "\<lambda>_. None"] by simp
qed

end
