(* ===== verification/Packing.thy ===== *)
theory Packing
  imports Cells
begin

text \<open>
  Packing rows into messages (\<^verbatim>\<open>Pack\<close>, \<^verbatim>\<open>rows_messages\<close> and \<^verbatim>\<open>history_messages\<close> in
  \<^verbatim>\<open>crates/farhelm-supervisor/src/grid_output.rs\<close>) and a clipboard write into parts
  (\<^verbatim>\<open>clipboard_messages\<close>). How many bytes of JSON a row and a link take is \<^verbatim>\<open>serde_json\<close>'s to say: the
  two lengths are arguments, \<open>row_len\<close> and \<open>link_len\<close>.
\<close>

definition MESSAGE_TARGET :: nat where "MESSAGE_TARGET = 32 * 1024"
definition ENVELOPE :: nat where "ENVELOPE = 128"

subsection \<open>Links\<close>

type_synonym link_name = "byte list \<times> byte list"
type_synonym link_index = "link_name \<Rightarrow> nat option"

definition link_key :: "grid_link \<Rightarrow> link_name" where
  "link_key link = (lk_id link, lk_uri link)"

definition new_links :: "cell_row \<Rightarrow> link_index \<Rightarrow> grid_link list" where
  "new_links row index = foldl (\<lambda>new run. case ce_link run of
      None \<Rightarrow> new
    | Some link \<Rightarrow> if index (link_key link) = None \<and> link \<notin> set new then new @ [link] else new) [] (cw_runs row)"

text \<open>The index of the first link that is \<open>link\<close>.\<close>

fun link_position :: "grid_link \<Rightarrow> grid_link list \<Rightarrow> nat option" where
  "link_position link [] = None"
| "link_position link (l # ls) = (if l = link then Some 0 else map_option Suc (link_position link ls))"

definition row_to_wire :: "cell_row \<Rightarrow> link_index \<Rightarrow> grid_link list \<Rightarrow> nat \<Rightarrow> grid_row" where
  "row_to_wire row index added table_len = \<lparr>
     rw_wraps = cw_wraps row,
     rw_runs = map (\<lambda>run. \<lparr>rn_col = ce_col run, rn_width = ce_width run, rn_text = ce_text run, rn_style = ce_style run,
       rn_link = (case ce_link run of
          None \<Rightarrow> None
        | Some link \<Rightarrow> (case index (link_key link) of
            Some i \<Rightarrow> Some i
          | None \<Rightarrow> map_option (\<lambda>at. table_len + at) (link_position link added)))\<rparr>) (cw_runs row)\<rparr>"

definition link_json_len :: "(grid_link \<Rightarrow> nat) \<Rightarrow> grid_link \<Rightarrow> nat" where
  "link_json_len link_len link = link_len link + 1"

definition row_json_estimate :: "(grid_row \<Rightarrow> nat) \<Rightarrow> cell_row \<Rightarrow> nat" where
  "row_json_estimate row_len row =
     row_len \<lparr>rw_wraps = cw_wraps row,
       rw_runs = map (\<lambda>run. \<lparr>rn_col = ce_col run, rn_width = ce_width run, rn_text = ce_text run,
         rn_style = ce_style run, rn_link = None\<rparr>) (cw_runs row)\<rparr>
     + 4 * length (filter (\<lambda>run. ce_link run \<noteq> None) (cw_runs row)) + 8"

text \<open>Bounds that need no JSON: the longest each byte can be written, and a row's total.\<close>

definition escaped_len_at_most :: "byte list \<Rightarrow> nat" where
  "escaped_len_at_most txt = sum_list (map (\<lambda>b. if unat b \<le> 0x1f then 6 else if b = 34 \<or> b = 92 then 2 else 1) txt)"

definition row_bytes_estimate :: "cell_row \<Rightarrow> nat" where
  "row_bytes_estimate row =
     sum_list (map (\<lambda>run. escaped_len_at_most (ce_text run) + 64
        + (case ce_link run of None \<Rightarrow> 0
           | Some link \<Rightarrow> escaped_len_at_most (lk_id link) + escaped_len_at_most (lk_uri link) + 8)) (cw_runs row)) + 20"

subsection \<open>Packs\<close>

record 'a pack =
  pk_rows :: "'a list"
  pk_links :: "grid_link list"
  pk_index :: link_index
  pk_size :: nat

definition pack_new :: "'a pack" where
  "pack_new = \<lparr>pk_rows = [], pk_links = [], pk_index = (\<lambda>_. None), pk_size = 0\<rparr>"

definition pack_takes :: "(grid_row \<Rightarrow> nat) \<Rightarrow> (grid_link \<Rightarrow> nat) \<Rightarrow> cell_row \<Rightarrow> 'a pack \<Rightarrow> bool" where
  "pack_takes row_len link_len row pack \<longleftrightarrow>
     pk_rows pack = []
     \<or> (let new = new_links row (pk_index pack);
            bytes = row_json_estimate row_len row + sum_list (map (link_json_len link_len) new) in
        length (pk_links pack) + length new \<le> GRID_MAX_LINKS \<and> pk_size pack + bytes \<le> MESSAGE_TARGET)"

definition add_link :: "grid_link \<Rightarrow> 'a pack \<Rightarrow> 'a pack" where
  "add_link link pack = pack\<lparr>pk_index := (pk_index pack)(link_key link \<mapsto> length (pk_links pack)),
     pk_links := pk_links pack @ [link]\<rparr>"

text \<open>The loop that gives up a link at a time until the row fits.\<close>

function wire_loop :: "(grid_row \<Rightarrow> nat) \<Rightarrow> (grid_link \<Rightarrow> nat) \<Rightarrow> cell_row \<Rightarrow> 'a pack \<Rightarrow> grid_link list \<Rightarrow> grid_row \<times> 'a pack" where
  "wire_loop row_len link_len row pack wanted =
     (let wire = row_to_wire row (pk_index pack) wanted (length (pk_links pack));
          bytes = row_len wire + sum_list (map (link_json_len link_len) wanted) in
      if pk_size pack + bytes + ENVELOPE \<le> GRID_MAX_MESSAGE \<or> wanted = []
      then (wire, (fold add_link wanted pack)\<lparr>pk_size := pk_size pack + bytes\<rparr>)
      else wire_loop row_len link_len row pack (butlast wanted))"
  by pat_completeness auto
termination
  by (relation "measure (\<lambda>(row_len, link_len, row, pack, wanted). length wanted)") auto

declare wire_loop.simps [simp del]

definition wire_row :: "(grid_row \<Rightarrow> nat) \<Rightarrow> (grid_link \<Rightarrow> nat) \<Rightarrow> cell_row \<Rightarrow> 'a pack \<Rightarrow> grid_row \<times> 'a pack" where
  "wire_row row_len link_len row pack =
     wire_loop row_len link_len row pack
       (take (GRID_MAX_LINKS - length (pk_links pack)) (new_links row (pk_index pack)))"

subsection \<open>Messages of rows\<close>

fun rows_loop :: "(grid_row \<Rightarrow> nat) \<Rightarrow> (grid_link \<Rightarrow> nat) \<Rightarrow> (nat \<times> cell_row) list \<Rightarrow> grid_output list \<Rightarrow> screen_row pack
    \<Rightarrow> grid_output list" where
  "rows_loop row_len link_len [] messages pack =
     (if pk_rows pack \<noteq> [] then messages @ [GridRows (pk_rows pack) (pk_links pack)] else messages)"
| "rows_loop row_len link_len ((y, row) # rows) messages pack =
     (let (messages, pack) = (if pack_takes row_len link_len row pack then (messages, pack)
            else (messages @ [GridRows (pk_rows pack) (pk_links pack)], pack_new));
          (wire, pack) = wire_row row_len link_len row pack in
      rows_loop row_len link_len rows messages (pack\<lparr>pk_rows := pk_rows pack @ [\<lparr>sr_y = y, sr_row = wire\<rparr>]\<rparr>))"

definition rows_messages :: "(grid_row \<Rightarrow> nat) \<Rightarrow> (grid_link \<Rightarrow> nat) \<Rightarrow> (nat \<times> cell_row) list \<Rightarrow> grid_output list" where
  "rows_messages row_len link_len rows = rows_loop row_len link_len rows [] pack_new"

fun history_loop :: "(grid_row \<Rightarrow> nat) \<Rightarrow> (grid_link \<Rightarrow> nat) \<Rightarrow> nat \<Rightarrow> cell_row list \<Rightarrow> grid_output list \<Rightarrow> nat \<Rightarrow> grid_row pack
    \<Rightarrow> grid_output list" where
  "history_loop row_len link_len cols [] messages pack_first pack =
     (if pk_rows pack \<noteq> [] then messages @ [GridHistory pack_first cols (pk_rows pack) (pk_links pack)] else messages)"
| "history_loop row_len link_len cols (line # lines) messages pack_first pack =
     (let (messages, pack_first, pack) = (if pack_takes row_len link_len line pack then (messages, pack_first, pack)
            else (messages @ [GridHistory pack_first cols (pk_rows pack) (pk_links pack)], pack_first + length (pk_rows pack), pack_new));
          (wire, pack) = wire_row row_len link_len line pack in
      history_loop row_len link_len cols lines messages pack_first (pack\<lparr>pk_rows := pk_rows pack @ [wire]\<rparr>))"

definition history_messages :: "(grid_row \<Rightarrow> nat) \<Rightarrow> (grid_link \<Rightarrow> nat) \<Rightarrow> nat \<Rightarrow> nat \<Rightarrow> cell_row list \<Rightarrow> grid_output list" where
  "history_messages row_len link_len first' cols lines = history_loop row_len link_len cols lines [] first' pack_new"

subsection \<open>Clipboard writes\<close>

text \<open>Text is its characters here, each its UTF-8 bytes.\<close>

definition escaped_len :: "byte list \<Rightarrow> nat" where
  "escaped_len ch = (if ch \<in> {[34], [92], [8], [12], [10], [13], [9]} then 2
     else if length ch = 1 \<and> unat (hd ch) \<le> 0x1f then 6 else length ch)"

fun clipboard_parts :: "byte list list \<Rightarrow> byte list list \<Rightarrow> byte list \<Rightarrow> nat \<Rightarrow> byte list list" where
  "clipboard_parts [] parts part escaped = parts @ [part]"
| "clipboard_parts (ch # chs) parts part escaped =
     (let cost = escaped_len ch in
      if GRID_MAX_CLIPBOARD_PART_BYTES < length part + length ch \<or> GRID_MAX_MESSAGE - ENVELOPE < escaped + cost
      then clipboard_parts chs (parts @ [part]) ch (0 + cost)
      else clipboard_parts chs parts (part @ ch) (escaped + cost))"

definition clipboard_messages :: "clipboard_target \<Rightarrow> byte list list \<Rightarrow> grid_output list" where
  "clipboard_messages target txt =
     (if GRID_MAX_CLIPBOARD_BYTES < length (concat txt) then []
      else let parts = clipboard_parts txt [] [] 0 in
        map (\<lambda>at. GridClipboard target (parts ! at) (at + 1 = length parts)) [0..<length parts])"

end
