(* ===== verification/Grid_Client.thy ===== *)
theory Grid_Client
  imports Packing Grid_Stream "HOL-Library.AList"
begin

text \<open>
  A client of a grid stream, as the client of the sender's own tests applies it
  (\<^verbatim>\<open>TestClient\<close> in \<^verbatim>\<open>crates/farhelm-supervisor/src/grid_output/test_client.rs\<close>, which follows the
  page's \<^verbatim>\<open>grid-model.js\<close>): every message is checked against the stream's rules and then applied.
  \<open>None\<close> is a message the client refuses, or an index it would panic on.
\<close>

subsection \<open>Rows with their links looked up\<close>

definition resolve_run :: "grid_link list \<Rightarrow> grid_run \<Rightarrow> cell_run option" where
  "resolve_run links r =
     (let found = (\<lambda>l. \<lparr>ce_col = rn_col r, ce_width = rn_width r, ce_text = rn_text r, ce_style = rn_style r, ce_link = l\<rparr>) in
      case rn_link r of None \<Rightarrow> Some (found None)
      | Some i \<Rightarrow> if i < length links then Some (found (Some (links ! i))) else None)"

definition resolve_row :: "grid_row \<Rightarrow> grid_link list \<Rightarrow> cell_row option" where
  "resolve_row row links =
     map_option (\<lambda>runs. \<lparr>cw_wraps = rw_wraps row, cw_runs = runs\<rparr>) (those (map (resolve_run links) (rw_runs row)))"

subsection \<open>The client\<close>

record grid_client =
  gl_check :: stream_check
  gl_cols :: nat
  gl_rows :: nat
  gl_history_cap :: nat
  gl_screen :: "cell_row list"
  gl_cursor :: "grid_cursor option"
  gl_pending :: "(nat \<times> cell_row) list"
  gl_history :: "(nat \<times> nat \<times> cell_row) list"
  gl_state :: "terminal_state option"
  gl_clipboard :: "(clipboard_target \<times> byte list) list"
  gl_partial :: "(clipboard_target \<times> byte list) option"

definition client_new :: grid_client where
  "client_new = \<lparr>gl_check = check_new, gl_cols = 0, gl_rows = 0, gl_history_cap = 0, gl_screen = [], gl_cursor = None,
     gl_pending = [], gl_history = [], gl_state = None, gl_clipboard = [], gl_partial = None\<rparr>"

definition blank_rows :: "nat \<Rightarrow> cell_row list" where
  "blank_rows n = replicate n cell_row_default"

text \<open>The rows of one message into the pending ones, a later row of the same number in place of the earlier.\<close>

fun pend_rows :: "screen_row list \<Rightarrow> grid_link list \<Rightarrow> (nat \<times> cell_row) list \<Rightarrow> (nat \<times> cell_row) list option" where
  "pend_rows [] links pending = Some pending"
| "pend_rows (r # rs) links pending = (case resolve_row (sr_row r) links of
     None \<Rightarrow> None | Some row \<Rightarrow> pend_rows rs links (AList.update (sr_y r) row pending))"

fun push_lines :: "nat \<Rightarrow> nat \<Rightarrow> nat \<Rightarrow> grid_row list \<Rightarrow> grid_link list \<Rightarrow> (nat \<times> nat \<times> cell_row) list \<Rightarrow> (nat \<times> nat \<times> cell_row) list option" where
  "push_lines cap number cols [] links history = Some history"
| "push_lines cap number cols (r # rs) links history = (case resolve_row r links of
     None \<Rightarrow> None
   | Some row \<Rightarrow>
       let history = history @ [(number, cols, row)] in
       push_lines cap (number + 1) cols rs links (if cap < length history then tl history else history))"

text \<open>The committed rows over the screen; a row past the screen is out of bounds.\<close>

definition commit_rows :: "(nat \<times> cell_row) list \<Rightarrow> cell_row list \<Rightarrow> cell_row list" where
  "commit_rows pending screen = map (\<lambda>y. case map_of pending y of Some row \<Rightarrow> row | None \<Rightarrow> screen ! y) [0..<length screen]"

fun apply_accepted :: "grid_output \<Rightarrow> grid_client \<Rightarrow> grid_client option" where
  "apply_accepted (GridHello cols rows cap) c =
     Some (c\<lparr>gl_cols := cols, gl_rows := rows, gl_history_cap := cap, gl_screen := blank_rows rows\<rparr>)"
| "apply_accepted (GridRows rows links) c =
     map_option (\<lambda>pending. c\<lparr>gl_pending := pending\<rparr>) (pend_rows rows links (gl_pending c))"
| "apply_accepted (GridFrame rev' cols rows shift cursor) c =
     (let c = (if (cols, rows) \<noteq> (gl_cols c, gl_rows c)
               then c\<lparr>gl_cols := cols, gl_rows := rows, gl_screen := blank_rows rows\<rparr>
               else if 0 < shift
               then c\<lparr>gl_screen := take rows (drop shift (gl_screen c) @ blank_rows (rows - (length (gl_screen c) - shift)))\<rparr>
               else c) in
      if \<exists>p\<in>set (gl_pending c). length (gl_screen c) \<le> fst p then None
      else Some (c\<lparr>gl_screen := commit_rows (gl_pending c) (gl_screen c), gl_pending := [], gl_cursor := Some cursor\<rparr>))"
| "apply_accepted (GridHistory first' cols rows links) c =
     map_option (\<lambda>history. c\<lparr>gl_history := history\<rparr>) (push_lines (gl_history_cap c) first' cols rows links (gl_history c))"
| "apply_accepted GridHistoryReset c = Some (c\<lparr>gl_history := []\<rparr>)"
| "apply_accepted (GridState state) c = Some (c\<lparr>gl_state := Some state\<rparr>)"
| "apply_accepted (GridClipboard target txt last') c =
     (let partial = (case gl_partial c of Some p \<Rightarrow> p | None \<Rightarrow> (target, []));
          partial = (fst partial, snd partial @ txt) in
      Some (if last' then c\<lparr>gl_clipboard := gl_clipboard c @ [partial], gl_partial := None\<rparr>
        else c\<lparr>gl_partial := Some partial\<rparr>))"

text \<open>
  One message, as decoding gives it: the bounds decoding checks of the message are checked here;
  the size of its bytes and their JSON, which decoding checks before, are not of the message
  (\<open>decode_output\<close> has them).
\<close>

definition client_apply :: "grid_output \<Rightarrow> grid_client \<Rightarrow> grid_client option" where
  "client_apply m c = (case validate_output m of Inl e \<Rightarrow> None
     | Inr u \<Rightarrow> (case stream_accept m (gl_check c) of
         (Inl e, check) \<Rightarrow> None
       | (Inr u, check) \<Rightarrow> apply_accepted m (c\<lparr>gl_check := check\<rparr>)))"

fun client_run :: "grid_output list \<Rightarrow> grid_client \<Rightarrow> grid_client option" where
  "client_run [] c = Some c"
| "client_run (m # ms) c = (case client_apply m c of None \<Rightarrow> None | Some c' \<Rightarrow> client_run ms c')"

lemma client_run_append: "client_run (ms @ ns) c = (case client_run ms c of None \<Rightarrow> None | Some c' \<Rightarrow> client_run ns c')"
  by (induction ms arbitrary: c) (auto split: option.split)

end
