(* ===== verification/Packing_Facts.thy ===== *)
theory Packing_Facts
  imports Cells_Properties Grid_Client
begin

text \<open>
  What a packed message says: every row comes back out of it as it went in, less the links given up,
  and the message passes the format's checks.
\<close>

subsection \<open>Links and their table\<close>

lemma link_key_eq [simp]: "link_key a = link_key b \<longleftrightarrow> a = b"
  by (cases a; cases b) (auto simp: link_key_def)

definition links_of :: "cell_row \<Rightarrow> grid_link set" where
  "links_of row = {l. \<exists>run\<in>set (cw_runs row). ce_link run = Some l}"

lemma new_links_fold:
  "distinct acc \<Longrightarrow> distinct (foldl (\<lambda>new run. case ce_link run of None \<Rightarrow> new
      | Some link \<Rightarrow> if index (link_key link) = None \<and> link \<notin> set new then new @ [link] else new) acc runs)
    \<and> set (foldl (\<lambda>new run. case ce_link run of None \<Rightarrow> new
      | Some link \<Rightarrow> if index (link_key link) = None \<and> link \<notin> set new then new @ [link] else new) acc runs)
      = set acc \<union> {l. (\<exists>run\<in>set runs. ce_link run = Some l) \<and> index (link_key l) = None}"
proof (induction runs arbitrary: acc)
  case (Cons run runs)
  let ?acc = "case ce_link run of None \<Rightarrow> acc
      | Some link \<Rightarrow> if index (link_key link) = None \<and> link \<notin> set acc then acc @ [link] else acc"
  have d: "distinct ?acc" using Cons.prems by (auto split: option.split)
  have "set ?acc = set acc \<union> {l. ce_link run = Some l \<and> index (link_key l) = None}" by (auto split: option.split)
  then show ?case using Cons.IH [OF d] by auto
qed simp

lemma new_links_ok:
  "distinct (new_links row index) \<and> set (new_links row index) = {l \<in> links_of row. index (link_key l) = None}"
  using new_links_fold [of "[]" index "cw_runs row"] by (auto simp: new_links_def links_of_def)

lemma link_position_None: "link_position l ls = None \<longleftrightarrow> l \<notin> set ls"
  by (induction ls) auto

lemma link_position_Some: "link_position l ls = Some i \<Longrightarrow> i < length ls \<and> ls ! i = l"
  by (induction ls arbitrary: i) (auto split: if_splits)

definition pack_ok :: "'a pack \<Rightarrow> bool" where
  "pack_ok p \<longleftrightarrow> distinct (pk_links p) \<and> length (pk_links p) \<le> GRID_MAX_LINKS
     \<and> (\<forall>l i. pk_index p (link_key l) = Some i \<longleftrightarrow> i < length (pk_links p) \<and> pk_links p ! i = l)"

lemma pack_ok_size: "pack_ok (p\<lparr>pk_size := s\<rparr>) = pack_ok p"
  by (simp add: pack_ok_def)

lemma pack_ok_new: "pack_ok pack_new"
  by (simp add: pack_ok_def pack_new_def)

lemma pack_ok_index: "pack_ok p \<Longrightarrow> pk_index p (link_key l) = None \<longleftrightarrow> l \<notin> set (pk_links p)"
  unfolding pack_ok_def in_set_conv_nth by (metis not_None_eq)

lemma add_link_ok:
  assumes "pack_ok p" "l \<notin> set (pk_links p)" "length (pk_links p) < GRID_MAX_LINKS"
  shows "pack_ok (add_link l p)"
proof -
  have "pk_index (add_link l p) (link_key k) = Some i \<longleftrightarrow> i < length (pk_links (add_link l p)) \<and> pk_links (add_link l p) ! i = k" for k i
    using assms by (cases "k = l") (auto simp: pack_ok_def add_link_def nth_append less_Suc_eq)
  then show ?thesis using assms by (simp add: pack_ok_def add_link_def)
qed

lemma add_links_ok:
  assumes "pack_ok p" "distinct ls" "set ls \<inter> set (pk_links p) = {}" "length (pk_links p) + length ls \<le> GRID_MAX_LINKS"
  shows "pack_ok (fold add_link ls p) \<and> pk_links (fold add_link ls p) = pk_links p @ ls
    \<and> pk_rows (fold add_link ls p) = pk_rows p"
  using assms
proof (induction ls arbitrary: p)
  case (Cons l ls)
  have "pack_ok (add_link l p)" using Cons.prems by (intro add_link_ok) auto
  moreover have "pk_links (add_link l p) = pk_links p @ [l]" "pk_rows (add_link l p) = pk_rows p" by (simp_all add: add_link_def)
  ultimately show ?case using Cons.IH [of "add_link l p"] Cons.prems by auto
qed simp

subsection \<open>A row in and out of a message\<close>

definition keep_links :: "grid_link set \<Rightarrow> cell_row \<Rightarrow> cell_row" where
  "keep_links S row = row\<lparr>cw_runs := map (\<lambda>run. run\<lparr>ce_link := (case ce_link run of
     Some l \<Rightarrow> if l \<in> S then Some l else None | None \<Rightarrow> None)\<rparr>) (cw_runs row)\<rparr>"

lemma keep_links_all: "links_of row \<subseteq> S \<Longrightarrow> keep_links S row = row"
proof -
  assume a: "links_of row \<subseteq> S"
  have "map (\<lambda>run. run\<lparr>ce_link := (case ce_link run of Some l \<Rightarrow> if l \<in> S then Some l else None | None \<Rightarrow> None)\<rparr>) (cw_runs row) = cw_runs row"
  proof (rule map_idI)
    fix run assume run: "run \<in> set (cw_runs row)"
    then have "ce_link run = Some l \<Longrightarrow> l \<in> S" for l using a by (auto simp: links_of_def)
    then show "run\<lparr>ce_link := (case ce_link run of Some l \<Rightarrow> if l \<in> S then Some l else None | None \<Rightarrow> None)\<rparr> = run"
      by (cases run) (auto split: option.split)
  qed
  then show ?thesis by (simp add: keep_links_def)
qed

lemma those_map_Some: "(\<forall>x\<in>set xs. f x = Some (g x)) \<Longrightarrow> those (map f xs) = Some (map g xs)"
  by (induction xs) auto

lemma those_Some: "those xs = Some ys \<longleftrightarrow> xs = map Some ys"
  by (induction xs arbitrary: ys) (auto split: option.splits simp: Cons_eq_map_conv)

lemma resolve_run_more: "resolve_run links r = Some x \<Longrightarrow> resolve_run (links @ extra) r = Some x"
  by (auto simp: resolve_run_def Let_def nth_append split: option.splits if_splits)

lemma resolve_row_more:
  assumes "resolve_row row links = Some x"
  shows "resolve_row row (links @ extra) = Some x"
proof -
  obtain runs where runs: "those (map (resolve_run links) (rw_runs row)) = Some runs" "x = \<lparr>cw_wraps = rw_wraps row, cw_runs = runs\<rparr>"
    using assms by (auto simp: resolve_row_def)
  have "map (resolve_run links) (rw_runs row) = map Some runs" using runs(1) by (simp add: those_Some)
  then have "map (resolve_run (links @ extra)) (rw_runs row) = map Some runs"
    using resolve_run_more by (auto simp: list_eq_iff_nth_eq)
  then show ?thesis using runs(2) by (simp add: resolve_row_def those_Some)
qed

lemma resolve_wire:
  assumes "pack_ok p" "set added \<inter> set (pk_links p) = {}"
  shows "resolve_row (row_to_wire row (pk_index p) added (length (pk_links p))) (pk_links p @ added)
    = Some (keep_links (set (pk_links p) \<union> set added) row)"
proof -
  let ?index = "pk_index p" and ?n = "length (pk_links p)"
  let ?wire = "\<lambda>run. \<lparr>rn_col = ce_col run, rn_width = ce_width run, rn_text = ce_text run, rn_style = ce_style run,
       rn_link = (case ce_link run of None \<Rightarrow> None
        | Some link \<Rightarrow> (case ?index (link_key link) of Some i \<Rightarrow> Some i
          | None \<Rightarrow> map_option (\<lambda>at. ?n + at) (link_position link added)))\<rparr>"
  have "resolve_run (pk_links p @ added) (?wire run) = Some (run\<lparr>ce_link := (case ce_link run of
     Some l \<Rightarrow> if l \<in> set (pk_links p) \<union> set added then Some l else None | None \<Rightarrow> None)\<rparr>)" for run
  proof (cases "ce_link run")
    case None
    then show ?thesis by (cases run) (simp add: resolve_run_def)
  next
    case (Some l)
    show ?thesis
    proof (cases "?index (link_key l)")
      case (Some i)
      then have i: "i < ?n" "pk_links p ! i = l" using assms(1) by (auto simp: pack_ok_def)
      then have "l \<in> set (pk_links p)" by auto
      then show ?thesis using \<open>ce_link run = Some l\<close> Some i by (cases run) (simp add: resolve_run_def nth_append)
    next
      case None
      then have new: "l \<notin> set (pk_links p)" using pack_ok_index [OF assms(1)] by simp
      show ?thesis
      proof (cases "link_position l added")
        case None': None
        then have "l \<notin> set added" using link_position_None by blast
        then show ?thesis using \<open>ce_link run = Some l\<close> None None' new by (cases run) (simp add: resolve_run_def)
      next
        case (Some i)
        then have "i < length added" "added ! i = l" using link_position_Some by auto
        then show ?thesis using \<open>ce_link run = Some l\<close> None Some by (cases run) (auto simp: resolve_run_def)
      qed
    qed
  qed
  then have "those (map (resolve_run (pk_links p @ added)) (map ?wire (cw_runs row))) = Some (map (\<lambda>run. run\<lparr>ce_link := (case ce_link run of
     Some l \<Rightarrow> if l \<in> set (pk_links p) \<union> set added then Some l else None | None \<Rightarrow> None)\<rparr>) (cw_runs row))"
    unfolding map_map by (intro those_map_Some) simp
  then show ?thesis by (simp add: resolve_row_def row_to_wire_def keep_links_def)
qed

subsection \<open>What joins a pack\<close>

text \<open>
  What the code counts on of the JSON: naming links costs a row no more than four bytes for each run
  with one and eight more.
\<close>

definition unlinked :: "grid_row \<Rightarrow> grid_row" where
  "unlinked r = r\<lparr>rw_runs := map (\<lambda>run. run\<lparr>rn_link := None\<rparr>) (rw_runs r)\<rparr>"

definition index_cost :: "(grid_row \<Rightarrow> nat) \<Rightarrow> bool" where
  "index_cost row_len \<longleftrightarrow> (\<forall>r. (\<forall>run\<in>set (rw_runs r). case rn_link run of Some i \<Rightarrow> i < 1000 | None \<Rightarrow> True) \<longrightarrow>
     row_len r \<le> row_len (unlinked r) + 4 * length (filter (\<lambda>run. rn_link run \<noteq> None) (rw_runs r)) + 8)"

text \<open>A row that fits a message of its own with all its links.\<close>

definition row_sendable :: "(grid_row \<Rightarrow> nat) \<Rightarrow> (grid_link \<Rightarrow> nat) \<Rightarrow> cell_row \<Rightarrow> bool" where
  "row_sendable row_len link_len row \<longleftrightarrow>
     (let links = new_links row (\<lambda>_. None) in
      length links \<le> GRID_MAX_LINKS
      \<and> row_len (row_to_wire row (\<lambda>_. None) links 0) + sum_list (map (link_json_len link_len) links) + ENVELOPE \<le> GRID_MAX_MESSAGE)"

definition counted :: "(grid_row \<Rightarrow> nat) \<Rightarrow> (grid_link \<Rightarrow> nat) \<Rightarrow> grid_row list \<Rightarrow> grid_link list \<Rightarrow> nat" where
  "counted row_len link_len rows links = sum_list (map row_len rows) + sum_list (map (link_json_len link_len) links)"

lemma wire_loop_ok:
  "\<exists>added rest. wanted = added @ rest
    \<and> wire_loop row_len link_len row p wanted = (row_to_wire row (pk_index p) added (length (pk_links p)),
        (fold add_link added p)\<lparr>pk_size := pk_size p + (row_len (row_to_wire row (pk_index p) added (length (pk_links p)))
          + sum_list (map (link_json_len link_len) added))\<rparr>)
    \<and> (added = [] \<or> pk_size p + (row_len (row_to_wire row (pk_index p) added (length (pk_links p)))
          + sum_list (map (link_json_len link_len) added)) + ENVELOPE \<le> GRID_MAX_MESSAGE)
    \<and> (pk_size p + (row_len (row_to_wire row (pk_index p) wanted (length (pk_links p)))
          + sum_list (map (link_json_len link_len) wanted)) + ENVELOPE \<le> GRID_MAX_MESSAGE \<longrightarrow> rest = [])"
proof (induction wanted rule: rev_induct)
  case Nil
  show ?case by (subst wire_loop.simps) (simp add: Let_def)
next
  case (snoc l wanted)
  let ?cost = "pk_size p + (row_len (row_to_wire row (pk_index p) (wanted @ [l]) (length (pk_links p)))
          + sum_list (map (link_json_len link_len) (wanted @ [l]))) + ENVELOPE"
  show ?case
  proof (cases "?cost \<le> GRID_MAX_MESSAGE")
    case True
    then show ?thesis
      by (subst wire_loop.simps) (rule exI [of _ "wanted @ [l]"], simp add: Let_def add.assoc)
  next
    case False
    then have "wire_loop row_len link_len row p (wanted @ [l]) = wire_loop row_len link_len row p wanted"
      by (subst wire_loop.simps) (simp add: Let_def)
    moreover obtain added rest where "wanted = added @ rest"
      "wire_loop row_len link_len row p wanted = (row_to_wire row (pk_index p) added (length (pk_links p)),
        (fold add_link added p)\<lparr>pk_size := pk_size p + (row_len (row_to_wire row (pk_index p) added (length (pk_links p)))
          + sum_list (map (link_json_len link_len) added))\<rparr>)"
      "added = [] \<or> pk_size p + (row_len (row_to_wire row (pk_index p) added (length (pk_links p)))
          + sum_list (map (link_json_len link_len) added)) + ENVELOPE \<le> GRID_MAX_MESSAGE"
      using snoc.IH by blast
    ultimately show ?thesis using False by (intro exI [of _ added] exI [of _ "rest @ [l]"]) simp
  qed
qed

lemma validate_runs_iff:
  "validate_runs w n next_free rs = Inr u \<longleftrightarrow>
    (\<forall>r\<in>set rs. next_free \<le> rn_col r \<and> validate_run w n r = Inr ()) \<and> sorted_wrt (\<lambda>a b. run_end a \<le> rn_col b) rs"
proof (induction rs arbitrary: next_free)
  case (Cons r rs)
  have "run_end r \<le> rn_col x \<Longrightarrow> validate_run w n r = Inr () \<Longrightarrow> next_free \<le> rn_col r \<Longrightarrow> next_free \<le> rn_col x" for x
    by (auto simp: run_end_def)
  then show ?case using Cons.IH by (auto simp: try_bind_eq_Inr)
qed simp

lemma run_validates:
  assumes "cell_run_ok run" "ce_end run \<le> w" "\<And>i. l = Some i \<Longrightarrow> i < n"
  shows "validate_run w n \<lparr>rn_col = ce_col run, rn_width = ce_width run, rn_text = ce_text run, rn_style = ce_style run, rn_link = l\<rparr> = Inr ()"
proof -
  have "length (ce_text run) \<le> GRID_MAX_CELL_TEXT_BYTES * ce_width run"
  proof (cases "is_ascii_run run")
    case True
    then show ?thesis using assms(1) by (simp add: cell_run_ok_def GRID_MAX_CELL_TEXT_BYTES_def)
  next
    case False
    then have "length (ce_text run) \<le> GRID_MAX_CELL_TEXT_BYTES * 1" using assms(1) by (simp add: cell_run_ok_def)
    also have "\<dots> \<le> GRID_MAX_CELL_TEXT_BYTES * ce_width run" using assms(1) by (intro mult_le_mono2) (simp add: cell_run_ok_def)
    finally show ?thesis .
  qed
  then show ?thesis using assms
    by (auto simp: validate_run_def try_bind_eq_Inr cell_run_ok_def is_ascii_run_def plain_ascii_def ce_end_def run_end_def split: option.split)
qed

lemma wire_index_less:
  assumes "pack_ok p" "set added \<inter> set (pk_links p) = {}" "run \<in> set (rw_runs (row_to_wire row (pk_index p) added (length (pk_links p))))"
    "rn_link run = Some i"
  shows "i < length (pk_links p) + length added"
proof -
  have "\<exists>l. pk_index p (link_key l) = Some i \<or> (\<exists>at. link_position l added = Some at \<and> i = length (pk_links p) + at)"
    using assms(3,4) by (fastforce simp: row_to_wire_def split: option.splits)
  then show ?thesis using assms(1) link_position_Some by (fastforce simp: pack_ok_def)
qed

lemma wire_valid:
  assumes "pack_ok p" "set added \<inter> set (pk_links p) = {}" "runs_ok (cw_runs row) w"
  shows "validate_row w (length (pk_links p) + length added) (row_to_wire row (pk_index p) added (length (pk_links p))) = Inr ()"
proof -
  let ?wire = "row_to_wire row (pk_index p) added (length (pk_links p))"
  have less: "run \<in> set (rw_runs ?wire) \<Longrightarrow> rn_link run = Some i \<Longrightarrow> i < length (pk_links p) + length added" for run i
    by (rule wire_index_less [OF assms(1,2)])
  have ok: "cell_run_ok run" "ce_end run \<le> w" if "run \<in> set (cw_runs row)" for run
    using assms(3) that by (auto simp: runs_ok_def in_order_def)
  have "validate_run w (length (pk_links p) + length added) r = Inr ()" if r: "r \<in> set (rw_runs ?wire)" for r
  proof -
    obtain run where run: "run \<in> set (cw_runs row)" "rn_col r = ce_col run" "rn_width r = ce_width run" "rn_text r = ce_text run"
      "rn_style r = ce_style run"
      using r by (auto simp: row_to_wire_def)
    have "r = \<lparr>rn_col = ce_col run, rn_width = ce_width run, rn_text = ce_text run, rn_style = ce_style run, rn_link = rn_link r\<rparr>"
      using run by (cases r) simp
    then show ?thesis using run_validates [OF ok [OF run(1)], of "rn_link r"] less [OF r] by metis
  qed
  moreover have "sorted_wrt (\<lambda>a b. run_end a \<le> rn_col b) (rw_runs ?wire)"
    using assms(3) by (simp add: row_to_wire_def sorted_wrt_map run_end_def runs_ok_def in_order_def ce_end_def)
  ultimately show ?thesis by (simp add: validate_row_def validate_runs_iff)
qed

lemma length_filter_mono: "(\<And>x. x \<in> set xs \<Longrightarrow> P x \<Longrightarrow> Q x) \<Longrightarrow> length (filter P xs) \<le> length (filter Q xs)"
  by (induction xs) (auto intro: le_SucI)

text \<open>Putting a row in a pack.\<close>

definition joins :: "(grid_row \<Rightarrow> nat) \<Rightarrow> (grid_link \<Rightarrow> nat) \<Rightarrow> cell_row \<Rightarrow> 'a pack \<Rightarrow> bool" where
  "joins row_len link_len row p \<longleftrightarrow>
     (if pk_rows p = [] then p = pack_new \<and> row_sendable row_len link_len row
      else index_cost row_len \<and> pack_takes row_len link_len row p)"

lemma joins_all:
  assumes "pack_ok p" "joins row_len link_len row p"
  defines "new \<equiv> new_links row (pk_index p)"
  shows "length (pk_links p) + length new \<le> GRID_MAX_LINKS"
    and "pk_size p + (row_len (row_to_wire row (pk_index p) new (length (pk_links p))) + sum_list (map (link_json_len link_len) new))
      + ENVELOPE \<le> GRID_MAX_MESSAGE"
    and "pk_rows p \<noteq> [] \<Longrightarrow>
      pk_size p + (row_len (row_to_wire row (pk_index p) new (length (pk_links p))) + sum_list (map (link_json_len link_len) new)) \<le> MESSAGE_TARGET"
proof -
  let ?wire = "row_to_wire row (pk_index p) new (length (pk_links p))"
  have fresh: "set new \<inter> set (pk_links p) = {}" using new_links_ok [of row "pk_index p"] pack_ok_index [OF assms(1)] by (auto simp: new_def)
  show le: "length (pk_links p) + length new \<le> GRID_MAX_LINKS"
    using assms(2) by (auto simp: joins_def row_sendable_def pack_takes_def pack_new_def new_def Let_def split: if_splits)
  show target: "pk_size p + (row_len ?wire + sum_list (map (link_json_len link_len) new)) \<le> MESSAGE_TARGET" if "pk_rows p \<noteq> []"
  proof -
    from that have t: "index_cost row_len" "pk_size p + (row_json_estimate row_len row + sum_list (map (link_json_len link_len) new)) \<le> MESSAGE_TARGET"
      using assms(2) by (auto simp: joins_def pack_takes_def new_def Let_def)
    have "\<forall>run\<in>set (rw_runs ?wire). case rn_link run of Some i \<Rightarrow> i < 1000 | None \<Rightarrow> True"
      using wire_index_less [OF assms(1) fresh, of _ row] le by (fastforce simp: GRID_MAX_LINKS_def split: option.split)
    then have "row_len ?wire \<le> row_len (unlinked ?wire) + 4 * length (filter (\<lambda>run. rn_link run \<noteq> None) (rw_runs ?wire)) + 8"
      using t(1) by (simp add: index_cost_def)
    moreover have "row_len (unlinked ?wire) + 4 * length (filter (\<lambda>run. ce_link run \<noteq> None) (cw_runs row)) + 8 = row_json_estimate row_len row"
      by (simp add: row_json_estimate_def unlinked_def row_to_wire_def comp_def)
    moreover have "length (filter (\<lambda>run. rn_link run \<noteq> None) (rw_runs ?wire)) \<le> length (filter (\<lambda>run. ce_link run \<noteq> None) (cw_runs row))"
      unfolding row_to_wire_def grid_row.simps filter_map length_map by (rule length_filter_mono) (auto split: option.splits)
    ultimately have "row_len ?wire \<le> row_json_estimate row_len row" by linarith
    then show ?thesis using t(2) by simp
  qed
  show "pk_size p + (row_len ?wire + sum_list (map (link_json_len link_len) new)) + ENVELOPE \<le> GRID_MAX_MESSAGE"
  proof (cases "pk_rows p = []")
    case True
    then show ?thesis using assms(2) by (simp add: joins_def row_sendable_def pack_new_def new_def Let_def)
  next
    case False
    then show ?thesis using target by (simp add: MESSAGE_TARGET_def ENVELOPE_def GRID_MAX_MESSAGE_def)
  qed
qed

lemma wire_row_ok:
  assumes p: "pack_ok p" and go: "wire_row row_len link_len row p = (wire, p')"
  obtains added S where "pk_links p' = pk_links p @ added" "set added \<subseteq> links_of row" "pack_ok p'" "pk_rows p' = pk_rows p"
    "resolve_row wire (pk_links p') = Some (keep_links S row)"
    "\<And>w. runs_ok (cw_runs row) w \<Longrightarrow> validate_row w (length (pk_links p')) wire = Inr ()"
    "pk_size p' = pk_size p + (row_len wire + sum_list (map (link_json_len link_len) added))"
    "joins row_len link_len row p \<Longrightarrow> keep_links S row = row"
    "added = [] \<or> pk_size p' + ENVELOPE \<le> GRID_MAX_MESSAGE"
    "joins row_len link_len row p \<Longrightarrow> pk_size p' + ENVELOPE \<le> GRID_MAX_MESSAGE \<and> (pk_rows p \<noteq> [] \<longrightarrow> pk_size p' \<le> MESSAGE_TARGET)"
proof -
  define new where "new = new_links row (pk_index p)"
  define wanted where "wanted = take (GRID_MAX_LINKS - length (pk_links p)) new"
  have new: "distinct new" "set new = {l \<in> links_of row. l \<notin> set (pk_links p)}"
    using new_links_ok [of row "pk_index p"] pack_ok_index [OF p] by (auto simp: new_def)
  obtain added rest where W: "wanted = added @ rest"
    "wire_loop row_len link_len row p wanted = (row_to_wire row (pk_index p) added (length (pk_links p)),
        (fold add_link added p)\<lparr>pk_size := pk_size p + (row_len (row_to_wire row (pk_index p) added (length (pk_links p)))
          + sum_list (map (link_json_len link_len) added))\<rparr>)"
    "added = [] \<or> pk_size p + (row_len (row_to_wire row (pk_index p) added (length (pk_links p)))
          + sum_list (map (link_json_len link_len) added)) + ENVELOPE \<le> GRID_MAX_MESSAGE"
    "pk_size p + (row_len (row_to_wire row (pk_index p) wanted (length (pk_links p)))
          + sum_list (map (link_json_len link_len) wanted)) + ENVELOPE \<le> GRID_MAX_MESSAGE \<longrightarrow> rest = []"
    using wire_loop_ok [of wanted row_len link_len row p] by blast
  have "wire_loop row_len link_len row p wanted = (wire, p')"
    using go unfolding wire_row_def new_def [symmetric] wanted_def [symmetric] .
  note e = W(2) [unfolded this]
  have wire: "wire = row_to_wire row (pk_index p) added (length (pk_links p))" using e by (rule Pair_inject)
  have p': "p' = (fold add_link added p)\<lparr>pk_size := pk_size p + (row_len wire + sum_list (map (link_json_len link_len) added))\<rparr>"
    unfolding wire using e by (rule Pair_inject)
  have part: "set added \<subseteq> set new" "distinct added" "length (pk_links p) + length added \<le> GRID_MAX_LINKS"
  proof -
    have "distinct wanted" "set wanted \<subseteq> set new" "length wanted \<le> GRID_MAX_LINKS - length (pk_links p)"
      using new(1) by (auto simp: wanted_def dest: in_set_takeD)
    then show "set added \<subseteq> set new" "distinct added" "length (pk_links p) + length added \<le> GRID_MAX_LINKS"
      using W(1) p by (auto simp: pack_ok_def)
  qed
  have fresh: "set added \<inter> set (pk_links p) = {}" using part(1) new(2) by auto
  note F = add_links_ok [OF p part(2) fresh part(3)]
  have links: "pk_links p' = pk_links p @ added" and rows: "pk_rows p' = pk_rows p"
    using F by (simp_all add: p')
  have ok: "pack_ok p'" unfolding p' pack_ok_size by (rule conjunct1 [OF F])
  have all: "keep_links (set (pk_links p) \<union> set added) row = row \<and> pk_size p' + ENVELOPE \<le> GRID_MAX_MESSAGE
      \<and> (pk_rows p \<noteq> [] \<longrightarrow> pk_size p' \<le> MESSAGE_TARGET)"
    if "joins row_len link_len row p"
  proof -
    note J = joins_all [OF p that, folded new_def]
    have full: "wanted = new" using J(1) by (simp add: wanted_def)
    have "rest = []" using W(4) J(2) unfolding full by blast
    then have "added = new" using W(1) full by (metis append_Nil2)
    then have "links_of row \<subseteq> set (pk_links p) \<union> set added" using new(2) by auto
    then show ?thesis using keep_links_all J(2,3) \<open>added = new\<close> by (simp add: p' wire)
  qed
  show ?thesis
  proof (rule that [OF links _ ok rows])
    show "set added \<subseteq> links_of row" using part(1) new(2) by auto
    show "resolve_row wire (pk_links p') = Some (keep_links (set (pk_links p) \<union> set added) row)"
      unfolding links wire by (rule resolve_wire [OF p fresh])
    show "validate_row w (length (pk_links p')) wire = Inr ()" if "runs_ok (cw_runs row) w" for w
      using wire_valid [OF p fresh that] by (simp add: links wire)
    show "pk_size p' = pk_size p + (row_len wire + sum_list (map (link_json_len link_len) added))" by (simp add: p')
    show "added = [] \<or> pk_size p' + ENVELOPE \<le> GRID_MAX_MESSAGE" using W(3) by (simp add: p' wire)
  qed (use all in blast)+
qed

subsection \<open>Messages of rows\<close>

definition link_ok :: "grid_link \<Rightarrow> bool" where
  "link_ok l \<longleftrightarrow> length (lk_id l) \<le> GRID_MAX_LINK_ID_BYTES \<and> length (lk_uri l) \<le> GRID_MAX_LINK_URI_BYTES"

text \<open>A row that can be sent at a width: its runs in order, its links within the format's limits.\<close>

definition row_ok :: "nat \<Rightarrow> cell_row \<Rightarrow> bool" where
  "row_ok w row \<longleftrightarrow> runs_ok (cw_runs row) w \<and> (\<forall>l\<in>links_of row. link_ok l)"

definition gives_up :: "(grid_row \<Rightarrow> nat) \<Rightarrow> (grid_link \<Rightarrow> nat) \<Rightarrow> cell_row \<Rightarrow> cell_row \<Rightarrow> bool" where
  "gives_up row_len link_len sent row \<longleftrightarrow> (\<exists>S. sent = keep_links S row)
     \<and> (index_cost row_len \<and> row_sendable row_len link_len row \<longrightarrow> sent = row)"

text \<open>A message's rows and links; \<open>good\<close> says that every row could be sent with all its links.\<close>

definition packs :: "(grid_row \<Rightarrow> nat) \<Rightarrow> (grid_link \<Rightarrow> nat) \<Rightarrow> bool \<Rightarrow> nat \<Rightarrow> grid_row list \<Rightarrow> grid_link list \<Rightarrow> bool" where
  "packs row_len link_len good w rows links \<longleftrightarrow> length links \<le> GRID_MAX_LINKS \<and> (\<forall>l\<in>set links. link_ok l)
     \<and> (\<forall>r\<in>set rows. validate_row w (length links) r = Inr () \<and> resolve_row r links \<noteq> None)
     \<and> (good \<longrightarrow> counted row_len link_len rows links + ENVELOPE \<le> GRID_MAX_MESSAGE
         \<and> (counted row_len link_len rows links \<le> MESSAGE_TARGET \<or> length rows = 1))"

definition pack_inv :: "(grid_row \<Rightarrow> nat) \<Rightarrow> (grid_link \<Rightarrow> nat) \<Rightarrow> bool \<Rightarrow> nat \<Rightarrow> grid_row list \<Rightarrow> 'a pack \<Rightarrow> bool" where
  "pack_inv row_len link_len good w rows p \<longleftrightarrow> pack_ok p \<and> length (pk_rows p) = length rows \<and> (rows = [] \<longrightarrow> p = pack_new)
     \<and> pk_size p = counted row_len link_len rows (pk_links p) \<and> packs row_len link_len good w rows (pk_links p)"

lemma pack_inv_new: "pack_inv row_len link_len good w [] pack_new"
  by (simp add: pack_inv_def pack_ok_new packs_def counted_def) (simp add: pack_new_def GRID_MAX_MESSAGE_def ENVELOPE_def)

lemma validate_row_more: "validate_row w n r = Inr () \<Longrightarrow> n \<le> m \<Longrightarrow> validate_row w m r = Inr ()"
  by (auto simp: validate_row_def validate_runs_iff validate_run_def try_bind_eq_Inr split: option.splits)

lemma pack_step:
  assumes inv: "pack_inv row_len link_len good w rows p" and go: "wire_row row_len link_len row p = (wire, p')"
    and row: "row_ok w row" and takes: "pack_takes row_len link_len row p"
    and good: "good \<Longrightarrow> index_cost row_len \<and> row_sendable row_len link_len row"
  obtains sent where "pack_inv row_len link_len good w (rows @ [wire]) (p'\<lparr>pk_rows := pk_rows p' @ [x]\<rparr>)"
    "pk_rows p' = pk_rows p" "gives_up row_len link_len sent row"
    "map (\<lambda>r. resolve_row r (pk_links p')) (rows @ [wire]) = map (\<lambda>r. resolve_row r (pk_links p)) rows @ [Some sent]"
proof -
  have p: "pack_ok p" and none: "pk_rows p = [] \<longleftrightarrow> rows = []" and new: "rows = [] \<Longrightarrow> p = pack_new"
    using inv by (auto simp: pack_inv_def)
  have joins: "joins row_len link_len row p" if "index_cost row_len \<and> row_sendable row_len link_len row"
    using that none new takes by (auto simp: joins_def)
  obtain added S where W: "pk_links p' = pk_links p @ added" "set added \<subseteq> links_of row" "pack_ok p'" "pk_rows p' = pk_rows p"
    "resolve_row wire (pk_links p') = Some (keep_links S row)"
    "\<And>w. runs_ok (cw_runs row) w \<Longrightarrow> validate_row w (length (pk_links p')) wire = Inr ()"
    "pk_size p' = pk_size p + (row_len wire + sum_list (map (link_json_len link_len) added))"
    "joins row_len link_len row p \<Longrightarrow> keep_links S row = row"
    "joins row_len link_len row p \<Longrightarrow> pk_size p' + ENVELOPE \<le> GRID_MAX_MESSAGE \<and> (pk_rows p \<noteq> [] \<longrightarrow> pk_size p' \<le> MESSAGE_TARGET)"
    using wire_row_ok [OF p go] by metis
  have old: "resolve_row r (pk_links p') = resolve_row r (pk_links p)" if "r \<in> set rows" for r
    using inv that resolve_row_more unfolding pack_inv_def packs_def W(1) by force
  have size: "pk_size p' = counted row_len link_len (rows @ [wire]) (pk_links p')"
    using inv W(7) by (simp add: pack_inv_def counted_def W(1))
  have "packs row_len link_len good w (rows @ [wire]) (pk_links p')"
    unfolding packs_def
  proof (intro conjI ballI impI)
    show "length (pk_links p') \<le> GRID_MAX_LINKS" using W(3) by (simp add: pack_ok_def)
    show "link_ok l" if "l \<in> set (pk_links p')" for l
      using that W(2) row inv by (auto simp: W(1) row_ok_def pack_inv_def packs_def)
    show "validate_row w (length (pk_links p')) r = Inr ()" if "r \<in> set (rows @ [wire])" for r
    proof (cases "r = wire")
      case True
      then show ?thesis using W(6) row by (simp add: row_ok_def)
    next
      case False
      then have "validate_row w (length (pk_links p)) r = Inr ()" using that inv by (auto simp: pack_inv_def packs_def)
      then show ?thesis by (rule validate_row_more) (simp add: W(1))
    qed
    show "resolve_row r (pk_links p') \<noteq> None" if "r \<in> set (rows @ [wire])" for r
      using that W(5) old inv by (auto simp: pack_inv_def packs_def)
    assume good
    note J = W(9) [OF joins [OF good [OF this]]]
    show "counted row_len link_len (rows @ [wire]) (pk_links p') + ENVELOPE \<le> GRID_MAX_MESSAGE"
      "counted row_len link_len (rows @ [wire]) (pk_links p') \<le> MESSAGE_TARGET \<or> length (rows @ [wire]) = 1"
      using J none unfolding size [symmetric] by auto
  qed
  then have "pack_inv row_len link_len good w (rows @ [wire]) (p'\<lparr>pk_rows := pk_rows p' @ [x]\<rparr>)"
    using W(3,4) size inv by (simp add: pack_inv_def pack_ok_def)
  moreover have "gives_up row_len link_len (keep_links S row) row"
    using W(8) joins by (auto simp: gives_up_def)
  moreover have "map (\<lambda>r. resolve_row r (pk_links p')) (rows @ [wire]) = map (\<lambda>r. resolve_row r (pk_links p)) rows @ [Some (keep_links S row)]"
    using old W(5) by simp
  ultimately show ?thesis using that W(4) by blast
qed

definition message_rows :: "grid_output \<Rightarrow> (nat \<times> cell_row option) list" where
  "message_rows m = (case m of
     GridRows rows links \<Rightarrow> map (\<lambda>r. (sr_y r, resolve_row (sr_row r) links)) rows | _ \<Rightarrow> [])"

definition rows_message_ok :: "(grid_row \<Rightarrow> nat) \<Rightarrow> (grid_link \<Rightarrow> nat) \<Rightarrow> bool \<Rightarrow> nat \<Rightarrow> grid_output \<Rightarrow> bool" where
  "rows_message_ok row_len link_len good w m \<longleftrightarrow> (case m of
     GridRows rows links \<Rightarrow> rows \<noteq> [] \<and> packs row_len link_len good w (map sr_row rows) links
   | _ \<Rightarrow> False)"

lemma pack_rows_new [simp]: "pk_rows pack_new = []"
  by (simp add: pack_new_def)

lemma pack_takes_new [simp]: "pack_takes row_len link_len row pack_new"
  by (simp add: pack_takes_def pack_new_def)

lemma rows_loop_ok:
  assumes "pack_inv row_len link_len good w (map sr_row (pk_rows p)) p"
    and "\<forall>(y, row)\<in>set rows. row_ok w row"
    and "good \<Longrightarrow> index_cost row_len \<and> (\<forall>(y, row)\<in>set rows. row_sendable row_len link_len row)"
  shows "\<exists>ms sent. rows_loop row_len link_len rows messages p = messages @ ms
    \<and> concat (map message_rows ms) = map (\<lambda>r. (sr_y r, resolve_row (sr_row r) (pk_links p))) (pk_rows p) @ map (\<lambda>(y, r). (y, Some r)) sent
    \<and> list_all2 (\<lambda>(y', r') (y, r). y' = y \<and> gives_up row_len link_len r' r) sent rows
    \<and> (\<forall>m\<in>set ms. rows_message_ok row_len link_len good w m)"
  using assms
proof (induction rows arbitrary: messages p)
  case Nil
  show ?case
  proof (cases "pk_rows p = []")
    case True
    then show ?thesis by simp
  next
    case False
    then show ?thesis using Nil.prems(1)
      by (intro exI [of _ "[GridRows (pk_rows p) (pk_links p)]"] exI [of _ "[]"])
        (simp add: message_rows_def rows_message_ok_def pack_inv_def)
  qed
next
  case (Cons yrow rows)
  obtain y row where yrow: "yrow = (y, row)" by (cases yrow)
  define full where "full \<longleftrightarrow> \<not> pack_takes row_len link_len row p"
  define q where "q = (if full then pack_new else p)"
  define out where "out = (if full then [GridRows (pk_rows p) (pk_links p)] else [])"
  obtain wire p' where go: "wire_row row_len link_len row q = (wire, p')" by (cases "wire_row row_len link_len row q")
  define x where "x = \<lparr>sr_y = y, sr_row = wire\<rparr>"
  have step: "rows_loop row_len link_len (yrow # rows) messages p = rows_loop row_len link_len rows (messages @ out) (p'\<lparr>pk_rows := pk_rows p' @ [x]\<rparr>)"
    using go by (cases "pack_takes row_len link_len row p") (simp_all add: yrow q_def out_def full_def x_def)
  have none: "full \<Longrightarrow> pk_rows p \<noteq> []" by (auto simp: full_def pack_takes_def)
  have q: "pack_inv row_len link_len good w (map sr_row (pk_rows q)) q" "pack_takes row_len link_len row q"
    using Cons.prems(1) by (simp_all add: q_def full_def pack_inv_new)
  have row: "row_ok w row" using Cons.prems(2) by (simp add: yrow)
  have good: "good \<Longrightarrow> index_cost row_len \<and> row_sendable row_len link_len row" using Cons.prems(3) by (simp add: yrow)
  obtain sent0 where S: "pack_inv row_len link_len good w (map sr_row (pk_rows q) @ [wire]) (p'\<lparr>pk_rows := pk_rows p' @ [x]\<rparr>)"
    "pk_rows p' = pk_rows q" "gives_up row_len link_len sent0 row"
    "map (\<lambda>r. resolve_row r (pk_links p')) (map sr_row (pk_rows q) @ [wire]) = map (\<lambda>r. resolve_row r (pk_links q)) (map sr_row (pk_rows q)) @ [Some sent0]"
    by (rule pack_step [OF q(1) go row q(2) good])
  let ?p = "p'\<lparr>pk_rows := pk_rows p' @ [x]\<rparr>"
  have inv: "pack_inv row_len link_len good w (map sr_row (pk_rows ?p)) ?p" using S(1,2) by (simp add: x_def)
  have rest: "\<forall>(y, row)\<in>set rows. row_ok w row" "good \<Longrightarrow> index_cost row_len \<and> (\<forall>(y, row)\<in>set rows. row_sendable row_len link_len row)"
    using Cons.prems(2,3) by simp_all
  obtain ms sent where R: "rows_loop row_len link_len rows (messages @ out) ?p = (messages @ out) @ ms"
    "concat (map message_rows ms) = map (\<lambda>r. (sr_y r, resolve_row (sr_row r) (pk_links ?p))) (pk_rows ?p) @ map (\<lambda>(y, r). (y, Some r)) sent"
    "list_all2 (\<lambda>(y', r') (y, r). y' = y \<and> gives_up row_len link_len r' r) sent rows"
    "\<forall>m\<in>set ms. rows_message_ok row_len link_len good w m"
    using Cons.IH [OF inv rest, of "messages @ out"] by blast
  have old: "map (\<lambda>r. resolve_row (sr_row r) (pk_links p')) (pk_rows q) = map (\<lambda>r. resolve_row (sr_row r) (pk_links q)) (pk_rows q)"
    "resolve_row wire (pk_links p') = Some sent0"
    using S(4) by (simp_all add: comp_def)
  have "map (\<lambda>r. (sr_y r, resolve_row (sr_row r) (pk_links p'))) (pk_rows q) = map (\<lambda>r. (sr_y r, resolve_row (sr_row r) (pk_links q))) (pk_rows q)"
    using old(1) by simp
  then have content: "map (\<lambda>r. (sr_y r, resolve_row (sr_row r) (pk_links ?p))) (pk_rows ?p)
      = map (\<lambda>r. (sr_y r, resolve_row (sr_row r) (pk_links q))) (pk_rows q) @ [(y, Some sent0)]"
    using S(2) old(2) by (simp add: x_def)
  have before: "concat (map message_rows out) @ map (\<lambda>r. (sr_y r, resolve_row (sr_row r) (pk_links q))) (pk_rows q)
      = map (\<lambda>r. (sr_y r, resolve_row (sr_row r) (pk_links p))) (pk_rows p)"
    by (simp add: out_def q_def message_rows_def pack_new_def)
  have fine: "\<forall>m\<in>set out. rows_message_ok row_len link_len good w m"
    using Cons.prems(1) none by (simp add: out_def rows_message_ok_def pack_inv_def)
  have "concat (map message_rows (out @ ms)) = map (\<lambda>r. (sr_y r, resolve_row (sr_row r) (pk_links p))) (pk_rows p)
      @ map (\<lambda>(y, r). (y, Some r)) ((y, sent0) # sent)"
    unfolding before [symmetric] map_append concat_append R(2) content by simp
  moreover have "list_all2 (\<lambda>(y', r') (y, r). y' = y \<and> gives_up row_len link_len r' r) ((y, sent0) # sent) (yrow # rows)"
    using R(3) S(3) by (simp add: yrow)
  moreover have "\<forall>m\<in>set (out @ ms). rows_message_ok row_len link_len good w m" using fine R(4) by auto
  ultimately show ?case unfolding step R(1) append_assoc by blast
qed

lemma rows_messages_ok:
  fixes row_len :: "grid_row \<Rightarrow> nat" and link_len :: "grid_link \<Rightarrow> nat"
  assumes "\<forall>(y, row)\<in>set rows. row_ok w row"
  defines "good \<equiv> index_cost row_len \<and> (\<forall>(y, row)\<in>set rows. row_sendable row_len link_len row)"
  obtains sent where "concat (map message_rows (rows_messages row_len link_len rows)) = map (\<lambda>(y, r). (y, Some r)) sent"
    "list_all2 (\<lambda>(y', r') (y, r). y' = y \<and> gives_up row_len link_len r' r) sent rows"
    "\<forall>m\<in>set (rows_messages row_len link_len rows). rows_message_ok row_len link_len good w m"
proof -
  have "pack_inv row_len link_len good w (map sr_row (pk_rows pack_new)) pack_new"
    using pack_inv_new by (simp add: pack_new_def)
  from rows_loop_ok [OF this assms(1), of "[]"] show ?thesis
    using that by (simp add: rows_messages_def good_def pack_new_def) blast
qed

subsection \<open>Messages of history lines\<close>

definition message_lines :: "grid_output \<Rightarrow> (nat \<times> nat \<times> cell_row option) list" where
  "message_lines m = (case m of
     GridHistory first' cols rows links \<Rightarrow> map (\<lambda>(i, r). (i, cols, resolve_row r links)) (enumerate first' rows) | _ \<Rightarrow> [])"

definition history_message_ok :: "(grid_row \<Rightarrow> nat) \<Rightarrow> (grid_link \<Rightarrow> nat) \<Rightarrow> bool \<Rightarrow> nat \<Rightarrow> grid_output \<Rightarrow> bool" where
  "history_message_ok row_len link_len good w m \<longleftrightarrow> (case m of
     GridHistory first' cols rows links \<Rightarrow> cols = w \<and> rows \<noteq> [] \<and> packs row_len link_len good w rows links
   | _ \<Rightarrow> False)"

text \<open>Each message starts where the one before it ended.\<close>

fun chained :: "nat \<Rightarrow> grid_output list \<Rightarrow> nat \<Rightarrow> bool" where
  "chained n [] end' = (n = end')"
| "chained n (GridHistory first' cols rows links # ms) end' = (first' = n \<and> chained (n + length rows) ms end')"
| "chained n (m # ms) end' = False"

lemma enumerate_cong:
  "map f xs = map g xs \<Longrightarrow> map (\<lambda>(i, r). (i, w, f r)) (enumerate n xs) = map (\<lambda>(i, r). (i, w, g r)) (enumerate n xs)"
  by (induction xs arbitrary: n) auto

lemma history_loop_ok:
  assumes "pack_inv row_len link_len good w (pk_rows p) p" and "\<forall>row\<in>set lines. row_ok w row"
    and "good \<Longrightarrow> index_cost row_len \<and> (\<forall>row\<in>set lines. row_sendable row_len link_len row)"
  shows "\<exists>ms sent. history_loop row_len link_len w lines messages first' p = messages @ ms
    \<and> concat (map message_lines ms) = map (\<lambda>(i, r). (i, w, resolve_row r (pk_links p))) (enumerate first' (pk_rows p))
        @ map (\<lambda>(i, r). (i, w, Some r)) (enumerate (first' + length (pk_rows p)) sent)
    \<and> list_all2 (gives_up row_len link_len) sent lines
    \<and> chained first' ms (first' + length (pk_rows p) + length lines)
    \<and> (\<forall>m\<in>set ms. history_message_ok row_len link_len good w m)"
  using assms
proof (induction lines arbitrary: messages first' p)
  case Nil
  show ?case
  proof (cases "pk_rows p = []")
    case True
    then show ?thesis by simp
  next
    case False
    then show ?thesis using Nil.prems(1)
      by (intro exI [of _ "[GridHistory first' w (pk_rows p) (pk_links p)]"] exI [of _ "[]"])
        (simp add: message_lines_def history_message_ok_def pack_inv_def)
  qed
next
  case (Cons row lines)
  define full where "full \<longleftrightarrow> \<not> pack_takes row_len link_len row p"
  define q where "q = (if full then pack_new else p)"
  define out where "out = (if full then [GridHistory first' w (pk_rows p) (pk_links p)] else [])"
  define n where "n = (if full then first' + length (pk_rows p) else first')"
  obtain wire p' where go: "wire_row row_len link_len row q = (wire, p')" by (cases "wire_row row_len link_len row q")
  have step: "history_loop row_len link_len w (row # lines) messages first' p
      = history_loop row_len link_len w lines (messages @ out) n (p'\<lparr>pk_rows := pk_rows p' @ [wire]\<rparr>)"
    using go by (cases "pack_takes row_len link_len row p") (simp_all add: q_def out_def n_def full_def)
  have none: "full \<Longrightarrow> pk_rows p \<noteq> []" by (auto simp: full_def pack_takes_def)
  have q: "pack_inv row_len link_len good w (pk_rows q) q" "pack_takes row_len link_len row q"
    using Cons.prems(1) by (simp_all add: q_def full_def pack_inv_new)
  have row: "row_ok w row" using Cons.prems(2) by simp
  have good: "good \<Longrightarrow> index_cost row_len \<and> row_sendable row_len link_len row" using Cons.prems(3) by simp
  obtain sent0 where S: "pack_inv row_len link_len good w (pk_rows q @ [wire]) (p'\<lparr>pk_rows := pk_rows p' @ [wire]\<rparr>)"
    "pk_rows p' = pk_rows q" "gives_up row_len link_len sent0 row"
    "map (\<lambda>r. resolve_row r (pk_links p')) (pk_rows q @ [wire]) = map (\<lambda>r. resolve_row r (pk_links q)) (pk_rows q) @ [Some sent0]"
    by (rule pack_step [OF q(1) go row q(2) good])
  let ?p = "p'\<lparr>pk_rows := pk_rows p' @ [wire]\<rparr>"
  have inv: "pack_inv row_len link_len good w (pk_rows ?p) ?p" using S(1,2) by simp
  have rest: "\<forall>row\<in>set lines. row_ok w row" "good \<Longrightarrow> index_cost row_len \<and> (\<forall>row\<in>set lines. row_sendable row_len link_len row)"
    using Cons.prems(2,3) by simp_all
  obtain ms sent where R: "history_loop row_len link_len w lines (messages @ out) n ?p = (messages @ out) @ ms"
    "concat (map message_lines ms) = map (\<lambda>(i, r). (i, w, resolve_row r (pk_links ?p))) (enumerate n (pk_rows ?p))
        @ map (\<lambda>(i, r). (i, w, Some r)) (enumerate (n + length (pk_rows ?p)) sent)"
    "list_all2 (gives_up row_len link_len) sent lines"
    "chained n ms (n + length (pk_rows ?p) + length lines)"
    "\<forall>m\<in>set ms. history_message_ok row_len link_len good w m"
    using Cons.IH [OF inv rest, of "messages @ out" n] by blast
  have old: "map (\<lambda>r. resolve_row r (pk_links p')) (pk_rows q) = map (\<lambda>r. resolve_row r (pk_links q)) (pk_rows q)"
    "resolve_row wire (pk_links p') = Some sent0"
    using S(4) by simp_all
  have "map (\<lambda>(i, r). (i, w, resolve_row r (pk_links p'))) (enumerate n (pk_rows q))
      = map (\<lambda>(i, r). (i, w, resolve_row r (pk_links q))) (enumerate n (pk_rows q))"
    using old(1) by (rule enumerate_cong)
  then have content: "map (\<lambda>(i, r). (i, w, resolve_row r (pk_links ?p))) (enumerate n (pk_rows ?p))
      = map (\<lambda>(i, r). (i, w, resolve_row r (pk_links q))) (enumerate n (pk_rows q)) @ [(n + length (pk_rows q), w, Some sent0)]"
    using S(2) old(2) by (simp add: enumerate_append_eq)
  have before: "concat (map message_lines out) @ map (\<lambda>(i, r). (i, w, resolve_row r (pk_links q))) (enumerate n (pk_rows q))
      = map (\<lambda>(i, r). (i, w, resolve_row r (pk_links p))) (enumerate first' (pk_rows p))"
    by (simp add: out_def q_def n_def message_lines_def pack_new_def)
  have n: "n + length (pk_rows q) = first' + length (pk_rows p)" by (simp add: n_def q_def pack_new_def)
  have fine: "\<forall>m\<in>set out. history_message_ok row_len link_len good w m"
    using Cons.prems(1) none by (simp add: out_def history_message_ok_def pack_inv_def)
  have len: "length (pk_rows ?p) = length (pk_rows q) + 1" using S(2) by simp
  have "n + length (pk_rows ?p) + length lines = first' + length (pk_rows p) + length (row # lines)"
    using len n by simp
  then have chain: "chained n ms (first' + length (pk_rows p) + length (row # lines))" using R(4) by metis
  have "chained first' (out @ ms) (first' + length (pk_rows p) + length (row # lines))"
    using chain by (cases full) (simp_all add: out_def n_def)
  moreover have "concat (map message_lines (out @ ms)) = map (\<lambda>(i, r). (i, w, resolve_row r (pk_links p))) (enumerate first' (pk_rows p))
        @ map (\<lambda>(i, r). (i, w, Some r)) (enumerate (first' + length (pk_rows p)) (sent0 # sent))"
    unfolding before [symmetric] map_append concat_append R(2) content n len
    using n by (simp add: ac_simps)
  moreover have "list_all2 (gives_up row_len link_len) (sent0 # sent) (row # lines)" using R(3) S(3) by simp
  moreover have "\<forall>m\<in>set (out @ ms). history_message_ok row_len link_len good w m" using fine R(5) by auto
  ultimately show ?case unfolding step R(1) append_assoc by blast
qed

lemma history_messages_ok:
  fixes row_len :: "grid_row \<Rightarrow> nat" and link_len :: "grid_link \<Rightarrow> nat"
  assumes "\<forall>row\<in>set lines. row_ok w row"
  defines "good \<equiv> index_cost row_len \<and> (\<forall>row\<in>set lines. row_sendable row_len link_len row)"
  obtains sent where "concat (map message_lines (history_messages row_len link_len first' w lines)) = map (\<lambda>(i, r). (i, w, Some r)) (enumerate first' sent)"
    "list_all2 (gives_up row_len link_len) sent lines"
    "chained first' (history_messages row_len link_len first' w lines) (first' + length lines)"
    "\<forall>m\<in>set (history_messages row_len link_len first' w lines). history_message_ok row_len link_len good w m"
proof -
  have "pack_inv row_len link_len good w (pk_rows pack_new) pack_new"
    using pack_inv_new by (simp add: pack_new_def)
  from history_loop_ok [OF this assms(1), of "[]" first'] show ?thesis
    using that by (simp add: history_messages_def good_def pack_new_def) blast
qed

end
