(* ===== verification/Screen.thy ===== *)
theory Screen
  imports Packing Grid_Stream Mouse
begin

text \<open>
  The screen and the history of an emulator as a client is told of them (\<^verbatim>\<open>screen\<close>,
  \<^verbatim>\<open>SentScreen::update\<close>, \<^verbatim>\<open>terminal_state\<close> and \<^verbatim>\<open>HistoryCursor\<close> in
  \<^verbatim>\<open>crates/farhelm-supervisor/src/grid_output.rs\<close>).
\<close>

subsection \<open>What is read of an emulator\<close>

datatype term_cursor_shape = TermBlock | TermHollowBlock | TermUnderline | TermBeam | TermHidden

record cursor_style =
  cs_shape :: term_cursor_shape
  cs_blinking :: bool

text \<open>
  The visible grid's rows; the primary grid's history, oldest line first, its width, how many lines
  have scrolled into it and how often it was cleared; colors, modes and cursor; and what the runtime
  counts beside it: rebuilds, resizes and whether history is short.
\<close>

record emulator =
  em_cols :: nat
  em_lines :: nat
  em_screen :: "term_cell list list"
  em_history :: "term_cell list list"
  em_history_cols :: nat
  em_scrolled :: nat
  em_clears :: nat
  em_colors :: term_colors
  em_modes :: modes
  em_cursor :: "nat \<times> int"
  em_cursor_style :: cursor_style
  em_rebuilds :: nat
  em_resizes :: nat
  em_history_trimmed :: bool

definition relayouts :: "emulator \<Rightarrow> nat" where
  "relayouts e = em_rebuilds e + em_resizes e"

subsection \<open>The screen\<close>

record screen =
  sn_cols :: nat
  sn_rows :: nat
  sn_lines :: "cell_row list"
  sn_cursor :: grid_cursor
  sn_alternate :: bool

definition screen_of :: "emulator \<Rightarrow> screen" where
  "screen_of e =
     (let lines = map (\<lambda>y. row_from_cells (em_screen e ! y) (em_cols e) (em_colors e)) [0..<em_lines e];
          (shape, hidden) = (case cs_shape (em_cursor_style e) of
             TermBlock \<Rightarrow> (BlockCursor, False)
           | TermHollowBlock \<Rightarrow> (BlockCursor, False)
           | TermUnderline \<Rightarrow> (UnderlineCursor, False)
           | TermBeam \<Rightarrow> (BarCursor, False)
           | TermHidden \<Rightarrow> (BlockCursor, True));
          cursor = \<lparr>
            gc_x = min (fst (em_cursor e)) (em_cols e - 1),
            gc_y = nat (max 0 (min (int (em_lines e) - 1) (snd (em_cursor e)))),
            gc_visible = (md_cursor_visible (em_modes e) \<and> \<not> hidden),
            gc_shape = shape,
            gc_blink = (em_cursor_style e = \<lparr>cs_shape = TermBlock, cs_blinking = False\<rparr> \<or> cs_blinking (em_cursor_style e))\<rparr> in
      \<lparr>sn_cols = em_cols e, sn_rows = em_lines e, sn_lines = lines, sn_cursor = cursor,
       sn_alternate = md_alternate_screen (em_modes e)\<rparr>)"

record sent_screen =
  ss_cols :: nat
  ss_rows :: nat
  ss_lines :: "cell_row list"
  ss_cursor :: "grid_cursor option"
  ss_rev :: nat

definition after_hello :: "nat \<Rightarrow> nat \<Rightarrow> sent_screen" where
  "after_hello w h = \<lparr>ss_cols = w, ss_rows = h, ss_lines = replicate h cell_row_default,
     ss_cursor = None, ss_rev = 0\<rparr>"

text \<open>The rows that differ from those sent, moved up by so many.\<close>

definition differs :: "screen \<Rightarrow> sent_screen \<Rightarrow> nat \<Rightarrow> nat list" where
  "differs s sent by = filter (\<lambda>y. sn_lines s ! y \<noteq>
     (if y + by < length (ss_lines sent) then ss_lines sent ! (y + by) else cell_row_default)) [0..<sn_rows s]"

text \<open>Which rows to send, and by how many to move the others up.\<close>

definition resized :: "screen \<Rightarrow> sent_screen \<Rightarrow> bool" where
  "resized s sent \<longleftrightarrow> (sn_cols s, sn_rows s) \<noteq> (ss_cols sent, ss_rows sent)"

definition changed_rows :: "screen \<Rightarrow> nat \<Rightarrow> sent_screen \<Rightarrow> nat list \<times> nat" where
  "changed_rows s scrolled sent =
     (if resized s sent then (filter (\<lambda>y. \<not> is_blank_row (sn_lines s ! y)) [0..<sn_rows s], 0)
      else
        let unshifted = differs s sent 0; candidate = min scrolled (sn_rows s) in
        if 0 < candidate \<and> unshifted \<noteq> [] then
          (let shifted = differs s sent candidate in
           if length shifted < length unshifted then (shifted, candidate) else (unshifted, 0))
        else (unshifted, 0))"

definition sent_update :: "(grid_row \<Rightarrow> nat) \<Rightarrow> (grid_link \<Rightarrow> nat) \<Rightarrow> screen \<Rightarrow> nat \<Rightarrow> sent_screen \<Rightarrow> grid_output list option \<times> sent_screen" where
  "sent_update row_len link_len s scrolled sent =
     (let (changed, shift) = changed_rows s scrolled sent in
      if \<not> resized s sent \<and> changed = [] \<and> shift = 0 \<and> ss_cursor sent = Some (sn_cursor s) then (None, sent)
      else
        let rev' = ss_rev sent + 1;
            messages = rows_messages row_len link_len (map (\<lambda>y. (y, sn_lines s ! y)) changed)
              @ [GridFrame rev' (sn_cols s) (sn_rows s) shift (sn_cursor s)] in
        (Some messages, \<lparr>ss_cols = sn_cols s, ss_rows = sn_rows s, ss_lines = sn_lines s,
           ss_cursor = Some (sn_cursor s), ss_rev = rev'\<rparr>))"

subsection \<open>Terminal state\<close>

definition Named_Foreground :: nat where "Named_Foreground = 256"
definition Named_Background :: nat where "Named_Background = 257"

definition terminal_state_of :: "emulator \<Rightarrow> terminal_state" where
  "terminal_state_of e = \<lparr>
     ts_mouse = (case md_mouse_reporting (em_modes e) of
        ReportOff \<Rightarrow> MouseOff | ReportClicks \<Rightarrow> MouseClick | ReportDrag \<Rightarrow> MouseDrag | ReportMotion \<Rightarrow> MouseMotion),
     ts_focus = md_focus_reporting (em_modes e),
     ts_alt_screen = md_alternate_screen (em_modes e),
     ts_default_fg = map_option rgb_color (em_colors e Named_Foreground),
     ts_default_bg = map_option rgb_color (em_colors e Named_Background),
     ts_history_trimmed = em_history_trimmed e,
     ts_exit = None\<rparr>"

subsection \<open>History\<close>

type_synonym fingerprint = "64 word"

definition mix :: "byte \<Rightarrow> fingerprint \<Rightarrow> fingerprint" where
  "mix b hash = (hash XOR ucast b) * 0x100000001b3"

definition palette_fingerprint :: "term_colors \<Rightarrow> fingerprint" where
  "palette_fingerprint colors = foldl (\<lambda>hash index. case colors index of
      Some (r, g, b) \<Rightarrow> mix b (mix g (mix r (mix 1 hash)))
    | None \<Rightarrow> mix 0 hash) 0xcbf29ce484222325 [0..<256]"

record layout =
  ly_relayouts :: nat
  ly_clears :: nat
  ly_palette :: fingerprint

definition layout_of :: "emulator \<Rightarrow> nat \<Rightarrow> layout" where
  "layout_of e n = \<lparr>ly_relayouts = n, ly_clears = em_clears e, ly_palette = palette_fingerprint (em_colors e)\<rparr>"

record numbering =
  nu_layout :: layout
  nu_base :: nat

datatype history_reset = ResetRelayout | ResetEvicted

record history_batch =
  hb_reset :: "history_reset option"
  hb_first :: nat
  hb_cols :: nat
  hb_lines :: "cell_row list"
  hb_end :: nat

definition owed :: "history_batch \<Rightarrow> nat" where
  "owed b = hb_end b - (hb_first b + length (hb_lines b))"

record history_cursor =
  hc_numbering :: "numbering option"
  hc_next :: nat

definition history_cursor_new :: history_cursor where
  "history_cursor_new = \<lparr>hc_numbering = None, hc_next = 0\<rparr>"

definition layout_moved :: "emulator \<Rightarrow> nat \<Rightarrow> history_cursor \<Rightarrow> bool \<times> layout" where
  "layout_moved e n c =
     (let layout = layout_of e n in
      (case hc_numbering c of Some numbering \<Rightarrow> nu_layout numbering \<noteq> layout | None \<Rightarrow> False, layout))"

text \<open>The line so many above the screen, counted from the newest, as a row.\<close>

definition history_row :: "emulator \<Rightarrow> nat \<Rightarrow> cell_row" where
  "history_row e up = row_from_cells (em_history e ! (length (em_history e) - up)) (em_history_cols e) (em_colors e)"

function read_lines :: "emulator \<Rightarrow> nat \<Rightarrow> nat \<Rightarrow> nat \<Rightarrow> nat \<Rightarrow> cell_row list \<Rightarrow> nat \<Rightarrow> cell_row list \<times> nat" where
  "read_lines e end' to max_bytes number lines bytes =
     (if number < to \<and> (lines = [] \<or> bytes < max_bytes) then
        let row = history_row e (end' - number) in
        read_lines e end' to max_bytes (number + 1) (lines @ [row]) (saturating_add bytes (row_bytes_estimate row))
      else (lines, number))"
  by pat_completeness auto
termination
  by (relation "measure (\<lambda>(e, end', to, max_bytes, number, lines, bytes). to - number)") auto

declare read_lines.simps [simp del]

definition read_within :: "emulator \<Rightarrow> nat \<Rightarrow> nat \<Rightarrow> nat \<Rightarrow> history_cursor \<Rightarrow> history_batch \<times> history_cursor" where
  "read_within e n max_lines max_bytes c =
     (let layout = layout_of e n;
          scrolled = em_scrolled e;
          held = length (em_history e);
          kept = (case hc_numbering c of Some numbering \<Rightarrow> nu_layout numbering = layout | None \<Rightarrow> False);
          reset = (if \<not> kept \<and> hc_numbering c \<noteq> None then Some ResetRelayout else None);
          numbering = (if kept then the (hc_numbering c) else \<lparr>nu_layout = layout, nu_base = held - scrolled\<rparr>);
          next' = (if kept then hc_next c else nu_base numbering + scrolled - held);
          end' = nu_base numbering + scrolled;
          oldest = end' - held;
          (reset, next') = (if next' < oldest then (Some ResetEvicted, oldest) else (reset, next'));
          first' = next';
          to = min end' (saturating_add first' max_lines);
          (lines, number) = read_lines e end' to max_bytes first' [] 0 in
      (\<lparr>hb_reset = reset, hb_first = first', hb_cols = em_history_cols e, hb_lines = lines, hb_end = end'\<rparr>,
       \<lparr>hc_numbering = Some numbering, hc_next = number\<rparr>))"

text \<open>Without a bound on the bytes.\<close>

definition read_history :: "emulator \<Rightarrow> nat \<Rightarrow> nat \<Rightarrow> history_cursor \<Rightarrow> history_batch \<times> history_cursor" where
  "read_history e n max_lines c = read_within e n max_lines (2 ^ 64 - 1) c"

end
