(* ===== verification/Client_Facts.thy ===== *)
theory Client_Facts
  imports Packing_Facts Screen
begin

text \<open>
  What a client makes of the messages the sender composes: the rs and the frame of an update, the
  lines of a history batch, the parts of a clipboard write.
\<close>

subsection \<open>Rows\<close>

lemma link_ok_valid: "length links \<le> GRID_MAX_LINKS \<Longrightarrow> \<forall>l\<in>set links. link_ok l \<Longrightarrow> validate_links links = Inr ()"
  by (auto simp: validate_links_def try_bind_eq_Inr try_all_eq_Inr link_ok_def)

lemma validate_run_wider: "validate_run w n r = Inr () \<Longrightarrow> w \<le> v \<Longrightarrow> validate_run v n r = Inr ()"
  by (auto simp: validate_run_def try_bind_eq_Inr split: option.splits)

lemma validate_row_wider: "validate_row w n r = Inr () \<Longrightarrow> w \<le> v \<Longrightarrow> validate_row v n r = Inr ()"
  using validate_run_wider by (auto simp: validate_row_def validate_runs_iff)

lemma validate_row_end: "validate_row w n r = Inr () \<Longrightarrow> row_end r \<le> w"
proof -
  assume v: "validate_row w n r = Inr ()"
  have "run_end x \<le> w" if "x \<in> set (rw_runs r)" for x
    using v that by (auto simp: validate_row_def validate_runs_iff validate_run_def try_bind_eq_Inr split: option.splits)
  then show ?thesis by (simp add: row_end_def)
qed

lemma set_put_row: "set (put_row p l) \<subseteq> insert p (set l)"
  by (cases p, induction p l rule: put_row.induct) auto

lemma extend_rows_within:
  "(\<forall>p\<in>set pending. P p) \<Longrightarrow> (\<forall>r\<in>set rs. P (sr_y r, row_end (sr_row r))) \<Longrightarrow> \<forall>p\<in>set (extend_rows rs pending). P p"
proof (induction rs arbitrary: pending)
  case (Cons r rs)
  have "\<forall>p\<in>set (put_row (sr_y r, row_end (sr_row r)) pending). P p"
    using Cons.prems set_put_row [of "(sr_y r, row_end (sr_row r))" pending] by auto
  then show ?case using Cons.IH Cons.prems(2) by (simp add: extend_rows_def)
qed (simp add: extend_rows_def)

definition pend :: "(nat \<times> cell_row) list \<Rightarrow> (nat \<times> cell_row) list \<Rightarrow> (nat \<times> cell_row) list" where
  "pend sent pending = fold (\<lambda>(y, row). AList.update y row) sent pending"

lemma pend_rows_ok:
  "map (\<lambda>r. (sr_y r, resolve_row (sr_row r) links)) rs = map (\<lambda>(y, r). (y, Some r)) sent \<Longrightarrow>
    pend_rows rs links pending = Some (pend sent pending)"
proof (induction rs arbitrary: sent pending)
  case (Cons r rs)
  then obtain y row rest where "sent = (y, row) # rest" "sr_y r = y" "resolve_row (sr_row r) links = Some row"
    "map (\<lambda>r. (sr_y r, resolve_row (sr_row r) links)) rs = map (\<lambda>(y, r). (y, Some r)) rest"
    by (auto simp: Cons_eq_map_conv)
  then show ?case using Cons.IH [of rest "AList.update y row pending"] by (simp add: pend_def)
qed (simp add: pend_def)

lemma pend_map: "distinct (map fst sent) \<Longrightarrow> map_of (pend sent []) = map_of sent"
proof -
  have "map_of (pend sent p) = map_of p ++ map_of sent" if "distinct (map fst sent)" for p
    using that
  proof (induction sent arbitrary: p)
    case (Cons x sent)
    have "map_of sent (fst x) = None" using Cons.prems by (simp add: map_of_eq_None_iff)
    then show ?case using Cons.IH Cons.prems
      by (cases x) (auto simp: pend_def update_conv' fun_eq_iff map_add_def split: option.split)
  qed (simp add: pend_def)
  then show "distinct (map fst sent) \<Longrightarrow> map_of (pend sent []) = map_of sent" by simp
qed

lemma pend_keys: "fst ` set (pend sent p) = fst ` set p \<union> fst ` set sent"
proof (induction sent arbitrary: p)
  case (Cons x sent)
  have "pend (x # sent) p = pend sent (AList.update (fst x) (snd x) p)" by (simp add: pend_def case_prod_unfold)
  then show ?case using Cons.IH dom_update [of "fst x" "snd x" p] by simp
qed (simp add: pend_def)

definition in_frame :: "nat \<Rightarrow> nat \<Rightarrow> nat \<times> nat \<Rightarrow> bool" where
  "in_frame w h p \<longleftrightarrow> fst p < h \<and> snd p \<le> w"

lemma rows_run:
  assumes "\<forall>m\<in>set ms. rows_message_ok row_len link_len good w m" "w \<le> GRID_MAX_DIMENSION" "h \<le> GRID_MAX_DIMENSION"
    and "concat (map message_rows ms) = map (\<lambda>(y, r). (y, Some r)) sent" "\<forall>(y, r)\<in>set sent. y < h"
    and "sc_started (gl_check c)" "sc_has_state (gl_check c)" "sc_clipboard (gl_check c) = None"
    and "\<forall>p\<in>set (sc_pending (gl_check c)). in_frame w h p"
  shows "\<exists>open' pending. client_run ms c = Some (c\<lparr>gl_check := (gl_check c)\<lparr>sc_update_open := open', sc_pending := pending\<rparr>,
      gl_pending := pend sent (gl_pending c)\<rparr>)
    \<and> (\<forall>p\<in>set pending. in_frame w h p)"
  using assms
proof (induction ms arbitrary: c sent)
  case Nil
  then show ?case
    by (intro exI [of _ "sc_update_open (gl_check c)"] exI [of _ "sc_pending (gl_check c)"]) (simp add: pend_def)
next
  case (Cons m ms)
  obtain rs links where m: "m = GridRows rs links" "packs row_len link_len good w (map sr_row rs) links"
    using Cons.prems(1) by (auto simp: rows_message_ok_def split: grid_output.splits)
  obtain s1 s2 where s: "sent = s1 @ s2" "message_rows m = map (\<lambda>(y, r). (y, Some r)) s1"
    "concat (map message_rows ms) = map (\<lambda>(y, r). (y, Some r)) s2"
    using Cons.prems(4) by (auto simp: append_eq_map_conv)
  have rs: "map (\<lambda>r. (sr_y r, resolve_row (sr_row r) links)) rs = map (\<lambda>(y, r). (y, Some r)) s1"
    using s(2) by (simp add: m message_rows_def)
  have "set (map fst (map (\<lambda>r. (sr_y r, resolve_row (sr_row r) links)) rs)) = set (map fst (map (\<lambda>(y, r). (y, Some r)) s1))"
    unfolding rs ..
  then have "sr_y ` set rs = fst ` set s1" by (simp add: image_image case_prod_unfold)
  then have ys: "\<forall>r\<in>set rs. sr_y r < h" using Cons.prems(5) by (force simp: s(1))
  have valid: "validate_output m = Inr ()"
    using m ys Cons.prems(2,3) link_ok_valid validate_row_wider
    by (fastforce simp: packs_def try_bind_eq_Inr try_all_eq_Inr)
  define chk where "chk = (gl_check c)\<lparr>sc_update_open := True, sc_pending := extend_rows rs (sc_pending (gl_check c))\<rparr>"
  have acc: "stream_accept m (gl_check c) = (Inr (), chk)"
    using Cons.prems(6-8) by (simp add: m stream_accept_def in_update_def chk_def)
  define c1 where "c1 = c\<lparr>gl_check := chk, gl_pending := pend s1 (gl_pending c)\<rparr>"
  have first: "client_apply m c = Some c1"
    unfolding client_apply_def valid acc using pend_rows_ok [OF rs] by (simp add: m(1) c1_def)
  have "\<forall>r\<in>set rs. in_frame w h (sr_y r, row_end (sr_row r))"
    using ys m(2) validate_row_end by (fastforce simp: in_frame_def packs_def)
  then have within: "\<forall>p\<in>set (sc_pending chk). in_frame w h p"
    using extend_rows_within [OF Cons.prems(9)] by (simp add: chk_def)
  have "\<exists>open' pending. client_run ms c1 = Some (c1\<lparr>gl_check := (gl_check c1)\<lparr>sc_update_open := open', sc_pending := pending\<rparr>,
      gl_pending := pend s2 (gl_pending c1)\<rparr>) \<and> (\<forall>p\<in>set pending. in_frame w h p)"
    by (rule Cons.IH) (use Cons.prems s within in \<open>auto simp: c1_def chk_def\<close>)
  then show ?case by (auto simp: first c1_def chk_def s(1) pend_def)
qed

subsection \<open>An update of the screen\<close>

definition screen_ok :: "screen \<Rightarrow> bool" where
  "screen_ok s \<longleftrightarrow> dimension_ok (sn_cols s) \<and> dimension_ok (sn_rows s) \<and> length (sn_lines s) = sn_rows s
     \<and> (\<forall>row\<in>set (sn_lines s). row_ok (sn_cols s) row) \<and> gc_x (sn_cursor s) < sn_cols s \<and> gc_y (sn_cursor s) < sn_rows s"

text \<open>The client shows what the sender noted as sent, and its check waits for no more.\<close>

definition idle :: "stream_check \<Rightarrow> bool" where
  "idle chk \<longleftrightarrow> sc_started chk \<and> sc_has_state chk \<and> sc_clipboard chk = None \<and> \<not> sc_update_open chk \<and> sc_pending chk = []"

definition showing :: "(grid_row \<Rightarrow> nat) \<Rightarrow> (grid_link \<Rightarrow> nat) \<Rightarrow> sent_screen \<Rightarrow> grid_client \<Rightarrow> bool" where
  "showing row_len link_len sent c \<longleftrightarrow> gl_cols c = ss_cols sent \<and> gl_rows c = ss_rows sent \<and> length (ss_lines sent) = ss_rows sent
     \<and> list_all2 (gives_up row_len link_len) (gl_screen c) (ss_lines sent) \<and> gl_cursor c = ss_cursor sent \<and> gl_pending c = []
     \<and> sc_last_rev (gl_check c) = (if ss_rev sent = 0 then None else Some (ss_rev sent))"

definition same_besides_screen :: "grid_client \<Rightarrow> grid_client \<Rightarrow> bool" where
  "same_besides_screen c c' \<longleftrightarrow> gl_history c' = gl_history c \<and> gl_history_cap c' = gl_history_cap c \<and> gl_state c' = gl_state c
     \<and> gl_clipboard c' = gl_clipboard c \<and> gl_partial c' = gl_partial c
     \<and> sc_next_history_line (gl_check c') = sc_next_history_line (gl_check c)"

lemma gives_up_refl [simp]: "gives_up row_len link_len r r"
  unfolding gives_up_def using keep_links_all [of r UNIV] by (metis subset_UNIV)

lemma differs_not: "y < sn_rows s \<Longrightarrow> y \<notin> set (differs s sent by') \<Longrightarrow>
    sn_lines s ! y = (if y + by' < length (ss_lines sent) then ss_lines sent ! (y + by') else cell_row_default)"
  by (auto simp: differs_def)

lemma differs_set: "distinct (differs s sent by')" "set (differs s sent by') \<subseteq> {..< sn_rows s}"
  by (auto simp: differs_def)

lemma blank_row_eq: "is_blank_row r \<Longrightarrow> r = cell_row_default"
  by (cases r) (simp add: is_blank_row_def cell_row_default_def)

lemma changed_rows_ok:
  assumes "changed_rows s scrolled sent = (changed, shift)"
  shows "distinct changed \<and> set changed \<subseteq> {..< sn_rows s} \<and> shift \<le> sn_rows s \<and> (resized s sent \<longrightarrow> shift = 0)
    \<and> (\<forall>y < sn_rows s. y \<notin> set changed \<longrightarrow> sn_lines s ! y =
        (if \<not> resized s sent \<and> y + shift < length (ss_lines sent) then ss_lines sent ! (y + shift) else cell_row_default))"
proof (cases "resized s sent")
  case True
  then show ?thesis using assms blank_row_eq by (auto simp: changed_rows_def)
next
  case False
  then obtain k where "changed = differs s sent k" "shift = k" "k \<le> sn_rows s"
    using assms by (auto simp: changed_rows_def Let_def split: if_splits)
  then show ?thesis using False differs_not [of _ s sent k] differs_set [of s sent k] by simp
qed

lemma frame_run:
  assumes "idle ((gl_check c)\<lparr>sc_update_open := False, sc_pending := []\<rparr>)"
    and "\<forall>p\<in>set (sc_pending (gl_check c)). in_frame w h p" "dimension_ok w" "dimension_ok h"
    and "case sc_last_rev (gl_check c) of Some r \<Rightarrow> r < v | None \<Rightarrow> True" "v \<le> GRID_MAX_LINE_NUMBER" "shift \<le> h"
    and "gc_x cursor < w" "gc_y cursor < h" "\<forall>p\<in>set (gl_pending c). fst p < h"
    and "(w, h) = (gl_cols c, gl_rows c) \<Longrightarrow> length (gl_screen c) = h"
  shows "client_apply (GridFrame v w h shift cursor) c = Some (c\<lparr>
    gl_check := (gl_check c)\<lparr>sc_update_open := False, sc_pending := [], sc_last_rev := Some v\<rparr>, gl_cols := w, gl_rows := h,
    gl_screen := map (\<lambda>y. case map_of (gl_pending c) y of Some row \<Rightarrow> row | None \<Rightarrow>
      (if (w, h) = (gl_cols c, gl_rows c) \<and> y + shift < h then gl_screen c ! (y + shift) else cell_row_default)) [0..<h],
    gl_pending := [], gl_cursor := Some cursor\<rparr>)"
proof -
  have valid: "validate_output (GridFrame v w h shift cursor) = Inr ()"
    using assms(3,4,6-9) by (simp add: validate_size_def)
  have "check_pending w h (sc_pending (gl_check c)) = Inr ()"
    unfolding check_pending_ok using assms(2) by (auto simp: in_frame_def)
  then have acc: "stream_accept (GridFrame v w h shift cursor) (gl_check c)
      = (Inr (), (gl_check c)\<lparr>sc_pending := [], sc_update_open := False, sc_last_rev := Some v\<rparr>)"
    using assms(1,5) by (auto simp: stream_accept_def idle_def in_update_def split: option.splits)
  define base where "base = (if (w, h) = (gl_cols c, gl_rows c) then
      (if 0 < shift then take h (drop shift (gl_screen c) @ blank_rows (h - (length (gl_screen c) - shift))) else gl_screen c)
    else blank_rows h)"
  have len: "length base = h" using assms(7,11) by (auto simp: base_def blank_rows_def)
  have at: "base ! y = (if (w, h) = (gl_cols c, gl_rows c) \<and> y + shift < h then gl_screen c ! (y + shift) else cell_row_default)" if "y < h" for y
    using that assms(7,11) by (auto simp: base_def blank_rows_def nth_append add.commute)
  have commit: "commit_rows (gl_pending c) base = map (\<lambda>y. case map_of (gl_pending c) y of Some row \<Rightarrow> row | None \<Rightarrow>
      (if (w, h) = (gl_cols c, gl_rows c) \<and> y + shift < h then gl_screen c ! (y + shift) else cell_row_default)) [0..<h]"
    unfolding commit_rows_def len using at by (auto split: option.split)
  have out: "\<not> (\<exists>p\<in>set (gl_pending c). h \<le> fst p)" using assms(10) by (auto simp: not_le)
  have "apply_accepted (GridFrame v w h shift cursor) (c\<lparr>gl_check := chk\<rparr>)
      = Some (c\<lparr>gl_check := chk, gl_cols := w, gl_rows := h, gl_screen := commit_rows (gl_pending c) base, gl_pending := [], gl_cursor := Some cursor\<rparr>)" for chk
  proof (cases "(w, h) = (gl_cols c, gl_rows c)")
    case True
    then show ?thesis using len out by (cases c) (auto simp: base_def Let_def)
  next
    case False
    then show ?thesis using len out by (cases c) (auto simp: base_def Let_def)
  qed
  then show ?thesis unfolding client_apply_def valid acc using commit by simp
qed

lemma update_run:
  assumes show': "showing row_len link_len sent c" and idle: "idle (gl_check c)" and s: "screen_ok s"
    and rev': "ss_rev sent < GRID_MAX_LINE_NUMBER" and go: "sent_update row_len link_len s scrolled sent = (u, sent')"
  shows "\<exists>c'. client_run (case u of Some ms \<Rightarrow> ms | None \<Rightarrow> []) c = Some c' \<and> showing row_len link_len sent' c'
    \<and> idle (gl_check c') \<and> same_besides_screen c c' \<and> ss_cols sent' = sn_cols s \<and> ss_rows sent' = sn_rows s
    \<and> ss_lines sent' = sn_lines s \<and> ss_cursor sent' = Some (sn_cursor s) \<and> ss_rev sent \<le> ss_rev sent' \<and> ss_rev sent' \<le> ss_rev sent + 1"
proof -
  obtain changed shift where cs: "changed_rows s scrolled sent = (changed, shift)" by (cases "changed_rows s scrolled sent")
  note C = changed_rows_ok [OF cs]
  have len: "length (sn_lines s) = sn_rows s" "dimension_ok (sn_cols s)" "dimension_ok (sn_rows s)" using s by (simp_all add: screen_ok_def)
  have lens: "length (ss_lines sent) = ss_rows sent" "length (gl_screen c) = ss_rows sent"
    using show' list_all2_lengthD [of _ "gl_screen c" "ss_lines sent"] by (auto simp: showing_def)
  show ?thesis
  proof (cases "\<not> resized s sent \<and> changed = [] \<and> shift = 0 \<and> ss_cursor sent = Some (sn_cursor s)")
    case True
    then have "u = None" "sent' = sent" using go by (auto simp: sent_update_def cs)
    moreover have "sn_cols s = ss_cols sent" "sn_rows s = ss_rows sent" using True by (auto simp: resized_def)
    moreover from this have "sn_lines s = ss_lines sent" using C True len(1) lens(1) by (auto intro: nth_equalityI)
    ultimately show ?thesis using show' idle True by (auto simp: same_besides_screen_def)
  next
    case False
    define w h where "w = sn_cols s" and "h = sn_rows s"
    define pairs where "pairs = map (\<lambda>y. (y, sn_lines s ! y)) changed"
    let ?v = "ss_rev sent + 1"
    have u: "u = Some (rows_messages row_len link_len pairs @ [GridFrame ?v w h shift (sn_cursor s)])"
      and sent': "sent' = \<lparr>ss_cols = w, ss_rows = h, ss_lines = sn_lines s, ss_cursor = Some (sn_cursor s), ss_rev = ?v\<rparr>"
      using False go by (auto simp: sent_update_def cs Let_def pairs_def w_def h_def split: if_splits)
    have wh: "w \<le> GRID_MAX_DIMENSION" "h \<le> GRID_MAX_DIMENSION" using len by (simp_all add: dimension_ok_def w_def h_def)
    have rows_ok: "\<forall>(y, row)\<in>set pairs. row_ok w row"
      using s C len(1) by (auto simp: pairs_def screen_ok_def w_def)
    obtain out where M: "concat (map message_rows (rows_messages row_len link_len pairs)) = map (\<lambda>(y, r). (y, Some r)) out"
      "list_all2 (\<lambda>(y', r') (y, r). y' = y \<and> gives_up row_len link_len r' r) out pairs"
      "\<forall>m\<in>set (rows_messages row_len link_len pairs). rows_message_ok row_len link_len
         (index_cost row_len \<and> (\<forall>(y, row)\<in>set pairs. row_sendable row_len link_len row)) w m"
      by (rule rows_messages_ok [OF rows_ok])
    have "map fst out = map fst pairs"
      using M(2) by (induction out pairs rule: list_all2_induct) auto
    then have keys: "map fst out = changed" by (simp add: pairs_def comp_def)
    have out_at: "map_of out y = (if y \<in> set changed then Some (the (map_of out y)) else None)" for y
      using keys map_of_eq_None_iff [of out y] by (auto simp flip: set_map)
    have out_row: "gives_up row_len link_len r (sn_lines s ! y)" if y: "map_of out y = Some r" for y r
    proof -
      obtain i where i: "i < length out" "out ! i = (y, r)" using map_of_SomeD [OF y] by (auto simp: in_set_conv_nth)
      have "(\<lambda>(y', r') (y, r). y' = y \<and> gives_up row_len link_len r' r) (out ! i) (pairs ! i)"
        using M(2) i(1) by (rule list_all2_nthD)
      moreover have "i < length changed" using i(1) keys by (metis length_map)
      ultimately show ?thesis using i(2) by (simp add: pairs_def)
    qed
    have ys: "\<forall>(y, r)\<in>set out. y < h" using keys C by (force simp: h_def)
    have pend0: "gl_pending c = []" "sc_pending (gl_check c) = []" using show' idle by (simp_all add: showing_def idle_def)
    obtain open' pending where R: "client_run (rows_messages row_len link_len pairs) c
        = Some (c\<lparr>gl_check := (gl_check c)\<lparr>sc_update_open := open', sc_pending := pending\<rparr>, gl_pending := pend out []\<rparr>)"
      "\<forall>p\<in>set pending. in_frame w h p"
      using rows_run [OF M(3) wh M(1) ys, of c] idle pend0 by (auto simp: idle_def)
    define c1 where "c1 = c\<lparr>gl_check := (gl_check c)\<lparr>sc_update_open := open', sc_pending := pending\<rparr>, gl_pending := pend out []\<rparr>"
    define c' where "c' = c1\<lparr>gl_check := (gl_check c1)\<lparr>sc_update_open := False, sc_pending := [], sc_last_rev := Some ?v\<rparr>,
      gl_cols := w, gl_rows := h,
      gl_screen := map (\<lambda>y. case map_of (gl_pending c1) y of Some row \<Rightarrow> row | None \<Rightarrow>
        (if (w, h) = (gl_cols c1, gl_rows c1) \<and> y + shift < h then gl_screen c1 ! (y + shift) else cell_row_default)) [0..<h],
      gl_pending := [], gl_cursor := Some (sn_cursor s)\<rparr>"
    have at: "gl_cols c = ss_cols sent" "gl_rows c = ss_rows sent" using show' by (simp_all add: showing_def)
    have "client_apply (GridFrame ?v w h shift (sn_cursor s)) c1 = Some c'"
      unfolding c'_def
    proof (rule frame_run)
      show "idle ((gl_check c1)\<lparr>sc_update_open := False, sc_pending := []\<rparr>)" using idle by (simp add: c1_def idle_def)
      show "\<forall>p\<in>set (sc_pending (gl_check c1)). in_frame w h p" using R(2) by (simp add: c1_def)
      show "case sc_last_rev (gl_check c1) of Some r \<Rightarrow> r < ?v | None \<Rightarrow> True" using show' by (simp add: c1_def showing_def)
      show "shift \<le> h" using C by (simp add: h_def)
      show "\<forall>p\<in>set (gl_pending c1). fst p < h"
      proof
        fix p assume "p \<in> set (gl_pending c1)"
        then have "fst p \<in> fst ` set (pend out [])" by (simp add: c1_def)
        then have "fst p \<in> fst ` set out" unfolding pend_keys by simp
        then show "fst p < h" using ys by (auto simp: case_prod_unfold)
      qed
      show "length (gl_screen c1) = h" if "(w, h) = (gl_cols c1, gl_rows c1)" using that lens(2) at by (simp add: c1_def)
    qed (use len s rev' in \<open>auto simp: w_def h_def screen_ok_def\<close>)
    then have run: "client_run (rows_messages row_len link_len pairs @ [GridFrame ?v w h shift (sn_cursor s)]) c = Some c'"
      using R(1) by (simp add: client_run_append c1_def)
    have "distinct (map fst out)" using keys C by simp
    then have pm: "map_of (gl_pending c1) = map_of out" by (simp add: c1_def pend_map)
    have line: "gives_up row_len link_len (gl_screen c' ! y) (sn_lines s ! y)" if y: "y < h" for y
    proof (cases "map_of out y")
      case (Some r)
      then show ?thesis using out_row y by (simp add: c'_def pm)
    next
      case None
      then have "y \<notin> set changed" using out_at [of y] by (auto split: if_splits)
      then have old: "sn_lines s ! y = (if \<not> resized s sent \<and> y + shift < length (ss_lines sent) then ss_lines sent ! (y + shift) else cell_row_default)"
        using C y by (simp add: h_def)
      have same: "(w, h) = (gl_cols c1, gl_rows c1) \<longleftrightarrow> \<not> resized s sent" using at by (auto simp: c1_def resized_def w_def h_def)
      show ?thesis
      proof (cases "\<not> resized s sent \<and> y + shift < h")
        case True
        then have "y + shift < length (ss_lines sent)" using lens(1) at same by (simp add: c1_def)
        then have "gives_up row_len link_len (gl_screen c ! (y + shift)) (ss_lines sent ! (y + shift))"
          using show' lens list_all2_nthD2 by (fastforce simp: showing_def)
        then show ?thesis using True old same None y lens(1) at by (simp add: c'_def pm) (simp add: c1_def)
      next
        case False
        then have "\<not> (\<not> resized s sent \<and> y + shift < length (ss_lines sent))" using lens(1) at same by (auto simp: c1_def)
        then show ?thesis using False old same None y by (auto simp: c'_def pm)
      qed
    qed
    have "showing row_len link_len sent' c'"
      using line len(1) by (auto simp: showing_def sent' c'_def h_def list_all2_conv_all_nth)
    moreover have "idle (gl_check c')" using idle by (simp add: c'_def c1_def idle_def)
    moreover have "same_besides_screen c c'" by (simp add: c'_def c1_def same_besides_screen_def)
    ultimately show ?thesis using run by (intro exI [of _ c']) (simp add: u sent' w_def h_def)
  qed
qed

subsection \<open>A batch of history\<close>

definition kept_lines :: "nat \<Rightarrow> 'a list \<Rightarrow> 'a list" where
  "kept_lines cap xs = drop (length xs - cap) xs"

lemma kept_lines_push:
  assumes "length xs \<le> cap"
  shows "kept_lines cap ((if cap < length (xs @ [x]) then tl (xs @ [x]) else xs @ [x]) @ ys) = kept_lines cap (xs @ x # ys)
    \<and> length (if cap < length (xs @ [x]) then tl (xs @ [x]) else xs @ [x]) \<le> cap"
proof (cases "cap < length (xs @ [x])")
  case True
  then have "length xs = cap" using assms by simp
  then show ?thesis by (cases xs) (auto simp: kept_lines_def)
next
  case False
  then show ?thesis by (simp add: kept_lines_def)
qed

lemma push_lines_ok:
  "length history \<le> cap \<Longrightarrow> map (\<lambda>r. resolve_row r links) rs = map Some sent \<Longrightarrow>
    push_lines cap n w rs links history = Some (kept_lines cap (history @ map (\<lambda>(i, r). (i, w, r)) (enumerate n sent)))"
proof (induction rs arbitrary: sent n history)
  case Nil
  then show ?case by (simp add: kept_lines_def)
next
  case (Cons r rs)
  then obtain row rest where s: "sent = row # rest" "resolve_row r links = Some row" "map (\<lambda>r. resolve_row r links) rs = map Some rest"
    by (auto simp: Cons_eq_map_conv)
  let ?new = "history @ [(n, w, row)]"
  let ?h = "if cap < length ?new then tl ?new else ?new"
  note K = kept_lines_push [OF Cons.prems(1), of "(n, w, row)" "map (\<lambda>(i, r). (i, w, r)) (enumerate (Suc n) rest)"]
  have "push_lines cap n w (r # rs) links history = push_lines cap (n + 1) w rs links ?h"
    using s(2) by (simp add: Let_def)
  also have "\<dots> = Some (kept_lines cap (?h @ map (\<lambda>(i, r). (i, w, r)) (enumerate (n + 1) rest)))"
    by (rule Cons.IH) (use K s(3) in blast)+
  also have "kept_lines cap (?h @ map (\<lambda>(i, r). (i, w, r)) (enumerate (n + 1) rest)) = kept_lines cap (history @ map (\<lambda>(i, r). (i, w, r)) (enumerate n sent))"
    using K s(1) by simp
  finally show ?case .
qed

lemma kept_lines_twice: "kept_lines cap (kept_lines cap xs @ ys) = kept_lines cap (xs @ ys)"
  by (cases "length xs \<le> cap") (auto simp: kept_lines_def add.commute)

lemma kept_lines_le: "length (kept_lines cap xs) \<le> cap"
  by (simp add: kept_lines_def)

lemma map_enumerate_snd: "map (\<lambda>x. f (snd x)) (enumerate n xs) = map f xs"
  by (induction xs arbitrary: n) simp_all

definition next_is :: "nat option \<Rightarrow> nat \<Rightarrow> bool" where
  "next_is expected n \<longleftrightarrow> (case expected of Some m \<Rightarrow> m = n | None \<Rightarrow> True)"

lemma chained_le: "chained n ms end' \<Longrightarrow> n \<le> end'"
  by (induction n ms end' rule: chained.induct) auto

lemma chained_within: "chained a ms end' \<Longrightarrow> GridHistory n w rs links \<in> set ms \<Longrightarrow> n + length rs \<le> end'"
proof (induction a ms end' rule: chained.induct)
  case (2 a first' v rows ks ms end')
  then show ?case using chained_le [of "a + length rows" ms end'] by auto
qed auto

lemma history_run:
  assumes "\<forall>m\<in>set ms. history_message_ok row_len link_len good w m" "chained n ms end'"
    and "concat (map message_lines ms) = map (\<lambda>(i, r). (i, w, Some r)) (enumerate n sent)"
    and "dimension_ok w" "end' \<le> GRID_MAX_LINE_NUMBER + 1" "idle (gl_check c)"
    and "next_is (sc_next_history_line (gl_check c)) n" "length (gl_history c) \<le> gl_history_cap c"
  shows "\<exists>nxt. client_run ms c = Some (c\<lparr>gl_check := (gl_check c)\<lparr>sc_next_history_line := nxt\<rparr>,
      gl_history := kept_lines (gl_history_cap c) (gl_history c @ map (\<lambda>(i, r). (i, w, r)) (enumerate n sent))\<rparr>)
    \<and> next_is nxt end'"
  using assms
proof (induction ms arbitrary: n c sent)
  case Nil
  then have "sent = []" by (cases sent) simp_all
  then show ?case using Nil by (intro exI [of _ "sc_next_history_line (gl_check c)"]) (simp add: kept_lines_def)
next
  case (Cons m ms)
  obtain first' rs links where m: "m = GridHistory first' w rs links" "rs \<noteq> []" "packs row_len link_len good w rs links"
    using Cons.prems(1) by (auto simp: history_message_ok_def split: grid_output.splits)
  have first': "first' = n" and rest: "chained (n + length rs) ms end'" using Cons.prems(2) by (auto simp: m(1))
  have lines: "message_lines m = map (\<lambda>(i, r). (i, w, resolve_row r links)) (enumerate n rs)"
    by (simp add: m(1) message_lines_def first')
  have "map (\<lambda>(i, r). (i, w, resolve_row r links)) (enumerate n rs) @ concat (map message_lines ms) = map (\<lambda>(i, r). (i, w, Some r)) (enumerate n sent)"
    using Cons.prems(3) lines by simp
  then obtain s1 s2 where s: "sent = s1 @ s2" "length s1 = length rs"
    "map (\<lambda>(i, r). (i, w, resolve_row r links)) (enumerate n rs) = map (\<lambda>(i, r). (i, w, Some r)) (enumerate n s1)"
    "concat (map message_lines ms) = map (\<lambda>(i, r). (i, w, Some r)) (enumerate (n + length rs) s2)"
  proof -
    assume a: "map (\<lambda>(i, r). (i, w, resolve_row r links)) (enumerate n rs) @ concat (map message_lines ms) = map (\<lambda>(i, r). (i, w, Some r)) (enumerate n sent)"
      and k: "\<And>s1 s2. sent = s1 @ s2 \<Longrightarrow> length s1 = length rs \<Longrightarrow>
        map (\<lambda>(i, r). (i, w, resolve_row r links)) (enumerate n rs) = map (\<lambda>(i, r). (i, w, Some r)) (enumerate n s1) \<Longrightarrow>
        concat (map message_lines ms) = map (\<lambda>(i, r). (i, w, Some r)) (enumerate (n + length rs) s2) \<Longrightarrow> thesis"
    define s1 s2 where "s1 = take (length rs) sent" and "s2 = drop (length rs) sent"
    have len: "length rs \<le> length sent" using arg_cong [OF a, of length] by simp
    have sent: "sent = s1 @ s2" "length s1 = length rs" using len by (simp_all add: s1_def s2_def)
    have "map (\<lambda>(i, r). (i, w, Some r)) (enumerate n sent) = map (\<lambda>(i, r). (i, w, Some r)) (enumerate n s1)
        @ map (\<lambda>(i, r). (i, w, Some r)) (enumerate (n + length rs) s2)"
      unfolding sent(1) enumerate_append_eq sent(2) by simp
    with a have "map (\<lambda>(i, r). (i, w, resolve_row r links)) (enumerate n rs) = map (\<lambda>(i, r). (i, w, Some r)) (enumerate n s1)
      \<and> concat (map message_lines ms) = map (\<lambda>(i, r). (i, w, Some r)) (enumerate (n + length rs) s2)"
      using sent(2) by (metis (no_types, lifting) append_eq_append_conv length_enumerate length_map)
    then show thesis using k sent by blast
  qed
  have rows: "map (\<lambda>r. resolve_row r links) rs = map Some s1"
    using arg_cong [OF s(3), of "map (snd \<circ> snd)"] by (simp add: comp_def case_prod_unfold map_enumerate_snd [of "\<lambda>r. resolve_row r links"] map_enumerate_snd [of Some])
  have "n + length rs \<le> end'" by (rule chained_le [OF rest])
  moreover have len0: "0 < length rs" using m(2) by simp
  ultimately have fit: "n \<le> GRID_MAX_LINE_NUMBER" "n + length rs \<le> GRID_MAX_LINE_NUMBER + 1"
    using len0 Cons.prems(5) unfolding GRID_MAX_LINE_NUMBER_def by linarith+
  then have "n + length rs \<le> 2 ^ 64 - 1" unfolding GRID_MAX_LINE_NUMBER_def by simp
  then have sat: "saturating_add n (length rs) = n + length rs" by (simp add: saturating_add_def)
  have valid: "validate_output m = Inr ()"
    using m fit(1,2) Cons.prems(4) link_ok_valid by (auto simp: first' packs_def try_bind_eq_Inr try_all_eq_Inr)
  define chk where "chk = (gl_check c)\<lparr>sc_next_history_line := Some (n + length rs)\<rparr>"
  have acc: "stream_accept m (gl_check c) = (Inr (), chk)"
    using Cons.prems(6,7) sat by (auto simp: m(1) first' stream_accept_def idle_def chk_def next_is_def split: option.splits)
  define h1 where "h1 = kept_lines (gl_history_cap c) (gl_history c @ map (\<lambda>(i, r). (i, w, r)) (enumerate n s1))"
  define c1 where "c1 = c\<lparr>gl_check := chk, gl_history := h1\<rparr>"
  have first: "client_apply m c = Some c1"
    unfolding client_apply_def valid acc using push_lines_ok [OF Cons.prems(8) rows] by (simp add: m(1) first' c1_def h1_def)
  have "\<exists>nxt. client_run ms c1 = Some (c1\<lparr>gl_check := (gl_check c1)\<lparr>sc_next_history_line := nxt\<rparr>,
      gl_history := kept_lines (gl_history_cap c1) (gl_history c1 @ map (\<lambda>(i, r). (i, w, r)) (enumerate (n + length rs) s2))\<rparr>)
    \<and> next_is nxt end'"
    by (rule Cons.IH) (use Cons.prems rest s(4) in \<open>auto simp: c1_def chk_def h1_def idle_def next_is_def kept_lines_le\<close>)
  then obtain nxt where R: "client_run ms c1 = Some (c1\<lparr>gl_check := (gl_check c1)\<lparr>sc_next_history_line := nxt\<rparr>,
      gl_history := kept_lines (gl_history_cap c1) (gl_history c1 @ map (\<lambda>(i, r). (i, w, r)) (enumerate (n + length rs) s2))\<rparr>)"
    "next_is nxt end'" by blast
  have "kept_lines (gl_history_cap c1) (gl_history c1 @ map (\<lambda>(i, r). (i, w, r)) (enumerate (n + length rs) s2))
      = kept_lines (gl_history_cap c) (gl_history c @ map (\<lambda>(i, r). (i, w, r)) (enumerate n sent))"
    by (simp add: c1_def h1_def kept_lines_twice s(1,2) enumerate_append_eq)
  then show ?case using R by (intro exI [of _ nxt]) (simp add: first c1_def chk_def)
qed

subsection \<open>A clipboard write\<close>

definition chars_ok :: "byte list list \<Rightarrow> bool" where
  "chars_ok txt \<longleftrightarrow> (\<forall>ch\<in>set txt. ch \<noteq> [] \<and> length ch \<le> 4)"

definition escaped_size :: "byte list list \<Rightarrow> nat" where
  "escaped_size txt = sum_list (map escaped_len txt)"

text \<open>A part within both limits, made of whole characters.\<close>

definition part_ok :: "byte list \<Rightarrow> bool" where
  "part_ok part \<longleftrightarrow> length part \<le> GRID_MAX_CLIPBOARD_PART_BYTES
     \<and> (\<exists>chs. part = concat chs \<and> chars_ok chs \<and> escaped_size chs + ENVELOPE \<le> GRID_MAX_MESSAGE)"

lemma escaped_len_le: "length ch \<le> 4 \<Longrightarrow> escaped_len ch \<le> 6"
  by (simp add: escaped_len_def)

lemma clipboard_parts_ok:
  assumes "chars_ok chs" "\<forall>p\<in>set parts. part_ok p" "part = concat now" "chars_ok now" "escaped = escaped_size now"
    "length part \<le> GRID_MAX_CLIPBOARD_PART_BYTES" "escaped + ENVELOPE \<le> GRID_MAX_MESSAGE"
  shows "concat (clipboard_parts chs parts part escaped) = concat parts @ part @ concat chs
    \<and> (\<forall>p\<in>set (clipboard_parts chs parts part escaped). part_ok p) \<and> clipboard_parts chs parts part escaped \<noteq> []"
  using assms
proof (induction chs parts part escaped arbitrary: now rule: clipboard_parts.induct)
  case (1 parts part escaped)
  then show ?case by (auto simp: part_ok_def)
next
  case (2 ch chs parts part escaped)
  define cost where "cost = escaped_len ch"
  have ch: "length ch \<le> 4" "chars_ok [ch]" "chars_ok chs" using 2(3) by (simp_all add: chars_ok_def)
  have small: "cost \<le> 6" using escaped_len_le [OF ch(1)] by (simp add: cost_def)
  show ?case
  proof (cases "GRID_MAX_CLIPBOARD_PART_BYTES < length part + length ch \<or> GRID_MAX_MESSAGE - ENVELOPE < escaped + cost")
    case True
    have "concat (clipboard_parts chs (parts @ [part]) ch (0 + cost)) = concat (parts @ [part]) @ ch @ concat chs
      \<and> (\<forall>p\<in>set (clipboard_parts chs (parts @ [part]) ch (0 + cost)). part_ok p) \<and> clipboard_parts chs (parts @ [part]) ch (0 + cost) \<noteq> []"
    proof (rule 2(1) [OF cost_def _ ch(3)])
      show "\<forall>p\<in>set (parts @ [part]). part_ok p" using 2(4-9) by (auto simp: part_ok_def)
      show "ch = concat [ch]" "chars_ok [ch]" "0 + cost = escaped_size [ch]" using ch(2) by (simp_all add: escaped_size_def cost_def)
      show "length ch \<le> GRID_MAX_CLIPBOARD_PART_BYTES" using ch(1) by (simp add: GRID_MAX_CLIPBOARD_PART_BYTES_def)
      show "0 + cost + ENVELOPE \<le> GRID_MAX_MESSAGE" using small by (simp add: ENVELOPE_def GRID_MAX_MESSAGE_def)
    qed (use True cost_def in simp)
    then show ?thesis using True by (simp add: Let_def cost_def)
  next
    case False
    have "concat (clipboard_parts chs parts (part @ ch) (escaped + cost)) = concat parts @ (part @ ch) @ concat chs
      \<and> (\<forall>p\<in>set (clipboard_parts chs parts (part @ ch) (escaped + cost)). part_ok p) \<and> clipboard_parts chs parts (part @ ch) (escaped + cost) \<noteq> []"
    proof (rule 2(2) [OF cost_def _ ch(3) 2(4)])
      show "part @ ch = concat (now @ [ch])" "chars_ok (now @ [ch])" "escaped + cost = escaped_size (now @ [ch])"
        using 2(5-7) ch(2) by (auto simp: chars_ok_def escaped_size_def cost_def)
      show "length (part @ ch) \<le> GRID_MAX_CLIPBOARD_PART_BYTES" using False by simp
      show "escaped + cost + ENVELOPE \<le> GRID_MAX_MESSAGE" using False by (simp add: ENVELOPE_def GRID_MAX_MESSAGE_def)
    qed (use False cost_def in simp)
    then show ?thesis using False by (simp add: Let_def cost_def)
  qed
qed

lemma parts_run:
  assumes "\<forall>p\<in>set parts. length p \<le> GRID_MAX_CLIPBOARD_PART_BYTES" "parts \<noteq> []"
    and "sc_started (gl_check c)" "sc_has_state (gl_check c)" "\<not> sc_update_open (gl_check c)"
    and "sc_clipboard (gl_check c) = (if before = [] then None else Some (target, length (concat before)))"
    and "gl_partial c = (if before = [] then None else Some (target, concat before))"
    and "length (concat before) + length (concat parts) \<le> GRID_MAX_CLIPBOARD_BYTES"
  shows "client_run (map (\<lambda>at. GridClipboard target (parts ! at) (at + 1 = length parts)) [0..<length parts]) c
    = Some (c\<lparr>gl_check := (gl_check c)\<lparr>sc_clipboard := None\<rparr>, gl_clipboard := gl_clipboard c @ [(target, concat before @ concat parts)],
        gl_partial := None\<rparr>)"
  using assms
proof (induction parts arbitrary: c before)
  case (Cons part parts)
  let ?last = "parts = []"
  have list: "map (\<lambda>at. GridClipboard target ((part # parts) ! at) (at + 1 = length (part # parts))) [0..<length (part # parts)]
    = GridClipboard target part ?last # map (\<lambda>at. GridClipboard target (parts ! at) (at + 1 = length parts)) [0..<length parts]"
    by (simp add: upt_conv_Cons comp_def flip: map_Suc_upt del: upt_Suc)
  have valid: "validate_output (GridClipboard target part ?last) = Inr ()" using Cons.prems(1) by simp
  define chk where "chk = (gl_check c)\<lparr>sc_clipboard := (if ?last then None else Some (target, length (concat before) + length part))\<rparr>"
  have acc: "stream_accept (GridClipboard target part ?last) (gl_check c) = (Inr (), chk)"
    using Cons.prems(3-6,8) by (auto simp: stream_accept_def is_clipboard_def chk_def Let_def)
  show ?case
  proof (cases ?last)
    case True
    then show ?thesis unfolding list
      by (simp add: client_apply_def valid [unfolded True, simplified] acc [unfolded True, simplified] Cons.prems(7) chk_def)
  next
    case False
    define c1 where "c1 = c\<lparr>gl_check := chk, gl_partial := Some (target, concat before @ part)\<rparr>"
    have first: "client_apply (GridClipboard target part ?last) c = Some c1"
      unfolding client_apply_def valid acc using False Cons.prems(7) by (simp add: c1_def)
    have "client_run (map (\<lambda>at. GridClipboard target (parts ! at) (at + 1 = length parts)) [0..<length parts]) c1
      = Some (c1\<lparr>gl_check := (gl_check c1)\<lparr>sc_clipboard := None\<rparr>,
          gl_clipboard := gl_clipboard c1 @ [(target, concat (before @ [part]) @ concat parts)], gl_partial := None\<rparr>)"
      by (rule Cons.IH) (use Cons.prems False in \<open>simp_all add: c1_def chk_def\<close>)
    then show ?thesis unfolding list using first by (simp add: c1_def chk_def)
  qed
qed simp

lemma clipboard_run:
  assumes "idle (gl_check c)" "gl_partial c = None" "chars_ok txt"
  shows "client_run (clipboard_messages target txt) c =
    Some (if GRID_MAX_CLIPBOARD_BYTES < length (concat txt) then c
      else c\<lparr>gl_clipboard := gl_clipboard c @ [(target, concat txt)]\<rparr>)"
proof (cases "GRID_MAX_CLIPBOARD_BYTES < length (concat txt)")
  case True
  then show ?thesis by (simp add: clipboard_messages_def)
next
  case False
  define parts where "parts = clipboard_parts txt [] [] 0"
  have P: "concat parts = concat txt" "\<forall>p\<in>set parts. part_ok p" "parts \<noteq> []"
    using clipboard_parts_ok [OF assms(3), of "[]" "[]" "[]" 0]
    by (simp_all add: parts_def chars_ok_def escaped_size_def ENVELOPE_def GRID_MAX_MESSAGE_def)
  have "client_run (map (\<lambda>at. GridClipboard target (parts ! at) (at + 1 = length parts)) [0..<length parts]) c
    = Some (c\<lparr>gl_check := (gl_check c)\<lparr>sc_clipboard := None\<rparr>, gl_clipboard := gl_clipboard c @ [(target, concat [] @ concat parts)],
        gl_partial := None\<rparr>)"
    by (rule parts_run) (use P assms False in \<open>auto simp: idle_def part_ok_def\<close>)
  moreover have "(gl_check c)\<lparr>sc_clipboard := None\<rparr> = gl_check c" using assms(1) by (cases "gl_check c") (simp add: idle_def)
  ultimately show ?thesis using False P(1) assms(2) by (cases c) (simp add: clipboard_messages_def parts_def [symmetric] Let_def)
qed

end
