(* ===== verification/Grid_Sender.thy ===== *)
theory Grid_Sender
  imports Screen
begin

text \<open>
  The sender of a grid attachment (\<^verbatim>\<open>GridStream\<close> in
  \<^verbatim>\<open>crates/farhelm-supervisor/src/service/grid_stream.rs\<close>): what it sends for each read of the
  emulator, during the catch-up and live. Its waits are between the operations; times are milliseconds.
\<close>

definition CATCH_UP_LINES :: nat where "CATCH_UP_LINES = 1024"
definition LIVE_HISTORY_LINES :: nat where "LIVE_HISTORY_LINES = 1024"
definition LIVE_HISTORY_BYTES :: nat where "LIVE_HISTORY_BYTES = 256 * 1024"
definition MIN_CYCLE_INTERVAL :: nat where "MIN_CYCLE_INTERVAL = 8"
definition RELAYOUT_SETTLE :: nat where "RELAYOUT_SETTLE = 250"
definition RELAYOUT_MAX_DELAY :: nat where "RELAYOUT_MAX_DELAY = 2000"

subsection \<open>State\<close>

record relayout_run =
  ru_layout :: layout
  ru_since :: nat
  ru_first :: nat

definition due :: "bool \<Rightarrow> relayout_run \<Rightarrow> nat" where
  "due capped run =
     (let settled = ru_since run + RELAYOUT_SETTLE in
      if capped then settled else min settled (ru_first run + RELAYOUT_MAX_DELAY))"

text \<open>\<open>gs_target\<close> is where the catch-up ends, while it goes on.\<close>

record grid_sender =
  gs_screen :: "sent_screen option"
  gs_history :: history_cursor
  gs_history_owed :: bool
  gs_relayout :: "relayout_run option"
  gs_relayout_capped :: bool
  gs_frame_history_end :: "nat option"
  gs_sent_state :: "terminal_state option"
  gs_clipboard :: "byte list list option"
  gs_last_cycle :: "nat option"
  gs_target :: "nat option"

definition sender_new :: grid_sender where
  "sender_new = \<lparr>gs_screen = None, gs_history = history_cursor_new, gs_history_owed = False, gs_relayout = None,
     gs_relayout_capped = False, gs_frame_history_end = None, gs_sent_state = None, gs_clipboard = None,
     gs_last_cycle = None, gs_target = None\<rparr>"

datatype liveness = LvRunning | LvExited child_exit | LvGone | LvUnavailable string

definition with_exit :: "terminal_state \<Rightarrow> liveness \<Rightarrow> terminal_state" where
  "with_exit state liveness = state\<lparr>ts_exit := (case liveness of
     LvExited (Code code) \<Rightarrow> Some (ExitCode code)
   | LvExited (Signal signal) \<Rightarrow> Some (ExitSignal signal)
   | _ \<Rightarrow> None)\<rparr>"

subsection \<open>Notices\<close>

datatype emulator_target = EmulatorClipboard | EmulatorSelection
datatype notice = NoticeClipboard emulator_target "byte list list" | OtherNotice

definition clipboard_target_of :: "emulator_target \<Rightarrow> clipboard_target" where
  "clipboard_target_of t = (case t of EmulatorClipboard \<Rightarrow> Clipboard | EmulatorSelection \<Rightarrow> Primary)"

definition stash :: "notice \<Rightarrow> grid_sender \<Rightarrow> grid_sender" where
  "stash notice s = (case notice of
     NoticeClipboard target txt \<Rightarrow> if clipboard_target_of target = Clipboard then s\<lparr>gs_clipboard := Some txt\<rparr> else s
   | OtherNotice \<Rightarrow> s)"

definition drain_notices :: "notice list \<Rightarrow> grid_sender \<Rightarrow> grid_sender" where
  "drain_notices notices s = fold stash notices s"

subsection \<open>The catch-up\<close>

definition send_history :: "(grid_row \<Rightarrow> nat) \<Rightarrow> (grid_link \<Rightarrow> nat) \<Rightarrow> history_batch \<Rightarrow> grid_output list" where
  "send_history row_len link_len batch =
     (if hb_reset batch \<noteq> None then [GridHistoryReset] else [])
     @ history_messages row_len link_len (hb_first batch) (hb_cols batch) (hb_lines batch)"

text \<open>One turn of the loop over the history: the batch sent, and whether the target is reached.\<close>

definition catch_up_batch :: "(grid_row \<Rightarrow> nat) \<Rightarrow> (grid_link \<Rightarrow> nat) \<Rightarrow> nat \<Rightarrow> history_batch \<Rightarrow> grid_sender \<Rightarrow> grid_output list \<times> grid_sender" where
  "catch_up_batch row_len link_len target batch s =
     (send_history row_len link_len batch,
      s\<lparr>gs_history_owed := (0 < owed batch),
        gs_target := (if target \<le> hc_next (gs_history s) then None else Some target)\<rparr>)"

definition catch_up :: "(grid_row \<Rightarrow> nat) \<Rightarrow> (grid_link \<Rightarrow> nat) \<Rightarrow> nat \<Rightarrow> emulator \<Rightarrow> liveness \<Rightarrow> grid_sender \<Rightarrow> grid_output list \<times> grid_sender" where
  "catch_up row_len link_len scrollback e liveness s =
     (let screen = screen_of e;
          (batch, history) = read_history e (relayouts e) CATCH_UP_LINES (gs_history s);
          cap = min scrollback GRID_MAX_HISTORY_CAP;
          state = with_exit (terminal_state_of e) liveness;
          (update, sent) = sent_update row_len link_len screen 0 (after_hello (sn_cols screen) (sn_rows screen));
          (messages, s) = catch_up_batch row_len link_len (hb_end batch) batch
            (s\<lparr>gs_history := history, gs_sent_state := Some state, gs_screen := Some sent\<rparr>) in
      ([GridHello (sn_cols screen) (sn_rows screen) cap, GridState state] @ the update @ messages, s))"

text \<open>A further read of the catch-up, which a change of layout ends.\<close>

definition catch_up_next :: "(grid_row \<Rightarrow> nat) \<Rightarrow> (grid_link \<Rightarrow> nat) \<Rightarrow> nat \<Rightarrow> emulator \<Rightarrow> grid_sender \<Rightarrow> grid_output list \<times> grid_sender" where
  "catch_up_next row_len link_len target e s =
     (let (moved, layout) = layout_moved e (relayouts e) (gs_history s) in
      if moved then ([], s\<lparr>gs_history_owed := True, gs_target := None\<rparr>)
      else let (batch, history) = read_history e (relayouts e) CATCH_UP_LINES (gs_history s) in
        catch_up_batch row_len link_len target batch (s\<lparr>gs_history := history\<rparr>))"

subsection \<open>Live cycles\<close>

record capture =
  cap_screen :: screen
  cap_state :: terminal_state
  cap_batch :: "history_batch option"
  cap_moved_to :: "layout option"
  cap_forced :: bool

definition read_capture :: "nat \<Rightarrow> emulator \<Rightarrow> grid_sender \<Rightarrow> capture \<times> history_cursor" where
  "read_capture now e s =
     (let pending = gs_relayout s;
          capped = gs_relayout_capped s;
          (moved, layout) = layout_moved e (relayouts e) (gs_history s);
          settled = (case pending of Some run \<Rightarrow> ru_layout run = layout \<and> ru_since run + RELAYOUT_SETTLE \<le> now | None \<Rightarrow> False);
          forced = (\<not> settled \<and> \<not> capped
            \<and> (case pending of Some run \<Rightarrow> ru_first run + RELAYOUT_MAX_DELAY \<le> now | None \<Rightarrow> False));
          settling = (moved \<and> \<not> settled \<and> \<not> forced);
          (batch, history) =
            (if settling then (None, gs_history s)
             else let (b, h) = read_within e (relayouts e) LIVE_HISTORY_LINES LIVE_HISTORY_BYTES (gs_history s) in (Some b, h)) in
      (\<lparr>cap_screen = screen_of e, cap_state = terminal_state_of e, cap_batch = batch,
        cap_moved_to = (if moved then Some layout else None), cap_forced = (moved \<and> forced)\<rparr>, history))"

text \<open>What is left of a run of changes after a read: it goes on while the change is put off.\<close>

definition note_relayout :: "nat \<Rightarrow> capture \<Rightarrow> relayout_run option \<Rightarrow> relayout_run option" where
  "note_relayout now capture run = (case (cap_batch capture, cap_moved_to capture) of
     (None, Some layout) \<Rightarrow> Some (case run of
        Some run \<Rightarrow> if ru_layout run = layout then run else \<lparr>ru_layout = layout, ru_since = now, ru_first = ru_first run\<rparr>
      | None \<Rightarrow> \<lparr>ru_layout = layout, ru_since = now, ru_first = now\<rparr>)
   | _ \<Rightarrow> None)"

text \<open>How many lines the screen scrolled since the last frame, and how far history has got.\<close>

definition scrolled_since :: "capture \<Rightarrow> nat option \<Rightarrow> nat \<times> nat option" where
  "scrolled_since capture frame_history_end = (case cap_batch capture of
     Some batch \<Rightarrow>
       if hb_reset batch = None \<and> owed batch = 0 \<and> \<not> sn_alternate (cap_screen capture)
       then (case frame_history_end of Some previous \<Rightarrow> hb_end batch - previous | None \<Rightarrow> 0, Some (hb_end batch))
       else (0, None)
   | None \<Rightarrow> (0, None))"

definition cycle :: "(grid_row \<Rightarrow> nat) \<Rightarrow> (grid_link \<Rightarrow> nat) \<Rightarrow> nat \<Rightarrow> emulator \<Rightarrow> liveness \<Rightarrow> notice list \<Rightarrow> grid_sender
    \<Rightarrow> grid_output list \<times> grid_sender" where
  "cycle row_len link_len now e liveness notices s =
     (let s = drain_notices notices (s\<lparr>gs_last_cycle := Some now\<rparr>);
          (capture, history) = read_capture now e s;
          capped = (if cap_moved_to capture \<noteq> None \<and> cap_batch capture \<noteq> None then cap_forced capture else gs_relayout_capped s);
          relayout = note_relayout now capture (gs_relayout s);
          state = with_exit (cap_state capture) liveness;
          state_messages = (if gs_sent_state s \<noteq> Some state then [GridState state] else []);
          (scrolled, history_end) = scrolled_since capture (gs_frame_history_end s);
          history_messages = (case cap_batch capture of Some batch \<Rightarrow> send_history row_len link_len batch | None \<Rightarrow> []);
          (update, sent) = sent_update row_len link_len (cap_screen capture) scrolled (the (gs_screen s));
          screen_messages = (case update of Some messages \<Rightarrow> messages | None \<Rightarrow> []);
          frame_history_end = (if update \<noteq> None \<or> history_end = None then history_end else gs_frame_history_end s);
          clipboard = (case gs_clipboard s of Some txt \<Rightarrow> clipboard_messages Clipboard txt | None \<Rightarrow> []) in
      (state_messages @ history_messages @ screen_messages @ clipboard,
       s\<lparr>gs_history := history, gs_relayout_capped := capped, gs_relayout := relayout, gs_sent_state := Some state,
         gs_history_owed := (case cap_batch capture of Some batch \<Rightarrow> 0 < owed batch | None \<Rightarrow> False),
         gs_screen := Some sent, gs_frame_history_end := frame_history_end, gs_clipboard := None\<rparr>))"

text \<open>Whether a cycle is worth starting without waiting, and whether one may start yet.\<close>

definition has_work :: "bool \<Rightarrow> nat \<Rightarrow> grid_sender \<Rightarrow> bool" where
  "has_work changed now s \<longleftrightarrow> gs_history_owed s \<or> gs_clipboard s \<noteq> None \<or> changed
     \<or> (case gs_relayout s of Some run \<Rightarrow> due (gs_relayout_capped s) run \<le> now | None \<Rightarrow> False)"

definition may_cycle :: "nat \<Rightarrow> grid_sender \<Rightarrow> bool" where
  "may_cycle now s \<longleftrightarrow> (case gs_last_cycle s of Some last' \<Rightarrow> last' + MIN_CYCLE_INTERVAL \<le> now | None \<Rightarrow> True)"

datatype forwarder_end = TerminalEnded | StreamFailed string

text \<open>What ends the attachment after a cycle: the liveness it saw, or the runtime's end.\<close>

definition live_verdict :: "liveness \<Rightarrow> bool \<Rightarrow> forwarder_end option" where
  "live_verdict liveness runtime_ended = (case liveness of
     LvGone \<Rightarrow> Some TerminalEnded
   | LvUnavailable reason \<Rightarrow> Some (StreamFailed (''the terminal host is unavailable: '' @ reason))
   | _ \<Rightarrow> if runtime_ended then Some (StreamFailed ''the terminal's runtime ended'') else None)"

text \<open>
  A stream's events, between its waits: a notice kept, or the emulator read, which is the attach's
  first read, a further one of its history, or a live cycle's.
\<close>

datatype sender_event = Noticed notice | Reads nat emulator liveness "notice list"

definition sender_on :: "(grid_row \<Rightarrow> nat) \<Rightarrow> (grid_link \<Rightarrow> nat) \<Rightarrow> nat \<Rightarrow> sender_event \<Rightarrow> grid_sender \<Rightarrow> grid_output list \<times> grid_sender" where
  "sender_on row_len link_len scrollback ev s = (case ev of
     Noticed notice \<Rightarrow> ([], stash notice s)
   | Reads now e liveness notices \<Rightarrow>
       if gs_screen s = None then catch_up row_len link_len scrollback e liveness s
       else (case gs_target s of
          Some target \<Rightarrow> catch_up_next row_len link_len target e s
        | None \<Rightarrow> cycle row_len link_len now e liveness notices s))"

fun sender_run :: "(grid_row \<Rightarrow> nat) \<Rightarrow> (grid_link \<Rightarrow> nat) \<Rightarrow> nat \<Rightarrow> sender_event list \<Rightarrow> grid_sender \<Rightarrow> grid_output list \<times> grid_sender" where
  "sender_run row_len link_len scrollback [] s = ([], s)"
| "sender_run row_len link_len scrollback (ev # evs) s =
     (let (out, s) = sender_on row_len link_len scrollback ev s;
          (outs, s) = sender_run row_len link_len scrollback evs s in (out @ outs, s))"

end
