(* ===== verification/Sender_Facts.thy ===== *)
theory Sender_Facts
  imports Client_Facts Grid_Sender
begin

text \<open>
  What the sender reads of an emulator, and that it keeps, over every run of reads, what its client
  has: the screen and state it noted as sent, and the history lines numbered up to its cursor.
\<close>

subsection \<open>The emulator read\<close>

definition cell_links_ok :: "term_cell list \<Rightarrow> bool" where
  "cell_links_ok row \<longleftrightarrow> (\<forall>c\<in>set row. case tc_link c of Some l \<Rightarrow> link_ok l | None \<Rightarrow> True)"

text \<open>
  What the emulator keeps true: sizes within the format's, rows of cells of its width, links within
  the parser's limits, and line counts far below the format's last line number.
\<close>

definition emulator_ok :: "emulator \<Rightarrow> bool" where
  "emulator_ok e \<longleftrightarrow> dimension_ok (em_cols e) \<and> dimension_ok (em_lines e) \<and> dimension_ok (em_history_cols e)
     \<and> length (em_screen e) = em_lines e
     \<and> (\<forall>row\<in>set (em_screen e). cells_ok row (em_cols e) \<and> cell_links_ok row)
     \<and> (\<forall>row\<in>set (em_history e). cells_ok row (em_history_cols e) \<and> cell_links_ok row)
     \<and> em_scrolled e \<le> 2 ^ 52 \<and> length (em_history e) \<le> 2 ^ 52"

lemma cells_loop_links:
  assumes "w \<le> length row" "\<forall>c\<in>set row. case tc_link c of Some l \<Rightarrow> P l | None \<Rightarrow> True"
    and "\<forall>r\<in>set runs. case ce_link r of Some l \<Rightarrow> P l | None \<Rightarrow> True"
  shows "\<forall>r\<in>set (cells_loop row w colors col last_ascii runs). case ce_link r of Some l \<Rightarrow> P l | None \<Rightarrow> True"
  using assms
proof (induction row w colors col last_ascii runs rule: cells_loop.induct)
  case (1 row w colors col last_ascii runs)
  note IH = 1(1-3) and prems = 1(4-6)
  show ?case
  proof (cases "col < w")
    case False
    then show ?thesis using prems by (subst cells_loop.simps) simp
  next
    case True
    have c: "row ! col \<in> set row" using True prems(1) by simp
    show ?thesis
    proof (cases "spacer (row ! col)")
      case sp: True
      then show ?thesis
        using IH(1) [OF True refl] prems True by (simp add: cells_loop_spacer spacer_def)
    next
      case sp: False
      have fl: "\<not> (has_flag (row ! col) F_WIDE_CHAR_SPACER \<or> has_flag (row ! col) F_LEADING_WIDE_CHAR_SPACER)"
        using sp by (simp add: spacer_def)
      show ?thesis
      proof (cases "\<not> has_flag (row ! col) F_WIDE_CHAR \<and> tc_zerowidth (row ! col) = [] \<and> ascii_cell_char (if tc_char (row ! col) = [9] then [32] else tc_char (row ! col))")
        case asc: True
        have unf: "cells_loop row w colors col last_ascii runs = cells_loop row w colors (col + 1) True
            (if runs \<noteq> [] \<and> last_ascii \<and> ce_end (last runs) = col \<and> ce_style (last runs) = style_of (row ! col) colors \<and> ce_link (last runs) = tc_link (row ! col)
               then butlast runs @ [(last runs)\<lparr>ce_text := ce_text (last runs) @ (if tc_char (row ! col) = [9] then [32] else tc_char (row ! col)), ce_width := ce_width (last runs) + 1\<rparr>]
               else runs @ [\<lparr>ce_col = col, ce_width = 1, ce_text = (if tc_char (row ! col) = [9] then [32] else tc_char (row ! col)), ce_style = style_of (row ! col) colors, ce_link = tc_link (row ! col)\<rparr>])"
          using True fl asc by (subst cells_loop.simps) (simp add: Let_def)
        show ?thesis unfolding unf
          by (rule IH(2) [OF True refl fl refl refl refl refl asc])
            (use prems c in \<open>auto dest: in_set_butlastD\<close>)
      next
        case own: False
        have unf: "cells_loop row w colors col last_ascii runs = cells_loop row w colors (col + (if has_flag (row ! col) F_WIDE_CHAR \<and> col + 1 < w then 2 else 1)) False
            (runs @ [\<lparr>ce_col = col, ce_width = (if has_flag (row ! col) F_WIDE_CHAR \<and> col + 1 < w then 2 else 1), ce_text = (if tc_char (row ! col) = [9] then [32] else tc_char (row ! col)) @ concat (tc_zerowidth (row ! col)), ce_style = style_of (row ! col) colors, ce_link = tc_link (row ! col)\<rparr>])"
          using True fl own by (subst cells_loop.simps) (simp add: Let_def del: de_Morgan_conj)
        show ?thesis unfolding unf
          by (rule IH(3) [OF True refl fl refl refl refl refl own refl]) (use prems c in auto)
      qed
    qed
  qed
qed

lemma row_links:
  assumes "cells_ok row w" "cell_links_ok row" "l \<in> links_of (row_from_cells row w colors)"
  shows "link_ok l"
proof -
  have "ce_link (trim_run r) = ce_link r" for r by (simp add: trim_run_def Let_def)
  moreover have "\<forall>r\<in>set (cells_loop row (min (min w (length row)) 65535) colors 0 False []). case ce_link r of Some l \<Rightarrow> link_ok l | None \<Rightarrow> True"
    by (rule cells_loop_links) (use assms(2) in \<open>auto simp: cell_links_ok_def\<close>)
  ultimately show ?thesis using assms(3)
    by (auto simp: links_of_def row_from_cells_def trim_default_blanks_def Let_def split: option.splits)
qed

lemma row_from_cells_row_ok: "cells_ok row w \<Longrightarrow> cell_links_ok row \<Longrightarrow> dimension_ok w \<Longrightarrow> row_ok w (row_from_cells row w colors)"
  using row_from_cells_ok [of row w colors] row_links [of row w]
  by (auto simp: row_ok_def dimension_ok_def GRID_MAX_DIMENSION_def)

lemma screen_of_sel: "sn_cols (screen_of e) = em_cols e" "sn_rows (screen_of e) = em_lines e"
  "sn_lines (screen_of e) = map (\<lambda>y. row_from_cells (em_screen e ! y) (em_cols e) (em_colors e)) [0..<em_lines e]"
  by (simp_all add: screen_of_def Let_def split: prod.split)

lemma screen_of_ok: "emulator_ok e \<Longrightarrow> screen_ok (screen_of e)"
proof -
  assume e: "emulator_ok e"
  have "gc_x (sn_cursor (screen_of e)) = min (fst (em_cursor e)) (em_cols e - 1)"
    "gc_y (sn_cursor (screen_of e)) = nat (max 0 (min (int (em_lines e) - 1) (snd (em_cursor e))))"
    by (simp_all add: screen_of_def Let_def split: prod.split)
  moreover have "0 < em_cols e" "0 < em_lines e" using e by (simp_all add: emulator_ok_def dimension_ok_def)
  ultimately show ?thesis
    using e row_from_cells_row_ok by (auto simp: screen_ok_def screen_of_sel emulator_ok_def)
qed

subsection \<open>Reading history\<close>

definition history_end :: "emulator \<Rightarrow> nat \<Rightarrow> nat" where
  "history_end e base = base + em_scrolled e"

definition history_start :: "emulator \<Rightarrow> nat \<Rightarrow> nat" where
  "history_start e base = history_end e base - length (em_history e)"

text \<open>The line of a number, in a numbering that starts at \<open>base\<close> when nothing has scrolled.\<close>

definition line_at :: "emulator \<Rightarrow> nat \<Rightarrow> nat \<Rightarrow> cell_row" where
  "line_at e base n = history_row e (history_end e base - n)"

lemma read_lines_ok:
  "n \<le> to \<Longrightarrow> \<exists>m. n \<le> m \<and> m \<le> to \<and> read_lines e end' to max_bytes n lines bytes
      = (lines @ map (\<lambda>i. history_row e (end' - i)) [n..<m], m) \<and> (n < to \<and> lines = [] \<longrightarrow> n < m)"
proof (induction e end' to max_bytes n lines bytes rule: read_lines.induct)
  case (1 e end' to max_bytes n lines bytes)
  show ?case
  proof (cases "n < to \<and> (lines = [] \<or> bytes < max_bytes)")
    case True
    let ?row = "history_row e (end' - n)"
    obtain m where m: "n + 1 \<le> m" "m \<le> to" "read_lines e end' to max_bytes (n + 1) (lines @ [?row]) (saturating_add bytes (row_bytes_estimate ?row))
      = ((lines @ [?row]) @ map (\<lambda>i. history_row e (end' - i)) [n + 1..<m], m)"
      using 1(1) [OF True refl] True by auto
    have "[n..<m] = n # [n + 1..<m]" using m(1) by (simp add: upt_conv_Cons)
    then show ?thesis using True m by (subst read_lines.simps) (auto simp: Let_def)
  next
    case False
    then show ?thesis using 1(2) by (subst read_lines.simps) auto
  qed
qed

lemma history_row_ok: "emulator_ok e \<Longrightarrow> 0 < up \<Longrightarrow> up \<le> length (em_history e) \<Longrightarrow> row_ok (em_history_cols e) (history_row e up)"
  using row_from_cells_row_ok by (auto simp: emulator_ok_def history_row_def)

text \<open>
  The client's history against an emulator's: consecutive numbers up to the cursor, from the oldest
  line held or as many as the client keeps, and every line still held is that line.
\<close>

definition history_shown :: "(grid_row \<Rightarrow> nat) \<Rightarrow> (grid_link \<Rightarrow> nat) \<Rightarrow> emulator \<Rightarrow> history_cursor \<Rightarrow> nat \<Rightarrow> (nat \<times> nat \<times> cell_row) list \<Rightarrow> bool" where
  "history_shown row_len link_len e h cap hist \<longleftrightarrow> (\<exists>base k.
     hc_numbering h = Some \<lparr>nu_layout = layout_of e (relayouts e), nu_base = base\<rparr>
     \<and> length (em_history e) \<le> history_end e base \<and> base \<le> 2 ^ 52 \<and> hc_next h \<le> history_end e base
     \<and> map fst hist = [k..<hc_next h] \<and> k \<le> hc_next h \<and> (length hist = cap \<or> k \<le> history_start e base)
     \<and> (\<forall>(n, w, r)\<in>set hist. history_start e base \<le> n \<longrightarrow> w = em_history_cols e \<and> gives_up row_len link_len r (line_at e base n)))"

lemma history_shown_at:
  assumes "history_shown row_len link_len e h cap hist" "hc_numbering h = Some \<lparr>nu_layout = layout, nu_base = base\<rparr>"
  shows "\<exists>k. map fst hist = [k..<hc_next h] \<and> k \<le> hc_next h \<and> (length hist = cap \<or> k \<le> history_start e base)
    \<and> length (em_history e) \<le> history_end e base
    \<and> (\<forall>(n, w, r)\<in>set hist. history_start e base \<le> n \<longrightarrow> w = em_history_cols e \<and> gives_up row_len link_len r (line_at e base n))"
proof -
  obtain base' k where "hc_numbering h = Some \<lparr>nu_layout = layout_of e (relayouts e), nu_base = base'\<rparr>"
     "length (em_history e) \<le> history_end e base'" "map fst hist = [k..<hc_next h]" "k \<le> hc_next h"
     "length hist = cap \<or> k \<le> history_start e base'"
     "\<forall>(n, w, r)\<in>set hist. history_start e base' \<le> n \<longrightarrow> w = em_history_cols e \<and> gives_up row_len link_len r (line_at e base' n)"
    using assms(1) unfolding history_shown_def by blast
  moreover from this(1) have "base' = base" using assms(2) by simp
  ultimately show ?thesis by blast
qed

text \<open>
  One layout of history: between two reads lines are only pushed and evicted, and a line held at
  both reads is the same line, as many further up as were pushed.
\<close>

definition same_lines :: "emulator \<Rightarrow> emulator \<Rightarrow> bool" where
  "same_lines e e' \<longleftrightarrow> em_scrolled e \<le> em_scrolled e'
     \<and> length (em_history e') \<le> length (em_history e) + (em_scrolled e' - em_scrolled e)
     \<and> em_history_cols e' = em_history_cols e
     \<and> (\<forall>up. 0 < up \<and> up \<le> length (em_history e) \<and> up + (em_scrolled e' - em_scrolled e) \<le> length (em_history e')
         \<longrightarrow> history_row e' (up + (em_scrolled e' - em_scrolled e)) = history_row e up)"

definition evolves :: "emulator \<Rightarrow> emulator \<Rightarrow> bool" where
  "evolves e e' \<longleftrightarrow> (layout_of e (relayouts e) = layout_of e' (relayouts e') \<longrightarrow> same_lines e e')"

lemma line_kept:
  assumes "same_lines e e'" "history_start e' base \<le> n" "n < history_end e base" "length (em_history e) \<le> history_end e base"
    "length (em_history e') \<le> history_end e' base"
  shows "history_start e base \<le> n \<and> line_at e' base n = line_at e base n"
proof -
  define d where "d = em_scrolled e' - em_scrolled e"
  have s: "em_scrolled e' = em_scrolled e + d" "length (em_history e') \<le> length (em_history e) + d"
    using assms(1) unfolding same_lines_def d_def by auto
  define up where "up = history_end e base - n"
  have n: "history_start e base \<le> n" using assms(2-5) s by (simp add: history_start_def history_end_def)
  have up: "0 < up" "up \<le> length (em_history e)" "up + d \<le> length (em_history e')"
    using assms(2-5) n s by (auto simp: up_def history_start_def history_end_def)
  have at: "history_end e' base - n = up + d" using assms(3) s(1) by (simp add: up_def history_end_def)
  have "history_row e' (up + d) = history_row e up" using assms(1) up unfolding same_lines_def d_def by blast
  then show ?thesis using n unfolding line_at_def at up_def [symmetric] by simp
qed

lemma start_mono:
  assumes "same_lines e e'" "length (em_history e) \<le> history_end e base"
  shows "length (em_history e') \<le> history_end e' base \<and> history_end e base \<le> history_end e' base
    \<and> history_start e base \<le> history_start e' base"
  using assms by (auto simp: same_lines_def history_end_def history_start_def)

text \<open>What one read gives: the lines from the first to the new cursor, in the numbering it goes by.\<close>

definition read_from :: "emulator \<Rightarrow> history_cursor \<Rightarrow> nat \<times> history_reset option \<times> nat" where
  "read_from e h = (case hc_numbering h of
     Some nu \<Rightarrow> if nu_layout nu = layout_of e (relayouts e)
       then (if hc_next h < history_start e (nu_base nu) then (nu_base nu, Some ResetEvicted, history_start e (nu_base nu))
         else (nu_base nu, None, hc_next h))
       else (let base = length (em_history e) - em_scrolled e in (base, Some ResetRelayout, history_start e base))
   | None \<Rightarrow> (let base = length (em_history e) - em_scrolled e in (base, None, history_start e base)))"

lemma read_within_ok:
  assumes "read_from e h = (base, reset, first')" "first' \<le> history_end e base" "first' < 2 ^ 63" "0 < max_lines"
  shows "\<exists>m lines. read_within e (relayouts e) max_lines max_bytes h
      = (\<lparr>hb_reset = reset, hb_first = first', hb_cols = em_history_cols e, hb_lines = lines, hb_end = history_end e base\<rparr>,
         \<lparr>hc_numbering = Some \<lparr>nu_layout = layout_of e (relayouts e), nu_base = base\<rparr>, hc_next = m\<rparr>)
    \<and> lines = map (line_at e base) [first'..<m] \<and> first' \<le> m \<and> m \<le> history_end e base
    \<and> (first' < history_end e base \<longrightarrow> first' < m)"
proof -
  define to where "to = min (history_end e base) (saturating_add first' max_lines)"
  have le: "first' \<le> to" "first' < history_end e base \<longrightarrow> first' < to"
    using assms(2-4) by (auto simp: to_def saturating_add_def)
  obtain m where m: "first' \<le> m" "m \<le> to" "first' < to \<longrightarrow> first' < m"
    "read_lines e (history_end e base) to max_bytes first' [] 0 = (map (line_at e base) [first'..<m], m)"
    using read_lines_ok [OF le(1), of e "history_end e base" max_bytes "[]" 0] by (auto simp: line_at_def)
  have "read_within e (relayouts e) max_lines max_bytes h
    = (let (lines, number) = read_lines e (history_end e base) to max_bytes first' [] 0 in
       (\<lparr>hb_reset = reset, hb_first = first', hb_cols = em_history_cols e, hb_lines = lines, hb_end = history_end e base\<rparr>,
        \<lparr>hc_numbering = Some \<lparr>nu_layout = layout_of e (relayouts e), nu_base = base\<rparr>, hc_next = number\<rparr>))"
  proof (cases "hc_numbering h")
    case None
    then show ?thesis using assms(1)
      by (auto simp: read_within_def read_from_def to_def history_start_def history_end_def Let_def split: prod.split)
  next
    case (Some nu)
    show ?thesis
    proof (cases "nu_layout nu = layout_of e (relayouts e)")
      case True
      then have nu: "nu = \<lparr>nu_layout = layout_of e (relayouts e), nu_base = nu_base nu\<rparr>" by simp
      show ?thesis using assms(1) Some True nu
        by (auto simp: read_within_def read_from_def to_def history_start_def history_end_def Let_def split: prod.split if_splits)
    next
      case False
      then show ?thesis using assms(1) Some
        by (auto simp: read_within_def read_from_def to_def history_start_def history_end_def Let_def split: prod.split)
    qed
  qed
  then show ?thesis using m le by (intro exI [of _ m]) (auto simp: to_def)
qed

text \<open>Which reads follow what the client has: none yet, or an earlier state of this emulator.\<close>

definition history_follows :: "(grid_row \<Rightarrow> nat) \<Rightarrow> (grid_link \<Rightarrow> nat) \<Rightarrow> emulator option \<Rightarrow> history_cursor \<Rightarrow> grid_client \<Rightarrow> bool" where
  "history_follows row_len link_len eo h c \<longleftrightarrow> length (gl_history c) \<le> gl_history_cap c
     \<and> (case eo of
          None \<Rightarrow> hc_numbering h = None \<and> gl_history c = [] \<and> sc_next_history_line (gl_check c) = None
        | Some e \<Rightarrow> history_shown row_len link_len e h (gl_history_cap c) (gl_history c)
            \<and> next_is (sc_next_history_line (gl_check c)) (hc_next h))"

definition line_shown :: "(grid_row \<Rightarrow> nat) \<Rightarrow> (grid_link \<Rightarrow> nat) \<Rightarrow> emulator \<Rightarrow> nat \<Rightarrow> nat \<times> nat \<times> cell_row \<Rightarrow> bool" where
  "line_shown row_len link_len e base = (\<lambda>(n, w, r). history_start e base \<le> n \<longrightarrow>
     w = em_history_cols e \<and> gives_up row_len link_len r (line_at e base n))"

lemma read_from_ok:
  assumes "history_follows row_len link_len eo h c" "\<forall>e0. eo = Some e0 \<longrightarrow> evolves e0 e" "emulator_ok e"
    and "read_from e h = (base, reset, first')"
  shows "base \<le> 2 ^ 52" "length (em_history e) \<le> history_end e base" "first' \<le> history_end e base"
    and "\<exists>k. map fst (if reset = None then gl_history c else []) = [k..<first'] \<and> k \<le> first'
      \<and> (length (if reset = None then gl_history c else []) = gl_history_cap c \<or> k \<le> history_start e base)
      \<and> (\<forall>x\<in>set (if reset = None then gl_history c else []). line_shown row_len link_len e base x)"
    and "reset = None \<Longrightarrow> next_is (sc_next_history_line (gl_check c)) first'"
proof -
  have len: "length (em_history e) \<le> 2 ^ 52" using assms(3) by (simp add: emulator_ok_def)
  note H = assms(1) [unfolded history_follows_def]
  have "base \<le> 2 ^ 52 \<and> length (em_history e) \<le> history_end e base \<and> first' \<le> history_end e base
    \<and> (\<exists>k. map fst (if reset = None then gl_history c else []) = [k..<first'] \<and> k \<le> first'
      \<and> (length (if reset = None then gl_history c else []) = gl_history_cap c \<or> k \<le> history_start e base)
      \<and> (\<forall>x\<in>set (if reset = None then gl_history c else []). line_shown row_len link_len e base x))
    \<and> (reset = None \<longrightarrow> next_is (sc_next_history_line (gl_check c)) first')"
  proof (cases "\<exists>nu. hc_numbering h = Some nu \<and> nu_layout nu = layout_of e (relayouts e)")
    case False
    then have R: "base = length (em_history e) - em_scrolled e" "first' = history_start e base" "reset = None \<longleftrightarrow> hc_numbering h = None"
      using assms(4) by (auto simp: read_from_def Let_def split: option.splits if_splits)
    have E: "(if reset = None then gl_history c else []) = []"
      using H R(3) by (auto simp: history_shown_def split: option.splits)
    have "reset = None \<longrightarrow> sc_next_history_line (gl_check c) = None"
      using H R(3) by (auto simp: history_shown_def split: option.splits)
    then show ?thesis unfolding E using R(1,2) len
      by (auto simp: history_start_def history_end_def next_is_def intro: exI [of _ first'])
  next
    case True
    then obtain nu where nu: "hc_numbering h = Some nu" "nu_layout nu = layout_of e (relayouts e)" by blast
    then obtain e0 where e0: "eo = Some e0" using H by (cases eo) auto
    then obtain k where S: "layout_of e (relayouts e) = layout_of e0 (relayouts e0)" "length (em_history e0) \<le> history_end e0 (nu_base nu)"
      "nu_base nu \<le> 2 ^ 52" "hc_next h \<le> history_end e0 (nu_base nu)" "map fst (gl_history c) = [k..<hc_next h]" "k \<le> hc_next h"
      "length (gl_history c) = gl_history_cap c \<or> k \<le> history_start e0 (nu_base nu)"
      "\<forall>(n, w, r)\<in>set (gl_history c). history_start e0 (nu_base nu) \<le> n \<longrightarrow> w = em_history_cols e0 \<and> gives_up row_len link_len r (line_at e0 (nu_base nu) n)"
      and nx: "next_is (sc_next_history_line (gl_check c)) (hc_next h)"
      using H nu by (auto simp: history_shown_def)
    have L: "same_lines e0 e" using assms(2) e0 S(1) by (simp add: evolves_def)
    note M = start_mono [OF L S(2)]
    show ?thesis
    proof (cases "hc_next h < history_start e (nu_base nu)")
      case True
      then have R: "base = nu_base nu" "reset = Some ResetEvicted" "first' = history_start e base"
        using assms(4) nu by (auto simp: read_from_def)
      then show ?thesis using M S(3) by (auto simp: history_start_def intro: exI [of _ first'])
    next
      case False
      then have R: "base = nu_base nu" "reset = None" "first' = hc_next h" using assms(4) nu by (auto simp: read_from_def)
      have "line_shown row_len link_len e base x" if x: "x \<in> set (gl_history c)" for x
      proof -
        obtain n w r where [simp]: "x = (n, w, r)" by (cases x)
        have "n \<in> set (map fst (gl_history c))" using x by force
        then have n: "n < history_end e0 base" using S(4,5) R(1) by simp
        show ?thesis
          using line_kept [OF L _ n] S(2,8) M x R(1) L by (auto simp: line_shown_def same_lines_def)
      qed
      moreover have "k \<le> history_start e0 base \<longrightarrow> k \<le> history_start e base" using M R(1) by simp
      ultimately show ?thesis using M S(3-7) nx R by (auto intro!: exI [of _ k])
    qed
  qed
  then show "base \<le> 2 ^ 52" "length (em_history e) \<le> history_end e base" "first' \<le> history_end e base"
    "\<exists>k. map fst (if reset = None then gl_history c else []) = [k..<first'] \<and> k \<le> first'
      \<and> (length (if reset = None then gl_history c else []) = gl_history_cap c \<or> k \<le> history_start e base)
      \<and> (\<forall>x\<in>set (if reset = None then gl_history c else []). line_shown row_len link_len e base x)"
    "reset = None \<Longrightarrow> next_is (sc_next_history_line (gl_check c)) first'" by blast+
qed

lemma kept_history:
  assumes "map fst hist = [k..<n]" "k \<le> n" "length hist = cap \<or> k \<le> start" "length hist \<le> cap" "\<forall>x\<in>set hist. P x"
    and "map fst new = [n..<m]" "n \<le> m" "\<forall>x\<in>set new. P x"
  shows "\<exists>k'. map fst (kept_lines cap (hist @ new)) = [k'..<m] \<and> k' \<le> m
    \<and> (length (kept_lines cap (hist @ new)) = cap \<or> k' \<le> start) \<and> (\<forall>x\<in>set (kept_lines cap (hist @ new)). P x)"
proof -
  define d where "d = length (hist @ new) - cap"
  have full: "map fst (hist @ new) = [k..<m]" using assms(1,2,6,7) upt_add_eq_append [of k n "m - n"] by simp
  then have len: "length (hist @ new) = m - k" by (metis length_map length_upt)
  have "map fst (kept_lines cap (hist @ new)) = [k + d..<m]"
    unfolding kept_lines_def d_def [symmetric] drop_map [symmetric] full by simp
  moreover have "k + d \<le> m" using len assms(2,7) by (simp add: d_def)
  moreover have "length (kept_lines cap (hist @ new)) = cap \<or> k + d \<le> start"
    using assms(3,4) by (auto simp: kept_lines_def d_def)
  moreover have "\<forall>x\<in>set (kept_lines cap (hist @ new)). P x"
    using assms(5,8) by (auto simp: kept_lines_def dest: in_set_dropD)
  ultimately show ?thesis by blast
qed

lemma enumerate_fst: "map fst (map (\<lambda>(i, r). (i, w, r)) (enumerate n xs)) = [n..<n + length xs]"
  by (simp add: comp_def case_prod_unfold)

lemma read_run:
  assumes f: "history_follows row_len link_len eo h c" "\<forall>e0. eo = Some e0 \<longrightarrow> evolves e0 e" and e: "emulator_ok e"
    and go: "read_within e (relayouts e) max_lines max_bytes h = (batch, h')" "0 < max_lines" and idle: "idle (gl_check c)"
  shows "\<exists>hist nxt c'. c' = c\<lparr>gl_check := (gl_check c)\<lparr>sc_next_history_line := nxt\<rparr>, gl_history := hist\<rparr>
    \<and> client_run (send_history row_len link_len batch) c = Some c' \<and> history_follows row_len link_len (Some e) h' c'
    \<and> hb_end batch = hc_next h' + owed batch \<and> (\<exists>base. hc_numbering h' = Some \<lparr>nu_layout = layout_of e (relayouts e), nu_base = base\<rparr>
        \<and> hb_end batch = history_end e base)"
proof -
  obtain base reset first' where rf: "read_from e h = (base, reset, first')" by (cases "read_from e h") auto
  note R = read_from_ok [OF f e rf]
  have fin: "history_end e base \<le> 2 ^ 53" using R(1) e by (simp add: history_end_def emulator_ok_def)
  then have "first' < 2 ^ 63" using R(3) by simp
  from read_within_ok [OF rf R(3) this go(2), of max_bytes] obtain m lines where
    B: "batch = \<lparr>hb_reset = reset, hb_first = first', hb_cols = em_history_cols e, hb_lines = lines, hb_end = history_end e base\<rparr>"
    "h' = \<lparr>hc_numbering = Some \<lparr>nu_layout = layout_of e (relayouts e), nu_base = base\<rparr>, hc_next = m\<rparr>"
    "lines = map (line_at e base) [first'..<m]" "first' \<le> m" "m \<le> history_end e base"
    using go(1) by auto
  define hist where "hist = (if reset = None then gl_history c else [])"
  obtain k where K: "map fst hist = [k..<first']" "k \<le> first'" "length hist = gl_history_cap c \<or> k \<le> history_start e base"
    "\<forall>x\<in>set hist. line_shown row_len link_len e base x" using R(4) unfolding hist_def by blast
  have cap: "length hist \<le> gl_history_cap c" using f(1) by (simp add: hist_def history_follows_def)
  define nxt0 where "nxt0 = (if reset = None then sc_next_history_line (gl_check c) else None)"
  define c1 where "c1 = c\<lparr>gl_check := (gl_check c)\<lparr>sc_next_history_line := nxt0\<rparr>, gl_history := hist\<rparr>"
  have first: "client_run (if hb_reset batch \<noteq> None then [GridHistoryReset] else []) c = Some c1"
    using idle by (auto simp: B(1) c1_def hist_def nxt0_def client_apply_def stream_accept_def idle_def)
  have fresh: "\<forall>row\<in>set lines. row_ok (em_history_cols e) row"
  proof
    fix row assume "row \<in> set lines"
    then obtain n where n: "row = line_at e base n" "n < m" "k \<le> n" "first' \<le> n" using B(3) K(2) by auto
    have "history_start e base \<le> first'"
      using rf by (auto simp: read_from_def Let_def split: option.splits if_splits)
    then have "0 < history_end e base - n" "history_end e base - n \<le> length (em_history e)"
      using n B(5) by (auto simp: history_start_def)
    then show "row_ok (em_history_cols e) row" unfolding n(1) line_at_def by (rule history_row_ok [OF e])
  qed
  obtain sent where S: "concat (map message_lines (history_messages row_len link_len first' (em_history_cols e) lines))
      = map (\<lambda>(i, r). (i, em_history_cols e, Some r)) (enumerate first' sent)"
    "list_all2 (gives_up row_len link_len) sent lines"
    "chained first' (history_messages row_len link_len first' (em_history_cols e) lines) (first' + length lines)"
    "\<forall>m\<in>set (history_messages row_len link_len first' (em_history_cols e) lines). history_message_ok row_len link_len
       (index_cost row_len \<and> (\<forall>row\<in>set lines. row_sendable row_len link_len row)) (em_history_cols e) m"
    by (rule history_messages_ok [OF fresh])
  have lens: "length lines = m - first'" "length sent = m - first'" using B(3) list_all2_lengthD [OF S(2)] by simp_all
  have "\<exists>nxt. client_run (history_messages row_len link_len first' (em_history_cols e) lines) c1
      = Some (c1\<lparr>gl_check := (gl_check c1)\<lparr>sc_next_history_line := nxt\<rparr>,
        gl_history := kept_lines (gl_history_cap c1) (gl_history c1 @ map (\<lambda>(i, r). (i, em_history_cols e, r)) (enumerate first' sent))\<rparr>)
      \<and> next_is nxt (first' + length lines)"
  proof (rule history_run [OF S(4) S(3) S(1)])
    show "dimension_ok (em_history_cols e)" using e by (simp add: emulator_ok_def)
    show "first' + length lines \<le> GRID_MAX_LINE_NUMBER + 1" using lens(1) B(4,5) fin by (simp add: GRID_MAX_LINE_NUMBER_def)
    show "idle (gl_check c1)" using idle by (simp add: c1_def idle_def)
    show "next_is (sc_next_history_line (gl_check c1)) first'" using R(5) by (simp add: c1_def nxt0_def next_is_def)
    show "length (gl_history c1) \<le> gl_history_cap c1" using cap by (simp add: c1_def)
  qed
  then obtain nxt where N: "client_run (history_messages row_len link_len first' (em_history_cols e) lines) c1
      = Some (c1\<lparr>gl_check := (gl_check c1)\<lparr>sc_next_history_line := nxt\<rparr>,
        gl_history := kept_lines (gl_history_cap c1) (gl_history c1 @ map (\<lambda>(i, r). (i, em_history_cols e, r)) (enumerate first' sent))\<rparr>)"
    "next_is nxt m" using lens B(4) by auto
  define new where "new = map (\<lambda>(i, r). (i, em_history_cols e, r)) (enumerate first' sent)"
  define hist' where "hist' = kept_lines (gl_history_cap c) (hist @ new)"
  have new_fst: "map fst new = [first'..<m]" unfolding new_def enumerate_fst using lens(2) B(4) by simp
  have new_ok: "\<forall>x\<in>set new. line_shown row_len link_len e base x"
  proof
    fix x assume "x \<in> set new"
    then obtain i where i: "i < length sent" "x = (first' + i, em_history_cols e, sent ! i)"
      by (auto simp: new_def in_set_conv_nth enumerate_eq_zip)
    have "gives_up row_len link_len (sent ! i) (lines ! i)" using S(2) i(1) by (rule list_all2_nthD)
    then show "line_shown row_len link_len e base x" using i lens by (simp add: line_shown_def B(3))
  qed
  obtain k' where K': "map fst hist' = [k'..<m]" "k' \<le> m" "length hist' = gl_history_cap c \<or> k' \<le> history_start e base"
    "\<forall>x\<in>set hist'. line_shown row_len link_len e base x"
    using kept_history [OF K(1-3) cap K(4) new_fst B(4) new_ok] unfolding hist'_def by blast
  define c' where "c' = c\<lparr>gl_check := (gl_check c)\<lparr>sc_next_history_line := nxt\<rparr>, gl_history := hist'\<rparr>"
  have run: "client_run (send_history row_len link_len batch) c = Some c'"
    unfolding send_history_def client_run_append first using N(1) by (simp add: B(1) c1_def c'_def hist'_def new_def)
  have "history_shown row_len link_len e h' (gl_history_cap c) hist'"
    unfolding history_shown_def using K' R(1,2) B(2,5)
    by (intro exI [of _ base] exI [of _ k']) (auto simp: line_shown_def)
  moreover have "length hist' \<le> gl_history_cap c" unfolding hist'_def by (rule kept_lines_le)
  ultimately have "history_follows row_len link_len (Some e) h' c'"
    using N(2) B(2) by (simp add: history_follows_def c'_def)
  moreover have "hb_end batch = hc_next h' + owed batch" using B(4,5) lens(1) by (simp add: B(1,2) owed_def)
  ultimately show ?thesis using run B(1,2) by (intro exI [of _ hist'] exI [of _ nxt] exI [of _ c']) (simp add: c'_def)
qed

subsection \<open>The sender and its client\<close>

lemma state_valid: "validate_output (GridState (with_exit (terminal_state_of e) liveness)) = Inr ()"
  by (auto simp: with_exit_def terminal_state_of_def not_direct_def rgb_color_def try_all_eq_Inr split: option.splits prod.splits)

lemma state_run:
  assumes "sc_started (gl_check c)" "sc_clipboard (gl_check c) = None" "\<not> sc_update_open (gl_check c)"
  shows "client_apply (GridState (with_exit (terminal_state_of e) liveness)) c
    = Some (c\<lparr>gl_check := (gl_check c)\<lparr>sc_has_state := True\<rparr>, gl_state := Some (with_exit (terminal_state_of e) liveness)\<rparr>)"
proof -
  have "stream_accept (GridState s) (gl_check c) = (Inr (), (gl_check c)\<lparr>sc_has_state := True\<rparr>)" for s
    using assms by (cases "sc_has_state (gl_check c)") (auto simp: stream_accept_def)
  then show ?thesis by (simp add: client_apply_def state_valid del: validate_output.simps)
qed

text \<open>What the client has of an emulator's screen and state.\<close>

definition shows_terminal :: "(grid_row \<Rightarrow> nat) \<Rightarrow> (grid_link \<Rightarrow> nat) \<Rightarrow> emulator \<Rightarrow> liveness \<Rightarrow> grid_client \<Rightarrow> bool" where
  "shows_terminal row_len link_len e liveness c \<longleftrightarrow> gl_cols c = em_cols e \<and> gl_rows c = em_lines e
     \<and> list_all2 (gives_up row_len link_len) (gl_screen c) (sn_lines (screen_of e)) \<and> gl_cursor c = Some (sn_cursor (screen_of e))
     \<and> gl_state c = Some (with_exit (terminal_state_of e) liveness)"

text \<open>
  The relation kept between the sender and its client: \<open>es\<close> are the emulators read so far. When
  nothing is owed or put off, the client has every line of the last one read.
\<close>

definition all_sent :: "emulator \<Rightarrow> history_cursor \<Rightarrow> bool" where
  "all_sent e h \<longleftrightarrow> (\<exists>base. hc_numbering h = Some \<lparr>nu_layout = layout_of e (relayouts e), nu_base = base\<rparr>
     \<and> hc_next h = history_end e base)"

definition history_in_step :: "(grid_row \<Rightarrow> nat) \<Rightarrow> (grid_link \<Rightarrow> nat) \<Rightarrow> emulator list \<Rightarrow> grid_sender \<Rightarrow> grid_client \<Rightarrow> bool" where
  "history_in_step row_len link_len es s c \<longleftrightarrow> (\<exists>e\<in>set es. history_follows row_len link_len (Some e) (gs_history s) c
     \<and> (\<not> gs_history_owed s \<and> gs_relayout s = None \<longrightarrow> e = last es \<and> all_sent e (gs_history s)))"

definition started_inv :: "(grid_row \<Rightarrow> nat) \<Rightarrow> (grid_link \<Rightarrow> nat) \<Rightarrow> nat \<Rightarrow> emulator list \<Rightarrow> grid_sender \<Rightarrow> sent_screen \<Rightarrow> grid_client \<Rightarrow> bool" where
  "started_inv row_len link_len scrollback es s sent c \<longleftrightarrow> idle (gl_check c) \<and> gl_partial c = None
     \<and> gl_history_cap c = min scrollback GRID_MAX_HISTORY_CAP \<and> gl_state c = gs_sent_state s
     \<and> showing row_len link_len sent c \<and> ss_rev sent \<le> length es \<and> history_in_step row_len link_len es s c"

definition sender_inv :: "(grid_row \<Rightarrow> nat) \<Rightarrow> (grid_link \<Rightarrow> nat) \<Rightarrow> nat \<Rightarrow> emulator list \<Rightarrow> grid_sender \<Rightarrow> grid_client \<Rightarrow> bool" where
  "sender_inv row_len link_len scrollback es s c \<longleftrightarrow>
     (case gs_clipboard s of Some txt \<Rightarrow> chars_ok txt | None \<Rightarrow> True)
     \<and> (case gs_screen s of
          None \<Rightarrow> es = [] \<and> c = client_new \<and> gs_history s = history_cursor_new \<and> gs_target s = None \<and> gs_relayout s = None
        | Some sent \<Rightarrow> started_inv row_len link_len scrollback es s sent c)"

lemma sender_inv_new: "sender_inv row_len link_len scrollback [] sender_new client_new"
  by (simp add: sender_inv_def sender_new_def)

text \<open>The attach's first read.\<close>

lemma hello_run:
  assumes "dimension_ok w" "dimension_ok h"
  shows "client_run [GridHello w h (min scrollback GRID_MAX_HISTORY_CAP), GridState (with_exit (terminal_state_of e) liveness)] client_new
    = Some (client_new\<lparr>gl_check := check_new\<lparr>sc_started := True, sc_has_state := True\<rparr>, gl_cols := w, gl_rows := h,
        gl_history_cap := min scrollback GRID_MAX_HISTORY_CAP, gl_screen := blank_rows h,
        gl_state := Some (with_exit (terminal_state_of e) liveness)\<rparr>)"
proof -
  define c where "c = client_new\<lparr>gl_check := check_new\<lparr>sc_started := True\<rparr>, gl_cols := w, gl_rows := h,
        gl_history_cap := min scrollback GRID_MAX_HISTORY_CAP, gl_screen := blank_rows h\<rparr>"
  have "client_apply (GridHello w h (min scrollback GRID_MAX_HISTORY_CAP)) client_new = Some c"
    using assms by (simp add: client_apply_def validate_size_def stream_accept_def c_def client_new_def check_new_def)
  moreover have "client_apply (GridState (with_exit (terminal_state_of e) liveness)) c
      = Some (c\<lparr>gl_check := (gl_check c)\<lparr>sc_has_state := True\<rparr>, gl_state := Some (with_exit (terminal_state_of e) liveness)\<rparr>)"
    by (rule state_run) (simp_all add: c_def client_new_def check_new_def)
  ultimately show ?thesis by (simp add: c_def client_new_def)
qed

text \<open>A batch of the catch-up, after it was read.\<close>

lemma catch_up_batch_run:
  assumes f: "history_follows row_len link_len eo (gs_history s0) c" "\<forall>e0. eo = Some e0 \<longrightarrow> evolves e0 e" and e: "emulator_ok e"
    and go: "read_history e (relayouts e) CATCH_UP_LINES (gs_history s0) = (batch, h')" "catch_up_batch row_len link_len target batch s = (out, s')"
    and s: "gs_history s = h'" "gs_screen s = Some sent"
    and c: "idle (gl_check c)" "gl_partial c = None" "gl_history_cap c = min scrollback GRID_MAX_HISTORY_CAP" "gl_state c = gs_sent_state s"
      "showing row_len link_len sent c" "ss_rev sent \<le> Suc (length es)"
  shows "\<exists>c' nxt hist. client_run out c = Some c' \<and> started_inv row_len link_len scrollback (es @ [e]) s' sent c' \<and> gs_screen s' = Some sent
    \<and> c' = c\<lparr>gl_check := (gl_check c)\<lparr>sc_next_history_line := nxt\<rparr>, gl_history := hist\<rparr> \<and> gs_clipboard s' = gs_clipboard s"
proof -
  obtain hist nxt c' base where R: "c' = c\<lparr>gl_check := (gl_check c)\<lparr>sc_next_history_line := nxt\<rparr>, gl_history := hist\<rparr>"
    "client_run (send_history row_len link_len batch) c = Some c'" "history_follows row_len link_len (Some e) h' c'"
    "hb_end batch = hc_next h' + owed batch" "hc_numbering h' = Some \<lparr>nu_layout = layout_of e (relayouts e), nu_base = base\<rparr>"
    "hb_end batch = history_end e base"
    using read_run [OF f e go(1) [unfolded read_history_def] _ c(1)] by (auto simp: CATCH_UP_LINES_def)
  have out: "out = send_history row_len link_len batch" and s': "s' = s\<lparr>gs_history_owed := (0 < owed batch),
        gs_target := (if target \<le> hc_next (gs_history s) then None else Some target)\<rparr>"
    using go(2) by (simp_all add: catch_up_batch_def)
  have "idle (gl_check c')" "showing row_len link_len sent c'" using c(1,5) by (simp_all add: R(1) idle_def showing_def)
  moreover have "history_in_step row_len link_len (es @ [e]) s' c'"
    using R(3-6) s(1) by (auto simp: history_in_step_def s' all_sent_def)
  ultimately show ?thesis using R(1,2) c s out by (intro exI [of _ c']) (auto simp: started_inv_def s')
qed

lemma attach_run:
  assumes inv: "sender_inv row_len link_len scrollback es s c" "gs_screen s = None" and e: "emulator_ok e"
    and go: "catch_up row_len link_len scrollback e liveness s = (out, s')"
  shows "\<exists>c'. client_run out c = Some c' \<and> sender_inv row_len link_len scrollback (es @ [e]) s' c' \<and> shows_terminal row_len link_len e liveness c'"
proof -
  have new: "es = []" "c = client_new" "gs_history s = history_cursor_new" using inv by (simp_all add: sender_inv_def)
  obtain batch h' where read: "read_history e (relayouts e) CATCH_UP_LINES (gs_history s) = (batch, h')"
    by (cases "read_history e (relayouts e) CATCH_UP_LINES (gs_history s)")
  obtain u sent where up: "sent_update row_len link_len (screen_of e) 0 (after_hello (em_cols e) (em_lines e)) = (u, sent)"
    by (cases "sent_update row_len link_len (screen_of e) 0 (after_hello (em_cols e) (em_lines e))")
  have "u \<noteq> None" using up by (auto simp: sent_update_def after_hello_def Let_def split: prod.splits if_splits)
  then obtain ms where u: "u = Some ms" by blast
  let ?state = "with_exit (terminal_state_of e) liveness"
  define s1 where "s1 = s\<lparr>gs_history := h', gs_sent_state := Some ?state, gs_screen := Some sent\<rparr>"
  obtain out' where batch: "catch_up_batch row_len link_len (hb_end batch) batch s1 = (out', s')"
    and out: "out = [GridHello (em_cols e) (em_lines e) (min scrollback GRID_MAX_HISTORY_CAP), GridState ?state] @ ms @ out'"
    using go by (auto simp: catch_up_def read screen_of_sel up u s1_def Let_def split: prod.splits)
  have dims: "dimension_ok (em_cols e)" "dimension_ok (em_lines e)" using e by (simp_all add: emulator_ok_def)
  define c1 where "c1 = client_new\<lparr>gl_check := check_new\<lparr>sc_started := True, sc_has_state := True\<rparr>, gl_cols := em_cols e, gl_rows := em_lines e,
        gl_history_cap := min scrollback GRID_MAX_HISTORY_CAP, gl_screen := blank_rows (em_lines e), gl_state := Some ?state\<rparr>"
  have idle1: "idle (gl_check c1)" by (simp add: c1_def idle_def check_new_def)
  have show1: "showing row_len link_len (after_hello (em_cols e) (em_lines e)) c1"
    by (auto simp: showing_def c1_def after_hello_def client_new_def check_new_def blank_rows_def list_all2_conv_all_nth)
  obtain c2 where U: "client_run ms c1 = Some c2" "showing row_len link_len sent c2" "idle (gl_check c2)" "same_besides_screen c1 c2"
    "ss_cols sent = em_cols e" "ss_rows sent = em_lines e" "ss_lines sent = sn_lines (screen_of e)"
    "ss_cursor sent = Some (sn_cursor (screen_of e))" "ss_rev sent \<le> 1"
    using update_run [OF show1 idle1 screen_of_ok [OF e] _ up] by (auto simp: u after_hello_def screen_of_sel GRID_MAX_LINE_NUMBER_def)
  have keep: "gl_partial c2 = None" "gl_history_cap c2 = min scrollback GRID_MAX_HISTORY_CAP" "gl_state c2 = Some ?state"
    "gl_history c2 = []" "sc_next_history_line (gl_check c2) = None"
    using U(4) by (simp_all add: same_besides_screen_def c1_def client_new_def check_new_def)
  have "history_follows row_len link_len None (gs_history s) c2" using new(3) keep by (simp add: history_follows_def history_cursor_new_def)
  from catch_up_batch_run [OF this _ e read batch, of sent scrollback "[]"] obtain c' nxt hist where
    B: "client_run out' c2 = Some c'" "started_inv row_len link_len scrollback [e] s' sent c'" "gs_screen s' = Some sent"
      "c' = c2\<lparr>gl_check := (gl_check c2)\<lparr>sc_next_history_line := nxt\<rparr>, gl_history := hist\<rparr>" "gs_clipboard s' = gs_clipboard s1"
    using keep U by (auto simp: s1_def)
  have "client_run out c = Some c'"
    using hello_run [OF dims, of scrollback e liveness] U(1) B(1)
    unfolding out new(2) client_run_append c1_def [symmetric] by simp
  moreover have "sender_inv row_len link_len scrollback (es @ [e]) s' c'"
    using B(2,3,5) inv(1) new(1) by (simp add: sender_inv_def s1_def)
  moreover have "shows_terminal row_len link_len e liveness c'"
    using U(2,5-8) keep(3) by (simp add: shows_terminal_def B(4) showing_def)
  ultimately show ?thesis by blast
qed

lemma catch_up_next_run:
  assumes inv: "sender_inv row_len link_len scrollback es s c" "gs_screen s = Some sent" and e: "emulator_ok e" "\<forall>e0\<in>set es. evolves e0 e"
    and go: "catch_up_next row_len link_len target e s = (out, s')"
  shows "\<exists>c'. client_run out c = Some c' \<and> sender_inv row_len link_len scrollback (es @ [e]) s' c'"
proof -
  have S: "started_inv row_len link_len scrollback es s sent c" using inv by (simp add: sender_inv_def)
  then obtain e0 where e0: "e0 \<in> set es" "history_follows row_len link_len (Some e0) (gs_history s) c"
    by (auto simp: started_inv_def history_in_step_def)
  obtain moved layout where mv: "layout_moved e (relayouts e) (gs_history s) = (moved, layout)"
    by (cases "layout_moved e (relayouts e) (gs_history s)")
  show ?thesis
  proof (cases moved)
    case True
    then have "out = []" "s' = s\<lparr>gs_history_owed := True, gs_target := None\<rparr>" using go by (simp_all add: catch_up_next_def mv)
    moreover from this have "history_in_step row_len link_len (es @ [e]) s' c" using e0 by (auto simp: history_in_step_def)
    ultimately show ?thesis using S inv by (auto simp: sender_inv_def started_inv_def)
  next
    case False
    obtain batch h' where read: "read_history e (relayouts e) CATCH_UP_LINES (gs_history s) = (batch, h')"
      by (cases "read_history e (relayouts e) CATCH_UP_LINES (gs_history s)")
    have batch: "catch_up_batch row_len link_len target batch (s\<lparr>gs_history := h'\<rparr>) = (out, s')"
      using go False by (simp add: catch_up_next_def mv read)
    have "\<exists>c' nxt hist. client_run out c = Some c' \<and> started_inv row_len link_len scrollback (es @ [e]) s' sent c' \<and> gs_screen s' = Some sent
      \<and> c' = c\<lparr>gl_check := (gl_check c)\<lparr>sc_next_history_line := nxt\<rparr>, gl_history := hist\<rparr> \<and> gs_clipboard s' = gs_clipboard (s\<lparr>gs_history := h'\<rparr>)"
      by (rule catch_up_batch_run [OF e0(2) _ e(1) read batch])
        (use S e0(1) e(2) inv(2) in \<open>auto simp: started_inv_def\<close>)
    then show ?thesis using inv by (auto simp: sender_inv_def)
  qed
qed

subsection \<open>A live cycle\<close>

definition notice_ok :: "notice \<Rightarrow> bool" where
  "notice_ok n = (case n of NoticeClipboard t txt \<Rightarrow> chars_ok txt | OtherNotice \<Rightarrow> True)"

lemma drain_same: "\<exists>x. drain_notices ns s = s\<lparr>gs_clipboard := x\<rparr>"
proof (induction ns arbitrary: s)
  case (Cons n ns)
  obtain x where x: "stash n s = s\<lparr>gs_clipboard := x\<rparr>"
  proof (cases n)
    case (NoticeClipboard target str)
    then show thesis
      using that [of "if clipboard_target_of target = Clipboard then Some str else gs_clipboard s"] by (simp add: stash_def)
  next
    case OtherNotice
    then show thesis using that [of "gs_clipboard s"] by (simp add: stash_def)
  qed
  then show ?case using Cons.IH [of "stash n s"] by (auto simp: drain_notices_def)
next
  case Nil
  show ?case by (rule exI [of _ "gs_clipboard s"]) (simp add: drain_notices_def)
qed

lemma stash_ok: "notice_ok n \<Longrightarrow> (case gs_clipboard s of Some txt \<Rightarrow> chars_ok txt | None \<Rightarrow> True) \<Longrightarrow>
    (case gs_clipboard (stash n s) of Some txt \<Rightarrow> chars_ok txt | None \<Rightarrow> True)"
  by (auto simp: stash_def notice_ok_def split: notice.splits)

lemma drain_ok: "\<forall>n\<in>set ns. notice_ok n \<Longrightarrow> (case gs_clipboard s of Some txt \<Rightarrow> chars_ok txt | None \<Rightarrow> True) \<Longrightarrow>
    (case gs_clipboard (drain_notices ns s) of Some txt \<Rightarrow> chars_ok txt | None \<Rightarrow> True)"
proof (induction ns arbitrary: s)
  case (Cons n ns)
  then show ?case using stash_ok [of n s] by (simp add: drain_notices_def)
qed (simp add: drain_notices_def)

lemma stash_inv: "notice_ok n \<Longrightarrow> sender_inv row_len link_len scrollback es s c \<Longrightarrow> sender_inv row_len link_len scrollback es (stash n s) c"
proof -
  assume a: "notice_ok n" "sender_inv row_len link_len scrollback es s c"
  have "stash n s = drain_notices [n] s" by (simp add: drain_notices_def)
  then obtain x where x: "stash n s = s\<lparr>gs_clipboard := x\<rparr>" using drain_same [of "[n]" s] by auto
  have "history_in_step row_len link_len es (s\<lparr>gs_clipboard := x\<rparr>) c = history_in_step row_len link_len es s c"
    by (simp add: history_in_step_def)
  then show ?thesis using a stash_ok [OF a(1), of s] unfolding x
    by (simp add: sender_inv_def started_inv_def split: option.splits)
qed

definition written :: "byte list list option \<Rightarrow> (clipboard_target \<times> byte list) list" where
  "written clip = (case clip of
     Some txt \<Rightarrow> if GRID_MAX_CLIPBOARD_BYTES < length (concat txt) then [] else [(Clipboard, concat txt)] | None \<Rightarrow> [])"

lemma idle_has_state: "idle chk \<Longrightarrow> chk\<lparr>sc_has_state := True\<rparr> = chk"
  by (cases chk) (simp add: idle_def)

text \<open>The history part of a cycle: read and sent, or put off while the layout settles.\<close>

lemma cycle_history_run:
  assumes f: "history_follows row_len link_len (Some e0) (gs_history s) c" "evolves e0 e" "e0 \<in> set es" and e: "emulator_ok e" and idle: "idle (gl_check c)"
    and go: "read_capture now e s = (capture, h')"
  shows "\<exists>c' nxt hist. client_run (case cap_batch capture of Some batch \<Rightarrow> send_history row_len link_len batch | None \<Rightarrow> []) c = Some c'
    \<and> c' = c\<lparr>gl_check := (gl_check c)\<lparr>sc_next_history_line := nxt\<rparr>, gl_history := hist\<rparr>
    \<and> (\<exists>e1\<in>set (es @ [e]). history_follows row_len link_len (Some e1) h' c'
        \<and> (\<not> (case cap_batch capture of Some batch \<Rightarrow> 0 < owed batch | None \<Rightarrow> False)
            \<and> note_relayout now capture (gs_relayout s) = None \<longrightarrow> e1 = e \<and> all_sent e h'))"
proof (cases "cap_batch capture")
  case None
  then have h: "h' = gs_history s" and moved: "\<exists>layout. cap_moved_to capture = Some layout"
    using go by (auto simp: read_capture_def Let_def split: prod.splits if_splits)
  have same: "c = c\<lparr>gl_check := (gl_check c)\<lparr>sc_next_history_line := sc_next_history_line (gl_check c)\<rparr>, gl_history := gl_history c\<rparr>" by simp
  have relayout: "note_relayout now capture (gs_relayout s) \<noteq> None" using None moved by (auto simp: note_relayout_def)
  show ?thesis
    by (rule exI [of _ c], rule exI [of _ "sc_next_history_line (gl_check c)"], rule exI [of _ "gl_history c"])
      (use None h f(1,3) relayout in auto)
next
  case (Some batch)
  then have read: "read_within e (relayouts e) LIVE_HISTORY_LINES LIVE_HISTORY_BYTES (gs_history s) = (batch, h')"
    using go by (auto simp: read_capture_def Let_def split: prod.splits if_splits)
  obtain hist nxt c' base where R: "c' = c\<lparr>gl_check := (gl_check c)\<lparr>sc_next_history_line := nxt\<rparr>, gl_history := hist\<rparr>"
    "client_run (send_history row_len link_len batch) c = Some c'" "history_follows row_len link_len (Some e) h' c'"
    "hb_end batch = hc_next h' + owed batch" "hc_numbering h' = Some \<lparr>nu_layout = layout_of e (relayouts e), nu_base = base\<rparr>"
    "hb_end batch = history_end e base"
    using read_run [OF f(1) _ e read _ idle] f(2) by (auto simp: LIVE_HISTORY_LINES_def)
  then show ?thesis using Some by (intro exI [of _ c'] exI [of _ nxt] exI [of _ hist]) (auto simp: all_sent_def)
qed

text \<open>What a cycle sends, part by part.\<close>

lemma cycle_parts:
  assumes "cycle row_len link_len now e liveness notices s = (out, s')" "gs_screen s = Some sent"
  obtains s1 capture h' u sent' scrolled history_end frame_end where
    "s1 = drain_notices notices (s\<lparr>gs_last_cycle := Some now\<rparr>)" "read_capture now e s1 = (capture, h')"
    "scrolled_since capture (gs_frame_history_end s1) = (scrolled, history_end)"
    "sent_update row_len link_len (screen_of e) scrolled sent = (u, sent')"
    "out = (if gs_sent_state s1 \<noteq> Some (with_exit (terminal_state_of e) liveness) then [GridState (with_exit (terminal_state_of e) liveness)] else [])
      @ (case cap_batch capture of Some batch \<Rightarrow> send_history row_len link_len batch | None \<Rightarrow> [])
      @ (case u of Some ms \<Rightarrow> ms | None \<Rightarrow> [])
      @ (case gs_clipboard s1 of Some txt \<Rightarrow> clipboard_messages Clipboard txt | None \<Rightarrow> [])"
    "s' = s1\<lparr>gs_history := h', gs_relayout_capped := (if cap_moved_to capture \<noteq> None \<and> cap_batch capture \<noteq> None then cap_forced capture else gs_relayout_capped s1),
      gs_relayout := note_relayout now capture (gs_relayout s1), gs_sent_state := Some (with_exit (terminal_state_of e) liveness),
      gs_history_owed := (case cap_batch capture of Some batch \<Rightarrow> 0 < owed batch | None \<Rightarrow> False),
      gs_screen := Some sent', gs_frame_history_end := frame_end, gs_clipboard := None\<rparr>"
    "frame_end = (if u \<noteq> None \<or> history_end = None then history_end else gs_frame_history_end s1)"
proof -
  define s1 where "s1 = drain_notices notices (s\<lparr>gs_last_cycle := Some now\<rparr>)"
  obtain x where x: "s1 = s\<lparr>gs_last_cycle := Some now, gs_clipboard := x\<rparr>" using drain_same [of notices "s\<lparr>gs_last_cycle := Some now\<rparr>"] by (auto simp: s1_def)
  have screen: "gs_screen s1 = Some sent" using assms(2) by (simp add: x)
  obtain capture h' where cap: "read_capture now e s1 = (capture, h')" by (cases "read_capture now e s1")
  have sel: "cap_screen capture = screen_of e" "cap_state capture = terminal_state_of e"
    using cap by (auto simp: read_capture_def Let_def split: prod.splits)
  obtain scrolled history_end where sc: "scrolled_since capture (gs_frame_history_end s1) = (scrolled, history_end)"
    by (cases "scrolled_since capture (gs_frame_history_end s1)")
  obtain u sent' where up: "sent_update row_len link_len (screen_of e) scrolled sent = (u, sent')"
    by (cases "sent_update row_len link_len (screen_of e) scrolled sent")
  define frame_end where "frame_end = (if u \<noteq> None \<or> history_end = None then history_end else gs_frame_history_end s1)"
  show ?thesis
    by (rule that [OF s1_def cap sc up, where frame_end = frame_end])
      (use assms(1) in \<open>simp_all only: cycle_def Let_def s1_def [symmetric] cap sel sc screen up frame_end_def option.sel prod.case prod.inject\<close>)
qed

lemma cycle_run:
  assumes inv: "sender_inv row_len link_len scrollback es s c" "gs_screen s = Some sent" and e: "emulator_ok e" "\<forall>e0\<in>set es. evolves e0 e"
    and ns: "\<forall>n\<in>set notices. notice_ok n" and len: "length es < GRID_MAX_LINE_NUMBER"
    and go: "cycle row_len link_len now e liveness notices s = (out, s')"
  shows "\<exists>c'. client_run out c = Some c' \<and> sender_inv row_len link_len scrollback (es @ [e]) s' c' \<and> shows_terminal row_len link_len e liveness c'
    \<and> gl_clipboard c' = gl_clipboard c @ written (gs_clipboard (drain_notices notices s))"
proof -
  let ?state = "with_exit (terminal_state_of e) liveness"
  obtain s1 capture h' u sent' scrolled history_end frame_end where P:
    "s1 = drain_notices notices (s\<lparr>gs_last_cycle := Some now\<rparr>)" "read_capture now e s1 = (capture, h')"
    "sent_update row_len link_len (screen_of e) scrolled sent = (u, sent')"
    "out = (if gs_sent_state s1 \<noteq> Some ?state then [GridState ?state] else [])
      @ (case cap_batch capture of Some batch \<Rightarrow> send_history row_len link_len batch | None \<Rightarrow> [])
      @ (case u of Some ms \<Rightarrow> ms | None \<Rightarrow> [])
      @ (case gs_clipboard s1 of Some txt \<Rightarrow> clipboard_messages Clipboard txt | None \<Rightarrow> [])"
    "s' = s1\<lparr>gs_history := h', gs_relayout_capped := (if cap_moved_to capture \<noteq> None \<and> cap_batch capture \<noteq> None then cap_forced capture else gs_relayout_capped s1),
      gs_relayout := note_relayout now capture (gs_relayout s1), gs_sent_state := Some ?state,
      gs_history_owed := (case cap_batch capture of Some batch \<Rightarrow> 0 < owed batch | None \<Rightarrow> False),
      gs_screen := Some sent', gs_frame_history_end := frame_end, gs_clipboard := None\<rparr>"
    by (rule cycle_parts [OF go inv(2)])
  obtain x where x: "s1 = s\<lparr>gs_last_cycle := Some now, gs_clipboard := x\<rparr>"
    using drain_same [of notices "s\<lparr>gs_last_cycle := Some now\<rparr>"] by (auto simp: P(1))
  have S: "started_inv row_len link_len scrollback es s sent c" and clip: "case gs_clipboard s of Some txt \<Rightarrow> chars_ok txt | None \<Rightarrow> True"
    using inv by (simp_all add: sender_inv_def)
  have chars: "case gs_clipboard s1 of Some txt \<Rightarrow> chars_ok txt | None \<Rightarrow> True"
    unfolding P(1) by (rule drain_ok [OF ns]) (use clip in simp)
  obtain e0 where e0: "e0 \<in> set es" "history_follows row_len link_len (Some e0) (gs_history s1) c"
    using S by (auto simp: started_inv_def history_in_step_def x)
  have idle: "idle (gl_check c)" using S by (simp add: started_inv_def)
  define c1 where "c1 = c\<lparr>gl_state := Some ?state\<rparr>"
  have chk1: "gl_check c1 = gl_check c" by (simp add: c1_def)
  have first: "client_run (if gs_sent_state s1 \<noteq> Some ?state then [GridState ?state] else []) c = Some c1"
  proof (cases "gs_sent_state s1 = Some ?state")
    case True
    then have "gl_state c = Some ?state" using S by (simp add: started_inv_def x)
    then show ?thesis using True by (simp add: c1_def)
  next
    case False
    then show ?thesis using state_run [of c e liveness] idle idle_has_state [OF idle]
      by (simp add: c1_def idle_def)
  qed
  have "history_follows row_len link_len (Some e0) (gs_history s1) c1" using e0(2) by (simp add: history_follows_def c1_def)
  from cycle_history_run [OF this _ e0(1) e(1) _ P(2)] obtain c2 nxt hist e1 where
    H: "client_run (case cap_batch capture of Some batch \<Rightarrow> send_history row_len link_len batch | None \<Rightarrow> []) c1 = Some c2"
    "c2 = c1\<lparr>gl_check := (gl_check c1)\<lparr>sc_next_history_line := nxt\<rparr>, gl_history := hist\<rparr>"
    "e1 \<in> set (es @ [e])" "history_follows row_len link_len (Some e1) h' c2"
    "\<not> (case cap_batch capture of Some batch \<Rightarrow> 0 < owed batch | None \<Rightarrow> False)
            \<and> note_relayout now capture (gs_relayout s1) = None \<longrightarrow> e1 = e \<and> all_sent e h'"
    using e(2) e0(1) idle chk1 by auto
  have show2: "showing row_len link_len sent c2" "idle (gl_check c2)"
    using S idle by (simp_all add: H(2) c1_def started_inv_def showing_def idle_def)
  have rev': "ss_rev sent < GRID_MAX_LINE_NUMBER" using S len by (simp add: started_inv_def)
  obtain c3 where U: "client_run (case u of Some ms \<Rightarrow> ms | None \<Rightarrow> []) c2 = Some c3" "showing row_len link_len sent' c3" "idle (gl_check c3)"
    "same_besides_screen c2 c3" "ss_cols sent' = em_cols e" "ss_rows sent' = em_lines e" "ss_lines sent' = sn_lines (screen_of e)"
    "ss_cursor sent' = Some (sn_cursor (screen_of e))" "ss_rev sent' \<le> ss_rev sent + 1"
    using update_run [OF show2 screen_of_ok [OF e(1)] rev' P(3)] by (auto simp: screen_of_sel)
  have keep: "gl_partial c3 = None" "gl_history_cap c3 = min scrollback GRID_MAX_HISTORY_CAP" "gl_state c3 = Some ?state"
    "gl_history c3 = gl_history c2" "sc_next_history_line (gl_check c3) = sc_next_history_line (gl_check c2)" "gl_clipboard c3 = gl_clipboard c"
    "gl_history_cap c3 = gl_history_cap c2"
    using U(4) S by (simp_all add: same_besides_screen_def H(2) c1_def started_inv_def)
  define c' where "c' = c3\<lparr>gl_clipboard := gl_clipboard c3 @ written (gs_clipboard s1)\<rparr>"
  have last': "client_run (case gs_clipboard s1 of Some txt \<Rightarrow> clipboard_messages Clipboard txt | None \<Rightarrow> []) c3 = Some c'"
  proof (cases "gs_clipboard s1")
    case (Some str)
    then show ?thesis using clipboard_run [OF U(3) keep(1), of str Clipboard] chars by (simp add: c'_def written_def)
  qed (simp add: c'_def written_def)
  have "client_run out c = Some c'"
    unfolding P(4) client_run_append first using H(1) U(1) last' by (simp add: client_run_append)
  moreover have "sender_inv row_len link_len scrollback (es @ [e]) s' c'"
  proof -
    have "history_follows row_len link_len (Some e1) h' c'"
      using H(4) keep(4,5,7) by (simp add: history_follows_def c'_def)
    then have "history_in_step row_len link_len (es @ [e]) s' c'"
      unfolding history_in_step_def using H(3,5) by (intro bexI [of _ e1]) (simp_all add: P(5))
    moreover have "showing row_len link_len sent' c'" using U(2) by (simp add: showing_def c'_def)
    moreover have "ss_rev sent' \<le> length (es @ [e])" using U(9) S by (simp add: started_inv_def)
    ultimately show ?thesis using keep U(3) by (simp add: sender_inv_def started_inv_def P(5) c'_def)
  qed
  moreover have "shows_terminal row_len link_len e liveness c'"
    using U(2,5-8) keep(3) by (simp add: shows_terminal_def c'_def showing_def)
  moreover have "gl_clipboard c' = gl_clipboard c @ written (gs_clipboard (drain_notices notices s))"
  proof -
    have "gs_clipboard (drain_notices ns (s\<lparr>gs_last_cycle := Some now\<rparr>)) = gs_clipboard (drain_notices ns s)" for ns
    proof (induction ns arbitrary: s)
      case (Cons n ns)
      have "stash n (s\<lparr>gs_last_cycle := Some now\<rparr>) = (stash n s)\<lparr>gs_last_cycle := Some now\<rparr>" by (simp add: stash_def split: notice.split)
      then show ?case using Cons.IH [of "stash n s"] by (simp add: drain_notices_def)
    qed (simp add: drain_notices_def)
    then show ?thesis using keep(6) by (simp add: c'_def P(1))
  qed
  ultimately show ?thesis by blast
qed

end
