(* ===== verification/Sender_Properties.thy ===== *)
theory Sender_Properties
  imports Sender_Facts
begin

text \<open>
  A grid attachment's output from end to end: the messages of every run of the sender, applied by a
  client that checks the stream's rules, leave the client showing the terminal and its history.
\<close>

subsection \<open>Runs\<close>

definition event_ok :: "sender_event \<Rightarrow> bool" where
  "event_ok ev = (case ev of Noticed n \<Rightarrow> notice_ok n | Reads now e liveness ns \<Rightarrow> emulator_ok e \<and> (\<forall>n\<in>set ns. notice_ok n))"

definition emulators :: "sender_event list \<Rightarrow> emulator list" where
  "emulators evs = concat (map (\<lambda>ev. case ev of Noticed n \<Rightarrow> [] | Reads now e liveness ns \<Rightarrow> [e]) evs)"

text \<open>The terminals read are states of one emulator, in order, and fewer than the last frame number.\<close>

definition events_ok :: "sender_event list \<Rightarrow> bool" where
  "events_ok evs \<longleftrightarrow> (\<forall>ev\<in>set evs. event_ok ev) \<and> sorted_wrt evolves (emulators evs) \<and> length (emulators evs) \<le> GRID_MAX_LINE_NUMBER"

lemma emulators_snoc [simp]: "emulators [] = []"
  "emulators (evs @ [ev]) = emulators evs @ (case ev of Noticed n \<Rightarrow> [] | Reads now e liveness ns \<Rightarrow> [e])"
  by (simp_all add: emulators_def)

lemma events_ok_snoc: "events_ok (evs @ [ev]) \<Longrightarrow> events_ok evs \<and> event_ok ev"
  by (auto simp: events_ok_def sorted_wrt_append)

lemma sender_run_append:
  "sender_run row_len link_len scrollback (evs @ evs') s =
    (let (out, s) = sender_run row_len link_len scrollback evs s; (outs, s) = sender_run row_len link_len scrollback evs' s in (out @ outs, s))"
  by (induction evs arbitrary: s) (auto split: prod.splits)

lemma sender_run_snoc:
  "sender_run row_len link_len scrollback (evs @ [ev]) s =
    (let (out, s) = sender_run row_len link_len scrollback evs s; (outs, s) = sender_on row_len link_len scrollback ev s in (out @ outs, s))"
  by (auto simp: sender_run_append Let_def split: prod.splits)

lemma sender_on_ok:
  assumes inv: "sender_inv row_len link_len scrollback (emulators evs) s c" and ok: "events_ok (evs @ [ev])"
    and go: "sender_on row_len link_len scrollback ev s = (out, s')"
  shows "\<exists>c'. client_run out c = Some c' \<and> sender_inv row_len link_len scrollback (emulators (evs @ [ev])) s' c'
    \<and> (case ev of Noticed n \<Rightarrow> True
       | Reads now e liveness ns \<Rightarrow> gs_target s = None \<longrightarrow> shows_terminal row_len link_len e liveness c'
           \<and> (gs_screen s \<noteq> None \<longrightarrow> gl_clipboard c' = gl_clipboard c @ written (gs_clipboard (drain_notices ns s))))"
proof (cases ev)
  case (Noticed n)
  then show ?thesis using go ok inv stash_inv by (auto simp: sender_on_def events_ok_def event_ok_def)
next
  case (Reads now e liveness ns)
  have e: "emulator_ok e" "\<forall>e0\<in>set (emulators evs). evolves e0 e" "\<forall>n\<in>set ns. notice_ok n" "length (emulators evs) < GRID_MAX_LINE_NUMBER"
    using ok by (simp_all add: Reads events_ok_def event_ok_def sorted_wrt_append)
  show ?thesis
  proof (cases "gs_screen s")
    case None
    then have "catch_up row_len link_len scrollback e liveness s = (out, s')" using go by (simp add: sender_on_def Reads)
    from attach_run [OF inv None e(1) this] show ?thesis using None by (auto simp: Reads)
  next
    case (Some sent)
    show ?thesis
    proof (cases "gs_target s")
      case None
      then have "cycle row_len link_len now e liveness ns s = (out, s')" using go Some by (simp add: sender_on_def Reads)
      from cycle_run [OF inv Some e(1,2,3,4) this] show ?thesis by (auto simp: Reads)
    next
      case target: (Some target)
      then have "catch_up_next row_len link_len target e s = (out, s')" using go Some by (simp add: sender_on_def Reads)
      from catch_up_next_run [OF inv Some e(1,2) this] show ?thesis using target by (auto simp: Reads)
    qed
  qed
qed

lemma sender_run_ok:
  "events_ok evs \<Longrightarrow> sender_run row_len link_len scrollback evs sender_new = (ms, s) \<Longrightarrow>
    \<exists>c. client_run ms client_new = Some c \<and> sender_inv row_len link_len scrollback (emulators evs) s c"
proof (induction evs arbitrary: ms s rule: rev_induct)
  case Nil
  then show ?case using sender_inv_new by simp
next
  case (snoc ev evs)
  obtain ms0 s0 out where run: "sender_run row_len link_len scrollback evs sender_new = (ms0, s0)"
    "sender_on row_len link_len scrollback ev s0 = (out, s)" "ms = ms0 @ out"
    using snoc.prems(2) by (auto simp: sender_run_snoc split: prod.splits)
  obtain c where c: "client_run ms0 client_new = Some c" "sender_inv row_len link_len scrollback (emulators evs) s0 c"
    using snoc.IH [OF _ run(1)] events_ok_snoc [OF snoc.prems(1)] by blast
  show ?case using sender_on_ok [OF c(2) snoc.prems(1) run(2)] c(1) run(3) by (auto simp: client_run_append)
qed

subsection \<open>A terminal with one line above its screen, and after one more line scrolled\<close>

definition plain_modes :: modes where
  "plain_modes = \<lparr>md_bracketed_paste = False, md_mouse_reporting = ReportOff, md_mouse_encoding = EncDefault,
     md_focus_reporting = False, md_application_cursor = False, md_application_keypad = False,
     md_alternate_screen = False, md_cursor_visible = True\<rparr>"

definition sample_line :: "byte \<Rightarrow> term_cell list" where
  "sample_line b = [plain_cell [b] [], plain_cell [32] []]"

definition sample_terminal :: "byte list \<Rightarrow> byte \<Rightarrow> emulator" where
  "sample_terminal above' b = \<lparr>em_cols = 2, em_lines = 1, em_screen = [sample_line b], em_history = map sample_line above',
     em_history_cols = 2, em_scrolled = length above', em_clears = 0, em_colors = (\<lambda>_. None), em_modes = plain_modes,
     em_cursor = (0, 0), em_cursor_style = \<lparr>cs_shape = TermBlock, cs_blinking = False\<rparr>, em_rebuilds = 0, em_resizes = 0,
     em_history_trimmed = False\<rparr>"

definition sample_first :: emulator where "sample_first = sample_terminal [97] 98"
definition sample_second :: emulator where "sample_second = sample_terminal [97, 98] 32"

lemma sample_line_ok: "cells_ok (sample_line b) 2 \<and> cell_links_ok (sample_line b)"
  by (auto simp: cells_ok_def sample_line_def cell_ok_def plain_cell_def has_flag_def spacer_def cell_links_ok_def less_Suc_eq)

lemma sample_terminal_ok: "length above' \<le> 2 ^ 52 \<Longrightarrow> emulator_ok (sample_terminal above' b)"
  using sample_line_ok by (auto simp: emulator_ok_def sample_terminal_def dimension_ok_def GRID_MAX_DIMENSION_def)

lemma sample_layout: "layout_of (sample_terminal above' b) (relayouts (sample_terminal above' b)) = layout_of sample_first (relayouts sample_first)"
  by (simp add: layout_of_def sample_first_def sample_terminal_def relayouts_def)

lemma sample_evolves: "evolves sample_first sample_second"
proof -
  have "up = 1" if "0 < up" "up \<le> length (em_history sample_first)" for up
    using that by (simp add: sample_first_def sample_terminal_def)
  then show ?thesis
    by (auto simp: evolves_def same_lines_def history_row_def sample_first_def sample_second_def sample_terminal_def)
qed

definition sample_events :: "sender_event list" where
  "sample_events = [Noticed (NoticeClipboard EmulatorClipboard [[104], [105]]), Reads 0 sample_first LvRunning [], Reads 8 sample_second LvRunning []]"

lemma sample_events_ok: "events_ok sample_events"
  using sample_terminal_ok [of "[97]" 98] sample_terminal_ok [of "[97, 98]" 32] sample_evolves
  by (auto simp: events_ok_def sample_events_def event_ok_def notice_ok_def chars_ok_def emulators_def GRID_MAX_LINE_NUMBER_def
      simp flip: sample_first_def sample_second_def)

lemma sample_attached:
  "catch_up row_len link_len scrollback sample_first LvRunning s = (out, s') \<Longrightarrow> gs_history s = history_cursor_new \<Longrightarrow>
    gs_target s' = None \<and> gs_screen s' \<noteq> None \<and> \<not> gs_history_owed s' \<and> gs_relayout s' = gs_relayout s"
proof -
  assume go: "catch_up row_len link_len scrollback sample_first LvRunning s = (out, s')" and new: "gs_history s = history_cursor_new"
  have rf: "read_from sample_first history_cursor_new = (0, None, 0)"
    by (simp add: read_from_def history_cursor_new_def sample_first_def sample_terminal_def history_start_def history_end_def)
  have e: "history_end sample_first 0 = 1" by (simp add: history_end_def sample_first_def sample_terminal_def)
  obtain m lines where R: "read_history sample_first (relayouts sample_first) CATCH_UP_LINES history_cursor_new
      = (\<lparr>hb_reset = None, hb_first = 0, hb_cols = em_history_cols sample_first, hb_lines = lines, hb_end = 1\<rparr>,
         \<lparr>hc_numbering = Some \<lparr>nu_layout = layout_of sample_first (relayouts sample_first), nu_base = 0\<rparr>, hc_next = m\<rparr>)" "0 < m" "length lines = m"
    using read_within_ok [OF rf, of CATCH_UP_LINES "2 ^ 64 - 1"] unfolding read_history_def e by (auto simp: CATCH_UP_LINES_def)
  then show ?thesis using go
    by (auto simp: catch_up_def new catch_up_batch_def owed_def Let_def split: prod.splits)
qed

subsection \<open>The screen\<close>

text \<open>
  C1: A client that applies what the sender sends shows the terminal. In every run of an attachment,
  whatever the terminal does between the reads, the client accepts every message under the stream's
  rules; and after the attach's first read, and after every live cycle, it shows the screen just
  read, row for row (but for links a row gives up to fit a message), with its size, its cursor, and
  the terminal's modes, colors and exit.
\<close>

theorem client_shows_terminal:
  assumes "events_ok (evs @ [Reads now e liveness ns])" and "sender_run row_len link_len scrollback evs sender_new = (ms, s)"
    and "sender_on row_len link_len scrollback (Reads now e liveness ns) s = (out, s')"
  shows "\<exists>c c'. client_run ms client_new = Some c \<and> client_run (ms @ out) client_new = Some c'
    \<and> (gs_target s = None \<longrightarrow>
        gl_cols c' = em_cols e \<and> gl_rows c' = em_lines e
        \<and> list_all2 (gives_up row_len link_len) (gl_screen c') (sn_lines (screen_of e))
        \<and> gl_cursor c' = Some (sn_cursor (screen_of e))
        \<and> gl_state c' = Some (with_exit (terminal_state_of e) liveness))"
proof -
  obtain c where c: "client_run ms client_new = Some c" "sender_inv row_len link_len scrollback (emulators evs) s c"
    using sender_run_ok [OF _ assms(2)] events_ok_snoc [OF assms(1)] by blast
  show ?thesis using sender_on_ok [OF c(2) assms(1,3)] c(1) by (auto simp: client_run_append shows_terminal_def)
qed

lemma client_shows_terminal_witness:
  "\<exists>c. client_run (fst (sender_run (\<lambda>r. 10) (\<lambda>l. 10) 100 sample_events sender_new)) client_new = Some c
    \<and> gl_cols c = 2 \<and> list_all2 (gives_up (\<lambda>r. 10) (\<lambda>l. 10)) (gl_screen c) (sn_lines (screen_of sample_second))"
proof -
  define evs where "evs = [Noticed (NoticeClipboard EmulatorClipboard [[104], [105]]), Reads 0 sample_first LvRunning []]"
  have all': "sample_events = evs @ [Reads 8 sample_second LvRunning []]" by (simp add: sample_events_def evs_def)
  obtain ms s where run: "sender_run (\<lambda>r. 10) (\<lambda>l. 10) 100 evs sender_new = (ms, s)"
    by (cases "sender_run (\<lambda>r. 10) (\<lambda>l. 10) 100 evs sender_new")
  obtain out s' where step: "sender_on (\<lambda>r. 10) (\<lambda>l. 10) 100 (Reads 8 sample_second LvRunning []) s = (out, s')"
    by (cases "sender_on (\<lambda>r. 10) (\<lambda>l. 10) 100 (Reads 8 sample_second LvRunning []) s")
  have target: "gs_target s = None"
    using run sample_attached [of "\<lambda>r. 10" "\<lambda>l. 10" 100 "stash (NoticeClipboard EmulatorClipboard [[104], [105]]) sender_new" ms s]
    by (auto simp: evs_def sender_on_def stash_def sender_new_def clipboard_target_of_def split: prod.splits)
  have "fst (sender_run (\<lambda>r. 10) (\<lambda>l. 10) 100 sample_events sender_new) = ms @ out"
    unfolding all' sender_run_snoc run by (simp add: step)
  then show ?thesis
    using client_shows_terminal [OF _ run step] sample_events_ok [unfolded all'] target by (auto simp: sample_second_def sample_terminal_def)
qed

subsection \<open>The history\<close>

text \<open>
  C3: Nothing owed means the client has the history. Whenever no history line is owed and no change
  of layout is being put off, the newest lines the client holds, as many as the terminal holds or
  the client keeps, are the terminal's lines above its screen, newest to newest, at the terminal's
  width and row for row (but for links a row gives up); and the lines are numbered consecutively.
\<close>

theorem client_has_history:
  assumes "events_ok evs" "sender_run row_len link_len scrollback evs sender_new = (ms, s)"
    and "gs_screen s \<noteq> None" "\<not> gs_history_owed s" "gs_relayout s = None" "last (emulators evs) = e"
  shows "\<exists>c. client_run ms client_new = Some c \<and> gl_history_cap c = min scrollback GRID_MAX_HISTORY_CAP
    \<and> (\<exists>k. map fst (gl_history c) = [k..<k + length (gl_history c)])
    \<and> min (length (em_history e)) (gl_history_cap c) \<le> length (gl_history c)
    \<and> (\<forall>up\<in>{1..min (length (em_history e)) (gl_history_cap c)}.
        case gl_history c ! (length (gl_history c) - up) of (n, w, row) \<Rightarrow>
          w = em_history_cols e \<and> gives_up row_len link_len row (history_row e up))"
proof -
  obtain c where c: "client_run ms client_new = Some c" "sender_inv row_len link_len scrollback (emulators evs) s c"
    using sender_run_ok [OF assms(1,2)] by blast
  then have f: "history_follows row_len link_len (Some e) (gs_history s) c" "all_sent e (gs_history s)"
    and cap: "gl_history_cap c = min scrollback GRID_MAX_HISTORY_CAP"
    using assms(3-6) by (auto simp: sender_inv_def started_inv_def history_in_step_def)
  let ?h = "gl_history c" and ?cap = "gl_history_cap c"
  obtain base where B: "hc_numbering (gs_history s) = Some \<lparr>nu_layout = layout_of e (relayouts e), nu_base = base\<rparr>"
    "hc_next (gs_history s) = history_end e base" using f(2) by (auto simp: all_sent_def)
  have "history_shown row_len link_len e (gs_history s) ?cap ?h" using f(1) by (simp add: history_follows_def)
  then obtain k where H: "map fst ?h = [k..<history_end e base]" "k \<le> history_end e base" "length ?h = ?cap \<or> k \<le> history_start e base"
    "length (em_history e) \<le> history_end e base"
    "\<forall>(n, w, r)\<in>set ?h. history_start e base \<le> n \<longrightarrow> w = em_history_cols e \<and> gives_up row_len link_len r (line_at e base n)"
    using history_shown_at [OF _ B(1)] unfolding B(2) by blast
  have len: "length ?h = history_end e base - k" using arg_cong [OF H(1), of length] by simp
  have enough: "min (length (em_history e)) ?cap \<le> length ?h"
    using H(2-4) len unfolding history_start_def by linarith
  have at: "case ?h ! (length ?h - up) of (n, w, row) \<Rightarrow> w = em_history_cols e \<and> gives_up row_len link_len row (history_row e up)"
    if up: "up \<in> {1..min (length (em_history e)) ?cap}" for up
  proof -
    have u: "0 < up" "up \<le> length ?h" "up \<le> length (em_history e)" using up enough by auto
    obtain n w row where x: "?h ! (length ?h - up) = (n, w, row)" by (cases "?h ! (length ?h - up)")
    have i: "length ?h - up < length ?h" using u by simp
    have "map fst ?h ! (length ?h - up) = n" using i x by simp
    then have n: "n = history_end e base - up" unfolding H(1) using i len u H(2) by simp
    have up_n: "history_end e base - n = up" using n u H(4) by simp
    have "history_start e base \<le> n" using n u by (simp add: history_start_def)
    moreover have "(n, w, row) \<in> set ?h" using nth_mem [OF i] x by simp
    ultimately have "w = em_history_cols e \<and> gives_up row_len link_len row (line_at e base n)" using H(5) by blast
    then show ?thesis by (simp add: x line_at_def up_n)
  qed
  have "k + length ?h = history_end e base" using H(2) len by linarith
  then have "map fst ?h = [k..<k + length ?h]" using H(1) by metis
  then have "\<exists>k. map fst ?h = [k..<k + length ?h]" ..
  then show ?thesis using c(1) cap enough at by (intro exI [of _ c] conjI ballI)
qed

lemma client_has_history_witness:
  "\<exists>c. client_run (fst (sender_run (\<lambda>r. 10) (\<lambda>l. 10) 100 [Reads 0 sample_first LvRunning []] sender_new)) client_new = Some c
    \<and> (case gl_history c ! (length (gl_history c) - 1) of (n, w, row) \<Rightarrow>
        w = 2 \<and> gives_up (\<lambda>r. 10) (\<lambda>l. 10) row (history_row sample_first 1))"
proof -
  obtain ms s where run: "sender_run (\<lambda>r. 10) (\<lambda>l. 10) 100 [Reads 0 sample_first LvRunning []] sender_new = (ms, s)"
    by (cases "sender_run (\<lambda>r. 10) (\<lambda>l. 10) 100 [Reads 0 sample_first LvRunning []] sender_new")
  have "gs_screen s \<noteq> None \<and> \<not> gs_history_owed s \<and> gs_relayout s = None"
    using run sample_attached [of "\<lambda>r. 10" "\<lambda>l. 10" 100 sender_new ms s]
    by (auto simp: sender_on_def sender_new_def split: prod.splits)
  moreover have "events_ok [Reads 0 sample_first LvRunning []]"
    using sample_terminal_ok [of "[97]" 98] by (simp add: events_ok_def event_ok_def emulators_def GRID_MAX_LINE_NUMBER_def sample_first_def)
  moreover have "last (emulators [Reads 0 sample_first LvRunning []]) = sample_first" by (simp add: emulators_def)
  ultimately obtain c where "client_run ms client_new = Some c" "gl_history_cap c = min 100 GRID_MAX_HISTORY_CAP"
    "\<forall>up\<in>{1..min (length (em_history sample_first)) (gl_history_cap c)}.
        case gl_history c ! (length (gl_history c) - up) of (n, w, row) \<Rightarrow>
          w = em_history_cols sample_first \<and> gives_up (\<lambda>r. 10) (\<lambda>l. 10) row (history_row sample_first up)"
    using client_has_history [OF _ run, of sample_first] by auto
  then show ?thesis
    using run by (intro exI [of _ c]) (auto simp: sample_first_def sample_terminal_def GRID_MAX_HISTORY_CAP_def)
qed

subsection \<open>The catch-up ends\<close>

definition target_held :: "emulator list \<Rightarrow> grid_sender \<Rightarrow> bool" where
  "target_held es s \<longleftrightarrow> (case gs_target s of None \<Rightarrow> True
     | Some t \<Rightarrow> \<exists>e\<in>set es. \<exists>base. hc_numbering (gs_history s) = Some \<lparr>nu_layout = layout_of e (relayouts e), nu_base = base\<rparr>
         \<and> length (em_history e) \<le> history_end e base \<and> t \<le> history_end e base)"

lemma catch_up_next_progress:
  assumes inv: "sender_inv row_len link_len scrollback es s c" "gs_screen s = Some sent" "target_held es s" "gs_target s = Some target"
    and e: "emulator_ok e" "\<forall>e0\<in>set es. evolves e0 e" and go: "catch_up_next row_len link_len target e s = (out, s')"
  shows "gs_target s' = None \<or> gs_target s' = Some target \<and> hc_next (gs_history s) < hc_next (gs_history s')
    \<and> hc_next (gs_history s') < target \<and> target_held (es @ [e]) s'"
proof (cases "fst (layout_moved e (relayouts e) (gs_history s))")
  case True
  then show ?thesis using go by (auto simp: catch_up_next_def split: prod.splits)
next
  case False
  obtain e0 base where H: "e0 \<in> set es" "hc_numbering (gs_history s) = Some \<lparr>nu_layout = layout_of e0 (relayouts e0), nu_base = base\<rparr>"
    "length (em_history e0) \<le> history_end e0 base" "target \<le> history_end e0 base"
    using inv(3,4) by (auto simp: target_held_def)
  have same: "layout_of e0 (relayouts e0) = layout_of e (relayouts e)" using False H(2) by (simp add: layout_moved_def Let_def)
  then have L: "same_lines e0 e" using e(2) H(1) by (auto simp: evolves_def)
  note M = start_mono [OF L H(3)]
  obtain e1 where e1: "e1 \<in> set es" "history_follows row_len link_len (Some e1) (gs_history s) c"
    using inv(1,2) by (auto simp: sender_inv_def started_inv_def history_in_step_def)
  obtain reset first' where rf: "read_from e (gs_history s) = (base, reset, first')" "hc_next (gs_history s) \<le> first'"
    using H(2) same by (cases "hc_next (gs_history s) < history_start e base") (simp_all add: read_from_def)
  have f: "\<forall>e0. Some e1 = Some e0 \<longrightarrow> evolves e0 e" using e(2) e1(1) by simp
  note R = read_from_ok [OF e1(2) f e(1) rf(1)]
  have "history_end e base \<le> 2 ^ 53" using R(1) e(1) by (simp add: history_end_def emulator_ok_def)
  then have "first' < 2 ^ 63" using R(3) by simp
  moreover have "0 < CATCH_UP_LINES" by (simp add: CATCH_UP_LINES_def)
  ultimately obtain m lines where B: "read_history e (relayouts e) CATCH_UP_LINES (gs_history s)
      = (\<lparr>hb_reset = reset, hb_first = first', hb_cols = em_history_cols e, hb_lines = lines, hb_end = history_end e base\<rparr>,
         \<lparr>hc_numbering = Some \<lparr>nu_layout = layout_of e (relayouts e), nu_base = base\<rparr>, hc_next = m\<rparr>)"
    "first' \<le> m" "first' < history_end e base \<longrightarrow> first' < m"
    using read_within_ok [OF rf(1) R(3)] unfolding read_history_def by blast
  have s': "gs_target s' = (if target \<le> m then None else Some target)"
    "gs_history s' = \<lparr>hc_numbering = Some \<lparr>nu_layout = layout_of e (relayouts e), nu_base = base\<rparr>, hc_next = m\<rparr>"
    using go False B(1) by (auto simp: catch_up_next_def catch_up_batch_def split: prod.splits)
  show ?thesis
  proof (cases "target \<le> m")
    case True
    then show ?thesis using s'(1) by simp
  next
    case m: False
    then have "first' < history_end e base" using B(2) H(4) M R(3) by linarith
    then have "hc_next (gs_history s) < m" using B(3) rf(2) by simp
    moreover have "target_held (es @ [e]) s'"
      using s' m H(4) M by (auto simp: target_held_def)
    ultimately show ?thesis using s' m by simp
  qed
qed

lemma attach_target:
  assumes inv: "sender_inv row_len link_len scrollback es s c" "gs_screen s = None" and e: "emulator_ok e"
    and go: "catch_up row_len link_len scrollback e liveness s = (out, s')"
  shows "gs_target s' = None \<or> (\<exists>target. gs_target s' = Some target \<and> target \<le> em_scrolled e + length (em_history e)
    \<and> hc_next (gs_history s') < target \<and> target_held [e] s')"
proof -
  have new: "gs_history s = history_cursor_new" using inv by (simp add: sender_inv_def)
  define base where "base = length (em_history e) - em_scrolled e"
  have le: "length (em_history e) \<le> history_end e base" "base \<le> 2 ^ 52"
    using e by (auto simp: base_def history_end_def emulator_ok_def)
  have rf: "read_from e (gs_history s) = (base, None, history_start e base)"
    by (simp add: read_from_def new history_cursor_new_def base_def Let_def)
  have first': "history_start e base \<le> history_end e base" "history_start e base < 2 ^ 63"
    using le e by (auto simp: history_start_def history_end_def emulator_ok_def)
  have "0 < CATCH_UP_LINES" by (simp add: CATCH_UP_LINES_def)
  from read_within_ok [OF rf first' this] obtain m lines where B: "read_history e (relayouts e) CATCH_UP_LINES (gs_history s)
      = (\<lparr>hb_reset = None, hb_first = history_start e base, hb_cols = em_history_cols e, hb_lines = lines, hb_end = history_end e base\<rparr>,
         \<lparr>hc_numbering = Some \<lparr>nu_layout = layout_of e (relayouts e), nu_base = base\<rparr>, hc_next = m\<rparr>)"
    unfolding read_history_def by blast
  have "gs_target s' = (if history_end e base \<le> m then None else Some (history_end e base))"
    "gs_history s' = \<lparr>hc_numbering = Some \<lparr>nu_layout = layout_of e (relayouts e), nu_base = base\<rparr>, hc_next = m\<rparr>"
    using go B by (auto simp: catch_up_def catch_up_batch_def Let_def split: prod.splits)
  then show ?thesis using le by (auto simp: target_held_def base_def history_end_def)
qed

definition reading :: "sender_event \<Rightarrow> bool" where
  "reading ev = (case ev of Noticed n \<Rightarrow> False | Reads now e liveness ns \<Rightarrow> True)"

text \<open>
  C7: The catch-up ends. However the terminal changes meanwhile, after at most as many further reads
  as lines had scrolled and were held at the attach's first one, the attach has sent every line held
  then, or given way to a change of layout, and goes on to live cycles.
\<close>

theorem catch_up_ends:
  assumes ok: "events_ok (Reads now e liveness ns # rs)" and reads: "\<forall>r\<in>set rs. reading r"
    and enough: "em_scrolled e + length (em_history e) \<le> length rs"
  shows "\<exists>k\<in>{0..length rs}. gs_target (snd (sender_run row_len link_len scrollback (Reads now e liveness ns # take k rs) sender_new)) = None"
proof (rule ccontr)
  define evs where "evs = (\<lambda>k. Reads now e liveness ns # take k rs)"
  define at where "at = (\<lambda>k. snd (sender_run row_len link_len scrollback (evs k) sender_new))"
  assume "\<not> ?thesis"
  then have stuck: "gs_target (at k) \<noteq> None" if "k \<le> length rs" for k using that by (auto simp: at_def evs_def)
  have good: "events_ok (evs k)" for k
  proof -
    have "evs k @ drop k rs = Reads now e liveness ns # rs" by (simp add: evs_def)
    moreover have "emulators (a @ b) = emulators a @ emulators b" for a b by (simp add: emulators_def)
    ultimately show ?thesis using ok by (auto simp: events_ok_def sorted_wrt_append dest!: arg_cong [where f = events_ok])
  qed
  have "\<exists>target. gs_target (at k) = Some target \<and> target \<le> length rs \<and> k \<le> hc_next (gs_history (at k))
      \<and> target_held (emulators (evs k)) (at k) \<and> gs_screen (at k) \<noteq> None \<and> hc_next (gs_history (at k)) < target"
    if "k \<le> length rs" for k using that
  proof (induction k)
    case 0
    obtain out s' where go: "catch_up row_len link_len scrollback e liveness sender_new = (out, s')"
      by (cases "catch_up row_len link_len scrollback e liveness sender_new")
    have at0: "at 0 = s'" using go by (simp add: at_def evs_def sender_on_def sender_new_def)
    have e: "emulator_ok e" using ok by (simp add: events_ok_def event_ok_def)
    have new: "gs_screen sender_new = None" by (simp add: sender_new_def)
    have "gs_screen s' \<noteq> None" using go by (auto simp: catch_up_def catch_up_batch_def Let_def split: prod.splits)
    then show ?case
      using attach_target [OF sender_inv_new new e go] stuck [of 0] enough at0 by (auto simp: evs_def emulators_def)
  next
    case (Suc k)
    then obtain target where IH: "gs_target (at k) = Some target" "target \<le> length rs" "k \<le> hc_next (gs_history (at k))"
      "target_held (emulators (evs k)) (at k)" "gs_screen (at k) \<noteq> None" by auto
    have k: "k < length rs" using Suc.prems by simp
    have next': "evs (Suc k) = evs k @ [rs ! k]" using k by (simp add: evs_def take_Suc_conv_app_nth)
    obtain now' e' liveness' ns' where r: "rs ! k = Reads now' e' liveness' ns'"
      using reads k nth_mem [OF k] by (cases "rs ! k") (force simp: reading_def)+
    obtain ms where run: "sender_run row_len link_len scrollback (evs k) sender_new = (ms, at k)"
      by (cases "sender_run row_len link_len scrollback (evs k) sender_new") (simp add: at_def)
    obtain c where c: "sender_inv row_len link_len scrollback (emulators (evs k)) (at k) c"
      using sender_run_ok [OF good run] by blast
    obtain sent where sent: "gs_screen (at k) = Some sent" using IH(5) by blast
    obtain out s' where go: "catch_up_next row_len link_len target e' (at k) = (out, s')" by (cases "catch_up_next row_len link_len target e' (at k)")
    have at': "at (Suc k) = s'"
      unfolding at_def next' sender_run_snoc using run go sent IH(1) by (simp add: sender_on_def r)
    have e': "emulator_ok e'" "\<forall>e0\<in>set (emulators (evs k)). evolves e0 e'"
      using good [of "Suc k"] unfolding next' by (simp_all add: r events_ok_def event_ok_def sorted_wrt_append)
    have "gs_screen s' \<noteq> None"
      using go sent by (auto simp: catch_up_next_def catch_up_batch_def Let_def split: prod.splits if_splits)
    then show ?case
      using catch_up_next_progress [OF c sent IH(4,1) e' go] stuck [OF Suc.prems] at' IH(2,3) unfolding next' by (auto simp: r)
  qed
  from this [of "length rs"] show False by auto
qed

lemma evolves_same: "evolves e e"
  by (simp add: evolves_def same_lines_def)

lemma catch_up_ends_witness:
  "\<exists>k\<in>{0..2::nat}. gs_target (snd (sender_run (\<lambda>r. 10) (\<lambda>l. 10) 100
    (Reads 0 sample_first LvRunning [] # take k [Reads 8 sample_second LvRunning [], Reads 16 sample_second LvRunning []]) sender_new)) = None"
proof -
  have "events_ok [Reads 0 sample_first LvRunning [], Reads 8 sample_second LvRunning [], Reads 16 sample_second LvRunning []]"
    using sample_terminal_ok [of "[97]" 98] sample_terminal_ok [of "[97, 98]" 32] sample_evolves evolves_same
    by (auto simp: events_ok_def event_ok_def emulators_def GRID_MAX_LINE_NUMBER_def simp flip: sample_first_def sample_second_def)
  moreover have "em_scrolled sample_first + length (em_history sample_first) = 2" by (simp add: sample_first_def sample_terminal_def)
  ultimately show ?thesis
    using catch_up_ends [of 0 sample_first LvRunning "[]" "[Reads 8 sample_second LvRunning [], Reads 16 sample_second LvRunning []]" "\<lambda>r. 10" "\<lambda>l. 10" 100]
    by (simp add: reading_def numeral_2_eq_2)
qed

subsection \<open>Scrolled rows and clipboard writes\<close>

lemma history_loop_all:
  "(\<And>n rs links. P (GridHistory n w rs links)) \<Longrightarrow> \<forall>m\<in>set messages. P m \<Longrightarrow>
    \<forall>m\<in>set (history_loop row_len link_len w lines messages n p). P m"
proof (induction lines arbitrary: messages n p)
  case (Cons line lines)
  have "\<forall>m\<in>set (messages @ [GridHistory n w (pk_rows p) (pk_links p)]). P m" using Cons.prems by simp
  then show ?case using Cons.IH [OF Cons.prems(1)] Cons.prems(2) by (auto simp: Let_def simp del: set_append split: prod.split)
qed simp

lemma rows_loop_kind: "\<forall>m\<in>set messages. is_rows m \<Longrightarrow> \<forall>m\<in>set (rows_loop row_len link_len placed messages p). is_rows m"
  by (induction row_len link_len placed messages p rule: rows_loop.induct) (auto simp: is_rows_def Let_def split: prod.splits if_splits)

lemma send_history_kind: "m \<in> set (send_history row_len link_len batch) \<Longrightarrow> is_history m"
  using history_loop_all [of is_history _ "[]"]
  by (auto simp: send_history_def history_messages_def is_history_def split: if_splits)

lemma send_history_reset: "hb_reset batch = None \<Longrightarrow> GridHistoryReset \<notin> set (send_history row_len link_len batch)"
  using history_loop_all [of "\<lambda>m. m \<noteq> GridHistoryReset" "hb_cols batch" "[]" row_len link_len "hb_lines batch" "hb_first batch" pack_new]
  by (auto simp: send_history_def history_messages_def)

lemma update_frame:
  assumes "sent_update row_len link_len sn scrolled sent = (u, sent')" "u = Some ms" "GridFrame v w h shift cursor \<in> set ms"
  shows "ms = butlast ms @ [GridFrame v w h shift cursor] \<and> (\<forall>m\<in>set (butlast ms). is_rows m) \<and> shift \<le> scrolled"
proof -
  obtain changed by' where ch: "changed_rows sn scrolled sent = (changed, by')" by (cases "changed_rows sn scrolled sent")
  have le: "by' \<le> scrolled" using ch by (auto simp: changed_rows_def Let_def split: if_splits)
  define rs where "rs = rows_messages row_len link_len (map (\<lambda>y. (y, sn_lines sn ! y)) changed)"
  have rs: "\<forall>m\<in>set rs. is_rows m" using rows_loop_kind [of "[]"] by (simp add: rs_def rows_messages_def)
  have ms: "ms = rs @ [GridFrame (ss_rev sent + 1) (sn_cols sn) (sn_rows sn) by' (sn_cursor sn)]"
    using assms(1,2) by (auto simp: sent_update_def ch rs_def Let_def split: if_splits)
  have "GridFrame v w h shift cursor \<notin> set rs" using rs by (auto simp: is_rows_def)
  then have "GridFrame v w h shift cursor = GridFrame (ss_rev sent + 1) (sn_cols sn) (sn_rows sn) by' (sn_cursor sn)"
    using assms(3) unfolding ms by simp
  then show ?thesis using rs le unfolding ms by simp
qed

text \<open>
  C22: Rows are said to have scrolled only once history has them. A cycle's frame moves the screen's
  rows up only when the history read in the same cycle reset nothing and left nothing owed, with the
  terminal on its primary screen; no history message follows the frame, so every line that scrolled
  off has been sent before it; and it moves them by no more lines than history grew by since the last
  frame.
\<close>

theorem shift_after_history:
  assumes go: "cycle row_len link_len now e liveness notices s = (out, s')" "gs_screen s = Some sent"
    and frame: "GridFrame v w h shift cursor \<in> set out" "0 < shift"
  shows "\<not> gs_history_owed s' \<and> gs_relayout s' = None \<and> \<not> md_alternate_screen (em_modes e) \<and> GridHistoryReset \<notin> set out
    \<and> (\<exists>from' to. gs_frame_history_end s = Some from' \<and> gs_frame_history_end s' = Some to \<and> from' + shift \<le> to)
    \<and> (\<exists>before after. out = before @ GridFrame v w h shift cursor # after \<and> (\<forall>m\<in>set after. \<not> is_history m))"
proof -
  let ?state = "with_exit (terminal_state_of e) liveness"
  obtain s1 capture h' u sent' scrolled history_end frame_end where P:
    "s1 = drain_notices notices (s\<lparr>gs_last_cycle := Some now\<rparr>)" "read_capture now e s1 = (capture, h')"
    "scrolled_since capture (gs_frame_history_end s1) = (scrolled, history_end)"
    "sent_update row_len link_len (screen_of e) scrolled sent = (u, sent')"
    "out = (if gs_sent_state s1 \<noteq> Some ?state then [GridState ?state] else [])
      @ (case cap_batch capture of Some batch \<Rightarrow> send_history row_len link_len batch | None \<Rightarrow> [])
      @ (case u of Some ms \<Rightarrow> ms | None \<Rightarrow> [])
      @ (case gs_clipboard s1 of Some t \<Rightarrow> clipboard_messages Clipboard t | None \<Rightarrow> [])"
    "s' = s1\<lparr>gs_history := h', gs_relayout_capped := (if cap_moved_to capture \<noteq> None \<and> cap_batch capture \<noteq> None then cap_forced capture else gs_relayout_capped s1),
      gs_relayout := note_relayout now capture (gs_relayout s1), gs_sent_state := Some ?state,
      gs_history_owed := (case cap_batch capture of Some batch \<Rightarrow> 0 < owed batch | None \<Rightarrow> False),
      gs_screen := Some sent', gs_frame_history_end := frame_end, gs_clipboard := None\<rparr>"
    "frame_end = (if u \<noteq> None \<or> history_end = None then history_end else gs_frame_history_end s1)"
    by (rule cycle_parts [OF go])
  define clip where "clip = (case gs_clipboard s1 of Some t \<Rightarrow> clipboard_messages Clipboard t | None \<Rightarrow> [])"
  have clip: "\<forall>m\<in>set clip. is_clipboard m"
    by (auto simp: clip_def clipboard_messages_def is_clipboard_def Let_def split: option.splits)
  define hist where "hist = (case cap_batch capture of Some batch \<Rightarrow> send_history row_len link_len batch | None \<Rightarrow> [])"
  have hist: "\<forall>m\<in>set hist. is_history m" using send_history_kind by (auto simp: hist_def split: option.splits)
  have "GridFrame v w h shift cursor \<in> set (case u of Some ms \<Rightarrow> ms | None \<Rightarrow> [])"
    using frame(1) clip hist unfolding P(5) clip_def [symmetric] hist_def [symmetric]
    by (auto simp: is_clipboard_def is_history_def split: if_splits)
  then obtain ms where u: "u = Some ms" "GridFrame v w h shift cursor \<in> set ms" by (cases u) auto
  note F = update_frame [OF P(4) u]
  then have "0 < scrolled" using frame(2) by simp
  moreover have alternate: "sn_alternate (cap_screen capture) = md_alternate_screen (em_modes e)"
    using P(2) by (auto simp: read_capture_def screen_of_def Let_def split: prod.splits)
  ultimately obtain batch from' where B: "cap_batch capture = Some batch" "hb_reset batch = None" "owed batch = 0"
    "\<not> md_alternate_screen (em_modes e)" "gs_frame_history_end s1 = Some from'" "scrolled = hb_end batch - from'" "history_end = Some (hb_end batch)"
    using P(3) by (auto simp: scrolled_since_def split: option.splits if_splits)
  have "gs_frame_history_end s1 = gs_frame_history_end s"
    using drain_same [of notices "s\<lparr>gs_last_cycle := Some now\<rparr>"] by (auto simp: P(1))
  moreover have "from' + shift \<le> hb_end batch" using F B(6) frame(2) by linarith
  ultimately have grew: "\<exists>from' to. gs_frame_history_end s = Some from' \<and> gs_frame_history_end s' = Some to \<and> from' + shift \<le> to"
    using B(5,7) u(1) P(7) by (intro exI [of _ from'] exI [of _ "hb_end batch"]) (simp add: P(6))
  have "note_relayout now capture (gs_relayout s1) = None" by (simp add: note_relayout_def B(1))
  then have "\<not> gs_history_owed s' \<and> gs_relayout s' = None" using B(1,3) by (simp add: P(6))
  moreover have "GridHistoryReset \<notin> set out"
  proof -
    have "GridHistoryReset \<notin> set ms"
    proof
      assume r: "GridHistoryReset \<in> set ms"
      have "set ms = insert (GridFrame v w h shift cursor) (set (butlast ms))" using F by (metis set_append list.simps(15) empty_set Un_insert_right sup_bot_right)
      then show False using r F by (auto simp: is_rows_def)
    qed
    then show ?thesis
      using send_history_reset [OF B(2)] clip unfolding P(5) clip_def [symmetric] by (auto simp: B(1) u(1) is_clipboard_def)
  qed
  moreover have "\<exists>before after. out = before @ GridFrame v w h shift cursor # after \<and> (\<forall>m\<in>set after. \<not> is_history m)"
  proof (intro exI conjI)
    show "out = ((if gs_sent_state s1 \<noteq> Some ?state then [GridState ?state] else []) @ hist @ butlast ms) @ GridFrame v w h shift cursor # clip"
      unfolding P(5) clip_def [symmetric] hist_def [symmetric] using F by (metis append.assoc append_Cons append_Nil option.simps(5) u(1))
    show "\<forall>m\<in>set clip. \<not> is_history m" using clip by (auto simp: is_clipboard_def is_history_def split: grid_output.splits)
  qed
  ultimately show ?thesis using B(4) grew by blast
qed

lemma blank_line_row: "row_from_cells (sample_line 32) 2 (\<lambda>_. None) = cell_row_default"
proof -
  note cell = sample_line_def plain_sel plain_style spacer_def ascii_cell_char_def cell_char_def cell_text_def plain_run_def ce_end_def merged_def
  have "cells_loop (sample_line 32) 2 (\<lambda>_. None) 0 False [] = cells_loop (sample_line 32) 2 (\<lambda>_. None) (0 + 1) True [plain_run 0 1 [32]]"
    by (subst cells_loop_ascii) (simp_all add: cell)
  also have "\<dots> = cells_loop (sample_line 32) 2 (\<lambda>_. None) (1 + 1) True [plain_run 0 2 [32, 32]]"
    by (subst cells_loop_ascii) (simp_all add: cell flip: numeral_2_eq_2)
  also have "\<dots> = [plain_run 0 2 [32, 32]]" by (subst cells_loop.simps) simp
  finally have "cells_loop (sample_line 32) 2 (\<lambda>_. None) 0 False [] = [plain_run 0 2 [32, 32]]" .
  moreover have "trim_default_blanks [plain_run 0 2 [32, 32]] = []"
    by (simp add: trim_default_blanks_def trim_run_def plain_run_def is_ascii_run_def trim_matches_def is_default_blank_def)
  moreover have "\<not> has_flag (sample_line 32 ! 1) F_WRAPLINE" by (simp add: sample_line_def plain_cell_def has_flag_def)
  moreover have "length (sample_line 32) = 2" by (simp add: sample_line_def)
  ultimately show ?thesis by (simp add: row_from_cells_def cell_row_default_def)
qed

definition scrolling_sender :: grid_sender where
  "scrolling_sender = sender_new\<lparr>
     gs_screen := Some \<lparr>ss_cols = 2, ss_rows = 1, ss_lines = [\<lparr>cw_wraps = False, cw_runs = [plain_run 0 1 [98]]\<rparr>], ss_cursor = None, ss_rev = 1\<rparr>,
     gs_history := \<lparr>hc_numbering = Some \<lparr>nu_layout = layout_of sample_second (relayouts sample_second), nu_base = 0\<rparr>, hc_next = 1\<rparr>,
     gs_frame_history_end := Some 1\<rparr>"

lemma shift_after_history_witness:
  "\<not> gs_history_owed (snd (cycle (\<lambda>r. 10) (\<lambda>l. 10) 20 sample_second LvRunning [] scrolling_sender))
    \<and> GridHistoryReset \<notin> set (fst (cycle (\<lambda>r. 10) (\<lambda>l. 10) 20 sample_second LvRunning [] scrolling_sender))"
proof -
  have end': "history_end sample_second 0 = 2" by (simp add: history_end_def sample_second_def sample_terminal_def)
  have "history_start sample_second 0 = 0" by (simp add: history_start_def end') (simp add: sample_second_def sample_terminal_def)
  then have rf: "read_from sample_second (gs_history scrolling_sender) = (0, None, 1)"
    by (simp add: read_from_def scrolling_sender_def)
  obtain m lines where R: "read_within sample_second (relayouts sample_second) LIVE_HISTORY_LINES LIVE_HISTORY_BYTES (gs_history scrolling_sender)
      = (\<lparr>hb_reset = None, hb_first = 1, hb_cols = em_history_cols sample_second, hb_lines = lines, hb_end = 2\<rparr>,
         \<lparr>hc_numbering = Some \<lparr>nu_layout = layout_of sample_second (relayouts sample_second), nu_base = 0\<rparr>, hc_next = m\<rparr>)"
    "length lines = m - 1" "1 < m" "m \<le> 2"
    using read_within_ok [OF rf, of LIVE_HISTORY_LINES LIVE_HISTORY_BYTES] unfolding end' by (auto simp: LIVE_HISTORY_LINES_def)
  have cap: "fst (read_capture 20 sample_second (scrolling_sender\<lparr>gs_last_cycle := Some 20\<rparr>))
      = \<lparr>cap_screen = screen_of sample_second, cap_state = terminal_state_of sample_second,
         cap_batch = Some \<lparr>hb_reset = None, hb_first = 1, hb_cols = em_history_cols sample_second, hb_lines = lines, hb_end = 2\<rparr>,
         cap_moved_to = None, cap_forced = False\<rparr>"
    using R(1) by (simp add: read_capture_def layout_moved_def scrolling_sender_def sender_new_def)
  have screen: "screen_of sample_second = \<lparr>sn_cols = 2, sn_rows = 1, sn_lines = [cell_row_default],
      sn_cursor = sn_cursor (screen_of sample_second), sn_alternate = False\<rparr>"
    using blank_line_row by (simp add: screen_of_def sample_second_def sample_terminal_def plain_modes_def)
  define sent where "sent = the (gs_screen scrolling_sender)"
  have sel: "sn_cols (screen_of sample_second) = 2" "sn_rows (screen_of sample_second) = 1" "sn_lines (screen_of sample_second) = [cell_row_default]"
    by (subst screen, simp)+
  then have ch: "changed_rows (screen_of sample_second) 1 sent = ([], 1)"
    by (simp add: changed_rows_def resized_def differs_def sent_def scrolling_sender_def cell_row_default_def)
  have up: "fst (sent_update (\<lambda>r. 10) (\<lambda>l. 10) (screen_of sample_second) 1 sent) = Some (rows_messages (\<lambda>r. 10) (\<lambda>l. 10) []
      @ [GridFrame (ss_rev sent + 1) 2 1 1 (sn_cursor (screen_of sample_second))])"
    unfolding sent_update_def ch prod.case sel Let_def by simp
  have frame: "GridFrame 2 2 1 1 (sn_cursor (screen_of sample_second)) \<in> set (the (fst (sent_update (\<lambda>r. 10) (\<lambda>l. 10) (screen_of sample_second) 1 sent)))"
    unfolding up by (simp add: sent_def scrolling_sender_def)
  have some: "fst (sent_update (\<lambda>r. 10) (\<lambda>l. 10) (screen_of sample_second) 1 sent) \<noteq> None" unfolding up by simp
  obtain out s' where go: "cycle (\<lambda>r. 10) (\<lambda>l. 10) 20 sample_second LvRunning [] scrolling_sender = (out, s')"
    by (cases "cycle (\<lambda>r. 10) (\<lambda>l. 10) 20 sample_second LvRunning [] scrolling_sender")
  have sent: "gs_screen scrolling_sender = Some sent" by (simp add: sent_def scrolling_sender_def)
  have "GridFrame 2 2 1 1 (sn_cursor (screen_of sample_second)) \<in> set out"
  proof (rule cycle_parts [OF go sent])
    fix s1 capture h' u sent' scrolled history_end frame_end
    assume P: "s1 = drain_notices [] (scrolling_sender\<lparr>gs_last_cycle := Some 20\<rparr>)" "read_capture 20 sample_second s1 = (capture, h')"
      "scrolled_since capture (gs_frame_history_end s1) = (scrolled, history_end)"
      "sent_update (\<lambda>r. 10) (\<lambda>l. 10) (screen_of sample_second) scrolled sent = (u, sent')"
      "out = (if gs_sent_state s1 \<noteq> Some (with_exit (terminal_state_of sample_second) LvRunning) then [GridState (with_exit (terminal_state_of sample_second) LvRunning)] else [])
        @ (case cap_batch capture of Some batch \<Rightarrow> send_history (\<lambda>r. 10) (\<lambda>l. 10) batch | None \<Rightarrow> [])
        @ (case u of Some ms \<Rightarrow> ms | None \<Rightarrow> [])
        @ (case gs_clipboard s1 of Some t \<Rightarrow> clipboard_messages Clipboard t | None \<Rightarrow> [])"
    have s1: "s1 = scrolling_sender\<lparr>gs_last_cycle := Some 20\<rparr>" by (simp add: P(1) drain_notices_def)
    have "scrolled = 1"
      using P(2,3) cap R(2-4) screen unfolding s1
      by (auto simp: scrolled_since_def owed_def scrolling_sender_def screen_of_def sample_second_def sample_terminal_def plain_modes_def split: if_splits)
    then show ?thesis using frame some P(4) unfolding P(5) by auto
  qed
  then show ?thesis using shift_after_history [OF go sent] go by simp
qed

text \<open>
  What of the clipboard a client is to hold, from the events alone: the notices since the last live
  cycle, those the next one finds waiting included, and of these the last write to the clipboard
  itself, whole, where it is within 8 MiB. A live cycle is a read once the screen was sent and the
  catch-up is over.
\<close>

definition clipboard_texts :: "notice list \<Rightarrow> byte list list" where
  "clipboard_texts ns = concat (map (\<lambda>n. case n of NoticeClipboard EmulatorClipboard txt \<Rightarrow> [concat txt] | _ \<Rightarrow> []) ns)"

definition clipboard_handed :: "notice list \<Rightarrow> (clipboard_target \<times> byte list) list" where
  "clipboard_handed ns = (let texts = clipboard_texts ns in
     if texts \<noteq> [] \<and> length (last texts) \<le> 8 * 1024 * 1024 then [(Clipboard, last texts)] else [])"

definition clipboard_event :: "(grid_row \<Rightarrow> nat) \<Rightarrow> (grid_link \<Rightarrow> nat) \<Rightarrow> nat \<Rightarrow> sender_event
    \<Rightarrow> grid_sender \<times> notice list \<times> (clipboard_target \<times> byte list) list
    \<Rightarrow> grid_sender \<times> notice list \<times> (clipboard_target \<times> byte list) list" where
  "clipboard_event row_len link_len scrollback ev = (\<lambda>(s, since, got).
     (snd (sender_on row_len link_len scrollback ev s), case ev of
        Noticed n \<Rightarrow> (since @ [n], got)
      | Reads now e liveness ns \<Rightarrow>
          if gs_screen s \<noteq> None \<and> gs_target s = None then ([], got @ clipboard_handed (since @ ns)) else (since, got)))"

definition clipboard_writes :: "(grid_row \<Rightarrow> nat) \<Rightarrow> (grid_link \<Rightarrow> nat) \<Rightarrow> nat \<Rightarrow> sender_event list \<Rightarrow> (clipboard_target \<times> byte list) list" where
  "clipboard_writes row_len link_len scrollback evs =
     snd (snd (fold (clipboard_event row_len link_len scrollback) evs (sender_new, [], [])))"

text \<open>What the sender keeps is the last of them.\<close>

definition kept_text :: "notice list \<Rightarrow> byte list list option \<Rightarrow> byte list list option" where
  "kept_text ns clip = fold (\<lambda>n clip. case n of NoticeClipboard EmulatorClipboard txt \<Rightarrow> Some txt | _ \<Rightarrow> clip) ns clip"

lemma stash_clip: "gs_clipboard (stash n s) = kept_text [n] (gs_clipboard s)"
  by (simp add: stash_def kept_text_def clipboard_target_of_def split: notice.split emulator_target.split)

lemma kept_text_append: "kept_text (ns @ ns') clip = kept_text ns' (kept_text ns clip)"
  by (simp add: kept_text_def)

lemma drain_clip: "gs_clipboard (drain_notices ns s) = kept_text ns (gs_clipboard s)"
proof (induction ns arbitrary: s)
  case (Cons n ns)
  have "gs_clipboard (drain_notices (n # ns) s) = kept_text ns (kept_text [n] (gs_clipboard s))"
    using Cons [of "stash n s"] by (simp add: drain_notices_def stash_clip)
  then show ?case using kept_text_append [of "[n]" ns] by simp
qed (simp add: drain_notices_def kept_text_def)

lemma clipboard_texts_snoc: "clipboard_texts (ns @ [n]) = clipboard_texts ns
    @ (case n of NoticeClipboard EmulatorClipboard txt \<Rightarrow> [concat txt] | _ \<Rightarrow> [])"
  by (simp add: clipboard_texts_def)

lemma kept_text_snoc: "kept_text (ns @ [n]) clip
    = (case n of NoticeClipboard EmulatorClipboard txt \<Rightarrow> Some txt | _ \<Rightarrow> kept_text ns clip)"
  by (cases n) (simp_all add: kept_text_def split: emulator_target.split)

lemma kept_text_last:
  "map_option concat (kept_text ns None) = (if clipboard_texts ns = [] then None else Some (last (clipboard_texts ns)))"
proof (induction ns rule: rev_induct)
  case (snoc n ns)
  then show ?case
    by (cases n) (auto simp: kept_text_snoc clipboard_texts_snoc split: emulator_target.split)
qed (simp add: kept_text_def clipboard_texts_def)

lemma clipboard_handed_written: "written (kept_text ns None) = clipboard_handed ns"
  using kept_text_last [of ns]
  by (cases "kept_text ns None")
    (auto simp: written_def clipboard_handed_def Let_def GRID_MAX_CLIPBOARD_BYTES_def split: if_splits)

text \<open>Without a clipboard message the client's writes stay as they are, and the catch-up sends none.\<close>

lemma client_apply_clip:
  assumes "client_apply m c = Some c'" "\<not> is_clipboard m"
  shows "gl_clipboard c' = gl_clipboard c"
proof -
  obtain chk where "apply_accepted m (c\<lparr>gl_check := chk\<rparr>) = Some c'"
    using assms(1) by (auto simp: client_apply_def split: sum.splits prod.splits)
  then show ?thesis
    using assms(2) by (cases m) (auto simp: is_clipboard_def Let_def split: if_splits)
qed

lemma client_run_clip:
  "client_run ms c = Some c' \<Longrightarrow> \<forall>m\<in>set ms. \<not> is_clipboard m \<Longrightarrow> gl_clipboard c' = gl_clipboard c"
proof (induction ms arbitrary: c)
  case (Cons m ms)
  then obtain c1 where c1: "client_apply m c = Some c1" "client_run ms c1 = Some c'" by (auto split: option.splits)
  then show ?case using Cons.IH [OF c1(2)] client_apply_clip [OF c1(1)] Cons.prems(2) by simp
qed simp

lemma kind_not_clip: "is_history m \<Longrightarrow> \<not> is_clipboard m" "is_rows m \<Longrightarrow> \<not> is_clipboard m"
  by (cases m; simp add: is_history_def is_rows_def is_clipboard_def)+

lemma update_not_clip:
  assumes "sent_update row_len link_len sn scrolled sent = (Some ms, sent')"
  shows "\<forall>m\<in>set ms. \<not> is_clipboard m"
proof -
  have rs: "\<forall>m\<in>set (rows_messages row_len link_len placed). \<not> is_clipboard m" for placed
    using rows_loop_kind [of "[]"] kind_not_clip(2) by (simp add: rows_messages_def)
  obtain placed fr where "ms = rows_messages row_len link_len placed @ [fr]" "\<not> is_clipboard fr"
    using assms by (auto simp: sent_update_def is_clipboard_def Let_def split: prod.splits if_splits)
  then show ?thesis using rs by auto
qed

lemma catch_up_clip:
  assumes "catch_up row_len link_len scrollback e liveness s = (out, s')"
  shows "(\<forall>m\<in>set out. \<not> is_clipboard m) \<and> gs_clipboard s' = gs_clipboard s"
proof -
  obtain batch h' where read: "read_history e (relayouts e) CATCH_UP_LINES (gs_history s) = (batch, h')"
    by (cases "read_history e (relayouts e) CATCH_UP_LINES (gs_history s)")
  obtain u sent where up: "sent_update row_len link_len (screen_of e) 0 (after_hello (em_cols e) (em_lines e)) = (u, sent)"
    by (cases "sent_update row_len link_len (screen_of e) 0 (after_hello (em_cols e) (em_lines e))")
  have "u \<noteq> None" using up by (auto simp: sent_update_def after_hello_def Let_def split: prod.splits if_splits)
  then obtain ms where u: "u = Some ms" by blast
  have ms: "\<forall>m\<in>set ms. \<not> is_clipboard m" by (rule update_not_clip [OF up [unfolded u]])
  define s1 where "s1 = s\<lparr>gs_history := h', gs_sent_state := Some (with_exit (terminal_state_of e) liveness), gs_screen := Some sent\<rparr>"
  obtain out' where B: "catch_up_batch row_len link_len (hb_end batch) batch s1 = (out', s')"
    "out = [GridHello (em_cols e) (em_lines e) (min scrollback GRID_MAX_HISTORY_CAP), GridState (with_exit (terminal_state_of e) liveness)] @ ms @ out'"
    using assms by (auto simp: catch_up_def read screen_of_sel up u s1_def Let_def split: prod.splits)
  have "out' = send_history row_len link_len batch" "gs_clipboard s' = gs_clipboard s"
    using B(1) by (auto simp: catch_up_batch_def s1_def)
  moreover have "\<forall>m\<in>set (send_history row_len link_len batch). \<not> is_clipboard m"
    using send_history_kind kind_not_clip(1) by blast
  ultimately show ?thesis using ms unfolding B(2) by (auto simp: is_clipboard_def)
qed

lemma catch_up_next_clip:
  assumes "catch_up_next row_len link_len target e s = (out, s')"
  shows "(\<forall>m\<in>set out. \<not> is_clipboard m) \<and> gs_clipboard s' = gs_clipboard s"
  using assms send_history_kind kind_not_clip(1)
  by (fastforce simp: catch_up_next_def catch_up_batch_def split: prod.splits if_splits)

lemma cycle_clip: "cycle row_len link_len now e liveness ns s = (out, s') \<Longrightarrow> gs_clipboard s' = None"
  by (auto simp: cycle_def Let_def split: prod.splits)

text \<open>
  C32: Clipboard writes reach the client, the latest one whole. After any run of the sender over
  states of one terminal and its notices, the client, which accepts every message, has been handed
  exactly this: for every live cycle, the last write to the clipboard among the notices since the
  cycle before it, complete, unless it is over 8 MiB; nothing for a cycle without one, nothing
  during the catch-up, and never a write to the primary selection.
\<close>

theorem client_gets_clipboard:
  assumes "events_ok evs" "sender_run row_len link_len scrollback evs sender_new = (ms, s)"
  shows "\<exists>c. client_run ms client_new = Some c \<and> gl_clipboard c = clipboard_writes row_len link_len scrollback evs"
proof -
  let ?track = "\<lambda>evs. fold (clipboard_event row_len link_len scrollback) evs (sender_new, [], [])"
  have "\<exists>c since. client_run ms client_new = Some c \<and> sender_inv row_len link_len scrollback (emulators evs) s c
      \<and> ?track evs = (s, since, gl_clipboard c) \<and> gs_clipboard s = kept_text since None"
    using assms
  proof (induction evs arbitrary: ms s rule: rev_induct)
    case Nil
    then have "ms = []" "s = sender_new" by simp_all
    then show ?case using sender_inv_new by (simp add: kept_text_def) (simp add: sender_new_def client_new_def)
  next
    case (snoc ev evs)
    obtain ms0 s0 out where run: "sender_run row_len link_len scrollback evs sender_new = (ms0, s0)"
      "sender_on row_len link_len scrollback ev s0 = (out, s)" "ms = ms0 @ out"
      using snoc.prems(2) by (auto simp: sender_run_snoc split: prod.splits)
    obtain c since where c: "client_run ms0 client_new = Some c" "sender_inv row_len link_len scrollback (emulators evs) s0 c"
      "?track evs = (s0, since, gl_clipboard c)" "gs_clipboard s0 = kept_text since None"
      using snoc.IH [OF _ run(1)] events_ok_snoc [OF snoc.prems(1)] by blast
    obtain c' where c': "client_run out c = Some c'" "sender_inv row_len link_len scrollback (emulators (evs @ [ev])) s c'"
      "case ev of Noticed n \<Rightarrow> True | Reads now e liveness ns \<Rightarrow> gs_target s0 = None \<longrightarrow> shows_terminal row_len link_len e liveness c'
         \<and> (gs_screen s0 \<noteq> None \<longrightarrow> gl_clipboard c' = gl_clipboard c @ written (gs_clipboard (drain_notices ns s0)))"
      using sender_on_ok [OF c(2) snoc.prems(1) run(2)] by blast
    have all: "client_run ms client_new = Some c'" using c(1) c'(1) run(3) by (simp add: client_run_append)
    have track: "?track (evs @ [ev]) = clipboard_event row_len link_len scrollback ev (s0, since, gl_clipboard c)"
      using c(3) by simp
    have "\<exists>since'. ?track (evs @ [ev]) = (s, since', gl_clipboard c') \<and> gs_clipboard s = kept_text since' None"
    proof (cases ev)
      case (Noticed n)
      then have "out = []" "s = stash n s0" using run(2) by (simp_all add: sender_on_def)
      then show ?thesis
        using c(4) c'(1) run(2) unfolding track by (simp add: clipboard_event_def Noticed stash_clip kept_text_append)
    next
      case (Reads now e liveness ns)
      show ?thesis
      proof (cases "gs_screen s0 \<noteq> None \<and> gs_target s0 = None")
        case True
        then have "cycle row_len link_len now e liveness ns s0 = (out, s)" using run(2) by (auto simp: sender_on_def Reads)
        from cycle_clip [OF this] have "gs_clipboard s = kept_text [] None" by (simp add: kept_text_def)
        moreover have "gl_clipboard c' = gl_clipboard c @ clipboard_handed (since @ ns)"
          using c'(3) True c(4) by (simp add: Reads drain_clip clipboard_handed_written [symmetric] kept_text_append)
        ultimately show ?thesis using True run(2) unfolding track by (simp add: clipboard_event_def Reads)
      next
        case False
        have "(\<forall>m\<in>set out. \<not> is_clipboard m) \<and> gs_clipboard s = gs_clipboard s0"
        proof (cases "gs_screen s0")
          case None
          then show ?thesis using run(2) catch_up_clip by (simp add: sender_on_def Reads)
        next
          case (Some sent)
          then obtain target where "gs_target s0 = Some target" using False by auto
          then show ?thesis using run(2) Some catch_up_next_clip by (simp add: sender_on_def Reads)
        qed
        then have "gl_clipboard c' = gl_clipboard c" "gs_clipboard s = kept_text since None"
          using client_run_clip [OF c'(1)] c(4) by simp_all
        then show ?thesis using False run(2) unfolding track by (auto simp: clipboard_event_def Reads)
      qed
    qed
    then show ?case using all c'(2) by blast
  qed
  then show ?thesis by (auto simp: clipboard_writes_def)
qed

lemma client_gets_clipboard_witness:
  "\<exists>c. client_run (fst (sender_run (\<lambda>r. 10) (\<lambda>l. 10) 100
      [Reads 0 sample_first LvRunning [], Reads 8 sample_second LvRunning [NoticeClipboard EmulatorClipboard [[104], [105]],
         NoticeClipboard EmulatorClipboard [[106]], NoticeClipboard EmulatorSelection [[107]]]] sender_new)) client_new = Some c
    \<and> gl_clipboard c = [(Clipboard, [106])]"
proof -
  define ns where "ns = [NoticeClipboard EmulatorClipboard [[104], [105]], NoticeClipboard EmulatorClipboard [[106]],
    NoticeClipboard EmulatorSelection [[107]]]"
  let ?evs = "[Reads 0 sample_first LvRunning [], Reads 8 sample_second LvRunning ns]"
  obtain out s where first: "sender_on (\<lambda>r. 10) (\<lambda>l. 10) 100 (Reads 0 sample_first LvRunning []) sender_new = (out, s)"
    by (cases "sender_on (\<lambda>r. 10) (\<lambda>l. 10) 100 (Reads 0 sample_first LvRunning []) sender_new")
  have live: "gs_screen s \<noteq> None" "gs_target s = None"
    using first sample_attached [of "\<lambda>r. 10" "\<lambda>l. 10" 100 sender_new out s] by (auto simp: sender_on_def sender_new_def)
  have got: "clipboard_handed ns = [(Clipboard, [106])]" by (simp add: clipboard_handed_def clipboard_texts_def ns_def)
  have "gs_screen sender_new = None" by (simp add: sender_new_def)
  then have writes: "clipboard_writes (\<lambda>r. 10) (\<lambda>l. 10) 100 ?evs = [(Clipboard, [106])]"
    using first live got by (simp add: clipboard_writes_def clipboard_event_def)
  have "events_ok ?evs"
    using sample_events_ok by (auto simp: events_ok_def sample_events_def event_ok_def emulators_def ns_def notice_ok_def chars_ok_def)
  moreover obtain ms s' where run: "sender_run (\<lambda>r. 10) (\<lambda>l. 10) 100 ?evs sender_new = (ms, s')"
    by (cases "sender_run (\<lambda>r. 10) (\<lambda>l. 10) 100 ?evs sender_new")
  ultimately obtain c where "client_run ms client_new = Some c" "gl_clipboard c = [(Clipboard, [106])]"
    using client_gets_clipboard [of ?evs] writes by metis
  then show ?thesis using run unfolding ns_def by auto
qed

end
