(* ===== verification/Packing_Properties.thy ===== *)
theory Packing_Properties
  imports Client_Facts
begin

text \<open>
  What packing promises: every row and line comes back from its messages, every message is one the
  format accepts and within its size, and a clipboard write's parts are whole characters that fit.
\<close>

lemma given_up_none:
  assumes "list_all2 (gives_up row_len link_len) sent lines" "index_cost row_len" "\<forall>row\<in>set lines. row_sendable row_len link_len row"
  shows "sent = lines"
  using assms by (induction sent lines rule: list_all2_induct) (auto simp: gives_up_def)

lemma given_up_none_rows:
  assumes "list_all2 (\<lambda>(y', r') (y, r). y' = y \<and> gives_up row_len link_len r' r) sent placed" "index_cost row_len"
    and "\<forall>(y, row)\<in>set placed. row_sendable row_len link_len row"
  shows "sent = placed"
  using assms by (induction sent placed rule: list_all2_induct) (auto simp: gives_up_def)

text \<open>
  C27: Changed rows are packed without loss and within the size of a message. When every row fits a
  message of its own with its links, the rows of the messages, with their links looked up in each
  message's table, are the rows given, in order; each message is one the format accepts, holds at
  least one row, stays within the largest message by the JSON lengths of its rows and links, and is
  past the size aimed at only if it is a single row.
\<close>

theorem rows_packed:
  assumes placed: "\<forall>(y, row)\<in>set placed. y < GRID_MAX_DIMENSION \<and> row_ok w row \<and> row_sendable row_len link_len row"
    and w: "w \<le> GRID_MAX_DIMENSION" and cost: "index_cost row_len"
  shows "concat (map message_rows (rows_messages row_len link_len placed)) = map (\<lambda>(y, row). (y, Some row)) placed
    \<and> (\<forall>m\<in>set (rows_messages row_len link_len placed). validate_output m = Inr () \<and> (case m of
        GridRows rs links \<Rightarrow> rs \<noteq> [] \<and> counted row_len link_len (map sr_row rs) links + ENVELOPE \<le> GRID_MAX_MESSAGE
          \<and> (counted row_len link_len (map sr_row rs) links \<le> MESSAGE_TARGET \<or> length rs = 1)
      | _ \<Rightarrow> False))"
proof -
  let ?ms = "rows_messages row_len link_len placed"
  have fine: "\<forall>(y, row)\<in>set placed. row_ok w row" and send: "\<forall>(y, row)\<in>set placed. row_sendable row_len link_len row" using placed by auto
  obtain sent where S: "concat (map message_rows ?ms) = map (\<lambda>(y, r). (y, Some r)) sent"
    "list_all2 (\<lambda>(y', r') (y, r). y' = y \<and> gives_up row_len link_len r' r) sent placed"
    "\<forall>m\<in>set ?ms. rows_message_ok row_len link_len (index_cost row_len \<and> (\<forall>(y, row)\<in>set placed. row_sendable row_len link_len row)) w m"
    by (rule rows_messages_ok [OF fine])
  have whole: "concat (map message_rows ?ms) = map (\<lambda>(y, row). (y, Some row)) placed"
    using S(1) given_up_none_rows [OF S(2) cost send] by simp
  have "validate_output m = Inr () \<and> (case m of
        GridRows rs links \<Rightarrow> rs \<noteq> [] \<and> counted row_len link_len (map sr_row rs) links + ENVELOPE \<le> GRID_MAX_MESSAGE
          \<and> (counted row_len link_len (map sr_row rs) links \<le> MESSAGE_TARGET \<or> length rs = 1)
      | _ \<Rightarrow> False)" if m: "m \<in> set ?ms" for m
  proof -
    obtain rs links where R: "m = GridRows rs links" "rs \<noteq> []" "packs row_len link_len True w (map sr_row rs) links"
      using bspec [OF S(3) m] cost send by (cases m) (simp_all add: rows_message_ok_def)
    have ys: "sr_y r < GRID_MAX_DIMENSION" if r: "r \<in> set rs" for r
    proof -
      have "(sr_y r, resolve_row (sr_row r) links) \<in> set (concat (map message_rows ?ms))"
        using m r by (force simp: R(1) message_rows_def)
      then show ?thesis unfolding whole using placed by auto
    qed
    have "validate_output m = Inr ()"
      using R(3) ys w link_ok_valid validate_row_wider
      by (fastforce simp: R(1) packs_def try_bind_eq_Inr try_all_eq_Inr)
    then show ?thesis using R by (simp add: packs_def)
  qed
  then show ?thesis using whole by blast
qed

text \<open>
  C28: History lines that fit a message are packed without loss, numbered and within the size of a
  message. Where every line is a well-formed row of the width that fits a message of its own with
  all the links it names (a line with more of them gives links up and is outside this theorem),
  numbering stays within the greatest line number and the indices of its links cost a row at most
  four bytes for each run with one and eight more, the lines of the messages, with their links looked up, are the lines given, numbered
  from the first; each message starts where the one before it ended and is one the format accepts,
  within the largest message.
\<close>

theorem history_packed:
  assumes lines: "\<forall>row\<in>set lines. row_ok w row \<and> row_sendable row_len link_len row" and w: "dimension_ok w"
    and cost: "index_cost row_len" and fits: "first' + length lines \<le> GRID_MAX_LINE_NUMBER + 1"
  shows "concat (map message_lines (history_messages row_len link_len first' w lines)) = map (\<lambda>(i, row). (i, w, Some row)) (enumerate first' lines)
    \<and> chained first' (history_messages row_len link_len first' w lines) (first' + length lines)
    \<and> (\<forall>m\<in>set (history_messages row_len link_len first' w lines). validate_output m = Inr () \<and> (case m of
        GridHistory n cols' rs links \<Rightarrow> counted row_len link_len rs links + ENVELOPE \<le> GRID_MAX_MESSAGE
          \<and> (counted row_len link_len rs links \<le> MESSAGE_TARGET \<or> length rs = 1)
      | _ \<Rightarrow> False))"
proof -
  let ?ms = "history_messages row_len link_len first' w lines"
  have fine: "\<forall>row\<in>set lines. row_ok w row" and send: "\<forall>row\<in>set lines. row_sendable row_len link_len row" using lines by auto
  obtain sent where S: "concat (map message_lines ?ms) = map (\<lambda>(i, r). (i, w, Some r)) (enumerate first' sent)"
    "list_all2 (gives_up row_len link_len) sent lines" "chained first' ?ms (first' + length lines)"
    "\<forall>m\<in>set ?ms. history_message_ok row_len link_len (index_cost row_len \<and> (\<forall>row\<in>set lines. row_sendable row_len link_len row)) w m"
    by (rule history_messages_ok [OF fine])
  have "validate_output m = Inr () \<and> (case m of
        GridHistory n cols' rs links \<Rightarrow> counted row_len link_len rs links + ENVELOPE \<le> GRID_MAX_MESSAGE
          \<and> (counted row_len link_len rs links \<le> MESSAGE_TARGET \<or> length rs = 1)
      | _ \<Rightarrow> False)" if m: "m \<in> set ?ms" for m
  proof -
    obtain n rs links where R: "m = GridHistory n w rs links" "rs \<noteq> []" "packs row_len link_len True w rs links"
      using bspec [OF S(4) m] cost send by (cases m) (simp_all add: history_message_ok_def)
    have "n + length rs \<le> first' + length lines" using S(3) m unfolding R(1) by (rule chained_within)
    moreover have "0 < length rs" using R(2) by simp
    ultimately have at: "n + length rs \<le> GRID_MAX_LINE_NUMBER + 1" "n \<le> GRID_MAX_LINE_NUMBER" using fits by linarith+
    have "validate_output m = Inr ()"
      using R(3) at w link_ok_valid by (auto simp: R(1) packs_def try_bind_eq_Inr try_all_eq_Inr)
    then show ?thesis using R by (simp add: packs_def)
  qed
  then show ?thesis using S(1,3) given_up_none [OF S(2) cost send] by simp
qed

definition sample_link :: grid_link where
  "sample_link = \<lparr>lk_id = [49], lk_uri = [104, 58]\<rparr>"

definition linked_row :: cell_row where
  "linked_row = \<lparr>cw_wraps = False, cw_runs = [\<lparr>ce_col = 1, ce_width = 2, ce_text = [104, 105], ce_style = style_plain, ce_link = Some sample_link\<rparr>]\<rparr>"

lemma linked_row_ok: "row_ok 6 linked_row \<and> row_sendable (\<lambda>r. 10) (\<lambda>l. 10) linked_row"
  by (simp add: row_ok_def linked_row_def runs_ok_def in_order_def cell_run_ok_def is_ascii_run_def ce_end_def links_of_def link_ok_def
      row_sendable_def new_links_def link_json_len_def ENVELOPE_def sample_link_def
      GRID_MAX_LINKS_def GRID_MAX_MESSAGE_def GRID_MAX_LINK_ID_BYTES_def GRID_MAX_LINK_URI_BYTES_def)

lemma sample_cost: "index_cost (\<lambda>r. 10)"
  by (simp add: index_cost_def)

lemma rows_packed_witness:
  "concat (map message_rows (rows_messages (\<lambda>r. 10) (\<lambda>l. 10) [(3, linked_row)])) = [(3, Some linked_row)]"
  using rows_packed [of "[(3, linked_row)]" 6 "\<lambda>r. 10" "\<lambda>l. 10"] linked_row_ok sample_cost by (simp add: GRID_MAX_DIMENSION_def)

lemma history_packed_witness:
  "concat (map message_lines (history_messages (\<lambda>r. 10) (\<lambda>l. 10) 7 6 [linked_row, linked_row])) = [(7, 6, Some linked_row), (8, 6, Some linked_row)]"
  using history_packed [of "[linked_row, linked_row]" 6 "\<lambda>r. 10" "\<lambda>l. 10" 7] linked_row_ok sample_cost
  by (simp add: GRID_MAX_DIMENSION_def dimension_ok_def GRID_MAX_LINE_NUMBER_def)

text \<open>
  A clipboard write is sent whole or not at all. A write past the longest is not sent; any other
  is sent as parts whose bytes joined are the text, the last one marked, each of them whole
  characters, within the longest part, and within a message even with its JSON escapes.
\<close>

theorem clipboard_whole:
  assumes "chars_ok txt"
  shows "if GRID_MAX_CLIPBOARD_BYTES < length (concat txt) then clipboard_messages target txt = []
    else \<exists>parts. clipboard_messages target txt = map (\<lambda>at. GridClipboard target (parts ! at) (at + 1 = length parts)) [0..<length parts]
      \<and> parts \<noteq> [] \<and> concat parts = concat txt
      \<and> (\<forall>part\<in>set parts. length part \<le> GRID_MAX_CLIPBOARD_PART_BYTES
          \<and> (\<exists>chs. part = concat chs \<and> chars_ok chs \<and> escaped_size chs + ENVELOPE \<le> GRID_MAX_MESSAGE))"
proof (cases "GRID_MAX_CLIPBOARD_BYTES < length (concat txt)")
  case False
  have "concat (clipboard_parts txt [] [] 0) = concat txt \<and> (\<forall>p\<in>set (clipboard_parts txt [] [] 0). part_ok p) \<and> clipboard_parts txt [] [] 0 \<noteq> []"
    using clipboard_parts_ok [OF assms, of "[]" "[]" "[]" 0]
    by (simp add: chars_ok_def escaped_size_def ENVELOPE_def GRID_MAX_MESSAGE_def)
  then show ?thesis using False
    by (auto simp: clipboard_messages_def Let_def part_ok_def intro!: exI [of _ "clipboard_parts txt [] [] 0"])
qed (simp add: clipboard_messages_def)

lemma clipboard_whole_witness:
  "\<exists>parts. clipboard_messages Clipboard [[104], [0xC3, 0xA9], [10]] = map (\<lambda>at. GridClipboard Clipboard (parts ! at) (at + 1 = length parts)) [0..<length parts]
    \<and> concat parts = [104, 0xC3, 0xA9, 10]"
  using clipboard_whole [of "[[104], [0xC3, 0xA9], [10]]" Clipboard]
  by (auto simp: chars_ok_def GRID_MAX_CLIPBOARD_BYTES_def)

end
