(* ===== verification/Frames.thy ===== *)
theory Frames
  imports Prelude
begin

text \<open>
  The frames helm and supervisor exchange over any byte stream (\<^verbatim>\<open>Frame\<close> in
  \<^verbatim>\<open>crates/farhelm-proto/src/lib.rs\<close>) and their reading, writing and first exchange
  (\<^verbatim>\<open>crates/farhelm-proto/src/io.rs\<close>). What the transport answers is explicit: the pieces a reader
  is given, in order, and the windows a write takes.
\<close>

subsection \<open>Frames\<close>

datatype frame_kind = ControlFrame | DataFrame

record peer_frame =
  pf_kind :: frame_kind
  pf_channel :: u32
  pf_body :: "byte list"

definition MAX_FRAME_LEN :: nat where "MAX_FRAME_LEN = 8 * 1024 * 1024"

datatype frame_error = TooLarge nat | FrameTruncated nat nat | UnknownKind byte

definition encoded_len :: "peer_frame \<Rightarrow> nat" where
  "encoded_len f = 5 + length (pf_body f)"

definition exceeds_max_len :: "peer_frame \<Rightarrow> bool" where
  "exceeds_max_len f \<longleftrightarrow> MAX_FRAME_LEN < encoded_len f"

text \<open>Appended to what the buffer holds, which an error leaves as it is.\<close>

definition encode_frame :: "peer_frame \<Rightarrow> byte list \<Rightarrow> (frame_error + unit) \<times> byte list" where
  "encode_frame f out =
     (let len = encoded_len f in
      if MAX_FRAME_LEN < len then (Inl (TooLarge len), out)
      else (Inr (), out @ be 4 len @ [case pf_kind f of ControlFrame \<Rightarrow> 0 | DataFrame \<Rightarrow> 1] @ be 4 (unat (pf_channel f)) @ pf_body f))"

definition decode_frame :: "byte list \<Rightarrow> frame_error + (peer_frame \<times> nat) option" where
  "decode_frame buf =
     (if length buf < 4 then Inr None
      else let len = de (take 4 buf) in
        if MAX_FRAME_LEN < len then Inl (TooLarge len)
        else if len < 5 then Inl (FrameTruncated 5 len)
        else let total = 4 + len in
          if length buf < total then Inr None
          else let body = \<lambda>kind. Inr (Some (\<lparr>pf_kind = kind, pf_channel = of_nat (de (take 4 (drop 5 buf))), pf_body = take (total - 9) (drop 9 buf)\<rparr>, total)) in
            if buf ! 4 = 0 then body ControlFrame
            else if buf ! 4 = 1 then body DataFrame
            else Inl (UnknownKind (buf ! 4)))"

subsection \<open>Reading\<close>

record version_skew =
  vs_peer_protocol :: nat
  vs_peer_build :: "byte list"
  vs_our_protocol :: nat
  vs_our_build :: "byte list"
  vs_peer_database_schema :: "int option"

text \<open>What the stream answers a read: bytes, none of them being its end, or an error.\<close>

datatype stream_read = Got "byte list" | ReadFailed

datatype peer_failure = BadFrame frame_error | StreamError | MidFrame nat | BadJson | ClosedBeforeHello
  | NotHello | HelloTooLong string nat nat | VersionRefused version_skew

text \<open>Read the next whole frame: \<open>None\<close> is a close between frames.\<close>

fun read_frame :: "stream_read list \<Rightarrow> byte list \<Rightarrow> (peer_failure + peer_frame option) \<times> byte list \<times> stream_read list" where
  "read_frame reads buf = (case decode_frame buf of
     Inl e \<Rightarrow> (Inl (BadFrame e), buf, reads)
   | Inr (Some (f, used)) \<Rightarrow> (Inr (Some f), drop used buf, reads)
   | Inr None \<Rightarrow> (case reads of
       [] \<Rightarrow> (if buf = [] then Inr None else Inl (MidFrame (length buf)), buf, [])
     | ReadFailed # rest \<Rightarrow> (Inl StreamError, buf, rest)
     | Got bs # rest \<Rightarrow>
         (if bs = [] then (if buf = [] then Inr None else Inl (MidFrame (length buf)), buf, rest)
          else read_frame rest (buf @ bs))))"

declare read_frame.simps [simp del]

text \<open>What a reader that goes on until the close or an error gets.\<close>

fun read_all :: "nat \<Rightarrow> stream_read list \<Rightarrow> byte list \<Rightarrow> peer_frame list \<times> peer_failure option" where
  "read_all 0 reads buf = ([], None)"
| "read_all (Suc n) reads buf = (case read_frame reads buf of
     (Inl e, buf, reads) \<Rightarrow> ([], Some e)
   | (Inr None, buf, reads) \<Rightarrow> ([], None)
   | (Inr (Some f), buf, reads) \<Rightarrow> (let (fs, e) = read_all n reads buf in (f # fs, e)))"

subsection \<open>Writing\<close>

text \<open>How the write of one frame goes on in each window: done, failed, or still going with so many bytes taken.\<close>

datatype write_window = WriteDone | WriteFailed | Took nat

datatype write_end = Written | WriteError | PeerStalled

fun write_before_stall :: "write_window list \<Rightarrow> write_end option" where
  "write_before_stall [] = None"
| "write_before_stall (WriteDone # ws) = Some Written"
| "write_before_stall (WriteFailed # ws) = Some WriteError"
| "write_before_stall (Took n # ws) = (if n = 0 then Some PeerStalled else write_before_stall ws)"

subsection \<open>The first exchange\<close>

definition PEER_PROTOCOL :: nat where "PEER_PROTOCOL = 68"
definition MAX_BUILD_VERSION_BYTES :: nat where "MAX_BUILD_VERSION_BYTES = 256"
definition MAX_HOST_IDENTITY_BYTES :: nat where "MAX_HOST_IDENTITY_BYTES = 256"
definition MAX_SESSION_ID_BYTES :: nat where "MAX_SESSION_ID_BYTES = 1024"
definition MAX_SESSION_AUTH_TOKEN_BYTES :: nat where "MAX_SESSION_AUTH_TOKEN_BYTES = 128"

record session_auth =
  sa_session_id :: "byte list"
  sa_token :: "byte list"

record peer_hello =
  ph_protocol_version :: nat
  ph_build_version :: "byte list"
  ph_role :: "byte list"
  ph_host_identity :: "byte list option"
  ph_auth :: "session_auth option"
  ph_database_schema :: "int option"

text \<open>The control messages of the exchange: a hello, and an \<^verbatim>\<open>Error\<close> of kind \<^verbatim>\<open>Internal\<close> for no request, with its text.\<close>

datatype control_msg = HelloMsg peer_hello | RefusalMsg "byte list" | OtherMsg

definition check_hello_length :: "string \<Rightarrow> byte list \<Rightarrow> nat \<Rightarrow> peer_failure + unit" where
  "check_hello_length field value' cap = guard_err (cap < length value') (HelloTooLong field (length value') cap)"

definition check_hello :: "peer_hello \<Rightarrow> peer_failure + unit" where
  "check_hello h =
     try_bind (check_hello_length ''build_version'' (ph_build_version h) MAX_BUILD_VERSION_BYTES) (\<lambda>_.
     try_bind (case ph_host_identity h of Some identity \<Rightarrow> check_hello_length ''host_identity'' identity MAX_HOST_IDENTITY_BYTES | None \<Rightarrow> Inr ()) (\<lambda>_.
     case ph_auth h of
       Some auth \<Rightarrow>
         try_bind (check_hello_length ''auth.session_id'' (sa_session_id auth) MAX_SESSION_ID_BYTES) (\<lambda>_.
         check_hello_length ''auth.token'' (sa_token auth) MAX_SESSION_AUTH_TOKEN_BYTES)
     | None \<Rightarrow> Inr ()))"

definition skew_text :: "version_skew \<Rightarrow> byte list" where
  "skew_text s = ascii ''protocol version mismatch: peer speaks v'' @ decimal (vs_peer_protocol s) @ ascii '' (build '' @ vs_peer_build s
     @ ascii ''), this side speaks v'' @ decimal (vs_our_protocol s) @ ascii '' (build '' @ vs_our_build s
     @ ascii ''); update one side so the versions are compatible''"

definition skew_of :: "byte list \<Rightarrow> peer_hello \<Rightarrow> version_skew" where
  "skew_of build h = \<lparr>vs_peer_protocol = ph_protocol_version h, vs_peer_build = ph_build_version h, vs_our_protocol = PEER_PROTOCOL,
     vs_our_build = build, vs_peer_database_schema = ph_database_schema h\<rparr>"

definition control_frame :: "(control_msg \<Rightarrow> byte list) \<Rightarrow> control_msg \<Rightarrow> peer_frame" where
  "control_frame json m = \<lparr>pf_kind = ControlFrame, pf_channel = 0, pf_body = json m\<rparr>"

text \<open>
  What this side writes, and what it makes of the peer, with the JSON printer and parser and the
  name of this build as arguments. A frame that is too large is not written.
\<close>

definition written_frame :: "peer_frame \<Rightarrow> peer_failure + byte list" where
  "written_frame f = (case encode_frame f [] of (Inl e, out) \<Rightarrow> Inl (BadFrame e) | (Inr u, out) \<Rightarrow> Inr out)"

definition handshake_with_hello :: "(control_msg \<Rightarrow> byte list) \<Rightarrow> (byte list \<Rightarrow> control_msg option) \<Rightarrow> byte list \<Rightarrow> peer_hello \<Rightarrow> stream_read list
    \<Rightarrow> (peer_failure + peer_hello) \<times> byte list" where
  "handshake_with_hello json parse build hello reads =
     (case written_frame (control_frame json (HelloMsg hello)) of Inl e \<Rightarrow> (Inl e, [])
      | Inr sent \<Rightarrow>
        (case read_frame reads [] of
           (Inl e, buf, reads) \<Rightarrow> (Inl e, sent)
         | (Inr None, buf, reads) \<Rightarrow> (Inl ClosedBeforeHello, sent)
         | (Inr (Some f), buf, reads) \<Rightarrow>
             (case parse (pf_body f) of
                None \<Rightarrow> (Inl BadJson, sent)
              | Some (HelloMsg h) \<Rightarrow>
                  (case check_hello h of
                     Inl e \<Rightarrow> (Inl e, sent)
                   | Inr u \<Rightarrow>
                       if ph_protocol_version h = PEER_PROTOCOL then (Inr h, sent)
                       else (Inl (VersionRefused (skew_of build h)),
                         sent @ (case written_frame (control_frame json (RefusalMsg (skew_text (skew_of build h)))) of
                           Inl e \<Rightarrow> [] | Inr refusal \<Rightarrow> refusal)))
              | Some m \<Rightarrow> (Inl NotHello, sent))))"

text \<open>The hellos of this program's own sides.\<close>

definition hello_of_role :: "byte list \<Rightarrow> byte list \<Rightarrow> peer_hello" where
  "hello_of_role build role = \<lparr>ph_protocol_version = PEER_PROTOCOL, ph_build_version = build, ph_role = role,
     ph_host_identity = None, ph_auth = None, ph_database_schema = None\<rparr>"

definition supervisor_hello :: "byte list \<Rightarrow> byte list option \<Rightarrow> int \<Rightarrow> peer_hello" where
  "supervisor_hello build identity schema = (hello_of_role build (ascii ''supervisor''))\<lparr>ph_host_identity := identity, ph_database_schema := Some schema\<rparr>"

definition spawn_hello :: "byte list \<Rightarrow> session_auth \<Rightarrow> peer_hello" where
  "spawn_hello build auth = (hello_of_role build (ascii ''spawn''))\<lparr>ph_auth := Some auth\<rparr>"

end
