(* ===== verification/Frames_Properties.thy ===== *)
theory Frames_Properties
  imports Frames
begin

text \<open>
  Frames come back exactly from their bytes, one at a time, however the stream is cut, and the first
  exchange judges a peer by what its hello says.
\<close>

definition peer_frame_bytes :: "peer_frame \<Rightarrow> byte list" where
  "peer_frame_bytes f = be 4 (encoded_len f) @ [case pf_kind f of ControlFrame \<Rightarrow> 0 | DataFrame \<Rightarrow> 1] @ be 4 (unat (pf_channel f)) @ pf_body f"

lemma encode_frame_eq: "encode_frame f out = (if exceeds_max_len f then (Inl (TooLarge (encoded_len f)), out) else (Inr (), out @ peer_frame_bytes f))"
  by (simp add: encode_frame_def exceeds_max_len_def peer_frame_bytes_def Let_def)

lemma length_peer_frame_bytes: "length (peer_frame_bytes f) = 4 + encoded_len f"
  by (simp add: peer_frame_bytes_def encoded_len_def)

lemma length_prefix: "\<not> exceeds_max_len f \<Longrightarrow> de (be 4 (encoded_len f)) = encoded_len f"
  by (rule de_be) (simp add: exceeds_max_len_def MAX_FRAME_LEN_def)

lemma unat_channel: "unat (c :: u32) < 256 ^ 4"
  using unsigned_less [where 'a = nat, of c] by simp

lemma decode_frame_bytes:
  assumes "\<not> exceeds_max_len f"
  shows "decode_frame (peer_frame_bytes f @ rest) = Inr (Some (f, length (peer_frame_bytes f)))"
proof -
  define buf where "buf = peer_frame_bytes f @ rest"
  let ?len = "encoded_len f"
  have parts: "take 4 buf = be 4 ?len" "buf ! 4 = (case pf_kind f of ControlFrame \<Rightarrow> 0 | DataFrame \<Rightarrow> 1)"
    "take 4 (drop 5 buf) = be 4 (unat (pf_channel f))" "take (?len - 5) (drop 9 buf) = pf_body f"
    by (simp_all add: buf_def peer_frame_bytes_def encoded_len_def nth_append)
  have len: "5 \<le> ?len" "\<not> MAX_FRAME_LEN < ?len" using assms by (simp_all add: encoded_len_def exceeds_max_len_def)
  have size: "length buf = 4 + ?len + length rest" by (simp add: buf_def length_peer_frame_bytes)
  have channel: "of_nat (de (be 4 (unat (pf_channel f)))) = pf_channel f" using de_be [OF unat_channel] by simp
  have "decode_frame buf = Inr (Some (\<lparr>pf_kind = pf_kind f, pf_channel = pf_channel f, pf_body = pf_body f\<rparr>, 4 + ?len))"
    using len unfolding decode_frame_def Let_def parts(1,3) length_prefix [OF assms] size channel
    by (cases "pf_kind f") (simp_all add: parts)
  then show ?thesis by (simp add: buf_def length_peer_frame_bytes)
qed

lemma decode_frame_some:
  assumes "decode_frame buf = Inr (Some (f, n))"
  shows "\<not> exceeds_max_len f \<and> n = length (peer_frame_bytes f) \<and> buf = peer_frame_bytes f @ drop n buf"
proof -
  define len where "len = de (take 4 buf)"
  have D: "4 \<le> length buf" "len \<le> MAX_FRAME_LEN" "5 \<le> len" "4 + len \<le> length buf" "n = 4 + len"
    "pf_channel f = of_nat (de (take 4 (drop 5 buf)))" "pf_body f = take (len - 5) (drop 9 buf)"
    "buf ! 4 = (case pf_kind f of ControlFrame \<Rightarrow> 0 | DataFrame \<Rightarrow> 1)"
    using assms by (auto simp: decode_frame_def len_def Let_def not_less split: if_splits)
  have el: "encoded_len f = len" using D by (simp add: encoded_len_def)
  have "take 4 (drop 5 buf) = be 4 (unat (pf_channel f))"
  proof -
    have l: "length (take 4 (drop 5 buf)) = 4" using D by simp
    then have "de (take 4 (drop 5 buf)) < 2 ^ 32" using de_less [of "take 4 (drop 5 buf)"] by simp
    then have "unat (pf_channel f) = de (take 4 (drop 5 buf))" unfolding D(6) by (simp add: unat_of_nat take_bit_eq_mod)
    then show ?thesis using be_de [OF l] by simp
  qed
  moreover have "take 4 buf = be 4 len" using be_de [of "take 4 buf" 4] D(1) by (simp add: len_def)
  moreover have "buf = take 4 buf @ [buf ! 4] @ take 4 (drop 5 buf) @ take (len - 5) (drop 9 buf) @ drop (4 + len) buf"
  proof -
    have "buf = take 4 buf @ drop 4 buf" by simp
    also have "drop 4 buf = buf ! 4 # drop 5 buf" using D by (subst Cons_nth_drop_Suc [symmetric]) (simp_all add: eval_nat_numeral)
    also have "drop 5 buf = take 4 (drop 5 buf) @ drop 9 buf"
      using append_take_drop_id [of 4 "drop 5 buf"] by simp
    also have "drop 9 buf = take (len - 5) (drop 9 buf) @ drop (4 + len) buf"
      using append_take_drop_id [of "len - 5" "drop 9 buf"] D(3) by (simp add: add.commute)
    finally show ?thesis by simp
  qed
  ultimately show ?thesis using D el by (simp add: peer_frame_bytes_def exceeds_max_len_def encoded_len_def)
qed

text \<open>
  C37: A frame is taken off a buffer exactly when the buffer begins with that frame's bytes. Decoding
  gives a frame and a count precisely if the frame can be encoded, the buffer starts with its
  encoding, and the count is that encoding's length; so every frame that is sent comes back, and no
  other bytes are taken for one.
\<close>

theorem frame_decode_exact:
  "decode_frame buf = Inr (Some (f, n)) \<longleftrightarrow>
    (\<exists>bytes rest. encode_frame f [] = (Inr (), bytes) \<and> buf = bytes @ rest \<and> n = length bytes)"
proof
  assume "decode_frame buf = Inr (Some (f, n))"
  note D = decode_frame_some [OF this]
  show "\<exists>bytes rest. encode_frame f [] = (Inr (), bytes) \<and> buf = bytes @ rest \<and> n = length bytes"
  proof (intro exI conjI)
    show "encode_frame f [] = (Inr (), peer_frame_bytes f)" using D by (simp add: encode_frame_eq)
    show "buf = peer_frame_bytes f @ drop n buf" "n = length (peer_frame_bytes f)" using D by blast+
  qed
next
  assume "\<exists>bytes rest. encode_frame f [] = (Inr (), bytes) \<and> buf = bytes @ rest \<and> n = length bytes"
  then obtain rest where "\<not> exceeds_max_len f" "buf = peer_frame_bytes f @ rest" "n = length (peer_frame_bytes f)"
    by (auto simp: encode_frame_eq split: if_splits)
  then show "decode_frame buf = Inr (Some (f, n))" using decode_frame_bytes by simp
qed

subsection \<open>Cuts\<close>

lemma decode_frame_part:
  assumes "\<not> exceeds_max_len f" "peer_frame_bytes f = part @ more'" "more' \<noteq> []"
  shows "decode_frame part = Inr None"
proof -
  have lens: "length part < 4 + encoded_len f" using assms(2,3) length_peer_frame_bytes [of f] by (metis add_less_cancel_left length_append length_greater_0_conv less_add_same_cancel1)
  show ?thesis
  proof (cases "length part < 4")
    case False
    have "take 4 (peer_frame_bytes f) = be 4 (encoded_len f)" by (simp add: peer_frame_bytes_def)
    then have "take 4 part = be 4 (encoded_len f)" using False unfolding assms(2) by simp
    then have "de (take 4 part) = encoded_len f" using length_prefix [OF assms(1)] by simp
    then show ?thesis using False lens assms(1) by (simp add: decode_frame_def exceeds_max_len_def encoded_len_def)
  qed (simp add: decode_frame_def)
qed

lemma read_frame_whole:
  assumes "\<not> exceeds_max_len f" "\<forall>p\<in>set pieces. p \<noteq> []" "buf @ concat pieces = peer_frame_bytes f @ rest"
  shows "\<exists>buf' pieces'. read_frame (map Got pieces) buf = (Inr (Some f), buf', map Got pieces')
    \<and> buf' @ concat pieces' = rest \<and> (\<forall>p\<in>set pieces'. p \<noteq> [])"
  using assms(2,3)
proof (induction pieces arbitrary: buf)
  case Nil
  then have b: "buf = peer_frame_bytes f @ rest" by simp
  show ?case unfolding b
    by (subst read_frame.simps) (simp add: decode_frame_bytes [OF assms(1)])
next
  case (Cons p pieces)
  show ?case
  proof (cases "length (peer_frame_bytes f) \<le> length buf")
    case True
    then have b: "buf = peer_frame_bytes f @ drop (length (peer_frame_bytes f)) buf"
      using Cons.prems(2) by (metis append_eq_append_conv_if append_take_drop_id)
    have "read_frame (map Got (p # pieces)) buf = (Inr (Some f), drop (length (peer_frame_bytes f)) buf, map Got (p # pieces))"
      by (subst read_frame.simps, subst b) (simp add: decode_frame_bytes [OF assms(1)])
    moreover have "drop (length (peer_frame_bytes f)) buf @ concat (p # pieces) = rest"
      using Cons.prems(2) b by (metis append_assoc same_append_eq)
    ultimately show ?thesis using Cons.prems(1) by blast
  next
    case False
    then obtain more' where "peer_frame_bytes f = buf @ more'" "more' \<noteq> []"
      using Cons.prems(2) by (metis append_eq_append_conv_if append_take_drop_id append_Nil2 linear)
    then have "decode_frame buf = Inr None" by (rule decode_frame_part [OF assms(1)])
    then have "read_frame (map Got (p # pieces)) buf = read_frame (map Got pieces) (buf @ p)"
      using Cons.prems(1) by (subst read_frame.simps) simp
    then show ?thesis using Cons.IH [of "buf @ p"] Cons.prems by simp
  qed
qed

lemma read_frame_tail:
  assumes "tail = [] \<or> (\<exists>f more'. \<not> exceeds_max_len f \<and> peer_frame_bytes f = tail @ more' \<and> more' \<noteq> [])"
    and "\<forall>p\<in>set pieces. p \<noteq> []" "buf @ concat pieces = tail"
  shows "read_frame (map Got pieces) buf = (if tail = [] then Inr None else Inl (MidFrame (length tail)), tail, [])"
proof -
  have none: "decode_frame b = Inr None" if t: "b @ c = tail" for b c
  proof (cases "tail = []")
    case False
    then obtain f more' where "\<not> exceeds_max_len f" "peer_frame_bytes f = tail @ more'" "more' \<noteq> []" using assms(1) by blast
    then have "\<not> exceeds_max_len f" "peer_frame_bytes f = b @ (c @ more')" "c @ more' \<noteq> []" unfolding t [symmetric] by simp_all
    then show ?thesis by (rule decode_frame_part)
  qed (use t in \<open>simp add: decode_frame_def\<close>)
  show ?thesis using assms(2,3)
  proof (induction pieces arbitrary: buf)
    case Nil
    then show ?case using none [of buf "[]"] by (subst read_frame.simps) simp
  next
    case (Cons p pieces)
    have "decode_frame buf = Inr None" using none Cons.prems(2) by blast
    then have "read_frame (map Got (p # pieces)) buf = read_frame (map Got pieces) (buf @ p)"
      using Cons.prems(1) by (subst read_frame.simps) simp
    then show ?case using Cons.IH [of "buf @ p"] Cons.prems by simp
  qed
qed

lemma read_all_frames:
  assumes "\<forall>f\<in>set fs. \<not> exceeds_max_len f" "tail = [] \<or> (\<exists>f more'. \<not> exceeds_max_len f \<and> peer_frame_bytes f = tail @ more' \<and> more' \<noteq> [])"
    and "\<forall>p\<in>set pieces. p \<noteq> []" "buf @ concat pieces = concat (map peer_frame_bytes fs) @ tail" "length fs < n"
  shows "read_all n (map Got pieces) buf = (fs, if tail = [] then None else Some (MidFrame (length tail)))"
  using assms(1,3-5)
proof (induction fs arbitrary: n pieces buf)
  case Nil
  then obtain k where "n = Suc k" by (cases n) auto
  then show ?case using read_frame_tail [OF assms(2) Nil.prems(2), of buf] Nil.prems(3) by simp
next
  case (Cons f fs)
  obtain k where n: "n = Suc k" "length fs < k" using Cons.prems(4) by (cases n) auto
  obtain buf' pieces' where R: "read_frame (map Got pieces) buf = (Inr (Some f), buf', map Got pieces')"
    "buf' @ concat pieces' = concat (map peer_frame_bytes fs) @ tail" "\<forall>p\<in>set pieces'. p \<noteq> []"
    using read_frame_whole [of f pieces buf "concat (map peer_frame_bytes fs) @ tail"] Cons.prems(1-3) by auto
  show ?case using Cons.IH [OF _ R(3,2) n(2)] Cons.prems(1) by (simp add: n(1) R(1))
qed

text \<open>
  C38: Frames arrive as themselves however the stream is cut, and a stream that ends inside a frame
  is an error. Reading a stream of whole frames, followed by the start of another or by nothing, in
  any pieces gives exactly the frames in order, and then the close, or an error that counts the
  bytes of the unfinished frame.
\<close>

theorem frames_any_cut:
  assumes "\<forall>f\<in>set fs. encode_frame f [] = (Inr (), peer_frame_bytes f)"
    and "tail = [] \<or> (\<exists>f more'. encode_frame f [] = (Inr (), tail @ more') \<and> more' \<noteq> [])"
    and "\<forall>p\<in>set pieces. p \<noteq> []" "concat pieces = concat (map peer_frame_bytes fs) @ tail"
  shows "read_all (length fs + 1) (map Got pieces) [] = (fs, if tail = [] then None else Some (MidFrame (length tail)))"
proof (rule read_all_frames)
  show "\<forall>f\<in>set fs. \<not> exceeds_max_len f"
  proof
    fix f assume "f \<in> set fs"
    then have "encode_frame f [] = (Inr (), peer_frame_bytes f)" using assms(1) by blast
    then show "\<not> exceeds_max_len f" by (simp add: encode_frame_eq split: if_splits)
  qed
  show "tail = [] \<or> (\<exists>f more'. \<not> exceeds_max_len f \<and> peer_frame_bytes f = tail @ more' \<and> more' \<noteq> [])"
  proof (cases "tail = []")
    case False
    then obtain f more' where f: "encode_frame f [] = (Inr (), tail @ more')" "more' \<noteq> []" using assms(2) by blast
    then have "\<not> exceeds_max_len f \<and> peer_frame_bytes f = tail @ more'" unfolding encode_frame_eq by (simp split: if_splits)
    then show ?thesis using f(2) by (intro disjI2 exI [of _ f] exI [of _ more']) simp
  qed simp
  show "\<forall>p\<in>set pieces. p \<noteq> []" by (rule assms(3))
  show "[] @ concat pieces = concat (map peer_frame_bytes fs) @ tail" by (simp only: append_Nil assms(4))
qed simp

definition sample_frames :: "peer_frame list" where
  "sample_frames = [\<lparr>pf_kind = ControlFrame, pf_channel = 0, pf_body = [123, 125]\<rparr>, \<lparr>pf_kind = DataFrame, pf_channel = 7, pf_body = []\<rparr>]"

lemma sample_bytes: "map peer_frame_bytes sample_frames = [[0, 0, 0, 7, 0, 0, 0, 0, 0, 123, 125], [0, 0, 0, 5, 1, 0, 0, 0, 7]]"
proof -
  have four: "(4 :: nat) = Suc (Suc (Suc (Suc 0)))" by simp
  have "be 4 7 = [0, 0, 0, 7]" "be 4 5 = [0, 0, 0, 5]" "be 4 0 = [0, 0, 0, 0]" by (simp_all only: four be.simps) simp_all
  then show ?thesis by (simp add: sample_frames_def peer_frame_bytes_def encoded_len_def)
qed

lemma sample_encodes: "\<forall>f\<in>set sample_frames. encode_frame f [] = (Inr (), peer_frame_bytes f)"
  by (simp add: encode_frame_eq exceeds_max_len_def MAX_FRAME_LEN_def encoded_len_def sample_frames_def)

lemma frames_any_cut_witness:
  "read_all (length sample_frames + 1) (map Got [[0, 0], [0, 7, 0, 0, 0], [0, 0, 123, 125, 0, 0, 0, 5, 1, 0, 0, 0, 7, 0], [0]]) []
    = (sample_frames, Some (MidFrame 2))"
proof -
  have "sample_frames ! 1 \<in> set sample_frames" by (simp add: sample_frames_def)
  then have "encode_frame (sample_frames ! 1) [] = (Inr (), peer_frame_bytes (sample_frames ! 1))" using sample_encodes by blast
  also have "peer_frame_bytes (sample_frames ! 1) = map peer_frame_bytes sample_frames ! 1" by (simp add: sample_frames_def)
  also have "\<dots> = [0, 0] @ [0, 5, 1, 0, 0, 0, 7]" unfolding sample_bytes by simp
  finally have t: "encode_frame (sample_frames ! 1) [] = (Inr (), [0, 0] @ [0, 5, 1, 0, 0, 0, 7])" .
  have "[0, 0] = [] \<or> (\<exists>f more'. encode_frame f [] = (Inr (), [0, 0] @ more') \<and> more' \<noteq> [])"
    by (intro disjI2 exI [of _ "sample_frames ! 1"] exI [of _ "[0, 5, 1, 0, 0, 0, 7]"] conjI t) simp
  then have "read_all (length sample_frames + 1) (map Got [[0, 0], [0, 7, 0, 0, 0], [0, 0, 123, 125, 0, 0, 0, 5, 1, 0, 0, 0, 7, 0], [0]]) []
    = (sample_frames, if [0, 0] = ([] :: byte list) then None else Some (MidFrame (length [0 :: byte, 0])))"
    by (rule frames_any_cut [OF sample_encodes]) (simp_all add: sample_bytes)
  then show ?thesis by simp
qed

subsection \<open>The first exchange\<close>

lemma written_frame_fits: "\<not> exceeds_max_len f \<Longrightarrow> written_frame f = Inr (peer_frame_bytes f)"
  by (simp add: written_frame_def encode_frame_eq)

text \<open>The fields of a hello that have a limit, in the order they are checked.\<close>

definition option_list :: "'a option \<Rightarrow> 'a list" where
  "option_list v = (case v of None \<Rightarrow> [] | Some x \<Rightarrow> [x])"

lemma check_hello_spelled:
  "check_hello h = (case filter (\<lambda>(field, value', cap). cap < length value')
      ([(''build_version'', ph_build_version h, 256)]
       @ map (\<lambda>identity. (''host_identity'', identity, 256)) (option_list (ph_host_identity h))
       @ concat (map (\<lambda>auth. [(''auth.session_id'', sa_session_id auth, 1024), (''auth.token'', sa_token auth, 128)])
           (option_list (ph_auth h)))) of
     (field, value', cap) # _ \<Rightarrow> Inl (HelloTooLong field (length value') cap) | [] \<Rightarrow> Inr ())"
  by (cases "ph_host_identity h"; cases "ph_auth h")
    (simp_all add: check_hello_def check_hello_length_def guard_err_def option_list_def MAX_BUILD_VERSION_BYTES_def
      MAX_HOST_IDENTITY_BYTES_def MAX_SESSION_ID_BYTES_def MAX_SESSION_AUTH_TOKEN_BYTES_def)

text \<open>
  C17: The first exchange judges a peer by its hello alone, and says why it refuses one. Whatever the
  peer sends after its hello and however the stream is cut, this side has written its own hello; it
  refuses a hello whose build version (256 bytes), host identity (256), session id (1024) or token
  (128) is too long, naming the first such field, its length and its limit; of the others it
  accepts exactly those of version 68; and it refuses any other version by an error that carries
  both versions, both builds and the peer's database schema, having also written the text of it to
  the peer as one more frame. The JSON parser is assumed to read the peer's hello as it was
  printed, and the messages exchanged to fit a frame.
\<close>

theorem handshake_judges:
  assumes json: "parse (json (HelloMsg peer)) = Some (HelloMsg peer)"
    and told: "reason = ascii ''protocol version mismatch: peer speaks v'' @ decimal (ph_protocol_version peer)
      @ ascii '' (build '' @ ph_build_version peer @ ascii ''), this side speaks v'' @ decimal 68
      @ ascii '' (build '' @ build @ ascii ''); update one side so the versions are compatible''"
    and fit: "\<forall>m\<in>{HelloMsg own, HelloMsg peer, RefusalMsg reason}. 5 + length (json m) \<le> 8 * 1024 * 1024"
    and cut: "\<forall>p\<in>set pieces. p \<noteq> []"
      "concat pieces = peer_frame_bytes \<lparr>pf_kind = ControlFrame, pf_channel = 0, pf_body = json (HelloMsg peer)\<rparr> @ rest"
  shows "handshake_with_hello json parse build own (map Got pieces) =
    (let frame = \<lambda>m. peer_frame_bytes \<lparr>pf_kind = ControlFrame, pf_channel = 0, pf_body = json m\<rparr>;
         sent = frame (HelloMsg own);
         long = filter (\<lambda>(field, value', cap). cap < length value')
           ([(''build_version'', ph_build_version peer, 256)]
            @ map (\<lambda>identity. (''host_identity'', identity, 256)) (option_list (ph_host_identity peer))
            @ concat (map (\<lambda>auth. [(''auth.session_id'', sa_session_id auth, 1024), (''auth.token'', sa_token auth, 128)])
                (option_list (ph_auth peer))))
     in case long of
          (field, value', cap) # _ \<Rightarrow> (Inl (HelloTooLong field (length value') cap), sent)
        | [] \<Rightarrow> if ph_protocol_version peer = 68 then (Inr peer, sent)
            else (Inl (VersionRefused \<lparr>vs_peer_protocol = ph_protocol_version peer, vs_peer_build = ph_build_version peer,
                   vs_our_protocol = 68, vs_our_build = build, vs_peer_database_schema = ph_database_schema peer\<rparr>),
                 sent @ frame (RefusalMsg reason)))"
proof -
  have fits: "\<not> exceeds_max_len (control_frame json m)" if "m \<in> {HelloMsg own, HelloMsg peer, RefusalMsg reason}" for m
    using fit that by (fastforce simp: exceeds_max_len_def encoded_len_def control_frame_def MAX_FRAME_LEN_def)
  obtain buf' pieces' where R: "read_frame (map Got pieces) [] = (Inr (Some (control_frame json (HelloMsg peer))), buf', map Got pieces')"
    using read_frame_whole [of "control_frame json (HelloMsg peer)" pieces "[]" rest] fits cut
    by (auto simp: control_frame_def)
  have r: "skew_text (skew_of build peer) = reason" by (simp add: told skew_text_def skew_of_def PEER_PROTOCOL_def)
  have "parse (pf_body (control_frame json (HelloMsg peer))) = Some (HelloMsg peer)" using json by (simp add: control_frame_def)
  then have H: "handshake_with_hello json parse build own (map Got pieces) =
    (let sent = peer_frame_bytes (control_frame json (HelloMsg own)) in
     case check_hello peer of
       Inl e \<Rightarrow> (Inl e, sent)
     | Inr u \<Rightarrow> if ph_protocol_version peer = PEER_PROTOCOL then (Inr peer, sent)
         else (Inl (VersionRefused (skew_of build peer)), sent @ peer_frame_bytes (control_frame json (RefusalMsg reason))))"
    using fits by (simp add: handshake_with_hello_def written_frame_fits R r Let_def split: sum.split)
  show ?thesis
    unfolding H by (simp add: check_hello_spelled skew_of_def PEER_PROTOCOL_def control_frame_def Let_def split: list.split)
qed

definition older_peer :: peer_hello where
  "older_peer = (hello_of_role [49] [104])\<lparr>ph_protocol_version := 67\<rparr>"

definition short_json :: "control_msg \<Rightarrow> byte list" where
  "short_json m = (case m of HelloMsg h \<Rightarrow> [1] | RefusalMsg t \<Rightarrow> [2] | OtherMsg \<Rightarrow> [3])"

text \<open>An older peer is told so; one with a session id too long for its limit is refused for that.\<close>

definition wordy_peer :: peer_hello where
  "wordy_peer = older_peer\<lparr>ph_auth := Some \<lparr>sa_session_id = replicate 1025 65, sa_token = replicate 129 65\<rparr>\<rparr>"

definition short_parse :: "peer_hello \<Rightarrow> byte list \<Rightarrow> control_msg option" where
  "short_parse h bs = (if bs = [1] then Some (HelloMsg h) else None)"

lemma handshake_judges_witness:
  "handshake_with_hello short_json (short_parse older_peer) [50] (spawn_hello [50] \<lparr>sa_session_id = [], sa_token = []\<rparr>)
      [Got (peer_frame_bytes (control_frame short_json (HelloMsg older_peer)))]
    = (Inl (VersionRefused \<lparr>vs_peer_protocol = 67, vs_peer_build = [49], vs_our_protocol = 68, vs_our_build = [50],
          vs_peer_database_schema = None\<rparr>),
       peer_frame_bytes (control_frame short_json OtherMsg\<lparr>pf_body := [1]\<rparr>) @ peer_frame_bytes (control_frame short_json OtherMsg\<lparr>pf_body := [2]\<rparr>))
   \<and> handshake_with_hello short_json (short_parse wordy_peer) [50] (spawn_hello [50] \<lparr>sa_session_id = [], sa_token = []\<rparr>)
      [Got (peer_frame_bytes (control_frame short_json (HelloMsg wordy_peer)))]
    = (Inl (HelloTooLong ''auth.session_id'' 1025 1024), peer_frame_bytes (control_frame short_json OtherMsg\<lparr>pf_body := [1]\<rparr>))"
proof -
  have "5 + length (short_json m) \<le> 8 * 1024 * 1024" for m by (cases m) (simp_all add: short_json_def)
  then have len: "\<forall>m\<in>M. 5 + length (short_json m) \<le> 8 * 1024 * 1024" for M by blast
  have peer: "\<forall>p\<in>set [peer_frame_bytes (control_frame short_json (HelloMsg h))]. p \<noteq> []"
    "concat [peer_frame_bytes (control_frame short_json (HelloMsg h))]
      = peer_frame_bytes \<lparr>pf_kind = ControlFrame, pf_channel = 0, pf_body = short_json (HelloMsg h)\<rparr> @ []" for h
    by (simp_all add: peer_frame_bytes_def control_frame_def)
  have parse: "short_parse h (short_json (HelloMsg h)) = Some (HelloMsg h)" for h
    by (simp add: short_parse_def short_json_def)
  show ?thesis
    using handshake_judges [where json = short_json and parse = "short_parse older_peer" and peer = older_peer and build = "[50]"
        and own = "spawn_hello [50] \<lparr>sa_session_id = [], sa_token = []\<rparr>", OF parse refl len peer]
      handshake_judges [where json = short_json and parse = "short_parse wordy_peer" and peer = wordy_peer and build = "[50]"
        and own = "spawn_hello [50] \<lparr>sa_session_id = [], sa_token = []\<rparr>", OF parse refl len peer]
    by (simp add: short_json_def older_peer_def wordy_peer_def hello_of_role_def option_list_def Let_def control_frame_def)
qed

end
