(* ===== verification/Control_Codec.thy ===== *)
theory Control_Codec
  imports Prelude "HOL-Library.Sublist"
begin

text \<open>
  tmux's control mode as the supervisor reads it (\<^verbatim>\<open>crates/farhelm-supervisor/src/tmux/control_codec.rs\<close>):
  lines within a bound, command replies between their markers, notifications, and the bytes a pane
  wrote, unescaped and unwrapped. What the stream answers a read is explicit.
\<close>

subsection \<open>Lines\<close>

definition MAX_CONTROL_LINE :: nat where "MAX_CONTROL_LINE = 8 * 1024 * 1024 * 4 + 1024"

definition strip_last :: "byte \<Rightarrow> byte list \<Rightarrow> byte list" where
  "strip_last b line = (if line \<noteq> [] \<and> last line = b then butlast line else line)"

definition strip_line_ending :: "byte list \<Rightarrow> byte list" where
  "strip_line_ending line = strip_last 13 (strip_last 10 line)"

definition strip_command_output_terminator :: "byte list \<Rightarrow> byte list" where
  "strip_command_output_terminator output = strip_line_ending output"

text \<open>
  What filling the buffer gives: more bytes, an error, or the deadline passing; no bytes, or nothing
  further, is the end of the stream. What is left of the buffer stays at the front.
\<close>

datatype fill = Filled "byte list" | FillFailed | FillTimeout

datatype line_error = PartialLine nat | LineTooLong nat | LineFailed | LineTimeout

definition line_part :: "byte list \<Rightarrow> byte list" where
  "line_part available = (let before = takeWhile (\<lambda>b. b \<noteq> 10) available in
     if length before < length available then before @ [10] else available)"

definition left_over :: "byte list \<Rightarrow> fill list \<Rightarrow> fill list" where
  "left_over rest fills = (if rest = [] then fills else Filled rest # fills)"

fun read_control_line :: "nat \<Rightarrow> nat \<Rightarrow> fill list \<Rightarrow> byte list \<Rightarrow> (line_error + nat) \<times> byte list \<times> fill list" where
  "read_control_line limit start [] out = (if length out = start then Inr 0 else Inl (PartialLine (length out - start)), out, [])"
| "read_control_line limit start (FillFailed # fills) out = (Inl LineFailed, out, fills)"
| "read_control_line limit start (FillTimeout # fills) out = (Inl LineTimeout, out, fills)"
| "read_control_line limit start (Filled available # fills) out =
     (if available = [] then (if length out = start then Inr 0 else Inl (PartialLine (length out - start)), out, fills)
      else let part = line_part available in
        if limit < length out + length part then (Inl (LineTooLong limit), out, Filled available # fills)
        else if last part = 10 then (Inr (length (out @ part) - start), out @ part, left_over (drop (length part) available) fills)
        else read_control_line limit start fills (out @ part))"

text \<open>One line into a cleared buffer.\<close>

definition next_line :: "nat \<Rightarrow> fill list \<Rightarrow> (line_error + byte list option) \<times> fill list" where
  "next_line limit fills = (case read_control_line limit 0 fills [] of
     (Inl e, out, fills) \<Rightarrow> (Inl e, fills)
   | (Inr n, out, fills) \<Rightarrow> (Inr (if n = 0 then None else Some out), fills))"

subsection \<open>Notifications\<close>

fun split_on :: "byte \<Rightarrow> byte list \<Rightarrow> byte list list" where
  "split_on s [] = [[]]"
| "split_on s (b # bs) = (if b = s then [] # split_on s bs else (b # hd (split_on s bs)) # tl (split_on s bs))"

definition is_digit :: "byte \<Rightarrow> bool" where
  "is_digit b \<longleftrightarrow> 48 \<le> unat b \<and> unat b \<le> 57"

definition digits_value :: "byte list \<Rightarrow> nat" where
  "digits_value ds = foldl (\<lambda>n d. n * 10 + (unat d - 48)) 0 ds"

definition parse_digits :: "byte list \<Rightarrow> nat option" where
  "parse_digits field = (if field \<noteq> [] \<and> (\<forall>b\<in>set field. is_digit b) then Some (digits_value field) else None)"

text \<open>Only digits, within 64 bits.\<close>

definition parse_number :: "byte list \<Rightarrow> nat option" where
  "parse_number field = (case parse_digits field of Some n \<Rightarrow> if n < 2 ^ 64 then Some n else None | None \<Rightarrow> None)"

record block_id =
  bi_timestamp :: nat
  bi_command :: nat
  bi_flags :: nat

datatype control_marker = BeginMarker block_id | EndMarker block_id | ErrorMarker block_id

definition parse_control_marker :: "byte list \<Rightarrow> control_marker option" where
  "parse_control_marker line = (case split_on 32 line of
     [kind, timestamp, command, flags] \<Rightarrow>
       (case (parse_number timestamp, parse_number command, parse_number flags) of
          (Some t, Some c, Some f) \<Rightarrow>
            (let i = \<lparr>bi_timestamp = t, bi_command = c, bi_flags = f\<rparr> in
             if kind = ascii ''%begin'' then Some (BeginMarker i)
             else if kind = ascii ''%end'' then Some (EndMarker i)
             else if kind = ascii ''%error'' then Some (ErrorMarker i)
             else None)
        | _ \<Rightarrow> None)
   | _ \<Rightarrow> None)"

definition strip_prefix_of :: "byte list \<Rightarrow> byte list \<Rightarrow> byte list option" where
  "strip_prefix_of p bs = (if prefix p bs then Some (drop (length p) bs) else None)"

text \<open>Past the pane and the one space after it; \<open>None\<close> without a space.\<close>

definition split_output_payload :: "byte list \<Rightarrow> (byte list \<times> byte list) option" where
  "split_output_payload rest =
     (let pane = takeWhile (\<lambda>b. b \<noteq> 32) rest in
      if length pane < length rest then Some (pane, drop (length pane + 1) rest) else None)"

text \<open>Past the first field that is exactly a colon.\<close>

function past_colon :: "byte list \<Rightarrow> byte list option" where
  "past_colon rest =
     (if rest = [] then None
      else let field = takeWhile (\<lambda>b. b \<noteq> 32) rest in
        if field = [58] then Some (drop (length field + 1) rest)
        else past_colon (drop (length field + 1) rest))"
  by pat_completeness auto
termination
  by (relation "measure length") auto

declare past_colon.simps [simp del]

definition split_extended_output_payload :: "byte list \<Rightarrow> (byte list \<times> byte list) option" where
  "split_extended_output_payload rest =
     (let pane = takeWhile (\<lambda>b. b \<noteq> 32) rest in
      map_option (\<lambda>escaped. (pane, escaped)) (past_colon (drop (length pane + 1) rest)))"

datatype control_line = Payload "byte list" "byte list" | PausedPane "byte list" | ExitLine "byte list"

definition classify_control_line :: "byte list \<Rightarrow> control_line option" where
  "classify_control_line line =
     (case strip_prefix_of (ascii ''%output '') line of
        Some rest \<Rightarrow> map_option (\<lambda>(pane, escaped). Payload pane escaped) (split_output_payload rest)
      | None \<Rightarrow>
     (case strip_prefix_of (ascii ''%extended-output '') line of
        Some rest \<Rightarrow> map_option (\<lambda>(pane, escaped). Payload pane escaped) (split_extended_output_payload rest)
      | None \<Rightarrow>
     (case strip_prefix_of (ascii ''%pause '') line of
        Some pane \<Rightarrow> Some (PausedPane pane)
      | None \<Rightarrow>
     (case strip_prefix_of (ascii ''%exit'') line of
        Some rest \<Rightarrow> Some (ExitLine (case strip_prefix_of [32] rest of Some reason \<Rightarrow> reason | None \<Rightarrow> rest))
      | None \<Rightarrow> None))))"

subsection \<open>Command replies\<close>

datatype block_error = BlockLine line_error | EofBefore | EndedBefore | LiveOutput | ExitBefore | EofInside | CommandFailed "byte list"

definition fills_size :: "fill list \<Rightarrow> nat" where
  "fills_size fills = sum_list (map (\<lambda>f. case f of Filled bs \<Rightarrow> Suc (length bs) | _ \<Rightarrow> 1) fills)"

lemma read_control_line_size:
  "read_control_line limit start fills out = (r, out', fills') \<Longrightarrow>
    fills_size fills' \<le> fills_size fills \<and> (\<forall>n. r = Inr n \<longrightarrow> length out \<le> length out' \<and> n = length out' - start \<and> (length out < length out' \<longrightarrow> fills_size fills' < fills_size fills))"
proof (induction limit start fills out rule: read_control_line.induct)
  case (4 limit start available fills out)
  show ?case
  proof (cases "available = []")
    case True
    then show ?thesis using 4(2) by (auto simp: fills_size_def split: if_splits)
  next
    case False
    define part where "part = line_part available"
    have part: "part \<noteq> []" "length part \<le> length available"
      using False by (auto simp: part_def line_part_def Let_def)
    show ?thesis
    proof (cases "limit < length out + length part \<or> last part = 10")
      case True
      then show ?thesis using 4(2) False part
        by (auto simp: part_def [symmetric] Let_def fills_size_def left_over_def split: if_splits)
    next
      case stop: False
      then have "read_control_line limit start fills (out @ part) = (r, out', fills')"
        using 4(2) False by (simp add: part_def [symmetric] Let_def)
      from 4(1) [OF False part_def _ _ this] stop
      have "fills_size fills' \<le> fills_size fills" "\<forall>n. r = Inr n \<longrightarrow> length (out @ part) \<le> length out' \<and> n = length out' - start" by auto
      then show ?thesis by (auto simp: fills_size_def)
    qed
  qed
qed (auto simp: fills_size_def split: if_splits)

lemma next_line_size: "next_line limit fills = (Inr (Some line), fills') \<Longrightarrow> fills_size fills' < fills_size fills"
  using read_control_line_size [of limit 0 fills "[]"]
  by (fastforce simp: next_line_def split: prod.splits sum.splits if_splits)

text \<open>Up to the marker that begins the reply.\<close>

function find_begin :: "nat \<Rightarrow> byte list \<Rightarrow> fill list \<Rightarrow> (block_error + block_id) \<times> fill list" where
  "find_begin limit own_pane fills = (case next_line limit fills of
     (Inl e, fills) \<Rightarrow> (Inl (BlockLine e), fills)
   | (Inr None, fills) \<Rightarrow> (Inl EofBefore, fills)
   | (Inr (Some line), fills') \<Rightarrow>
       (let stripped = strip_line_ending line in
        case parse_control_marker stripped of
          Some (BeginMarker i) \<Rightarrow> (Inr i, fills')
        | Some _ \<Rightarrow> (Inl EndedBefore, fills')
        | None \<Rightarrow>
            if (case classify_control_line stripped of Some (Payload pane escaped) \<Rightarrow> pane = own_pane | _ \<Rightarrow> False) then (Inl LiveOutput, fills')
            else if prefix (ascii ''%exit'') stripped then (Inl ExitBefore, fills')
            else find_begin limit own_pane fills'))"
  by pat_completeness auto
termination
  by (relation "measure (\<lambda>(limit, own_pane, fills). fills_size fills)") (auto intro: next_line_size [OF sym])

declare find_begin.simps [simp del]

text \<open>Up to the marker that ends it, every other line being its output.\<close>

function read_body :: "nat \<Rightarrow> block_id \<Rightarrow> fill list \<Rightarrow> byte list \<Rightarrow> (block_error + byte list) \<times> fill list" where
  "read_body limit i fills output = (case next_line limit fills of
     (Inl e, fills) \<Rightarrow> (Inl (BlockLine e), fills)
   | (Inr None, fills) \<Rightarrow> (Inl EofInside, fills)
   | (Inr (Some line), fills') \<Rightarrow>
       (let marker = parse_control_marker (strip_line_ending line) in
        if marker = Some (EndMarker i) then (Inr output, fills')
        else if marker = Some (ErrorMarker i) then (Inl (CommandFailed (strip_command_output_terminator output)), fills')
        else read_body limit i fills' (output @ line)))"
  by pat_completeness auto
termination
  by (relation "measure (\<lambda>(limit, i, fills, output). fills_size fills)") (auto intro: next_line_size [OF sym])

declare read_body.simps [simp del]

definition read_command_block :: "nat \<Rightarrow> byte list \<Rightarrow> fill list \<Rightarrow> (block_error + byte list) \<times> fill list" where
  "read_command_block limit own_pane fills = (case find_begin limit own_pane fills of
     (Inl e, fills) \<Rightarrow> (Inl e, fills)
   | (Inr i, fills) \<Rightarrow> read_body limit i fills [])"

subsection \<open>Pane output\<close>

definition octal :: "byte \<Rightarrow> nat \<Rightarrow> bool" where
  "octal b high' \<longleftrightarrow> 48 \<le> unat b \<and> unat b \<le> high'"

fun unescape_control_output :: "byte list \<Rightarrow> byte list" where
  "unescape_control_output (b # x # y # z # rest) =
     (if b = 92 \<and> octal x 51 \<and> octal y 55 \<and> octal z 55
      then ((x - 48) * 64 + (y - 48) * 8 + (z - 48)) # unescape_control_output rest
      else b # unescape_control_output (x # y # z # rest))"
| "unescape_control_output bs = bs"

record passthrough_decoder =
  pd_opener :: "byte list"
  pd_in_wrapper :: bool
  pd_pending_escape :: bool

definition decoder_new :: passthrough_decoder where
  "decoder_new = \<lparr>pd_opener = [], pd_in_wrapper = False, pd_pending_escape = False\<rparr>"

record decoded_output =
  do_bytes :: "byte list"
  do_passthrough :: bool

definition push_decoded_byte :: "byte \<Rightarrow> bool \<Rightarrow> decoded_output list \<Rightarrow> decoded_output list" where
  "push_decoded_byte b p out =
     (if out \<noteq> [] \<and> do_passthrough (last out) = p then butlast out @ [(last out)\<lparr>do_bytes := do_bytes (last out) @ [b]\<rparr>]
      else out @ [\<lparr>do_bytes = [b], do_passthrough = p\<rparr>])"

definition OPEN :: "byte list" where
  "OPEN = 27 # ascii ''Ptmux;''"

text \<open>Bytes off the front of what may be an opener, until the rest may be one.\<close>

fun shed_opener :: "byte list \<Rightarrow> decoded_output list \<Rightarrow> byte list \<times> decoded_output list" where
  "shed_opener [] out = ([], out)"
| "shed_opener (b # bs) out = (if prefix (b # bs) OPEN then (b # bs, out) else shed_opener bs (push_decoded_byte b False out))"

definition decode_byte :: "byte \<Rightarrow> passthrough_decoder \<times> decoded_output list \<Rightarrow> passthrough_decoder \<times> decoded_output list" where
  "decode_byte b = (\<lambda>(d, out).
     if pd_in_wrapper d then
       (if pd_pending_escape d then
          (let d = d\<lparr>pd_pending_escape := False\<rparr> in
           if b = 27 then (d, push_decoded_byte 27 True out)
           else if b = 92 then (d\<lparr>pd_in_wrapper := False\<rparr>, out)
           else (d, push_decoded_byte b True (push_decoded_byte 27 True out)))
        else if b = 27 then (d\<lparr>pd_pending_escape := True\<rparr>, out)
        else (d, push_decoded_byte b True out))
     else
       (let (opener, out) = shed_opener (pd_opener d @ [b]) out in
        if opener = OPEN then (d\<lparr>pd_opener := [], pd_in_wrapper := True\<rparr>, out) else (d\<lparr>pd_opener := opener\<rparr>, out)))"

definition push_chunk :: "byte list \<Rightarrow> passthrough_decoder \<Rightarrow> passthrough_decoder \<times> decoded_output list" where
  "push_chunk bytes d = fold decode_byte bytes (d, [])"

definition decode_output_payload :: "byte list \<Rightarrow> passthrough_decoder \<Rightarrow> passthrough_decoder \<times> decoded_output list" where
  "decode_output_payload escaped d = push_chunk (unescape_control_output escaped) d"

subsection \<open>Old versions\<close>

definition bracket_paste_flag_is_missing :: "byte list \<Rightarrow> bool" where
  "bracket_paste_flag_is_missing line =
     (let fields = split_on 44 line; alternate = hd fields; bracket = (if 2 \<le> length fields then fields ! 1 else []) in
      alternate \<noteq> [] \<and> bracket = [])"

end
