(* ===== verification/Control_Properties.thy ===== *)
theory Control_Properties
  imports Control_Codec
begin

text \<open>
  What reading tmux's control mode guarantees: a pane's bytes come out as it wrote them, wherever
  tmux cut them into notifications and whatever it escaped or passed through; and a command's reply is
  read whole however the stream delivers it, leaving what follows.
\<close>

subsection \<open>Escapes\<close>

text \<open>What tmux writes for a byte: control bytes and the backslash as three octal digits.\<close>

definition escaped_byte :: "byte \<Rightarrow> byte list" where
  "escaped_byte b =
     (if unat b < 32 \<or> b = 92
      then [92, of_nat (48 + unat b div 64), of_nat (48 + unat b div 8 mod 8), of_nat (48 + unat b mod 8)] else [b])"

definition escaped :: "byte list \<Rightarrow> byte list" where
  "escaped bs = concat (map escaped_byte bs)"

lemma unescape_other: "b \<noteq> 92 \<Longrightarrow> unescape_control_output (b # bs) = b # unescape_control_output bs"
  by (cases bs; cases "tl bs"; cases "tl (tl bs)") (auto simp: neq_Nil_conv)

definition octal_digits :: "byte \<Rightarrow> bool" where
  "octal_digits b \<longleftrightarrow> (let x = of_nat (48 + unat b div 64); y = of_nat (48 + unat b div 8 mod 8); z = of_nat (48 + unat b mod 8) in
     octal x 51 \<and> octal y 55 \<and> octal z 55 \<and> (x - 48) * 64 + (y - 48) * 8 + (z - 48) = b)"

lemma octal_digits_low: "n < 32 \<Longrightarrow> octal_digits (of_nat n)"
proof -
  have "\<forall>n\<in>set [0..<32]. octal_digits (of_nat n)" by code_simp
  then show "n < 32 \<Longrightarrow> octal_digits (of_nat n)" by simp
qed

lemma octal_digits_escaped: "unat b < 32 \<or> b = 92 \<Longrightarrow> octal_digits b"
proof (elim disjE)
  assume "unat b < 32"
  from octal_digits_low [OF this] show ?thesis by simp
next
  have "octal_digits 92" by code_simp
  then show "b = 92 \<Longrightarrow> octal_digits b" by simp
qed

lemma unescape_escaped: "unescape_control_output (escaped bs) = bs"
proof (induction bs)
  case (Cons b bs)
  show ?case
  proof (cases "unat b < 32 \<or> b = 92")
    case True
    show ?thesis using octal_digits_escaped [OF True] Cons.IH True
      by (simp add: escaped_def escaped_byte_def octal_digits_def Let_def add.assoc)
  next
    case False
    then show ?thesis using Cons.IH by (simp add: escaped_def escaped_byte_def unescape_other)
  qed
qed (simp add: escaped_def)

subsection \<open>Wrappers\<close>

text \<open>Each byte of what was decoded, with whether tmux passed it through unread.\<close>

definition flat :: "decoded_output list \<Rightarrow> (byte \<times> bool) list" where
  "flat out = concat (map (\<lambda>s. map (\<lambda>b. (b, do_passthrough s)) (do_bytes s)) out)"

definition marked_as :: "bool \<Rightarrow> byte list \<Rightarrow> (byte \<times> bool) list" where
  "marked_as p bs = map (\<lambda>b. (b, p)) bs"

lemma marked_as_simps [simp]: "marked_as p [] = []" "marked_as p (b # bs) = (b, p) # marked_as p bs"
    "marked_as p (as @ bs) = marked_as p as @ marked_as p bs"
  by (simp_all add: marked_as_def)

lemma flat_push [simp]: "flat (push_decoded_byte b p out) = flat out @ [(b, p)]"
  by (cases out rule: rev_cases) (auto simp: push_decoded_byte_def flat_def)

lemma flat_append [simp]: "flat (xs @ ys) = flat xs @ flat ys" "flat [] = []"
  by (simp_all add: flat_def)

lemma shed_opener_spec:
  "shed_opener bs out = (opener, out') \<Longrightarrow> prefix opener OPEN \<and> (\<exists>e. bs = e @ opener \<and> flat out' = flat out @ marked_as False e)"
proof (induction bs arbitrary: out)
  case (Cons b bs)
  show ?case
  proof (cases "prefix (b # bs) OPEN")
    case True
    with Cons.prems have o: "opener = b # bs" "out' = out" by auto
    show ?thesis using True unfolding o by (intro conjI exI [of _ "[]"]) simp_all
  next
    case False
    with Cons.prems have "shed_opener bs (push_decoded_byte b False out) = (opener, out')" by simp
    from Cons.IH [OF this] obtain e where e: "prefix opener OPEN" "bs = e @ opener"
      "flat out' = flat (push_decoded_byte b False out) @ marked_as False e" by blast
    then show ?thesis by (intro conjI exI [of _ "b # e"]) simp_all
  qed
qed simp

lemma shed_opener_whole: "prefix bs OPEN \<Longrightarrow> shed_opener bs out = (bs, out)"
  by (cases bs) simp_all

text \<open>The opener has one escape, its first byte.\<close>

lemma OPEN_simp: "OPEN = [27, 80, 116, 109, 117, 120, 59]"
  by (simp add: OPEN_def ascii_def)

lemma prefix_OPEN_ends: "prefix (bs @ [27]) OPEN \<Longrightarrow> bs = []"
  by (auto simp: OPEN_simp prefix_Cons append_eq_Cons_conv)

text \<open>What is decoded does not depend on what was decoded before.\<close>

lemma shed_opener_out:
  "shed_opener bs out1 = (opener, out1') \<Longrightarrow> \<exists>out2' e. shed_opener bs out2 = (opener, out2') \<and> flat out1' = flat out1 @ e \<and> flat out2' = flat out2 @ e"
proof (induction bs arbitrary: out1 out2)
  case (Cons b bs)
  show ?case
  proof (cases "prefix (b # bs) OPEN")
    case True
    with Cons.prems show ?thesis by (intro exI [of _ out2] exI [of _ "[]"]) auto
  next
    case False
    with Cons.prems have "shed_opener bs (push_decoded_byte b False out1) = (opener, out1')" by simp
    from Cons.IH [OF this, of "push_decoded_byte b False out2"] False show ?thesis by force
  qed
qed simp

lemma decode_byte_out:
  assumes "decode_byte b (d, out1) = (d', out1')"
  shows "\<exists>out2' e. decode_byte b (d, out2) = (d', out2') \<and> flat out1' = flat out1 @ e \<and> flat out2' = flat out2 @ e"
proof (cases "pd_in_wrapper d")
  case True
  then show ?thesis using assms by (auto simp: decode_byte_def Let_def split: if_splits)
next
  case False
  obtain opener o1 where o1: "shed_opener (pd_opener d @ [b]) out1 = (opener, o1)" by (cases "shed_opener (pd_opener d @ [b]) out1")
  from shed_opener_out [OF this, of out2] obtain o2 e where o2: "shed_opener (pd_opener d @ [b]) out2 = (opener, o2)"
    "flat o1 = flat out1 @ e" "flat o2 = flat out2 @ e" by blast
  show ?thesis using assms False o1 o2 by (auto simp: decode_byte_def Let_def split: if_splits)
qed

lemma fold_decode_out:
  "fold decode_byte bs (d, out1) = (d', out1') \<Longrightarrow>
    \<exists>out2' e. fold decode_byte bs (d, out2) = (d', out2') \<and> flat out1' = flat out1 @ e \<and> flat out2' = flat out2 @ e"
proof (induction bs arbitrary: d out1 out2)
  case (Cons b bs)
  obtain dm om where m: "decode_byte b (d, out1) = (dm, om)" by (cases "decode_byte b (d, out1)")
  from decode_byte_out [OF m, of out2] obtain om2 e where m2: "decode_byte b (d, out2) = (dm, om2)"
    "flat om = flat out1 @ e" "flat om2 = flat out2 @ e" by blast
  have "fold decode_byte bs (dm, om) = (d', out1')" using Cons.prems by (simp add: m)
  from Cons.IH [OF this, of om2] obtain out2' e' where r: "fold decode_byte bs (dm, om2) = (d', out2')"
    "flat out1' = flat om @ e'" "flat out2' = flat om2 @ e'" by blast
  show ?case using m2 r by (intro exI [of _ out2'] exI [of _ "e @ e'"]) simp
qed simp

text \<open>A stream's payloads, one notification after the other.\<close>

fun decode_payloads :: "byte list list \<Rightarrow> passthrough_decoder \<Rightarrow> passthrough_decoder \<times> decoded_output list" where
  "decode_payloads [] d = (d, [])"
| "decode_payloads (p # ps) d =
     (let (d, out) = decode_output_payload p d; (d, rest) = decode_payloads ps d in (d, out @ rest))"

lemma decode_payloads_fold:
  "fold decode_byte (concat chunks) (d, out) = (d', out') \<Longrightarrow> decode_payloads (map escaped chunks) d = (d2, outs) \<Longrightarrow>
    d2 = d' \<and> flat out' = flat out @ flat outs"
proof (induction chunks arbitrary: d out outs d2)
  case (Cons c chunks)
  obtain dc oc where c: "fold decode_byte c (d, []) = (dc, oc)" by (cases "fold decode_byte c (d, [])")
  from fold_decode_out [OF c, of out] obtain oc' where c': "fold decode_byte c (d, out) = (dc, oc')" "flat oc' = flat out @ flat oc" by auto
  obtain dr rest where r: "decode_payloads (map escaped chunks) dc = (dr, rest)" by (cases "decode_payloads (map escaped chunks) dc")
  have "fold decode_byte (concat chunks) (dc, oc') = (d', out')" using Cons.prems(1) c' by simp
  from Cons.IH [OF this r] have i: "dr = d'" "flat out' = flat oc' @ flat rest" by auto
  have "d2 = dr" "outs = oc @ rest"
    using Cons.prems(2) by (auto simp: decode_output_payload_def push_chunk_def unescape_escaped c r)
  then show ?case using i c' by simp
qed simp

subsection \<open>Plain bytes and wrapped ones\<close>

definition doubled :: "byte list \<Rightarrow> byte list" where
  "doubled w = concat (map (\<lambda>b. if b = 27 then [27, 27] else [b]) w)"

text \<open>What a program writes to have bytes passed through: the opener, its escapes doubled, the closing.\<close>

definition wrapped :: "byte list \<Rightarrow> byte list" where
  "wrapped w = OPEN @ doubled w @ [27, 92]"

definition outside :: "byte list \<Rightarrow> passthrough_decoder" where
  "outside opener = \<lparr>pd_opener = opener, pd_in_wrapper = False, pd_pending_escape = False\<rparr>"

definition inside :: passthrough_decoder where
  "inside = \<lparr>pd_opener = [], pd_in_wrapper = True, pd_pending_escape = False\<rparr>"

lemma plain_decoded:
  "prefix opener OPEN \<Longrightarrow> \<not> sublist OPEN (opener @ p) \<Longrightarrow>
    \<exists>opener' out' e. fold decode_byte p (outside opener, out) = (outside opener', out') \<and> prefix opener' OPEN \<and> opener' \<noteq> OPEN
      \<and> opener @ p = e @ opener' \<and> flat out' = flat out @ marked_as False e"
proof (induction p arbitrary: opener out)
  case Nil
  then show ?case by (intro exI [of _ opener] exI [of _ out] exI [of _ "[]"]) auto
next
  case (Cons b p)
  obtain o1 out1 where o1: "shed_opener (opener @ [b]) out = (o1, out1)" by (cases "shed_opener (opener @ [b]) out")
  from shed_opener_spec [OF this] obtain e where e: "prefix o1 OPEN" "opener @ [b] = e @ o1" "flat out1 = flat out @ marked_as False e" by blast
  have split: "opener @ b # p = e @ o1 @ p" using e(2) by (metis append.assoc append_Cons append_Nil)
  have none: "\<not> sublist OPEN (o1 @ p)" using Cons.prems(2) unfolding split sublist_def by (metis append.assoc)
  then have "o1 \<noteq> OPEN" by auto
  then have "decode_byte b (outside opener, out) = (outside o1, out1)" by (simp add: decode_byte_def outside_def o1)
  moreover from Cons.IH [OF e(1) none, of out1] obtain o2 out2 e2 where
    "fold decode_byte p (outside o1, out1) = (outside o2, out2)" "prefix o2 OPEN" "o2 \<noteq> OPEN" "o1 @ p = e2 @ o2" "flat out2 = flat out1 @ marked_as False e2"
    by blast
  ultimately show ?case using e(3) split by (intro exI [of _ o2] exI [of _ out2] exI [of _ "e @ e2"]) simp
qed

lemma OPEN_prefixes:
  assumes "prefix opener OPEN" "opener \<noteq> OPEN"
  shows "opener \<in> {[], [27], [27, 80], [27, 80, 116], [27, 80, 116, 109], [27, 80, 116, 109, 117], [27, 80, 116, 109, 117, 120]}"
  using assms by (auto simp: OPEN_simp prefix_Cons)

lemma opener_decoded:
  assumes "prefix opener OPEN" "opener \<noteq> OPEN"
  shows "\<exists>out'. fold decode_byte OPEN (outside opener, out) = (inside, out') \<and> flat out' = flat out @ marked_as False opener"
  using OPEN_prefixes [OF assms]
  by (elim insertE emptyE) (simp_all add: OPEN_simp decode_byte_def outside_def inside_def)

lemma doubled_decoded: "\<exists>out'. fold decode_byte (doubled w) (inside, out) = (inside, out') \<and> flat out' = flat out @ marked_as True w"
proof (induction w arbitrary: out)
  case (Cons b w)
  have "fold decode_byte (doubled (b # w)) (inside, out) = fold decode_byte (doubled w) (inside, push_decoded_byte b True out)"
    by (auto simp: doubled_def decode_byte_def inside_def)
  with Cons.IH [of "push_decoded_byte b True out"] show ?case by simp
qed (simp add: doubled_def)

lemma closing_decoded: "fold decode_byte [27, 92] (inside, out) = (outside [], out)"
  by (simp add: decode_byte_def inside_def outside_def)

lemma piece_decoded:
  assumes "\<not> sublist OPEN p"
  shows "\<exists>out'. fold decode_byte (p @ wrapped w) (outside [], out) = (outside [], out') \<and> flat out' = flat out @ marked_as False p @ marked_as True w"
proof -
  from plain_decoded [of "[]" p out] assms obtain o1 out1 e where
    p: "fold decode_byte p (outside [], out) = (outside o1, out1)" "prefix o1 OPEN" "o1 \<noteq> OPEN" "p = e @ o1" "flat out1 = flat out @ marked_as False e"
    by auto
  from opener_decoded [OF p(2,3), of out1] obtain out2 where
    o: "fold decode_byte OPEN (outside o1, out1) = (inside, out2)" "flat out2 = flat out1 @ marked_as False o1" by blast
  from doubled_decoded [of w out2] obtain out3 where
    w: "fold decode_byte (doubled w) (inside, out2) = (inside, out3)" "flat out3 = flat out2 @ marked_as True w" by blast
  have "fold decode_byte (p @ wrapped w) (outside [], out) = (outside [], out3)"
    unfolding wrapped_def fold_append comp_def p(1) o(1) w(1) closing_decoded ..
  then show ?thesis using p(4,5) o(2) w(2) by (intro exI [of _ out3]) simp
qed

text \<open>What a pane wrote: plain bytes before each wrapped run.\<close>

definition written_bytes :: "(byte list \<times> byte list) list \<Rightarrow> byte list" where
  "written_bytes pieces = concat (map (\<lambda>(p, w). p @ wrapped w) pieces)"

definition meant_bytes :: "(byte list \<times> byte list) list \<Rightarrow> (byte \<times> bool) list" where
  "meant_bytes pieces = concat (map (\<lambda>(p, w). marked_as False p @ marked_as True w) pieces)"

lemma pieces_decoded:
  "(\<forall>(p, w)\<in>set pieces. \<not> sublist OPEN p) \<Longrightarrow>
    \<exists>out'. fold decode_byte (written_bytes pieces) (outside [], out) = (outside [], out') \<and> flat out' = flat out @ meant_bytes pieces"
proof (induction pieces arbitrary: out)
  case (Cons piece pieces)
  obtain p w where piece: "piece = (p, w)" by (cases piece)
  from piece_decoded [of p w out] Cons.prems obtain out1 where
    o: "fold decode_byte (p @ wrapped w) (outside [], out) = (outside [], out1)" "flat out1 = flat out @ marked_as False p @ marked_as True w"
    by (auto simp: piece)
  from Cons.IH [of out1] Cons.prems obtain out2 where
    r: "fold decode_byte (written_bytes pieces) (outside [], out1) = (outside [], out2)" "flat out2 = flat out1 @ meant_bytes pieces" by auto
  have "written_bytes (piece # pieces) = (p @ wrapped w) @ written_bytes pieces" by (simp add: written_bytes_def piece)
  then have "fold decode_byte (written_bytes (piece # pieces)) (outside [], out) = (outside [], out2)"
    by (simp only: fold_append [of decode_byte "p @ wrapped w"] comp_def o(1) r(1))
  then show ?case using o(2) r(2) by (intro exI [of _ out2]) (simp add: meant_bytes_def piece)
qed (simp add: written_bytes_def meant_bytes_def)

text \<open>
  C6: A pane's bytes come out as they were written, and with what tmux parsed told from what it passed
  through. However a pane's output, plain bytes and wrapped runs in any order, is cut into
  notifications, each escaped as tmux escapes, decoding them one after the other yields every plain
  byte and every wrapped one in order, each marked for what it is; nothing is lost, and all that is
  held back at the end is what may be the start of a wrapper.
\<close>

theorem pane_output_exact:
  assumes "concat chunks = written_bytes pieces @ tail" "\<forall>(p, w)\<in>set pieces. \<not> sublist OPEN p" "\<not> sublist OPEN tail"
    "decode_payloads (map escaped chunks) decoder_new = (d, outs)"
  shows "flat outs @ marked_as False (pd_opener d) = meant_bytes pieces @ marked_as False tail
    \<and> strict_prefix (pd_opener d) OPEN \<and> \<not> pd_in_wrapper d"
proof -
  have new: "decoder_new = outside []" by (simp add: decoder_new_def outside_def)
  from pieces_decoded [OF assms(2), of "[]"] obtain out1 where
    o: "fold decode_byte (written_bytes pieces) (outside [], []) = (outside [], out1)" "flat out1 = meant_bytes pieces" by auto
  from plain_decoded [of "[]" tail out1] assms(3) obtain o2 out2 e where
    t: "fold decode_byte tail (outside [], out1) = (outside o2, out2)" "prefix o2 OPEN" "o2 \<noteq> OPEN" "tail = e @ o2"
    "flat out2 = flat out1 @ marked_as False e" by auto
  have "fold decode_byte (concat chunks) (decoder_new, []) = (outside o2, out2)"
    unfolding assms(1) fold_append comp_def new o(1) t(1) ..
  from decode_payloads_fold [OF this assms(4)] have d: "d = outside o2" "flat outs = flat out2" by simp_all
  have opener: "pd_opener d = o2" "\<not> pd_in_wrapper d" by (simp_all add: d outside_def)
  show ?thesis unfolding opener(1) d(2) using t o(2) opener(2) by (simp add: strict_prefix_def)
qed

lemma pane_output_exact_witness:
  "flat (snd (decode_payloads (map escaped [[97, 27], [80] @ ascii ''tm'', ascii ''ux;'' @ [27], [27, 91, 27], [92, 98]]) decoder_new))
    = [(97, False), (27, True), (91, True), (98, False)]"
proof -
  obtain d outs where run: "decode_payloads (map escaped [[97, 27], [80] @ ascii ''tm'', ascii ''ux;'' @ [27], [27, 91, 27], [92, 98]]) decoder_new = (d, outs)"
    by (cases "decode_payloads (map escaped [[97, 27], [80] @ ascii ''tm'', ascii ''ux;'' @ [27], [27, 91, 27], [92, 98]]) decoder_new")
  have "flat outs @ marked_as False (pd_opener d) = meant_bytes [([97], [27, 91])] @ marked_as False [98]
      \<and> strict_prefix (pd_opener d) OPEN \<and> \<not> pd_in_wrapper d"
  proof (rule pane_output_exact [OF _ _ _ run])
    show "concat [[97, 27], [80] @ ascii ''tm'', ascii ''ux;'' @ [27], [27, 91, 27], [92, 98]] = written_bytes [([97], [27, 91])] @ [98]"
      by (simp add: written_bytes_def wrapped_def OPEN_simp doubled_def ascii_def)
    show "\<forall>(p, w)\<in>set [([97], [27, 91])]. \<not> sublist OPEN p" by (simp add: OPEN_simp sublist_Cons_right prefix_Cons)
    show "\<not> sublist OPEN [98]" by (simp add: OPEN_simp sublist_Cons_right prefix_Cons)
  qed
  then have f: "flat outs @ marked_as False (pd_opener d) = [(97, False), (27, True), (91, True), (98, False)]" "strict_prefix (pd_opener d) OPEN"
    by (simp_all add: meant_bytes_def)
  have "pd_opener d = [] \<or> (\<exists>r b. pd_opener d = r @ [b])" by (cases "pd_opener d" rule: rev_cases) auto
  then have "pd_opener d = []"
    using f OPEN_prefixes [of "pd_opener d"] by (auto simp: strict_prefix_def append_eq_Cons_conv)
  then show ?thesis using f(1) unfolding run by simp
qed

end
