(* ===== verification/Control_Replies.thy ===== *)
theory Control_Replies
  imports Control_Properties
begin

text \<open>
  Replies to the supervisor's commands: each is read whole and alone, wherever the stream is cut.
\<close>

text \<open>A stream that delivers its bytes in these parts, and then ends.\<close>

definition delivered :: "byte list list \<Rightarrow> fill list" where
  "delivered parts = map Filled parts"

lemma delivered_Cons: "delivered (part # parts) = Filled part # delivered parts"
  by (simp add: delivered_def)

definition line_within :: "nat \<Rightarrow> byte list \<Rightarrow> bool" where
  "line_within limit l \<longleftrightarrow> length l \<le> limit \<and> l \<noteq> [] \<and> last l = 10 \<and> 10 \<notin> set (butlast l)"

lemma line_part_line: "10 \<notin> set as \<Longrightarrow> line_part (as @ 10 # bs) = as @ [10]"
  by (auto simp: line_part_def Let_def takeWhile_append)

lemma line_part_none: "10 \<notin> set as \<Longrightarrow> line_part as = as"
proof -
  assume "10 \<notin> set as"
  then have "takeWhile (\<lambda>b. b \<noteq> 10) as = as" by (auto simp: takeWhile_eq_all_conv)
  then show "line_part as = as" unfolding line_part_def by (simp only: Let_def less_irrefl if_False)
qed

lemma left_over_delivered: "[] \<notin> set parts \<Longrightarrow> \<exists>parts'. left_over rest (delivered parts) = delivered parts' \<and> [] \<notin> set parts' \<and> concat parts' = rest @ concat parts"
  by (cases "rest = []") (auto simp: left_over_def delivered_def intro: exI [of _ parts] exI [of _ "rest # parts"])

lemma read_control_line_delivered:
  "[] \<notin> set parts \<Longrightarrow> concat parts = l @ [10] @ rest \<Longrightarrow> 10 \<notin> set l \<Longrightarrow> length out + length l + 1 \<le> limit \<Longrightarrow>
    \<exists>parts'. read_control_line limit start (delivered parts) out = (Inr (length (out @ l @ [10]) - start), out @ l @ [10], delivered parts')
      \<and> [] \<notin> set parts' \<and> concat parts' = rest"
proof (induction parts arbitrary: l out)
  case (Cons part parts)
  have part: "part \<noteq> []" using Cons.prems(1) by auto
  show ?case
  proof (cases "length l < length part")
    case True
    obtain more where m: "part = l @ 10 # more" "more @ concat parts = rest"
      using Cons.prems(2) True by (auto simp: append_eq_append_conv2 append_eq_Cons_conv)
    have lp: "line_part part = l @ [10]" unfolding m(1) by (rule line_part_line [OF Cons.prems(3)])
    from left_over_delivered [of parts more] Cons.prems(1) obtain parts' where
      p: "left_over more (delivered parts) = delivered parts'" "[] \<notin> set parts'" "concat parts' = more @ concat parts" by auto
    have "read_control_line limit start (delivered (part # parts)) out = (Inr (length (out @ l @ [10]) - start), out @ l @ [10], delivered parts')"
      using part Cons.prems(4) p(1) by (simp add: delivered_Cons lp Let_def) (simp add: m(1))
    then show ?thesis using p m by auto
  next
    case False
    then obtain l' where l': "l = part @ l'" using Cons.prems(2) by (auto simp: append_eq_append_conv2 append_eq_Cons_conv)
    have none: "10 \<notin> set part" using Cons.prems(3) l' by auto
    then have last: "last part \<noteq> 10" using part last_in_set by metis
    have step: "read_control_line limit start (delivered (part # parts)) out = read_control_line limit start (delivered parts) (out @ part)"
      using part Cons.prems(4) last by (simp add: delivered_Cons line_part_none [OF none] l')
    show ?thesis unfolding step
      using Cons.IH [of l' "out @ part"] Cons.prems by (simp add: l')
  qed
qed simp

lemma next_line_delivered:
  assumes "[] \<notin> set parts" "concat parts = l @ rest" "line_within limit l"
  shows "\<exists>parts'. next_line limit (delivered parts) = (Inr (Some l), delivered parts') \<and> [] \<notin> set parts' \<and> concat parts' = rest"
proof -
  obtain l' where l: "l = l' @ [10]" "10 \<notin> set l'" "length l \<le> limit"
    using assms(3) by (cases l rule: rev_cases) (auto simp: line_within_def)
  from read_control_line_delivered [of parts l' rest "[]" limit 0] assms l obtain parts' where
    "read_control_line limit 0 (delivered parts) [] = (Inr (length (l' @ [10])), l' @ [10], delivered parts')" "[] \<notin> set parts'" "concat parts' = rest"
    by auto
  then show ?thesis by (auto simp: next_line_def l)
qed

text \<open>A line that may come before a reply: no marker, no output of this pane, no end.\<close>

definition chatter :: "byte list \<Rightarrow> byte list \<Rightarrow> bool" where
  "chatter own_pane l \<longleftrightarrow> parse_control_marker (strip_line_ending l) = None
     \<and> (\<forall>escaped. classify_control_line (strip_line_ending l) \<noteq> Some (Payload own_pane escaped))
     \<and> \<not> prefix (ascii ''%exit'') (strip_line_ending l)"

lemma find_begin_delivered:
  assumes "[] \<notin> set parts" "concat parts = concat before @ starting @ rest" "\<forall>l\<in>set before. line_within limit l \<and> chatter own l"
    "line_within limit starting" "parse_control_marker (strip_line_ending starting) = Some (BeginMarker i)"
  shows "\<exists>parts'. find_begin limit own (delivered parts) = (Inr i, delivered parts') \<and> [] \<notin> set parts' \<and> concat parts' = rest"
  using assms
proof (induction before arbitrary: parts)
  case Nil
  from next_line_delivered [of parts starting rest limit] Nil obtain parts' where
    "next_line limit (delivered parts) = (Inr (Some starting), delivered parts')" "[] \<notin> set parts'" "concat parts' = rest" by auto
  then show ?case using Nil.prems(5) by (auto simp: find_begin.simps Let_def)
next
  case (Cons l before)
  from next_line_delivered [of parts l "concat before @ starting @ rest" limit] Cons.prems obtain parts1 where
    n: "next_line limit (delivered parts) = (Inr (Some l), delivered parts1)" "[] \<notin> set parts1" "concat parts1 = concat before @ starting @ rest" by auto
  have c: "chatter own l" using Cons.prems(3) by simp
  have "find_begin limit own (delivered parts) = find_begin limit own (delivered parts1)"
    using c by (subst find_begin.simps) (auto simp: n(1) Let_def chatter_def split: option.splits control_line.splits)
  with Cons.IH [OF n(2,3) _ Cons.prems(4,5)] Cons.prems(3) show ?case by simp
qed

lemma read_body_delivered:
  assumes "[] \<notin> set parts" "concat parts = concat body @ closing @ rest"
    "\<forall>l\<in>set body. line_within limit l \<and> parse_control_marker (strip_line_ending l) \<notin> {Some (EndMarker i), Some (ErrorMarker i)}"
    "line_within limit closing" "parse_control_marker (strip_line_ending closing) = Some (if failed then ErrorMarker i else EndMarker i)"
  shows "\<exists>parts'. read_body limit i (delivered parts) got =
      (if failed then Inl (CommandFailed (strip_command_output_terminator (got @ concat body))) else Inr (got @ concat body), delivered parts')
    \<and> [] \<notin> set parts' \<and> concat parts' = rest"
  using assms
proof (induction body arbitrary: parts got)
  case Nil
  from next_line_delivered [of parts closing rest limit] Nil obtain parts' where
    "next_line limit (delivered parts) = (Inr (Some closing), delivered parts')" "[] \<notin> set parts'" "concat parts' = rest" by auto
  then show ?case using Nil.prems(5) by (auto simp: read_body.simps Let_def)
next
  case (Cons l body)
  from next_line_delivered [of parts l "concat body @ closing @ rest" limit] Cons.prems obtain parts1 where
    n: "next_line limit (delivered parts) = (Inr (Some l), delivered parts1)" "[] \<notin> set parts1" "concat parts1 = concat body @ closing @ rest" by auto
  have "read_body limit i (delivered parts) got = read_body limit i (delivered parts1) (got @ l)"
    using Cons.prems(3) by (subst read_body.simps) (auto simp: n(1) Let_def)
  with Cons.IH [OF n(2,3) _ Cons.prems(4,5), of "got @ l"] Cons.prems(3)
  have "\<exists>parts'. read_body limit i (delivered parts) got =
      (if failed then Inl (CommandFailed (strip_command_output_terminator ((got @ l) @ concat body))) else Inr ((got @ l) @ concat body), delivered parts')
    \<and> [] \<notin> set parts' \<and> concat parts' = rest" by (metis list.set_intros(2))
  then show ?case by (simp only: append_assoc concat.simps)
qed

text \<open>
  C16: A command's reply is read whole and alone. However the stream is cut, once tmux has said whatever
  it says between replies, the lines between the reply's begin marker and the end marker with the same
  identity are its output, byte for byte, even where they look like notifications or like another
  reply's markers; an error marker makes them the failure's reason; and what follows the closing
  marker is still to be read.
\<close>

theorem command_reply_exact:
  assumes "[] \<notin> set parts" "concat parts = concat before @ starting @ concat body @ closing @ rest"
    "\<forall>l\<in>set before. line_within limit l \<and> chatter own l"
    "line_within limit starting" "parse_control_marker (strip_line_ending starting) = Some (BeginMarker i)"
    "\<forall>l\<in>set body. line_within limit l \<and> parse_control_marker (strip_line_ending l) \<notin> {Some (EndMarker i), Some (ErrorMarker i)}"
    "line_within limit closing" "parse_control_marker (strip_line_ending closing) = Some (if failed then ErrorMarker i else EndMarker i)"
  shows "\<exists>parts'. read_command_block limit own (delivered parts) =
      (if failed then Inl (CommandFailed (strip_command_output_terminator (concat body))) else Inr (concat body), delivered parts')
    \<and> [] \<notin> set parts' \<and> concat parts' = rest"
proof -
  from find_begin_delivered [OF assms(1-5)] obtain parts1 where
    f: "find_begin limit own (delivered parts) = (Inr i, delivered parts1)" "[] \<notin> set parts1" "concat parts1 = concat body @ closing @ rest" by blast
  from read_body_delivered [OF f(2,3) assms(6-8), of "[]"] show ?thesis
    unfolding read_command_block_def f(1) prod.case sum.case append_Nil .
qed

lemma command_reply_exact_witness:
  "\<exists>parts'. read_command_block 30 (ascii ''%1'') (delivered [ascii ''%output %2 hi'' @ [10] @ ascii ''%beg'', ascii ''in 5 7 0'' @ [10, 97],
      [98, 10] @ ascii ''%end 5 6 0'' @ [10] @ ascii ''%end 5 7'', ascii '' 0'' @ [10] @ ascii ''%pa'']) =
      (Inr ([97, 98, 10] @ ascii ''%end 5 6 0'' @ [10]), delivered parts')
    \<and> [] \<notin> set parts' \<and> concat parts' = ascii ''%pa''"
proof -
  let ?starting = "ascii ''%begin 5 7 0'' @ [10]" and ?i = "\<lparr>bi_timestamp = 5, bi_command = 7, bi_flags = 0\<rparr>"
  let ?other = "ascii ''%end 5 6 0'' @ [10]" and ?closing = "ascii ''%end 5 7 0'' @ [10]"
  note eval = ascii_def strip_line_ending_def strip_last_def parse_control_marker_def parse_number_def parse_digits_def is_digit_def
    digits_value_def line_within_def Let_def
  have marks: "parse_control_marker (strip_line_ending ?starting) = Some (BeginMarker ?i)"
      "parse_control_marker (strip_line_ending ?closing) = Some (if False then ErrorMarker ?i else EndMarker ?i)"
      "parse_control_marker (strip_line_ending ?other) \<notin> {Some (EndMarker ?i), Some (ErrorMarker ?i)}"
      "parse_control_marker (strip_line_ending [97, 98, 10]) \<notin> {Some (EndMarker ?i), Some (ErrorMarker ?i)}"
    by (simp_all add: eval)
  have chat: "chatter (ascii ''%1'') (ascii ''%output %2 hi'' @ [10])"
    by (simp add: eval chatter_def classify_control_line_def strip_prefix_of_def split_output_payload_def)
  show ?thesis
    using command_reply_exact [of _ "[ascii ''%output %2 hi'' @ [10]]" ?starting "[[97, 98, 10], ?other]" ?closing "ascii ''%pa''" 30 "ascii ''%1''" ?i False,
      OF _ _ _ _ marks(1) _ _ marks(2), of "[ascii ''%output %2 hi'' @ [10] @ ascii ''%beg'', ascii ''in 5 7 0'' @ [10, 97],
      [98, 10] @ ascii ''%end 5 6 0'' @ [10] @ ascii ''%end 5 7'', ascii '' 0'' @ [10] @ ascii ''%pa'']"] marks(3,4) chat
    by (simp add: line_within_def ascii_def)
qed

end
