(* ===== verification/Pane_Facts.thy ===== *)
theory Pane_Facts
  imports Control_Codec
begin

text \<open>
  Discovery of tmux's panes (\<^verbatim>\<open>parse_pane_facts_flagged\<close>, \<^verbatim>\<open>marker_query_needed\<close> and
  \<^verbatim>\<open>join_pane_markers\<close> in \<^verbatim>\<open>crates/farhelm-supervisor/src/tmux/control_codec.rs\<close>): what tmux itself
  says of each pane, and the markers a pane can write. Text is its UTF-8 bytes.
\<close>

subsection \<open>Fields\<close>

text \<open>The lines of a text, without their endings and without an empty last one.\<close>

definition text_lines :: "byte list \<Rightarrow> byte list list" where
  "text_lines out =
     (let parts = split_on 10 out in
      map (strip_last 13) (butlast parts) @ (if last parts = [] then [] else [last parts]))"

text \<open>At most so many fields, the last one the whole rest.\<close>

fun splitn :: "nat \<Rightarrow> byte \<Rightarrow> byte list \<Rightarrow> byte list list" where
  "splitn 0 s bs = []"
| "splitn (Suc 0) s bs = [bs]"
| "splitn (Suc (Suc n)) s bs =
     (let field = takeWhile (\<lambda>b. b \<noteq> s) bs in
      if length field < length bs then field # splitn (Suc n) s (drop (length field + 1) bs) else [field])"

text \<open>The number of an id that is a sigil and digits.\<close>

definition tmux_ordinal :: "byte list \<Rightarrow> byte \<Rightarrow> nat option" where
  "tmux_ordinal i sigil = (case i of b # digits \<Rightarrow> if b = sigil then parse_number digits else None | [] \<Rightarrow> None)"

text \<open>Rust's parse of a 64-bit number, which takes one sign, and of a 32-bit signed one.\<close>

definition parse_u64 :: "byte list \<Rightarrow> nat option" where
  "parse_u64 field = (case field of b # rest \<Rightarrow> if b = 43 then parse_number rest else parse_number field | [] \<Rightarrow> None)"

definition parse_i32 :: "byte list \<Rightarrow> int option" where
  "parse_i32 field = (case field of
     [] \<Rightarrow> None
   | b # rest \<Rightarrow>
       if b = 45 then (case parse_digits rest of Some n \<Rightarrow> if n \<le> 2 ^ 31 then Some (- int n) else None | None \<Rightarrow> None)
       else (case parse_digits (if b = 43 then rest else field) of Some n \<Rightarrow> if n < 2 ^ 31 then Some (int n) else None | None \<Rightarrow> None))"

definition is_uuid_shaped :: "byte list \<Rightarrow> bool" where
  "is_uuid_shaped i \<longleftrightarrow> map length (split_on 45 i) = [8, 4, 4, 4, 12]
     \<and> (\<forall>part\<in>set (split_on 45 i). \<forall>b\<in>set part. is_digit b \<or> 97 \<le> unat b \<and> unat b \<le> 102)"

definition EMPTY_FIELD :: "byte list" where "EMPTY_FIELD = [45]"

definition parse_marker :: "byte list \<Rightarrow> byte list option" where
  "parse_marker value' = (if value' \<noteq> EMPTY_FIELD \<and> is_uuid_shaped value' then Some value' else None)"

subsection \<open>What tmux says of a pane\<close>

record pane_state =
  ps_session_name :: "byte list"
  ps_dead :: bool
  ps_window :: "byte list"
  ps_window_ordinal :: nat
  ps_pane_ordinal :: nat
  ps_window_index :: nat
  ps_tab :: "byte list option"
  ps_agent :: "byte list option"
  ps_exit_code :: "int option"

definition parse_flag :: "byte list \<Rightarrow> bool option" where
  "parse_flag field = (if field = [48] then Some False else if field = [49] then Some True else None)"

text \<open>One row, and whether its window carries a tab marker; a pane's id is the percent sign and its number.\<close>

definition parse_fact_row :: "byte list \<Rightarrow> (pane_state \<times> bool) option" where
  "parse_fact_row line = (case splitn 7 32 line of
     [pane, window, index, dead, status, marked, session] \<Rightarrow>
       (case (tmux_ordinal pane 37, tmux_ordinal window 64, parse_u64 index, parse_flag dead, parse_flag marked) of
          (Some p, Some w, Some i, Some d, Some m) \<Rightarrow>
            if session = [] then None
            else Some (\<lparr>ps_session_name = session, ps_dead = d, ps_window = window, ps_window_ordinal = w, ps_pane_ordinal = p,
              ps_window_index = i, ps_tab = None, ps_agent = None,
              ps_exit_code = (if d then (case strip_prefix_of [115] status of Some s \<Rightarrow> parse_i32 s | None \<Rightarrow> None) else None)\<rparr>, m)
        | _ \<Rightarrow> None)
   | _ \<Rightarrow> None)"

type_synonym pane_map = "nat \<Rightarrow> pane_state option"

record pane_facts =
  pf_states :: pane_map
  pf_duplicated :: bool
  pf_tab_marked :: bool

text \<open>The loop over the rows: the panes so far, those seen twice, and whether any is marked.\<close>

definition fact_step :: "byte list \<Rightarrow> pane_map \<times> nat list \<times> bool \<Rightarrow> pane_map \<times> nat list \<times> bool" where
  "fact_step line = (\<lambda>(states, seen_twice, tab_marked). case parse_fact_row line of
     None \<Rightarrow> (states, seen_twice, tab_marked)
   | Some (state, marked) \<Rightarrow>
       if states (ps_pane_ordinal state) \<noteq> None then (states, ps_pane_ordinal state # seen_twice, tab_marked)
       else (states(ps_pane_ordinal state \<mapsto> state), seen_twice, tab_marked \<or> marked))"

definition parse_pane_facts_flagged :: "byte list \<Rightarrow> pane_facts" where
  "parse_pane_facts_flagged out =
     (let (states, seen_twice, tab_marked) = fold fact_step (text_lines out) (\<lambda>_. None, [], False) in
      \<lparr>pf_states = (\<lambda>p. if p \<in> set seen_twice then None else states p), pf_duplicated = (seen_twice \<noteq> []), pf_tab_marked = tab_marked\<rparr>)"

subsection \<open>Markers\<close>

text \<open>The panes in whatever order the map gives them.\<close>

fun windows_differ :: "pane_state list \<Rightarrow> (byte list \<Rightarrow> byte list option) \<Rightarrow> bool" where
  "windows_differ [] first_window = False"
| "windows_differ (s # rest) first_window =
     ((case first_window (ps_session_name s) of Some seen \<Rightarrow> seen \<noteq> ps_window s | None \<Rightarrow> False)
      \<or> windows_differ rest (first_window(ps_session_name s \<mapsto> ps_window s)))"

definition marker_query_needed :: "pane_state list \<Rightarrow> bool \<Rightarrow> bool" where
  "marker_query_needed states tab_marked \<longleftrightarrow> tab_marked \<or> windows_differ states (\<lambda>_. None)"

text \<open>A row's pane and its two markers.\<close>

definition parse_marker_row :: "byte list \<Rightarrow> (nat \<times> byte list option \<times> byte list option) option" where
  "parse_marker_row line = (case filter (\<lambda>f. f \<noteq> []) (split_on 32 line) of
     [pane, agent, tab] \<Rightarrow> map_option (\<lambda>p. (p, parse_marker agent, parse_marker tab)) (tmux_ordinal pane 37)
   | _ \<Rightarrow> None)"

definition marker_step :: "byte list \<Rightarrow> pane_map \<times> nat list \<times> nat list \<Rightarrow> pane_map \<times> nat list \<times> nat list" where
  "marker_step line = (\<lambda>(states, seen, ambiguous). case parse_marker_row line of
     None \<Rightarrow> (states, seen, ambiguous)
   | Some (p, agent, tab) \<Rightarrow> (case states p of
       None \<Rightarrow> (states, seen, ambiguous)
     | Some state \<Rightarrow>
         if p \<in> set seen then (states, seen, p # ambiguous)
         else (states(p \<mapsto> state\<lparr>ps_agent := agent, ps_tab := tab\<rparr>), p # seen, ambiguous)))"

definition join_pane_markers :: "byte list \<Rightarrow> pane_map \<Rightarrow> pane_map" where
  "join_pane_markers out states =
     (let (states, seen, ambiguous) = fold marker_step (text_lines out) (states, [], []) in
      (\<lambda>p. if p \<in> set ambiguous then map_option (\<lambda>s. s\<lparr>ps_agent := None, ps_tab := None\<rparr>) (states p) else states p))"

end
