(* ===== verification/Pane_Properties.thy ===== *)
theory Pane_Properties
  imports Pane_Facts
begin

text \<open>
  What the discovery of panes makes of tmux's answers: a pane is known by exactly one row, and a
  marker row can only decorate a pane tmux itself reported, whatever rows a pane forges.
\<close>

definition fact_rows :: "byte list \<Rightarrow> (pane_state \<times> bool) list" where
  "fact_rows out = List.map_filter parse_fact_row (text_lines out)"

definition marker_rows :: "byte list \<Rightarrow> (nat \<times> byte list option \<times> byte list option) list" where
  "marker_rows out = List.map_filter parse_marker_row (text_lines out)"

subsection \<open>Facts\<close>

definition fact_row :: "pane_state \<times> bool \<Rightarrow> pane_map \<times> nat list \<times> bool \<Rightarrow> pane_map \<times> nat list \<times> bool" where
  "fact_row = (\<lambda>(state, marked) (states, seen_twice, tab_marked).
     if states (ps_pane_ordinal state) \<noteq> None then (states, ps_pane_ordinal state # seen_twice, tab_marked)
     else (states(ps_pane_ordinal state \<mapsto> state), seen_twice, tab_marked \<or> marked))"

lemma fold_fact_step: "fold fact_step lines acc = fold fact_row (List.map_filter parse_fact_row lines) acc"
proof (induction lines arbitrary: acc)
  case (Cons line lines)
  obtain states seen marked where acc: "acc = (states, seen, marked)" by (cases acc)
  show ?case using Cons.IH by (auto simp: acc fact_step_def fact_row_def map_filter_simps split: option.split)
qed (simp add: map_filter_simps)

definition of_pane :: "nat \<Rightarrow> (pane_state \<times> bool) list \<Rightarrow> pane_state list" where
  "of_pane p rs = map fst (filter (\<lambda>(s, m). ps_pane_ordinal s = p) rs)"

text \<open>A mark counts on the first row of its pane.\<close>

fun first_marked :: "nat set \<Rightarrow> (pane_state \<times> bool) list \<Rightarrow> bool" where
  "first_marked known [] = False"
| "first_marked known ((s, m) # rs) = (ps_pane_ordinal s \<notin> known \<and> m \<or> first_marked (insert (ps_pane_ordinal s) known) rs)"

lemma dom_grows: "dom (states(k \<mapsto> v)) = insert k (dom states)"
  by simp

lemma fold_fact_row:
  assumes "fold fact_row rs (states, seen, marked) = (states', seen', marked')"
  shows "states' p = (case states p of Some s \<Rightarrow> Some s | None \<Rightarrow> (case of_pane p rs of [] \<Rightarrow> None | s # rest \<Rightarrow> Some s))
    \<and> (p \<in> set seen' \<longleftrightarrow> p \<in> set seen \<or> (if states p = None then 1 < length (of_pane p rs) else of_pane p rs \<noteq> []))
    \<and> marked' = (marked \<or> first_marked (dom states) rs)"
  using assms
proof (induction rs arbitrary: states seen marked)
  case Nil
  then show ?case by (auto simp: of_pane_def split: option.split)
next
  case (Cons r rs)
  obtain s m where r: "r = (s, m)" by (cases r)
  show ?case
  proof (cases "states (ps_pane_ordinal s)")
    case None
    then have step: "fold fact_row rs (states(ps_pane_ordinal s \<mapsto> s), seen, marked \<or> m) = (states', seen', marked')"
      using Cons.prems by (simp add: r fact_row_def)
    have fresh: "ps_pane_ordinal s \<notin> dom states" using None by auto
    show ?thesis
      using Cons.IH [OF step, unfolded dom_grows] None fresh
      by (cases "p = ps_pane_ordinal s") (auto simp: r of_pane_def split: option.splits)
  next
    case (Some s0)
    then have step: "fold fact_row rs (states, ps_pane_ordinal s # seen, marked) = (states', seen', marked')"
      using Cons.prems by (simp add: r fact_row_def)
    have known: "insert (ps_pane_ordinal s) (dom states) = dom states" "ps_pane_ordinal s \<in> dom states" using Some by auto
    show ?thesis
      using Cons.IH [OF step] Some known
      by (cases "p = ps_pane_ordinal s") (auto simp: r of_pane_def split: option.splits)
  qed
qed

text \<open>
  C39: A pane is known by exactly one row. A pane is in the result precisely if exactly one row of the
  whole answer is well formed and names it, and then with what that row says; a pane named by two
  rows is dropped and the answer flagged; every other row, however it is malformed, changes nothing.
\<close>

theorem pane_facts_exact:
  "pf_states (parse_pane_facts_flagged out) p = (case of_pane p (fact_rows out) of [s] \<Rightarrow> Some s | _ \<Rightarrow> None)
    \<and> (pf_duplicated (parse_pane_facts_flagged out) \<longleftrightarrow> (\<exists>q. 1 < length (of_pane q (fact_rows out))))
    \<and> (pf_tab_marked (parse_pane_facts_flagged out) \<longleftrightarrow> first_marked {} (fact_rows out))"
proof -
  obtain states seen marked where F: "fold fact_row (fact_rows out) (\<lambda>_. None, [], False) = (states, seen, marked)"
    by (cases "fold fact_row (fact_rows out) (\<lambda>_. None, [], False)")
  have R: "states q = (case of_pane q (fact_rows out) of [] \<Rightarrow> None | s # rest \<Rightarrow> Some s)"
    "marked = first_marked {} (fact_rows out)" "q \<in> set seen \<longleftrightarrow> 1 < length (of_pane q (fact_rows out))" for q
    using fold_fact_row [OF F, of q] by auto
  have P: "parse_pane_facts_flagged out = \<lparr>pf_states = (\<lambda>p. if p \<in> set seen then None else states p), pf_duplicated = (seen \<noteq> []), pf_tab_marked = marked\<rparr>"
    by (simp add: parse_pane_facts_flagged_def fold_fact_step F [unfolded fact_rows_def])
  have "seen \<noteq> [] \<longleftrightarrow> (\<exists>q. q \<in> set seen)" by (cases seen) auto
  then show ?thesis unfolding P using R by (cases "of_pane p (fact_rows out)") (auto split: list.splits)
qed

subsection \<open>Markers\<close>

definition marker_row :: "nat \<times> byte list option \<times> byte list option \<Rightarrow> pane_map \<times> nat list \<times> nat list \<Rightarrow> pane_map \<times> nat list \<times> nat list" where
  "marker_row = (\<lambda>(p, agent, tab) (states, seen, ambiguous). case states p of
     None \<Rightarrow> (states, seen, ambiguous)
   | Some state \<Rightarrow>
       if p \<in> set seen then (states, seen, p # ambiguous)
       else (states(p \<mapsto> state\<lparr>ps_agent := agent, ps_tab := tab\<rparr>), p # seen, ambiguous))"

lemma fold_marker_step: "fold marker_step lines acc = fold marker_row (List.map_filter parse_marker_row lines) acc"
proof (induction lines arbitrary: acc)
  case (Cons line lines)
  obtain states seen amb where acc: "acc = (states, seen, amb)" by (cases acc)
  show ?case using Cons.IH by (auto simp: acc marker_step_def marker_row_def map_filter_simps split: option.split)
qed (simp add: map_filter_simps)

definition marks_of :: "nat \<Rightarrow> (nat \<times> byte list option \<times> byte list option) list \<Rightarrow> (byte list option \<times> byte list option) list" where
  "marks_of p rs = map snd (filter (\<lambda>(q, m). q = p) rs)"

lemma fold_marker_row:
  assumes "fold marker_row rs (states, seen, ambiguous) = (states', seen', ambiguous')"
  shows "states' p = (case states p of None \<Rightarrow> None
      | Some s \<Rightarrow> if p \<in> set seen then Some s
          else (case marks_of p rs of [] \<Rightarrow> Some s | (agent, tab) # rest \<Rightarrow> Some (s\<lparr>ps_agent := agent, ps_tab := tab\<rparr>)))
    \<and> (p \<in> set ambiguous' \<longleftrightarrow> p \<in> set ambiguous
        \<or> states p \<noteq> None \<and> (if p \<in> set seen then marks_of p rs \<noteq> [] else 1 < length (marks_of p rs)))"
  using assms
proof (induction rs arbitrary: states seen ambiguous)
  case Nil
  then show ?case by (auto simp: marks_of_def split: option.split)
next
  case (Cons r rs)
  obtain q agent tab where r: "r = (q, agent, tab)" by (cases r)
  show ?case
  proof (cases "states q")
    case None
    then have "fold marker_row rs (states, seen, ambiguous) = (states', seen', ambiguous')"
      using Cons.prems by (simp add: r marker_row_def)
    from Cons.IH [OF this] None show ?thesis by (auto simp: r marks_of_def split: option.splits)
  next
    case (Some s)
    show ?thesis
    proof (cases "q \<in> set seen")
      case True
      then have "fold marker_row rs (states, seen, q # ambiguous) = (states', seen', ambiguous')"
        using Cons.prems Some by (simp add: r marker_row_def)
      from Cons.IH [OF this] True Some show ?thesis by (cases "p = q") (auto simp: r marks_of_def split: option.splits)
    next
      case False
      then have "fold marker_row rs (states(q \<mapsto> s\<lparr>ps_agent := agent, ps_tab := tab\<rparr>), q # seen, ambiguous) = (states', seen', ambiguous')"
        using Cons.prems Some by (simp add: r marker_row_def)
      from Cons.IH [OF this] False Some show ?thesis by (cases "p = q") (auto simp: r marks_of_def split: option.splits)
    qed
  qed
qed

text \<open>
  C40: A marker row only decorates, and two for one pane cancel. Joining the answer to the marker query
  adds and removes no pane and changes nothing of a pane but its two markers; a pane gets the markers
  of the one well-formed row that names it, keeps what it had when no row does, and is left unmarked
  when several do; so a row forged through a marker's value can unmark its pane but neither invent a
  pane nor mark one that has a row of its own.
\<close>

theorem join_markers_exact:
  "join_pane_markers out states p = (case states p of None \<Rightarrow> None
     | Some s \<Rightarrow> (case marks_of p (marker_rows out) of
         [] \<Rightarrow> Some s
       | [(agent, tab)] \<Rightarrow> Some (s\<lparr>ps_agent := agent, ps_tab := tab\<rparr>)
       | _ \<Rightarrow> Some (s\<lparr>ps_agent := None, ps_tab := None\<rparr>)))"
proof -
  obtain states' seen' amb' where F: "fold marker_row (marker_rows out) (states, [], []) = (states', seen', amb')"
    by (cases "fold marker_row (marker_rows out) (states, [], [])")
  show ?thesis
    using fold_marker_row [OF F, of p]
    by (auto simp: join_pane_markers_def fold_marker_step F [unfolded marker_rows_def] split: option.splits list.splits)
qed

definition seen_differs :: "(byte list \<Rightarrow> byte list option) \<Rightarrow> pane_state \<Rightarrow> bool" where
  "seen_differs first_window s \<longleftrightarrow> (case first_window (ps_session_name s) of Some seen \<Rightarrow> seen \<noteq> ps_window s | None \<Rightarrow> False)"

lemma seen_differs_upd:
  "seen_differs (first_window(ps_session_name s \<mapsto> ps_window s)) t \<longleftrightarrow>
    (if ps_session_name t = ps_session_name s then ps_window s \<noteq> ps_window t else seen_differs first_window t)"
  by (simp add: seen_differs_def)

lemma seen_differs_same:
  "\<not> seen_differs first_window s \<Longrightarrow> ps_session_name t = ps_session_name s \<Longrightarrow> seen_differs first_window t \<Longrightarrow> ps_window s \<noteq> ps_window t"
  by (auto simp: seen_differs_def split: option.splits)

lemma two_of_cons:
  "(\<exists>x\<in>set (s # xs). \<exists>t\<in>set (s # xs). n x = n t \<and> w x \<noteq> w t) \<longleftrightarrow>
    (\<exists>t\<in>set xs. n t = n s \<and> w s \<noteq> w t) \<or> (\<exists>x\<in>set xs. \<exists>t\<in>set xs. n x = n t \<and> w x \<noteq> w t)"
proof -
  define P where "P x t \<longleftrightarrow> n x = n t \<and> w x \<noteq> w t" for x t
  have sym: "P x t \<longleftrightarrow> P t x" for x t by (auto simp: P_def)
  have self: "\<not> P s s" by (simp add: P_def)
  have mate: "n t = n s \<and> w s \<noteq> w t \<longleftrightarrow> P s t" for t by (auto simp: P_def)
  show ?thesis unfolding P_def [symmetric] mate using sym self by auto
qed

lemma windows_differ_iff:
  "windows_differ states first_window \<longleftrightarrow>
    (\<exists>s\<in>set states. seen_differs first_window s)
    \<or> (\<exists>s\<in>set states. \<exists>t\<in>set states. ps_session_name s = ps_session_name t \<and> ps_window s \<noteq> ps_window t)"
proof (induction states arbitrary: first_window)
  case Nil
  show ?case by simp
next
  case (Cons s states)
  define two where "two \<longleftrightarrow> (\<exists>s\<in>set states. \<exists>t\<in>set states. ps_session_name s = ps_session_name t \<and> ps_window s \<noteq> ps_window t)"
  define mate where "mate t \<longleftrightarrow> ps_session_name t = ps_session_name s \<and> ps_window s \<noteq> ps_window t" for t :: pane_state
  define new where "new t \<longleftrightarrow> seen_differs (first_window(ps_session_name s \<mapsto> ps_window s)) t" for t
  have new: "mate t \<Longrightarrow> new t" "new t \<Longrightarrow> mate t \<or> seen_differs first_window t"
    "\<not> seen_differs first_window s \<Longrightarrow> seen_differs first_window t \<Longrightarrow> new t" for t :: pane_state
    using seen_differs_same [of first_window s t] by (auto simp: new_def mate_def seen_differs_upd split: if_splits)
  have step: "windows_differ (s # states) first_window \<longleftrightarrow> seen_differs first_window s \<or> (\<exists>t\<in>set states. new t) \<or> two"
    unfolding windows_differ.simps Cons.IH seen_differs_def [of first_window s, symmetric] two_def new_def ..
  show ?case
    unfolding step two_of_cons two_def [symmetric] mate_def [symmetric]
    using new unfolding list.set bex_simps by blast
qed

text \<open>
  The marker query is asked exactly when it can matter. It is asked when some window carries a tab
  marker or some session holds panes of two windows, in whatever order the panes are gone through.
\<close>

theorem marker_query_exact:
  "marker_query_needed states tab_marked \<longleftrightarrow> tab_marked
    \<or> (\<exists>s\<in>set states. \<exists>t\<in>set states. ps_session_name s = ps_session_name t \<and> ps_window s \<noteq> ps_window t)"
  by (simp add: marker_query_needed_def windows_differ_iff seen_differs_def)

end
