(* ===== verification/Query_Strip.thy ===== *)
theory Query_Strip
  imports Control_Codec
begin

text \<open>
  The terminal queries tmux has answered, removed from what a client is sent
  (\<^verbatim>\<open>QueryStripper\<close> in \<^verbatim>\<open>crates/farhelm-supervisor/src/tmux/query_strip.rs\<close>); and what that comes to,
  said without its state.
\<close>

definition QUERY_ENTRIES :: "byte list list" where
  "QUERY_ENTRIES = [
     27 # ascii ''[6n'', 27 # ascii ''[5n'', 27 # ascii ''[c'', 27 # ascii ''[0c'', 27 # ascii ''[>c'', 27 # ascii ''[>0c'',
     27 # ascii '']10;?'' @ [7], 27 # ascii '']10;?'' @ [27, 92], 27 # ascii '']11;?'' @ [7], 27 # ascii '']11;?'' @ [27, 92]]"

definition is_complete_query :: "byte list \<Rightarrow> bool" where
  "is_complete_query candidate \<longleftrightarrow> candidate \<in> set QUERY_ENTRIES"

definition is_possible_prefix :: "byte list \<Rightarrow> bool" where
  "is_possible_prefix candidate \<longleftrightarrow> (\<exists>entry\<in>set QUERY_ENTRIES. prefix candidate entry \<and> length candidate < length entry)"

text \<open>The state is the bytes held back; no byte is a possible prefix.\<close>

fun resolve_hold_back :: "byte list \<Rightarrow> byte list \<Rightarrow> byte list \<times> byte list" where
  "resolve_hold_back [] acc = ([], acc)"
| "resolve_hold_back (b # bs) acc =
     (if is_complete_query (b # bs) then ([], acc)
      else if is_possible_prefix (b # bs) then (b # bs, acc)
      else resolve_hold_back bs (acc @ [b]))"

definition feed_byte :: "byte \<Rightarrow> byte list \<times> byte list \<Rightarrow> byte list \<times> byte list" where
  "feed_byte b = (\<lambda>(hold_back, acc).
     if hold_back = [] \<and> b \<noteq> 27 then (hold_back, acc @ [b])
     else resolve_hold_back (hold_back @ [b]) acc)"

definition strip_feed :: "byte list \<Rightarrow> byte list \<Rightarrow> byte list \<times> byte list" where
  "strip_feed bytes hold_back = fold feed_byte bytes (hold_back, [])"

definition strip_flush :: "byte list \<Rightarrow> byte list \<times> byte list" where
  "strip_flush hold_back = ([], hold_back)"

definition has_pending :: "byte list \<Rightarrow> bool" where
  "has_pending hold_back \<longleftrightarrow> hold_back \<noteq> []"

subsection \<open>What it comes to\<close>

text \<open>Every query of the table taken out, the first one first.\<close>

function without_queries :: "byte list \<Rightarrow> byte list" where
  "without_queries [] = []"
| "without_queries (b # bs) = (case find (\<lambda>q. prefix q (b # bs)) QUERY_ENTRIES of
     Some q \<Rightarrow> without_queries (drop (length q - 1) bs)
   | None \<Rightarrow> b # without_queries bs)"
  by pat_completeness auto
termination
  by (relation "measure length") auto

lemma entries_simp: "QUERY_ENTRIES = [
     [27, 91, 54, 110], [27, 91, 53, 110], [27, 91, 99], [27, 91, 48, 99], [27, 91, 62, 99], [27, 91, 62, 48, 99],
     [27, 93, 49, 48, 59, 63, 7], [27, 93, 49, 48, 59, 63, 27, 92], [27, 93, 49, 49, 59, 63, 7], [27, 93, 49, 49, 59, 63, 27, 92]]"
  by (simp add: QUERY_ENTRIES_def ascii_def)

text \<open>No query is inside another, and each starts with an escape.\<close>

lemma entries_apart: "p \<in> set QUERY_ENTRIES \<Longrightarrow> q \<in> set QUERY_ENTRIES \<Longrightarrow> sublist p q \<Longrightarrow> p = q"
proof -
  have "\<forall>p\<in>set QUERY_ENTRIES. \<forall>q\<in>set QUERY_ENTRIES. sublist p q \<longrightarrow> p = q"
    by (simp add: entries_simp sublist_Cons_right prefix_Cons)
  then show "p \<in> set QUERY_ENTRIES \<Longrightarrow> q \<in> set QUERY_ENTRIES \<Longrightarrow> sublist p q \<Longrightarrow> p = q" by blast
qed

lemma entries_escape: "q \<in> set QUERY_ENTRIES \<Longrightarrow> \<exists>r. q = 27 # r"
proof -
  have "\<forall>q\<in>set QUERY_ENTRIES. hd q = 27 \<and> q \<noteq> []" by (simp add: entries_simp)
  then show "q \<in> set QUERY_ENTRIES \<Longrightarrow> \<exists>r. q = 27 # r" by (metis list.collapse)
qed

lemma prefix_sublist: "prefix p q \<Longrightarrow> sublist p q"
  by (auto simp: prefix_def)

lemma without_query: "q \<in> set QUERY_ENTRIES \<Longrightarrow> without_queries (q @ rest) = without_queries rest"
proof -
  assume q: "q \<in> set QUERY_ENTRIES"
  from entries_escape [OF q] obtain r where r: "q = 27 # r" by blast
  have one: "p = q" if "p \<in> set QUERY_ENTRIES" "prefix p (q @ rest)" for p
    using prefix_same_cases [of p "q @ rest" q] that entries_apart [OF that(1) q] entries_apart [OF q that(1)] prefix_sublist by auto
  obtain p where p: "find (\<lambda>q. prefix q (27 # r @ rest)) QUERY_ENTRIES = Some p"
  proof (cases "find (\<lambda>q. prefix q (27 # r @ rest)) QUERY_ENTRIES")
    case None
    then show ?thesis using q r by (auto simp: find_None_iff)
  qed
  then have "p = q" using one r by (auto simp: find_Some_iff)
  then show ?thesis using p r by simp
qed

lemma without_other: "(\<And>q. q \<in> set QUERY_ENTRIES \<Longrightarrow> \<not> prefix q (b # bs)) \<Longrightarrow> without_queries (b # bs) = b # without_queries bs"
  by (simp add: find_None_iff [THEN iffD2])

text \<open>No query is in what is held back.\<close>

definition query_free :: "byte list \<Rightarrow> bool" where
  "query_free bs \<longleftrightarrow> (\<forall>q\<in>set QUERY_ENTRIES. \<not> sublist q bs)"

lemma query_free_without: "query_free bs \<Longrightarrow> without_queries bs = bs"
proof (induction bs)
  case (Cons b bs)
  have "query_free bs" using Cons.prems by (auto simp: query_free_def sublist_Cons_right)
  then show ?case
    using without_other [of b bs] Cons by (auto simp: query_free_def sublist_Cons_right)
qed simp

lemma possible_query_free: "is_possible_prefix c \<Longrightarrow> query_free c"
proof -
  assume "is_possible_prefix c"
  then obtain q where q: "q \<in> set QUERY_ENTRIES" "prefix c q" "length c < length q" by (auto simp: is_possible_prefix_def)
  have "\<not> sublist p c" if "p \<in> set QUERY_ENTRIES" for p
  proof
    assume "sublist p c"
    then have "sublist p q" "length p < length q"
      using q(2,3) sublist_length_le [of p c] prefix_sublist [OF q(2)] sublist_order.order_trans by auto
    then show False using entries_apart [OF that q(1)] by auto
  qed
  then show ?thesis by (simp add: query_free_def)
qed

lemma resolve_spec:
  "query_free (butlast c) \<Longrightarrow> resolve_hold_back c acc = (hold, acc') \<Longrightarrow>
    query_free hold \<and> (hold = [] \<or> is_possible_prefix hold)
    \<and> (\<exists>e. acc' = acc @ e \<and> (\<forall>rest. without_queries (c @ rest) = e @ without_queries (hold @ rest)))"
proof (induction c arbitrary: acc)
  case Nil
  then show ?case using possible_query_free by (auto simp: query_free_def entries_simp)
next
  case (Cons b bs)
  show ?case
  proof (cases "is_complete_query (b # bs)")
    case True
    then have "hold = []" "acc' = acc" using Cons.prems(2) by auto
    then show ?thesis using True without_query [of "b # bs"]
      by (auto simp: is_complete_query_def query_free_def entries_simp)
  next
    case incomplete: False
    show ?thesis
    proof (cases "is_possible_prefix (b # bs)")
      case True
      then have "hold = b # bs" "acc' = acc" using Cons.prems(2) incomplete by auto
      then show ?thesis using True possible_query_free by auto
    next
      case False
      have none: "\<not> prefix q (b # bs @ rest)" if "q \<in> set QUERY_ENTRIES" for q rest
      proof
        assume p: "prefix q (b # bs @ rest)"
        then consider "prefix q (b # bs)" | "prefix (b # bs) q"
          using prefix_same_cases [of q "(b # bs) @ rest" "b # bs"] by auto
        then show False
        proof cases
          case 1
          then have "prefix q (butlast (b # bs)) \<or> q = b # bs"
            by (cases "b # bs" rule: rev_cases) auto
          then show False
            using that Cons.prems(1) incomplete prefix_sublist by (auto simp: query_free_def is_complete_query_def)
        next
          case 2
          then have "length (b # bs) < length q \<or> b # bs = q"
            using prefix_length_le [OF 2] by (auto simp: prefix_def)
          then show False using that 2 False incomplete by (auto simp: is_possible_prefix_def is_complete_query_def)
        qed
      qed
      have "query_free (butlast bs)"
        using Cons.prems(1) by (auto simp: query_free_def sublist_Cons_right split: if_splits)
      from Cons.IH [OF this, of "acc @ [b]"] Cons.prems(2) incomplete False obtain e where
        e: "query_free hold" "hold = [] \<or> is_possible_prefix hold" "acc' = acc @ b # e"
          "\<forall>rest. without_queries (bs @ rest) = e @ without_queries (hold @ rest)" by auto
      have "without_queries ((b # bs) @ rest) = (b # e) @ without_queries (hold @ rest)" for rest
        using without_other [of b "bs @ rest"] none e(4) by simp
      then show ?thesis using e by blast
    qed
  qed
qed

definition strip_holds :: "byte list \<Rightarrow> bool" where
  "strip_holds hold \<longleftrightarrow> hold = [] \<or> is_possible_prefix hold"

lemma feed_byte_spec:
  assumes "strip_holds hold" "feed_byte b (hold, acc) = (hold', acc')"
  shows "strip_holds hold' \<and> (\<exists>e. acc' = acc @ e \<and> (\<forall>rest. without_queries (hold @ b # rest) = e @ without_queries (hold' @ rest)))"
proof (cases "hold = [] \<and> b \<noteq> 27")
  case True
  have "without_queries (b # rest) = b # without_queries rest" for rest
    using True by (intro without_other) (auto dest: entries_escape)
  then show ?thesis using True assms(2) by (auto simp: feed_byte_def strip_holds_def)
next
  case False
  have "query_free hold" using assms(1) possible_query_free by (auto simp: strip_holds_def query_free_def entries_simp)
  then have "query_free (butlast (hold @ [b]))" by simp
  from resolve_spec [OF this, of acc hold' acc'] show ?thesis
    using assms(2) False by (auto simp: feed_byte_def strip_holds_def)
qed

lemma strip_feed_spec:
  assumes "strip_holds hold" "strip_feed bytes hold = (hold', out)"
  shows "strip_holds hold' \<and> (\<forall>rest. without_queries (hold @ bytes @ rest) = out @ without_queries (hold' @ rest))"
proof -
  have "strip_holds hold \<Longrightarrow> fold feed_byte bytes (hold, acc) = (hold', acc') \<Longrightarrow>
    strip_holds hold' \<and> (\<exists>e. acc' = acc @ e \<and> (\<forall>rest. without_queries (hold @ bytes @ rest) = e @ without_queries (hold' @ rest)))" for acc acc'
  proof (induction bytes arbitrary: hold acc)
    case (Cons b bytes)
    obtain h1 o1 where f: "feed_byte b (hold, acc) = (h1, o1)" by (cases "feed_byte b (hold, acc)")
    from feed_byte_spec [OF Cons.prems(1) f] obtain e where e: "strip_holds h1" "o1 = acc @ e"
      "\<forall>rest. without_queries (hold @ b # rest) = e @ without_queries (h1 @ rest)" by blast
    from Cons.IH [OF e(1), of o1] Cons.prems(2) f obtain e' where e': "strip_holds hold'" "acc' = o1 @ e'"
      "\<forall>rest. without_queries (h1 @ bytes @ rest) = e' @ without_queries (hold' @ rest)" by auto
    show ?case using e e' by (intro conjI exI [of _ "e @ e'"]) auto
  qed auto
  from this [of "[]" out] show ?thesis using assms by (auto simp: strip_feed_def)
qed

lemma strip_holds_without: "strip_holds hold \<Longrightarrow> without_queries hold = hold"
  using query_free_without possible_query_free by (auto simp: strip_holds_def)

definition MAX_HOLD_BACK :: nat where "MAX_HOLD_BACK = 7"

lemma strip_holds_short: "strip_holds hold \<Longrightarrow> length hold \<le> MAX_HOLD_BACK"
  by (auto simp: strip_holds_def is_possible_prefix_def entries_simp MAX_HOLD_BACK_def)

text \<open>
  A stream in any pieces, flushed at its end, comes out without its queries and with everything
  else, and never are more bytes held back than the longest query has before its last one.
\<close>

fun strip_all :: "byte list list \<Rightarrow> byte list \<Rightarrow> byte list" where
  "strip_all [] hold = snd (strip_flush hold)"
| "strip_all (piece # pieces) hold = (let (hold, out) = strip_feed piece hold in out @ strip_all pieces hold)"

theorem query_strip_any_cut: "strip_all pieces [] = without_queries (concat pieces)"
proof -
  have "strip_holds hold \<Longrightarrow> strip_all pieces hold = without_queries (hold @ concat pieces)" for hold
  proof (induction pieces arbitrary: hold)
    case Nil
    then show ?case by (simp add: strip_flush_def strip_holds_without)
  next
    case (Cons piece pieces)
    obtain h out where f: "strip_feed piece hold = (h, out)" by (cases "strip_feed piece hold")
    then show ?case using strip_feed_spec [OF Cons.prems f] Cons.IH [of h] by simp
  qed
  from this [of "[]"] show ?thesis by (simp add: strip_holds_def)
qed

end
