(* ===== verification/Presence.thy ===== *)
theory Presence
  imports Prelude "HOL-Library.AList"
begin

text \<open>
  What the supervisor knows of the private tmux server (\<^verbatim>\<open>ServerPresence\<close> in
  \<^verbatim>\<open>crates/farhelm-supervisor/src/tmux/presence.rs\<close>), one definition per method; and the commands of a
  driver (\<^verbatim>\<open>tmux.rs\<close>) and the server itself as the steps of a world in which they interleave.
\<close>

subsection \<open>Knowledge\<close>

type_synonym session_name = string

datatype noted = Creating | Settled nat

datatype knowledge = Unprobed | KnownAbsent | Unusable string | KnownRunning "(session_name \<times> noted) list"

record presence =
  pr_knowledge :: knowledge
  pr_epoch :: nat
  pr_may_run :: bool

definition presence_new :: presence where
  "presence_new = \<lparr>pr_knowledge = Unprobed, pr_epoch = 0, pr_may_run = True\<rparr>"

definition known_absent :: "presence \<Rightarrow> bool" where
  "known_absent p = (case pr_knowledge p of KnownAbsent \<Rightarrow> True | Unusable reason \<Rightarrow> True | _ \<Rightarrow> False)"

text \<open>Every change of the knowledge publishes the bit that waiters watch.\<close>

definition publish :: "presence \<Rightarrow> presence" where
  "publish p = p\<lparr>pr_may_run := \<not> known_absent p\<rparr>"

definition unusable_reason :: "presence \<Rightarrow> string option" where
  "unusable_reason p = (case pr_knowledge p of Unusable reason \<Rightarrow> Some reason | _ \<Rightarrow> None)"

definition knows_absent :: "presence \<Rightarrow> session_name \<Rightarrow> bool" where
  "knows_absent p n = (case pr_knowledge p of
     KnownAbsent \<Rightarrow> True
   | KnownRunning sessions \<Rightarrow> map_of sessions n = None
   | _ \<Rightarrow> False)"

definition may_hold :: "presence \<Rightarrow> session_name \<Rightarrow> bool" where
  "may_hold p n = (case pr_knowledge p of
     Unprobed \<Rightarrow> True
   | KnownRunning sessions \<Rightarrow> map_of sessions n \<noteq> None
   | _ \<Rightarrow> False)"

definition know :: "knowledge \<Rightarrow> presence \<Rightarrow> presence" where
  "know k p = publish (p\<lparr>pr_knowledge := k\<rparr>)"

text \<open>A server without sessions exits, so it is none.\<close>

definition running :: "(session_name \<times> noted) list \<Rightarrow> knowledge" where
  "running sessions = (if sessions = [] then KnownAbsent else KnownRunning sessions)"

definition set_unusable :: "string \<Rightarrow> presence \<Rightarrow> presence" where
  "set_unusable reason = know (Unusable reason)"

definition set_absent :: "presence \<Rightarrow> presence" where
  "set_absent = know KnownAbsent"

definition adopted :: "session_name list \<Rightarrow> presence \<Rightarrow> presence" where
  "adopted names = know (running (fold (\<lambda>n. AList.update n (Settled 0)) names []))"

definition create_started :: "session_name \<Rightarrow> presence \<Rightarrow> presence" where
  "create_started n p = (case pr_knowledge p of
     KnownRunning sessions \<Rightarrow> know (KnownRunning (AList.update n Creating sessions)) p
   | KnownAbsent \<Rightarrow> know (KnownRunning [(n, Creating)]) p
   | k \<Rightarrow> know k p)"

definition create_finished :: "session_name \<Rightarrow> presence \<Rightarrow> presence" where
  "create_finished n p =
     (let epoch = pr_epoch p + 1; p = p\<lparr>pr_epoch := epoch\<rparr> in
      case pr_knowledge p of
        KnownRunning sessions \<Rightarrow> know (KnownRunning (AList.update n (Settled epoch) sessions)) p
      | k \<Rightarrow> know k p)"

definition ended :: "session_name \<Rightarrow> presence \<Rightarrow> presence" where
  "ended n p = (case pr_knowledge p of
     KnownRunning sessions \<Rightarrow> know (running (AList.delete n sessions)) p
   | k \<Rightarrow> know k p)"

definition listing_started :: "presence \<Rightarrow> nat" where
  "listing_started p = pr_epoch p"

definition retain :: "nat \<Rightarrow> session_name list \<Rightarrow> (session_name \<times> noted) list \<Rightarrow> (session_name \<times> noted) list" where
  "retain started present = filter (\<lambda>(n, noted). case noted of Creating \<Rightarrow> True | Settled at \<Rightarrow> started < at \<or> n \<in> set present)"

definition listed :: "nat \<Rightarrow> session_name list \<Rightarrow> presence \<Rightarrow> presence" where
  "listed started present p = (case pr_knowledge p of
     KnownRunning sessions \<Rightarrow> know (running (retain started present sessions)) p
   | k \<Rightarrow> know k p)"

definition no_server :: "nat \<Rightarrow> presence \<Rightarrow> presence" where
  "no_server started p = (case pr_knowledge p of
     KnownRunning sessions \<Rightarrow>
       know (running (filter (\<lambda>(n, noted). case noted of Creating \<Rightarrow> True | Settled at \<Rightarrow> started < at) sessions)) p
   | k \<Rightarrow> know k p)"

subsection \<open>The driver and the server\<close>

text \<open>
  Besides the knowledge, the sessions the server holds, the creates between their start and their
  finish, and the commands on their way that may report on the server: where each started, and what
  tmux answered it, once it has.
\<close>

record tmux_world =
  tw_presence :: presence
  tw_sessions :: "session_name set"
  tw_creating :: "session_name set"
  tw_commands :: "nat \<Rightarrow> (nat \<times> session_name list option) option"

text \<open>
  The startup probe finds no server, one it cannot use, or one whose sessions it lists, of which some
  may have ended since; a tool's driver does not probe.
\<close>

inductive tmux_start :: "tmux_world \<Rightarrow> bool" where
  unprobed: "tmux_start \<lparr>tw_presence = presence_new, tw_sessions = S, tw_creating = {}, tw_commands = (\<lambda>_. None)\<rparr>"
| none_runs: "tmux_start \<lparr>tw_presence = set_absent presence_new, tw_sessions = {}, tw_creating = {}, tw_commands = (\<lambda>_. None)\<rparr>"
| unusable: "tmux_start \<lparr>tw_presence = set_unusable reason presence_new, tw_sessions = S, tw_creating = {}, tw_commands = (\<lambda>_. None)\<rparr>"
| adopts: "S \<subseteq> set names \<Longrightarrow>
    tmux_start \<lparr>tw_presence = adopted names presence_new, tw_sessions = S, tw_creating = {}, tw_commands = (\<lambda>_. None)\<rparr>"

text \<open>
  No create is begun beside an unusable server, and none of a name whose create or session is there.
  tmux makes a session while its create runs, whether or not the create then reports success; a
  session may end at any time; a kill is noted when its session is gone; a command is answered with
  the sessions of one moment, and its answer is noted later, as a listing or as no server at all.
\<close>

inductive tmux_step :: "tmux_world \<Rightarrow> tmux_world \<Rightarrow> bool" where
  create_begins: "unusable_reason (tw_presence w) = None \<Longrightarrow> n \<notin> tw_creating w \<Longrightarrow>
    tmux_step w (w\<lparr>tw_presence := create_started n (tw_presence w), tw_creating := insert n (tw_creating w)\<rparr>)"
| tmux_creates: "n \<in> tw_creating w \<Longrightarrow> tmux_step w (w\<lparr>tw_sessions := insert n (tw_sessions w)\<rparr>)"
| create_returns: "n \<in> tw_creating w \<Longrightarrow>
    tmux_step w (w\<lparr>tw_presence := create_finished n (tw_presence w), tw_creating := tw_creating w - {n}\<rparr>)"
| session_ends: "tmux_step w (w\<lparr>tw_sessions := tw_sessions w - {n}\<rparr>)"
| kill_noted: "n \<notin> tw_sessions w \<Longrightarrow> n \<notin> tw_creating w \<Longrightarrow>
    tmux_step w (w\<lparr>tw_presence := ended n (tw_presence w)\<rparr>)"
| command_starts: "tw_commands w i = None \<Longrightarrow>
    tmux_step w (w\<lparr>tw_commands := (tw_commands w)(i \<mapsto> (listing_started (tw_presence w), None))\<rparr>)"
| tmux_answers: "tw_commands w i = Some (started, None) \<Longrightarrow> set present = tw_sessions w \<Longrightarrow>
    tmux_step w (w\<lparr>tw_commands := (tw_commands w)(i \<mapsto> (started, Some present))\<rparr>)"
| listing_noted: "tw_commands w i = Some (started, Some present) \<Longrightarrow>
    tmux_step w (w\<lparr>tw_presence := listed started present (tw_presence w), tw_commands := (tw_commands w)(i := None)\<rparr>)"
| no_server_noted: "tw_commands w i = Some (started, Some []) \<Longrightarrow>
    tmux_step w (w\<lparr>tw_presence := no_server started (tw_presence w), tw_commands := (tw_commands w)(i := None)\<rparr>)"
| command_forgotten: "tmux_step w (w\<lparr>tw_commands := (tw_commands w)(i := None)\<rparr>)"

inductive tmux_reach :: "tmux_world \<Rightarrow> bool" where
  start: "tmux_start w \<Longrightarrow> tmux_reach w"
| step: "tmux_reach w \<Longrightarrow> tmux_step w w' \<Longrightarrow> tmux_reach w'"

end
