(* ===== verification/Presence_Properties.thy ===== *)
theory Presence_Properties
  imports Presence
begin

text \<open>
  The knowledge is never stale in the direction that loses a session, however creates, kills,
  listings and the sessions' own ends interleave.
\<close>

definition knows :: "presence \<Rightarrow> session_name \<Rightarrow> noted option" where
  "knows p n = (case pr_knowledge p of KnownRunning sessions \<Rightarrow> map_of sessions n | _ \<Rightarrow> None)"

definition claims :: "presence \<Rightarrow> bool" where
  "claims p \<longleftrightarrow> (case pr_knowledge p of KnownAbsent \<Rightarrow> True | KnownRunning sessions \<Rightarrow> True | _ \<Rightarrow> False)"

definition sensible :: "presence \<Rightarrow> bool" where
  "sensible p \<longleftrightarrow> pr_may_run p = (\<not> known_absent p) \<and> (\<forall>sessions. pr_knowledge p = KnownRunning sessions \<longrightarrow> sessions \<noteq> [] \<and> distinct (map fst sessions))"

text \<open>Each operation by what it makes of the names known.\<close>

lemma know_simps [simp]: "pr_knowledge (know k p) = k" "pr_epoch (know k p) = pr_epoch p"
    "pr_may_run (know k p) = (case k of KnownAbsent \<Rightarrow> False | Unusable r \<Rightarrow> False | _ \<Rightarrow> True)"
  by (auto simp: know_def publish_def known_absent_def split: knowledge.split)

lemma map_of_retain: "distinct (map fst xs) \<Longrightarrow> map_of (retain started present xs) n =
    (case map_of xs n of Some (Settled at) \<Rightarrow> if started < at \<or> n \<in> set present then Some (Settled at) else None | x \<Rightarrow> x)"
  by (induction xs) (auto simp: retain_def map_of_eq_None_iff dom_map_of_conv_image_fst [symmetric] split: noted.splits option.splits)

lemma running_knows [simp]: "knows (know (running xs) p) n = map_of xs n" "claims (know (running xs) p)"
    "knows (know (KnownRunning xs) p) n = map_of xs n" "claims (know (KnownRunning xs) p)"
  by (simp_all add: knows_def claims_def running_def)

lemma sensible_running: "distinct (map fst xs) \<Longrightarrow> sensible (know (running xs) p)"
    "distinct (map fst xs) \<Longrightarrow> xs \<noteq> [] \<Longrightarrow> sensible (know (KnownRunning xs) p)"
  by (auto simp: sensible_def running_def known_absent_def)

lemma no_server_listed: "no_server started p = listed started [] p"
  by (cases "pr_knowledge p") (simp_all add: no_server_def listed_def retain_def)

lemma op_epochs [simp]: "pr_epoch (create_started n p) = pr_epoch p" "pr_epoch (create_finished n p) = pr_epoch p + 1"
    "pr_epoch (ended n p) = pr_epoch p" "pr_epoch (listed started present p) = pr_epoch p"
  by (simp_all add: create_started_def create_finished_def ended_def listed_def Let_def split: knowledge.split)

lemma op_claims [simp]: "claims (create_started n p) = claims p" "claims (create_finished n p) = claims p"
    "claims (ended n p) = claims p" "claims (listed started present p) = claims p"
  by (simp_all add: create_started_def create_finished_def ended_def listed_def Let_def claims_def running_def split: knowledge.split)

lemma knows_create_started: "claims p \<Longrightarrow> knows (create_started n p) m = (if m = n then Some Creating else knows p m)"
  by (auto simp: create_started_def knows_def claims_def update_conv' split: knowledge.splits)

lemma knows_create_finished:
  "knows p n \<noteq> None \<Longrightarrow> knows (create_finished n p) m = (if m = n then Some (Settled (pr_epoch p + 1)) else knows p m)"
  by (auto simp: create_finished_def knows_def Let_def update_conv' split: knowledge.splits)

lemma knows_ended: "knows (ended n p) m = (if m = n then None else knows p m)"
proof (cases "pr_knowledge p")
  case (KnownRunning xs)
  then show ?thesis by (simp add: ended_def delete_conv') (simp add: knows_def)
qed (simp_all add: ended_def knows_def)

lemma knows_listed: "sensible p \<Longrightarrow> knows (listed started present p) m =
    (case knows p m of Some (Settled at) \<Rightarrow> if started < at \<or> m \<in> set present then Some (Settled at) else None | x \<Rightarrow> x)"
proof (cases "pr_knowledge p")
  case (KnownRunning xs)
  assume "sensible p"
  then have "distinct (map fst xs)" using KnownRunning by (simp add: sensible_def)
  then show ?thesis using KnownRunning by (simp add: listed_def map_of_retain) (simp add: knows_def)
qed (simp_all add: listed_def knows_def)

lemma op_sensible: "sensible p \<Longrightarrow> sensible (create_started n p)" "sensible p \<Longrightarrow> sensible (create_finished n p)"
    "sensible p \<Longrightarrow> sensible (ended n p)" "sensible p \<Longrightarrow> sensible (listed started present p)"
proof -
  assume p: "sensible p"
  show "sensible (create_started n p)"
    using p by (cases "pr_knowledge p") (auto simp: create_started_def sensible_def known_absent_def distinct_update update_nonempty)
  show "sensible (create_finished n p)"
    using p by (cases "pr_knowledge p") (auto simp: create_finished_def Let_def sensible_def known_absent_def distinct_update update_nonempty)
  show "sensible (ended n p)"
    using p by (cases "pr_knowledge p") (auto simp: ended_def sensible_def known_absent_def running_def distinct_delete)
  show "sensible (listed started present p)"
    using p by (cases "pr_knowledge p") (auto simp: listed_def sensible_def known_absent_def running_def retain_def distinct_map_filter)
qed

subsection \<open>Reachable worlds\<close>

definition answer_covers :: "tmux_world \<Rightarrow> nat \<Rightarrow> session_name list option \<Rightarrow> bool" where
  "answer_covers w started answer \<longleftrightarrow> started \<le> pr_epoch (tw_presence w)
    \<and> (\<forall>present n at. answer = Some present \<longrightarrow> n \<in> tw_sessions w \<longrightarrow> knows (tw_presence w) n = Some (Settled at) \<longrightarrow> started < at \<or> n \<in> set present)"

definition world_inv :: "tmux_world \<Rightarrow> bool" where
  "world_inv w \<longleftrightarrow> sensible (tw_presence w) \<and> (claims (tw_presence w) \<longrightarrow>
     (\<forall>n\<in>tw_creating w. knows (tw_presence w) n = Some Creating)
   \<and> (\<forall>n\<in>tw_sessions w. knows (tw_presence w) n \<noteq> None)
   \<and> (\<forall>i started answer. tw_commands w i = Some (started, answer) \<longrightarrow> answer_covers w started answer))"

lemma knows_adopted: "n \<in> set names \<Longrightarrow> knows (adopted names p) n \<noteq> None"
proof -
  have "map_of (fold (\<lambda>n. AList.update n (Settled 0)) names xs) n \<noteq> None" if "n \<in> set names \<or> map_of xs n \<noteq> None" for xs
    using that by (induction names arbitrary: xs) (auto simp: update_conv')
  then show "n \<in> set names \<Longrightarrow> knows (adopted names p) n \<noteq> None" by (simp add: adopted_def)
qed

lemma world_start_inv: "tmux_start w \<Longrightarrow> world_inv w"
proof (induction rule: tmux_start.induct)
  case (adopts S names)
  have "distinct (map fst (fold (\<lambda>n. AList.update n (Settled 0)) names xs))" if "distinct (map fst xs)" for xs
    using that by (induction names arbitrary: xs) (auto simp: distinct_update)
  then have "sensible (adopted names presence_new)" by (simp add: adopted_def sensible_running)
  then show ?case using adopts knows_adopted by (auto simp: world_inv_def)
qed (simp_all add: world_inv_def sensible_def presence_new_def set_absent_def set_unusable_def known_absent_def claims_def)

lemma noted_inv:
  "world_inv w \<Longrightarrow> tw_commands w i = Some (started, Some present) \<Longrightarrow>
    world_inv (w\<lparr>tw_presence := listed started present (tw_presence w), tw_commands := (tw_commands w)(i := None)\<rparr>)"
  by (auto simp: world_inv_def op_sensible knows_listed answer_covers_def split: if_splits option.splits noted.splits)

lemma world_step_inv: "tmux_step w w' \<Longrightarrow> world_inv w \<Longrightarrow> world_inv w'"
proof (induction rule: tmux_step.induct)
  case (create_begins w n)
  then show ?case
    by (cases "claims (tw_presence w)") (auto simp: world_inv_def op_sensible knows_create_started answer_covers_def split: if_splits)
next
  case (tmux_creates n w)
  then show ?case by (fastforce simp: world_inv_def answer_covers_def)
next
  case (create_returns n w)
  show ?case
  proof (cases "claims (tw_presence w)")
    case True
    then have "knows (tw_presence w) n \<noteq> None" using create_returns by (auto simp: world_inv_def)
    then show ?thesis using create_returns
      by (auto simp: world_inv_def op_sensible knows_create_finished answer_covers_def less_Suc_eq_le intro: le_SucI split: if_splits)
  qed (use create_returns in \<open>simp add: world_inv_def op_sensible\<close>)
next
  case (session_ends w n)
  then show ?case by (auto simp: world_inv_def answer_covers_def)
next
  case (kill_noted n w)
  then show ?case by (auto simp: world_inv_def op_sensible knows_ended answer_covers_def split: if_splits)
next
  case (command_starts w i)
  then show ?case by (auto simp: world_inv_def answer_covers_def listing_started_def split: if_splits)
next
  case (tmux_answers w i started present)
  then show ?case by (auto simp: world_inv_def answer_covers_def split: if_splits)
next
  case (listing_noted w i started present)
  then show ?case by (intro noted_inv)
next
  case (no_server_noted w i started)
  then show ?case unfolding no_server_listed by (intro noted_inv)
next
  case (command_forgotten w i)
  then show ?case by (auto simp: world_inv_def answer_covers_def split: if_splits)
qed

lemma reach_inv: "tmux_reach w \<Longrightarrow> world_inv w"
  by (induction rule: tmux_reach.induct) (auto intro: world_start_inv world_step_inv)

text \<open>
  The supervisor never believes gone a session that is there. However creates, kills, listings
  begun before or after them, answers and the sessions' own ends interleave, a session that exists or
  is being created is never known absent, and unless the server cannot be used it is among those the
  supervisor asks about; then a server is known to run, and who waits for one is let go on.
\<close>

theorem presence_sound:
  assumes "tmux_reach w" "n \<in> tw_sessions w \<union> tw_creating w"
  shows "\<not> knows_absent (tw_presence w) n
    \<and> (unusable_reason (tw_presence w) = None \<longrightarrow> may_hold (tw_presence w) n \<and> pr_may_run (tw_presence w))"
proof -
  have i: "world_inv w" using reach_inv [OF assms(1)] .
  show ?thesis
  proof (cases "pr_knowledge (tw_presence w)")
    case KnownAbsent
    then show ?thesis using i assms(2) by (auto simp: world_inv_def claims_def knows_def)
  next
    case (KnownRunning xs)
    then have "knows (tw_presence w) n \<noteq> None" using i assms(2) by (auto simp: world_inv_def claims_def)
    then show ?thesis using i KnownRunning
      by (simp add: knows_absent_def may_hold_def knows_def world_inv_def sensible_def known_absent_def)
  qed (use i in \<open>auto simp: knows_absent_def may_hold_def unusable_reason_def world_inv_def sensible_def known_absent_def\<close>)
qed

text \<open>A listing asked before a session was made, and noted after its create returned, does not lose it.\<close>

lemma presence_sound_witness:
  "may_hold (listed 0 [] (create_finished ''a'' (create_started ''a'' (set_absent presence_new)))) ''a''"
proof -
  let ?w = "\<lparr>tw_presence = set_absent presence_new, tw_sessions = {}, tw_creating = {}, tw_commands = (\<lambda>_. None)\<rparr>"
  note go = tmux_reach.step
  have r0: "tmux_reach ?w" by (intro tmux_reach.start tmux_start.none_runs)
  have r1: "tmux_reach (?w\<lparr>tw_presence := create_started ''a'' (set_absent presence_new), tw_creating := {''a''}\<rparr>)"
    using go [OF r0 create_begins [of ?w "''a''"]] by (simp add: unusable_reason_def set_absent_def)
  note r2 = go [OF r1 command_starts [of _ 0], simplified]
  note r3 = go [OF r2 tmux_answers [of _ 0 0 "[]"], simplified]
  note r4 = go [OF r3 tmux_creates [of "''a''"], simplified]
  note r5 = go [OF r4 create_returns [of "''a''"], simplified]
  note r6 = go [OF r5 listing_noted [of _ 0 0 "[]"], simplified]
  show ?thesis
    using presence_sound [of _ "''a''", OF r6]
    by (simp add: listing_started_def set_absent_def presence_new_def create_started_def create_finished_def listed_def Let_def
        know_def publish_def known_absent_def running_def retain_def unusable_reason_def)
qed

end
