(* ===== verification/Spec2Isabelle.thy ===== *)
theory Spec2Isabelle
  imports Codec_Properties Journal_Properties Host_Iteration Connection_Properties Input_Path Grid_Properties
    Tag Key_Properties Mouse_Properties Attach_Properties Sender_Properties Packing_Properties
    Frames_Properties Control_Replies Pane_Properties Query_Strip Presence_Properties
begin

text \<open>
  Farhelm runs coding agents and shells in terminals that outlive the program that shows them. This
  development models the path between such a terminal and the page that shows it, in both directions,
  and the two other streams the supervisor lives on: its frames with the helm, and tmux's control mode.

  \<^bold>\<open>The parts and how they interact.\<close> A terminal host (\<^verbatim>\<open>crates/terminal-host\<close>) owns a child's pty and a
  journal of its output. The supervisor (\<^verbatim>\<open>crates/farhelm-supervisor\<close>) connects to the host's socket,
  reads the journal into an emulator, and sends each attached client the emulator's screen and history
  as grid messages (\<^verbatim>\<open>crates/farhelm-proto/src/grid.rs\<close>); what the client types comes back as grid
  messages, which the supervisor turns into bytes and writes to the host. Grid messages travel in the
  frames helm and supervisor exchange. Sessions that still live in tmux are read in its control mode.

  \<^bold>\<open>Theories and sources.\<close>
  Shared: \<open>Prelude\<close> (bytes, results, big-endian numbers, text). The interfaces are locales, each
  interpreted on the model's definitions: \<open>field_codec\<close> (a writer and a reader that undo each other, in
  \<open>Wire\<close>; every field of the wire protocol and of the host tag), \<open>message_codec\<close> (a decoder of one
  frame, in \<open>Streams\<close>; both directions of the wire protocol) and \<open>drive_invariant\<close> (what every step of
  a connection's event loop keeps, in \<open>Connection_Inv\<close>).
  \<^item> Wire protocol, \<^verbatim>\<open>terminal-host/src/protocol.rs\<close>: \<open>Wire\<close> (writer, reader, frames), \<open>Messages\<close> (the
    messages and their codecs), \<open>Codec\<close> and \<open>Streams\<close> (lemmas), \<open>Codec_Properties\<close>.
  \<^item> Journal, \<^verbatim>\<open>terminal-host/src/journal.rs\<close>: \<open>Journal\<close> (the state and every operation), \<open>Events\<close>
    and \<open>Journal_Spec\<close> (the abstract history), \<open>Journal_Rep\<close>, \<open>Journal_Ops\<close>, \<open>Journal_Read\<close>, \<open>Journal_Runs\<close> (refinement and
    runs), \<open>Journal_Properties\<close>.
  \<^item> Host, \<^verbatim>\<open>terminal-host/src/host.rs\<close>: \<open>Host\<close>, \<open>Host_Client\<close>, \<open>Host_Serve\<close>, \<open>Host_Step\<close> and \<open>Host_Run\<close>
    (one record per struct, one definition per method; what poll, sockets, pty, child and clock answer
    is an argument), \<open>Host_Inv\<close>, \<open>Host_Safe\<close>, \<open>Host_Reach\<close>, \<open>Client_Inv\<close>, \<open>Client_Wire\<close>, \<open>Client_Loops\<close>
    (invariants), \<open>Host_Properties\<close>, \<open>Host_Ending\<close>, \<open>Host_Iteration\<close>.
  \<^item> Connection to a host, \<^verbatim>\<open>farhelm-supervisor/src/hosts/client.rs\<close>: \<open>Connection\<close>, \<open>Connection_Run\<close>,
    \<open>Connection_Window\<close> and \<open>Connecting\<close>; \<open>Connection_Facts\<close>, \<open>Connection_Inv\<close>, \<open>Connection_Safe\<close>,
    \<open>Connection_Reach\<close>, \<open>Connection_Properties\<close>. \<open>Input_Path\<close> composes the window of this end with the
    host's pending input. \<open>Tag\<close> is \<^verbatim>\<open>hosts/tag.rs\<close>.
  \<^item> Grid format, \<^verbatim>\<open>farhelm-proto/src/grid.rs\<close>: \<open>Grid\<close> (messages, array encodings, checks), \<open>Grid_Stream\<close>
    (\<^verbatim>\<open>GridStreamCheck\<close>), \<open>Grid_Properties\<close>.
  \<^item> Grid input, \<^verbatim>\<open>farhelm-supervisor/src/grid_input.rs\<close>: \<open>Paste\<close>, \<open>Keys\<close>, \<open>Mouse\<close>, \<open>Input_Encoder\<close>;
    \<open>Key_Properties\<close>, \<open>Mouse_Properties\<close>. The input side of an attachment,
    \<^verbatim>\<open>service/grid_stream.rs\<close>: \<open>Attach\<close>, \<open>Attach_Properties\<close>.
  \<^item> Grid output, \<^verbatim>\<open>farhelm-supervisor/src/grid_output.rs\<close>: \<open>Cells\<close> (a row of cells as runs), \<open>Packing\<close>
    (rows, history and clipboard writes into messages), \<open>Screen\<close> (what was sent against what is read).
    \<open>Grid_Sender\<close> is \<^verbatim>\<open>GridStream\<close> of \<^verbatim>\<open>service/grid_stream.rs\<close>: the attach, live cycles, notices and what
    ends them. \<open>Grid_Client\<close> is the client of \<^verbatim>\<open>grid_output/test_client.rs\<close>, which follows the page's.
    \<open>Packing_Facts\<close>, \<open>Client_Facts\<close> and \<open>Sender_Facts\<close> hold the lemmas; \<open>Cells_Properties\<close>,
    \<open>Packing_Properties\<close> and \<open>Sender_Properties\<close> the properties.
  \<^item> Peer frames, \<^verbatim>\<open>farhelm-proto/src/lib.rs\<close> and \<^verbatim>\<open>io.rs\<close>: \<open>Frames\<close>, \<open>Frames_Properties\<close>.
  \<^item> tmux, \<^verbatim>\<open>farhelm-supervisor/src/tmux/control_codec.rs\<close>: \<open>Control_Codec\<close> and \<open>Pane_Facts\<close>;
    \<open>Control_Properties\<close>, \<open>Control_Replies\<close>, \<open>Pane_Properties\<close>. \<open>Query_Strip\<close> is \<^verbatim>\<open>tmux/query_strip.rs\<close>;
    \<open>Presence\<close> is \<^verbatim>\<open>tmux/presence.rs\<close> with the driver's commands and the server as the steps of a world,
    and \<open>Presence_Properties\<close> shows that a session that is there is never believed gone.

  A struct is a record, an enum a datatype, a fallible function returns a sum, bytes are 8-bit words,
  and numbers whose width matters are words or carry their bound. A loop is a recursion with its
  measure; every answer of the environment is consumed from a list, so no fuel is needed for a loop
  that ends with its answers. \<open>read_all\<close> has fuel, one more than the frames it is to read.

  \<^bold>\<open>What the lemmas show.\<close>
  \<^item> The codecs: bytes decode to a message exactly when they are its encoding, in any cut of the stream.
  \<^item> The journal refines a history of events under a cap: every read agrees with the history, in order,
    without loss from where it starts, and draining it terminates.
  \<^item> The host: over all runs its totals are exact and its memory bounded, what any connection was sent is
    whole frames, the exit is recorded once, and a Shutdown ends it however much the connection sent before.
  \<^item> The connection: over all runs, futures dropped anywhere included, it writes whole frames, charges its
    window exactly, keeps the first error, and judges a host gone only on the evidence the code requires.
  \<^item> Composition: an admitted input is never held back by the host, and the acknowledgements it queues,
    sent as bytes and decoded, empty the window.
  \<^item> Grid format: each gate lets through exactly the messages within bounds written out apart from it.
  \<^item> Grid input: what an attachment hands the runtime is each accepted message once and in order, pastes
    whole and unable to close their brackets, within the backlog.
  \<^item> Grid output: the client accepts every message of every run and shows the terminal, its history and
    of each live cycle the last clipboard write; the catch-up ends; rows and runs are packed without loss.
  \<^item> Frames and tmux: frames, replies and pane bytes survive any cut, queries are taken out of any cut;
    peers and panes are judged by exactly what they say.

  \<^bold>\<open>Parameters and hypotheses.\<close> The lengths serde_json gives a row and a link are arguments, of which the
  packing properties assume only that naming links adds at most four characters for each run with one
  and eight more to a row. The JSON printer and parser of a control message, the page's modes read of the emulator,
  lower-casing outside ASCII, the peer process and the process search are arguments too. Of the
  emulator the sender assumes that its cells are well formed (\<open>emulator_ok\<close>) and that lines between two
  reads move only as its own counters say (\<open>evolves\<close>); both are shown to hold of concrete emulators.

  \<^bold>\<open>Bounds.\<close> Every limit is the source's constant. The properties hold for all sizes within them; the
  witnesses use small instances.

  \<^bold>\<open>Not modelled.\<close> The emulator itself (a fork of alacritty's, and the snapshot of it), spawning and
  daemonizing a host, sockets and files, sleeping and waking (a wait is between two operations), the
  supervisor's session store, launch and agent handlers (SQL and processes), the helm (HTTP, ssh and
  provisioning) and the user interface: mostly effects on things whose behaviour is not in the source.
\<close>

end
